(* ===== verification/Prelude.thy ===== *)
theory Prelude
  imports Main "HOL-Library.Word"
begin

text \<open>
  Shared vocabulary of the development: the machine integer types of \<open>base/arch.h\<close>, the
  errno values of \<open>delta/kern/lv2/error_table.h\<close> and the way a syscall returns them, the
  collections of simplification rules the component theories extend, and generic facts on
  words, lists and association lists that several components use.
\<close>

unbundle bit_operations_syntax

section \<open>Machine integers\<close>

type_synonym u8 = "8 word"
type_synonym u16 = "16 word"
type_synonym u32 = "32 word"
type_synonym u64 = "64 word"

named_theorems word_nat \<open>moves comparisons and sums of words to natural numbers\<close>
named_theorems kern_defs \<open>definitions unfolded when an operation is executed symbolically\<close>

declare word_le_nat_alt [word_nat] and word_less_nat_alt [word_nat]

text \<open>
  \<open>fits p n\<close>: the half-open range of \<open>n\<close> bytes from \<open>p\<close> does not run past the end of
  the address space, so \<open>p + n\<close> does not wrap.
\<close>

definition fits :: "u64 \<Rightarrow> u64 \<Rightarrow> bool" where
  "fits p n \<longleftrightarrow> p \<le> p + n"

lemma fits_unat: "fits p n \<longleftrightarrow> unat p + unat n < 2 ^ 64"
proof -
  have "p \<le> p + n \<longleftrightarrow> unat p + unat n < 2 ^ LENGTH(64)"
    by (rule no_olen_add_nat)
  then show ?thesis by (simp add: fits_def)
qed

lemma fitsD: "fits p n \<Longrightarrow> unat (p + n) = unat p + unat n"
  by (simp add: fits_unat unat_word_ariths)

lemma unat_diff_le: "b \<le> (a :: 'a::len word) \<Longrightarrow> unat (a - b) = unat a - unat b"
  by (simp add: unat_sub)

section \<open>Error numbers\<close>

text \<open>
  \<open>enum SysError : u64\<close>. A handler returns \<open>-SysError::eX\<close>: the negation is computed on
  the 64-bit underlying type and narrowed to the 32-bit \<open>int\<close> of the return type.
\<close>

definition ePERM :: u64 where "ePERM = 1"
definition eNOENT :: u64 where "eNOENT = 2"
definition eSRCH :: u64 where "eSRCH = 3"
definition eINTR :: u64 where "eINTR = 4"
definition eBADF :: u64 where "eBADF = 9"
definition eNOMEM :: u64 where "eNOMEM = 12"
definition eFAULT :: u64 where "eFAULT = 14"
definition eACCES :: u64 where "eACCES = 13"
definition eBUSY :: u64 where "eBUSY = 16"
definition eEXIST :: u64 where "eEXIST = 17"
definition eINVAL :: u64 where "eINVAL = 22"
definition ePIPE :: u64 where "ePIPE = 32"
definition eAGAIN :: u64 where "eAGAIN = 35"
definition eNAMETOOLONG :: u64 where "eNAMETOOLONG = 63"
definition eTIMEDOUT :: u64 where "eTIMEDOUT = 60"
definition eCANCELED :: u64 where "eCANCELED = 85"

definition neg_err :: "u64 \<Rightarrow> int" where
  "neg_err e = sint (ucast (- e) :: 32 word)"

lemma neg_err_simps [simp]:
  "neg_err eINTR = - 4" "neg_err eFAULT = - 14" "neg_err ePIPE = - 32" "neg_err eNOENT = - 2" "neg_err eSRCH = - 3" "neg_err eBADF = - 9" "neg_err eNOMEM = - 12"
  "neg_err eBUSY = - 16" "neg_err eEXIST = - 17" "neg_err eINVAL = - 22" "neg_err eAGAIN = - 35"
  "neg_err eTIMEDOUT = - 60" "neg_err eCANCELED = - 85"
  by (simp_all add: neg_err_def eINTR_def eFAULT_def ePIPE_def eNOENT_def eSRCH_def eBADF_def eNOMEM_def eBUSY_def eEXIST_def
      eINVAL_def eAGAIN_def eTIMEDOUT_def eCANCELED_def)

lemma neg_err_more [simp]: "neg_err ePERM = - 1" "neg_err eACCES = - 13" "neg_err eNAMETOOLONG = - 63"
  by code_simp+

section \<open>Powers of two and page addresses\<close>

lemma unat_bound: "unat (x :: u64) < 2 ^ 64"
  by (rule order_less_le_trans [OF unsigned_less]) simp

lemma len64: "LENGTH(64) = 64"
  by simp

lemma unat_page: "k < 64 \<Longrightarrow> unat (2 ^ k :: u64) = 2 ^ k"
proof -
  assume "k < 64"
  then have "(2::nat) ^ k < 2 ^ 64" by (rule power_strict_increasing) simp
  then have "unat (of_nat (2 ^ k) :: u64) = 2 ^ k" unfolding unat_of_nat by (intro mod_less) simp
  then show ?thesis by simp
qed

lemma unat_page_down: "unat (z AND NOT (2 ^ k - 1) :: u64) = unat z div 2 ^ k * 2 ^ k"
proof -
  have "z AND NOT (2 ^ k - 1) = push_bit k (drop_bit k z)"
    by (rule bit_eqI) (auto simp: bit_simps simp flip: mask_eq_exp_minus_1)
  then have "unat (z AND NOT (2 ^ k - 1)) = unat (push_bit k (drop_bit k z))" by (rule arg_cong)
  also have "\<dots> = take_bit 64 (unat z div 2 ^ k * 2 ^ k)"
    unfolding unsigned_push_bit_eq unsigned_drop_bit_eq
    by (simp only: push_bit_eq_mult drop_bit_eq_div take_bit_nat_eq_self [OF unat_bound] len64)
  also have "\<dots> = unat z div 2 ^ k * 2 ^ k"
    using unat_bound [of z] by (intro take_bit_nat_eq_self) (meson div_times_less_eq_dividend order_le_less_trans)
  finally show ?thesis .
qed

lemma page_down_mono: "x \<le> y \<Longrightarrow> x AND NOT (2 ^ k - 1) \<le> (y :: u64) AND NOT (2 ^ k - 1)"
  by (simp add: word_le_nat_alt unat_page_down div_le_mono)

lemma page_up_unat: "(2::u64) ^ k - 1 = m \<Longrightarrow> unat n + unat m < 2 ^ 64 \<Longrightarrow>
    unat ((n + m) AND NOT m) = (unat n + unat m) div 2 ^ k * 2 ^ k"
proof -
  assume m: "(2::u64) ^ k - 1 = m" and "unat n + unat m < 2 ^ 64"
  then have "unat (n + m) = unat n + unat m" by (simp add: unat_word_ariths)
  then show ?thesis using unat_page_down [of "n + m" k] unfolding m by (simp only:)
qed

text \<open>Sizes rounded up to the guest's 16 KiB pages.\<close>

lemma page_up_16k:
  assumes "\<not> n > - 1 - 0x3fff"
  shows "unat ((n + 0x3fff) AND NOT 0x3fff :: u64) = (unat n + 0x3fff) div 0x4000 * 0x4000"
    and "n \<le> (n + 0x3fff) AND NOT 0x3fff"
    and "(n + 0x3fff) AND NOT 0x3fff = (0 :: u64) \<longleftrightarrow> n = 0"
proof -
  have n: "unat n + 0x3fff < 2 ^ 64" using assms by (simp add: word_less_nat_alt not_less)
  have "(2::u64) ^ 14 - 1 = 0x3fff" by simp
  from page_up_unat [OF this, of n] n
  show u: "unat ((n + 0x3fff) AND NOT 0x3fff :: u64) = (unat n + 0x3fff) div 0x4000 * 0x4000" by simp
  have "(unat n + 0x3fff) div 0x4000 * 0x4000 + (unat n + 0x3fff) mod 0x4000 = unat n + 0x3fff"
    by (rule div_mult_mod_eq)
  moreover have "(unat n + 0x3fff) mod 0x4000 < 0x4000" by simp
  ultimately have le: "unat n \<le> (unat n + 0x3fff) div 0x4000 * 0x4000" by linarith
  then show "n \<le> (n + 0x3fff) AND NOT 0x3fff" unfolding word_le_nat_alt u .
  show "(n + 0x3fff) AND NOT 0x3fff = (0 :: u64) \<longleftrightarrow> n = 0"
    using le unfolding unat_eq_0 [symmetric] u by (cases "unat n = 0") simp_all
qed

section \<open>Lists\<close>

lemma length_filter_update: "i < length xs \<Longrightarrow>
    length (filter P (xs[i := x])) + (if P (xs ! i) then 1 else 0) =
    length (filter P xs) + (if P x then 1 else 0)"
proof (induction xs arbitrary: i)
  case (Cons y ys)
  then show ?case by (cases i) auto
qed simp

end
