(* ===== verification/Host_Memory.thy ===== *)
theory Host_Memory
  imports Prelude
begin

text \<open>
  The registry of host mappings of \<open>shared/host_memory/host_memory_posix.cc\<close>. The two
  \<open>base::Map\<close>s are lists sorted by their keys; the loops that move an iterator over them are
  recursions over the rest of the list. Addresses are 64-bit words. Each function takes the registry's
  lock, so each is one step. The results of \<open>mmap\<close>, \<open>munmap\<close> and \<open>mincore\<close> are arguments.
\<close>

section \<open>State\<close>

record mapping =
  mp_end :: u64
  mp_identity :: u64
  mp_reserved :: bool

type_synonym mappings = "(u64 \<times> mapping) list"
type_synonym ranges = "(u64 \<times> u64) list"

record registry =
  hm_mappings :: mappings
  hm_next_identity :: u64
  hm_session :: bool
  hm_owned :: ranges
  hm_mapped :: u64
  hm_reserved :: u64

definition registry_init :: registry where
  "registry_init = \<lparr>hm_mappings = [], hm_next_identity = 0, hm_session = False, hm_owned = [], hm_mapped = 0, hm_reserved = 0\<rparr>"

section \<open>Operations\<close>

text \<open>\<open>upper_bound\<close> of a key followed by one step back: the elements before the iterator, and from it on.\<close>

fun seek :: "u64 \<Rightarrow> (u64 \<times> 'v) list \<Rightarrow> (u64 \<times> 'v) list \<times> (u64 \<times> 'v) list" where
  "seek b [] = ([], [])"
| "seek b [x] = ([], [x])"
| "seek b (x # y # r) = (if fst y \<le> b then (case seek b (y # r) of (pre, suf) \<Rightarrow> (x # pre, suf)) else ([], x # y # r))"

text \<open>
  The pieces of an erased mapping take its place in the list, which is where their keys belong.
\<close>

definition sub_bytes :: "bool \<Rightarrow> u64 \<Rightarrow> registry \<Rightarrow> registry" where
  "sub_bytes reserved n s = (if reserved then s\<lparr>hm_reserved := hm_reserved s - n\<rparr> else s\<lparr>hm_mapped := hm_mapped s - n\<rparr>)"

definition add_bytes :: "bool \<Rightarrow> u64 \<Rightarrow> registry \<Rightarrow> registry" where
  "add_bytes reserved n s = (if reserved then s\<lparr>hm_reserved := hm_reserved s + n\<rparr> else s\<lparr>hm_mapped := hm_mapped s + n\<rparr>)"

fun forget_loop :: "u64 \<Rightarrow> u64 \<Rightarrow> mappings \<Rightarrow> registry \<Rightarrow> mappings \<times> registry" where
  "forget_loop b e [] s = ([], s)"
| "forget_loop b e ((k, m) # r) s =
     (if \<not> k < e then ((k, m) # r, s)
      else if mp_end m \<le> b then (case forget_loop b e r s of (r', s') \<Rightarrow> ((k, m) # r', s'))
      else case forget_loop b e r (sub_bytes (mp_reserved m) (min (mp_end m) e - max k b) s) of (r', s') \<Rightarrow>
        ((if k < b then [(k, m\<lparr>mp_end := b\<rparr>)] else []) @ (if mp_end m > e then [(e, m)] else []) @ r', s'))"

definition ForgetMapping :: "u64 \<Rightarrow> u64 \<Rightarrow> registry \<Rightarrow> registry" where
  "ForgetMapping b e s = (case seek b (hm_mappings s) of (pre, suf) \<Rightarrow>
     case forget_loop b e suf s of (suf', s') \<Rightarrow> s'\<lparr>hm_mappings := pre @ suf'\<rparr>)"

text \<open>The null pointer, the empty range and a range that wraps are ignored.\<close>

definition trackable :: "u64 \<Rightarrow> u64 \<Rightarrow> bool" where
  "trackable p n \<longleftrightarrow> p \<noteq> 0 \<and> n \<noteq> 0 \<and> \<not> n > - 1 - p"

fun emplace :: "u64 \<Rightarrow> 'v \<Rightarrow> (u64 \<times> 'v) list \<Rightarrow> (u64 \<times> 'v) list" where
  "emplace k v [] = [(k, v)]"
| "emplace k v ((a, w) # r) = (if k < a then (k, v) # (a, w) # r else if k = a then (a, w) # r else (a, w) # emplace k v r)"

fun own_loop :: "u64 \<Rightarrow> u64 \<Rightarrow> ranges \<Rightarrow> ranges" where
  "own_loop f e [] = [(f, e)]"
| "own_loop f e ((a, b) # r) =
     (if \<not> a \<le> e then (f, e) # (a, b) # r
      else if b < f then (a, b) # own_loop f e r
      else own_loop (min f a) (max e b) r)"

definition own :: "u64 \<Rightarrow> u64 \<Rightarrow> ranges \<Rightarrow> ranges" where
  "own f e rs = (case seek f rs of (pre, suf) \<Rightarrow> pre @ own_loop f e suf)"

definition TrackMemoryMapping :: "u64 \<Rightarrow> u64 \<Rightarrow> bool \<Rightarrow> registry \<Rightarrow> registry" where
  "TrackMemoryMapping p n reserved s =
     (if \<not> trackable p n then s
      else
        let s = ForgetMapping p (p + n) s;
            s = s\<lparr>hm_next_identity := hm_next_identity s + 1\<rparr>;
            s = s\<lparr>hm_mappings := emplace p \<lparr>mp_end = p + n, mp_identity = hm_next_identity s, mp_reserved = reserved\<rparr> (hm_mappings s)\<rparr>;
            s = add_bytes reserved n s
        in if hm_session s then s\<lparr>hm_owned := own p (p + n) (hm_owned s)\<rparr> else s)"

definition ForgetMemoryMapping :: "u64 \<Rightarrow> u64 \<Rightarrow> registry \<Rightarrow> registry" where
  "ForgetMemoryMapping p n s = (if trackable p n then ForgetMapping p (p + n) s else s)"

fun identity_loop :: "u64 \<Rightarrow> u64 \<Rightarrow> u64 \<Rightarrow> mappings \<Rightarrow> u64" where
  "identity_loop p e h ms =
     (if \<not> p < e then (if h \<noteq> 0 then h else 1)
      else case ms of [] \<Rightarrow> 0
        | (k, m) # r \<Rightarrow> if k > p \<or> mp_end m \<le> p then 0
            else identity_loop (mp_end m) e ((h XOR mp_identity m) * 1099511628211) r)"

definition MemoryMappingIdentity :: "u64 \<Rightarrow> u64 \<Rightarrow> registry \<Rightarrow> u64" where
  "MemoryMappingIdentity p n s =
     (if \<not> trackable p n then 0
      else if list_all (\<lambda>x. p < fst x) (hm_mappings s) then 0
      else identity_loop p (p + n) 1469598103934665603 (snd (seek p (hm_mappings s))))"

fun disown_loop :: "u64 \<Rightarrow> u64 \<Rightarrow> ranges \<Rightarrow> ranges" where
  "disown_loop b e [] = []"
| "disown_loop b e ((f, l) # r) =
     (if \<not> f < e then (f, l) # r
      else if l \<le> b then (f, l) # disown_loop b e r
      else (if f < b then [(f, b)] else []) @ (if l > e then [(e, l)] else []) @ disown_loop b e r)"

definition disown :: "u64 \<Rightarrow> u64 \<Rightarrow> ranges \<Rightarrow> ranges" where
  "disown b e rs = (case seek b rs of (pre, suf) \<Rightarrow> pre @ disown_loop b e suf)"

text \<open>\<open>FreeMem(addr, size)\<close>, where the pieces left of a range take its place; \<open>unmapped\<close> is whether \<open>munmap\<close> succeeded.\<close>

definition FreeMem :: "bool \<Rightarrow> u64 \<Rightarrow> u64 \<Rightarrow> registry \<Rightarrow> registry" where
  "FreeMem unmapped p n s =
     (if p = 0 \<or> n = 0 \<or> \<not> unmapped then s
      else let s = ForgetMapping p (p + n) s in s\<lparr>hm_owned := disown p (p + n) (hm_owned s)\<rparr>)"

definition FreeMem_at :: "bool \<Rightarrow> u64 \<Rightarrow> registry \<Rightarrow> registry" where
  "FreeMem_at unmapped p s =
     FreeMem unmapped p (case map_of (hm_mappings s) p of None \<Rightarrow> 0 | Some m \<Rightarrow> mp_end m - p) s"

definition BeginMemorySession :: "registry \<Rightarrow> registry" where
  "BeginMemorySession s = s\<lparr>hm_session := True\<rparr>"

definition SessionMappedBytes :: "registry \<Rightarrow> u64" where
  "SessionMappedBytes s = fold (\<lambda>(f, e) n. n + (e - f)) (hm_owned s) 0"

definition EndMemorySession :: "registry \<Rightarrow> u64 \<times> registry" where
  "EndMemorySession s = (case fold (\<lambda>(f, e) (n, s). (n + (e - f), ForgetMapping f e s)) (hm_owned s) (0, s) of
     (n, s) \<Rightarrow> (n, s\<lparr>hm_owned := [], hm_session := False\<rparr>))"

text \<open>
  \<open>AllocMem\<close>; \<open>mmap\<close> gives the address the host chose for the call, \<open>None\<close> when it failed. Reserving with an address must not replace a mapping, committing does.
\<close>

datatype AllocationType = kReserve | kCommit | kReservecommit

definition AllocMem :: "(bool \<Rightarrow> u64 \<Rightarrow> u64 \<Rightarrow> u64 option) \<Rightarrow> u64 \<Rightarrow> u64 \<Rightarrow> AllocationType \<Rightarrow> registry \<Rightarrow> u64 option \<times> registry" where
  "AllocMem mmap p n ty s = (case mmap (ty = kReserve) p n of None \<Rightarrow> (None, s)
     | Some q \<Rightarrow> (Some q, TrackMemoryMapping q n (ty = kReserve) s))"

text \<open>
  \<open>IsMemoryRangeMapped\<close>: an untracked range is asked of the host page by page. \<open>mincore\<close> takes the
  first page and the length in bytes, \<open>page_raw\<close> is what \<open>sysconf\<close> gives for the page size.
\<close>

definition IsMemoryRangeMapped :: "(u64 \<Rightarrow> u64 \<Rightarrow> bool) \<Rightarrow> u64 \<Rightarrow> registry \<Rightarrow> u64 \<Rightarrow> u64 \<Rightarrow> bool" where
  "IsMemoryRangeMapped mincore page_raw s p n =
     (if \<not> trackable p n then False
      else if MemoryMappingIdentity p n s \<noteq> 0 then True
      else if sint page_raw \<le> 0 then False
      else
        let f = p AND NOT (page_raw - 1);
            l = (p + n - 1) AND NOT (page_raw - 1);
            pages = (l - f) div page_raw + 1
        in mincore f (pages * page_raw))"

text \<open>
  The search for the longest mapped prefix. Its quantities are natural numbers: each is at most
  \<open>max_len\<close>, so the sums of the source do not wrap.
\<close>

function prefix_loop :: "(nat \<Rightarrow> bool) \<Rightarrow> nat \<Rightarrow> nat \<Rightarrow> nat \<Rightarrow> nat" where
  "prefix_loop is_mapped max_len mapped remaining =
     (if remaining = 0 then mapped
      else let probe = mapped + remaining div 2 + remaining mod 2
           in if is_mapped probe then prefix_loop is_mapped max_len probe (max_len - probe)
              else prefix_loop is_mapped max_len mapped (probe - mapped - 1))"
  by pat_completeness auto
termination
proof (relation "measures [\<lambda>(_, m, p, _). m - p, \<lambda>(_, _, _, r). r]", goal_cases)
  case 1
  then show ?case by simp
next
  case (2 is_mapped max_len mapped remaining probe)
  then have "mapped < probe"
    by (cases "remaining = 1") auto
  then show ?case using 2 by auto
next
  case (3 is_mapped max_len mapped remaining probe)
  then show ?case by auto
qed

definition MappedMemoryPrefix :: "(u64 \<Rightarrow> u64 \<Rightarrow> bool) \<Rightarrow> u64 \<Rightarrow> registry \<Rightarrow> u64 \<Rightarrow> u64 \<Rightarrow> u64" where
  "MappedMemoryPrefix mincore page_raw s p max_len =
     (if p = 0 \<or> max_len = 0 then 0
      else of_nat (prefix_loop (\<lambda>n. IsMemoryRangeMapped mincore page_raw s p (of_nat n)) (unat max_len) 0 (unat max_len)))"

section \<open>What the lists stand for\<close>

text \<open>
  \<open>mapped_as\<close> gives the mapping an address belongs to, \<open>in_ranges\<close> the addresses of the owned
  ranges. A \<open>chain\<close> is sorted, disjoint and has no empty range.
\<close>

fun mapped_as :: "mappings \<Rightarrow> u64 \<Rightarrow> (u64 \<times> bool) option" where
  "mapped_as [] a = None"
| "mapped_as ((k, m) # r) a = (if k \<le> a \<and> a < mp_end m then Some (mp_identity m, mp_reserved m) else mapped_as r a)"

fun in_ranges :: "ranges \<Rightarrow> u64 \<Rightarrow> bool" where
  "in_ranges [] a = False"
| "in_ranges ((f, l) # r) a = (f \<le> a \<and> a < l \<or> in_ranges r a)"

fun chain :: "u64 \<Rightarrow> ranges \<Rightarrow> bool" where
  "chain lo [] = True"
| "chain lo ((f, l) # r) = (lo \<le> f \<and> f < l \<and> chain l r)"

fun chainm :: "u64 \<Rightarrow> mappings \<Rightarrow> bool" where
  "chainm lo [] = True"
| "chainm lo ((k, m) # r) = (lo \<le> k \<and> k < mp_end m \<and> chainm (mp_end m) r)"

fun bytes :: "bool \<Rightarrow> mappings \<Rightarrow> u64" where
  "bytes res [] = 0"
| "bytes res ((k, m) # r) = (if mp_reserved m = res then mp_end m - k else 0) + bytes res r"

lemma chain_mono: "chain lo rs \<Longrightarrow> lo' \<le> lo \<Longrightarrow> chain lo' rs"
  by (cases rs) auto

lemma chainm_mono: "chainm lo ms \<Longrightarrow> lo' \<le> lo \<Longrightarrow> chainm lo' ms"
  by (cases ms) auto

lemma chain_above: "chain lo rs \<Longrightarrow> in_ranges rs a \<Longrightarrow> lo \<le> a"
proof (induction rs arbitrary: lo)
  case (Cons x rs)
  obtain f l where "x = (f, l)" by fastforce
  with Cons show ?case by (auto dest: chain_mono [of l rs lo])
qed simp

lemma chainm_above: "chainm lo ms \<Longrightarrow> a < lo \<Longrightarrow> mapped_as ms a = None"
proof (induction ms arbitrary: lo)
  case (Cons x ms)
  obtain k m where "x = (k, m)" by fastforce
  with Cons show ?case by auto
qed simp

lemma lookup_append: "mapped_as (xs @ ys) a = (case mapped_as xs a of None \<Rightarrow> mapped_as ys a | Some v \<Rightarrow> Some v)"
  by (induction xs) auto

lemma in_ranges_append [simp]: "in_ranges (xs @ ys) a \<longleftrightarrow> in_ranges xs a \<or> in_ranges ys a"
  by (induction xs) auto

section \<open>Forgetting a range\<close>

text \<open>What the loop leaves of one mapping; on a chain the whole loop is this, mapping by mapping.\<close>

definition rest_of :: "u64 \<Rightarrow> u64 \<Rightarrow> u64 \<times> mapping \<Rightarrow> mappings" where
  "rest_of b e x = (case x of (k, m) \<Rightarrow>
     if k < e \<and> b < mp_end m
     then (if k < b then [(k, m\<lparr>mp_end := b\<rparr>)] else []) @ (if e < mp_end m then [(e, m)] else [])
     else [x])"

lemma rest_of_late: "chainm lo ms \<Longrightarrow> e \<le> lo \<Longrightarrow> concat (map (rest_of b e) ms) = ms"
proof (induction ms arbitrary: lo)
  case (Cons x ms)
  obtain k m where "x = (k, m)" by fastforce
  with Cons show ?case by (auto simp: rest_of_def)
qed simp

lemma forget_loop_rest: "chainm lo ms \<Longrightarrow> fst (forget_loop b e ms s) = concat (map (rest_of b e) ms)"
proof (induction ms arbitrary: lo s)
  case (Cons x ms)
  obtain k m where x: "x = (k, m)" by fastforce
  show ?case
  proof (cases "k < e")
    case True
    have "chainm (mp_end m) ms" using Cons.prems x by simp
    then have IH: "fst (forget_loop b e ms s') = concat (map (rest_of b e) ms)" for s'
      by (rule Cons.IH)
    have "rest_of b e x = (if mp_end m \<le> b then [x] else
        (if k < b then [(k, m\<lparr>mp_end := b\<rparr>)] else []) @ (if e < mp_end m then [(e, m)] else []))"
      using True x by (auto simp: rest_of_def)
    then show ?thesis using True x by (simp add: IH split_beta)
  next
    case False
    then have "concat (map (rest_of b e) (x # ms)) = x # ms"
      using Cons.prems x by (intro rest_of_late [of k]) auto
    then show ?thesis using False x by simp
  qed
qed simp

lemma rest_of_lookup: "b < e \<Longrightarrow> k < mp_end m \<Longrightarrow>
    mapped_as (rest_of b e (k, m)) a = (if b \<le> a \<and> a < e then None else mapped_as [(k, m)] a)"
  by (auto simp: rest_of_def)

lemma rest_of_chain: "b < e \<Longrightarrow> k < mp_end m \<Longrightarrow> lo \<le> k \<Longrightarrow> chainm (mp_end m) ms \<Longrightarrow> chainm lo (rest_of b e (k, m) @ ms)"
  by (auto simp: rest_of_def elim: chainm_mono)

lemma rest_of_bytes: "b < e \<Longrightarrow> k < mp_end m \<Longrightarrow>
    bytes res (rest_of b e (k, m)) =
      (if mp_reserved m = res
       then mp_end m - k - (if k < e \<and> \<not> mp_end m \<le> b then min (mp_end m) e - max k b else 0) else 0)"
  by (auto simp: rest_of_def min_def max_def)

lemma bytes_append [simp]: "bytes res (xs @ ys) = bytes res xs + bytes res ys"
  by (induction xs) auto

lemma rest_lookup:
  "chainm lo ms \<Longrightarrow> b < e \<Longrightarrow> mapped_as (concat (map (rest_of b e) ms)) a = (if b \<le> a \<and> a < e then None else mapped_as ms a)"
proof (induction ms arbitrary: lo)
  case (Cons x ms)
  obtain k m where x: "x = (k, m)" by fastforce
  then have "chainm (mp_end m) ms" "k < mp_end m" using Cons.prems by auto
  then show ?case
    using Cons.IH [of "mp_end m"] Cons.prems(2) x by (simp add: lookup_append rest_of_lookup)
qed simp

lemma rest_chain: "chainm lo ms \<Longrightarrow> b < e \<Longrightarrow> chainm lo (concat (map (rest_of b e) ms))"
proof (induction ms arbitrary: lo)
  case (Cons x ms)
  obtain k m where "x = (k, m)" by fastforce
  with Cons show ?case by (simp add: rest_of_chain)
qed simp

lemma sub_bytes_simps [simp]:
  "hm_mapped (sub_bytes res n s) = hm_mapped s - (if res then 0 else n)"
  "hm_reserved (sub_bytes res n s) = hm_reserved s - (if res then n else 0)"
  "hm_mappings (sub_bytes res n s) = hm_mappings s"
  "hm_next_identity (sub_bytes res n s) = hm_next_identity s"
  "hm_session (sub_bytes res n s) = hm_session s"
  "hm_owned (sub_bytes res n s) = hm_owned s"
  by (auto simp: sub_bytes_def)

lemma forget_loop_keeps:
  "hm_mappings (snd (forget_loop b e ms s)) = hm_mappings s"
  "hm_next_identity (snd (forget_loop b e ms s)) = hm_next_identity s"
  "hm_session (snd (forget_loop b e ms s)) = hm_session s"
  "hm_owned (snd (forget_loop b e ms s)) = hm_owned s"
  by (induction b e ms s rule: forget_loop.induct) (simp_all add: split_beta)

lemma forget_bytes:
  assumes "chainm lo ms" "b < e"
  shows "hm_mapped (snd (forget_loop b e ms s)) = hm_mapped s - (bytes False ms - bytes False (concat (map (rest_of b e) ms)))
    \<and> hm_reserved (snd (forget_loop b e ms s)) = hm_reserved s - (bytes True ms - bytes True (concat (map (rest_of b e) ms)))"
  using assms
proof (induction ms arbitrary: lo s)
  case (Cons x ms)
  obtain k m where x: "x = (k, m)" by fastforce
  then have ms: "chainm (mp_end m) ms" "k < mp_end m" "lo \<le> k" using Cons.prems by auto
  show ?case
  proof (cases "k < e")
    case True
    then show ?thesis
      using Cons.IH [OF ms(1) Cons.prems(2)] Cons.prems(2) x ms(2)
      by (cases "mp_end m \<le> b") (simp_all add: split_beta rest_of_bytes)
  next
    case False
    then have "concat (map (rest_of b e) (x # ms)) = x # ms"
      using Cons.prems x by (intro rest_of_late [of k]) auto
    then show ?thesis using False x by simp
  qed
qed simp

lemma seek_append: "seek b xs = (pre, suf) \<Longrightarrow> xs = pre @ suf"
  by (induction b xs arbitrary: pre suf rule: seek.induct) (auto split: if_splits prod.splits)

lemma seek_forget:
  "chainm lo ms \<Longrightarrow> b < e \<Longrightarrow>
    forget_loop b e ms s = (fst (seek b ms) @ fst (forget_loop b e (snd (seek b ms)) s), snd (forget_loop b e (snd (seek b ms)) s))"
proof (induction b ms arbitrary: lo rule: seek.induct)
  case (3 b x y r)
  obtain k m k' m' where xy: "x = (k, m)" "y = (k', m')" by fastforce
  show ?case
  proof (cases "k' \<le> b")
    case True
    then have "mp_end m \<le> b" "k < e" using "3.prems" xy by auto
    then show ?thesis using True 3 xy by (auto simp: split_beta simp del: forget_loop.simps(2)) (simp add: split_beta)
  qed (simp add: xy)
qed auto

text \<open>The effect of \<open>ForgetMapping\<close> on a well-formed registry.\<close>

definition registry_wf :: "registry \<Rightarrow> bool" where
  "registry_wf s \<longleftrightarrow> chainm 1 (hm_mappings s) \<and> chain 1 (hm_owned s)
     \<and> hm_mapped s = bytes False (hm_mappings s) \<and> hm_reserved s = bytes True (hm_mappings s)"

lemma ForgetMapping_eq:
  assumes "chainm lo (hm_mappings s)" "b < e"
  shows "ForgetMapping b e s = (snd (forget_loop b e (hm_mappings s) s))\<lparr>hm_mappings := concat (map (rest_of b e) (hm_mappings s))\<rparr>"
  unfolding forget_loop_rest [OF assms(1), of b e s, symmetric]
  by (simp add: ForgetMapping_def split_beta seek_forget [OF assms])

lemma ForgetMapping_fields [simp]:
  "hm_next_identity (ForgetMapping b e s) = hm_next_identity s"
  "hm_session (ForgetMapping b e s) = hm_session s"
  "hm_owned (ForgetMapping b e s) = hm_owned s"
  by (simp_all add: ForgetMapping_def split_beta forget_loop_keeps)

lemma ForgetMapping_wf:
  assumes "registry_wf s" "b < e"
  shows "registry_wf (ForgetMapping b e s)"
  using assms forget_bytes [of 1 "hm_mappings s" b e s] rest_chain [of 1 "hm_mappings s" b e]
  by (simp add: registry_wf_def ForgetMapping_eq [of 1] forget_loop_keeps)

lemma ForgetMapping_lookup:
  assumes "registry_wf s" "b < e"
  shows "mapped_as (hm_mappings (ForgetMapping b e s)) a = (if b \<le> a \<and> a < e then None else mapped_as (hm_mappings s) a)"
  using assms rest_lookup [of 1 "hm_mappings s" b e a]
  by (simp add: registry_wf_def ForgetMapping_eq [of 1])

section \<open>Tracking a range\<close>

lemma emplace_gap:
  assumes "chainm lo ms" "lo \<le> k" "k < mp_end m" "\<And>a. k \<le> a \<Longrightarrow> a < mp_end m \<Longrightarrow> mapped_as ms a = None"
  shows "chainm lo (emplace k m ms)
    \<and> (\<forall>a. mapped_as (emplace k m ms) a = (if k \<le> a \<and> a < mp_end m then Some (mp_identity m, mp_reserved m) else mapped_as ms a))
    \<and> (\<forall>res. bytes res (emplace k m ms) = bytes res ms + (if mp_reserved m = res then mp_end m - k else 0))"
  using assms
proof (induction ms arbitrary: lo)
  case (Cons x ms)
  obtain k' m' where x: "x = (k', m')" by fastforce
  have c: "lo \<le> k'" "k' < mp_end m'" "chainm (mp_end m') ms" using Cons.prems x by auto
  have free: "\<not> (k' \<le> a \<and> a < mp_end m')" "mapped_as ms a = None" if "k \<le> a" "a < mp_end m" for a
    using Cons.prems(4) [OF that] x by (auto split: if_splits)
  consider "mp_end m \<le> k'" "k < k'" | "mp_end m' \<le> k" "k' < k"
    using free(1) [of k] free(1) [of k'] c Cons.prems(3) by fastforce
  then show ?case
  proof cases
    case 1
    then show ?thesis using x c Cons.prems free by (auto simp: chainm_above)
  next
    case 2
    then show ?thesis using Cons.IH [OF c(3) 2(1) Cons.prems(3) free(2)] x c 2 by auto
  qed
qed simp

lemma trackable_fits: "trackable p n \<longleftrightarrow> p \<noteq> 0 \<and> n \<noteq> 0 \<and> unat p + unat n < 2 ^ 64"
proof -
  have "unat (- 1 :: u64) = 2 ^ 64 - 1"
    by (simp add: unsigned_minus_1_eq_mask mask_eq_exp_minus_1)
  then have "unat (- 1 - p) = 2 ^ 64 - 1 - unat p"
    by (simp add: unat_sub)
  moreover have "unat p < 2 ^ 64" using unsigned_less [of p] by simp
  ultimately have "(\<not> n > - 1 - p) = (unat p + unat n < 2 ^ 64)"
    by (simp only: word_less_nat_alt) linarith
  then show ?thesis by (simp only: trackable_def)
qed

lemma trackable_less: "trackable p n \<Longrightarrow> p < p + n"
  by (simp add: trackable_fits word_less_nat_alt unat_word_ariths unat_gt_0)

lemma own_loop_chain: "chain lo rs \<Longrightarrow> lo \<le> f \<Longrightarrow> f < e \<Longrightarrow> chain lo (own_loop f e rs)"
proof (induction rs arbitrary: lo f e)
  case (Cons x rs)
  obtain a b where x: "x = (a, b)" by fastforce
  then have c: "lo \<le> a" "a < b" "chain b rs" using Cons.prems by auto
  have "chain lo rs" using c by (auto elim: chain_mono)
  then show ?case
    using Cons.IH [of lo "min f a" "max e b"] Cons.IH [of b f e] Cons.prems x c by (auto simp: min_def max_def)
qed simp

lemma own_loop_ranges: "chain lo rs \<Longrightarrow> f < e \<Longrightarrow> in_ranges (own_loop f e rs) a \<longleftrightarrow> f \<le> a \<and> a < e \<or> in_ranges rs a"
proof (induction rs arbitrary: lo f e)
  case (Cons x rs)
  obtain c d where x: "x = (c, d)" by fastforce
  then have c: "lo \<le> c" "c < d" "chain d rs" using Cons.prems by auto
  show ?case
  proof (cases "c \<le> e \<and> f \<le> d")
    case True
    moreover have "min f c < max e d" using Cons.prems by (auto simp: min_def max_def)
    ultimately have "in_ranges (own_loop f e (x # rs)) a \<longleftrightarrow> min f c \<le> a \<and> a < max e d \<or> in_ranges rs a"
      using Cons.IH [OF c(3)] x by (simp add: leD)
    moreover have "min f c \<le> a \<and> a < max e d \<longleftrightarrow> f \<le> a \<and> a < e \<or> c \<le> a \<and> a < d"
      using True by (auto simp: min_le_iff_disj less_max_iff_disj)
    ultimately show ?thesis using x by auto
  next
    case False
    then show ?thesis using Cons.IH [OF c(3)] Cons.prems x by auto
  qed
qed simp

lemma own_correct: "chain lo rs \<Longrightarrow> lo \<le> f \<Longrightarrow> f < e \<Longrightarrow>
    chain lo (own f e rs) \<and> (\<forall>a. in_ranges (own f e rs) a \<longleftrightarrow> f \<le> a \<and> a < e \<or> in_ranges rs a)"
proof (induction f rs arbitrary: lo rule: seek.induct)
  case (3 f x y r)
  obtain a b c d where xy: "x = (a, b)" "y = (c, d)" by fastforce
  show ?case
  proof (cases "c \<le> f")
    case True
    then have "own f e (x # y # r) = x # own f e (y # r)" using xy by (simp add: own_def split_beta)
    moreover have "b \<le> f" "chain b (y # r)" "lo \<le> a" "a < b" using "3.prems" xy True by auto
    ultimately show ?thesis using "3.IH" [of b] "3.prems"(3) True xy by auto
  next
    case False
    then have "own f e (x # y # r) = own_loop f e (x # y # r)" using xy by (simp add: own_def)
    then show ?thesis using own_loop_chain [OF "3.prems"] own_loop_ranges [OF "3.prems"(1,3)] by simp
  qed
next
  case (2 f x)
  then show ?case using own_loop_chain [OF 2] own_loop_ranges [OF 2(1,3)] by (simp add: own_def)
qed (simp add: own_def)

lemma add_bytes_simps [simp]:
  "hm_mapped (add_bytes res n s) = hm_mapped s + (if res then 0 else n)"
  "hm_reserved (add_bytes res n s) = hm_reserved s + (if res then n else 0)"
  "hm_mappings (add_bytes res n s) = hm_mappings s"
  "hm_next_identity (add_bytes res n s) = hm_next_identity s"
  "hm_session (add_bytes res n s) = hm_session s"
  "hm_owned (add_bytes res n s) = hm_owned s"
  by (auto simp: add_bytes_def)

lemma TrackMemoryMapping_correct:
  assumes wf: "registry_wf s" and t: "trackable p n"
  shows "registry_wf (TrackMemoryMapping p n res s)
    \<and> (\<forall>a. mapped_as (hm_mappings (TrackMemoryMapping p n res s)) a =
        (if p \<le> a \<and> a < p + n then Some (hm_next_identity s + 1, res) else mapped_as (hm_mappings s) a))
    \<and> (\<forall>a. in_ranges (hm_owned (TrackMemoryMapping p n res s)) a \<longleftrightarrow>
        hm_session s \<and> p \<le> a \<and> a < p + n \<or> in_ranges (hm_owned s) a)
    \<and> hm_session (TrackMemoryMapping p n res s) = hm_session s
    \<and> hm_next_identity (TrackMemoryMapping p n res s) = hm_next_identity s + 1"
proof -
  let ?s = "ForgetMapping p (p + n) s"
  let ?m = "\<lparr>mp_end = p + n, mp_identity = hm_next_identity s + 1, mp_reserved = res\<rparr>"
  have p: "1 \<le> p" using t by (simp add: trackable_fits word_le_nat_alt unat_gt_0 Suc_leI)
  have less: "p < p + n" using t by (rule trackable_less)
  have f: "registry_wf ?s" using wf less by (rule ForgetMapping_wf)
  have l: "mapped_as (hm_mappings ?s) a = (if p \<le> a \<and> a < p + n then None else mapped_as (hm_mappings s) a)" for a
    using wf less by (rule ForgetMapping_lookup)
  have e: "chainm 1 (emplace p ?m (hm_mappings ?s))"
    "mapped_as (emplace p ?m (hm_mappings ?s)) a =
       (if p \<le> a \<and> a < p + n then Some (hm_next_identity s + 1, res) else mapped_as (hm_mappings ?s) a)"
    "bytes r (emplace p ?m (hm_mappings ?s)) = bytes r (hm_mappings ?s) + (if res = r then n else 0)" for a r
    using emplace_gap [of 1 "hm_mappings ?s" p ?m] f p less l by (auto simp: registry_wf_def)
  have o: "chain 1 (own p (p + n) (hm_owned s))"
    "in_ranges (own p (p + n) (hm_owned s)) a \<longleftrightarrow> p \<le> a \<and> a < p + n \<or> in_ranges (hm_owned s) a" for a
    using own_correct [of 1 "hm_owned s" p "p + n"] wf p less by (auto simp: registry_wf_def)
  show ?thesis
    using t f by (simp add: TrackMemoryMapping_def Let_def registry_wf_def e l o)
qed

lemma TrackMemoryMapping_ignored: "\<not> trackable p n \<Longrightarrow> TrackMemoryMapping p n res s = s"
  by (simp add: TrackMemoryMapping_def)

section \<open>Freeing a range\<close>

lemma disown_loop_correct: "chain lo rs \<Longrightarrow> b < e \<Longrightarrow>
    chain lo (disown_loop b e rs) \<and> (\<forall>a. in_ranges (disown_loop b e rs) a \<longleftrightarrow> in_ranges rs a \<and> \<not> (b \<le> a \<and> a < e))"
proof (induction rs arbitrary: lo)
  case (Cons x rs)
  obtain f l where x: "x = (f, l)" by fastforce
  then have c: "lo \<le> f" "f < l" "chain l rs" using Cons.prems by auto
  note IH = Cons.IH [OF c(3) Cons.prems(2)]
  consider "e \<le> f" | "f < e" "l \<le> b" | "f < e" "b < l" by fastforce
  then show ?case
  proof cases
    case 1
    then have "in_ranges rs a \<Longrightarrow> \<not> a < e" for a using chain_above [OF c(3)] c by fastforce
    then show ?thesis using 1 c x by auto
  next
    case 2
    then have "\<not> (f \<le> a \<and> a < l \<and> b \<le> a)" for a by fastforce
    then show ?thesis using IH c x 2 by simp blast
  next
    case 3
    have "chain lo (disown_loop b e rs)" "chain b (disown_loop b e rs)" "chain l (disown_loop b e rs)"
      using IH c 3 by (auto elim: chain_mono)
    moreover have loop: "disown_loop b e (x # rs) =
        ((if f < b then [(f, b)] else []) @ (if l > e then [(e, l)] else [])) @ disown_loop b e rs"
      using 3 x by (simp add: leD)
    ultimately have "chain lo (disown_loop b e (x # rs))"
      using 3 c Cons.prems(2) by (simp add: less_imp_le)
    moreover have "in_ranges ((if f < b then [(f, b)] else []) @ (if l > e then [(e, l)] else [])) a
        \<longleftrightarrow> f \<le> a \<and> a < l \<and> \<not> (b \<le> a \<and> a < e)" for a
      using 3 c Cons.prems(2) by auto
    moreover have "in_ranges (x # rs) a \<longleftrightarrow> f \<le> a \<and> a < l \<or> in_ranges rs a" for a
      using x by simp
    ultimately show ?thesis unfolding loop in_ranges_append using IH by blast
  qed
qed simp

lemma disown_correct: "chain lo rs \<Longrightarrow> b < e \<Longrightarrow>
    chain lo (disown b e rs) \<and> (\<forall>a. in_ranges (disown b e rs) a \<longleftrightarrow> in_ranges rs a \<and> \<not> (b \<le> a \<and> a < e))"
proof (induction b rs arbitrary: lo rule: seek.induct)
  case (3 b x y r)
  obtain a l c d where xy: "x = (a, l)" "y = (c, d)" by fastforce
  show ?case
  proof (cases "c \<le> b")
    case True
    then have "disown b e (x # y # r) = x # disown b e (y # r)" using xy by (simp add: disown_def split_beta)
    moreover have "l \<le> b" "chain l (y # r)" "lo \<le> a" "a < l" using "3.prems" xy True by auto
    moreover have "\<not> (a \<le> u \<and> u < l \<and> b \<le> u)" for u using \<open>l \<le> b\<close> by fastforce
    moreover note "3.IH" [of l]
    ultimately show ?thesis using "3.prems"(2) True xy by simp blast
  next
    case False
    then have "disown b e (x # y # r) = disown_loop b e (x # y # r)" using xy by (simp add: disown_def)
    then show ?thesis using disown_loop_correct [OF "3.prems"] by simp
  qed
next
  case (2 b x)
  then show ?case using disown_loop_correct [OF 2] by (simp add: disown_def)
qed (simp add: disown_def)

lemma fits_less: "fits p n \<Longrightarrow> n \<noteq> 0 \<Longrightarrow> p < p + n"
  by (simp add: fitsD word_less_nat_alt unat_gt_0)

lemma FreeMem_correct:
  assumes "registry_wf s" "unmapped \<Longrightarrow> fits p n"
  shows "registry_wf (FreeMem unmapped p n s)
    \<and> (\<forall>a. mapped_as (hm_mappings (FreeMem unmapped p n s)) a =
        (if unmapped \<and> p \<noteq> 0 \<and> p \<le> a \<and> a < p + n then None else mapped_as (hm_mappings s) a))
    \<and> (\<forall>a. in_ranges (hm_owned (FreeMem unmapped p n s)) a \<longleftrightarrow>
        in_ranges (hm_owned s) a \<and> \<not> (unmapped \<and> p \<noteq> 0 \<and> p \<le> a \<and> a < p + n))
    \<and> hm_session (FreeMem unmapped p n s) = hm_session s
    \<and> hm_next_identity (FreeMem unmapped p n s) = hm_next_identity s"
proof (cases "unmapped \<and> p \<noteq> 0 \<and> n \<noteq> 0")
  case True
  then have less: "p < p + n" using assms(2) by (simp add: fits_less)
  show ?thesis
    using ForgetMapping_wf [OF assms(1) less] ForgetMapping_lookup [OF assms(1) less]
      disown_correct [of 1 "hm_owned s", OF _ less] assms(1) True
    by (simp add: FreeMem_def Let_def registry_wf_def)
next
  case False
  then show ?thesis using assms(1) by (auto simp: FreeMem_def)
qed

lemma ForgetMemoryMapping_correct:
  assumes "registry_wf s"
  shows "registry_wf (ForgetMemoryMapping p n s)
    \<and> (\<forall>a. mapped_as (hm_mappings (ForgetMemoryMapping p n s)) a =
        (if trackable p n \<and> p \<le> a \<and> a < p + n then None else mapped_as (hm_mappings s) a))
    \<and> hm_owned (ForgetMemoryMapping p n s) = hm_owned s
    \<and> hm_session (ForgetMemoryMapping p n s) = hm_session s
    \<and> hm_next_identity (ForgetMemoryMapping p n s) = hm_next_identity s"
  using ForgetMapping_wf [OF assms trackable_less] ForgetMapping_lookup [OF assms trackable_less]
  by (auto simp: ForgetMemoryMapping_def assms)

section \<open>Sessions\<close>

lemma EndMemorySession_loop:
  assumes "registry_wf s" "chain lo rs"
  shows "registry_wf (snd (fold (\<lambda>(f, e) (n, s). (n + (e - f), ForgetMapping f e s)) rs (n, s)))
    \<and> (\<forall>a. mapped_as (hm_mappings (snd (fold (\<lambda>(f, e) (n, s). (n + (e - f), ForgetMapping f e s)) rs (n, s)))) a =
        (if in_ranges rs a then None else mapped_as (hm_mappings s) a))
    \<and> hm_next_identity (snd (fold (\<lambda>(f, e) (n, s). (n + (e - f), ForgetMapping f e s)) rs (n, s))) = hm_next_identity s
    \<and> fst (fold (\<lambda>(f, e) (n, s). (n + (e - f), ForgetMapping f e s)) rs (n, s)) = fold (\<lambda>(f, e) n. n + (e - f)) rs n"
  using assms
proof (induction rs arbitrary: lo n s)
  case (Cons x rs)
  obtain f e where x: "x = (f, e)" by fastforce
  then have less: "f < e" "chain e rs" using Cons.prems by auto
  note IH = Cons.IH [OF ForgetMapping_wf [OF Cons.prems(1) less(1)] less(2), of "n + (e - f)"]
  show ?case
    using IH x by (simp add: ForgetMapping_lookup [OF Cons.prems(1) less(1)])
qed simp

lemma EndMemorySession_correct:
  assumes "registry_wf s"
  shows "registry_wf (snd (EndMemorySession s))
    \<and> (\<forall>a. mapped_as (hm_mappings (snd (EndMemorySession s))) a =
        (if in_ranges (hm_owned s) a then None else mapped_as (hm_mappings s) a))
    \<and> hm_owned (snd (EndMemorySession s)) = []
    \<and> \<not> hm_session (snd (EndMemorySession s))
    \<and> hm_next_identity (snd (EndMemorySession s)) = hm_next_identity s
    \<and> fst (EndMemorySession s) = SessionMappedBytes s"
proof -
  have "chain 1 (hm_owned s)" using assms by (simp add: registry_wf_def)
  from EndMemorySession_loop [OF assms this, of 0] show ?thesis
    by (simp add: EndMemorySession_def SessionMappedBytes_def split_beta registry_wf_def)
qed

section \<open>Counting bytes\<close>

lemma card_range: "card {a. f \<le> a \<and> a < (e::u64)} = unat e - unat f"
proof -
  have "inj_on unat {a. f \<le> a \<and> a < e}" by (auto simp: inj_on_def word_unat_eq_iff)
  moreover have "unat ` {a. f \<le> a \<and> a < e} = {unat f..<unat e}"
  proof (rule set_eqI, rule iffI)
    fix n assume "n \<in> unat ` {a. f \<le> a \<and> a < e}"
    then obtain a where "n = unat a" "f \<le> a" "a < e" by blast
    then show "n \<in> {unat f..<unat e}" by (simp add: word_le_nat_alt word_less_nat_alt)
  next
    fix n assume n: "n \<in> {unat f..<unat e}"
    have "unat e < 2 ^ 64" by (rule order_less_le_trans [OF unsigned_less]) simp
    then have "n < 2 ^ 64" using n by simp
    then have "unat (of_nat n :: u64) = n" by (simp add: unat_of_nat take_bit_nat_eq_self)
    then show "n \<in> unat ` {a. f \<le> a \<and> a < e}"
      using n by (intro image_eqI [of _ _ "of_nat n"]) (simp_all add: word_le_nat_alt word_less_nat_alt)
  qed
  ultimately show ?thesis using card_image [of unat "{a. f \<le> a \<and> a < e}"] by simp
qed

lemma of_nat_card_range: "f < e \<Longrightarrow> of_nat (card {a. f \<le> a \<and> a < (e::u64)}) = e - f"
  unfolding card_range by (simp add: of_nat_diff word_less_nat_alt)

lemma owned_bytes: "chain lo rs \<Longrightarrow> fold (\<lambda>(f, e) n. n + (e - f)) rs n = n + of_nat (card {a. in_ranges rs a})"
proof (induction rs arbitrary: lo n)
  case (Cons x rs)
  obtain f e where x: "x = (f, e)" by fastforce
  then have c: "f < e" "chain e rs" using Cons.prems by auto
  have "{a. in_ranges (x # rs) a} = {a. f \<le> a \<and> a < e} \<union> {a. in_ranges rs a}" using x by auto
  moreover have "{a. f \<le> a \<and> a < e} \<inter> {a. in_ranges rs a} = {}" using chain_above [OF c(2)] by fastforce
  ultimately have "card {a. in_ranges (x # rs) a} = card {a. f \<le> a \<and> a < e} + card {a. in_ranges rs a}"
    by (simp add: card_Un_disjoint)
  then show ?case using Cons.IH [OF c(2)] x c(1) by (simp add: of_nat_card_range)
next
  case Nil
  have "{a. in_ranges [] a} = {}" by simp
  then show ?case by simp
qed

lemma mapped_bytes: "chainm lo ms \<Longrightarrow> bytes res ms = of_nat (card {a. \<exists>i. mapped_as ms a = Some (i, res)})"
proof (induction ms arbitrary: lo)
  case (Cons x ms)
  obtain k m where x: "x = (k, m)" by fastforce
  then have c: "k < mp_end m" "chainm (mp_end m) ms" using Cons.prems by auto
  let ?here = "{a. k \<le> a \<and> a < mp_end m \<and> mp_reserved m = res}" and ?rest = "{a. \<exists>i. mapped_as ms a = Some (i, res)}"
  have "{a. \<exists>i. mapped_as (x # ms) a = Some (i, res)} = ?here \<union> ?rest"
    using x chainm_above [OF c(2)] by (auto split: if_splits)
  moreover have "?here \<inter> ?rest = {}" using chainm_above [OF c(2)] by auto
  ultimately have "card {a. \<exists>i. mapped_as (x # ms) a = Some (i, res)} = card ?here + card ?rest"
    by (simp add: card_Un_disjoint)
  then show ?case
    using Cons.IH [OF c(2)] x of_nat_card_range [OF c(1)] by (cases "mp_reserved m = res") simp_all
qed simp

text \<open>Address 0 is in no range, so the counts stay below $2^{64}$ and the word sums do not wrap.\<close>

lemma unat_of_card:
  assumes "0 \<notin> A" shows "unat (of_nat (card (A :: u64 set)) :: u64) = card A"
proof -
  have "card A \<le> card (UNIV - {0 :: u64})" using assms by (intro card_mono) auto
  also have "card (UNIV - {0 :: u64}) = 2 ^ 64 - 1" by (simp add: card_Diff_singleton card_word)
  finally show ?thesis by (simp add: unat_of_nat take_bit_nat_eq_self)
qed

lemma stats_exact:
  assumes "registry_wf s"
  shows "unat (hm_mapped s) = card {a. \<exists>i. mapped_as (hm_mappings s) a = Some (i, False)}"
    and "unat (hm_reserved s) = card {a. \<exists>i. mapped_as (hm_mappings s) a = Some (i, True)}"
    and "unat (SessionMappedBytes s) = card {a. in_ranges (hm_owned s) a}"
proof -
  have wf: "chainm 1 (hm_mappings s)" "chain 1 (hm_owned s)" using assms by (simp_all add: registry_wf_def)
  have "mapped_as (hm_mappings s) 0 = None" by (rule chainm_above [OF wf(1)]) simp
  then have m: "unat (bytes res (hm_mappings s)) = card {a. \<exists>i. mapped_as (hm_mappings s) a = Some (i, res)}" for res
    by (subst mapped_bytes [OF wf(1)]) (rule unat_of_card, simp)
  show "unat (hm_mapped s) = card {a. \<exists>i. mapped_as (hm_mappings s) a = Some (i, False)}"
    "unat (hm_reserved s) = card {a. \<exists>i. mapped_as (hm_mappings s) a = Some (i, True)}"
    using assms m by (simp_all add: registry_wf_def)
  have "\<not> in_ranges (hm_owned s) 0" using chain_above [OF wf(2), of 0] by auto
  then show "unat (SessionMappedBytes s) = card {a. in_ranges (hm_owned s) a}"
    by (simp add: SessionMappedBytes_def owned_bytes [OF wf(2)] unat_of_card)
qed

section \<open>Identities\<close>

declare identity_loop.simps [simp del]

lemma identity_loop_simps [simp]:
  "identity_loop p e h [] = (if p < e then 0 else if h \<noteq> 0 then h else 1)"
  "identity_loop p e h ((k, m) # r) =
    (if p < e then if k > p \<or> mp_end m \<le> p then 0 else identity_loop (mp_end m) e ((h XOR mp_identity m) * 1099511628211) r
     else if h \<noteq> 0 then h else 1)"
  by (subst identity_loop.simps, simp)+

lemma identity_loop_end: "\<not> p < e \<Longrightarrow> identity_loop p e h ms \<noteq> 0"
  by (subst identity_loop.simps) simp

lemma chainm_keys: "chainm lo ms \<Longrightarrow> (k, m) \<in> set ms \<Longrightarrow> lo \<le> k"
proof (induction ms arbitrary: lo)
  case (Cons x ms)
  obtain k0 m0 where "x = (k0, m0)" by fastforce
  with Cons show ?case by (auto dest: Cons.IH [of "mp_end m0"])
qed simp

lemma lookup_None: "\<forall>(k, m) \<in> set ms. a < k \<Longrightarrow> mapped_as ms a = None"
  by (induction ms) auto

lemma identity_loop_mapped:
  "chainm lo ms \<Longrightarrow> lo \<le> p \<Longrightarrow> p < e \<Longrightarrow>
    (case ms of [] \<Rightarrow> True | (k, m) # r \<Rightarrow> p < mp_end m \<or> (\<forall>(k', m') \<in> set r. p < k')) \<Longrightarrow>
    identity_loop p e h ms \<noteq> 0 \<longleftrightarrow> (\<forall>a. p \<le> a \<and> a < e \<longrightarrow> mapped_as ms a \<noteq> None)"
proof (induction ms arbitrary: lo p h)
  case Nil
  then show ?case by auto
next
  case (Cons x ms)
  obtain k m where x: "x = (k, m)" by fastforce
  then have c: "lo \<le> k" "k < mp_end m" "chainm (mp_end m) ms" using Cons.prems by auto
  note above = chainm_above [OF c(3)]
  consider "k > p" | "mp_end m \<le> p" | "k \<le> p" "p < mp_end m" "mp_end m < e" | "k \<le> p" "p < mp_end m" "e \<le> mp_end m"
    by fastforce
  then show ?case
  proof cases
    case 1
    then have "mapped_as (x # ms) p = None" using x c above [of p] by auto
    moreover have "identity_loop p e h (x # ms) = 0" using 1 x Cons.prems(3) by simp
    ultimately show ?thesis using Cons.prems(3) by blast
  next
    case 2
    then have "mapped_as ms p = None" using Cons.prems(4) x
      by (auto simp: leD intro!: lookup_None)
    then have "mapped_as (x # ms) p = None" using x 2 by auto
    moreover have "identity_loop p e h (x # ms) = 0" using 2 x Cons.prems(3) by simp
    ultimately show ?thesis using Cons.prems(3) by blast
  next
    case 3
    have "(case ms of [] \<Rightarrow> True | (k', m') # r \<Rightarrow> mp_end m < mp_end m' \<or> (\<forall>(k'', m'') \<in> set r. mp_end m < k''))"
      using c(3) by (auto split: list.splits)
    from Cons.IH [OF c(3) order_refl 3(3) this]
    have "identity_loop p e h (x # ms) \<noteq> 0 \<longleftrightarrow> (\<forall>a. mp_end m \<le> a \<and> a < e \<longrightarrow> mapped_as ms a \<noteq> None)"
      using 3 x Cons.prems(3) by (simp add: leD)
    moreover have "mapped_as (x # ms) a = (if a < mp_end m then Some (mp_identity m, mp_reserved m) else mapped_as ms a)" if "p \<le> a" for a
      using that 3(1) x by auto
    moreover have "p \<le> a" if "mp_end m \<le> a" for a using that 3(2) by order
    ultimately show ?thesis by (metis not_less option.distinct(1))
  next
    case 4
    then have "identity_loop p e h (x # ms) \<noteq> 0"
      using x Cons.prems(3) by (simp add: leD identity_loop_end)
    moreover have "mapped_as (x # ms) a \<noteq> None" if "p \<le> a" "a < e" for a
      using that 4 x by auto
    ultimately show ?thesis by blast
  qed
qed

lemma seek_identity:
  assumes "chainm lo ms" "p < e"
  shows "(if list_all (\<lambda>x. p < fst x) ms then 0 else identity_loop p e h (snd (seek p ms))) \<noteq> 0
    \<longleftrightarrow> (\<forall>a. p \<le> a \<and> a < e \<longrightarrow> mapped_as ms a \<noteq> None)"
  using assms
proof (induction p ms arbitrary: lo rule: seek.induct)
  case (1 p)
  then show ?case by auto
next
  case (2 p x)
  obtain k m where x: "x = (k, m)" by fastforce
  show ?case
  proof (cases "p < k")
    case True
    then have "mapped_as [x] p = None" using x by auto
    moreover have "list_all (\<lambda>x. p < fst x) [x]" using True x by simp
    ultimately show ?thesis using 2(2) by (simp only: if_True) blast
  next
    case False
    then show ?thesis using identity_loop_mapped [of k "[x]" p e h] 2 x by simp
  qed
next
  case (3 p x y r)
  obtain k m k' m' where xy: "x = (k, m)" "y = (k', m')" by fastforce
  then have c: "k < mp_end m" "chainm (mp_end m) (y # r)" "mp_end m \<le> k'" "k' < mp_end m'" "chainm (mp_end m') r"
    using 3 by auto
  show ?case
  proof (cases "k' \<le> p")
    case True
    then have "\<not> p < k" "\<not> p < k'" "\<not> p < mp_end m" using c by auto
    then have "mapped_as (x # y # r) a = mapped_as (y # r) a" if "p \<le> a" for a using that xy by auto
    then show ?thesis using "3.IH" [OF True [folded fst_conv [of k' m', folded xy(2)]] c(2) "3.prems"(2)] True xy
        \<open>\<not> p < k\<close> \<open>\<not> p < k'\<close> by (simp add: split_beta)
  next
    case False
    then have later: "\<forall>(a, b) \<in> set (y # r). p < a" using xy c by (auto dest: chainm_keys)
    show ?thesis
    proof (cases "p < k")
      case True
      then have "mapped_as (x # y # r) p = None" using xy c False chainm_above [OF c(2), of p] by auto
      moreover have "list_all (\<lambda>x. p < fst x) (x # y # r)" using later True xy by (auto simp: list_all_iff)
      ultimately show ?thesis using "3.prems"(2) by (simp only: if_True) blast
    next
      case False
      moreover have "snd (seek p (x # y # r)) = x # y # r" using xy \<open>\<not> k' \<le> p\<close> by simp
      moreover have "chainm k (x # y # r)" using c xy by simp
      moreover have "(case x # y # r of [] \<Rightarrow> True | (k, m) # r \<Rightarrow> p < mp_end m \<or> (\<forall>(k', m') \<in> set r. p < k'))"
        using later xy by simp
      ultimately show ?thesis using identity_loop_mapped [of k "x # y # r" p e h] "3.prems"(2) xy by simp
    qed
  qed
qed

lemma identity_mapped:
  assumes "registry_wf s"
  shows "MemoryMappingIdentity p n s \<noteq> 0 \<longleftrightarrow>
    trackable p n \<and> (\<forall>a. p \<le> a \<and> a < p + n \<longrightarrow> mapped_as (hm_mappings s) a \<noteq> None)"
proof (cases "trackable p n")
  case True
  then show ?thesis
    using seek_identity [of 1 "hm_mappings s" p "p + n"] assms trackable_less [OF True]
    by (simp add: MemoryMappingIdentity_def registry_wf_def)
qed (simp add: MemoryMappingIdentity_def)

section \<open>The longest mapped prefix\<close>

declare prefix_loop.simps [simp del]

lemma prefix_loop_step:
  "prefix_loop P max_len mapped 0 = mapped"
  "remaining \<noteq> 0 \<Longrightarrow> prefix_loop P max_len mapped remaining =
    (let probe = mapped + remaining div 2 + remaining mod 2
     in if P probe then prefix_loop P max_len probe (max_len - probe)
        else prefix_loop P max_len mapped (probe - mapped - 1))"
  by (subst prefix_loop.simps, simp)+

definition longest_prefix :: "(nat \<Rightarrow> bool) \<Rightarrow> nat \<Rightarrow> nat \<Rightarrow> bool" where
  "longest_prefix P max_len r \<longleftrightarrow> r \<le> max_len \<and> (r = 0 \<or> P r) \<and> (\<forall>i. r < i \<and> i \<le> max_len \<longrightarrow> \<not> P i)"

lemma prefix_loop_correct:
  assumes mono: "\<forall>i j. 0 < i \<and> i \<le> j \<and> j \<le> max_len \<and> P j \<longrightarrow> P i"
  shows "mapped + remaining \<le> max_len \<Longrightarrow> mapped = 0 \<or> P mapped \<Longrightarrow>
    \<forall>i. mapped + remaining < i \<and> i \<le> max_len \<longrightarrow> \<not> P i \<Longrightarrow>
    longest_prefix P max_len (prefix_loop P max_len mapped remaining)"
  using mono
proof (induction P max_len mapped remaining rule: prefix_loop.induct)
  case (1 P max_len mapped remaining)
  let ?probe = "mapped + remaining div 2 + remaining mod 2"
  show ?case
  proof (cases "remaining = 0")
    case True
    then show ?thesis using "1.prems"(1-3) by (simp add: prefix_loop_step longest_prefix_def)
  next
    case False
    then have "0 < remaining div 2 + remaining mod 2" by (cases "remaining = 1") auto
    moreover have "remaining div 2 + remaining mod 2 \<le> remaining" by presburger
    ultimately have probe: "mapped < ?probe" "?probe \<le> mapped + remaining" by linarith+
    show ?thesis
    proof (cases "P ?probe")
      case True
      have "?probe + (max_len - ?probe) = max_len" using probe "1.prems"(1) by linarith
      then have "longest_prefix P max_len (prefix_loop P max_len ?probe (max_len - ?probe))"
        using "1.IH"(1) [OF False refl True _ disjI2 [OF True] _ "1.prems"(4)] by (metis leD order_refl)
      then show ?thesis using False True by (simp add: prefix_loop_step Let_def)
    next
      case np: False
      have "\<not> P i" if "mapped + (?probe - mapped - 1) < i" "i \<le> max_len" for i
      proof -
        have "0 < ?probe" "?probe \<le> i" using that(1) probe by linarith+
        then show ?thesis using np "1.prems"(4) that(2) by blast
      qed
      moreover have "mapped + (?probe - mapped - 1) \<le> max_len" using probe "1.prems"(1) by linarith
      ultimately have "longest_prefix P max_len (prefix_loop P max_len mapped (?probe - mapped - 1))"
        using "1.IH"(2) [OF False refl np _ "1.prems"(2) _ "1.prems"(4)] by blast
      then show ?thesis using False np by (simp add: prefix_loop_step Let_def)
    qed
  qed
qed

section \<open>Histories\<close>

text \<open>
  A call of the registry, with the answer of the host where it needs one: \<open>AllocMem\<close> with the address
  \<open>mmap\<close> returned, \<open>FreeMem\<close> with the success of \<open>munmap\<close>.
\<close>

datatype call =
  CTrack u64 u64 bool
| CForget u64 u64
| CAlloc "u64 option" u64 AllocationType
| CFree bool u64 u64
| CFreeAt bool u64
| CBegin
| CEnd

fun reg_call :: "call \<Rightarrow> registry \<Rightarrow> registry" where
  "reg_call (CTrack p n res) s = TrackMemoryMapping p n res s"
| "reg_call (CForget p n) s = ForgetMemoryMapping p n s"
| "reg_call (CAlloc q n ty) s = snd (AllocMem (\<lambda>_ _ _. q) 0 n ty s)"
| "reg_call (CFree ok p n) s = FreeMem ok p n s"
| "reg_call (CFreeAt ok p) s = FreeMem_at ok p s"
| "reg_call CBegin s = BeginMemorySession s"
| "reg_call CEnd s = snd (EndMemorySession s)"

definition history :: "call list \<Rightarrow> registry" where
  "history cs = fold reg_call cs registry_init"

text \<open>The host unmaps only ranges that do not wrap.\<close>

fun host_ok :: "call \<Rightarrow> bool" where
  "host_ok (CFree ok p n) \<longleftrightarrow> (ok \<longrightarrow> fits p n)"
| "host_ok _ \<longleftrightarrow> True"

text \<open>
  The abstract registry: what every address is mapped as, which addresses the session owns, and how
  many mappings were made.
\<close>

record reg_view =
  v_at :: "u64 \<Rightarrow> (u64 \<times> bool) option"
  v_owned :: "u64 set"
  v_session :: bool
  v_made :: u64

definition view_of :: "registry \<Rightarrow> reg_view" where
  "view_of s = \<lparr>v_at = mapped_as (hm_mappings s), v_owned = {a. in_ranges (hm_owned s) a}, v_session = hm_session s,
     v_made = hm_next_identity s\<rparr>"

lemma view_of_simps:
  "v_at (view_of s) = mapped_as (hm_mappings s)" "v_owned (view_of s) = {a. in_ranges (hm_owned s) a}"
  "v_session (view_of s) = hm_session s" "v_made (view_of s) = hm_next_identity s"
  by (simp_all add: view_of_def)

definition drop_at :: "u64 set \<Rightarrow> reg_view \<Rightarrow> reg_view" where
  "drop_at A v = v\<lparr>v_at := \<lambda>a. if a \<in> A then None else v_at v a\<rparr>"

definition addr_range :: "u64 \<Rightarrow> u64 \<Rightarrow> u64 set" where
  "addr_range p n = {a. p \<noteq> 0 \<and> n \<noteq> 0 \<and> p \<le> a \<and> a < p + n}"

definition put_at :: "u64 \<Rightarrow> u64 \<Rightarrow> bool \<Rightarrow> reg_view \<Rightarrow> reg_view" where
  "put_at p n res v = (if trackable p n
     then v\<lparr>v_at := \<lambda>a. if a \<in> addr_range p n then Some (v_made v + 1, res) else v_at v a,
            v_owned := if v_session v then v_owned v \<union> addr_range p n else v_owned v, v_made := v_made v + 1\<rparr>
     else v)"

definition free_at :: "u64 set \<Rightarrow> reg_view \<Rightarrow> reg_view" where
  "free_at A v = (drop_at A v)\<lparr>v_owned := v_owned v - A\<rparr>"

text \<open>The mapping that starts at \<open>p\<close> is freed as a whole; its extent is read off the registry.\<close>

definition extent :: "registry \<Rightarrow> u64 \<Rightarrow> u64 set" where
  "extent s p = (case map_of (hm_mappings s) p of None \<Rightarrow> {} | Some m \<Rightarrow> {a. p \<le> a \<and> a < mp_end m})"

fun spec_call :: "registry \<Rightarrow> call \<Rightarrow> reg_view \<Rightarrow> reg_view" where
  "spec_call s (CTrack p n res) v = put_at p n res v"
| "spec_call s (CForget p n) v = (if trackable p n then drop_at (addr_range p n) v else v)"
| "spec_call s (CAlloc q n ty) v = (case q of None \<Rightarrow> v | Some q \<Rightarrow> put_at q n (ty = kReserve) v)"
| "spec_call s (CFree ok p n) v = (if ok then free_at (addr_range p n) v else v)"
| "spec_call s (CFreeAt ok p) v = (if ok then free_at (extent s p) v else v)"
| "spec_call s CBegin v = v\<lparr>v_session := True\<rparr>"
| "spec_call s CEnd v = (drop_at (v_owned v) v)\<lparr>v_owned := {}, v_session := False\<rparr>"

lemma view_of_eqI:
  "mapped_as (hm_mappings s) = v_at v \<Longrightarrow> {a. in_ranges (hm_owned s) a} = v_owned v \<Longrightarrow> hm_session s = v_session v \<Longrightarrow>
    hm_next_identity s = v_made v \<Longrightarrow> view_of s = v"
  by (simp add: view_of_def)

lemma Track_view: "registry_wf s \<Longrightarrow> view_of (TrackMemoryMapping p n res s) = put_at p n res (view_of s)"
proof (cases "trackable p n")
  case True
  assume "registry_wf s"
  from TrackMemoryMapping_correct [OF this True, of res] show ?thesis
    using True by (intro view_of_eqI) (auto simp: put_at_def view_of_def addr_range_def trackable_def)
qed (simp add: put_at_def TrackMemoryMapping_ignored)

lemma Free_view:
  "registry_wf s \<Longrightarrow> (ok \<Longrightarrow> fits p n) \<Longrightarrow>
    view_of (FreeMem ok p n s) = (if ok then free_at (addr_range p n) (view_of s) else view_of s)"
proof (cases "n = 0")
  case False
  assume "registry_wf s" "ok \<Longrightarrow> fits p n"
  from FreeMem_correct [OF this] show ?thesis
    using False by (intro view_of_eqI) (auto simp: free_at_def drop_at_def view_of_def addr_range_def)
qed (simp add: FreeMem_def free_at_def drop_at_def addr_range_def view_of_def)

lemma map_of_mapping:
  "chainm lo ms \<Longrightarrow> map_of ms p = Some m \<Longrightarrow> lo \<le> p \<and> p < mp_end m"
proof (induction ms arbitrary: lo)
  case (Cons x ms)
  obtain k0 m0 where "x = (k0, m0)" by fastforce
  with Cons show ?case by (auto split: if_splits dest: Cons.IH [of "mp_end m0"])
qed simp

lemma FreeAt_view:
  assumes "registry_wf s"
  shows "registry_wf (FreeMem_at ok p s) \<and> view_of (FreeMem_at ok p s) = (if ok then free_at (extent s p) (view_of s) else view_of s)"
proof (cases "map_of (hm_mappings s) p")
  case None
  then show ?thesis
    using assms by (simp add: FreeMem_at_def FreeMem_def extent_def free_at_def drop_at_def view_of_def)
next
  case (Some m)
  then have m: "1 \<le> p" "p < mp_end m"
    using map_of_mapping [of 1 "hm_mappings s" p m] assms by (simp_all add: registry_wf_def)
  then have "fits p (mp_end m - p)" "addr_range p (mp_end m - p) = extent s p"
    using Some by (auto simp: fits_def addr_range_def extent_def)
  then show ?thesis
    using Some Free_view [OF assms, of ok p "mp_end m - p"] FreeMem_correct [OF assms, of ok p "mp_end m - p"]
    by (simp add: FreeMem_at_def)
qed

lemma exec_view:
  assumes "registry_wf s" "host_ok c"
  shows "registry_wf (reg_call c s) \<and> view_of (reg_call c s) = spec_call s c (view_of s)"
proof (cases c)
  case (CTrack p n res)
  then show ?thesis
    using assms TrackMemoryMapping_correct [OF assms(1)]
    by (cases "trackable p n") (simp_all add: Track_view TrackMemoryMapping_ignored put_at_def)
next
  case (CForget p n)
  have "view_of (ForgetMemoryMapping p n s) = (if trackable p n then drop_at (addr_range p n) (view_of s) else view_of s)"
    using ForgetMemoryMapping_correct [OF assms(1), of p n]
    by (intro view_of_eqI) (auto simp: drop_at_def view_of_def addr_range_def trackable_def)
  then show ?thesis using CForget ForgetMemoryMapping_correct [OF assms(1), of p n] by simp
next
  case (CAlloc q n ty)
  then show ?thesis
    using assms TrackMemoryMapping_correct [OF assms(1)] TrackMemoryMapping_ignored
    by (cases q; cases "trackable (the q) n") (simp_all add: AllocMem_def Track_view put_at_def)
next
  case (CFree ok p n)
  then show ?thesis using assms FreeMem_correct [OF assms(1), of ok p n] by (simp add: Free_view)
next
  case (CFreeAt ok p)
  then show ?thesis using FreeAt_view [OF assms(1)] by simp
next
  case CBegin
  then show ?thesis using assms by (simp add: BeginMemorySession_def registry_wf_def view_of_def)
next
  case CEnd
  from EndMemorySession_correct [OF assms(1)] show ?thesis
    using CEnd by (auto intro!: view_of_eqI simp: drop_at_def view_of_def)
qed

lemma history_wf: "list_all host_ok cs \<Longrightarrow> registry_wf (history cs)"
proof (induction cs rule: rev_induct)
  case Nil
  then show ?case by (simp add: history_def registry_init_def registry_wf_def)
next
  case (snoc c cs)
  then show ?case using exec_view [of "history cs" c] by (simp add: history_def)
qed

section \<open>Properties\<close>

text \<open>
  C19: After any sequence of calls the registry answers like a map from addresses to mappings: tracking
  maps exactly the range, forgetting and freeing unmap exactly the range, freeing also takes it from
  the session, and the end of a session unmaps what it owns. The byte counters are the exact numbers of
  mapped, reserved and owned addresses.
\<close>

theorem host_registry_history:
  assumes "list_all host_ok cs" "host_ok c"
  shows "view_of (reg_call c (history cs)) = spec_call (history cs) c (view_of (history cs))
    \<and> unat (hm_mapped (history cs)) = card {a. \<exists>i. v_at (view_of (history cs)) a = Some (i, False)}
    \<and> unat (hm_reserved (history cs)) = card {a. \<exists>i. v_at (view_of (history cs)) a = Some (i, True)}
    \<and> unat (SessionMappedBytes (history cs)) = card (v_owned (view_of (history cs)))
    \<and> fst (EndMemorySession (history cs)) = SessionMappedBytes (history cs)"
  using exec_view [OF history_wf [OF assms(1)] assms(2)] stats_exact [OF history_wf [OF assms(1)]]
    EndMemorySession_correct [OF history_wf [OF assms(1)]]
  by (simp_all add: view_of_def)

theorem host_registry_history_witness:
  "(let cs = [CBegin, CTrack 0x1000 0x3000 True, CAlloc (Some 0x2000) 0x1000 kCommit] in
    view_of (reg_call (CFree True 0x1800 0x1000) (history cs)) = free_at (addr_range 0x1800 0x1000) (view_of (history cs))
    \<and> SessionMappedBytes (history cs) = 0x3000)"
proof -
  let ?cs = "[CBegin, CTrack 0x1000 0x3000 True, CAlloc (Some 0x2000) 0x1000 kCommit]"
  have ok: "list_all host_ok ?cs" "host_ok (CFree True 0x1800 0x1000)" by (simp_all add: fits_def)
  have "SessionMappedBytes (history ?cs) = 0x3000" by code_simp
  then show ?thesis using host_registry_history [OF ok] by (simp add: Let_def)
qed

lemma identities_bounded:
  assumes "list_all host_ok cs" "length cs < 2 ^ 64"
  shows "unat (v_made (view_of (history cs))) \<le> length cs
    \<and> (\<forall>a i r. v_at (view_of (history cs)) a = Some (i, r) \<longrightarrow> i \<le> v_made (view_of (history cs)))"
  using assms
proof (induction cs rule: rev_induct)
  case Nil
  then show ?case by (simp add: history_def registry_init_def view_of_simps)
next
  case (snoc c cs)
  let ?s = "history cs"
  have IH: "unat (v_made (view_of ?s)) \<le> length cs"
    "\<And>a i r. v_at (view_of ?s) a = Some (i, r) \<Longrightarrow> i \<le> v_made (view_of ?s)"
    using snoc by auto
  have "unat (v_made (view_of ?s)) + 1 < 2 ^ 64" using IH(1) snoc.prems(2) by simp
  then have suc: "unat (v_made (view_of ?s) + 1) = unat (v_made (view_of ?s)) + 1"
    by (simp add: unat_word_ariths)
  have put: "unat (v_made (put_at p n res (view_of ?s))) \<le> length cs + 1
      \<and> (\<forall>a i r. v_at (put_at p n res (view_of ?s)) a = Some (i, r) \<longrightarrow> i \<le> v_made (put_at p n res (view_of ?s)))" for p n res
  proof -
    have le: "i \<le> v_made (view_of ?s) + 1" if "i \<le> v_made (view_of ?s)" for i
      using that suc by (simp add: word_le_nat_alt)
    show ?thesis using IH suc le by (auto simp: put_at_def split: if_splits)
  qed
  have "unat (v_made (spec_call ?s c (view_of ?s))) \<le> length cs + 1
      \<and> (\<forall>a i r. v_at (spec_call ?s c (view_of ?s)) a = Some (i, r) \<longrightarrow> i \<le> v_made (spec_call ?s c (view_of ?s)))"
    using IH put by (cases c) (auto simp: drop_at_def free_at_def split: if_splits option.splits)
  moreover have "view_of (reg_call c ?s) = spec_call ?s c (view_of ?s)"
    using exec_view history_wf snoc.prems(1) by simp
  moreover have "history (cs @ [c]) = reg_call c ?s" by (simp add: history_def)
  ultimately show ?case by simp
qed



text \<open>The bytes of the pages between two page addresses, when the first is not page 0.\<close>

lemma unat_pages:
  assumes "k < 63" "2 ^ k \<le> f" "f \<le> (l :: u64)"
  shows "unat (((l - f) div 2 ^ k + 1) * 2 ^ k) = ((unat l - unat f) div 2 ^ k + 1) * 2 ^ k"
proof -
  have k: "unat (2 ^ k :: u64) = 2 ^ k" using assms(1) by (simp add: unat_page)
  have d: "unat ((l - f) div 2 ^ k) = (unat l - unat f) div 2 ^ k"
    using assms(3) by (simp add: unat_div_distrib unat_diff_le k)
  have "(unat l - unat f) div 2 ^ k * 2 ^ k \<le> unat l - unat f" by (rule div_times_less_eq_dividend)
  moreover have "(2::nat) ^ k \<le> unat f" "unat f \<le> unat l" using assms(2,3) k by (simp_all add: word_le_nat_alt)
  moreover have "((unat l - unat f) div 2 ^ k + 1) * 2 ^ k = (unat l - unat f) div 2 ^ k * 2 ^ k + 2 ^ k" by simp
  ultimately have b: "((unat l - unat f) div 2 ^ k + 1) * 2 ^ k < 2 ^ 64"
    using unat_bound [of l] by linarith
  have "(unat l - unat f) div 2 ^ k + 1 \<le> ((unat l - unat f) div 2 ^ k + 1) * 2 ^ k"
    by (metis mult.right_neutral mult_le_mono2 one_le_numeral one_le_power)
  then have "(unat l - unat f) div 2 ^ k + 1 < 2 ^ 64" using b by linarith
  then have "unat ((l - f) div 2 ^ k + 1) = (unat l - unat f) div 2 ^ k + 1"
    by (simp add: unat_word_ariths(1) d)
  then show ?thesis using b by (simp add: unat_word_ariths(2) k)
qed

lemma trackable_shorter: "trackable p j \<Longrightarrow> i \<le> j \<Longrightarrow> i \<noteq> 0 \<Longrightarrow> trackable p i"
  by (auto simp: trackable_fits word_le_nat_alt)

lemma trackable_last: "trackable p n \<Longrightarrow> unat (p + n - 1) = unat p + unat n - 1 \<and> unat (p + n) = unat p + unat n"
proof -
  assume t: "trackable p n"
  then have "unat (p + n) = unat p + unat n" by (simp add: trackable_fits unat_word_ariths)
  moreover have "1 \<le> p + n" using trackable_less [OF t] by (simp add: word_le_nat_alt word_less_nat_alt)
  ultimately show ?thesis by (simp add: unat_diff_le)
qed

lemma range_mapped_shorter:
  assumes wf: "registry_wf s" and page: "page_raw = 2 ^ k" "k < 63" "page_raw \<le> p"
    and mincore: "\<forall>a i j. mincore a j \<and> i \<le> j \<longrightarrow> mincore a i"
    and mapped: "IsMemoryRangeMapped mincore page_raw s p j" and i: "i \<le> j" "i \<noteq> 0"
  shows "IsMemoryRangeMapped mincore page_raw s p i"
proof -
  have t: "trackable p j" using mapped by (auto simp: IsMemoryRangeMapped_def split: if_splits)
  then have ti: "trackable p i" using i by (rule trackable_shorter)
  note last = trackable_last [OF t] trackable_last [OF ti]
  show ?thesis
  proof (cases "MemoryMappingIdentity p j s \<noteq> 0")
    case True
    have "p + i \<le> p + j" using last i by (simp add: word_le_nat_alt)
    then have "a < p + j" if "a < p + i" for a using that by order
    then have "MemoryMappingIdentity p i s \<noteq> 0"
      using ti True identity_mapped [OF wf] by blast
    then show ?thesis using ti by (simp add: IsMemoryRangeMapped_def)
  next
    case False
    let ?f = "p AND NOT (page_raw - 1)" and ?l = "\<lambda>n. (p + n - 1) AND NOT (page_raw - 1)"
    have m: "0 < sint page_raw" "mincore ?f (((?l j - ?f) div page_raw + 1) * page_raw)"
      using mapped t False by (auto simp: IsMemoryRangeMapped_def Let_def split: if_splits)
    have "0 < unat i" using i(2) by (metis unat_0 word_gt_0 word_less_nat_alt)
    then have "p \<le> p + i - 1" "p + i - 1 \<le> p + j - 1"
      using last i by (simp_all add: word_le_nat_alt)
    then have fl: "?f \<le> ?l i" "?l i \<le> ?l j" unfolding page(1) by (blast intro: page_down_mono)+
    have "unat (2 ^ k :: u64) \<le> unat ?f"
    proof -
      have "2 ^ k \<le> unat p" using page by (simp add: word_le_nat_alt unat_page)
      then have "2 ^ k \<le> unat p div 2 ^ k * 2 ^ k"
        by (metis div_greater_zero_iff mult_le_mono1 nat_mult_1 One_nat_def Suc_leI zero_less_numeral zero_less_power)
      then show ?thesis using page by (simp add: unat_page_down unat_page)
    qed
    then have f: "2 ^ k \<le> ?f" by (simp add: word_le_nat_alt)
    have "((?l i - ?f) div page_raw + 1) * page_raw \<le> ((?l j - ?f) div page_raw + 1) * page_raw"
      using unat_pages [OF page(2) f fl(1)] unat_pages [OF page(2) f order_trans [OF fl]] fl(2)
      unfolding page(1) by (simp add: word_le_nat_alt div_le_mono diff_le_mono)
    then have "mincore ?f (((?l i - ?f) div page_raw + 1) * page_raw)" using m(2) mincore by blast
    then show ?thesis using ti m(1) by (simp add: IsMemoryRangeMapped_def Let_def)
  qed
qed

text \<open>
  The search returns the length of the longest mapped prefix of the range, within \<open>max_len\<close>. It
  relies on \<open>mincore\<close> succeeding on every shorter range than one it succeeds on, and on pages being
  powers of two.
\<close>

theorem host_mapped_prefix:
  assumes "list_all host_ok cs" "page_raw = 2 ^ k" "k < 63" "page_raw \<le> p" "max_len \<noteq> 0"
    and "\<forall>a i j. mincore a j \<and> i \<le> j \<longrightarrow> mincore a i"
  shows "MappedMemoryPrefix mincore page_raw (history cs) p max_len \<le> max_len
    \<and> (MappedMemoryPrefix mincore page_raw (history cs) p max_len = 0
      \<or> IsMemoryRangeMapped mincore page_raw (history cs) p (MappedMemoryPrefix mincore page_raw (history cs) p max_len))
    \<and> (MappedMemoryPrefix mincore page_raw (history cs) p max_len < n \<and> n \<le> max_len
      \<longrightarrow> \<not> IsMemoryRangeMapped mincore page_raw (history cs) p n)"
proof (intro conjI impI)
  let ?P = "\<lambda>n. IsMemoryRangeMapped mincore page_raw (history cs) p (of_nat n)"
  let ?r = "prefix_loop ?P (unat max_len) 0 (unat max_len)"
  have "?P i" if "0 < i \<and> i \<le> j \<and> j \<le> unat max_len \<and> ?P j" for i j
  proof (rule range_mapped_shorter [OF history_wf [OF assms(1)] assms(2-4,6)])
    show "?P j" using that by blast
    have "j < 2 ^ 64" using that unat_bound [of max_len] by linarith
    then have "unat (of_nat i :: u64) = i" "unat (of_nat j :: u64) = j"
      using that by (simp_all add: unat_of_nat take_bit_nat_eq_self)
    then show "of_nat i \<le> (of_nat j :: u64)" "of_nat i \<noteq> (0 :: u64)"
      using that by (auto simp: word_le_nat_alt)
  qed
  then have r: "longest_prefix ?P (unat max_len) ?r" by (intro prefix_loop_correct) auto
  have "p \<noteq> 0" using assms(2-4) by (auto simp: word_le_nat_alt unat_page)
  then have eq: "MappedMemoryPrefix mincore page_raw (history cs) p max_len = of_nat ?r"
    using assms(5) by (simp add: MappedMemoryPrefix_def)
  have u: "unat (of_nat ?r :: u64) = ?r"
    using r unat_bound [of max_len] by (simp add: longest_prefix_def unat_of_nat take_bit_nat_eq_self)
  show "MappedMemoryPrefix mincore page_raw (history cs) p max_len \<le> max_len"
    using r u by (simp add: eq longest_prefix_def word_le_nat_alt)
  show "MappedMemoryPrefix mincore page_raw (history cs) p max_len = 0
      \<or> IsMemoryRangeMapped mincore page_raw (history cs) p (MappedMemoryPrefix mincore page_raw (history cs) p max_len)"
    using r unfolding eq longest_prefix_def by auto
  assume "MappedMemoryPrefix mincore page_raw (history cs) p max_len < n \<and> n \<le> max_len"
  then have "?r < unat n" "unat n \<le> unat max_len" using u by (simp_all add: eq word_less_nat_alt word_le_nat_alt)
  then have "\<not> ?P (unat n)" using r unfolding longest_prefix_def by blast
  then show "\<not> IsMemoryRangeMapped mincore page_raw (history cs) p n" by simp
qed

theorem host_mapped_prefix_witness:
  "MappedMemoryPrefix (\<lambda>_ n. n \<le> 8) 4 (history [CTrack 4 4 False]) 4 12 = 8
   \<and> \<not> IsMemoryRangeMapped (\<lambda>_ n. n \<le> 8) 4 (history [CTrack 4 4 False]) 4 9"
proof -
  have r: "MappedMemoryPrefix (\<lambda>_ n. n \<le> 8) 4 (history [CTrack 4 4 False]) 4 12 = 8" by code_simp
  moreover
  have h: "list_all host_ok [CTrack 4 4 False]" "(4 :: u64) = 2 ^ 2" "(2 :: nat) < 63" "(4 :: u64) \<le> 4" "(12 :: u64) \<noteq> 0"
    "\<forall>a i j. (\<lambda>(_ :: u64) n. n \<le> (8 :: u64)) (a :: u64) j \<and> i \<le> j \<longrightarrow> (\<lambda>(_ :: u64) n. n \<le> (8 :: u64)) a i"
    by (simp_all add: fits_def) (blast intro: order_trans)
  from host_mapped_prefix [OF h, of 9]
  have "\<not> IsMemoryRangeMapped (\<lambda>_ n. n \<le> 8) 4 (history [CTrack 4 4 False]) 4 9"
    unfolding r by simp
  ultimately show ?thesis by blast
qed

end
