(* ===== verification/Shm.thy ===== *)
theory Shm
  imports Host_Memory "HOL-Library.AList"
begin

text \<open>
  The named shared memory objects of \<open>delta/kern/lv2/sys_mem.cc\<close>: the backings behind
  \<open>g_shm_by_name\<close>, open descriptors and \<open>g_shm_maps\<close>, their resizing, mapping records, reads and
  writes by name, and the shared-pointer lifetime. A shared pointer is the key of its backing; the
  destructor runs when no name, descriptor or mapping record holds the key. The bytes of a backing are
  those of its file, which the consumer view at \<open>base\<close> and every guest view show. Answers of the host
  are arguments. Every operation holds \<open>g_shm_mutex\<close>. Tracing, dumping and poisoning, which are off
  unless a developer option is set, are left out.
\<close>

section \<open>State\<close>

record backing =
  bk_identity :: u64
  bk_fd :: bool
  bk_base :: "u64 option"
  bk_size :: u64
  bk_map_size :: u64
  bk_bytes :: "u8 list"

record shm_object =
  so_name :: string
  so_backing :: nat
  so_writable :: bool

record shm =
  sh_backings :: "(nat \<times> backing) list"
  sh_count :: nat
  sh_next_identity :: u64
  sh_by_name :: "(string \<times> nat) list"
  sh_maps :: "(u64 \<times> u64 \<times> nat) list"
  sh_fds :: "(u32 \<times> shm_object) list"
  sh_registry :: registry
  sh_forgotten :: "(u64 \<times> u64) list"

definition shm_init :: shm where
  "shm_init = \<lparr>sh_backings = [], sh_count = 0, sh_next_identity = 1, sh_by_name = [], sh_maps = [], sh_fds = [],
     sh_registry = registry_init, sh_forgotten = []\<rparr>"

text \<open>
  What the host answers during a call: the descriptor of \<open>memfd_create\<close>, the success of \<open>ftruncate\<close>
  and \<open>munmap\<close>, the address of \<open>mmap\<close>, and the handle of the new object.
\<close>

record shm_host =
  ho_memfd :: bool
  ho_truncate :: bool
  ho_munmap :: bool
  ho_mmap :: "u64 option"
  ho_handle :: u32

section \<open>Backings\<close>

definition backing_of :: "nat \<Rightarrow> shm \<Rightarrow> backing option" where
  "backing_of k s = map_of (sh_backings s) k"

definition put_backing :: "nat \<Rightarrow> backing \<Rightarrow> shm \<Rightarrow> shm" where
  "put_backing k b s = s\<lparr>sh_backings := AList.update k b (sh_backings s)\<rparr>"

definition new_backing :: "shm_host \<Rightarrow> shm \<Rightarrow> nat \<times> shm" where
  "new_backing h s = (sh_count s,
     put_backing (sh_count s)
       \<lparr>bk_identity = sh_next_identity s, bk_fd = ho_memfd h, bk_base = None, bk_size = 0, bk_map_size = 0, bk_bytes = []\<rparr>
       (s\<lparr>sh_count := sh_count s + 1, sh_next_identity := sh_next_identity s + 1\<rparr>))"

definition AudioDaemonForgetRange :: "u64 \<Rightarrow> u64 \<Rightarrow> shm \<Rightarrow> shm" where
  "AudioDaemonForgetRange p n s = s\<lparr>sh_forgotten := sh_forgotten s @ [(p, n)]\<rparr>"

definition free_range :: "shm_host \<Rightarrow> u64 \<Rightarrow> u64 \<Rightarrow> shm \<Rightarrow> shm" where
  "free_range h p n s = s\<lparr>sh_registry := FreeMem (ho_munmap h) p n (sh_registry s)\<rparr>"

text \<open>The consumer view of a backing is given up before a resize and by the destructor.\<close>

definition drop_view :: "shm_host \<Rightarrow> backing \<Rightarrow> shm \<Rightarrow> shm" where
  "drop_view h b s = (case bk_base b of None \<Rightarrow> s
     | Some p \<Rightarrow> free_range h p (bk_map_size b) (AudioDaemonForgetRange p (bk_map_size b) s))"

definition referenced :: "nat \<Rightarrow> shm \<Rightarrow> bool" where
  "referenced k s \<longleftrightarrow> list_ex (\<lambda>(_, j). j = k) (sh_by_name s) \<or> list_ex (\<lambda>(_, _, j). j = k) (sh_maps s)
     \<or> list_ex (\<lambda>(_, o'). so_backing o' = k) (sh_fds s)"

definition release_backing :: "shm_host \<Rightarrow> nat \<Rightarrow> shm \<Rightarrow> shm" where
  "release_backing h k s = (case backing_of k s of None \<Rightarrow> s
     | Some b \<Rightarrow> if referenced k s then s
         else (drop_view h b s)\<lparr>sh_backings := AList.delete k (sh_backings s)\<rparr>)"

definition shm_rounded :: "u64 \<Rightarrow> u64" where
  "shm_rounded n = (n + 0x3fff) AND NOT 0x3fff"

definition resized :: "nat \<Rightarrow> u8 list \<Rightarrow> u8 list" where
  "resized n bs = take n bs @ replicate (n - length bs) 0"

definition ResizeShm :: "shm_host \<Rightarrow> nat \<Rightarrow> u64 \<Rightarrow> shm \<Rightarrow> bool \<times> shm" where
  "ResizeShm h k n s = (case backing_of k s of None \<Rightarrow> (False, s)
     | Some b \<Rightarrow>
        if \<not> bk_fd b \<or> n > - 1 - 0x3fff then (False, s)
        else
          let rounded = shm_rounded n;
              s = drop_view h b s;
              b = (if bk_base b = None then b else b\<lparr>bk_base := None, bk_map_size := 0\<rparr>);
              old_size = bk_size b
          in if \<not> ho_truncate h then (False, put_backing k b s)
             else
               let b = b\<lparr>bk_size := n, bk_bytes := resized (unat rounded) (bk_bytes b)\<rparr>
               in if rounded = 0 then (True, put_backing k b s)
                  else case ho_mmap h of None \<Rightarrow> (False, put_backing k b s)
                  | Some p \<Rightarrow>
                      let b = b\<lparr>bk_base := Some p, bk_map_size := rounded\<rparr>;
                          s = s\<lparr>sh_registry := TrackMemoryMapping p rounded False (sh_registry s)\<rparr>;
                          b = (if n < old_size
                               then b\<lparr>bk_bytes := take (unat n) (bk_bytes b) @ replicate (unat (rounded - n)) 0\<rparr> else b)
                      in (True, put_backing k b s))"

section \<open>Mapping records\<close>

text \<open>
  The loop over the records: what remains of each, the freed ranges and the backings they showed.
\<close>

fun unmap_records :: "u64 \<Rightarrow> u64 \<Rightarrow> (u64 \<times> u64 \<times> nat) list \<Rightarrow> (u64 \<times> u64 \<times> nat) list \<times> (u64 \<times> u64 \<times> nat) list" where
  "unmap_records f e [] = ([], [])"
| "unmap_records f e ((lo, n, k) # ms) =
     (case unmap_records f e ms of (remaining, unmapped) \<Rightarrow>
       let hi = lo + n
       in if lo \<ge> e \<or> hi \<le> f then ((lo, n, k) # remaining, unmapped)
          else let a = max lo f; b = min hi e
               in ((if lo < a then [(lo, a - lo, k)] else []) @ (if b < hi then [(b, hi - b, k)] else []) @ remaining,
                   (a, b - a, k) # unmapped))"

definition UnmapShm :: "shm_host \<Rightarrow> u64 \<Rightarrow> u64 \<Rightarrow> shm \<Rightarrow> shm" where
  "UnmapShm h p n s =
     (case unmap_records p (p + n) (sh_maps s) of (remaining, unmapped) \<Rightarrow>
        let s = fold (\<lambda>(a, m, _). free_range h a m) unmapped s;
            s = s\<lparr>sh_maps := remaining\<rparr>;
            s = fold (\<lambda>(_, _, k) s. case backing_of k s of None \<Rightarrow> s
                  | Some b \<Rightarrow> if list_ex (\<lambda>(_, _, j). j = k) (sh_maps s) then s
                      else case bk_base b of None \<Rightarrow> s | Some q \<Rightarrow> AudioDaemonForgetRange q (bk_map_size b) s) unmapped s
        in fold (\<lambda>(_, _, k). release_backing h k) unmapped s)"

section \<open>Names\<close>

definition ShmCreate :: "shm_host \<Rightarrow> string option \<Rightarrow> u64 \<Rightarrow> shm \<Rightarrow> int \<times> shm" where
  "ShmCreate h name n s = (case name of None \<Rightarrow> (neg_err eINVAL, s)
     | Some nm \<Rightarrow>
        if nm = [] \<or> n > - 1 - 0x3fff then (neg_err eINVAL, s)
        else if map_of (sh_by_name s) nm \<noteq> None then (neg_err eEXIST, s)
        else case new_backing h s of (k, s) \<Rightarrow>
          case ResizeShm h k n s of (ok, s) \<Rightarrow>
            if \<not> ok then (neg_err eNOMEM, release_backing h k s)
            else (0, s\<lparr>sh_by_name := (nm, k) # sh_by_name s\<rparr>))"

text \<open>\<open>InitializeShellCoreSharedMemory\<close> of \<open>kern/system_settings.cc\<close>, on the bytes of the view.\<close>

definition write_at :: "nat \<Rightarrow> u8 list \<Rightarrow> u8 list \<Rightarrow> u8 list" where
  "write_at i ds bs = take i bs @ ds @ drop (i + length ds) bs"

definition InitializeShellCoreSharedMemory :: "u64 \<Rightarrow> u8 list \<Rightarrow> u8 list" where
  "InitializeShellCoreSharedMemory n bs =
     (if n < 0x18 then bs
      else write_at 0x14 [1, 0, 0, 0] (write_at 0 [0x59, 0x72, 0xf1, 0x6d, 0xde, 0x1e, 0xd8, 0x6e] bs))"

text \<open>
  \<open>sys_shm_open\<close> on the path's string; \<open>no_auto\<close> is the option that refuses to provide unknown objects.
\<close>

definition open_object :: "shm_host \<Rightarrow> string \<Rightarrow> nat \<Rightarrow> bool \<Rightarrow> shm \<Rightarrow> int \<times> shm" where
  "open_object h nm k writable s =
     (sint (ho_handle h), s\<lparr>sh_fds := (ho_handle h, \<lparr>so_name = nm, so_backing = k, so_writable = writable\<rparr>) # sh_fds s\<rparr>)"

definition fill_system_shm :: "string \<Rightarrow> nat \<Rightarrow> shm \<Rightarrow> shm" where
  "fill_system_shm nm k s =
     (if nm = ''/SceShellCoreUtil'' then
        (case backing_of k s of None \<Rightarrow> s
         | Some b \<Rightarrow> put_backing k (b\<lparr>bk_bytes := InitializeShellCoreSharedMemory (bk_map_size b) (bk_bytes b)\<rparr>) s)
      else s)"

definition sys_shm_open :: "shm_host \<Rightarrow> bool \<Rightarrow> string option \<Rightarrow> u32 \<Rightarrow> shm \<Rightarrow> int \<times> shm" where
  "sys_shm_open h no_auto path flags s = (case path of None \<Rightarrow> (neg_err eINVAL, s)
     | Some nm \<Rightarrow>
        if flags AND 1 \<noteq> 0 then (neg_err eINVAL, s)
        else if flags AND 0xF1FC \<noteq> 0 then (neg_err eINVAL, s)
        else
          let creat = (flags AND 0x0200 \<noteq> 0); writable = (flags AND 2 \<noteq> 0)
          in case map_of (sh_by_name s) nm of
               None \<Rightarrow>
                 if \<not> creat \<and> take 12 nm = ''/SceSaveData'' then (neg_err eNOENT, s)
                 else if \<not> creat \<and> no_auto then (neg_err eNOENT, s)
                 else if \<not> creat then
                   (case new_backing h s of (k, s) \<Rightarrow> case ResizeShm h k 0x10000 s of (ok, s) \<Rightarrow>
                      if \<not> ok then (neg_err eNOMEM, release_backing h k s)
                      else
                        let s = fill_system_shm nm k s
                        in open_object h nm k writable (s\<lparr>sh_by_name := (nm, k) # sh_by_name s\<rparr>))
                 else
                   (case new_backing h s of (k, s) \<Rightarrow>
                      open_object h nm k writable (s\<lparr>sh_by_name := (nm, k) # sh_by_name s\<rparr>))
             | Some k \<Rightarrow>
                 if creat \<and> flags AND 0x0800 \<noteq> 0 then (neg_err eEXIST, s)
                 else if flags AND 0x403 = 0x402 then
                   (case ResizeShm h k 0 s of (ok, s) \<Rightarrow>
                      if \<not> ok then (neg_err eNOMEM, s) else open_object h nm k writable s)
                 else open_object h nm k writable s)"

definition sys_shm_unlink :: "shm_host \<Rightarrow> string option \<Rightarrow> shm \<Rightarrow> int \<times> shm" where
  "sys_shm_unlink h path s = (case path of None \<Rightarrow> (neg_err eINVAL, s)
     | Some nm \<Rightarrow> case map_of (sh_by_name s) nm of None \<Rightarrow> (neg_err eNOENT, s)
        | Some k \<Rightarrow> (0, release_backing h k (s\<lparr>sh_by_name := AList.delete nm (sh_by_name s)\<rparr>)))"

text \<open>Closing the last handle of a descriptor destroys its object.\<close>

definition close_object :: "shm_host \<Rightarrow> u32 \<Rightarrow> shm \<Rightarrow> shm" where
  "close_object h fd s = (case map_of (sh_fds s) fd of None \<Rightarrow> s
     | Some o' \<Rightarrow> release_backing h (so_backing o') (s\<lparr>sh_fds := AList.delete fd (sh_fds s)\<rparr>))"

text \<open>
  \<open>sys_ftruncate\<close> for descriptors of shared objects; \<open>kind\<close> is what the object table holds at the
  descriptor: nothing, a device with the answer of its own \<open>Truncate\<close>, or another object.
\<close>

datatype fd_kind = No_object | A_device int | Other_object

definition sys_ftruncate :: "shm_host \<Rightarrow> (u32 \<Rightarrow> fd_kind) \<Rightarrow> u32 \<Rightarrow> int \<Rightarrow> shm \<Rightarrow> int \<times> shm" where
  "sys_ftruncate h kind fd len s =
     (if len < 0 then (neg_err eINVAL, s)
      else case map_of (sh_fds s) fd of
        None \<Rightarrow> (case kind fd of No_object \<Rightarrow> neg_err eBADF | A_device r \<Rightarrow> r | Other_object \<Rightarrow> neg_err eINVAL, s)
      | Some o' \<Rightarrow>
          if \<not> so_writable o' then (neg_err eINVAL, s)
          else case backing_of (so_backing o') s of None \<Rightarrow> (neg_err eINVAL, s)
            | Some b \<Rightarrow> if word_of_int len \<noteq> bk_size b
                then (case ResizeShm h (so_backing o') (word_of_int len) s of (ok, s) \<Rightarrow>
                        if \<not> ok then (neg_err eNOMEM, s) else (0, s))
                else (0, s))"

definition ShmFstatSize :: "u32 \<Rightarrow> shm \<Rightarrow> u64" where
  "ShmFstatSize fd s = (case map_of (sh_fds s) fd of None \<Rightarrow> - 1
     | Some o' \<Rightarrow> case backing_of (so_backing o') s of None \<Rightarrow> - 1 | Some b \<Rightarrow> bk_size b)"

section \<open>Reading and writing by name\<close>

definition ShmIdentity :: "string option \<Rightarrow> shm \<Rightarrow> u64" where
  "ShmIdentity name s = (case name of None \<Rightarrow> 0
     | Some nm \<Rightarrow> if nm = [] then 0 else case map_of (sh_by_name s) nm of None \<Rightarrow> 0
        | Some k \<Rightarrow> case backing_of k s of None \<Rightarrow> 0 | Some b \<Rightarrow> bk_identity b)"

text \<open>The checks of \<open>CopyShm\<close>: an error number or the backing to copy from or to.\<close>

definition copy_check :: "string option \<Rightarrow> u64 \<Rightarrow> bool \<Rightarrow> u64 \<Rightarrow> u64 \<Rightarrow> shm \<Rightarrow> int + nat \<times> backing" where
  "copy_check name off buffer n identity s = (case name of None \<Rightarrow> Inl (neg_err eINVAL)
     | Some nm \<Rightarrow>
        if nm = [] \<or> (n \<noteq> 0 \<and> \<not> buffer) then Inl (neg_err eINVAL)
        else case map_of (sh_by_name s) nm of None \<Rightarrow> Inl (neg_err eNOENT)
        | Some k \<Rightarrow> case backing_of k s of None \<Rightarrow> Inl (neg_err eNOENT)
          | Some b \<Rightarrow>
             if identity \<noteq> 0 \<and> identity \<noteq> bk_identity b then Inl (neg_err eNOENT)
             else if off > bk_size b \<or> n > bk_size b - off then Inl (neg_err eINVAL)
             else if n \<noteq> 0 \<and> bk_base b = None then Inl (neg_err eNOMEM)
             else Inr (k, b))"

definition ShmRead :: "string option \<Rightarrow> u64 \<Rightarrow> bool \<Rightarrow> u64 \<Rightarrow> u64 \<Rightarrow> shm \<Rightarrow> int \<times> u8 list" where
  "ShmRead name off buffer n identity s = (case copy_check name off buffer n identity s of Inl e \<Rightarrow> (e, [])
     | Inr (k, b) \<Rightarrow> (0, take (unat n) (drop (unat off) (bk_bytes b))))"

definition ShmWrite :: "string option \<Rightarrow> u64 \<Rightarrow> u8 list option \<Rightarrow> u64 \<Rightarrow> u64 \<Rightarrow> shm \<Rightarrow> int \<times> shm" where
  "ShmWrite name off data n identity s = (case copy_check name off (data \<noteq> None) n identity s of Inl e \<Rightarrow> (e, s)
     | Inr (k, b) \<Rightarrow> (0, case data of None \<Rightarrow> s
         | Some ds \<Rightarrow> put_backing k (b\<lparr>bk_bytes := write_at (unat off) (take (unat n) ds) (bk_bytes b)\<rparr>) s))"

section \<open>The state invariant\<close>

text \<open>
  Every name, record and descriptor refers to a live backing, no two names share one, and the identity
  of a backing is its number in the order of creation. A view shows the whole file, rounded to pages.
\<close>

definition backing_ok :: "backing \<Rightarrow> bool" where
  "backing_ok b \<longleftrightarrow> (bk_base b \<noteq> None \<longrightarrow> unat (bk_size b) \<le> length (bk_bytes b))"

definition keyed :: "shm \<Rightarrow> nat \<Rightarrow> backing \<Rightarrow> bool" where
  "keyed s k b \<longleftrightarrow> k < sh_count s \<and> bk_identity b = of_nat k + 1 \<and> backing_ok b"

definition shm_inv :: "shm \<Rightarrow> bool" where
  "shm_inv s \<longleftrightarrow>
     (\<forall>k b. backing_of k s = Some b \<longrightarrow> keyed s k b)
   \<and> distinct (map fst (sh_by_name s)) \<and> distinct (map snd (sh_by_name s))
   \<and> (\<forall>(n, k) \<in> set (sh_by_name s). backing_of k s \<noteq> None)
   \<and> (\<forall>(p, n, k) \<in> set (sh_maps s). backing_of k s \<noteq> None)
   \<and> (\<forall>(fd, o') \<in> set (sh_fds s). backing_of (so_backing o') s \<noteq> None)
   \<and> sh_next_identity s = of_nat (sh_count s) + 1"

lemma shm_invD:
  assumes "shm_inv s"
  shows "backing_of k s = Some b \<Longrightarrow> keyed s k b" "(n, k) \<in> set (sh_by_name s) \<Longrightarrow> backing_of k s \<noteq> None"
    "(p, m, k) \<in> set (sh_maps s) \<Longrightarrow> backing_of k s \<noteq> None"
    "(fd, o') \<in> set (sh_fds s) \<Longrightarrow> backing_of (so_backing o') s \<noteq> None"
    "distinct (map fst (sh_by_name s))" "distinct (map snd (sh_by_name s))" "sh_next_identity s = of_nat (sh_count s) + 1"
  using assms unfolding shm_inv_def by blast+

text \<open>Changes of the registry and of the daemon's trace do not matter to the objects.\<close>

definition objects_of :: "shm \<Rightarrow> shm" where
  "objects_of s = s\<lparr>sh_registry := registry_init, sh_forgotten := []\<rparr>"

lemma objects_eq:
  assumes "objects_of s = objects_of t"
  shows "sh_backings s = sh_backings t" "sh_count s = sh_count t" "sh_next_identity s = sh_next_identity t"
    "sh_by_name s = sh_by_name t" "sh_maps s = sh_maps t" "sh_fds s = sh_fds t"
  using assms by (auto simp: objects_of_def dest: arg_cong [where f = sh_backings] arg_cong [where f = sh_count]
      arg_cong [where f = sh_next_identity] arg_cong [where f = sh_by_name] arg_cong [where f = sh_maps] arg_cong [where f = sh_fds])

lemma objects_simps [simp]:
  "objects_of (AudioDaemonForgetRange p n s) = objects_of s"
  "objects_of (free_range h p n s) = objects_of s"
  "objects_of (s\<lparr>sh_registry := r\<rparr>) = objects_of s"
  "objects_of (objects_of s) = objects_of s"
  by (simp_all add: objects_of_def AudioDaemonForgetRange_def free_range_def)

lemma objects_drop_view [simp]: "objects_of (drop_view h b s) = objects_of s"
  by (simp add: drop_view_def split: option.splits)

lemma objects_fold: "(\<And>x s. objects_of (f x s) = objects_of s) \<Longrightarrow> objects_of (fold f xs s) = objects_of s"
  by (induction xs arbitrary: s) simp_all

lemma shm_inv_objects: "objects_of s = objects_of t \<Longrightarrow> shm_inv s = shm_inv t"
  using objects_eq [of s t] by (simp add: shm_inv_def keyed_def backing_of_def)

section \<open>Elementary changes\<close>

lemma backing_of_put [simp]: "backing_of j (put_backing k b s) = (if j = k then Some b else backing_of j s)"
  by (simp add: backing_of_def put_backing_def update_conv')

lemma put_fields [simp]:
  "sh_count (put_backing k b s) = sh_count s" "sh_next_identity (put_backing k b s) = sh_next_identity s"
  "sh_by_name (put_backing k b s) = sh_by_name s" "sh_maps (put_backing k b s) = sh_maps s" "sh_fds (put_backing k b s) = sh_fds s"
  by (simp_all add: put_backing_def)

lemma put_inv: "shm_inv s \<Longrightarrow> backing_of k s \<noteq> None \<Longrightarrow> keyed s k b \<Longrightarrow> shm_inv (put_backing k b s)"
  by (auto simp: shm_inv_def keyed_def)

lemma new_backing_inv: "shm_inv s \<Longrightarrow> shm_inv (snd (new_backing h s))"
  by (fastforce simp: shm_inv_def new_backing_def keyed_def backing_ok_def backing_of_def put_backing_def update_conv' split: if_splits)

lemma new_backing_fields:
  "fst (new_backing h s) = sh_count s" "sh_by_name (snd (new_backing h s)) = sh_by_name s"
  "sh_maps (snd (new_backing h s)) = sh_maps s" "sh_fds (snd (new_backing h s)) = sh_fds s"
  "sh_count (snd (new_backing h s)) = sh_count s + 1" "backing_of (sh_count s) (snd (new_backing h s)) \<noteq> None"
  by (simp_all add: new_backing_def)

lemma release_fields:
  "sh_by_name (release_backing h k s) = sh_by_name s" "sh_maps (release_backing h k s) = sh_maps s"
  "sh_fds (release_backing h k s) = sh_fds s" "sh_count (release_backing h k s) = sh_count s"
  using objects_eq [OF objects_drop_view, of h _ s]
  by (simp_all add: release_backing_def split: option.splits)

lemma release_inv:
  assumes "shm_inv s"
  shows "shm_inv (release_backing h k s)"
proof (cases "backing_of k s = None \<or> referenced k s")
  case True
  then show ?thesis using assms by (auto simp: release_backing_def split: option.splits)
next
  case False
  then obtain b where b: "backing_of k s = Some b" and nr: "\<not> referenced k s" by auto
  let ?t = "s\<lparr>sh_backings := AList.delete k (sh_backings s)\<rparr>"
  have eq: "objects_of (release_backing h k s) = objects_of ?t"
    using b nr objects_eq [OF objects_drop_view, of h b s]
    by (simp add: release_backing_def objects_of_def)
  have bo: "backing_of j ?t = (if j = k then None else backing_of j s)" for j
    by (simp add: backing_of_def delete_conv')
  have nk: "(n, j) \<in> set (sh_by_name s) \<Longrightarrow> j \<noteq> k" "(p, m, j) \<in> set (sh_maps s) \<Longrightarrow> j \<noteq> k"
    "(fd, o') \<in> set (sh_fds s) \<Longrightarrow> so_backing o' \<noteq> k" for n p m j fd o'
    using nr by (auto simp: referenced_def list_ex_iff)
  have "shm_inv ?t"
    unfolding shm_inv_def
  proof (intro conjI)
    show "\<forall>j c. backing_of j ?t = Some c \<longrightarrow> keyed ?t j c" using shm_invD(1) [OF assms] by (simp add: bo keyed_def)
    have "backing_of j ?t \<noteq> None" if "(n, j) \<in> set (sh_by_name s)" for n j
      using shm_invD(2) [OF assms that] nk(1) [OF that] by (simp add: bo)
    then show "\<forall>(n, j) \<in> set (sh_by_name ?t). backing_of j ?t \<noteq> None" by auto
    have "backing_of j ?t \<noteq> None" if "(p, m, j) \<in> set (sh_maps s)" for p m j
      using shm_invD(3) [OF assms that] nk(2) [OF that] by (simp add: bo)
    then show "\<forall>(p, m, j) \<in> set (sh_maps ?t). backing_of j ?t \<noteq> None" by auto
    have "backing_of (so_backing o') ?t \<noteq> None" if "(fd, o') \<in> set (sh_fds s)" for fd o'
      using shm_invD(4) [OF assms that] nk(3) [OF that] by (simp add: bo)
    then show "\<forall>(fd, o') \<in> set (sh_fds ?t). backing_of (so_backing o') ?t \<noteq> None" by auto
  qed (use shm_invD(5-7) [OF assms] in simp_all)
  then show ?thesis using shm_inv_objects [OF eq] by blast
qed

section \<open>Resizing\<close>

text \<open>What a successful resize leaves: the bytes below the new size when it shrinks, all bytes when it grows, zeros elsewhere.\<close>

definition reshaped :: "u64 \<Rightarrow> u64 \<Rightarrow> u8 list \<Rightarrow> u8 list \<Rightarrow> bool" where
  "reshaped old n bs bs' \<longleftrightarrow> length bs' = unat (shm_rounded n)
     \<and> (\<forall>i < length bs'. bs' ! i = (if i < length bs \<and> (n < old \<longrightarrow> i < unat n) then bs ! i else 0))"

lemma resized_nth: "i < n \<Longrightarrow> resized n bs ! i = (if i < length bs then bs ! i else 0)"
  by (auto simp: resized_def nth_append)

lemma length_resized [simp]: "length (resized n bs) = n"
  by (simp add: resized_def)

lemma shm_rounded_facts:
  assumes "\<not> n > - 1 - 0x3fff"
  shows "n \<le> shm_rounded n" "unat n \<le> unat (shm_rounded n)" "shm_rounded n = 0 \<longleftrightarrow> n = 0"
  using page_up_16k [OF assms] by (simp_all add: shm_rounded_def word_le_nat_alt)

lemma reshaped_grow: "\<not> n < old \<Longrightarrow> reshaped old n bs (resized (unat (shm_rounded n)) bs)"
  by (simp add: reshaped_def resized_nth)

lemma reshaped_shrink:
  assumes "\<not> n > - 1 - 0x3fff" "n < old"
  shows "reshaped old n bs (take (unat n) (resized (unat (shm_rounded n)) bs) @ replicate (unat (shm_rounded n - n)) 0)"
proof -
  have d: "unat (shm_rounded n - n) = unat (shm_rounded n) - unat n"
    using shm_rounded_facts(1) [OF assms(1)] by (rule unat_diff_le)
  then show ?thesis using assms(2) shm_rounded_facts(2) [OF assms(1)]
    by (auto simp: reshaped_def nth_append resized_nth min_def)
qed

lemma reshaped_zero: "0 < old \<Longrightarrow> reshaped old 0 bs (resized 0 bs)"
  by (simp add: reshaped_def shm_rounded_def)

definition resize_ok :: "u64 \<Rightarrow> backing \<Rightarrow> backing \<Rightarrow> bool" where
  "resize_ok n b b' \<longleftrightarrow> bk_size b' = n \<and> (n \<noteq> 0 \<longrightarrow> bk_base b' \<noteq> None) \<and> reshaped (bk_size b) n (bk_bytes b) (bk_bytes b')"

lemma ResizeShm_result:
  assumes b: "backing_of k s = Some b" "backing_ok b"
  shows "\<exists>b'. objects_of (snd (ResizeShm h k n s)) = objects_of (put_backing k b' s)
    \<and> bk_identity b' = bk_identity b \<and> backing_ok b' \<and> (fst (ResizeShm h k n s) \<longrightarrow> resize_ok n b b')"
proof (cases "\<not> bk_fd b \<or> n > - 1 - 0x3fff")
  case True
  have "put_backing k b s = s"
    using b(1) by (simp add: put_backing_def backing_of_def update_triv)
  then show ?thesis using True b by (intro exI [of _ b]) (auto simp: ResizeShm_def)
next
  case False
  then have n: "\<not> n > - 1 - 0x3fff" by simp
  let ?s = "drop_view h b s"
  let ?b0 = "if bk_base b = None then b else b\<lparr>bk_base := None, bk_map_size := 0\<rparr>"
  let ?b1 = "?b0\<lparr>bk_size := n, bk_bytes := resized (unat (shm_rounded n)) (bk_bytes ?b0)\<rparr>"
  have put: "objects_of (put_backing k c ?s) = objects_of (put_backing k c s)" for c
    using objects_eq [OF objects_drop_view, of h b s] by (simp add: objects_of_def put_backing_def)
  have trk: "objects_of (put_backing k c (?s\<lparr>sh_registry := r\<rparr>)) = objects_of (put_backing k c ?s)" for c r
    by (simp add: objects_of_def put_backing_def)
  have b0: "bk_identity ?b0 = bk_identity b" "bk_base ?b0 = None" "bk_size ?b0 = bk_size b" "bk_bytes ?b0 = bk_bytes b"
    by simp_all
  show ?thesis
  proof (cases "ho_truncate h \<and> (n \<noteq> 0 \<longrightarrow> ho_mmap h \<noteq> None)")
    case fail: False
    then have "\<exists>c. ResizeShm h k n s = (False, put_backing k c ?s) \<and> bk_identity c = bk_identity b \<and> bk_base c = None"
      using False b(1) shm_rounded_facts(3) [OF n] b0
      by (cases "ho_truncate h") (auto simp: ResizeShm_def Let_def)
    then show ?thesis using put by (auto simp: backing_ok_def)
  next
    case ok: True
    show ?thesis
    proof (cases "n = 0")
      case True
      then have "ResizeShm h k n s = (True, put_backing k ?b1 ?s)"
        using False ok b(1) shm_rounded_facts(3) [OF n] by (simp add: ResizeShm_def Let_def)
      moreover have "reshaped (bk_size b) n (bk_bytes b) (bk_bytes ?b1)"
        using True by (cases "0 < bk_size b") (auto simp: reshaped_def shm_rounded_def)
      ultimately show ?thesis using put True b0 by (intro exI [of _ ?b1]) (simp add: resize_ok_def backing_ok_def)
    next
      case nz: False
      then obtain p where p: "ho_mmap h = Some p" using ok by auto
      let ?b2 = "?b1\<lparr>bk_base := Some p, bk_map_size := shm_rounded n\<rparr>"
      let ?b3 = "if n < bk_size b
        then ?b2\<lparr>bk_bytes := take (unat n) (bk_bytes ?b2) @ replicate (unat (shm_rounded n - n)) 0\<rparr> else ?b2"
      let ?r = "?s\<lparr>sh_registry := TrackMemoryMapping p (shm_rounded n) False (sh_registry ?s)\<rparr>"
      have "ResizeShm h k n s = (True, put_backing k ?b3 ?r)"
        using False ok b(1) nz p shm_rounded_facts(3) [OF n] by (simp add: ResizeShm_def Let_def)
      moreover have re: "reshaped (bk_size b) n (bk_bytes b) (bk_bytes ?b3)"
        using reshaped_shrink [OF n, of "bk_size b" "bk_bytes b"] reshaped_grow [of n "bk_size b" "bk_bytes b"] by auto
      moreover have "bk_size ?b3 = n" "bk_base ?b3 = Some p" "bk_identity ?b3 = bk_identity b" by simp_all
      moreover have "unat n \<le> length (bk_bytes ?b3)"
        using re shm_rounded_facts(2) [OF n] by (simp add: reshaped_def)
      ultimately show ?thesis using put trk by (intro exI [of _ ?b3]) (simp add: resize_ok_def backing_ok_def)
    qed
  qed
qed

lemma ResizeShm_inv:
  assumes "shm_inv s"
  shows "shm_inv (snd (ResizeShm h k n s))" "sh_by_name (snd (ResizeShm h k n s)) = sh_by_name s"
    "sh_maps (snd (ResizeShm h k n s)) = sh_maps s" "sh_fds (snd (ResizeShm h k n s)) = sh_fds s"
    "sh_count (snd (ResizeShm h k n s)) = sh_count s"
    "backing_of j (snd (ResizeShm h k n s)) = None \<longleftrightarrow> backing_of j s = None"
    "j \<noteq> k \<Longrightarrow> backing_of j (snd (ResizeShm h k n s)) = backing_of j s"
proof -
  have "shm_inv (snd (ResizeShm h k n s)) \<and> sh_by_name (snd (ResizeShm h k n s)) = sh_by_name s
    \<and> sh_maps (snd (ResizeShm h k n s)) = sh_maps s \<and> sh_fds (snd (ResizeShm h k n s)) = sh_fds s
    \<and> sh_count (snd (ResizeShm h k n s)) = sh_count s
    \<and> (\<forall>j. (backing_of j (snd (ResizeShm h k n s)) = None \<longleftrightarrow> backing_of j s = None)
        \<and> (j \<noteq> k \<longrightarrow> backing_of j (snd (ResizeShm h k n s)) = backing_of j s))"
  proof (cases "backing_of k s")
    case None
    then show ?thesis using assms by (simp add: ResizeShm_def)
  next
    case (Some b)
    then have kb: "keyed s k b" using shm_invD(1) [OF assms] by simp
    then obtain b' where r: "objects_of (snd (ResizeShm h k n s)) = objects_of (put_backing k b' s)"
        "bk_identity b' = bk_identity b" "backing_ok b'"
      using ResizeShm_result [OF Some] by (auto simp: keyed_def)
    then have "shm_inv (put_backing k b' s)" using kb Some assms by (intro put_inv) (auto simp: keyed_def)
    moreover have "backing_of j (snd (ResizeShm h k n s)) = backing_of j (put_backing k b' s)" for j
      using objects_eq(1) [OF r(1)] by (simp add: backing_of_def)
    ultimately show ?thesis using shm_inv_objects [OF r(1)] objects_eq [OF r(1)] Some by auto
  qed
  then show "shm_inv (snd (ResizeShm h k n s))" "sh_by_name (snd (ResizeShm h k n s)) = sh_by_name s"
    "sh_maps (snd (ResizeShm h k n s)) = sh_maps s" "sh_fds (snd (ResizeShm h k n s)) = sh_fds s"
    "sh_count (snd (ResizeShm h k n s)) = sh_count s"
    "backing_of j (snd (ResizeShm h k n s)) = None \<longleftrightarrow> backing_of j s = None"
    "j \<noteq> k \<Longrightarrow> backing_of j (snd (ResizeShm h k n s)) = backing_of j s" by blast+
qed

section \<open>Histories of calls\<close>

text \<open>
  The calls on shared objects; \<open>SMap\<close> is the record \<open>ShmMap\<close> adds for a view the host installed.
\<close>

datatype shm_call =
  SOpen shm_host bool "string option" u32
| SCreate shm_host "string option" u64
| SUnlink shm_host "string option"
| SClose shm_host u32
| STruncate shm_host u32 int
| SWrite "string option" u64 "u8 list option" u64 u64
| SMap u64 u64 u32
| SUnmap shm_host u64 u64

definition add_record :: "u64 \<Rightarrow> u64 \<Rightarrow> u32 \<Rightarrow> shm \<Rightarrow> shm" where
  "add_record p n fd s = (case map_of (sh_fds s) fd of None \<Rightarrow> s
     | Some o' \<Rightarrow> s\<lparr>sh_maps := sh_maps s @ [(p, n, so_backing o')]\<rparr>)"

fun shm_exec :: "shm_call \<Rightarrow> shm \<Rightarrow> shm" where
  "shm_exec (SOpen h no_auto path flags) s = snd (sys_shm_open h no_auto path flags s)"
| "shm_exec (SCreate h name n) s = snd (ShmCreate h name n s)"
| "shm_exec (SUnlink h path) s = snd (sys_shm_unlink h path s)"
| "shm_exec (SClose h fd) s = close_object h fd s"
| "shm_exec (STruncate h fd len) s = snd (sys_ftruncate h (\<lambda>_. No_object) fd len s)"
| "shm_exec (SWrite name off data n i) s = snd (ShmWrite name off data n i s)"
| "shm_exec (SMap p n fd) s = add_record p n fd s"
| "shm_exec (SUnmap h p n) s = UnmapShm h p n s"

text \<open>
  What every call keeps: the invariant, and that a name only ever comes to mean a backing made later.
\<close>

definition shm_step :: "shm \<Rightarrow> shm \<Rightarrow> bool" where
  "shm_step s t \<longleftrightarrow> shm_inv t \<and> sh_count s \<le> sh_count t
     \<and> (\<forall>nm k. map_of (sh_by_name t) nm = Some k \<longrightarrow> map_of (sh_by_name s) nm = Some k \<or> sh_count s \<le> k)"

lemma shm_step_refl: "shm_inv s \<Longrightarrow> shm_step s s"
  by (simp add: shm_step_def)

lemma shm_step_trans: "shm_step s t \<Longrightarrow> shm_step t u \<Longrightarrow> shm_step s u"
  by (fastforce simp: shm_step_def)

lemma shm_step_inv: "shm_step s t \<Longrightarrow> shm_inv t"
  by (simp add: shm_step_def)

lemma step_same_names:
  "shm_inv t \<Longrightarrow> sh_by_name t = sh_by_name s \<Longrightarrow> sh_count s \<le> sh_count t \<Longrightarrow> shm_step s t"
  by (simp add: shm_step_def)

lemma step_release: "shm_inv s \<Longrightarrow> shm_step s (release_backing h k s)"
  by (intro step_same_names release_inv) (simp_all add: release_fields)

lemma step_resize: "shm_inv s \<Longrightarrow> shm_step s (snd (ResizeShm h k n s))"
  by (intro step_same_names) (simp_all add: ResizeShm_inv)

lemma step_new: "shm_inv s \<Longrightarrow> shm_step s (snd (new_backing h s))"
  by (intro step_same_names new_backing_inv) (simp_all add: new_backing_fields)

lemma step_objects: "objects_of s = objects_of t \<Longrightarrow> shm_inv s \<Longrightarrow> shm_step s t"
  using objects_eq [of s t] shm_inv_objects [of s t] by (intro step_same_names) simp_all

lemma step_name:
  assumes "shm_inv s" "map_of (sh_by_name s) nm = None" "backing_of k s \<noteq> None" "k \<notin> snd ` set (sh_by_name s)"
    and "sh_count u \<le> k" "shm_step u s"
  shows "shm_step u (s\<lparr>sh_by_name := (nm, k) # sh_by_name s\<rparr>)"
proof -
  have "nm \<notin> fst ` set (sh_by_name s)" using assms(2) by (simp add: map_of_eq_None_iff)
  then have "shm_inv (s\<lparr>sh_by_name := (nm, k) # sh_by_name s\<rparr>)"
    using assms(1,3,4) by (simp add: shm_inv_def keyed_def backing_of_def)
  then show ?thesis using assms(5,6) by (auto simp: shm_step_def)
qed

lemma step_open: "shm_inv s \<Longrightarrow> backing_of k s \<noteq> None \<Longrightarrow> shm_step s (snd (open_object h nm k w s))"
  by (rule step_same_names) (auto simp: open_object_def shm_inv_def keyed_def backing_of_def)

lemma names_below: "shm_inv s \<Longrightarrow> (n, k) \<in> set (sh_by_name s) \<Longrightarrow> k < sh_count s"
  using shm_invD(1,2) by (fastforce simp: keyed_def)

text \<open>A fresh backing, resized and named: what \<open>ShmCreate\<close> and \<open>sys_shm_open\<close> do for a new object.\<close>

lemma step_fresh:
  assumes "shm_inv s"
  shows "shm_step s (snd (ResizeShm h (sh_count s) n (snd (new_backing h s))))"
    and "map_of (sh_by_name s) nm = None \<Longrightarrow>
      shm_step s ((snd (ResizeShm h (sh_count s) n (snd (new_backing h s))))\<lparr>sh_by_name := (nm, sh_count s) # sh_by_name s\<rparr>)"
    and "map_of (sh_by_name s) nm = None \<Longrightarrow>
      shm_step s ((snd (new_backing h s))\<lparr>sh_by_name := (nm, sh_count s) # sh_by_name s\<rparr>)"
proof -
  let ?n = "snd (new_backing h s)"
  let ?r = "snd (ResizeShm h (sh_count s) n ?n)"
  have n: "shm_step s ?n" "shm_inv ?n" using step_new assms by (auto dest: shm_step_inv)
  have r: "shm_step ?n ?r" using n(2) by (rule step_resize)
  then show sr: "shm_step s ?r" using n(1) shm_step_trans by blast
  have fresh: "sh_count s \<notin> snd ` set (sh_by_name s)" using names_below [OF assms] by fastforce
  assume "map_of (sh_by_name s) nm = None"
  then show "shm_step s (?r\<lparr>sh_by_name := (nm, sh_count s) # sh_by_name s\<rparr>)"
    using step_name [of ?r nm "sh_count s" s] sr fresh ResizeShm_inv [OF n(2)]
    by (simp add: new_backing_fields shm_step_inv)
  show "shm_step s (?n\<lparr>sh_by_name := (nm, sh_count s) # sh_by_name s\<rparr>)"
    using step_name [of ?n nm "sh_count s" s] n fresh \<open>map_of (sh_by_name s) nm = None\<close>
    by (simp add: new_backing_fields)
qed

lemma step_create: "shm_inv s \<Longrightarrow> shm_step s (snd (ShmCreate h name n s))"
proof -
  assume s: "shm_inv s"
  note new = new_backing_fields [where h = h and s = s] ResizeShm_inv [OF new_backing_inv [OF s, of h]]
  show ?thesis
  proof (cases "\<exists>nm. name = Some nm \<and> nm \<noteq> [] \<and> \<not> n > - 1 - 0x3fff \<and> map_of (sh_by_name s) nm = None")
    case False
    then have "snd (ShmCreate h name n s) = s"
      by (auto simp: ShmCreate_def split: option.splits)
    then show ?thesis using s by (simp add: shm_step_refl)
  next
    case True
    then obtain nm where nm: "name = Some nm" "nm \<noteq> []" "\<not> n > - 1 - 0x3fff" "map_of (sh_by_name s) nm = None" by auto
    note fresh = step_fresh [OF s]
    have "shm_step s (release_backing h (sh_count s) (snd (ResizeShm h (sh_count s) n (snd (new_backing h s)))))"
      using fresh(1) step_release shm_step_inv shm_step_trans by blast
    then show ?thesis
      using nm fresh(2) [OF nm(4), of h n] new by (simp add: ShmCreate_def split_beta)
  qed
qed

lemma length_write_at: "length bs \<le> length (write_at i ds bs)"
  by (simp add: write_at_def)

lemma step_shellcore:
  assumes "shm_step s t"
  shows "shm_step s (fill_system_shm nm k t)"
proof (cases "backing_of k t")
  case (Some b)
  have t: "shm_inv t" using assms by (rule shm_step_inv)
  have kb: "keyed t k b" using shm_invD(1) [OF t Some] .
  have "length bs \<le> length (InitializeShellCoreSharedMemory m bs)" for m bs
    using order_trans [OF length_write_at length_write_at] by (simp add: InitializeShellCoreSharedMemory_def)
  then have "keyed t k (b\<lparr>bk_bytes := InitializeShellCoreSharedMemory (bk_map_size b) (bk_bytes b)\<rparr>)"
    using kb order_trans by (fastforce simp: keyed_def backing_ok_def)
  then have "shm_inv (put_backing k (b\<lparr>bk_bytes := InitializeShellCoreSharedMemory (bk_map_size b) (bk_bytes b)\<rparr>) t)"
    using t Some by (intro put_inv) simp_all
  then have "shm_step t (put_backing k (b\<lparr>bk_bytes := InitializeShellCoreSharedMemory (bk_map_size b) (bk_bytes b)\<rparr>) t)"
    by (rule step_same_names) simp_all
  then have "shm_step s (put_backing k (b\<lparr>bk_bytes := InitializeShellCoreSharedMemory (bk_map_size b) (bk_bytes b)\<rparr>) t)"
    using assms shm_step_trans by blast
  then show ?thesis using Some assms by (simp add: fill_system_shm_def)
qed (use assms in \<open>simp add: fill_system_shm_def\<close>)

lemma shellcore_fields:
  "sh_by_name (fill_system_shm nm k t) = sh_by_name t"
  "backing_of j (fill_system_shm nm k t) = None \<longleftrightarrow> backing_of j t = None"
  by (auto simp: fill_system_shm_def split: option.splits)

lemma step_open_call: "shm_inv s \<Longrightarrow> shm_step s (snd (sys_shm_open h no_auto path flags s))"
proof -
  assume s: "shm_inv s"
  note new = new_backing_fields [where h = h and s = s] ResizeShm_inv [OF new_backing_inv [OF s, of h]]
  let ?r = "snd (ResizeShm h (sh_count s) 0x10000 (snd (new_backing h s)))"
  note fresh = step_fresh [OF s]
  have release: "shm_step s (release_backing h (sh_count s) ?r)"
    using fresh(1) step_release shm_step_inv shm_step_trans by blast
  have unnamed: "sh_count s \<notin> snd ` set (sh_by_name s)" using names_below [OF s] by fastforce
  have opened: "shm_step s (snd (open_object h nm k w t))" if "shm_step s t" "backing_of k t \<noteq> None" for nm k w t
    using step_open [OF shm_step_inv [OF that(1)] that(2)] that(1) shm_step_trans by blast
  have named: "shm_step s (snd (open_object h nm (sh_count s) w (t\<lparr>sh_by_name := (nm, sh_count s) # sh_by_name s\<rparr>)))"
    if "map_of (sh_by_name s) nm = None" "shm_step s t" "sh_by_name t = sh_by_name s" "backing_of (sh_count s) t \<noteq> None" for nm w t
  proof -
    have "shm_step s (t\<lparr>sh_by_name := (nm, sh_count s) # sh_by_name t\<rparr>)"
      using that unnamed shm_step_inv by (intro step_name) auto
    then show ?thesis using that(3,4) by (intro opened) (simp_all add: backing_of_def)
  qed
  show ?thesis
  proof (cases path)
    case None
    then show ?thesis using s by (simp add: sys_shm_open_def shm_step_refl)
  next
    case (Some nm)
    show ?thesis
    proof (cases "map_of (sh_by_name s) nm")
      case None
      have "shm_step s (snd (open_object h nm (sh_count s) w
          ((snd (new_backing h s))\<lparr>sh_by_name := (nm, sh_count s) # sh_by_name s\<rparr>)))" for w
        using new by (intro named [OF None step_new [OF s]]) simp_all
      moreover have "shm_step s (snd (open_object h nm (sh_count s) w
          ((fill_system_shm nm (sh_count s) ?r)\<lparr>sh_by_name := (nm, sh_count s) # sh_by_name s\<rparr>)))" for w
        using new shellcore_fields by (intro named [OF None step_shellcore [OF fresh(1)]]) simp_all
      ultimately show ?thesis
        using Some None release new(1,2) new(8) s shellcore_fields(1)
        by (simp add: sys_shm_open_def Let_def split_beta shm_step_refl)
    next
      case (Some k)
      have k: "backing_of k s \<noteq> None" using shm_invD(2) [OF s] map_of_SomeD [OF Some] by blast
      have "shm_step s (snd (ResizeShm h k 0 s))" using s by (rule step_resize)
      moreover from opened [OF this] have "shm_step s (snd (open_object h nm k w (snd (ResizeShm h k 0 s))))" for w
        using k ResizeShm_inv(6) [OF s] by simp
      moreover have "shm_step s (snd (open_object h nm k w s))" for w
        using opened [OF shm_step_refl [OF s]] k by simp
      ultimately show ?thesis
        using \<open>path = Some nm\<close> Some s by (simp add: sys_shm_open_def Let_def split_beta shm_step_refl)
    qed
  qed
qed

lemma step_unlink: "shm_inv s \<Longrightarrow> shm_step s (snd (sys_shm_unlink h path s))"
proof -
  assume s: "shm_inv s"
  have "shm_step s (release_backing h k (s\<lparr>sh_by_name := AList.delete nm (sh_by_name s)\<rparr>))" for nm k
  proof -
    let ?t = "s\<lparr>sh_by_name := AList.delete nm (sh_by_name s)\<rparr>"
    have "distinct (map snd (AList.delete nm (sh_by_name s)))"
      using shm_invD(6) [OF s] by (auto simp: AList.delete_eq distinct_map inj_on_def)
    then have "shm_inv ?t" using s
      by (auto simp: shm_inv_def keyed_def backing_of_def AList.delete_eq distinct_map_filter)
    then have "shm_step s ?t" by (auto simp: shm_step_def delete_conv' split: if_splits)
    then show ?thesis using step_release shm_step_inv shm_step_trans by blast
  qed
  then show ?thesis using s by (auto simp: sys_shm_unlink_def shm_step_refl split: option.splits)
qed

lemma step_close: "shm_inv s \<Longrightarrow> shm_step s (close_object h fd s)"
proof -
  assume s: "shm_inv s"
  have "shm_step s (release_backing h k (s\<lparr>sh_fds := AList.delete fd (sh_fds s)\<rparr>))" for k
  proof -
    have "shm_inv (s\<lparr>sh_fds := AList.delete fd (sh_fds s)\<rparr>)"
      using s by (auto simp: shm_inv_def keyed_def backing_of_def AList.delete_eq)
    then have "shm_step s (s\<lparr>sh_fds := AList.delete fd (sh_fds s)\<rparr>)" by (rule step_same_names) simp_all
    then show ?thesis using step_release shm_step_inv shm_step_trans by blast
  qed
  then show ?thesis using s by (auto simp: close_object_def shm_step_refl split: option.splits)
qed

lemma step_truncate: "shm_inv s \<Longrightarrow> shm_step s (snd (sys_ftruncate h kind fd len s))"
  using step_resize [of s] shm_step_refl [of s]
  by (simp add: sys_ftruncate_def split_beta split: option.splits)

lemma copy_check_ok:
  "copy_check name off buffer n i s = Inr (k, b) \<longleftrightarrow>
    (\<exists>nm. name = Some nm \<and> nm \<noteq> [] \<and> map_of (sh_by_name s) nm = Some k) \<and> backing_of k s = Some b
    \<and> (n \<noteq> 0 \<longrightarrow> buffer \<and> bk_base b \<noteq> None) \<and> (i \<noteq> 0 \<longrightarrow> i = bk_identity b) \<and> off \<le> bk_size b \<and> n \<le> bk_size b - off"
  by (auto simp: copy_check_def not_less split: option.splits if_splits)

lemma step_write:
  assumes "shm_inv s"
  shows "shm_step s (snd (ShmWrite name off data n i s))"
proof (cases "copy_check name off (data \<noteq> None) n i s")
  case (Inr r)
  obtain k b where r: "r = (k, b)" by fastforce
  have b: "backing_of k s = Some b" using Inr r by (simp add: copy_check_ok)
  have "keyed s k (b\<lparr>bk_bytes := write_at (unat off) ds (bk_bytes b)\<rparr>)" for ds
    using shm_invD(1) [OF assms b] length_write_at [of "bk_bytes b" "unat off" ds]
    by (auto simp: keyed_def backing_ok_def intro: order_trans)
  then have "shm_inv (put_backing k (b\<lparr>bk_bytes := write_at (unat off) ds (bk_bytes b)\<rparr>) s)" for ds
    using assms b by (intro put_inv) simp_all
  then have "shm_step s (put_backing k (b\<lparr>bk_bytes := write_at (unat off) ds (bk_bytes b)\<rparr>) s)" for ds
    by (rule step_same_names) simp_all
  then show ?thesis using Inr r assms by (simp add: ShmWrite_def shm_step_refl split: option.splits)
qed (use assms in \<open>simp add: ShmWrite_def shm_step_refl\<close>)

lemma step_add_record: "shm_inv s \<Longrightarrow> shm_step s (add_record p n fd s)"
proof -
  assume s: "shm_inv s"
  show ?thesis
  proof (cases "map_of (sh_fds s) fd")
    case (Some o')
    have "backing_of (so_backing o') s \<noteq> None" using shm_invD(4) [OF s] map_of_SomeD [OF Some] by blast
    then have "shm_inv (s\<lparr>sh_maps := sh_maps s @ [(p, n, so_backing o')]\<rparr>)"
      using s by (auto simp: shm_inv_def keyed_def backing_of_def)
    then show ?thesis using Some by (intro step_same_names) (simp_all add: add_record_def)
  qed (use s in \<open>simp add: add_record_def shm_step_refl\<close>)
qed

lemma unmap_records_keys: "(p, n, k) \<in> set (fst (unmap_records f e ms)) \<Longrightarrow> \<exists>q m. (q, m, k) \<in> set ms"
  by (induction f e ms rule: unmap_records.induct) (auto simp: Let_def split_beta split: if_splits)

lemma step_unmap:
  assumes "shm_inv s"
  shows "shm_step s (UnmapShm h p n s)"
proof -
  obtain rem un where r: "unmap_records p (p + n) (sh_maps s) = (rem, un)" by fastforce
  let ?free = "\<lambda>s. fold (\<lambda>(a, m, _). free_range h a m) un s"
  let ?maps = "\<lambda>s. s\<lparr>sh_maps := rem\<rparr>"
  let ?forget = "\<lambda>s. fold (\<lambda>(_, _, k) s. case backing_of k s of None \<Rightarrow> s
      | Some b \<Rightarrow> if list_ex (\<lambda>(_, _, j). j = k) (sh_maps s) then s
          else case bk_base b of None \<Rightarrow> s | Some q \<Rightarrow> AudioDaemonForgetRange q (bk_map_size b) s) un s"
  have free: "objects_of (?free t) = objects_of t" for t
    by (rule objects_fold) auto
  have forget: "objects_of (?forget t) = objects_of t" for t
    by (rule objects_fold) (auto split: option.splits)
  have s1: "shm_step s (?free s)" using free assms by (intro step_objects) simp_all
  have "\<forall>(q, m, k) \<in> set rem. backing_of k s \<noteq> None"
    using unmap_records_keys [of _ _ _ p "p + n" "sh_maps s"] shm_invD(3) [OF assms] unfolding r by fastforce
  then have "shm_inv (?maps (?free s))"
    using shm_step_inv [OF s1] objects_eq(1) [OF free [of s]] by (auto simp: shm_inv_def keyed_def backing_of_def)
  then have "shm_step (?free s) (?maps (?free s))" by (rule step_same_names) simp_all
  then have s2: "shm_step s (?maps (?free s))" using s1 shm_step_trans by blast
  have "shm_step (?maps (?free s)) (?forget (?maps (?free s)))"
    using forget shm_step_inv [OF s2] by (intro step_objects) simp_all
  then have s3: "shm_step s (?forget (?maps (?free s)))" using s2 shm_step_trans by blast
  have "shm_step s t \<Longrightarrow> shm_step s (fold (\<lambda>(_, _, k). release_backing h k) xs t)" for xs t
  proof (induction xs arbitrary: t)
    case (Cons x xs)
    obtain a m k where "x = (a, m, k)" by (cases x)
    with Cons step_release [OF shm_step_inv [OF Cons.prems], of h k] shm_step_trans show ?case by fastforce
  qed simp
  then show ?thesis using s3 r by (simp add: UnmapShm_def Let_def)
qed

lemma shm_exec_step: "shm_inv s \<Longrightarrow> shm_step s (shm_exec c s)"
  by (cases c) (simp_all add: step_open_call step_create step_unlink step_close step_truncate step_write step_add_record step_unmap)

lemma shm_run_step: "shm_inv s \<Longrightarrow> shm_step s (fold shm_exec cs s)"
proof (induction cs arbitrary: s)
  case (Cons c cs)
  then show ?case using shm_exec_step [of s c] shm_step_inv shm_step_trans by fastforce
qed (simp add: shm_step_refl)

lemma shm_init_inv: "shm_inv shm_init"
  by (simp add: shm_inv_def shm_init_def backing_of_def)

lemma write_at_apart:
  assumes "o' + n' \<le> i \<or> i + length ds \<le> o'" "i + length ds \<le> length bs"
  shows "take n' (drop o' (write_at i ds bs)) = take n' (drop o' bs)"
proof -
  have l: "length (write_at i ds bs) = length bs" using assms(2) by (simp add: write_at_def)
  have "write_at i ds bs ! j = bs ! j" if "j < i \<or> i + length ds \<le> j" "j < length bs" for j
    using that assms(2) by (auto simp: write_at_def nth_append)
  then show ?thesis using assms(1) l by (intro nth_equalityI) auto
qed

lemma ShmRead_put:
  assumes "backing_of k s = Some b"
    and "take (unat n) (drop (unat off) bs) = take (unat n) (drop (unat off) (bk_bytes b))
      \<or> (\<forall>nm. name = Some nm \<longrightarrow> map_of (sh_by_name s) nm \<noteq> Some k)"
  shows "ShmRead name off True n i (put_backing k (b\<lparr>bk_bytes := bs\<rparr>) s) = ShmRead name off True n i s"
proof (cases "\<exists>nm. name = Some nm \<and> map_of (sh_by_name s) nm = Some k")
  case True
  then obtain nm where nm: "name = Some nm" "map_of (sh_by_name s) nm = Some k" by blast
  then have "take (unat n) (drop (unat off) bs) = take (unat n) (drop (unat off) (bk_bytes b))" using assms(2) by blast
  then show ?thesis using nm assms(1) by (simp add: ShmRead_def copy_check_def)
next
  case False
  then have "copy_check name off True n i (put_backing k (b\<lparr>bk_bytes := bs\<rparr>) s) = copy_check name off True n i s"
    by (cases name; cases "map_of (sh_by_name s) (the name)") (simp_all add: copy_check_def)
  then show ?thesis by (simp add: ShmRead_def)
qed

section \<open>Properties\<close>

text \<open>
  C23: What is written under a name is read back under it, bytes outside the range and other names are
  untouched, and both calls succeed or fail together for their checks.
\<close>

theorem shm_write_read:
  assumes "ShmWrite name off (Some ds) n i (fold shm_exec cs shm_init) = (0, s')" "length ds = unat n" "n \<noteq> 0"
  shows "ShmRead name off True n i s' = (0, ds)
    \<and> (name' \<noteq> name \<longrightarrow> ShmRead name' off' True n' i' s' = ShmRead name' off' True n' i' (fold shm_exec cs shm_init))
    \<and> (unat off' + unat n' \<le> unat off \<or> unat off + unat n \<le> unat off' \<longrightarrow>
        ShmRead name off' True n' i' s' = ShmRead name off' True n' i' (fold shm_exec cs shm_init))"
proof -
  let ?s = "fold shm_exec cs shm_init"
  have inv: "shm_inv ?s" using shm_run_step [OF shm_init_inv] by (rule shm_step_inv)
  obtain k b where ok: "copy_check name off True n i ?s = Inr (k, b)"
    using assms(1) by (auto simp: ShmWrite_def split: sum.splits) (auto simp: copy_check_def split: option.splits if_splits)
  note c = ok [unfolded copy_check_ok]
  let ?b = "b\<lparr>bk_bytes := write_at (unat off) ds (bk_bytes b)\<rparr>"
  have s': "s' = put_backing k ?b ?s" using assms(1,2) ok by (simp add: ShmWrite_def)
  have "n \<le> bk_size b - off" "off \<le> bk_size b" using c by auto
  then have "unat off + unat n \<le> unat (bk_size b)" by (simp add: word_le_nat_alt unat_diff_le)
  moreover have "unat (bk_size b) \<le> length (bk_bytes b)"
    using shm_invD(1) [OF inv, of k b] c assms(3) by (auto simp: keyed_def backing_ok_def)
  ultimately have room: "unat off + length ds \<le> length (bk_bytes b)" using assms(2) by simp
  have "copy_check name off True n i s' = Inr (k, ?b)" using c unfolding s' copy_check_ok by auto
  then have "ShmRead name off True n i s' = (0, ds)" using room assms(2) by (simp add: ShmRead_def write_at_def)
  moreover have "ShmRead name' off' True n' i' s' = ShmRead name' off' True n' i' ?s" if "name' \<noteq> name"
  proof -
    have "map_of (sh_by_name ?s) nm' \<noteq> Some k" if "name' = Some nm'" for nm'
    proof
      assume "map_of (sh_by_name ?s) nm' = Some k"
      moreover obtain nm where "name = Some nm" "map_of (sh_by_name ?s) nm = Some k" using c by auto
      ultimately have "(nm', k) \<in> set (sh_by_name ?s)" "(nm, k) \<in> set (sh_by_name ?s)" "nm' \<noteq> nm"
        using that \<open>name' \<noteq> name\<close> by (auto dest: map_of_SomeD)
      then show False using shm_invD(6) [OF inv] by (fastforce simp: distinct_map inj_on_def)
    qed
    then show ?thesis unfolding s' using c by (intro ShmRead_put) auto
  qed
  moreover have "ShmRead name off' True n' i' s' = ShmRead name off' True n' i' ?s"
    if "unat off' + unat n' \<le> unat off \<or> unat off + unat n \<le> unat off'"
  proof -
    have "take (unat n') (drop (unat off') (write_at (unat off) ds (bk_bytes b))) = take (unat n') (drop (unat off') (bk_bytes b))"
      using write_at_apart [OF _ room, of "unat off'" "unat n'"] that assms(2) by auto
    then show ?thesis unfolding s' using c by (intro ShmRead_put) auto
  qed
  ultimately show ?thesis by blast
qed

definition ex_host :: shm_host where
  "ex_host = \<lparr>ho_memfd = True, ho_truncate = True, ho_munmap = True, ho_mmap = Some 0x700000, ho_handle = 4\<rparr>"

lemmas shm_eval = ex_host_def ShmIdentity_def ShmCreate_def new_backing_def ResizeShm_def backing_of_def sys_shm_unlink_def
  release_backing_def referenced_def put_backing_def shm_init_def Let_def drop_view_def shm_rounded_def free_range_def
  AudioDaemonForgetRange_def ShmWrite_def copy_check_def

theorem shm_write_read_witness:
  "ShmRead (Some ''a'') 1 True 2 1 (snd (ShmWrite (Some ''a'') 1 (Some [7, 8]) 2 1
      (fold shm_exec [SCreate ex_host (Some ''a'') 4] shm_init))) = (0, [7, 8])"
proof -
  let ?s = "fold shm_exec [SCreate ex_host (Some ''a'') 4] shm_init"
  have "fst (ShmWrite (Some ''a'') 1 (Some [7, 8]) 2 1 ?s) = 0"
    by (simp add: shm_eval)
  then have "ShmWrite (Some ''a'') 1 (Some [7, 8]) 2 1 ?s = (0, snd (ShmWrite (Some ''a'') 1 (Some [7, 8]) 2 1 ?s))"
    by (simp add: prod_eq_iff)
  from shm_write_read [OF this] show ?thesis by simp
qed

text \<open>
  C22: After a name is removed, its old identity is refused for good: no later object of that name can be
  read or written through it, until the identities have gone round.
\<close>

theorem shm_identity_stale:
  assumes "ShmIdentity (Some nm) (fold shm_exec cs shm_init) = i" "i \<noteq> 0"
    and "s' = fold shm_exec (SUnlink h (Some nm) # ds) (fold shm_exec cs shm_init)" "sh_count s' < 2 ^ 64 - 1"
  shows "ShmRead (Some nm) off True n i s' = (neg_err eNOENT, []) \<and> ShmWrite (Some nm) off (Some bs) n i s' = (neg_err eNOENT, s')"
proof -
  let ?s = "fold shm_exec cs shm_init" and ?t = "shm_exec (SUnlink h (Some nm)) (fold shm_exec cs shm_init)"
  have inv: "shm_inv ?s" using shm_run_step [OF shm_init_inv] by (rule shm_step_inv)
  have nm: "nm \<noteq> []" using assms(1,2) by (auto simp: ShmIdentity_def)
  obtain k b where k: "map_of (sh_by_name ?s) nm = Some k" "backing_of k ?s = Some b" "i = bk_identity b"
    using assms(1,2) nm by (auto simp: ShmIdentity_def split: option.splits)
  have kb: "k < sh_count ?s" "i = of_nat k + 1" using shm_invD(1) [OF inv k(2)] k(3) by (simp_all add: keyed_def)
  have "map_of (sh_by_name ?t) nm = None" using k(1)
    by (simp add: sys_shm_unlink_def release_fields delete_conv')
  moreover have t: "shm_step ?s ?t" using inv by (rule shm_exec_step)
  moreover have st: "shm_step ?t s'" using shm_run_step [OF shm_step_inv [OF t]] assms(3) by simp
  ultimately have later: "sh_count ?s \<le> k'" if "map_of (sh_by_name s') nm = Some k'" for k'
    using that unfolding shm_step_def by (metis option.distinct(1) order_trans)
  have "copy_check (Some nm) off buffer n i s' = Inl (neg_err eNOENT)" if buffer for buffer
  proof (cases "map_of (sh_by_name s') nm")
    case None
    then show ?thesis using nm that by (simp add: copy_check_def)
  next
    case (Some k')
    show ?thesis
    proof (cases "backing_of k' s'")
      case None
      then show ?thesis using nm that Some by (simp add: copy_check_def)
    next
      case (Some b')
      have "k' < sh_count s'" "bk_identity b' = of_nat k' + 1"
        using shm_invD(1) [OF shm_step_inv [OF st] Some] by (simp_all add: keyed_def)
      moreover have "k < k'" using later [OF \<open>map_of (sh_by_name s') nm = Some k'\<close>] kb(1) by simp
      moreover have "(of_nat k :: u64) + 1 \<noteq> of_nat k' + 1"
      proof
        assume "(of_nat k :: u64) + 1 = of_nat k' + 1"
        then have "unat (of_nat k :: u64) = unat (of_nat k' :: u64)" by simp
        then show False using \<open>k < k'\<close> \<open>k' < sh_count s'\<close> assms(4)
          by (simp add: unat_of_nat)
      qed
      ultimately show ?thesis using kb(2) assms(2) nm that Some \<open>map_of (sh_by_name s') nm = Some k'\<close>
        by (simp add: copy_check_def)
    qed
  qed
  then show ?thesis by (simp add: ShmRead_def ShmWrite_def)
qed

theorem shm_identity_stale_witness:
  "ShmRead (Some ''a'') 0 True 1 1 (fold shm_exec [SUnlink ex_host (Some ''a''), SCreate ex_host (Some ''a'') 4]
      (fold shm_exec [SCreate ex_host (Some ''a'') 4] shm_init)) = (neg_err eNOENT, [])"
proof -
  have "ShmIdentity (Some ''a'') (fold shm_exec [SCreate ex_host (Some ''a'') 4] shm_init) = 1"
    by (simp add: shm_eval)
  moreover have "sh_count (fold shm_exec [SUnlink ex_host (Some ''a''), SCreate ex_host (Some ''a'') 4]
      (fold shm_exec [SCreate ex_host (Some ''a'') 4] shm_init)) = 2"
    by (simp add: shm_eval)
  ultimately show ?thesis
    using shm_identity_stale [OF _ _ refl, where nm = "''a''" and cs = "[SCreate ex_host (Some ''a'') 4]" and i = 1 and h = ex_host
      and ds = "[SCreate ex_host (Some ''a'') 4]" and off = 0 and n = 1]
    by simp
qed

lemma truncate_cases:
  assumes inv: "shm_inv s"
  shows "case map_of (sh_fds s) fd of
      None \<Rightarrow> sys_ftruncate h kind fd len s =
        (if len < 0 then neg_err eINVAL else case kind fd of No_object \<Rightarrow> neg_err eBADF | A_device r \<Rightarrow> r | Other_object \<Rightarrow> neg_err eINVAL, s)
    | Some o' \<Rightarrow> \<exists>b. backing_of (so_backing o') s = Some b
        \<and> (if 0 \<le> len \<and> so_writable o'
           then if word_of_int len = bk_size b then sys_ftruncate h kind fd len s = (0, s)
             else \<exists>b'. backing_of (so_backing o') (snd (sys_ftruncate h kind fd len s)) = Some b'
               \<and> (fst (sys_ftruncate h kind fd len s) = 0 \<and> resize_ok (word_of_int len) b b'
                  \<or> fst (sys_ftruncate h kind fd len s) = neg_err eNOMEM)
           else sys_ftruncate h kind fd len s = (neg_err eINVAL, s))"
proof (cases "map_of (sh_fds s) fd")
  case None
  then show ?thesis by (simp add: sys_ftruncate_def)
next
  case (Some o')
  then obtain b where b: "backing_of (so_backing o') s = Some b"
    using shm_invD(4) [OF inv map_of_SomeD [OF Some]] by auto
  obtain b' where b': "objects_of (snd (ResizeShm h (so_backing o') (word_of_int len) s)) = objects_of (put_backing (so_backing o') b' s)"
      "fst (ResizeShm h (so_backing o') (word_of_int len) s) \<longrightarrow> resize_ok (word_of_int len) b b'"
    using ResizeShm_result [OF b] shm_invD(1) [OF inv b] by (auto simp: keyed_def)
  have "backing_of (so_backing o') (snd (ResizeShm h (so_backing o') (word_of_int len) s)) = Some b'"
    using objects_eq(1) [OF b'(1)] by (simp add: backing_of_def put_backing_def update_conv')
  then show ?thesis using b b'(2) Some
    by (auto simp: sys_ftruncate_def split_beta not_le)
qed


definition shown :: "u64 \<Rightarrow> nat \<Rightarrow> (u64 \<times> u64 \<times> nat) list \<Rightarrow> bool" where
  "shown a k ms \<longleftrightarrow> (\<exists>(p, n, j) \<in> set ms. j = k \<and> p \<le> a \<and> a < p + n)"

lemma shown_simps [simp]:
  "\<not> shown a k []" "shown a k ((p, n, j) # ms) \<longleftrightarrow> j = k \<and> p \<le> a \<and> a < p + n \<or> shown a k ms"
  "shown a k (xs @ ys) \<longleftrightarrow> shown a k xs \<or> shown a k ys"
  by (auto simp: shown_def)

lemma unmap_records_shown:
  "f \<le> e \<Longrightarrow> \<forall>(p, n, j) \<in> set ms. fits p n \<Longrightarrow>
    shown a k (fst (unmap_records f e ms)) \<longleftrightarrow> shown a k ms \<and> \<not> (f \<le> a \<and> a < e)"
proof (induction f e ms rule: unmap_records.induct)
  case (2 f e lo n j ms)
  let ?hi = "lo + n"
  have IH: "shown a k (fst (unmap_records f e ms)) \<longleftrightarrow> shown a k ms \<and> \<not> (f \<le> a \<and> a < e)"
    and fit: "lo \<le> ?hi" using 2 by (auto simp: fits_def)
  show ?case
  proof (cases "lo \<ge> e \<or> ?hi \<le> f")
    case True
    then have "\<not> (lo \<le> a \<and> a < ?hi \<and> f \<le> a \<and> a < e)" by fastforce
    then show ?thesis using True IH by (auto simp: split_beta)
  next
    case False
    let ?pieces = "(if lo < max lo f then [(lo, max lo f - lo, j)] else []) @
      (if min ?hi e < ?hi then [(min ?hi e, ?hi - min ?hi e, j)] else [])"
    have "fst (unmap_records f e ((lo, n, j) # ms)) = ?pieces @ fst (unmap_records f e ms)"
      using False by (simp add: split_beta Let_def)
    moreover have "shown a k ?pieces \<longleftrightarrow> j = k \<and> lo \<le> a \<and> a < ?hi \<and> \<not> (f \<le> a \<and> a < e)"
      using False fit 2(2) by (auto simp: min_def max_def)
    ultimately show ?thesis using IH by auto
  qed
qed simp

lemma unmap_maps: "sh_maps (UnmapShm h p n s) = fst (unmap_records p (p + n) (sh_maps s))"
proof -
  obtain rem un where r: "unmap_records p (p + n) (sh_maps s) = (rem, un)" by fastforce
  have rel: "sh_maps (fold (\<lambda>(_, _, k). release_backing h k) xs t) = sh_maps t" for xs :: "(u64 \<times> u64 \<times> nat) list" and t
    by (induction xs arbitrary: t) (auto simp: release_fields)
  have "sh_maps (fold (\<lambda>(_, _, k) s. case backing_of k s of None \<Rightarrow> s
      | Some b \<Rightarrow> if list_ex (\<lambda>(_, _, j). j = k) (sh_maps s) then s
          else case bk_base b of None \<Rightarrow> s | Some q \<Rightarrow> AudioDaemonForgetRange q (bk_map_size b) s) xs t) = sh_maps t"
      for xs :: "(u64 \<times> u64 \<times> nat) list" and t
    by (induction xs arbitrary: t) (auto simp: AudioDaemonForgetRange_def split: option.splits)
  then show ?thesis using r rel by (simp add: UnmapShm_def Let_def)
qed

text \<open>
  Unmapping a range takes exactly its addresses out of the mapping records; every other address
  keeps showing the backing it showed.
\<close>

theorem shm_unmap_exact:
  assumes "\<forall>(q, m, j) \<in> set (sh_maps s). fits q m" "fits p n"
  shows "shown a k (sh_maps (UnmapShm h p n s)) \<longleftrightarrow> shown a k (sh_maps s) \<and> \<not> (p \<le> a \<and> a < p + n)"
  unfolding unmap_maps using assms(2) by (intro unmap_records_shown assms(1)) (simp add: fits_def)

theorem shm_unmap_exact_witness:
  "shown 0x3500 1 (sh_maps (UnmapShm ex_host 0x2000 0x1000 (shm_init\<lparr>sh_maps := [(0x1000, 0x4000, 1)]\<rparr>)))"
  using shm_unmap_exact [of "shm_init\<lparr>sh_maps := [(0x1000, 0x4000, 1)]\<rparr>" "0x2000" "0x1000" "0x3500" 1 ex_host]
  by (simp add: fits_def)

end
