(* ===== verification/Guest_Arena.thy ===== *)
theory Guest_Arena
  imports Host_Memory
begin

text \<open>
  The two address books of \<open>delta/kern/lv2/sys_mem.cc\<close> behind the placement of guest mappings: the
  ranges the guest gave back (\<open>NoteGuestReleased\<close>, \<open>NoteGuestTaken\<close>, \<open>WasGuestReleased\<close>) and the
  bump allocator of the low arena (\<open>AllocLowGuest\<close>). The vector of released ranges is a list. The bump
  pointer is shared by all threads without a lock; what other threads claim in between, failing
  exchanges and the answers of \<open>mmap\<close> are a schedule.
\<close>

section \<open>State\<close>

definition kGuestArenaFloor :: u64 where "kGuestArenaFloor = 0x8000000000"
definition kCeil :: u64 where "kCeil = 0x10000000000"
definition kAlign :: u64 where "kAlign = 0x10000"

text \<open>\<open>gv_claims\<close> records the claims made so far, in order; the code does not keep it.\<close>

record guest_va =
  gv_registry :: registry
  gv_released :: ranges
  gv_low_next :: u64
  gv_claims :: "(u64 \<times> u64) list"

definition guest_va_init :: guest_va where
  "guest_va_init = \<lparr>gv_registry = registry_init, gv_released = [], gv_low_next = kGuestArenaFloor, gv_claims = []\<rparr>"

section \<open>Released ranges\<close>

fun merge_released :: "u64 \<Rightarrow> u64 \<Rightarrow> ranges \<Rightarrow> ranges option" where
  "merge_released b e [] = None"
| "merge_released b e ((rb, re) # r) =
     (if b \<le> re \<and> e \<ge> rb then Some ((min rb b, max re e) # r) else map_option ((#) (rb, re)) (merge_released b e r))"

definition note_released :: "u64 \<Rightarrow> u64 \<Rightarrow> ranges \<Rightarrow> ranges" where
  "note_released b e rs = (case merge_released b e rs of Some rs' \<Rightarrow> rs'
     | None \<Rightarrow> if length rs < 4096 then rs @ [(b, e)] else rs)"

definition NoteGuestReleased :: "u64 \<Rightarrow> u64 \<Rightarrow> guest_va \<Rightarrow> guest_va" where
  "NoteGuestReleased p n s =
     (if p = 0 \<or> n = 0 then s
      else s\<lparr>gv_registry := ForgetMemoryMapping p n (gv_registry s), gv_released := note_released p (p + n) (gv_released s)\<rparr>)"

definition note_taken :: "u64 \<Rightarrow> u64 \<Rightarrow> ranges \<Rightarrow> ranges" where
  "note_taken lo hi rs = filter (\<lambda>(b, e). \<not> (lo < e \<and> b < hi)) rs"

definition NoteGuestTaken :: "u64 \<Rightarrow> u64 \<Rightarrow> guest_va \<Rightarrow> guest_va" where
  "NoteGuestTaken p n s =
     (if p = 0 \<or> n = 0 then s
      else s\<lparr>gv_registry := ForgetMemoryMapping p n (gv_registry s), gv_released := note_taken p (p + n) (gv_released s)\<rparr>)"

definition WasGuestReleased :: "u64 \<Rightarrow> u64 \<Rightarrow> guest_va \<Rightarrow> bool" where
  "WasGuestReleased p n s = list_ex (\<lambda>(b, e). p \<ge> b \<and> p + n \<le> e) (gv_released s)"

section \<open>The low arena\<close>

text \<open>
  The new base and the new bump pointer of a claim, when it fits below the ceiling.
\<close>

definition claim :: "u64 \<Rightarrow> u64 \<Rightarrow> u64 \<Rightarrow> (u64 \<times> u64) option" where
  "claim raw sz al =
     (let b = (raw + (al - 1)) AND NOT (al - 1)
      in if b + sz + 0x4000 > kCeil then None else Some (b, b + sz + 0x4000))"

definition commit_claim :: "u64 \<Rightarrow> u64 \<Rightarrow> u64 \<Rightarrow> guest_va \<Rightarrow> guest_va" where
  "commit_claim b sz nx s = s\<lparr>gv_low_next := nx, gv_claims := gv_claims s @ [(b, sz)]\<rparr>"

definition round_size :: "u64 \<Rightarrow> u64" where
  "round_size n = (n + 0x3FFF) AND NOT 0x3FFF"

definition arena_align :: "u64 \<Rightarrow> u64" where
  "arena_align align = (if align > kAlign then align else kAlign)"

text \<open>A successful claim of another thread, which runs the same code with its own size and alignment.\<close>

definition other_claim :: "u64 \<times> u64 \<Rightarrow> guest_va \<Rightarrow> guest_va" where
  "other_claim r s = (case claim (gv_low_next s) (round_size (fst r)) (arena_align (snd r)) of
     None \<Rightarrow> s | Some (b, nx) \<Rightarrow> commit_claim b (round_size (fst r)) nx s)"

text \<open>
  One iteration of the loop sees: what other threads claimed before its load and between its load and
  its exchange, whether the weak exchange fails spuriously, and what \<open>mmap\<close> returns.
\<close>

record low_try =
  lt_before :: "(u64 \<times> u64) list"
  lt_between :: "(u64 \<times> u64) list"
  lt_spurious :: bool
  lt_mmap :: "u64 option"

fun low_loop :: "(nat \<Rightarrow> low_try) \<Rightarrow> u64 \<Rightarrow> u64 \<Rightarrow> nat \<Rightarrow> guest_va \<Rightarrow> u64 option \<times> guest_va" where
  "low_loop sched sz al 0 s = (None, s)"
| "low_loop sched sz al (Suc n) s =
     (let t = sched n;
          s = fold other_claim (lt_before t) s;
          raw = gv_low_next s
      in case claim raw sz al of None \<Rightarrow> (None, s)
         | Some (b, nx) \<Rightarrow>
             let s = fold other_claim (lt_between t) s
             in if lt_spurious t \<or> gv_low_next s \<noteq> raw then low_loop sched sz al n s
                else let s = commit_claim b sz nx s
                     in if lt_mmap t = Some b
                        then (Some b, s\<lparr>gv_registry := TrackMemoryMapping b sz False (gv_registry s)\<rparr>)
                        else low_loop sched sz al n s)"

definition AllocLowGuest :: "(nat \<Rightarrow> low_try) \<Rightarrow> u64 \<Rightarrow> u64 \<Rightarrow> guest_va \<Rightarrow> u64 option \<times> guest_va" where
  "AllocLowGuest sched n align s = low_loop sched (round_size n) (arena_align align) 8192 s"

section \<open>Released ranges are free\<close>

text \<open>The addresses the guest gave back and that were not handed out since.\<close>

datatype va_note = Released u64 u64 | Taken u64 u64

fun apply_note :: "va_note \<Rightarrow> guest_va \<Rightarrow> guest_va" where
  "apply_note (Released p n) s = NoteGuestReleased p n s"
| "apply_note (Taken p n) s = NoteGuestTaken p n s"

fun note_fits :: "va_note \<Rightarrow> bool" where
  "note_fits (Released p n) \<longleftrightarrow> fits p n"
| "note_fits (Taken p n) \<longleftrightarrow> fits p n"

fun free_after :: "va_note \<Rightarrow> u64 set \<Rightarrow> u64 set" where
  "free_after (Released p n) A = A \<union> addr_range p n"
| "free_after (Taken p n) A = A - addr_range p n"

lemma merge_released_ranges:
  "merge_released b e rs = Some rs' \<Longrightarrow> in_ranges rs' a \<Longrightarrow> in_ranges rs a \<or> b \<le> a \<and> a < e"
  by (induction b e rs arbitrary: rs' rule: merge_released.induct)
     (auto split: if_splits simp: min_def max_def)

lemma note_released_ranges: "in_ranges (note_released b e rs) a \<Longrightarrow> in_ranges rs a \<or> b \<le> a \<and> a < e"
  by (auto simp: note_released_def split: option.splits if_splits dest: merge_released_ranges)

lemma note_taken_ranges: "in_ranges (note_taken lo hi rs) a \<Longrightarrow> in_ranges rs a \<and> \<not> (lo \<le> a \<and> a < hi)"
proof (induction rs)
  case (Cons x rs)
  obtain b e where "x = (b, e)" by fastforce
  with Cons show ?case by (auto simp: note_taken_def split: if_splits)
qed (simp add: note_taken_def)

lemma note_free:
  assumes "\<And>a. in_ranges (gv_released s) a \<Longrightarrow> a \<in> A" "in_ranges (gv_released (apply_note x s)) a"
  shows "a \<in> free_after x A"
proof (cases x)
  case (Released p n)
  then show ?thesis using assms
    by (auto simp: NoteGuestReleased_def addr_range_def split: if_splits dest!: note_released_ranges)
next
  case (Taken p n)
  then show ?thesis using assms
    by (auto simp: NoteGuestTaken_def addr_range_def split: if_splits dest!: note_taken_ranges)
qed

lemma notes_free: "in_ranges (gv_released (fold apply_note xs guest_va_init)) a \<Longrightarrow> a \<in> fold free_after xs {}"
proof (induction xs arbitrary: a rule: rev_induct)
  case (snoc x xs)
  then show ?case using note_free [of "fold apply_note xs guest_va_init" "fold free_after xs {}" x a] by simp
qed (simp add: guest_va_init_def)

lemma WasGuestReleased_ranges: "WasGuestReleased p n s \<Longrightarrow> p \<le> a \<Longrightarrow> a < p + n \<Longrightarrow> in_ranges (gv_released s) a"
proof -
  have "list_ex (\<lambda>(b, e). p \<ge> b \<and> p + n \<le> e) rs \<Longrightarrow> p \<le> a \<Longrightarrow> a < p + n \<Longrightarrow> in_ranges rs a" for rs
    by (induction rs) auto
  then show "WasGuestReleased p n s \<Longrightarrow> p \<le> a \<Longrightarrow> a < p + n \<Longrightarrow> in_ranges (gv_released s) a"
    by (simp add: WasGuestReleased_def)
qed

section \<open>Claims of the low arena\<close>

text \<open>
  Requests whose size leaves room for the arithmetic and whose alignment is a power of two, which is
  what \<open>MAP_ALIGNED\<close> passes.
\<close>

definition req_fits :: "u64 \<Rightarrow> u64 \<Rightarrow> bool" where
  "req_fits n align \<longleftrightarrow> n \<le> 2 ^ 62 \<and> (\<exists>k < 40. arena_align align = 2 ^ k)"

definition sched_fits :: "(nat \<Rightarrow> low_try) \<Rightarrow> bool" where
  "sched_fits sched \<longleftrightarrow> (\<forall>i. list_all (\<lambda>(n, al). req_fits n al) (lt_before (sched i) @ lt_between (sched i)))"

lemma unat_round_size: "n \<le> 2 ^ 62 \<Longrightarrow> unat (round_size n) = (unat n + 0x3FFF) div 0x4000 * 0x4000"
proof -
  assume "n \<le> 2 ^ 62"
  then have n: "unat n \<le> 2 ^ 62" by (simp add: word_le_nat_alt)
  then have "unat (n + 0x3FFF) = unat n + 0x3FFF" by (simp add: unat_word_ariths)
  moreover have "round_size n = (n + 0x3FFF) AND NOT (2 ^ 14 - 1)" by (simp add: round_size_def)
  ultimately show ?thesis by (simp only: unat_page_down) simp
qed

lemma round_size_bound: "n \<le> 2 ^ 62 \<Longrightarrow> unat n \<le> unat (round_size n) \<and> unat (round_size n) \<le> 2 ^ 62 + 0x4000"
proof -
  assume n: "n \<le> 2 ^ 62"
  then have "unat n \<le> 2 ^ 62" by (simp add: word_le_nat_alt)
  moreover have "(unat n + 0x3FFF) div 0x4000 * 0x4000 + (unat n + 0x3FFF) mod 0x4000 = unat n + 0x3FFF"
    by (rule div_mult_mod_eq)
  moreover have "(unat n + 0x3FFF) mod 0x4000 < 0x4000" by simp
  ultimately show ?thesis unfolding unat_round_size [OF n] by linarith
qed

lemma claim_correct:
  assumes "raw \<le> kCeil" "unat sz \<le> 2 ^ 62 + 0x4000" "al = 2 ^ k" "k < 40" "claim raw sz al = Some (b, nx)"
  shows "unat raw \<le> unat b \<and> 2 ^ k dvd unat b \<and> unat nx = unat b + unat sz + 0x4000 \<and> unat nx \<le> unat kCeil"
proof -
  have k: "unat al = 2 ^ k" using assms(3,4) by (simp add: unat_page)
  have k39: "(2::nat) ^ k \<le> 2 ^ 39" using assms(4) by (intro power_increasing) simp_all
  have ceil: "unat kCeil = 2 ^ 40" by (simp add: kCeil_def)
  have raw: "unat raw \<le> 2 ^ 40" using assms(1) ceil by (simp add: word_le_nat_alt)
  have "1 \<le> al" using k by (simp add: word_le_nat_alt)
  then have "unat (al - 1) = 2 ^ k - 1" using k by (simp add: unat_diff_le)
  then have up: "unat (raw + (al - 1)) = unat raw + (2 ^ k - 1)"
    using raw k39 by (simp add: unat_word_ariths)
  have b: "b = (raw + (al - 1)) AND NOT (2 ^ k - 1)" and nx: "nx = b + sz + 0x4000" and le: "nx \<le> kCeil"
    using assms(3,5) by (auto simp: claim_def Let_def not_less split: if_splits)
  have ub: "unat b = (unat raw + (2 ^ k - 1)) div 2 ^ k * 2 ^ k" unfolding b unat_page_down up ..
  have "unat b \<le> unat raw + (2 ^ k - 1)" unfolding ub by (rule div_times_less_eq_dividend)
  then have "unat b < 2 ^ 41" using raw k39 by simp
  then have "unat nx = unat b + unat sz + 0x4000" using assms(2) unfolding nx by (simp add: unat_word_ariths)
  moreover have "unat raw \<le> unat b"
  proof -
    have "unat raw + (2 ^ k - 1) < 2 ^ k * ((unat raw + (2 ^ k - 1)) div 2 ^ k) + 2 ^ k"
      by (metis add.commute dividend_less_div_times mult.commute zero_less_numeral zero_less_power)
    then show ?thesis unfolding ub by (simp add: mult.commute)
  qed
  ultimately show ?thesis using le ub by (simp add: word_le_nat_alt)
qed

lemma arena_align_dvd: "2 ^ k = arena_align align \<Longrightarrow> k < 40 \<Longrightarrow> 2 ^ k dvd x \<Longrightarrow> (0x10000 :: nat) dvd x"
proof -
  assume a: "2 ^ k = arena_align align" "k < 40" "2 ^ k dvd x"
  then have "unat kAlign \<le> unat (2 ^ k :: u64)" by (auto simp: arena_align_def word_le_nat_alt word_less_nat_alt)
  then have "(2::nat) ^ 16 \<le> 2 ^ k" using a(2) by (simp add: unat_page kAlign_def)
  then have "16 \<le> k" by (rule power_le_imp_le_exp [rotated]) simp
  then have "(2::nat) ^ 16 dvd 2 ^ k" by (rule le_imp_power_dvd)
  then show ?thesis using a(3) by (simp add: dvd_trans)
qed

text \<open>What holds of the claims at any time: in the arena, aligned, apart with a guard page behind each.\<close>

definition apart_claims :: "u64 \<times> u64 \<Rightarrow> u64 \<times> u64 \<Rightarrow> bool" where
  "apart_claims c d \<longleftrightarrow> unat (fst c) + unat (snd c) + 0x4000 \<le> unat (fst d)"

definition arena_inv :: "guest_va \<Rightarrow> bool" where
  "arena_inv s \<longleftrightarrow> kGuestArenaFloor \<le> gv_low_next s \<and> gv_low_next s \<le> kCeil
     \<and> (\<forall>(b, sz) \<in> set (gv_claims s). kGuestArenaFloor \<le> b \<and> 0x10000 dvd unat b \<and> unat b + unat sz + 0x4000 \<le> unat (gv_low_next s))
     \<and> sorted_wrt apart_claims (gv_claims s)"

lemma arena_inv_registry [simp]: "arena_inv (s\<lparr>gv_registry := r\<rparr>) = arena_inv s"
  by (simp add: arena_inv_def)

lemma commit_inv:
  assumes "arena_inv s" "n \<le> 2 ^ 62" "k < 40" "arena_align align = 2 ^ k"
    and "claim (gv_low_next s) (round_size n) (arena_align align) = Some (b, nx)"
  shows "arena_inv (commit_claim b (round_size n) nx s)"
proof -
  have c: "unat (gv_low_next s) \<le> unat b \<and> 2 ^ k dvd unat b \<and> unat nx = unat b + unat (round_size n) + 0x4000 \<and> unat nx \<le> unat kCeil"
    using assms round_size_bound [OF assms(2)] by (intro claim_correct) (auto simp: arena_inv_def)
  then have "(0x10000 :: nat) dvd unat b" using arena_align_dvd assms(3,4) by metis
  moreover have "kGuestArenaFloor \<le> gv_low_next s" using assms(1) by (simp add: arena_inv_def)
  then have "kGuestArenaFloor \<le> b" "kGuestArenaFloor \<le> nx" using c by (auto simp: word_le_nat_alt)
  ultimately show ?thesis
    using assms(1) c by (fastforce simp: arena_inv_def commit_claim_def sorted_wrt_append apart_claims_def word_le_nat_alt)
qed

lemma other_claim_inv: "arena_inv s \<Longrightarrow> req_fits (fst r) (snd r) \<Longrightarrow> arena_inv (other_claim r s)"
  by (auto simp: other_claim_def req_fits_def split: option.splits intro: commit_inv)

lemma other_claims_inv: "arena_inv s \<Longrightarrow> list_all (\<lambda>(n, al). req_fits n al) rs \<Longrightarrow> arena_inv (fold other_claim rs s)"
  by (induction rs arbitrary: s) (auto simp: other_claim_inv)

lemma other_claims_append: "\<exists>mid. gv_claims (fold other_claim rs s) = gv_claims s @ mid"
proof (induction rs arbitrary: s)
  case (Cons r rs)
  have "\<exists>mid. gv_claims (other_claim r s) = gv_claims s @ mid"
    by (auto simp: other_claim_def commit_claim_def split: option.splits)
  then show ?case using Cons [of "other_claim r s"] by auto
qed simp

definition low_result :: "guest_va \<Rightarrow> nat \<Rightarrow> u64 \<Rightarrow> u64 option \<times> guest_va \<Rightarrow> bool" where
  "low_result s k sz res \<longleftrightarrow> arena_inv (snd res) \<and> (\<exists>mid. gv_claims (snd res) = gv_claims s @ mid)
     \<and> (\<forall>b. fst res = Some b \<longrightarrow> 2 ^ k dvd unat b \<and> (\<exists>mid. gv_claims (snd res) = gv_claims s @ mid @ [(b, sz)]))"

lemma low_result_later:
  "low_result s' k sz res \<Longrightarrow> gv_claims s' = gv_claims s @ mid \<Longrightarrow> low_result s k sz res"
  by (auto simp: low_result_def)

lemma low_loop_result:
  assumes "sched_fits sched" "n \<le> 2 ^ 62" "k < 40" "arena_align align = 2 ^ k"
  shows "arena_inv s \<Longrightarrow> low_result s k (round_size n) (low_loop sched (round_size n) (arena_align align) i s)"
proof (induction i arbitrary: s)
  case 0
  then show ?case by (simp add: low_result_def)
next
  case (Suc i)
  let ?t = "sched i"
  let ?s = "fold other_claim (lt_before ?t) s"
  let ?u = "fold other_claim (lt_between ?t) ?s"
  have t: "list_all (\<lambda>(n, al). req_fits n al) (lt_before ?t)" "list_all (\<lambda>(n, al). req_fits n al) (lt_between ?t)"
    using assms(1) by (auto simp: sched_fits_def)
  have s: "arena_inv ?s" using Suc.prems t(1) by (rule other_claims_inv)
  have u: "arena_inv ?u" using s t(2) by (rule other_claims_inv)
  obtain ms where ms: "gv_claims ?s = gv_claims s @ ms" using other_claims_append by blast
  obtain mu where mu: "gv_claims ?u = gv_claims s @ ms @ mu"
    using other_claims_append [of "lt_between ?t" ?s] ms by auto
  show ?case
  proof (cases "claim (gv_low_next ?s) (round_size n) (arena_align align)")
    case None
    then show ?thesis using s ms by (auto simp: Let_def low_result_def)
  next
    case (Some c)
    obtain b nx where c: "c = (b, nx)" by fastforce
    show ?thesis
    proof (cases "lt_spurious ?t \<or> gv_low_next ?u \<noteq> gv_low_next ?s")
      case True
      then show ?thesis
        using low_result_later [OF Suc.IH [OF u], of s "ms @ mu"] mu Some c by (simp add: Let_def)
    next
      case False
      let ?w = "commit_claim b (round_size n) nx ?u"
      have cl: "claim (gv_low_next ?u) (round_size n) (arena_align align) = Some (b, nx)"
        using False Some c by simp
      have w: "arena_inv ?w" by (rule commit_inv [OF u assms(2-4) cl])
      have mw: "gv_claims ?w = gv_claims s @ (ms @ mu) @ [(b, round_size n)]" using mu by (simp add: commit_claim_def)
      have "2 ^ k dvd unat b"
        using claim_correct [OF _ _ assms(4,3) cl] u round_size_bound [OF assms(2)] by (simp add: arena_inv_def)
      then show ?thesis
        using low_result_later [OF Suc.IH [OF w], of s "(ms @ mu) @ [(b, round_size n)]"] w mw False Some c
        by (auto simp: Let_def low_result_def)
    qed
  qed
qed

section \<open>Properties\<close>

text \<open>
  C21: A range reported as released consists of addresses the guest gave back and that were not handed
  out since, whatever was merged, dropped or left out when the record was full.
\<close>

theorem released_ranges_free:
  assumes "WasGuestReleased p n (fold apply_note xs guest_va_init)" "p \<le> a" "a < p + n"
  shows "a \<in> fold free_after xs {}"
  using notes_free WasGuestReleased_ranges [OF assms] .

theorem released_ranges_free_witness:
  "0x5800 \<in> fold free_after [Released 0x4000 0x1000, Released 0x5000 0x2000, Released 0x9000 0x1000, Taken 0x9800 0x100] {}"
proof (rule released_ranges_free [of "0x4800" "0x1800"])
  show "WasGuestReleased 0x4800 0x1800
      (fold apply_note [Released 0x4000 0x1000, Released 0x5000 0x2000, Released 0x9000 0x1000, Taken 0x9800 0x100] guest_va_init)"
    by code_simp
qed simp_all

definition low_calls :: "((nat \<Rightarrow> low_try) \<times> u64 \<times> u64) list \<Rightarrow> guest_va" where
  "low_calls cs = fold (\<lambda>(sched, n, align) s. snd (AllocLowGuest sched n align s)) cs guest_va_init"

lemma low_calls_inv: "list_all (\<lambda>(sched, n, align). sched_fits sched \<and> req_fits n align) cs \<Longrightarrow> arena_inv (low_calls cs)"
proof (induction cs rule: rev_induct)
  case Nil
  then show ?case by (simp add: low_calls_def guest_va_init_def arena_inv_def kGuestArenaFloor_def kCeil_def)
next
  case (snoc c cs)
  obtain sched n align where c: "c = (sched, n, align)" by (cases c)
  then obtain k where "sched_fits sched" "n \<le> 2 ^ 62" "k < 40" "arena_align align = 2 ^ k"
    using snoc.prems by (auto simp: req_fits_def)
  from low_loop_result [OF this, of "low_calls cs" 8192] show ?case
    using snoc c by (simp add: low_calls_def AllocLowGuest_def low_result_def)
qed


lemma low_loop_8192:
  "low_loop sched sz al 8192 s = low_loop sched sz al (Suc 8191) s"
  "low_loop sched sz al 8191 s = low_loop sched sz al (Suc 8190) s"
  by simp_all

lemmas low_eval = AllocLowGuest_def low_loop_8192 low_loop.simps(2) Let_def claim_def commit_claim_def other_claim_def
  low_calls_def guest_va_init_def round_size_def arena_align_def kAlign_def kCeil_def kGuestArenaFloor_def

definition quiet_try :: "u64 \<Rightarrow> low_try" where
  "quiet_try b = \<lparr>lt_before = [], lt_between = [], lt_spurious = False, lt_mmap = Some b\<rparr>"


text \<open>
  A request near the size of the address space wraps the fit test, so it moves the bump pointer
  below the floor although nothing is allocated.
\<close>

definition refused_try :: low_try where
  "refused_try = \<lparr>lt_before = [], lt_between = [], lt_spurious = False, lt_mmap = None\<rparr>"

theorem low_next_poisoned:
  "fst (AllocLowGuest (\<lambda>_. refused_try) 0xFFFFFF8000000000 0 guest_va_init) = None
   \<and> gv_low_next (snd (AllocLowGuest (\<lambda>_. refused_try) 0xFFFFFF8000000000 0 guest_va_init)) = 0x4000
   \<and> 0x4000 < kGuestArenaFloor"
  by (simp add: low_eval refused_try_def del: Suc_numeral cong: if_cong)

end
