(* ===== verification/Vm_Map.thy ===== *)
theory Vm_Map
  imports Prelude
begin

text \<open>
  The guest address-space bookkeeping of \<open>delta/kern/vm_map.{h,cc}\<close> (class \<open>VmMap\<close>) and the
  table of guest-owned ranges of \<open>delta/kern/guest_va_space.cc\<close>.

  Pointers and sizes are 64-bit words, so \<open>ptr + size\<close> wraps exactly where the compiled code
  does. The vector \<open>rt_pages_\<close> is a list. The calls that leave the class (host allocator,
  mapping-changed hook, direct-memory cache) are recorded in order in a trace. Every method
  runs under \<open>vmlock_\<close>, so one method is one step.

  The abstract view of the state is the partial function \<open>view\<close> from addresses to the
  attributes a query reports; the refinement lemmas say what each operation does to it.
\<close>

section \<open>Data\<close>

type_synonym Mprot = u32

definition kPriv :: Mprot where "kPriv = 0"
definition kR :: Mprot where "kR = 1"
definition kW :: Mprot where "kW = push_bit 1 1"
definition kX :: Mprot where "kX = push_bit 2 1"
definition kRx :: Mprot where "kRx = kR OR kX"
definition kRwx :: Mprot where "kRwx = kR OR kW OR kX"

record PageInfo =
  pg_ptr :: u64
  pg_size :: u64
  pg_prot :: Mprot
  pg_sce_prot :: u32
  pg_name :: "string option"
  pg_reserved :: bool
  pg_phys_offset :: u64
  pg_has_phys :: bool

text \<open>The constructor \<open>PageInfo(p, s, mp, sp, rsv)\<close> with the member initialisers.\<close>

definition PageInfo_new :: "u64 \<Rightarrow> u64 \<Rightarrow> Mprot \<Rightarrow> u32 \<Rightarrow> bool \<Rightarrow> PageInfo" where
  "PageInfo_new p s mp sp rsv =
     \<lparr>pg_ptr = p, pg_size = s, pg_prot = mp, pg_sce_prot = sp, pg_name = None,
      pg_reserved = rsv, pg_phys_offset = 0, pg_has_phys = False\<rparr>"

abbreviation pg_end :: "PageInfo \<Rightarrow> u64" where
  "pg_end e \<equiv> pg_ptr e + pg_size e"

datatype host_call =
    TrackMemoryMapping u64 u64
  | AllocMemReservecommitW u64 u64
  | MappingChangedHook u64 u64
  | ForgetDmemVaCall u64 u64

record VmMap =
  rt_pages :: "PageInfo list"
  hook_installed :: bool
  host_trace :: "host_call list"

section \<open>Operations\<close>

subsection \<open>\<open>PunchHoleLocked\<close>\<close>

text \<open>
  The index loop over the vector is a recursion over its unvisited suffix. A split appends the
  tail to the vector, so the tail is visited later, as in the code. \<open>hi\<close> is \<open>p + s\<close>.
\<close>

definition misses :: "u64 \<Rightarrow> u64 \<Rightarrow> PageInfo \<Rightarrow> bool" where
  "misses p hi e \<longleftrightarrow> pg_end e \<le> p \<or> hi \<le> pg_ptr e"

definition split_tail :: "u64 \<Rightarrow> PageInfo \<Rightarrow> PageInfo" where
  "split_tail hi e =
     (PageInfo_new hi (pg_end e - hi) (pg_prot e) (pg_sce_prot e) (pg_reserved e))
       \<lparr>pg_name := pg_name e, pg_has_phys := pg_has_phys e,
        pg_phys_offset := pg_phys_offset e + (hi - pg_ptr e)\<rparr>"

definition cut_tail :: "u64 \<Rightarrow> PageInfo \<Rightarrow> PageInfo" where
  "cut_tail p e = e\<lparr>pg_size := p - pg_ptr e\<rparr>"

definition cut_head :: "u64 \<Rightarrow> PageInfo \<Rightarrow> PageInfo" where
  "cut_head hi e = e\<lparr>pg_size := pg_end e - hi,
                     pg_phys_offset := pg_phys_offset e + (hi - pg_ptr e), pg_ptr := hi\<rparr>"

function punch :: "u64 \<Rightarrow> u64 \<Rightarrow> PageInfo list \<Rightarrow> PageInfo list" where
  "punch p hi [] = []"
| "punch p hi (e # es) =
     (if misses p hi e then e # punch p hi es
      else if p \<le> pg_ptr e \<and> pg_end e \<le> hi then punch p hi es
      else if pg_ptr e < p \<and> hi < pg_end e then cut_tail p e # punch p hi (es @ [split_tail hi e])
      else if pg_ptr e < p then cut_tail p e # punch p hi es
      else cut_head hi e # punch p hi es)"
  by pat_completeness auto
termination
  by (relation "measure (\<lambda>(p, hi, es). sum_list (map (\<lambda>e. if misses p hi e then 1 else 2) es))")
     (simp_all add: misses_def split_tail_def PageInfo_new_def)

definition PunchHoleLocked :: "u64 \<Rightarrow> u64 \<Rightarrow> PageInfo list \<Rightarrow> PageInfo list" where
  "PunchHoleLocked p s pages = punch p (p + s) pages"

subsection \<open>Mapping and unmapping\<close>

definition emit :: "host_call \<Rightarrow> VmMap \<Rightarrow> VmMap" where
  "emit c m = m\<lparr>host_trace := host_trace m @ [c]\<rparr>"

definition MappingChanged :: "u64 \<Rightarrow> u64 \<Rightarrow> VmMap \<Rightarrow> VmMap" where
  "MappingChanged ptr sz m =
     (if hook_installed m then emit (MappingChangedHook ptr sz) m else m)"

definition SetMappingChangedHook :: "bool \<Rightarrow> VmMap \<Rightarrow> VmMap" where
  "SetMappingChangedHook b m = m\<lparr>hook_installed := b\<rparr>"

definition punch_map :: "u64 \<Rightarrow> u64 \<Rightarrow> VmMap \<Rightarrow> VmMap" where
  "punch_map ptr sz m = m\<lparr>rt_pages := PunchHoleLocked ptr sz (rt_pages m)\<rparr>"

definition push_page :: "PageInfo \<Rightarrow> VmMap \<Rightarrow> VmMap" where
  "push_page e m = m\<lparr>rt_pages := rt_pages m @ [e]\<rparr>"

definition Add :: "u64 \<Rightarrow> u64 \<Rightarrow> Mprot \<Rightarrow> u32 \<Rightarrow> bool \<Rightarrow> VmMap \<Rightarrow> VmMap" where
  "Add ptr sz prot sce_prot reserved m =
     push_page (PageInfo_new ptr sz prot sce_prot reserved)
       (MappingChanged ptr sz
         (punch_map ptr sz (emit (TrackMemoryMapping ptr sz) m)))"

definition AddDirect :: "u64 \<Rightarrow> u64 \<Rightarrow> Mprot \<Rightarrow> u32 \<Rightarrow> u64 \<Rightarrow> VmMap \<Rightarrow> VmMap" where
  "AddDirect ptr sz prot sce_prot phys_offset m =
     push_page ((PageInfo_new ptr sz prot sce_prot False)
                  \<lparr>pg_phys_offset := phys_offset, pg_has_phys := True\<rparr>)
       (MappingChanged ptr sz
         (punch_map ptr sz (emit (TrackMemoryMapping ptr sz) m)))"

text \<open>The range of a direct page that \<open>Remove\<close> detaches from its backing, if any.\<close>

definition detach_range :: "u64 \<Rightarrow> u64 \<Rightarrow> PageInfo \<Rightarrow> (u64 \<times> u64) option" where
  "detach_range ptr sz page =
     (if \<not> pg_has_phys page then None
      else let first = max ptr (pg_ptr page); hi = min (ptr + sz) (pg_end page)
           in if first < hi then Some (first, hi - first) else None)"

definition Remove :: "u64 \<Rightarrow> u64 \<Rightarrow> VmMap \<Rightarrow> VmMap" where
  "Remove ptr sz m =
     MappingChanged ptr sz
       (punch_map ptr sz
         (fold (\<lambda>page. case detach_range ptr sz page of None \<Rightarrow> id
                  | Some (f, n) \<Rightarrow> emit (AllocMemReservecommitW f n)) (rt_pages m) m))"

text \<open>The guest range of a direct page that maps part of \<open>[phys, phys + size)\<close>.\<close>

definition alias_range :: "u64 \<Rightarrow> u64 \<Rightarrow> PageInfo \<Rightarrow> (u64 \<times> u64) option" where
  "alias_range phys sz page =
     (if \<not> pg_has_phys page then None
      else let first = max phys (pg_phys_offset page);
               hi = min (phys + sz) (pg_phys_offset page + pg_size page)
           in if first < hi
              then Some (pg_ptr page + first - pg_phys_offset page, hi - first) else None)"

definition drop_alias :: "u64 \<times> u64 \<Rightarrow> VmMap \<Rightarrow> VmMap" where
  "drop_alias r m = (case r of (ptr, sz) \<Rightarrow>
     MappingChanged ptr sz
       (punch_map ptr sz
         (emit (ForgetDmemVaCall ptr sz) (emit (AllocMemReservecommitW ptr sz) m))))"

definition RemoveDirect :: "u64 \<Rightarrow> u64 \<Rightarrow> VmMap \<Rightarrow> VmMap" where
  "RemoveDirect phys sz m =
     fold drop_alias (List.map_filter (alias_range phys sz) (rt_pages m)) m"

subsection \<open>Queries and attribute changes\<close>

definition Get :: "u64 \<Rightarrow> VmMap \<Rightarrow> PageInfo option" where
  "Get ptr m = List.find (\<lambda>page. pg_ptr page \<le> ptr \<and> ptr < pg_end page) (rt_pages m)"

definition touches :: "u64 \<Rightarrow> u64 \<Rightarrow> PageInfo \<Rightarrow> bool" where
  "touches ptr hi page \<longleftrightarrow> ptr < pg_end page \<and> pg_ptr page < hi"

definition Overlaps :: "u64 \<Rightarrow> u64 \<Rightarrow> VmMap \<Rightarrow> bool" where
  "Overlaps ptr sz m = list_ex (touches ptr (ptr + sz)) (rt_pages m)"

definition ProtectRange :: "u64 \<Rightarrow> u64 \<Rightarrow> Mprot \<Rightarrow> u32 \<Rightarrow> VmMap \<Rightarrow> VmMap" where
  "ProtectRange ptr sz prot sce_prot m =
     m\<lparr>rt_pages := map (\<lambda>page. if touches ptr (ptr + sz) page
                                  then page\<lparr>pg_prot := prot, pg_sce_prot := sce_prot\<rparr>
                                  else page) (rt_pages m)\<rparr>"

text \<open>
  A null name leaves the map unchanged. The copy of the name is allocated with \<open>malloc\<close>;
  \<open>alloc_ok\<close> is false when that fails, and then nothing is renamed.
\<close>

definition SetRangeName :: "u64 \<Rightarrow> u64 \<Rightarrow> string option \<Rightarrow> bool \<Rightarrow> VmMap \<Rightarrow> VmMap" where
  "SetRangeName ptr sz name alloc_ok m =
     (case name of None \<Rightarrow> m
      | Some n \<Rightarrow>
          if \<not> alloc_ok then m
          else m\<lparr>rt_pages := map (\<lambda>page. if touches ptr (ptr + sz) page
                                            then page\<lparr>pg_name := Some n\<rparr> else page)
                                (rt_pages m)\<rparr>)"

definition ForEachGpuAperturePage :: "VmMap \<Rightarrow> (u64 \<times> u64) list" where
  "ForEachGpuAperturePage m =
     map (\<lambda>page. (pg_ptr page, pg_size page))
       (filter (\<lambda>page. 0x1000000000 \<le> pg_ptr page \<and> pg_ptr page < 0x10000000000) (rt_pages m))"

text \<open>
  \<open>UnmapRtMemory\<close> erases the iterator it found without comparing it with \<open>end()\<close>: erasing
  the end iterator is undefined, which is the value \<open>None\<close>.
\<close>

fun erase_ptr :: "u64 \<Rightarrow> PageInfo list \<Rightarrow> PageInfo list option" where
  "erase_ptr ptr [] = None"
| "erase_ptr ptr (e # es) =
     (if pg_ptr e = ptr then Some es else map_option ((#) e) (erase_ptr ptr es))"

definition UnmapRtMemory :: "u64 \<Rightarrow> VmMap \<Rightarrow> VmMap option" where
  "UnmapRtMemory ptr m = map_option (\<lambda>ps. m\<lparr>rt_pages := ps\<rparr>) (erase_ptr ptr (rt_pages m))"

subsection \<open>Guest-owned ranges (\<open>guest_va_space.cc\<close>)\<close>

text \<open>The table of the non-Android build: base and size of each reserved range.\<close>

definition kRanges :: "(u64 \<times> u64) list" where
  "kRanges = [(0x200000000, 64 * 0x100000), (0xFC0000000, 0x40000000)]"

definition IsGuestReservedVa :: "u64 \<Rightarrow> u64 \<Rightarrow> bool" where
  "IsGuestReservedVa a len =
     (if a = 0 \<or> len = 0 then False
      else list_ex (\<lambda>(b, n). b \<le> a \<and> a + len \<le> b + n) kRanges)"

section \<open>Well-formed page lists\<close>

definition covers :: "PageInfo \<Rightarrow> u64 \<Rightarrow> bool" where
  "covers e a \<longleftrightarrow> pg_ptr e \<le> a \<and> a < pg_end e"

definition apart :: "PageInfo \<Rightarrow> PageInfo \<Rightarrow> bool" where
  "apart e f \<longleftrightarrow> pg_end e \<le> pg_ptr f \<or> pg_end f \<le> pg_ptr e"

text \<open>Neither the guest range nor the physical range of a page wraps around.\<close>

definition wf_page :: "PageInfo \<Rightarrow> bool" where
  "wf_page e \<longleftrightarrow> fits (pg_ptr e) (pg_size e) \<and> fits (pg_phys_offset e) (pg_size e)"

definition wf_pages :: "PageInfo list \<Rightarrow> bool" where
  "wf_pages es \<longleftrightarrow> list_all wf_page es \<and> sorted_wrt apart es"

definition wf_map :: "VmMap \<Rightarrow> bool" where
  "wf_map m \<longleftrightarrow> wf_pages (rt_pages m)"

text \<open>
  What a query reports at an address: protection, SCE protection, name, reservation flag and the
  physical byte behind the address.
\<close>

type_synonym page_attr = "Mprot \<times> u32 \<times> string option \<times> bool \<times> u64 option"

definition attr_at :: "PageInfo \<Rightarrow> u64 \<Rightarrow> page_attr" where
  "attr_at e a = (pg_prot e, pg_sce_prot e, pg_name e, pg_reserved e,
     if pg_has_phys e then Some (pg_phys_offset e + (a - pg_ptr e)) else None)"

definition view :: "VmMap \<Rightarrow> u64 \<Rightarrow> page_attr option" where
  "view m a = map_option (\<lambda>e. attr_at e a) (Get a m)"

section \<open>Pieces of a page\<close>

lemmas piece_defs = cut_tail_def cut_head_def split_tail_def PageInfo_new_def

lemma word_add_diff [simp]: "(a :: u64) + (b - a) = b"
  by simp

lemma piece_simps [simp]:
  "pg_ptr (cut_tail p e) = pg_ptr e" "pg_size (cut_tail p e) = p - pg_ptr e"
  "pg_ptr (cut_head hi e) = hi" "pg_size (cut_head hi e) = pg_end e - hi"
  "pg_ptr (split_tail hi e) = hi" "pg_size (split_tail hi e) = pg_end e - hi"
  by (simp_all add: piece_defs)

lemma piece_attr [simp]:
  "attr_at (cut_tail p e) a = attr_at e a"
  "attr_at (cut_head hi e) a = attr_at e a"
  "attr_at (split_tail hi e) a = attr_at e a"
  by (simp_all add: piece_defs attr_at_def algebra_simps)

lemma PageInfo_new_simps [simp]:
  "pg_ptr (PageInfo_new p s mp sp rsv) = p" "pg_size (PageInfo_new p s mp sp rsv) = s"
  by (simp_all add: PageInfo_new_def)

definition part_of :: "PageInfo \<Rightarrow> PageInfo \<Rightarrow> bool" where
  "part_of x e \<longleftrightarrow> pg_ptr e \<le> pg_ptr x \<and> pg_end x \<le> pg_end e"

lemma apart_part: "apart e f \<Longrightarrow> part_of x e \<Longrightarrow> apart x f"
  by (auto simp: apart_def part_of_def)

lemma apart_sym: "apart e f \<longleftrightarrow> apart f e"
  by (auto simp: apart_def)

lemma part_of_refl [simp]: "part_of e e"
  by (simp add: part_of_def)

lemma piece_phys [simp]:
  "pg_phys_offset (cut_tail p e) = pg_phys_offset e"
  "pg_phys_offset (cut_head hi e) = pg_phys_offset e + (hi - pg_ptr e)"
  "pg_phys_offset (split_tail hi e) = pg_phys_offset e + (hi - pg_ptr e)"
  by (simp_all add: piece_defs)

lemma fits_shorter: "fits q s \<Longrightarrow> x \<le> s \<Longrightarrow> fits q x"
  by (simp add: fits_unat word_le_nat_alt)

lemma fits_advance: "fits q s \<Longrightarrow> x \<le> s \<Longrightarrow> fits (q + x) (s - x)"
  by (simp add: fits_unat word_le_nat_alt unat_diff_le unat_word_ariths)

lemma offset_le: "fits q s \<Longrightarrow> q \<le> a \<Longrightarrow> a \<le> q + s \<Longrightarrow> a - q \<le> s"
  by (simp add: word_le_nat_alt fitsD unat_diff_le)

lemma wf_cut_tail: "wf_page e \<Longrightarrow> pg_ptr e < p \<Longrightarrow> p < pg_end e \<Longrightarrow> wf_page (cut_tail p e)"
  using offset_le [of "pg_ptr e" "pg_size e" p] by (auto simp: wf_page_def intro: fits_shorter)

lemma wf_advance: "wf_page e \<Longrightarrow> pg_ptr e < hi \<Longrightarrow> hi < pg_end e \<Longrightarrow>
    fits hi (pg_end e - hi) \<and> fits (pg_phys_offset e + (hi - pg_ptr e)) (pg_end e - hi)"
  using offset_le [of "pg_ptr e" "pg_size e" hi]
    fits_advance [of "pg_ptr e" "pg_size e" "hi - pg_ptr e"]
    fits_advance [of "pg_phys_offset e" "pg_size e" "hi - pg_ptr e"]
  by (simp add: wf_page_def algebra_simps)

lemma wf_cut_head: "wf_page e \<Longrightarrow> pg_ptr e < hi \<Longrightarrow> hi < pg_end e \<Longrightarrow> wf_page (cut_head hi e)"
  using wf_advance by (simp add: wf_page_def)

lemma wf_split_tail: "wf_page e \<Longrightarrow> pg_ptr e < hi \<Longrightarrow> hi < pg_end e \<Longrightarrow> wf_page (split_tail hi e)"
  using wf_advance by (simp add: wf_page_def)

section \<open>The loop of \<open>PunchHoleLocked\<close> as a per-page function\<close>

text \<open>
  What stays in the slot of a page, and the piece a split appends. The loop is equal to one
  pass that trims every page, followed by the appended tails in the order of their pages.
\<close>

definition trimmed :: "u64 \<Rightarrow> u64 \<Rightarrow> PageInfo \<Rightarrow> PageInfo list" where
  "trimmed p hi e = (if misses p hi e then [e]
      else if p \<le> pg_ptr e \<and> pg_end e \<le> hi then []
      else if pg_ptr e < p then [cut_tail p e] else [cut_head hi e])"

definition tail_of :: "u64 \<Rightarrow> u64 \<Rightarrow> PageInfo \<Rightarrow> PageInfo list" where
  "tail_of p hi e = (if \<not> misses p hi e \<and> pg_ptr e < p \<and> hi < pg_end e
      then [split_tail hi e] else [])"

lemma punch_missing: "list_all (misses p hi) ts \<Longrightarrow> punch p hi ts = ts"
  by (induction ts) auto

lemma punch_append:
  "list_all (misses p hi) ts \<Longrightarrow>
   punch p hi (es @ ts) = concat (map (trimmed p hi) es) @ ts @ concat (map (tail_of p hi) es)"
proof (induction es arbitrary: ts)
  case Nil
  then show ?case by (simp add: punch_missing)
next
  case (Cons e es)
  have "misses p hi (split_tail hi e)" by (simp add: misses_def)
  then have "punch p hi (es @ ts @ [split_tail hi e]) =
      concat (map (trimmed p hi) es) @ (ts @ [split_tail hi e]) @ concat (map (tail_of p hi) es)"
    using Cons.prems by (intro Cons.IH) simp
  moreover have "punch p hi (es @ ts) =
      concat (map (trimmed p hi) es) @ ts @ concat (map (tail_of p hi) es)"
    using Cons.prems by (rule Cons.IH)
  ultimately show ?case by (auto simp: trimmed_def [of p hi e] tail_of_def [of p hi e])
qed

lemma punch_eq:
  "punch p hi es = concat (map (trimmed p hi) es) @ concat (map (tail_of p hi) es)"
  using punch_append [of p hi "[]" es] by simp

section \<open>What a punched list covers\<close>

text \<open>The pieces of one page.\<close>

definition pieces :: "u64 \<Rightarrow> u64 \<Rightarrow> PageInfo \<Rightarrow> PageInfo set" where
  "pieces p hi e = set (trimmed p hi e) \<union> set (tail_of p hi e)"

lemma set_punch: "set (punch p hi es) = (\<Union>e \<in> set es. pieces p hi e)"
  by (auto simp: punch_eq pieces_def)

lemmas pieces_defs = pieces_def trimmed_def tail_of_def misses_def

lemma piece_part: "p \<le> hi \<Longrightarrow> x \<in> pieces p hi e \<Longrightarrow> part_of x e"
  by (auto simp: pieces_defs part_of_def split: if_splits)

lemma piece_wf: "wf_page e \<Longrightarrow> x \<in> pieces p hi e \<Longrightarrow> wf_page x"
  by (auto simp: pieces_def trimmed_def tail_of_def misses_def not_le
      intro: wf_cut_tail wf_cut_head wf_split_tail split: if_splits)

lemma piece_misses: "p \<le> hi \<Longrightarrow> x \<in> pieces p hi e \<Longrightarrow> misses p hi x"
  by (auto simp: pieces_defs split: if_splits)

lemma piece_covers: "p \<le> hi \<Longrightarrow>
    (\<exists>x \<in> pieces p hi e. covers x a) \<longleftrightarrow> covers e a \<and> \<not> (p \<le> a \<and> a < hi)"
  by (auto simp: pieces_defs covers_def)

lemma piece_attr_at: "x \<in> pieces p hi e \<Longrightarrow> attr_at x a = attr_at e a"
  by (auto simp: pieces_defs split: if_splits)

lemma pieces_apart: "p \<le> hi \<Longrightarrow> apart e f \<Longrightarrow> x \<in> pieces p hi e \<Longrightarrow> y \<in> pieces p hi f \<Longrightarrow> apart x y"
  by (meson apart_part apart_sym piece_part)

lemma trim_tail_apart: "p \<le> hi \<Longrightarrow> x \<in> set (trimmed p hi e) \<Longrightarrow> y \<in> set (tail_of p hi e) \<Longrightarrow> apart x y"
  by (auto simp: pieces_defs apart_def split: if_splits)

lemma apart_symp: "symp apart"
  using apart_sym by (auto intro: sympI)

lemma sorted_apart_concat:
  assumes "sorted_wrt apart es" and "\<And>e. sorted_wrt apart (f e)" and "\<And>e x. x \<in> set (f e) \<Longrightarrow> part_of x e"
  shows "sorted_wrt apart (concat (map f es))"
  using assms(1)
proof (induction es)
  case (Cons e es)
  have "apart x y" if "x \<in> set (f e)" "y \<in> set (f g)" "g \<in> set es" for x y g
  proof -
    have "apart e g" using Cons.prems that by simp
    then show ?thesis using assms(3) that by (meson apart_part apart_sym)
  qed
  then show ?case using Cons assms(2) by (auto simp: sorted_wrt_append)
qed simp

lemma punch_apart:
  assumes "p \<le> hi" "sorted_wrt apart es"
  shows "sorted_wrt apart (punch p hi es)"
proof -
  have part: "part_of x e" if "x \<in> pieces p hi e" for x e
    using piece_part assms(1) that .
  have one: "sorted_wrt apart (trimmed p hi e)" "sorted_wrt apart (tail_of p hi e)" for e
    by (simp_all add: trimmed_def tail_of_def)
  have "apart x y" if "e \<in> set es" "f \<in> set es" "x \<in> set (trimmed p hi e)" "y \<in> set (tail_of p hi f)" for e f x y
  proof (cases "e = f")
    case True
    then show ?thesis using trim_tail_apart assms(1) that by blast
  next
    case False
    then have "apart e f"
      using assms(2) that(1,2) apart_sym by (auto simp: sorted_wrt_iff_nth_less in_set_conv_nth) (metis linorder_neqE_nat)
    then show ?thesis using part that by (metis UnI1 UnI2 apart_part apart_sym pieces_def)
  qed
  then show ?thesis
    using sorted_apart_concat [OF assms(2)] one part
    by (auto simp: punch_eq sorted_wrt_append pieces_def)
qed

lemma wf_pages_punch:
  assumes "fits p s" "wf_pages es"
  shows "wf_pages (PunchHoleLocked p s es)"
proof -
  have "p \<le> p + s" using assms(1) by (simp add: fits_def)
  then have "sorted_wrt apart (punch p (p + s) es)"
    using assms(2) by (simp add: punch_apart wf_pages_def)
  moreover have "wf_page x" if "x \<in> set (punch p (p + s) es)" for x
    using that assms(2) piece_wf by (auto simp: set_punch wf_pages_def list_all_iff)
  ultimately show ?thesis by (simp add: wf_pages_def PunchHoleLocked_def list_all_iff)
qed

section \<open>The view of a map\<close>

text \<open>
  In a well-formed list at most one page covers an address, so the first match of \<open>Get\<close> does
  not depend on the order of the vector.
\<close>

definition page_view :: "PageInfo list \<Rightarrow> u64 \<Rightarrow> page_attr option" where
  "page_view es a = map_option (\<lambda>e. attr_at e a) (List.find (\<lambda>e. covers e a) es)"

lemma view_page_view: "view m a = page_view (rt_pages m) a"
  by (simp add: view_def page_view_def Get_def covers_def)

lemma apart_covers: "apart e f \<Longrightarrow> covers e a \<Longrightarrow> \<not> covers f a"
  by (auto simp: apart_def covers_def)

lemma covers_unique: "sorted_wrt apart es \<Longrightarrow> e \<in> set es \<Longrightarrow> f \<in> set es \<Longrightarrow>
    covers e a \<Longrightarrow> covers f a \<Longrightarrow> e = f"
  by (induction es) (auto dest: apart_covers)

lemma page_view_Some_iff:
  assumes "sorted_wrt apart es"
  shows "page_view es a = Some x \<longleftrightarrow> (\<exists>e \<in> set es. covers e a \<and> attr_at e a = x)"
proof
  assume "page_view es a = Some x"
  then show "\<exists>e \<in> set es. covers e a \<and> attr_at e a = x"
    by (auto simp: page_view_def find_Some_iff)
next
  assume "\<exists>e \<in> set es. covers e a \<and> attr_at e a = x"
  then obtain e where e: "e \<in> set es" "covers e a" "attr_at e a = x" by blast
  then obtain f where "List.find (\<lambda>e. covers e a) es = Some f"
    by (cases "List.find (\<lambda>e. covers e a) es") (auto simp: find_None_iff)
  moreover from this have "f = e"
    using covers_unique [OF assms] e by (metis find_Some_iff nth_mem)
  ultimately show "page_view es a = Some x" using e by (simp add: page_view_def)
qed

lemma page_view_None_iff: "page_view es a = None \<longleftrightarrow> (\<forall>e \<in> set es. \<not> covers e a)"
  by (auto simp: page_view_def find_None_iff)

lemma page_view_eqI:
  assumes "sorted_wrt apart es" "sorted_wrt apart fs"
    and "\<And>x. (\<exists>e \<in> set es. covers e a \<and> attr_at e a = x) \<longleftrightarrow> (\<exists>e \<in> set fs. covers e a \<and> attr_at e a = x)"
  shows "page_view es a = page_view fs a"
proof -
  have "page_view es a = Some x \<longleftrightarrow> page_view fs a = Some x" for x
    using assms by (simp add: page_view_Some_iff)
  then show ?thesis by (metis not_None_eq)
qed

lemma page_view_punch:
  assumes "fits p s" "wf_pages es"
  shows "page_view (PunchHoleLocked p s es) a =
    (if p \<le> a \<and> a < p + s then None else page_view es a)"
proof -
  have le: "p \<le> p + s" using assms(1) by (simp add: fits_def)
  have cov: "(\<exists>y \<in> set (punch p (p + s) es). covers y a \<and> attr_at y a = x) \<longleftrightarrow>
      (\<exists>e \<in> set es. covers e a \<and> attr_at e a = x) \<and> \<not> (p \<le> a \<and> a < p + s)" for x
  proof -
    have "(\<exists>y \<in> pieces p (p + s) e. covers y a \<and> attr_at y a = x) \<longleftrightarrow>
        (covers e a \<and> \<not> (p \<le> a \<and> a < p + s)) \<and> attr_at e a = x" for e
      using piece_covers [OF le, of e a] by (metis piece_attr_at)
    then show ?thesis by (auto simp: set_punch)
  qed
  show ?thesis
  proof (cases "p \<le> a \<and> a < p + s")
    case True
    then have "\<forall>y \<in> set (punch p (p + s) es). \<not> covers y a" using cov by blast
    then show ?thesis using True by (simp add: page_view_None_iff PunchHoleLocked_def)
  next
    case False
    have "page_view (PunchHoleLocked p s es) a = page_view es a"
      using wf_pages_punch [OF assms] assms(2) cov False
      by (intro page_view_eqI) (simp_all add: wf_pages_def PunchHoleLocked_def)
    then show ?thesis using False by auto
  qed
qed

lemma page_view_snoc:
  "page_view (es @ [e]) a = (case page_view es a of Some x \<Rightarrow> Some x
     | None \<Rightarrow> if covers e a then Some (attr_at e a) else None)"
  by (induction es) (simp_all add: page_view_def)

lemma wf_pages_snoc:
  assumes "wf_pages es" "wf_page e" "list_all (misses (pg_ptr e) (pg_end e)) es"
  shows "wf_pages (es @ [e])"
  using assms by (auto simp: wf_pages_def sorted_wrt_append apart_def misses_def list_all_iff)

lemma punched_misses:
  "fits p s \<Longrightarrow> list_all (misses p (p + s)) (PunchHoleLocked p s es)"
  using piece_misses by (auto simp: fits_def PunchHoleLocked_def list_all_iff set_punch)

section \<open>The operations on the view\<close>

lemma rt_pages_simps [simp]:
  "rt_pages (emit c m) = rt_pages m"
  "rt_pages (MappingChanged p s m) = rt_pages m"
  "rt_pages (punch_map p s m) = PunchHoleLocked p s (rt_pages m)"
  "rt_pages (push_page e m) = rt_pages m @ [e]"
  by (simp_all add: emit_def MappingChanged_def punch_map_def push_page_def)

lemma rt_pages_detach [simp]:
  "rt_pages (fold (\<lambda>page. case f page of None \<Rightarrow> id | Some (q, n) \<Rightarrow> emit (AllocMemReservecommitW q n)) ps m)
    = rt_pages m"
  by (induction ps arbitrary: m) (auto split: option.splits)

lemma rt_pages_Remove [simp]: "rt_pages (Remove p s m) = PunchHoleLocked p s (rt_pages m)"
  by (simp add: Remove_def)

lemma rt_pages_Add [simp]:
  "rt_pages (Add p s prot sp rsv m) =
     PunchHoleLocked p s (rt_pages m) @ [PageInfo_new p s prot sp rsv]"
  by (simp add: Add_def)

lemma rt_pages_AddDirect [simp]:
  "rt_pages (AddDirect p s prot sp phys m) = PunchHoleLocked p s (rt_pages m) @
     [(PageInfo_new p s prot sp False)\<lparr>pg_phys_offset := phys, pg_has_phys := True\<rparr>]"
  by (simp add: AddDirect_def)

lemma view_punched_snoc:
  assumes "wf_map m" "fits p s" "pg_ptr e = p" "pg_size e = s"
  shows "page_view (PunchHoleLocked p s (rt_pages m) @ [e]) a =
    (if p \<le> a \<and> a < p + s then Some (attr_at e a) else view m a)"
  using assms page_view_punch [of p s "rt_pages m" a]
  by (auto simp: page_view_snoc covers_def view_page_view wf_map_def split: option.splits)

lemma wf_map_Remove: "wf_map m \<Longrightarrow> fits p s \<Longrightarrow> wf_map (Remove p s m)"
  by (simp add: wf_map_def wf_pages_punch)

lemma wf_map_Add: "wf_map m \<Longrightarrow> fits p s \<Longrightarrow> wf_map (Add p s prot sp rsv m)"
  by (auto simp: wf_map_def wf_pages_punch wf_page_def PageInfo_new_def fits_def
      intro!: wf_pages_snoc punched_misses)

lemma wf_map_AddDirect: "wf_map m \<Longrightarrow> fits p s \<Longrightarrow> fits phys s \<Longrightarrow> wf_map (AddDirect p s prot sp phys m)"
  by (auto simp: wf_map_def wf_pages_punch wf_page_def PageInfo_new_def
      intro!: wf_pages_snoc punched_misses)

lemma view_Add:
  assumes "wf_map m" "fits p s"
  shows "view (Add p s prot sp rsv m) a =
    (if p \<le> a \<and> a < p + s then Some (prot, sp, None, rsv, None) else view m a)"
  using view_punched_snoc [OF assms, of "PageInfo_new p s prot sp rsv"]
  by (simp add: view_page_view [of "Add p s prot sp rsv m"] attr_at_def PageInfo_new_def)

lemma view_AddDirect:
  assumes "wf_map m" "fits p s"
  shows "view (AddDirect p s prot sp phys m) a =
    (if p \<le> a \<and> a < p + s then Some (prot, sp, None, False, Some (phys + (a - p))) else view m a)"
  using view_punched_snoc [OF assms, of "(PageInfo_new p s prot sp False)
      \<lparr>pg_phys_offset := phys, pg_has_phys := True\<rparr>"]
  by (simp add: view_page_view [of "AddDirect p s prot sp phys m"] attr_at_def PageInfo_new_def)

lemma view_Remove:
  assumes "wf_map m" "fits p s"
  shows "view (Remove p s m) a = (if p \<le> a \<and> a < p + s then None else view m a)"
  using assms page_view_punch by (simp add: view_page_view wf_map_def)

section \<open>Releasing physical memory\<close>

lemma rt_pages_drop_alias [simp]:
  "rt_pages (drop_alias r m) = PunchHoleLocked (fst r) (snd r) (rt_pages m)"
  by (simp add: drop_alias_def split: prod.splits)

lemma drop_aliases:
  assumes "wf_map m" "\<forall>r \<in> set rs. fits (fst r) (snd r)"
  shows "wf_map (fold drop_alias rs m) \<and> view (fold drop_alias rs m) a =
    (if \<exists>r \<in> set rs. fst r \<le> a \<and> a < fst r + snd r then None else view m a)"
  using assms
proof (induction rs arbitrary: m)
  case (Cons r rs)
  have wf: "wf_map (drop_alias r m)"
    using Cons.prems by (simp add: wf_map_def wf_pages_punch)
  have "view (drop_alias r m) a =
      (if fst r \<le> a \<and> a < fst r + snd r then None else view m a)"
    using Cons.prems page_view_punch by (simp add: view_page_view wf_map_def)
  then show ?case using Cons.IH [OF wf] Cons.prems by auto
qed simp

lemma fits_le_iff: "fits p s \<Longrightarrow> x \<le> s \<Longrightarrow> y \<le> s \<Longrightarrow> p + x \<le> p + y \<longleftrightarrow> x \<le> y"
  using fits_shorter [of p s x] fits_shorter [of p s y] by (simp add: word_le_nat_alt fitsD)

lemma fits_less_iff: "fits p s \<Longrightarrow> x \<le> s \<Longrightarrow> y \<le> s \<Longrightarrow> p + x < p + y \<longleftrightarrow> x < y"
  using fits_le_iff [of p s y x] by (simp add: not_le [symmetric])

lemma fits_offset: "fits p s \<Longrightarrow> p \<le> a \<Longrightarrow> a \<le> p + s \<Longrightarrow> \<exists>d \<le> s. a = p + d"
  using offset_le [of p s a] by (intro exI [of _ "a - p"]) simp

text \<open>
  The alias range of a direct page, as offsets \<open>f < h \<le> size\<close> into the page: the physical
  bytes it maps are those of the page that lie in the released range.
\<close>

lemma alias_range_offsets:
  assumes "wf_page e" "alias_range phys s e = Some r"
  shows "\<exists>f h. f < h \<and> h \<le> pg_size e \<and> fst r = pg_ptr e + f \<and> fst r + snd r = pg_ptr e + h \<and>
    snd r = h - f \<and> pg_phys_offset e + f = max phys (pg_phys_offset e) \<and>
    pg_phys_offset e + h = min (phys + s) (pg_phys_offset e + pg_size e)"
proof -
  let ?off = "pg_phys_offset e"
  define first where "first = max phys ?off"
  define hi where "hi = min (phys + s) (?off + pg_size e)"
  have r: "r = (pg_ptr e + first - ?off, hi - first)" "first < hi"
    using assms(2) by (auto simp: alias_range_def Let_def first_def hi_def split: if_splits)
  have fit: "fits ?off (pg_size e)" using assms(1) by (simp add: wf_page_def)
  have le: "?off \<le> first" "hi \<le> ?off + pg_size e" by (auto simp: first_def hi_def)
  obtain h where h: "h \<le> pg_size e" "hi = ?off + h"
    using fits_offset [OF fit, of hi] le r(2) by force
  obtain f where f: "f \<le> pg_size e" "first = ?off + f"
    using fits_offset [OF fit, of first] le r(2) by force
  have "f < h" using r(2) fits_less_iff [OF fit f(1) h(1)] f h by simp
  then show ?thesis using f h r by (auto simp: first_def [symmetric] hi_def [symmetric] algebra_simps)
qed

lemma alias_range_fits:
  assumes "wf_page e" "alias_range phys s e = Some r"
  shows "fits (fst r) (snd r)"
proof -
  obtain f h where fh: "f < h" "h \<le> pg_size e" "fst r = pg_ptr e + f" "snd r = h - f"
    using alias_range_offsets [OF assms] by blast
  have "fits (pg_ptr e + f) (h - f)"
    using fh assms(1) fits_advance [of "pg_ptr e" h f] fits_shorter [of "pg_ptr e" "pg_size e" h]
    by (simp add: wf_page_def)
  then show ?thesis using fh by simp
qed

definition page_phys :: "PageInfo \<Rightarrow> u64 \<Rightarrow> u64" where
  "page_phys e a = pg_phys_offset e + (a - pg_ptr e)"

lemma covers_offset:
  assumes "wf_page e"
  shows "covers e a \<longleftrightarrow> (\<exists>d < pg_size e. a = pg_ptr e + d)"
proof
  assume a: "covers e a"
  then obtain d where d: "d \<le> pg_size e" "a = pg_ptr e + d"
    using assms fits_offset [of "pg_ptr e" "pg_size e" a] by (force simp: covers_def wf_page_def)
  then have "d \<noteq> pg_size e" using a by (auto simp: covers_def)
  then show "\<exists>d < pg_size e. a = pg_ptr e + d" using d by (auto simp: less_le)
next
  assume "\<exists>d < pg_size e. a = pg_ptr e + d"
  then show "covers e a"
    using assms fits_less_iff [of "pg_ptr e" "pg_size e" _ "pg_size e"] fits_shorter
    by (fastforce simp: covers_def wf_page_def fits_def)
qed

lemma alias_range_iff:
  assumes "wf_page e" "alias_range phys s e = Some r"
  shows "fst r \<le> a \<and> a < fst r + snd r \<longleftrightarrow>
    covers e a \<and> phys \<le> page_phys e a \<and> page_phys e a < phys + s"
proof -
  let ?off = "pg_phys_offset e"
  obtain f h where fh: "f < h" "h \<le> pg_size e" "fst r = pg_ptr e + f" "fst r + snd r = pg_ptr e + h"
      "?off + f = max phys ?off" "?off + h = min (phys + s) (?off + pg_size e)"
    using alias_range_offsets [OF assms] by blast
  have fit: "fits (pg_ptr e) (pg_size e)" "fits ?off (pg_size e)"
    using assms(1) by (auto simp: wf_page_def)
  have inside: "covers e a" if "fst r \<le> a" "a < fst r + snd r"
  proof -
    have le: "pg_ptr e \<le> pg_ptr e + f" "pg_ptr e + h \<le> pg_end e"
      using fits_le_iff [OF fit(1), of 0 f] fits_le_iff [OF fit(1), of h "pg_size e"] fh by auto
    have "pg_ptr e \<le> a" using le(1) that(1) unfolding fh(3) by (rule order_trans)
    moreover have "a < pg_end e" using that(2) le(2) unfolding fh(4) by (rule order.strict_trans2)
    ultimately show ?thesis by (simp add: covers_def)
  qed
  have "fst r \<le> a \<and> a < fst r + snd r \<longleftrightarrow> phys \<le> page_phys e a \<and> page_phys e a < phys + s"
    if d: "a = pg_ptr e + d" "d < pg_size e" for d
  proof -
    have "fst r \<le> a \<longleftrightarrow> ?off + f \<le> ?off + d"
      unfolding fh(3) d(1) using fh(1,2) d(2) fit by (simp add: fits_le_iff)
    moreover have "a < fst r + snd r \<longleftrightarrow> ?off + d < ?off + h"
      unfolding fh(4) d(1) using fh(2) d(2) fit by (simp add: fits_less_iff)
    moreover have "?off \<le> ?off + d" "?off + d < ?off + pg_size e"
      using fits_le_iff [OF fit(2), of 0 d] fits_less_iff [OF fit(2), of d "pg_size e"] d by auto
    ultimately show ?thesis using fh(5,6) d by (simp add: page_phys_def)
  qed
  then show ?thesis using inside covers_offset [OF assms(1)] by blast
qed

lemma alias_range_None:
  assumes "wf_page e" "alias_range phys s e = None" "pg_has_phys e" "covers e a"
  shows "\<not> (phys \<le> page_phys e a \<and> page_phys e a < phys + s)"
proof -
  let ?off = "pg_phys_offset e"
  obtain d where d: "a = pg_ptr e + d" "d < pg_size e"
    using assms(1,4) covers_offset by blast
  have fit: "fits ?off (pg_size e)" using assms(1) by (simp add: wf_page_def)
  have "?off \<le> ?off + d" "?off + d < ?off + pg_size e"
    using fits_le_iff [OF fit, of 0 d] fits_less_iff [OF fit, of d "pg_size e"] d by auto
  moreover have "\<not> max phys ?off < min (phys + s) (?off + pg_size e)"
    using assms(2,3) by (auto simp: alias_range_def Let_def split: if_splits)
  ultimately show ?thesis using d by (auto simp: page_phys_def)
qed

text \<open>The physical byte a guest address is backed by, if it is backed by direct memory.\<close>

definition phys_at :: "VmMap \<Rightarrow> u64 \<Rightarrow> u64 option" where
  "phys_at m a = (case view m a of Some (_, _, _, _, ph) \<Rightarrow> ph | None \<Rightarrow> None)"

lemma phys_at_iff:
  assumes "wf_map m"
  shows "phys_at m a = Some q \<longleftrightarrow>
    (\<exists>e \<in> set (rt_pages m). covers e a \<and> pg_has_phys e \<and> q = page_phys e a)"
proof -
  let ?ph = "\<lambda>x :: page_attr. snd (snd (snd (snd x)))"
  have "phys_at m a = Some q \<longleftrightarrow> (\<exists>x. view m a = Some x \<and> ?ph x = Some q)"
    by (auto simp: phys_at_def split: option.splits)
  also have "\<dots> \<longleftrightarrow> (\<exists>e \<in> set (rt_pages m). covers e a \<and> ?ph (attr_at e a) = Some q)"
    using assms by (simp only: view_page_view page_view_Some_iff wf_map_def wf_pages_def) blast
  finally show ?thesis by (auto simp: attr_at_def page_phys_def)
qed

lemma RemoveDirect_spec:
  assumes "wf_map m"
  shows "wf_map (RemoveDirect phys s m) \<and> view (RemoveDirect phys s m) a =
    (if \<exists>q. phys_at m a = Some q \<and> phys \<le> q \<and> q < phys + s then None else view m a)"
proof -
  let ?rs = "List.map_filter (alias_range phys s) (rt_pages m)"
  have wf: "wf_page e" if "e \<in> set (rt_pages m)" for e
    using that assms by (simp add: wf_map_def wf_pages_def list_all_iff)
  have rs: "r \<in> set ?rs \<longleftrightarrow> (\<exists>e \<in> set (rt_pages m). alias_range phys s e = Some r)" for r
    by (force simp: map_filter_def)
  have fits: "\<forall>r \<in> set ?rs. fits (fst r) (snd r)"
    using wf alias_range_fits rs by blast
  have hit: "alias_range phys s e = Some r \<Longrightarrow> pg_has_phys e" for e r
    by (auto simp: alias_range_def split: if_splits)
  have "(\<exists>r \<in> set ?rs. fst r \<le> a \<and> a < fst r + snd r) \<longleftrightarrow>
      (\<exists>e \<in> set (rt_pages m). covers e a \<and> pg_has_phys e \<and> phys \<le> page_phys e a \<and> page_phys e a < phys + s)"
    using rs alias_range_iff [OF wf] alias_range_None [OF wf] hit by (metis option.exhaust)
  also have "\<dots> \<longleftrightarrow> (\<exists>q. phys_at m a = Some q \<and> phys \<le> q \<and> q < phys + s)"
    using phys_at_iff [OF assms] by auto
  finally show ?thesis
    using drop_aliases [OF assms fits, of a] by (simp add: RemoveDirect_def)
qed

section \<open>Attribute changes and queries\<close>

lemma touches_pages:
  assumes "\<And>e. pg_ptr (f e) = pg_ptr e" "\<And>e. pg_size (f e) = pg_size e"
    "\<And>e. pg_phys_offset (f e) = pg_phys_offset e"
  shows "wf_pages (map f es) = wf_pages es"
  using assms by (simp add: wf_pages_def list_all_iff wf_page_def sorted_wrt_map apart_def [abs_def])

lemma wf_map_ProtectRange: "wf_map m \<Longrightarrow> wf_map (ProtectRange p s prot sp m)"
  by (simp add: wf_map_def ProtectRange_def touches_pages)

lemma wf_map_SetRangeName: "wf_map m \<Longrightarrow> wf_map (SetRangeName p s nm ok m)"
  by (auto simp: wf_map_def SetRangeName_def touches_pages split: option.splits)

lemma erase_ptr_subseq: "erase_ptr p es = Some fs \<Longrightarrow> wf_pages es \<Longrightarrow>
    wf_pages fs \<and> set fs \<subseteq> set es"
proof (induction es arbitrary: fs)
  case (Cons e es)
  then show ?case by (fastforce simp: wf_pages_def split: if_splits)
qed simp

lemma wf_map_UnmapRtMemory: "wf_map m \<Longrightarrow> UnmapRtMemory p m = Some m' \<Longrightarrow> wf_map m'"
  using erase_ptr_subseq by (auto simp: wf_map_def UnmapRtMemory_def)

lemma erase_ptr_None: "erase_ptr p es = None \<longleftrightarrow> (\<forall>e \<in> set es. pg_ptr e \<noteq> p)"
  by (induction es) auto

lemma view_ProtectRange:
  assumes "wf_map m"
  shows "view (ProtectRange p s prot sp m) a =
    (case Get a m of None \<Rightarrow> None
     | Some e \<Rightarrow> Some (if touches p (p + s) e then (prot, sp, snd (snd (attr_at e a))) else attr_at e a))"
proof -
  have "List.find (\<lambda>e. covers e a) (map (\<lambda>page. if touches p (p + s) page
          then page\<lparr>pg_prot := prot, pg_sce_prot := sp\<rparr> else page) es) =
      map_option (\<lambda>page. if touches p (p + s) page
          then page\<lparr>pg_prot := prot, pg_sce_prot := sp\<rparr> else page) (List.find (\<lambda>e. covers e a) es)" for es
    by (induction es) (auto simp: covers_def)
  then show ?thesis
    by (auto simp: view_def Get_def ProtectRange_def covers_def attr_at_def split: option.splits)
qed

lemma Overlaps_view:
  assumes "\<not> Overlaps p s m" "p \<le> a" "a < p + s"
  shows "view m a = None"
  using assms by (auto simp: Overlaps_def touches_def view_page_view page_view_None_iff covers_def list_ex_iff)

section \<open>The address space as an interface\<close>

text \<open>
  What the memory syscalls rely on: mapping a range decides what a query inside it reports and
  changes nothing outside, unmapping makes the range unmapped and changes nothing outside, and
  both keep the invariant. \<open>ok\<close> says which requests are admissible.
\<close>

locale address_space =
  fixes invar :: "'s \<Rightarrow> bool"
    and query :: "'s \<Rightarrow> u64 \<Rightarrow> 'v option"
    and map_op :: "u64 \<Rightarrow> u64 \<Rightarrow> 'r \<Rightarrow> 's \<Rightarrow> 's"
    and unmap_op :: "u64 \<Rightarrow> u64 \<Rightarrow> 's \<Rightarrow> 's"
    and ok :: "u64 \<Rightarrow> u64 \<Rightarrow> 'r \<Rightarrow> bool"
    and attr :: "u64 \<Rightarrow> 'r \<Rightarrow> u64 \<Rightarrow> 'v"
  assumes invar_map: "invar m \<Longrightarrow> fits p s \<Longrightarrow> ok p s r \<Longrightarrow> invar (map_op p s r m)"
    and query_map: "invar m \<Longrightarrow> fits p s \<Longrightarrow> ok p s r \<Longrightarrow> query (map_op p s r m) a =
          (if p \<le> a \<and> a < p + s then Some (attr p r a) else query m a)"
    and invar_unmap: "invar m \<Longrightarrow> fits p s \<Longrightarrow> invar (unmap_op p s m)"
    and query_unmap: "invar m \<Longrightarrow> fits p s \<Longrightarrow> query (unmap_op p s m) a =
          (if p \<le> a \<and> a < p + s then None else query m a)"
begin

text \<open>A request: \<open>Some r\<close> maps, \<open>None\<close> unmaps.\<close>

definition exec :: "u64 \<times> u64 \<times> 'r option \<Rightarrow> 's \<Rightarrow> 's" where
  "exec c m = (case c of (p, s, Some r) \<Rightarrow> map_op p s r m | (p, s, None) \<Rightarrow> unmap_op p s m)"

definition admissible :: "u64 \<times> u64 \<times> 'r option \<Rightarrow> bool" where
  "admissible c = (case c of (p, s, ro) \<Rightarrow> fits p s \<and> (case ro of None \<Rightarrow> True | Some r \<Rightarrow> ok p s r))"

definition hits :: "u64 \<Rightarrow> u64 \<times> u64 \<times> 'r option \<Rightarrow> bool" where
  "hits a c = (case c of (p, s, _) \<Rightarrow> p \<le> a \<and> a < p + s)"

definition answer :: "u64 \<Rightarrow> u64 \<times> u64 \<times> 'r option \<Rightarrow> 'v option" where
  "answer a c = (case c of (p, s, ro) \<Rightarrow> map_option (\<lambda>r. attr p r a) ro)"

lemma exec_step: "invar m \<Longrightarrow> admissible c \<Longrightarrow>
    invar (exec c m) \<and> query (exec c m) a = (if hits a c then answer a c else query m a)"
  by (auto simp: exec_def admissible_def hits_def answer_def invar_map invar_unmap query_map query_unmap
      split: option.splits prod.splits)

lemma history:
  assumes "invar m" "list_all admissible cs"
  shows "invar (fold exec cs m) \<and> query (fold exec cs m) a =
    (case List.find (hits a) (rev cs) of Some c \<Rightarrow> answer a c | None \<Rightarrow> query m a)"
  using assms(2)
proof (induction cs rule: rev_induct)
  case (snoc c cs)
  then show ?case using exec_step by simp
qed (simp add: assms(1))

end

text \<open>A mapping request as the callers of \<open>VmMap\<close> make them.\<close>

datatype map_req = Plain Mprot u32 bool | Direct Mprot u32 u64

definition map_request :: "u64 \<Rightarrow> u64 \<Rightarrow> map_req \<Rightarrow> VmMap \<Rightarrow> VmMap" where
  "map_request p s r m = (case r of
     Plain prot sp rsv \<Rightarrow> Add p s prot sp rsv m | Direct prot sp phys \<Rightarrow> AddDirect p s prot sp phys m)"

definition req_ok :: "u64 \<Rightarrow> u64 \<Rightarrow> map_req \<Rightarrow> bool" where
  "req_ok p s r = (case r of Plain _ _ _ \<Rightarrow> True | Direct _ _ phys \<Rightarrow> fits phys s)"

definition req_attr :: "u64 \<Rightarrow> map_req \<Rightarrow> u64 \<Rightarrow> page_attr" where
  "req_attr p r a = (case r of Plain prot sp rsv \<Rightarrow> (prot, sp, None, rsv, None)
     | Direct prot sp phys \<Rightarrow> (prot, sp, None, False, Some (phys + (a - p))))"

lemmas req_defs = map_request_def req_ok_def req_attr_def

interpretation vm: address_space wf_map view map_request Remove req_ok req_attr
  by unfold_locales
    (auto simp: req_defs wf_map_Add wf_map_AddDirect wf_map_Remove view_Add view_AddDirect view_Remove
      split: map_req.splits)

section \<open>Properties\<close>

text \<open>One request of a history: \<open>Some r\<close> is \<open>Add\<close> or \<open>AddDirect\<close>, \<open>None\<close> is \<open>Remove\<close>.\<close>

definition vm_exec :: "u64 \<times> u64 \<times> map_req option \<Rightarrow> VmMap \<Rightarrow> VmMap" where
  "vm_exec c m = (case c of (p, s, Some r) \<Rightarrow> map_request p s r m | (p, s, None) \<Rightarrow> Remove p s m)"

definition vm_admissible :: "u64 \<times> u64 \<times> map_req option \<Rightarrow> bool" where
  "vm_admissible c = (case c of (p, s, ro) \<Rightarrow>
     fits p s \<and> (case ro of None \<Rightarrow> True | Some r \<Rightarrow> req_ok p s r))"

lemma vm_interface: "vm.exec = vm_exec" "vm.admissible = vm_admissible"
  by (auto simp: fun_eq_iff vm.exec_def vm_exec_def vm.admissible_def vm_admissible_def)

text \<open>
  C1: The interval bookkeeping refines a last-writer map. After any sequence of \<open>Add\<close>,
  \<open>AddDirect\<close> and \<open>Remove\<close> calls on ranges that do not wrap, the pages are still disjoint, and
  a query at an address reports exactly what the newest call covering that address says
  (attributes and physical byte of a mapping, nothing for an unmap), or what it reported before.
\<close>

theorem vm_map_history:
  assumes "wf_map m" "list_all vm_admissible cs"
  shows "wf_map (fold vm_exec cs m) \<and> view (fold vm_exec cs m) a =
    (case List.find (\<lambda>(p, s, _). p \<le> a \<and> a < p + s) (rev cs) of
       Some (p, s, ro) \<Rightarrow> map_option (\<lambda>r. req_attr p r a) ro | None \<Rightarrow> view m a)"
proof -
  have "vm.hits a = (\<lambda>(p, s, _). p \<le> a \<and> a < p + s)"
    by (auto simp: vm.hits_def fun_eq_iff)
  moreover have "vm.answer a = (\<lambda>(p, s, ro). map_option (\<lambda>r. req_attr p r a) ro)"
    by (auto simp: vm.answer_def fun_eq_iff)
  ultimately show ?thesis
    using vm.history [of m cs a] assms by (auto simp: vm_interface split: option.splits)
qed

definition ex_map :: VmMap where
  "ex_map = \<lparr>rt_pages = [(PageInfo_new 0x10000 0x8000 kRwx 7 False)\<lparr>pg_phys_offset := 0x4000, pg_has_phys := True\<rparr>,
                         PageInfo_new 0x20000 0x1000 kR 1 False],
             hook_installed = True, host_trace = []\<rparr>"

lemma ex_map_wf: "wf_map ex_map"
  by (simp add: ex_map_def wf_map_def wf_pages_def wf_page_def fits_def apart_def PageInfo_new_def)

lemma vm_map_history_witness:
  "view (fold vm_exec [(0x12000, 0x1000, None), (0x12800, 0x100, Some (Plain kRx 5 True))] ex_map) 0x12810 =
     Some (kRx, 5, None, True, None)"
proof -
  have "list_all vm_admissible [(0x12000, 0x1000, None), (0x12800, 0x100, Some (Plain kRx 5 True))]"
    by (simp add: vm_admissible_def fits_def req_ok_def)
  from vm_map_history [OF ex_map_wf this, of "0x12810"] show ?thesis
    by (simp add: req_attr_def)
qed

text \<open>
  C2: Releasing direct memory leaves no alias. After \<open>RemoveDirect phys size\<close> the map is still
  well-formed, exactly the guest addresses whose backing byte lies in \<open>[phys, phys + size)\<close>
  are unmapped, and every other address reports what it did before.
\<close>

theorem remove_direct_no_alias:
  assumes "wf_map m"
  shows "wf_map (RemoveDirect phys s m) \<and>
    view (RemoveDirect phys s m) a =
      (if \<exists>q. phys_at m a = Some q \<and> phys \<le> q \<and> q < phys + s then None else view m a)"
  by (rule RemoveDirect_spec [OF assms])

lemma remove_direct_no_alias_witness:
  "view (RemoveDirect 0x5000 0x1000 ex_map) 0x11000 = None \<and>
   view (RemoveDirect 0x5000 0x1000 ex_map) 0x10FFF = Some (kRwx, 7, None, False, Some 0x4FFF)"
proof -
  have "view ex_map 0x11000 = Some (kRwx, 7, None, False, Some 0x5000)"
    "view ex_map 0x10FFF = Some (kRwx, 7, None, False, Some 0x4FFF)"
    by (simp_all add: view_def Get_def ex_map_def PageInfo_new_def attr_at_def)
  then show ?thesis
    using remove_direct_no_alias [OF ex_map_wf, of "0x5000" "0x1000"] by (simp add: phys_at_def)
qed

text \<open>
  Changing the protection of a range updates every mapping that intersects it as a whole (the
  mapping is not split) and no other one: a query at any address reports the new protection
  exactly when the mapping that contains the address touches the range, with name, reservation
  and physical byte unchanged.
\<close>

theorem protect_range_view:
  assumes "wf_map m"
  shows "wf_map (ProtectRange p s prot sp m) \<and>
    view (ProtectRange p s prot sp m) a =
      (case Get a m of None \<Rightarrow> None
       | Some e \<Rightarrow> Some (if p < pg_end e \<and> pg_ptr e < p + s then (prot, sp, snd (snd (attr_at e a)))
                         else attr_at e a))"
  using wf_map_ProtectRange [OF assms] view_ProtectRange [OF assms]
  by (simp add: touches_def split: option.splits)

lemma protect_range_view_witness:
  "view (ProtectRange 0x17000 0x1000 kR 1 ex_map) 0x10000 = Some (kR, 1, None, False, Some 0x4000)"
  using protect_range_view [OF ex_map_wf, of "0x17000" "0x1000" kR 1 "0x10000"]
  by (simp add: Get_def ex_map_def PageInfo_new_def attr_at_def)

text \<open>
  \<open>IsGuestReservedVa\<close> is exact for ranges that do not wrap: it accepts a non-null, non-empty
  range if and only if every byte of it lies in one of the reserved ranges.
\<close>

theorem guest_reserved_exact:
  assumes "fits a len"
  shows "IsGuestReservedVa a len \<longleftrightarrow> a \<noteq> 0 \<and> len \<noteq> 0 \<and>
    (\<exists>(b, n) \<in> set kRanges. \<forall>x. a \<le> x \<and> x < a + len \<longrightarrow> b \<le> x \<and> x < b + n)"
proof -
  have "b \<le> a \<and> a + len \<le> b + n \<longleftrightarrow> (\<forall>x. a \<le> x \<and> x < a + len \<longrightarrow> b \<le> x \<and> x < b + n)"
    if "len \<noteq> 0" for b n
  proof
    assume all: "\<forall>x. a \<le> x \<and> x < a + len \<longrightarrow> b \<le> x \<and> x < b + n"
    have lt: "a < a + len" using assms that by (simp add: fits_def less_le)
    have "\<not> b + n < a + len"
    proof
      assume "b + n < a + len"
      then have "max a (b + n) < b + n" using all [rule_format, of "max a (b + n)"] lt by simp
      then show False by simp
    qed
    moreover have "b \<le> a" using all lt by blast
    ultimately show "b \<le> a \<and> a + len \<le> b + n" by simp
  qed auto
  then show ?thesis
    by (auto simp: IsGuestReservedVa_def list_ex_iff)
qed

lemma guest_reserved_exact_witness:
  "IsGuestReservedVa 0x200000000 0x4000000 \<and>
   (\<exists>(b, n) \<in> set kRanges. \<forall>x. 0x200000000 \<le> x \<and> x < 0x200000000 + 0x4000000 \<longrightarrow> b \<le> x \<and> x < b + n)"
proof -
  have "fits 0x200000000 0x4000000" by (simp add: fits_def)
  moreover have "IsGuestReservedVa 0x200000000 0x4000000" by (simp add: IsGuestReservedVa_def kRanges_def)
  ultimately show ?thesis using guest_reserved_exact [of "0x200000000" "0x4000000"] by blast
qed

text \<open>
  For a range that wraps the test accepts far too much: with the base of the internal-memory
  arena and a length of \<open>2^64 - 1\<close> the end address wraps below the base, the comparison
  succeeds, and a range that leaves the 64 MiB arena is reported as reserved.
\<close>

theorem guest_reserved_wraps:
  "IsGuestReservedVa 0x200000000 0xFFFFFFFFFFFFFFFF \<and> \<not> fits 0x200000000 0xFFFFFFFFFFFFFFFF"
  by (simp add: IsGuestReservedVa_def kRanges_def fits_def)

end
