(* ===== verification/Dmem.thy ===== *)
theory Dmem
  imports Vm_Map
begin

text \<open>
  The direct ("physical") memory allocator of \<open>delta/kern/ps4/dev/dma_dev.cc\<close>: the reservation
  list, allocation, release, the largest-hole query and the ioctls of \<open>/dev/dmem\<close>.

  Offsets are 64-bit words and every sum wraps as in the code. \<open>pool\<close> is \<open>DmemTotal()\<close>, which
  depends on an option and the platform. A release also unmaps the guest addresses backed by the
  range, through the address space of the process; the device is called by guest threads, so a
  process is active.
\<close>

section \<open>Data\<close>

record DmemRegion =
  dm_start :: u64
  dm_end :: u64
  dm_type :: u32

record dmem =
  dm_regions :: "DmemRegion list"
  dm_vma :: VmMap

definition kDmemTotal :: u64 where "kDmemTotal = 0x300000000"
definition kDmemTotalPs5 :: u64 where "kDmemTotalPs5 = 0x320000000"
definition kDmemBase :: u64 where "kDmemBase = 0x10000000"

text \<open>\<open>override\<close> is the option \<open>DELTA_DMEM_TOTAL\<close>, \<open>ps5\<close> whether a PS5 process is active.\<close>

definition DmemTotal :: "u64 \<Rightarrow> bool \<Rightarrow> u64" where
  "DmemTotal override ps5 = (if override \<noteq> 0 then override else if ps5 then kDmemTotalPs5 else kDmemTotal)"

section \<open>Allocation\<close>

definition align_up :: "u64 \<Rightarrow> u64 \<Rightarrow> u64" where
  "align_up align x = (x + align - 1) AND NOT (align - 1)"

definition align_down :: "u64 \<Rightarrow> u64 \<Rightarrow> u64" where
  "align_down align x = x AND NOT (align - 1)"

text \<open>The search for the first hole at or above \<open>cand\<close>.\<close>

fun first_fit :: "u64 \<Rightarrow> u64 \<Rightarrow> u64 \<Rightarrow> DmemRegion list \<Rightarrow> u64" where
  "first_fit align len cand [] = cand"
| "first_fit align len cand (r # rs) =
     (if dm_end r \<le> cand then first_fit align len cand rs
      else if cand + len \<le> dm_start r then cand
      else first_fit align len (align_up align (if cand < dm_end r then dm_end r else cand)) rs)"

text \<open>The search for the highest hole, over the reversed list; \<open>Inl\<close> is the final \<open>top\<close>.\<close>

fun top_fit :: "u64 \<Rightarrow> u64 \<Rightarrow> u64 \<Rightarrow> DmemRegion list \<Rightarrow> u64 + u64" where
  "top_fit align len tp [] = Inl tp"
| "top_fit align len tp (r # rs) =
     (if tp \<le> dm_start r then top_fit align len (dm_start r) rs
      else let b = align_down align (tp - len)
           in if len \<le> tp \<and> dm_end r \<le> b \<and> kDmemBase \<le> b then Inr b
              else top_fit align len (dm_start r) rs)"

fun insert_region :: "DmemRegion \<Rightarrow> DmemRegion list \<Rightarrow> DmemRegion list" where
  "insert_region x [] = [x]"
| "insert_region x (r # rs) = (if dm_start r < dm_start x then r # insert_region x rs else x # r # rs)"

definition place :: "u64 \<Rightarrow> u64 \<Rightarrow> u32 \<Rightarrow> DmemRegion list \<Rightarrow> int \<times> u64 option \<times> DmemRegion list" where
  "place cand len mem_type rs =
     (0, Some cand, insert_region \<lparr>dm_start = cand, dm_end = cand + len, dm_type = mem_type\<rparr> rs)"

definition window_hi :: "u64 \<Rightarrow> u64 \<Rightarrow> u64" where
  "window_hi pool hi = (if hi = 0 \<or> pool < hi then pool else hi)"

definition windowed :: "u64 \<Rightarrow> u64 \<Rightarrow> u64 \<Rightarrow> bool" where
  "windowed pool lo hi \<longleftrightarrow> lo \<noteq> 0 \<or> (hi \<noteq> 0 \<and> hi < pool)"

definition bad_request :: "u64 \<Rightarrow> u64 \<Rightarrow> u64 \<Rightarrow> u64 \<Rightarrow> bool" where
  "bad_request lo hi len align \<longleftrightarrow> len = 0 \<or> align = 0 \<or> align AND (align - 1) \<noteq> 0 \<or> hi \<le> lo"

definition DmemAllocate ::
  "u64 \<Rightarrow> u64 \<Rightarrow> u64 \<Rightarrow> u64 \<Rightarrow> u64 \<Rightarrow> u32 \<Rightarrow> DmemRegion list \<Rightarrow> int \<times> u64 option \<times> DmemRegion list" where
  "DmemAllocate pool lo hi0 len align mem_type rs =
     (let hi = window_hi pool hi0
      in if bad_request lo hi len align then (- 22, None, rs)
         else if windowed pool lo hi0 then
           let cand = first_fit align len (align_up align lo) rs
           in if hi < cand + len then (- 12, None, rs) else place cand len mem_type rs
         else
           let cand = first_fit align len (align_up align kDmemBase) rs
           in if cand + len \<le> hi then place cand len mem_type rs
              else case top_fit align len hi (rev rs) of
                     Inr c \<Rightarrow> place c len mem_type rs
                   | Inl tp \<Rightarrow>
                       let b = align_down align (tp - len)
                       in if tp < len \<or> b < kDmemBase then (- 12, None, rs)
                          else place b len mem_type rs)"

section \<open>Release and queries\<close>

fun free_regions :: "u64 \<Rightarrow> u64 \<Rightarrow> DmemRegion list \<Rightarrow> DmemRegion list" where
  "free_regions s e [] = []"
| "free_regions s e (r # rs) =
     (if dm_end r \<le> s \<or> e \<le> dm_start r then r # free_regions s e rs
      else if dm_start r < s \<and> e < dm_end r
      then r\<lparr>dm_end := s\<rparr> # \<lparr>dm_start = e, dm_end = dm_end r, dm_type = dm_type r\<rparr> # rs
      else if dm_start r < s then r\<lparr>dm_end := s\<rparr> # free_regions s e rs
      else if e < dm_end r then r\<lparr>dm_start := e\<rparr> # free_regions s e rs
      else free_regions s e rs)"

definition DmemFree :: "u64 \<Rightarrow> u64 \<Rightarrow> dmem \<Rightarrow> dmem" where
  "DmemFree start len d = d\<lparr>dm_vma := RemoveDirect start len (dm_vma d),
     dm_regions := free_regions start (start + len) (dm_regions d)\<rparr>"

text \<open>\<open>consider\<close> keeps the best hole seen, as base and size.\<close>

definition consider_hole :: "u64 \<Rightarrow> u64 \<Rightarrow> u64 \<times> u64 \<Rightarrow> u64 \<times> u64" where
  "consider_hole cur e best = (if cur < e \<and> snd best < e - cur then (cur, e - cur) else best)"

fun hole_loop :: "u64 \<Rightarrow> u64 \<Rightarrow> u64 \<Rightarrow> u64 \<times> u64 \<Rightarrow> DmemRegion list \<Rightarrow> u64 \<times> u64" where
  "hole_loop align hi cur best [] = consider_hole cur hi best"
| "hole_loop align hi cur best (r # rs) =
     (if dm_end r \<le> cur then hole_loop align hi cur best rs
      else if hi \<le> dm_start r then consider_hole cur hi best
      else hole_loop align hi (align_up align (if cur < dm_end r then dm_end r else cur))
             (consider_hole cur (if dm_start r < hi then dm_start r else hi) best) rs)"

definition DmemLargestHole :: "u64 \<Rightarrow> u64 \<Rightarrow> u64 \<Rightarrow> u64 \<Rightarrow> DmemRegion list \<Rightarrow> u64 \<times> u64" where
  "DmemLargestHole pool lo hi align0 rs =
     (let align = (if align0 = 0 then 0x4000 else align0)
      in hole_loop align (window_hi pool hi) (align_up align (if lo = 0 then kDmemBase else lo)) (0, 0) rs)"

definition owner :: "u64 \<Rightarrow> DmemRegion list \<Rightarrow> DmemRegion option" where
  "owner off rs = find (\<lambda>r. dm_start r \<le> off \<and> off < dm_end r) rs"

definition DmemTypeForOffset :: "u64 \<Rightarrow> DmemRegion list \<Rightarrow> int" where
  "DmemTypeForOffset off rs = (case owner off rs of None \<Rightarrow> - 1 | Some r \<Rightarrow> sint (dm_type r))"

section \<open>The ioctls\<close>

text \<open>
  \<open>data\<close> is the argument block as 64-bit words, \<open>None\<close> the null pointer. The result is \<open>None\<close> when
  the code dereferences null, else the status, the block and the new state.
\<close>

definition alloc_ioctl :: "u64 \<Rightarrow> u64 \<Rightarrow> u64 \<Rightarrow> u64 list \<Rightarrow> dmem \<Rightarrow> int \<times> u64 list \<times> dmem" where
  "alloc_ioctl pool lo hi a d =
     (let len = a ! 2; align = (if a ! 3 \<noteq> 0 then a ! 3 else 0x4000)
      in if len = 0 then (- 1, a, d)
         else case DmemAllocate pool lo hi len align (ucast (a ! 4)) (dm_regions d) of
                (r, Some off, rs) \<Rightarrow> (0, a[0 := off], d\<lparr>dm_regions := rs\<rparr>)
              | (r, None, rs) \<Rightarrow> (r, a, d))"

definition IoctlImpl :: "u64 \<Rightarrow> u32 \<Rightarrow> u64 list option \<Rightarrow> dmem \<Rightarrow> (int \<times> u64 list option \<times> dmem) option" where
  "IoctlImpl pool cmd data d =
     (if cmd = 0x4008800A then
        (case data of None \<Rightarrow> None | Some a \<Rightarrow> Some (0, Some (a[0 := pool]), d))
      else if cmd \<in> {0xC0288001, 0xC0288011, 0xC0208016, 0xC0208004, 0x80108002} then
        (case data of None \<Rightarrow> Some (- 1, None, d)
         | Some a \<Rightarrow>
             Some (if cmd = 0xC0288001 then
                     (case alloc_ioctl pool (a ! 0) (a ! 1) a d of (r, a', d') \<Rightarrow> (r, Some a', d'))
                   else if cmd = 0xC0288011 then
                     (case alloc_ioctl pool 0 pool a d of (r, a', d') \<Rightarrow> (r, Some a', d'))
                   else if cmd = 0xC0208016 then
                     (case DmemLargestHole pool (a ! 0) (a ! 1) (a ! 2) (dm_regions d) of
                        (b, sz) \<Rightarrow> (0, Some (a[0 := b, 3 := sz]), d))
                   else if cmd = 0xC0208004 then
                     (let phys = a ! 0; page = phys AND NOT 0xFFFF
                      in case owner phys (dm_regions d) of
                           Some r \<Rightarrow> (0, Some (a[1 := dm_start r, 2 := dm_end r, 3 := ucast (dm_type r)]), d)
                         | None \<Rightarrow> (0, Some (a[1 := page, 2 := page + 0x10000, 3 := 3]), d))
                   else (0, Some a, if a ! 1 \<noteq> 0 then DmemFree (a ! 0) (a ! 1) d else d)))
      else Some (0, data, d))"

text \<open>The session reset; the backing descriptor is a host resource.\<close>

definition dmem_session_reset :: "dmem \<Rightarrow> dmem" where
  "dmem_session_reset d = d\<lparr>dm_regions := []\<rparr>"

section \<open>Alignment\<close>

lemma and_div_2: "((m :: nat) AND n) div 2 = (m div 2) AND (n div 2)"
  using drop_bit_and[of 1 m n] by (simp add: drop_bit_eq_div)

lemma unat_64: "unat (x :: u64) < 2 ^ 64"
  using unsigned_less[of x, where 'a = nat] by simp

lemma pow2_nat: "\<lbrakk>(m :: nat) AND (m - 1) = 0; m \<noteq> 0\<rbrakk> \<Longrightarrow> \<exists>k. m = 2 ^ k"
proof (induction m rule: less_induct)
  case (less m)
  show ?case
  proof (cases "even m")
    case True
    then obtain m' where m: "m = 2 * m'" "m' \<noteq> 0" using less.prems(2) by (auto elim: evenE)
    then have "m - 1 = 1 + 2 * (m' - 1)" by simp
    then have "(m AND (m - 1)) div 2 = m' AND (m' - 1)" using m and_div_2[of m "m - 1"] by simp
    then have "m' AND (m' - 1) = 0" using less.prems(1) by simp
    then obtain k where "m' = 2 ^ k" using less.IH[of m'] m by auto
    then show ?thesis using m(1) by (intro exI[of _ "Suc k"]) simp
  next
    case False
    then obtain m' where m: "m = 2 * m' + 1" by (auto elim: oddE)
    then have "(m AND (m - 1)) div 2 = m'" using and_div_2[of m "m - 1"] by simp
    then have "m' = 0" using less.prems(1) by simp
    with m show ?thesis by (intro exI[of _ 0]) simp
  qed
qed

lemma pow2_word:
  assumes "(a :: u64) \<noteq> 0" and "a AND (a - 1) = 0"
  obtains k where "unat a = 2 ^ k" "k < 64" "a - 1 = mask k"
proof -
  have u: "unat (a - 1) = unat a - 1" using assms(1) by (simp add: unat_minus_one)
  have "unat a AND (unat a - 1) = unat (a AND (a - 1))" by (simp only: unsigned_and_eq u)
  then have "unat a AND (unat a - 1) = 0" using assms(2) by simp
  then obtain k where k: "unat a = 2 ^ k"
    using pow2_nat[of "unat a"] assms(1) by (auto simp: unat_eq_zero)
  have "(2::nat) ^ k < 2 ^ 64" using unat_64[of a] unfolding k .
  then have "k < 64" by (rule power_less_imp_less_exp[rotated]) simp
  moreover have "a = word_of_nat (unat a)" by simp
  then have "a - 1 = mask k" unfolding k by (simp add: mask_eq_exp_minus_1)
  ultimately show ?thesis using that k by blast
qed

definition rup :: "nat \<Rightarrow> nat \<Rightarrow> nat" where
  "rup p n = (n + p - 1) div p * p"

lemma rup_facts:
  assumes "0 < p"
  shows "n \<le> rup p n" "rup p n < n + p" "p dvd rup p n" "\<lbrakk>p dvd y; n \<le> y\<rbrakk> \<Longrightarrow> rup p n \<le> y"
proof -
  have m: "(n + p - 1) div p * p + (n + p - 1) mod p = n + p - 1" by simp
  moreover have "(n + p - 1) mod p < p" using assms by simp
  ultimately show le: "n \<le> rup p n" and lt: "rup p n < n + p" using assms unfolding rup_def by linarith+
  show dv: "p dvd rup p n" by (simp add: rup_def)
  show "rup p n \<le> y" if y: "p dvd y" "n \<le> y"
  proof (rule ccontr)
    assume "\<not> rup p n \<le> y"
    then obtain d where d: "y + d = rup p n" "0 < d" using less_imp_add_positive[of y "rup p n"] by auto
    then have "p dvd d" using dv y(1) by (metis dvd_add_right_iff)
    then have "p \<le> d" using d(2) by (simp add: dvd_imp_le)
    then show False using d lt y(2) by linarith
  qed
qed

lemma and_not_mask_nat: "k < 64 \<Longrightarrow> unat ((x :: u64) AND NOT (mask k)) = unat x div 2 ^ k * 2 ^ k"
proof -
  assume "k < 64"
  have "x AND NOT (mask k) = push_bit k (drop_bit k x)"
    by (rule bit_word_eqI) (auto simp: bit_simps)
  moreover have "unat x div 2 ^ k * 2 ^ k < 2 ^ 64"
    using unat_64[of x] by (metis div_times_less_eq_dividend order_le_less_trans)
  ultimately show ?thesis
    by (simp only: unsigned_push_bit_eq unat_drop_bit_eq)
      (simp add: push_bit_eq_mult drop_bit_eq_div take_bit_nat_eq_self)
qed

lemma align_up_nat:
  assumes "unat a = 2 ^ k" "k < 64" "a - 1 = mask k" "unat x + 2 ^ k < 2 ^ 64"
  shows "unat (align_up a x) = rup (2 ^ k) (unat x)"
proof -
  have "0 < unat a" using assms(1) by simp
  have "unat (x + a - 1) = unat x + 2 ^ k - 1"
  proof -
    have "unat (x + a) = unat x + 2 ^ k" using assms(1,4) by (simp add: unat_word_ariths)
    moreover from this have "x + a \<noteq> 0" using \<open>0 < unat a\<close> assms(1) by (metis add_is_0 less_numeral_extra(3) unat_0)
    ultimately show ?thesis by (simp add: unat_minus_one)
  qed
  then show ?thesis
    using and_not_mask_nat[OF assms(2)] by (simp add: align_up_def assms(3) rup_def)
qed

lemma align_down_nat:
  assumes "unat a = 2 ^ k" "k < 64" "a - 1 = mask k"
  shows "unat (align_down a x) \<le> unat x" "2 ^ k dvd unat (align_down a x)"
  using and_not_mask_nat[OF assms(2)] by (simp_all add: align_down_def assms(3))

section \<open>The reservation list\<close>

abbreviation S :: "DmemRegion \<Rightarrow> nat" where "S r \<equiv> unat (dm_start r)"
abbreviation E :: "DmemRegion \<Rightarrow> nat" where "E r \<equiv> unat (dm_end r)"

text \<open>Non-empty reservations below \<open>T\<close>, in order and disjoint.\<close>

definition wf_regions :: "nat \<Rightarrow> DmemRegion list \<Rightarrow> bool" where
  "wf_regions T rs \<longleftrightarrow> sorted_wrt (\<lambda>a b. E a \<le> S b) rs \<and> (\<forall>r\<in>set rs. S r < E r \<and> E r \<le> T)"

definition vacant :: "nat \<Rightarrow> nat \<Rightarrow> DmemRegion list \<Rightarrow> bool" where
  "vacant x n rs \<longleftrightarrow> (\<forall>r\<in>set rs. x + n \<le> S r \<or> E r \<le> x)"

lemma wf_regions_Cons [simp]: "wf_regions T (r # rs) \<longleftrightarrow>
    S r < E r \<and> E r \<le> T \<and> (\<forall>r'\<in>set rs. E r \<le> S r') \<and> wf_regions T rs"
  by (auto simp: wf_regions_def)

lemma wf_regions_Nil [simp]: "wf_regions T []"
  by (simp add: wf_regions_def)

lemma wf_regionsD: "\<lbrakk>wf_regions T rs; r \<in> set rs\<rbrakk> \<Longrightarrow> S r < E r \<and> E r \<le> T"
  by (simp add: wf_regions_def)

lemma vacant_simps [simp]: "vacant x n []"
    "vacant x n (r # rs) \<longleftrightarrow> (x + n \<le> S r \<or> E r \<le> x) \<and> vacant x n rs"
  by (auto simp: vacant_def)

lemma first_fit_spec:
  assumes al: "unat a = 2 ^ k" "k < 64" "a - 1 = mask k"
    and room: "T + 2 ^ k + 2 ^ k + unat len < 2 ^ 64"
  shows "\<lbrakk>wf_regions T rs; 2 ^ k dvd unat cand; unat cand \<le> T + 2 ^ k\<rbrakk> \<Longrightarrow>
    unat cand \<le> unat (first_fit a len cand rs) \<and> unat (first_fit a len cand rs) \<le> T + 2 ^ k \<and>
    2 ^ k dvd unat (first_fit a len cand rs) \<and> vacant (unat (first_fit a len cand rs)) (unat len) rs \<and>
    (\<forall>y. 2 ^ k dvd y \<and> unat cand \<le> y \<and> vacant y (unat len) rs \<longrightarrow> unat (first_fit a len cand rs) \<le> y)"
proof (induction rs arbitrary: cand)
  case Nil
  then show ?case by simp
next
  case (Cons r rs)
  have r: "S r < E r" "E r \<le> T" "\<forall>r'\<in>set rs. E r \<le> S r'" "wf_regions T rs" using Cons.prems(1) by auto
  have sum: "unat (cand + len) = unat cand + unat len"
    using Cons.prems(3) room by (simp add: unat_word_ariths)
  consider (skip) "E r \<le> unat cand" | (fit) "unat cand < E r" "unat cand + unat len \<le> S r"
    | (step) "unat cand < E r" "\<not> unat cand + unat len \<le> S r" by linarith
  then show ?case
  proof cases
    case skip
    then have "first_fit a len cand (r # rs) = first_fit a len cand rs" by (simp add: word_le_nat_alt)
    then show ?thesis using Cons.IH[OF r(4) Cons.prems(2,3)] skip by auto
  next
    case fit
    then have eq: "first_fit a len cand (r # rs) = cand"
      using sum by (simp add: word_le_nat_alt)
    have "vacant (unat cand) (unat len) rs"
      unfolding vacant_def
    proof
      fix r' assume "r' \<in> set rs"
      then have "E r \<le> S r'" using r(3) by blast
      then show "unat cand + unat len \<le> S r' \<or> E r' \<le> unat cand" using r(1) fit(2) by linarith
    qed
    then show ?thesis using eq fit Cons.prems by simp
  next
    case step
    let ?c = "align_up a (dm_end r)"
    have eq: "first_fit a len cand (r # rs) = first_fit a len ?c rs"
      using step sum by (simp add: word_le_nat_alt word_less_nat_alt)
    have c: "unat ?c = rup (2 ^ k) (E r)" using align_up_nat[OF al] r(2) room by simp
    have f: "E r \<le> unat ?c" "unat ?c < E r + 2 ^ k" "2 ^ k dvd unat ?c"
        "\<And>y. \<lbrakk>2 ^ k dvd y; E r \<le> y\<rbrakk> \<Longrightarrow> unat ?c \<le> y"
      unfolding c using rup_facts[where p="2 ^ k" and n="E r"] by simp_all
    have "unat ?c \<le> T + 2 ^ k" using f(2) r(2) by simp
    note IH = Cons.IH[OF r(4) f(3) this]
    have min: "unat ?c \<le> y" if "2 ^ k dvd y" "unat cand \<le> y" "vacant y (unat len) (r # rs)" for y
      using f(4)[OF that(1)] that step by auto
    let ?f = "first_fit a len ?c rs"
    have v: "vacant (unat ?f) (unat len) (r # rs)" using IH f(1) by simp
    have "unat ?f \<le> y" if "2 ^ k dvd y" "unat cand \<le> y" "vacant y (unat len) (r # rs)" for y
      using IH min[OF that] that by simp
    moreover have "unat cand \<le> unat ?f" using IH f(1) step(1) by linarith
    ultimately show ?thesis unfolding eq using IH v by blast
  qed
qed

lemma top_fit_spec:
  assumes al: "unat a = 2 ^ k" "k < 64" "a - 1 = mask k"
  shows "\<lbrakk>sorted_wrt (\<lambda>x y. E y \<le> S x) rs; \<forall>r\<in>set rs. S r < E r \<and> E r \<le> unat tp\<rbrakk> \<Longrightarrow>
    (case top_fit a len tp rs of
       Inr b \<Rightarrow> vacant (unat b) (unat len) rs \<and> unat b + unat len \<le> unat tp \<and>
         2 ^ k dvd unat b \<and> unat kDmemBase \<le> unat b
     | Inl t \<Rightarrow> unat t \<le> unat tp \<and> (\<forall>r\<in>set rs. unat t \<le> S r))"
proof (induction rs arbitrary: tp)
  case (Cons r rs)
  have r: "S r < E r" "E r \<le> unat tp" "\<forall>r'\<in>set rs. E r' \<le> S r" using Cons.prems by auto
  have IH: "case top_fit a len (dm_start r) rs of
       Inr b \<Rightarrow> vacant (unat b) (unat len) rs \<and> unat b + unat len \<le> S r \<and>
         2 ^ k dvd unat b \<and> unat kDmemBase \<le> unat b
     | Inl t \<Rightarrow> unat t \<le> S r \<and> (\<forall>r\<in>set rs. unat t \<le> S r)"
    using Cons.prems by (intro Cons.IH) auto
  let ?b = "align_down a (tp - len)"
  show ?case
  proof (cases "len \<le> tp \<and> dm_end r \<le> ?b \<and> kDmemBase \<le> ?b")
    case True
    then have "top_fit a len tp (r # rs) = Inr ?b"
      using r by (simp add: Let_def word_le_nat_alt)
    moreover have "unat ?b \<le> unat tp - unat len"
      using align_down_nat(1)[OF al, of "tp - len"] True by (simp add: unat_diff_le)
    moreover have "unat len \<le> unat tp" "E r \<le> unat ?b" using True by (simp_all add: word_le_nat_alt)
    moreover have "vacant (unat ?b) (unat len) rs"
      unfolding vacant_def
    proof
      fix r' assume "r' \<in> set rs"
      then have "E r' \<le> S r" using r(3) by blast
      then show "unat ?b + unat len \<le> S r' \<or> E r' \<le> unat ?b" using r(1) \<open>E r \<le> unat ?b\<close> by linarith
    qed
    ultimately show ?thesis
      using True align_down_nat(2)[OF al] by (simp add: word_le_nat_alt)
  next
    case False
    then have eq: "top_fit a len tp (r # rs) = top_fit a len (dm_start r) rs" by (auto simp: Let_def)
    show ?thesis
      using IH r unfolding eq by (auto split: sum.splits)
  qed
qed simp

lemma insert_region_set [simp]: "set (insert_region x rs) = insert x (set rs)"
  by (induction rs) auto

lemma wf_regions_mono: "\<lbrakk>wf_regions T rs; T \<le> T'\<rbrakk> \<Longrightarrow> wf_regions T' rs"
  by (auto simp: wf_regions_def)

lemma insert_region_wf:
  "\<lbrakk>wf_regions T rs; vacant (S x) n rs; E x = S x + n; 0 < n; E x \<le> T\<rbrakk> \<Longrightarrow>
    wf_regions T (insert_region x rs)"
proof (induction rs)
  case (Cons r rs)
  show ?case
  proof (cases "dm_start r < dm_start x")
    case True
    then have "E r \<le> S x" using Cons.prems by (auto simp: word_less_nat_alt)
    then show ?thesis using Cons True by simp
  next
    case False
    then have "E x \<le> S r" using Cons.prems by (auto simp: word_less_nat_alt)
    then show ?thesis using Cons.prems False by fastforce
  qed
qed simp

lemma owner_iff:
  "wf_regions T rs \<Longrightarrow> owner p rs = Some r \<longleftrightarrow> r \<in> set rs \<and> S r \<le> unat p \<and> unat p < E r"
proof (induction rs)
  case (Cons r' rs)
  have "\<not> unat p < E r'" if "r \<in> set rs" "S r \<le> unat p" using Cons.prems that by fastforce
  then show ?case using Cons by (auto simp: owner_def word_le_nat_alt word_less_nat_alt)
qed (simp add: owner_def)

lemma owner_None: "owner p rs = None \<longleftrightarrow> (\<forall>r\<in>set rs. \<not> (S r \<le> unat p \<and> unat p < E r))"
  by (simp add: owner_def find_None_iff word_le_nat_alt word_less_nat_alt) blast

lemma owner_insert:
  assumes "wf_regions T rs" "vacant (S x) n rs" "E x = S x + n" "0 < n" "E x \<le> T"
  shows "owner p (insert_region x rs) = (if dm_start x \<le> p \<and> p < dm_end x then Some x else owner p rs)"
proof -
  have wf: "wf_regions T (insert_region x rs)" by (rule insert_region_wf[OF assms])
  show ?thesis
  proof (cases "dm_start x \<le> p \<and> p < dm_end x")
    case True
    then show ?thesis using owner_iff[OF wf, of p x] by (simp add: word_le_nat_alt word_less_nat_alt)
  next
    case False
    then have "owner p (insert_region x rs) = Some r \<longleftrightarrow> owner p rs = Some r" for r
      by (auto simp: owner_iff[OF wf] owner_iff[OF assms(1)] word_le_nat_alt word_less_nat_alt)
    then have "owner p (insert_region x rs) = owner p rs" by (metis not_None_eq)
    then show ?thesis using False by auto
  qed
qed

section \<open>Allocation\<close>

text \<open>The lowest offset a request may get, and the offsets that satisfy it.\<close>

definition floor_of :: "u64 \<Rightarrow> u64 \<Rightarrow> u64 \<Rightarrow> nat" where
  "floor_of pool lo hi = (if windowed pool lo hi then unat lo else unat kDmemBase)"

definition serves :: "u64 \<Rightarrow> u64 \<Rightarrow> u64 \<Rightarrow> u64 \<Rightarrow> u64 \<Rightarrow> DmemRegion list \<Rightarrow> nat \<Rightarrow> bool" where
  "serves pool lo hi len align rs y \<longleftrightarrow> unat align dvd y \<and> floor_of pool lo hi \<le> y \<and>
     y + unat len \<le> unat (window_hi pool hi) \<and> vacant y (unat len) rs"

lemma serves_simps:
  "windowed pool lo hi \<Longrightarrow> serves pool lo hi len align rs y \<longleftrightarrow> unat align dvd y \<and> unat lo \<le> y \<and>
     y + unat len \<le> unat (window_hi pool hi) \<and> vacant y (unat len) rs"
  "\<not> windowed pool lo hi \<Longrightarrow> serves pool lo hi len align rs y \<longleftrightarrow> unat align dvd y \<and> unat kDmemBase \<le> y \<and>
     y + unat len \<le> unat (window_hi pool hi) \<and> vacant y (unat len) rs"
  by (simp_all add: serves_def floor_of_def)

lemma window_hi_le: "unat (window_hi pool hi) \<le> unat pool"
  by (simp add: window_hi_def word_less_nat_alt)

text \<open>Searching from the aligned floor \<open>b\<close>.\<close>

lemma first_fit_from:
  assumes al: "align \<noteq> 0" "align AND (align - 1) = 0"
    and wf: "wf_regions (unat pool) rs"
    and room: "unat pool + unat kDmemBase + 2 * unat align + unat len < 2 ^ 64"
    and b: "unat b \<le> unat pool + unat kDmemBase"
  defines "c \<equiv> first_fit align len (align_up align b) rs"
  shows "unat align dvd unat c \<and> unat b \<le> unat c \<and> vacant (unat c) (unat len) rs \<and>
    unat (c + len) = unat c + unat len \<and>
    (\<forall>y. unat align dvd y \<and> unat b \<le> y \<and> vacant y (unat len) rs \<longrightarrow> unat c \<le> y)"
proof -
  obtain k where k: "unat align = 2 ^ k" "k < 64" "align - 1 = mask k" using pow2_word[OF al] .
  let ?T = "unat pool + unat kDmemBase"
  have up: "unat (align_up align b) = rup (2 ^ k) (unat b)"
    using align_up_nat[OF k] b room k(1) by simp
  have r: "unat b \<le> unat (align_up align b)" "unat (align_up align b) < unat b + 2 ^ k"
      "2 ^ k dvd unat (align_up align b)"
      "\<And>y. \<lbrakk>2 ^ k dvd y; unat b \<le> y\<rbrakk> \<Longrightarrow> unat (align_up align b) \<le> y"
    unfolding up using rup_facts[where p="2 ^ k" and n="unat b"] by simp_all
  have "wf_regions ?T rs" using wf by (rule wf_regions_mono) simp
  moreover have "?T + 2 ^ k + 2 ^ k + unat len < 2 ^ 64" using room k(1) by simp
  ultimately have s: "unat (align_up align b) \<le> unat c \<and> unat c \<le> ?T + 2 ^ k \<and> 2 ^ k dvd unat c \<and>
      vacant (unat c) (unat len) rs \<and>
      (\<forall>y. 2 ^ k dvd y \<and> unat (align_up align b) \<le> y \<and> vacant y (unat len) rs \<longrightarrow> unat c \<le> y)"
    unfolding c_def using first_fit_spec[OF k, of ?T len rs "align_up align b"] r b by simp
  moreover have "unat (c + len) = unat c + unat len"
    using s room k(1) by (simp add: unat_word_ariths)
  ultimately show ?thesis unfolding k(1) using r(1,4) by (meson order_trans)
qed

lemma top_fit_dead:
  assumes al: "align \<noteq> 0" "align AND (align - 1) = 0" and wf: "wf_regions (unat tp) rs"
    and none: "\<not> (\<exists>y. unat align dvd y \<and> unat kDmemBase \<le> y \<and> y + unat len \<le> unat tp \<and> vacant y (unat len) rs)"
  shows "\<exists>t. top_fit align len tp (rev rs) = Inl t \<and> (t < len \<or> align_down align (t - len) < kDmemBase)"
proof -
  obtain k where k: "unat align = 2 ^ k" "k < 64" "align - 1 = mask k" using pow2_word[OF al] .
  have v: "vacant x n (rev rs) = vacant x n rs" for x n by (simp add: vacant_def)
  have spec: "case top_fit align len tp (rev rs) of
       Inr b \<Rightarrow> vacant (unat b) (unat len) rs \<and> unat b + unat len \<le> unat tp \<and>
         2 ^ k dvd unat b \<and> unat kDmemBase \<le> unat b
     | Inl t \<Rightarrow> unat t \<le> unat tp \<and> (\<forall>r\<in>set rs. unat t \<le> S r)"
    using top_fit_spec[OF k, of "rev rs" tp len] wf
    by (simp add: wf_regions_def sorted_wrt_rev v split: sum.splits)
  then obtain t where t: "top_fit align len tp (rev rs) = Inl t" "unat t \<le> unat tp"
      "\<forall>r\<in>set rs. unat t \<le> S r"
    using none k(1) by (auto split: sum.splits)
  have False if "len \<le> t" "kDmemBase \<le> align_down align (t - len)"
  proof -
    let ?b = "unat (align_down align (t - len))"
    have "?b + unat len \<le> unat t"
      using align_down_nat(1)[OF k, of "t - len"] that(1)
      by (simp add: unat_diff_le word_le_nat_alt)
    moreover from this have "vacant ?b (unat len) rs"
      unfolding vacant_def using t(3) by (meson order_trans)
    moreover have "unat align dvd ?b" using align_down_nat(2)[OF k] by (simp add: k(1))
    moreover have "unat kDmemBase \<le> ?b" using that(2) by (simp add: word_le_nat_alt)
    ultimately show False using none t(2) by (meson order_trans)
  qed
  then show ?thesis using t(1) by force
qed

lemma place_ok:
  assumes wf: "wf_regions (unat pool) rs" and fit: "serves pool lo hi len align rs (unat c)"
    and sum: "unat (c + len) = unat c + unat len" and "len \<noteq> 0"
  shows "\<exists>rs'. place c len t rs = (0, Some c, rs') \<and> wf_regions (unat pool) rs' \<and>
    (\<forall>p. owner p rs' = (if c \<le> p \<and> p < c + len
        then Some \<lparr>dm_start = c, dm_end = c + len, dm_type = t\<rparr> else owner p rs))"
proof -
  let ?x = "\<lparr>dm_start = c, dm_end = c + len, dm_type = t\<rparr> :: DmemRegion"
  have x: "vacant (S ?x) (unat len) rs" "E ?x = S ?x + unat len" "0 < unat len" "E ?x \<le> unat pool"
    using fit sum assms(4) window_hi_le[of pool hi] by (auto simp: serves_def unat_gt_0)
  show ?thesis using insert_region_wf[OF wf x] owner_insert[OF wf x] by (simp add: place_def)
qed

lemma DmemAllocate_spec:
  assumes wf: "wf_regions (unat pool) rs"
    and room: "unat pool + unat kDmemBase + 2 * unat align + unat len < 2 ^ 64"
    and ok: "\<not> bad_request lo (window_hi pool hi) len align"
  shows "(\<exists>c rs'. DmemAllocate pool lo hi len align t rs = (0, Some c, rs') \<and>
      serves pool lo hi len align rs (unat c) \<and> wf_regions (unat pool) rs' \<and>
      (\<forall>p. owner p rs' = (if c \<le> p \<and> p < c + len
        then Some \<lparr>dm_start = c, dm_end = c + len, dm_type = t\<rparr> else owner p rs))) \<or>
    DmemAllocate pool lo hi len align t rs = (- 12, None, rs) \<and>
      \<not> (\<exists>y. serves pool lo hi len align rs y)"
proof -
  let ?hi = "window_hi pool hi"
  have al: "align \<noteq> 0" "align AND (align - 1) = 0" and "len \<noteq> 0" and lo: "lo < ?hi"
    using ok by (auto simp: bad_request_def)
  let ?b = "if windowed pool lo hi then lo else kDmemBase"
  let ?c = "first_fit align len (align_up align ?b) rs"
  have b: "unat ?b = floor_of pool lo hi" by (simp add: floor_of_def)
  have "unat ?b \<le> unat pool + unat kDmemBase"
    using lo window_hi_le[of pool hi] by (simp add: word_less_nat_alt)
  note f = first_fit_from[OF al wf room this, unfolded b]
  show ?thesis
  proof (cases "?c + len \<le> ?hi")
    case True
    then have fit: "serves pool lo hi len align rs (unat ?c)" using f by (simp add: serves_def word_le_nat_alt)
    have "DmemAllocate pool lo hi len align t rs = place ?c len t rs"
      using True ok by (cases "windowed pool lo hi") (auto simp: DmemAllocate_def Let_def dest: leD)
    then show ?thesis using place_ok[OF wf fit _ \<open>len \<noteq> 0\<close>] f fit by metis
  next
    case False
    have none: "\<not> (\<exists>y. serves pool lo hi len align rs y)"
    proof
      assume "\<exists>y. serves pool lo hi len align rs y"
      then obtain y where y: "serves pool lo hi len align rs y" ..
      then have "unat ?c \<le> y" using f by (auto simp: serves_def)
      then show False using y False f by (simp add: serves_def word_le_nat_alt)
    qed
    have "DmemAllocate pool lo hi len align t rs = (- 12, None, rs)"
    proof (cases "windowed pool lo hi")
      case True
      then show ?thesis using False ok by (simp add: DmemAllocate_def Let_def not_le)
    next
      case nw: False
      then have hi: "?hi = pool" by (auto simp: windowed_def window_hi_def)
      have "\<exists>tp. top_fit align len ?hi (rev rs) = Inl tp \<and> (tp < len \<or> align_down align (tp - len) < kDmemBase)"
        using none nw serves_simps(2)[OF nw] wf unfolding hi by (intro top_fit_dead[OF al]) auto
      then show ?thesis using False ok nw by (auto simp: DmemAllocate_def Let_def)
    qed
    then show ?thesis using none by blast
  qed
qed

text \<open>
  C29: The allocator is sound and complete. On a well-formed reservation list and sizes whose sums stay
  below \<open>2^64\<close>, a malformed request gets -22 and changes nothing. Any other request either reserves
  an aligned range inside its window that touches no reservation (the ownership of every offset
  changes exactly on that range, and the list stays well formed), or gets -12 and changes nothing,
  and then no aligned free range of that length exists in the window.
\<close>

theorem dmem_allocate_correct:
  assumes "wf_regions (unat pool) rs"
    and "unat pool + unat kDmemBase + 2 * unat align + unat len < 2 ^ 64"
  shows "if bad_request lo (window_hi pool hi) len align
    then DmemAllocate pool lo hi len align t rs = (- 22, None, rs)
    else (\<exists>c rs'. DmemAllocate pool lo hi len align t rs = (0, Some c, rs') \<and>
        serves pool lo hi len align rs (unat c) \<and> wf_regions (unat pool) rs' \<and>
        (\<forall>p. owner p rs' = (if c \<le> p \<and> p < c + len
          then Some \<lparr>dm_start = c, dm_end = c + len, dm_type = t\<rparr> else owner p rs))) \<or>
      DmemAllocate pool lo hi len align t rs = (- 12, None, rs) \<and>
        \<not> (\<exists>y. serves pool lo hi len align rs y)"
  using DmemAllocate_spec[OF assms] by (simp add: DmemAllocate_def Let_def)

definition ex_regions :: "DmemRegion list" where
  "ex_regions = [\<lparr>dm_start = 0x10000000, dm_end = 0x10004000, dm_type = 1\<rparr>,
     \<lparr>dm_start = 0x10008000, dm_end = 0x2FFFFC000, dm_type = 2\<rparr>]"

lemma ex_regions_wf: "wf_regions (unat kDmemTotal) ex_regions"
  by (simp add: ex_regions_def kDmemTotal_def)

lemma dmem_allocate_correct_witness:
  "\<not> (\<exists>y. serves kDmemTotal 0x10000000 0 0x8000 0x4000 ex_regions y)"
proof -
  have "DmemAllocate kDmemTotal 0x10000000 0 0x8000 0x4000 3 ex_regions = (- 12, None, ex_regions)"
    "\<not> bad_request 0x10000000 (window_hi kDmemTotal 0) 0x8000 0x4000"
    by code_simp+
  then show ?thesis
    using dmem_allocate_correct[OF ex_regions_wf, of "0x4000" "0x8000" "0x10000000" 0 3]
    by (simp add: kDmemTotal_def kDmemBase_def)
qed

text \<open>
  A length near \<open>2^64\<close> passes the allocator's checks: the end of the candidate wraps below the
  ceiling, and the call records a reservation that ends before it starts.
\<close>

theorem dmem_allocate_wraps:
  "DmemAllocate kDmemTotal 0 0 0xFFFFFFFFFFFF0000 0x4000 t [] =
     (0, Some 0x10000000, [\<lparr>dm_start = 0x10000000, dm_end = 0xFFF0000, dm_type = t\<rparr>])"
  by (simp add: DmemAllocate_def window_hi_def windowed_def bad_request_def kDmemTotal_def kDmemBase_def
      align_up_def place_def)

section \<open>Release\<close>

text \<open>What is left of one reservation after the release of \<open>[s, e)\<close>.\<close>

definition remnants :: "u64 \<Rightarrow> u64 \<Rightarrow> DmemRegion \<Rightarrow> DmemRegion list" where
  "remnants s e r =
     (if dm_end r \<le> s \<or> e \<le> dm_start r then [r]
      else (if dm_start r < s then [r\<lparr>dm_end := s\<rparr>] else []) @
           (if e < dm_end r then [r\<lparr>dm_start := e\<rparr>] else []))"

lemma remnants_above: "\<forall>r\<in>set rs. e \<le> dm_start r \<Longrightarrow> concat (map (remnants s e) rs) = rs"
  by (induction rs) (auto simp: remnants_def)

lemma free_regions_remnants:
  "\<lbrakk>wf_regions T rs; s \<le> e\<rbrakk> \<Longrightarrow> free_regions s e rs = concat (map (remnants s e) rs)"
proof (induction rs)
  case (Cons r rs)
  show ?case
  proof (cases "dm_start r < s \<and> e < dm_end r")
    case True
    then have "\<forall>r'\<in>set rs. e \<le> dm_start r'"
      using Cons.prems(1) by (fastforce simp: word_le_nat_alt word_less_nat_alt)
    moreover from True have "\<not> (dm_end r \<le> s \<or> e \<le> dm_start r)" using Cons.prems(2) by auto
    ultimately show ?thesis using True remnants_above[of rs e s] by (simp add: remnants_def[of s e r])
  next
    case False
    then show ?thesis using Cons by (auto simp: remnants_def)
  qed
qed simp

lemma remnants_bounds:
  assumes "r' \<in> set (remnants s e r)" "S r < E r" "s \<le> e"
  shows "S r \<le> S r'" "S r' < E r'" "E r' \<le> E r" "dm_type r' = dm_type r"
  using assms by (auto simp: remnants_def word_le_nat_alt word_less_nat_alt split: if_splits)

lemma remnants_cover:
  assumes "S r < E r" "s \<le> e"
  shows "(\<exists>r'\<in>set (remnants s e r). S r' \<le> n \<and> n < E r') \<longleftrightarrow>
    S r \<le> n \<and> n < E r \<and> \<not> (unat s \<le> n \<and> n < unat e)"
  using assms by (auto simp: remnants_def word_le_nat_alt word_less_nat_alt)

lemma free_regions_wf:
  assumes "wf_regions T rs" "s \<le> e"
  shows "wf_regions T (free_regions s e rs)"
  unfolding free_regions_remnants[OF assms] using assms
proof (induction rs)
  case (Cons r rs)
  let ?rest = "concat (map (remnants s e) rs)"
  have r: "S r < E r" "E r \<le> T" "\<forall>r'\<in>set rs. E r \<le> S r'" "wf_regions T rs" using Cons.prems(1) by auto
  have after: "E r \<le> S q" if "q \<in> set ?rest" for q
  proof -
    obtain r' where r': "r' \<in> set rs" "q \<in> set (remnants s e r')" using \<open>q \<in> set ?rest\<close> by auto
    then have "S r' \<le> S q" using remnants_bounds(1)[OF r'(2)] wf_regionsD[OF r(4) r'(1)] assms(2) by blast
    then show ?thesis using r(3) r'(1) by fastforce
  qed
  have "wf_regions T (remnants s e r)"
    using r assms(2) by (auto simp: remnants_def word_le_nat_alt word_less_nat_alt)
  then show ?case
    using Cons.IH[OF r(4) assms(2)] after remnants_bounds(3)[OF _ r(1) assms(2)]
    by (auto simp: wf_regions_def sorted_wrt_append intro: order_trans)
qed simp

lemma owner_free:
  assumes wf: "wf_regions T rs" and se: "s \<le> e"
  shows "map_option dm_type (owner p (free_regions s e rs)) =
    (if s \<le> p \<and> p < e then None else map_option dm_type (owner p rs))"
proof -
  note fr = free_regions_remnants[OF wf se]
  have sub: "\<exists>r'\<in>set (remnants s e r). S r' \<le> unat p \<and> unat p < E r'"
    if "r \<in> set rs" "S r \<le> unat p" "unat p < E r" "\<not> (s \<le> p \<and> p < e)" for r
    using remnants_cover[OF _ se, of r "unat p"] wf_regionsD[OF wf that(1)] that
    by (auto simp: word_le_nat_alt word_less_nat_alt)
  have sup: "S r \<le> unat p \<and> unat p < E r \<and> \<not> (s \<le> p \<and> p < e) \<and> dm_type r' = dm_type r"
    if "r \<in> set rs" "r' \<in> set (remnants s e r)" "S r' \<le> unat p" "unat p < E r'" for r r'
    using remnants_cover[OF _ se, of r "unat p"] wf_regionsD[OF wf that(1)] that
      remnants_bounds(4)[OF that(2) _ se]
    by (auto simp: word_le_nat_alt word_less_nat_alt)
  show ?thesis
  proof (cases "owner p (free_regions s e rs)")
    case None
    then have n: "\<forall>r\<in>set rs. \<forall>r'\<in>set (remnants s e r). \<not> (S r' \<le> unat p \<and> unat p < E r')"
      unfolding owner_None fr by auto
    have "owner p rs = None" if "\<not> (s \<le> p \<and> p < e)"
      unfolding owner_None using sub n that by blast
    then show ?thesis using None by auto
  next
    case (Some r')
    then have r': "r' \<in> set (free_regions s e rs)" "S r' \<le> unat p" "unat p < E r'"
      using owner_iff[OF free_regions_wf[OF wf se]] by auto
    then obtain r where r: "r \<in> set rs" "r' \<in> set (remnants s e r)" unfolding fr by auto
    note q = sup[OF r r'(2,3)]
    then have "owner p rs = Some r" using owner_iff[OF wf] r(1) by blast
    then show ?thesis using q Some by auto
  qed
qed

text \<open>
  Releasing direct memory is exact. \<open>DmemFree\<close> of a range that does not wrap keeps the reservation
  list and the address space well formed; the offsets of the range lose their owner and every
  other offset keeps a reservation of the same type, however the range cuts the reservations; and
  the guest addresses that lose their mapping are exactly those backed by the range.
\<close>

theorem dmem_free_exact:
  assumes "wf_regions T (dm_regions d)" and "wf_map (dm_vma d)" and "unat start + unat len < 2 ^ 64"
  shows "wf_regions T (dm_regions (DmemFree start len d)) \<and> wf_map (dm_vma (DmemFree start len d)) \<and>
    map_option dm_type (owner p (dm_regions (DmemFree start len d))) =
      (if start \<le> p \<and> p < start + len then None else map_option dm_type (owner p (dm_regions d))) \<and>
    view (dm_vma (DmemFree start len d)) a =
      (if \<exists>q. phys_at (dm_vma d) a = Some q \<and> start \<le> q \<and> q < start + len then None
       else view (dm_vma d) a)"
proof -
  have "start \<le> start + len" using assms(3) by (simp add: word_le_nat_alt unat_word_ariths)
  then show ?thesis
    using free_regions_wf[OF assms(1)] owner_free[OF assms(1)] RemoveDirect_spec[OF assms(2)]
    by (simp add: DmemFree_def)
qed

definition ex_dmem :: dmem where
  "ex_dmem = \<lparr>dm_regions = ex_regions, dm_vma = ex_map\<rparr>"

lemma dmem_free_exact_witness:
  "map_option dm_type (owner 0x10009000 (dm_regions (DmemFree 0x1000A000 0x2000 ex_dmem))) = Some 2 \<and>
   map_option dm_type (owner 0x1000B000 (dm_regions (DmemFree 0x1000A000 0x2000 ex_dmem))) = None"
proof -
  note f = dmem_free_exact[of "unat kDmemTotal" ex_dmem "0x1000A000" "0x2000"]
  have e: "wf_regions (unat kDmemTotal) (dm_regions ex_dmem)" "wf_map (dm_vma ex_dmem)"
    using ex_regions_wf ex_map_wf by (simp_all add: ex_dmem_def)
  have "owner 0x10009000 (dm_regions ex_dmem) = Some \<lparr>dm_start = 0x10008000, dm_end = 0x2FFFFC000, dm_type = 2\<rparr>"
    by (simp add: ex_dmem_def ex_regions_def owner_def)
  then show ?thesis using f[OF e, of "0x10009000"] f[OF e, of "0x1000B000"] by simp
qed

section \<open>The largest hole\<close>

definition hole :: "nat \<Rightarrow> nat \<Rightarrow> nat \<Rightarrow> DmemRegion list \<Rightarrow> nat \<Rightarrow> nat \<Rightarrow> bool" where
  "hole p lo hi rs y n \<longleftrightarrow> p dvd y \<and> lo \<le> y \<and> y + n \<le> hi \<and> vacant y n rs"

lemma vacant_less: "\<lbrakk>vacant y m rs; n \<le> m\<rbrakk> \<Longrightarrow> vacant y n rs"
  by (fastforce simp: vacant_def)

lemma vacant_before: "\<lbrakk>\<forall>r\<in>set rs. h \<le> S r; y + n \<le> h\<rbrakk> \<Longrightarrow> vacant y n rs"
  by (fastforce simp: vacant_def)

lemma consider_hole_cases:
  obtains (better) "consider_hole cur e best = (cur, e - cur)" "cur < e" "snd best < e - cur"
  | (same) "consider_hole cur e best = best" "unat e - unat cur \<le> unat (snd best)"
proof (cases "cur < e \<and> snd best < e - cur")
  case True
  then show ?thesis using better by (simp add: consider_hole_def)
next
  case False
  have "unat e - unat cur \<le> unat (snd best)"
  proof (cases "cur < e")
    case True
    then have "unat (e - cur) = unat e - unat cur" by (simp add: unat_diff_le less_imp_le)
    then show ?thesis using False True by (simp add: word_less_nat_alt)
  next
    case False
    then show ?thesis by (simp add: word_less_nat_alt)
  qed
  moreover have "consider_hole cur e best = best" using False unfolding consider_hole_def by (rule if_not_P)
  ultimately show ?thesis using same by blast
qed

text \<open>What the walk over the rest \<open>rs\<close> of the list may answer when it starts at \<open>cur\<close>.\<close>

definition hole_answer :: "nat \<Rightarrow> nat \<Rightarrow> nat \<Rightarrow> DmemRegion list \<Rightarrow> u64 \<times> u64 \<Rightarrow> u64 \<times> u64 \<Rightarrow> bool" where
  "hole_answer p lo hi rs best res \<longleftrightarrow>
     unat (snd best) \<le> unat (snd res) \<and>
     (res = best \<or> snd res \<noteq> 0 \<and> hole p lo hi rs (unat (fst res)) (unat (snd res))) \<and>
     (\<forall>y n. hole p lo hi rs y n \<longrightarrow> n \<le> unat (snd res))"

lemma consider_hole_answer:
  assumes "p dvd unat cur" and "unat e \<le> hi" and "\<forall>r\<in>set rs. unat e \<le> S r"
  shows "unat (snd best) \<le> unat (snd (consider_hole cur e best)) \<and>
    unat e - unat cur \<le> unat (snd (consider_hole cur e best)) \<and>
    (consider_hole cur e best = best \<or> snd (consider_hole cur e best) \<noteq> 0 \<and>
      hole p (unat cur) hi rs (unat (fst (consider_hole cur e best))) (unat (snd (consider_hole cur e best))))"
proof (cases rule: consider_hole_cases[of cur e best])
  case better
  then have d: "unat (e - cur) = unat e - unat cur" "unat cur < unat e"
    by (simp_all add: unat_diff_le less_imp_le word_less_nat_alt)
  then have "hole p (unat cur) hi rs (unat cur) (unat (e - cur))"
    using assms vacant_before[OF assms(3), of "unat cur"] by (simp add: hole_def)
  moreover have "e - cur \<noteq> 0" using d by (metis unat_0 zero_less_diff less_irrefl)
  ultimately show ?thesis using better d by (simp add: word_less_nat_alt)
qed simp

lemma hole_loop_answer:
  assumes al: "unat a = 2 ^ k" "k < 64" "a - 1 = mask k"
    and room: "T + 2 ^ k + 2 ^ k < 2 ^ 64"
  shows "\<lbrakk>wf_regions T rs; 2 ^ k dvd unat cur; unat cur \<le> T + 2 ^ k\<rbrakk> \<Longrightarrow>
    hole_answer (2 ^ k) (unat cur) (unat hi) rs best (hole_loop a hi cur best rs)"
proof (induction rs arbitrary: cur best)
  case Nil
  show ?case
    using consider_hole_answer[OF Nil.prems(2), of hi "unat hi" "[]" best]
    by (auto simp: hole_answer_def hole_def)
next
  case (Cons r rs)
  have r: "S r < E r" "E r \<le> T" "\<forall>r'\<in>set rs. E r \<le> S r'" "wf_regions T rs" using Cons.prems(1) by auto
  consider (skip) "E r \<le> unat cur" | (over) "unat cur < E r" "unat hi \<le> S r"
    | (step) "unat cur < E r" "S r < unat hi" by linarith
  then show ?case
  proof cases
    case skip
    then have "hole_loop a hi cur best (r # rs) = hole_loop a hi cur best rs" by (simp add: word_le_nat_alt)
    moreover have "hole (2 ^ k) (unat cur) (unat hi) (r # rs) y n = hole (2 ^ k) (unat cur) (unat hi) rs y n" for y n
      using skip by (auto simp: hole_def)
    ultimately show ?thesis using Cons.IH[OF r(4) Cons.prems(2,3), of best] by (simp add: hole_answer_def)
  next
    case over
    then have eq: "hole_loop a hi cur best (r # rs) = consider_hole cur hi best" by (simp add: word_le_nat_alt)
    have "\<forall>q\<in>set (r # rs). unat hi \<le> S q" using over(2) r(1,3) by fastforce
    note c = consider_hole_answer[OF Cons.prems(2) order_refl this, of best]
    have "n \<le> unat (snd (consider_hole cur hi best))" if "hole (2 ^ k) (unat cur) (unat hi) (r # rs) y n" for y n
      using c that unfolding hole_def by linarith
    then show ?thesis unfolding eq hole_answer_def using c by blast
  next
    case step
    let ?c = "align_up a (dm_end r)" and ?best = "consider_hole cur (dm_start r) best"
    let ?res = "hole_loop a hi ?c ?best rs"
    have eq: "hole_loop a hi cur best (r # rs) = ?res"
      using step by (simp add: word_le_nat_alt word_less_nat_alt)
    have c: "unat ?c = rup (2 ^ k) (E r)" using align_up_nat[OF al] r(2) room by simp
    have f: "E r \<le> unat ?c" "unat ?c < E r + 2 ^ k" "2 ^ k dvd unat ?c"
        "\<And>y. \<lbrakk>2 ^ k dvd y; E r \<le> y\<rbrakk> \<Longrightarrow> unat ?c \<le> y"
      unfolding c using rup_facts[where p="2 ^ k" and n="E r"] by simp_all
    have "unat ?c \<le> T + 2 ^ k" using f(2) r(2) by simp
    note IH = Cons.IH[OF r(4) f(3) this, of ?best]
    have "\<forall>q\<in>set (r # rs). S r \<le> S q" using r(1,3) by fastforce
    note b = consider_hole_answer[OF Cons.prems(2) less_imp_le[OF step(2)] this, of best]
    have up: "hole (2 ^ k) (unat cur) (unat hi) (r # rs) y n" if "hole (2 ^ k) (unat ?c) (unat hi) rs y n" for y n
      using that f(1) step(1) by (auto simp: hole_def)
    have bound: "n \<le> unat (snd ?res)" if h: "hole (2 ^ k) (unat cur) (unat hi) (r # rs) y n" for y n
    proof (cases "y + n \<le> S r")
      case True
      then have "n \<le> S r - unat cur" using h by (auto simp: hole_def)
      then show ?thesis using b IH unfolding hole_answer_def by linarith
    next
      case False
      then have "hole (2 ^ k) (unat ?c) (unat hi) rs y n" using h f(4) by (auto simp: hole_def)
      then show ?thesis using IH unfolding hole_answer_def by blast
    qed
    have "?res = best \<or> snd ?res \<noteq> 0 \<and> hole (2 ^ k) (unat cur) (unat hi) (r # rs) (unat (fst ?res)) (unat (snd ?res))"
      using IH b up unfolding hole_answer_def by metis
    moreover have "unat (snd best) \<le> unat (snd ?res)" using IH b unfolding hole_answer_def by linarith
    ultimately show ?thesis unfolding eq hole_answer_def using bound by blast
  qed
qed

lemma DmemLargestHole_spec:
  fixes hi :: u64
  assumes al: "align \<noteq> 0" "align AND (align - 1) = 0" and wf: "wf_regions (unat pool) rs"
    and room: "unat pool + unat kDmemBase + unat lo + 2 * unat align < 2 ^ 64"
  defines "res \<equiv> DmemLargestHole pool lo hi align rs"
    and "h \<equiv> hole (unat align) (if lo = 0 then unat kDmemBase else unat lo) (unat (window_hi pool hi)) rs"
  shows "(snd res \<noteq> 0 \<longrightarrow> h (unat (fst res)) (unat (snd res))) \<and> (\<forall>y n. h y n \<longrightarrow> n \<le> unat (snd res))"
proof -
  obtain k where k: "unat align = 2 ^ k" "k < 64" "align - 1 = mask k" using pow2_word[OF al] .
  let ?T = "unat pool + unat kDmemBase + unat lo"
  let ?lo = "if lo = 0 then kDmemBase else lo"
  let ?cur = "align_up align ?lo"
  have lo: "unat ?lo \<le> ?T" by simp
  have up: "unat ?cur = rup (2 ^ k) (unat ?lo)" using align_up_nat[OF k] lo room k(1) by simp
  have r: "unat ?lo \<le> unat ?cur" "unat ?cur < unat ?lo + 2 ^ k" "2 ^ k dvd unat ?cur"
      "\<And>y. \<lbrakk>2 ^ k dvd y; unat ?lo \<le> y\<rbrakk> \<Longrightarrow> unat ?cur \<le> y"
    unfolding up using rup_facts[where p="2 ^ k" and n="unat ?lo"] by simp_all
  have "wf_regions ?T rs" using wf by (rule wf_regions_mono) simp
  moreover have "unat ?cur \<le> ?T + 2 ^ k" using r(2) lo by linarith
  moreover have "?T + 2 ^ k + 2 ^ k < 2 ^ 64" using room k(1) by simp
  ultimately have ans: "hole_answer (2 ^ k) (unat ?cur) (unat (window_hi pool hi)) rs (0, 0) res"
    using hole_loop_answer[OF k, of ?T rs ?cur "window_hi pool hi" "(0, 0)"] r(3) al(1)
    unfolding res_def DmemLargestHole_def Let_def by simp
  moreover have "(if lo = 0 then unat kDmemBase else unat lo) = unat ?lo" by simp
  then have eq: "h y n = hole (2 ^ k) (unat ?cur) (unat (window_hi pool hi)) rs y n" for y n
    unfolding h_def hole_def k(1) using r(1) r(4)[of y] order_trans[of "unat ?lo" "unat ?cur" y] by argo
  ultimately show ?thesis unfolding hole_answer_def eq by auto
qed

text \<open>
  The available-memory query reports exactly what can be allocated. For a power-of-two alignment
  and a window that the two calls read alike (its low end is given, or it is the whole pool), an
  allocation of \<open>n\<close> bytes in the window succeeds if and only if \<open>n\<close> is at most the reported size.
\<close>

theorem dmem_hole_exact:
  assumes al: "align \<noteq> 0" "align AND (align - 1) = 0" and wf: "wf_regions (unat pool) rs"
    and room: "unat pool + unat kDmemBase + unat lo + 2 * unat align + unat n < 2 ^ 64"
    and win: "lo \<noteq> 0 \<or> hi = 0 \<or> pool \<le> hi" and n: "n \<noteq> 0"
  shows "fst (DmemAllocate pool lo hi n align t rs) = 0 \<longleftrightarrow>
    n \<le> snd (DmemLargestHole pool lo hi align rs)"
proof -
  let ?res = "DmemLargestHole pool lo hi align rs" and ?hi = "window_hi pool hi"
  let ?h = "hole (unat align) (if lo = 0 then unat kDmemBase else unat lo) (unat ?hi) rs"
  have H: "(snd ?res \<noteq> 0 \<longrightarrow> ?h (unat (fst ?res)) (unat (snd ?res))) \<and> (\<forall>y m. ?h y m \<longrightarrow> m \<le> unat (snd ?res))"
    using room by (intro DmemLargestHole_spec[OF al wf]) simp
  have F: "serves pool lo hi n align rs y \<longleftrightarrow> ?h y (unat n)" for y
    using win by (auto simp: serves_def hole_def floor_of_def windowed_def)
  have "(\<exists>y. ?h y (unat n)) \<longleftrightarrow> n \<le> snd ?res"
  proof
    assume "n \<le> snd ?res"
    then have "snd ?res \<noteq> 0" "unat n \<le> unat (snd ?res)" using n by (auto simp: word_le_nat_alt unat_eq_zero)
    then have "?h (unat (fst ?res)) (unat n)"
      using H vacant_less[of _ "unat (snd ?res)" rs "unat n"] by (auto simp: hole_def)
    then show "\<exists>y. ?h y (unat n)" by blast
  qed (use H in \<open>auto simp: word_le_nat_alt\<close>)
  moreover have "0 < unat n" using n by (simp add: unat_gt_0)
  then have "lo < ?hi" if "?h y (unat n)" for y
    using that unfolding hole_def by (simp add: word_less_nat_alt split: if_splits)
  moreover have "fst (DmemAllocate pool lo hi n align t rs) = 0 \<longleftrightarrow> lo < ?hi \<and> (\<exists>y. ?h y (unat n))"
  proof (cases "lo < ?hi")
    case True
    then have "\<not> bad_request lo ?hi n align" using al n by (auto simp: bad_request_def)
    then show ?thesis using DmemAllocate_spec[OF wf, of align n lo hi t] room True F by auto
  next
    case False
    then have "bad_request lo ?hi n align" by (auto simp: bad_request_def)
    then show ?thesis using False by (simp add: DmemAllocate_def Let_def)
  qed
  ultimately show ?thesis by blast
qed

lemma dmem_hole_exact_witness:
  "fst (DmemAllocate kDmemTotal 0x10000000 0 0x4000 0x4000 1 ex_regions) = 0 \<longleftrightarrow>
   (0x4000 :: u64) \<le> snd (DmemLargestHole kDmemTotal 0x10000000 0 0x4000 ex_regions)"
  using dmem_hole_exact[of "0x4000" kDmemTotal ex_regions "0x10000000" "0x4000" 0 1] ex_regions_wf
  by (simp add: kDmemTotal_def kDmemBase_def)

section \<open>The device\<close>

text \<open>The arguments of one call whose sums stay below \<open>2^64\<close>.\<close>

definition ioctl_fits :: "u64 \<Rightarrow> u32 \<Rightarrow> u64 list \<Rightarrow> bool" where
  "ioctl_fits pool cmd a \<longleftrightarrow>
     (cmd \<in> {0xC0288001, 0xC0288011} \<longrightarrow>
        unat pool + unat kDmemBase + 2 * unat (if a ! 3 \<noteq> 0 then a ! 3 else 0x4000) + unat (a ! 2) < 2 ^ 64) \<and>
     (cmd = 0x80108002 \<longrightarrow> unat (a ! 0) + unat (a ! 1) < 2 ^ 64)"

definition wf_dmem :: "u64 \<Rightarrow> dmem \<Rightarrow> bool" where
  "wf_dmem pool d \<longleftrightarrow> wf_regions (unat pool) (dm_regions d) \<and> wf_map (dm_vma d)"

lemma DmemFree_wf: "\<lbrakk>wf_dmem pool d; unat s + unat n < 2 ^ 64\<rbrakk> \<Longrightarrow> wf_dmem pool (DmemFree s n d)"
proof -
  assume a: "wf_dmem pool d" "unat s + unat n < 2 ^ 64"
  have "s \<le> s + n" using a(2) by (simp add: word_le_nat_alt unat_word_ariths)
  then show ?thesis
    using a(1) free_regions_wf RemoveDirect_spec by (simp add: wf_dmem_def DmemFree_def)
qed

lemma alloc_ioctl_wf:
  assumes "wf_dmem pool d"
    and "unat pool + unat kDmemBase + 2 * unat (if a ! 3 \<noteq> 0 then a ! 3 else 0x4000) + unat (a ! 2) < 2 ^ 64"
    and "alloc_ioctl pool lo hi a d = (r, a', d')"
  shows "wf_dmem pool d' \<and> (r \<noteq> 0 \<longrightarrow> d' = d)"
proof (cases "a ! 2 = 0")
  case False
  let ?al = "if a ! 3 \<noteq> 0 then a ! 3 else 0x4000" and ?t = "ucast (a ! 4) :: u32"
  have wf: "wf_regions (unat pool) (dm_regions d)" using assms(1) by (simp add: wf_dmem_def)
  have "DmemAllocate pool lo hi (a ! 2) ?al ?t (dm_regions d) = (- 22, None, dm_regions d) \<or>
    (\<exists>c rs'. DmemAllocate pool lo hi (a ! 2) ?al ?t (dm_regions d) = (0, Some c, rs') \<and> wf_regions (unat pool) rs') \<or>
    DmemAllocate pool lo hi (a ! 2) ?al ?t (dm_regions d) = (- 12, None, dm_regions d)"
  proof (cases "bad_request lo (window_hi pool hi) (a ! 2) ?al")
    case True
    then show ?thesis unfolding DmemAllocate_def Let_def by simp
  next
    case False
    show ?thesis using DmemAllocate_spec[OF wf assms(2) False, of ?t] by blast
  qed
  then show ?thesis
    using assms(1,3) False by (auto simp: alloc_ioctl_def Let_def wf_dmem_def)
qed (use assms in \<open>simp add: alloc_ioctl_def\<close>)

text \<open>
  Every call of the device keeps the allocator well formed, an unsuccessful one changes nothing,
  and only the two allocation commands and the release command change the reservations at all.
\<close>

theorem dmem_ioctl_inv:
  assumes "wf_dmem pool d" and "ioctl_fits pool cmd a" and "IoctlImpl pool cmd (Some a) d = Some (r, b, d')"
  shows "wf_dmem pool d' \<and> (r \<noteq> 0 \<longrightarrow> d' = d) \<and>
    (d' \<noteq> d \<longrightarrow> cmd \<in> {0xC0288001, 0xC0288011, 0x80108002})"
proof -
  consider "cmd = 0xC0288001" | "cmd = 0xC0288011" | "cmd = 0x80108002"
    | "cmd \<notin> {0xC0288001, 0xC0288011, 0x80108002}" by blast
  then show ?thesis
  proof cases
    case 1
    then obtain a' where "alloc_ioctl pool (a ! 0) (a ! 1) a d = (r, a', d')"
      using assms(3) by (auto simp: IoctlImpl_def split: prod.splits)
    then show ?thesis using alloc_ioctl_wf[OF assms(1)] assms(2) 1 by (simp add: ioctl_fits_def)
  next
    case 2
    then obtain a' where "alloc_ioctl pool 0 pool a d = (r, a', d')"
      using assms(3) by (auto simp: IoctlImpl_def split: prod.splits)
    then show ?thesis using alloc_ioctl_wf[OF assms(1)] assms(2) 2 by (simp add: ioctl_fits_def)
  next
    case 3
    then show ?thesis
      using DmemFree_wf[OF assms(1)] assms by (auto simp: IoctlImpl_def ioctl_fits_def split: if_splits)
  next
    case 4
    then have "d' = d"
      using assms(3) by (auto simp: IoctlImpl_def Let_def split: if_splits prod.splits option.splits)
    then show ?thesis using assms(1) by simp
  qed
qed

lemma dmem_ioctl_inv_witness:
  "\<exists>b d'. IoctlImpl kDmemTotal 0xC0288001 (Some [0x10000000, 0, 0x4000, 0, 3]) ex_dmem = Some (0, b, d') \<and>
     wf_dmem kDmemTotal d'"
proof -
  let ?a = "[0x10000000, 0, 0x4000, 0, 3] :: u64 list"
  obtain b d' where e: "IoctlImpl kDmemTotal 0xC0288001 (Some ?a) ex_dmem = Some (0, b, d')"
    by (simp add: IoctlImpl_def alloc_ioctl_def DmemAllocate_def window_hi_def windowed_def bad_request_def
        kDmemTotal_def ex_dmem_def ex_regions_def align_up_def place_def)
  have "wf_dmem kDmemTotal ex_dmem" "ioctl_fits kDmemTotal 0xC0288001 ?a"
    using ex_regions_wf ex_map_wf by (simp_all add: wf_dmem_def ex_dmem_def ioctl_fits_def kDmemTotal_def kDmemBase_def)
  then show ?thesis using dmem_ioctl_inv[OF _ _ e] e by blast
qed

end
