(* ===== verification/Guest_Mem.thy ===== *)
theory Guest_Mem
  imports Shm Guest_Arena Dmem
begin

text \<open>
  The guest memory calls of \<open>delta/kern/lv2/sys_mem.cc\<close>, over the address space (\<open>VmMap\<close>), the
  released ranges and the low arena, the named shared objects, the host mapping registry and the table of
  direct-memory addresses of \<open>delta/kern/ps5/dev/dma_dev.cc\<close>. A call is one step: it changes every
  part it reaches before it returns. Pointers are words and 0 is the null pointer. The bytes of guest
  memory are not part of the state, so filling a mapping from a file is left out, and so are tracing and
  the host protection of pages, which never restricts the guest.
\<close>

section \<open>State\<close>

text \<open>
  \<open>mm_events\<close> records what leaves these files: the mapping-changed hook, the aperture note of the
  graphics side and the bytes a new direct mapping takes over from the old one.
\<close>

datatype mem_event = Mapping_hook u64 u64 | Aperture u64 u64 | Carried u64 u64

record mem =
  mm_vma :: VmMap
  mm_va :: guest_va
  mm_shm :: shm
  mm_registry :: registry
  mm_regions :: "DmemRegion list"
  mm_dmem_va :: "(u64 \<times> u64) list"
  mm_gnm_base :: bool
  mm_agc_base :: bool
  mm_events :: "mem_event list"

definition mem_init :: mem where
  "mem_init = \<lparr>mm_vma = \<lparr>rt_pages = [], hook_installed = False, host_trace = []\<rparr>, mm_va = guest_va_init, mm_shm = shm_init,
     mm_registry = registry_init, mm_regions = [], mm_dmem_va = [], mm_gnm_base = False, mm_agc_base = False, mm_events = []\<rparr>"

text \<open>
  What the rest answers during a call: the stack of the process, what the object table holds at a
  descriptor, the platform and its direct-memory store, and the host. The host answers each \<open>mmap\<close> of a
  call with an address or a failure (\<open>None\<close>): the fixed request and its second try, the commit over the
  user stack, the probe of a hint, the commit after it, the commit of a released range, the view of a
  shared object or of the direct-memory store, and the detaching of removed direct pages. \<open>Map\<close> of a
  device is a function of its own, and - 1 is its refusal.
\<close>

datatype map_object =
    No_map_object
  | Device_object bool "u64 \<Rightarrow> u64 \<Rightarrow> u32 \<Rightarrow> u32 \<Rightarrow> u64 \<Rightarrow> mem \<Rightarrow> u64 \<times> mem"
  | Other_map_object

record mem_env =
  en_stack :: u64
  en_stack_size :: u64
  en_object :: "u32 \<Rightarrow> map_object"
  en_ps5 :: bool
  en_dmem_fd :: bool
  en_dmem_size :: u64
  en_shm :: shm_host
  en_arena :: "nat \<Rightarrow> low_try"
  en_fixed :: "u64 option"
  en_fixed_again :: "u64 option"
  en_on_stack :: "u64 option"
  en_probe :: "u64 option"
  en_commit :: "u64 option"
  en_retake :: "u64 option"
  en_view :: "u64 option"
  en_detach :: "u64 \<Rightarrow> u64 \<Rightarrow> u64 option"
  en_munmap :: bool

section \<open>The parts\<close>

definition add_event :: "mem_event \<Rightarrow> mem \<Rightarrow> mem" where
  "add_event e s = s\<lparr>mm_events := mm_events s @ [e]\<rparr>"

text \<open>The arena and the shared objects work on the one registry.\<close>

definition with_va :: "(guest_va \<Rightarrow> 'a \<times> guest_va) \<Rightarrow> mem \<Rightarrow> 'a \<times> mem" where
  "with_va f s = (case f ((mm_va s)\<lparr>gv_registry := mm_registry s\<rparr>) of
     (x, v) \<Rightarrow> (x, s\<lparr>mm_va := v, mm_registry := gv_registry v\<rparr>))"

definition on_va :: "(guest_va \<Rightarrow> guest_va) \<Rightarrow> mem \<Rightarrow> mem" where
  "on_va f s = snd (with_va (\<lambda>v. ((), f v)) s)"

definition on_shm :: "(shm \<Rightarrow> shm) \<Rightarrow> mem \<Rightarrow> mem" where
  "on_shm f s = (let t = f ((mm_shm s)\<lparr>sh_registry := mm_registry s\<rparr>) in s\<lparr>mm_shm := t, mm_registry := sh_registry t\<rparr>)"

definition forget_keys :: "u64 \<Rightarrow> u64 \<Rightarrow> (u64 \<times> u64) list \<Rightarrow> (u64 \<times> u64) list" where
  "forget_keys lo hi = filter (\<lambda>(p, n). \<not> (p \<ge> lo \<and> p < hi))"

definition ForgetDmemVa :: "u64 \<Rightarrow> u64 \<Rightarrow> mem \<Rightarrow> mem" where
  "ForgetDmemVa p n s = (if p = 0 \<or> n = 0 then s else s\<lparr>mm_dmem_va := forget_keys p (p + n) (mm_dmem_va s)\<rparr>)"

text \<open>The calls that leave \<open>VmMap\<close> act on the other parts, in their order.\<close>

fun host_effect :: "(u64 \<Rightarrow> u64 \<Rightarrow> u64 option) \<Rightarrow> host_call \<Rightarrow> mem \<Rightarrow> mem" where
  "host_effect detach (Vm_Map.TrackMemoryMapping p n) s =
     s\<lparr>mm_registry := Host_Memory.TrackMemoryMapping p n False (mm_registry s)\<rparr>"
| "host_effect detach (AllocMemReservecommitW p n) s =
     s\<lparr>mm_registry := snd (AllocMem (\<lambda>_. detach) p n kReservecommit (mm_registry s))\<rparr>"
| "host_effect detach (MappingChangedHook p n) s = add_event (Mapping_hook p n) s"
| "host_effect detach (ForgetDmemVaCall p n) s = ForgetDmemVa p n s"

definition on_vma :: "(u64 \<Rightarrow> u64 \<Rightarrow> u64 option) \<Rightarrow> (VmMap \<Rightarrow> VmMap) \<Rightarrow> mem \<Rightarrow> mem" where
  "on_vma detach f s = (let m = f ((mm_vma s)\<lparr>host_trace := []\<rparr>)
     in fold (host_effect detach) (host_trace m) (s\<lparr>mm_vma := m\<lparr>host_trace := []\<rparr>\<rparr>))"

definition host_alloc :: "u64 option \<Rightarrow> u64 \<Rightarrow> u64 \<Rightarrow> AllocationType \<Rightarrow> mem \<Rightarrow> u64 \<times> mem" where
  "host_alloc answer p n ty s = (case AllocMem (\<lambda>_ _ _. answer) p n ty (mm_registry s) of
     (r, g) \<Rightarrow> (case r of None \<Rightarrow> 0 | Some q \<Rightarrow> q, s\<lparr>mm_registry := g\<rparr>))"

definition low_alloc :: "mem_env \<Rightarrow> u64 \<Rightarrow> u64 \<Rightarrow> mem \<Rightarrow> u64 \<times> mem" where
  "low_alloc h n align s = (case with_va (AllocLowGuest (en_arena h) n align) s of
     (r, s) \<Rightarrow> (case r of None \<Rightarrow> 0 | Some q \<Rightarrow> q, s))"

section \<open>Mapping\<close>

definition kFixed :: u32 where "kFixed = 0x10"
definition kStack :: u32 where "kStack = 0x400"
definition kNoextend :: u32 where "kNoextend = 0x100"
definition kAnon :: u32 where "kAnon = 0x1000"

text \<open>Errors are returned as pointers.\<close>

definition err_ptr :: "u64 \<Rightarrow> u64" where
  "err_ptr e = - e"

definition IsErrnoPtr :: "u64 \<Rightarrow> bool" where
  "IsErrnoPtr p \<longleftrightarrow> sint p < 0"

abbreviation flag_set :: "u32 \<Rightarrow> u32 \<Rightarrow> bool" where
  "flag_set flags f \<equiv> flags AND f \<noteq> 0"

definition mmap_flags :: "u32 \<Rightarrow> u32" where
  "mmap_flags flags = (if flag_set flags kStack \<or> flag_set flags kNoextend then flags OR kAnon else flags)"

text \<open>A hint over an existing mapping is dropped; a fixed address is taken as it is.\<close>

definition hint_of :: "u32 \<Rightarrow> u64 \<Rightarrow> u64 \<Rightarrow> VmMap \<Rightarrow> u64" where
  "hint_of flags addr n m = (if flag_set flags kFixed then addr else if addr = 0 \<or> Overlaps addr n m then 0 else addr)"

definition in_user_stack :: "mem_env \<Rightarrow> u64 \<Rightarrow> u64 \<Rightarrow> bool" where
  "in_user_stack h a n \<longleftrightarrow> a \<noteq> 0
     \<and> (en_stack h \<noteq> 0 \<and> a \<ge> en_stack h \<and> a + n \<le> en_stack h + en_stack_size h \<or> IsGuestReservedVa a n)"

definition map_align :: "u32 \<Rightarrow> u64" where
  "map_align flags = (let align_log = drop_bit 24 flags AND 0x1F
     in if align_log \<ge> 14 \<and> align_log < 40 then push_bit (unat align_log) 1 else 0)"

definition usable_hint :: "u32 \<Rightarrow> u32 \<Rightarrow> u64 \<Rightarrow> u64" where
  "usable_hint flags prot addr =
     (if flag_set flags kFixed then addr
      else let al = map_align flags;
               addr = (if al \<noteq> 0 \<and> addr \<noteq> 0 \<and> addr AND (al - 1) \<noteq> 0 then 0 else addr)
           in if addr \<noteq> 0 \<and> prot = 0 \<and> addr \<ge> 0x1000000000 \<and> addr < kGuestArenaFloor then 0 else addr)"

definition place_fixed :: "mem_env \<Rightarrow> u32 \<Rightarrow> u64 \<Rightarrow> u64 \<Rightarrow> mem \<Rightarrow> u64 \<times> mem" where
  "place_fixed h flags addr n s =
     (let want = (if flag_set flags kStack then addr - n else addr);
          s = on_shm (UnmapShm (en_shm h) want n) s;
          s = ForgetDmemVa want n s
      in case host_alloc (en_fixed h) want n kReservecommit s of (p, s) \<Rightarrow>
           if p \<noteq> 0 then (p, s) else host_alloc (en_fixed_again h) want n kCommit s)"

definition place_hint :: "mem_env \<Rightarrow> bool \<Rightarrow> u64 \<Rightarrow> u64 \<Rightarrow> mem \<Rightarrow> u64 \<times> mem" where
  "place_hint h on_stack addr n s =
     (if on_stack then host_alloc (en_on_stack h) addr n kCommit s
      else case host_alloc (en_probe h) addr n kReserve s of (p, s) \<Rightarrow>
        if p \<noteq> 0 then host_alloc (en_commit h) addr n kCommit s
        else if WasGuestReleased addr n (mm_va s) \<and> \<not> Overlaps addr n (mm_vma s)
        then host_alloc (en_retake h) addr n kReservecommit s
        else (0, s))"

definition mmap_memory :: "mem_env \<Rightarrow> u64 \<Rightarrow> u64 \<Rightarrow> u32 \<Rightarrow> u32 \<Rightarrow> u64 \<Rightarrow> bool \<Rightarrow> mem \<Rightarrow> u64 \<times> mem" where
  "mmap_memory h addr0 n prot flags offset direct s =
     (let addr = usable_hint flags prot addr0
      in case (if addr = 0 then (0, s)
               else if flag_set flags kFixed then place_fixed h flags addr n s
               else place_hint h (in_user_stack h addr0 n) addr n s) of (p, s) \<Rightarrow>
         case (if p \<noteq> 0 then (p, s) else low_alloc h n (map_align flags) s) of (p, s) \<Rightarrow>
           if p = 0 then (err_ptr eNOMEM, s)
           else (if flag_set flags kStack then p + n else p + (offset AND 0x3FFF),
                 on_vma (en_detach h)
                   (if direct then AddDirect p n (prot AND kRwx) prot offset
                    else Add p n (prot AND kRwx) prot (flag_set flags 0x100)) s))"

definition ShmMap :: "mem_env \<Rightarrow> u32 \<Rightarrow> shm_object \<Rightarrow> u64 \<Rightarrow> u64 \<Rightarrow> u64 \<Rightarrow> u32 \<Rightarrow> u32 \<Rightarrow> mem \<Rightarrow> u64 \<times> mem" where
  "ShmMap h fd sobj addr n offset prot flags s =
     (if offset AND 0x3fff \<noteq> 0 \<or> offset > 0x7FFFFFFFFFFFFFFF \<or> n > 0x7FFFFFFFFFFFFFFF - offset
         \<or> flags AND 3 = 0 \<or> flags AND 3 = 3 then (err_ptr eINVAL, s)
      else if flag_set flags 1 \<and> flag_set prot 2 \<and> \<not> so_writable sobj then (err_ptr eACCES, s)
      else
        let s = (if flag_set flags kFixed then on_shm (UnmapShm (en_shm h) addr n) s else s)
        in if \<not> (case backing_of (so_backing sobj) (mm_shm s) of None \<Rightarrow> False | Some b \<Rightarrow> bk_fd b) then (err_ptr eNOMEM, s)
           else case (if flag_set flags kFixed then (addr, s) else low_alloc h n 0 s) of (want, s) \<Rightarrow>
             if \<not> flag_set flags kFixed \<and> want = 0 then (err_ptr eNOMEM, s)
             else case en_view h of None \<Rightarrow> (err_ptr eNOMEM, s)
               | Some p \<Rightarrow>
                   let s = s\<lparr>mm_registry := Host_Memory.TrackMemoryMapping p n False (mm_registry s)\<rparr>;
                       s = on_vma (en_detach h) (Add p n (prot AND 7) prot False) s
                   in (p, on_shm (add_record p n fd) s))"

text \<open>
  \<open>None\<close> is undefined behaviour: the object at a descriptor that is neither a device nor a shared object
  is called as a device.
\<close>

definition sys_mmap :: "mem_env \<Rightarrow> u64 \<Rightarrow> u64 \<Rightarrow> u32 \<Rightarrow> u32 \<Rightarrow> u32 \<Rightarrow> u64 \<Rightarrow> mem \<Rightarrow> (u64 \<times> mem) option" where
  "sys_mmap h addr0 size0 prot0 flags0 fd offset0 s =
     (let flags = mmap_flags flags0; n = round_size size0
      in if n = 0 then Some (err_ptr eINVAL, s)
         else if flag_set flags kStack \<and> (fd \<noteq> - 1 \<or> prot0 AND 3 \<noteq> 3) then Some (err_ptr eINVAL, s)
         else
           let offset = (if flag_set flags kStack then 0 else offset0);
               prot = (if flag_set flags 0x100 then 0 else prot0)
           in if flag_set flags kFixed \<and> (addr0 AND 0x3FFF \<noteq> 0 \<or> \<not> fits addr0 n) then Some (err_ptr eINVAL, s)
              else
                let addr = hint_of flags addr0 n (mm_vma s)
                in if fd = - 1 then Some (mmap_memory h addr n prot flags offset False s)
                   else case map_of (sh_fds (mm_shm s)) fd of
                     Some sobj \<Rightarrow> Some (ShmMap h fd sobj addr n offset prot flags s)
                   | None \<Rightarrow> (case en_object h fd of
                       No_map_object \<Rightarrow> Some (mmap_memory h addr n prot flags offset False s)
                     | Other_map_object \<Rightarrow> None
                     | Device_object direct dev_map \<Rightarrow>
                         (case dev_map addr n prot flags offset s of (m, s) \<Rightarrow>
                            if m \<noteq> - 1
                            then Some (m, on_vma (en_detach h)
                                   (if direct then AddDirect m n (prot AND kRwx) prot offset
                                    else Add m n (prot AND kRwx) prot False) s)
                            else Some (mmap_memory h addr n prot flags offset direct s))))"

section \<open>Unmapping, protection and names\<close>

definition whole_reservation :: "u64 \<Rightarrow> u64 \<Rightarrow> VmMap \<Rightarrow> bool" where
  "whole_reservation addr n m = (case Get addr m of None \<Rightarrow> False
     | Some r \<Rightarrow> pg_ptr r = addr \<and> pg_size r = n \<and> pg_sce_prot r = 0 \<and> pg_prot r = kPriv)"

definition sys_munmap :: "mem_env \<Rightarrow> u64 \<Rightarrow> u64 \<Rightarrow> mem \<Rightarrow> int \<times> mem" where
  "sys_munmap h addr n s =
     (0, if addr = 0 \<or> n = 0 then s
         else
           let s = on_shm (UnmapShm (en_shm h) addr n) s;
               s = on_shm (AudioDaemonForgetRange addr n) s;
               s = (if whole_reservation addr n (mm_vma s) then s\<lparr>mm_registry := FreeMem (en_munmap h) addr n (mm_registry s)\<rparr> else s);
               s = on_vma (en_detach h) (Remove addr n) s;
               s = on_va (NoteGuestReleased addr n) s
           in ForgetDmemVa addr n s)"

definition protect_span :: "u64 \<Rightarrow> u64 \<Rightarrow> u64 \<times> u64" where
  "protect_span a len = (a AND NOT 0x3FFF, (len + (a AND 0x3FFF) + 0x3FFF) AND NOT 0x3FFF)"

definition sys_mprotect :: "u64 \<Rightarrow> u64 \<Rightarrow> u32 \<Rightarrow> mem \<Rightarrow> int \<times> mem" where
  "sys_mprotect a len prot s = (case protect_span a len of (b, span) \<Rightarrow>
     if \<not> fits b span then (neg_err eINVAL, s)
     else let sce = prot AND 0x37
          in (0, s\<lparr>mm_vma := ProtectRange b span (sce AND kRwx) sce (mm_vma s)\<rparr>))"

definition sys_mname :: "bool \<Rightarrow> u64 \<Rightarrow> u64 \<Rightarrow> string option \<Rightarrow> mem \<Rightarrow> (int \<times> mem) option" where
  "sys_mname alloc_ok a len name s =
     (if a \<ge> 0x10000000000 \<or> len > 0x10000000000 - a then Some (neg_err eINVAL, s)
      else case name of None \<Rightarrow> None
        | Some nm \<Rightarrow> if length nm \<ge> 32 then Some (neg_err eNAMETOOLONG, s)
            else Some (0, s\<lparr>mm_vma := SetRangeName a len (Some nm) alloc_ok (mm_vma s)\<rparr>))"

section \<open>Direct memory and batches\<close>

text \<open>
  \<open>direct_store\<close> is the test for the shared direct-memory store of the PS5; \<open>en_view\<close> answers its \<open>mmap\<close>.
\<close>

definition direct_store :: "mem_env \<Rightarrow> u64 \<Rightarrow> u64 \<Rightarrow> bool" where
  "direct_store h offset len \<longleftrightarrow> en_ps5 h \<and> en_dmem_fd h \<and> offset + len \<le> en_dmem_size h"

definition sys_mmap_dmem :: "mem_env \<Rightarrow> u64 \<Rightarrow> u64 \<Rightarrow> u32 \<Rightarrow> u32 \<Rightarrow> int \<Rightarrow> mem \<Rightarrow> (u64 \<times> mem) option" where
  "sys_mmap_dmem h addr len prot flags phys s =
     (let offset = word_of_int phys
      in case (if 0 \<le> phys \<and> direct_store h offset len then en_view h else None) of
           Some p \<Rightarrow> Some (p, on_vma (en_detach h) (AddDirect p len kW prot offset) s)
         | None \<Rightarrow>
             (case sys_mmap h addr len 3 (if flag_set flags kFixed then kAnon OR kFixed else kAnon) (- 1) 0 s of
                None \<Rightarrow> None
              | Some (p, s) \<Rightarrow>
                  if IsErrnoPtr p then Some (err_ptr eNOMEM, s)
                  else Some (p, if 0 \<le> phys then on_vma (en_detach h) (AddDirect p len kW prot offset) s else s)))"

record batch_entry =
  be_start :: u64
  be_offset :: u64
  be_length :: u64
  be_prot :: u8
  be_operation :: u32

text \<open>One entry: \<open>Some\<close> error ends the call.\<close>

definition batch_map_entry :: "mem_env \<Rightarrow> batch_entry \<Rightarrow> mem \<Rightarrow> (int option \<times> mem) option" where
  "batch_map_entry h e s =
     (if be_operation e = 0 \<or> be_operation e = 3 then
        if be_start e = 0 \<or> be_length e = 0 then Some (Some (neg_err eINVAL), s)
        else case (if be_operation e = 0 \<and> direct_store h (be_offset e) (be_length e) then en_view h else None) of
            Some p \<Rightarrow> Some (None, on_vma (en_detach h)
                (AddDirect p (be_length e) (ucast (be_prot e) AND 7) (ucast (be_prot e)) (be_offset e)) s)
          | None \<Rightarrow>
              (case sys_mmap h (be_start e) (be_length e) (ucast (be_prot e)) (kFixed OR kAnon) (- 1) 0 s of
                 None \<Rightarrow> None
               | Some (p, s) \<Rightarrow> Some (if IsErrnoPtr p then Some (neg_err eNOMEM) else None, s))
      else if be_operation e = 1 then
        Some (None, if be_start e \<noteq> 0 \<and> be_length e \<noteq> 0 then on_vma (en_detach h) (Remove (be_start e) (be_length e)) s else s)
      else Some (None, s))"

text \<open>
  The loop over the entries; the list is the memory at the pointer, and reading past it is undefined.
  The result is the status and the number of entries processed.
\<close>

fun batch_loop :: "(nat \<Rightarrow> mem_env) \<Rightarrow> batch_entry list \<Rightarrow> nat \<Rightarrow> nat \<Rightarrow> mem \<Rightarrow> (int \<times> nat \<times> mem) option" where
  "batch_loop h es k 0 s = Some (0, k, s)"
| "batch_loop h [] k (Suc n) s = None"
| "batch_loop h (e # es) k (Suc n) s =
     (case batch_map_entry (h k) e s of
        None \<Rightarrow> None
      | Some (Some r, s) \<Rightarrow> Some (r, k, s)
      | Some (None, s) \<Rightarrow> batch_loop h es (k + 1) n s)"

definition sys_batch_map :: "(nat \<Rightarrow> mem_env) \<Rightarrow> batch_entry list option \<Rightarrow> int \<Rightarrow> mem \<Rightarrow> (int \<times> nat \<times> mem) option" where
  "sys_batch_map h entries count s =
     (case entries of None \<Rightarrow> Some (0, 0, s) | Some es \<Rightarrow> batch_loop h es 0 (nat count) s)"

text \<open>\<open>sys_jitshm_create\<close> and \<open>sys_blockpool_map\<close> are anonymous mappings of a length.\<close>

definition sys_jitshm_create :: "mem_env \<Rightarrow> u64 \<Rightarrow> mem \<Rightarrow> (u64 \<times> mem) option" where
  "sys_jitshm_create h len s = sys_mmap h 0 len 7 0x1000 (- 1) 0 s"

definition sys_blockpool_map :: "mem_env \<Rightarrow> u64 \<Rightarrow> mem \<Rightarrow> (u64 \<times> mem) option" where
  "sys_blockpool_map h len s = sys_mmap h 0 len 3 0x1000 (- 1) 0 s"

text \<open>The resets at the end of a session; \<open>shm_unmapped\<close> is whether the host unmaps each shared view.\<close>

definition mem_session_reset :: "shm_host \<Rightarrow> mem \<Rightarrow> mem" where
  "mem_session_reset h s =
     (let s = s\<lparr>mm_va := (mm_va s)\<lparr>gv_low_next := kGuestArenaFloor, gv_released := [], gv_claims := []\<rparr>\<rparr>;
          maps = sh_maps (mm_shm s); names = sh_by_name (mm_shm s);
          s = fold (\<lambda>(p, n, _). on_shm (free_range h p n)) maps s;
          s = s\<lparr>mm_shm := (mm_shm s)\<lparr>sh_maps := []\<rparr>\<rparr>;
          s = on_shm (fold (\<lambda>(_, _, k). release_backing h k) maps) s;
          s = s\<lparr>mm_shm := (mm_shm s)\<lparr>sh_by_name := []\<rparr>\<rparr>;
          s = on_shm (fold (\<lambda>(_, k). release_backing h k) names) s
      in s\<lparr>mm_dmem_va := [], mm_gnm_base := False, mm_agc_base := False\<rparr>)"

end
