(* ===== verification/Guest_Mem_Inv.thy ===== *)
theory Guest_Mem_Inv
  imports Guest_Mem
begin

text \<open>
  The invariant of guest memory and the placing of a mapping. The address space, the registry of host
  mappings and the consumer views of shared objects are kept in different places; \<open>tracked\<close> ties them
  together: what the guest has mapped is in the registry and in no consumer view. The section on the
  answers of the host says what is relied on.
\<close>

section \<open>Frames\<close>

definition known :: "registry \<Rightarrow> u64 \<Rightarrow> bool" where
  "known g a \<longleftrightarrow> mapped_as (hm_mappings g) a \<noteq> None"

text \<open>A registry that only gained addresses.\<close>

definition grown :: "registry \<Rightarrow> registry \<Rightarrow> bool" where
  "grown g g' \<longleftrightarrow> (registry_wf g \<longrightarrow> registry_wf g' \<and> (\<forall>a. known g a \<longrightarrow> known g' a))"

lemma grown_refl [simp]: "grown g g"
  by (simp add: grown_def)

lemma grown_trans: "grown g g' \<Longrightarrow> grown g' g'' \<Longrightarrow> grown g g''"
  by (simp add: grown_def)

lemma grown_Track [simp]: "grown g (Host_Memory.TrackMemoryMapping p n res g)"
  using TrackMemoryMapping_correct [of g p n res] TrackMemoryMapping_ignored [of p n res g]
  by (cases "trackable p n") (auto simp: grown_def known_def)

lemma known_Track: "registry_wf g \<Longrightarrow> trackable p n \<Longrightarrow> p \<le> a \<Longrightarrow> a < p + n \<Longrightarrow> known (Host_Memory.TrackMemoryMapping p n res g) a"
  using TrackMemoryMapping_correct [of g p n res] by (simp add: known_def)

lemma grown_AllocMem [simp]: "grown g (snd (AllocMem f p n ty g))"
  by (simp add: AllocMem_def split: option.splits)

lemma host_effect_frame [simp]:
  "mm_vma (host_effect d c s) = mm_vma s" "mm_va (host_effect d c s) = mm_va s" "mm_shm (host_effect d c s) = mm_shm s"
  "mm_regions (host_effect d c s) = mm_regions s"
  by (cases c; simp add: add_event_def ForgetDmemVa_def)+

lemma host_effects_frame [simp]:
  "mm_vma (fold (host_effect d) cs s) = mm_vma s" "mm_va (fold (host_effect d) cs s) = mm_va s"
  "mm_shm (fold (host_effect d) cs s) = mm_shm s" "mm_regions (fold (host_effect d) cs s) = mm_regions s"
  by (induction cs arbitrary: s) simp_all

lemma host_effect_grown: "grown (mm_registry s) (mm_registry (host_effect d c s))"
  by (cases c) (simp_all add: add_event_def ForgetDmemVa_def)

lemma host_effects_grown: "grown (mm_registry s) (mm_registry (fold (host_effect d) cs s))"
  by (induction cs arbitrary: s) (auto intro: grown_trans host_effect_grown)

lemma on_vma_frame [simp]:
  "mm_va (on_vma d f s) = mm_va s" "mm_shm (on_vma d f s) = mm_shm s" "mm_regions (on_vma d f s) = mm_regions s"
  "mm_vma (on_vma d f s) = (f ((mm_vma s)\<lparr>host_trace := []\<rparr>))\<lparr>host_trace := []\<rparr>"
  by (simp_all add: on_vma_def Let_def)

lemma on_vma_grown: "grown (mm_registry s) (mm_registry (on_vma d f s))"
  using host_effects_grown [of "s\<lparr>mm_vma := x\<rparr>" for x] by (simp add: on_vma_def Let_def)

lemma trace_irrelevant [simp]:
  "view (m\<lparr>host_trace := t\<rparr>) = view m" "wf_map (m\<lparr>host_trace := t\<rparr>) = wf_map m"
  by (simp_all add: fun_eq_iff view_def Get_def wf_map_def)

lemma ForgetDmemVa_frame [simp]:
  "mm_vma (ForgetDmemVa p n s) = mm_vma s" "mm_va (ForgetDmemVa p n s) = mm_va s" "mm_shm (ForgetDmemVa p n s) = mm_shm s"
  "mm_registry (ForgetDmemVa p n s) = mm_registry s" "mm_regions (ForgetDmemVa p n s) = mm_regions s"
  by (simp_all add: ForgetDmemVa_def)

lemma on_shm_frame [simp]:
  "mm_vma (on_shm f s) = mm_vma s" "mm_va (on_shm f s) = mm_va s" "mm_regions (on_shm f s) = mm_regions s"
  by (simp_all add: on_shm_def Let_def)

lemma with_va_frame [simp]:
  "mm_vma (snd (with_va f s)) = mm_vma s" "mm_shm (snd (with_va f s)) = mm_shm s" "mm_regions (snd (with_va f s)) = mm_regions s"
  by (simp_all add: with_va_def split_beta)

section \<open>Placing a mapping\<close>

lemma host_alloc_result:
  "host_alloc ans p n ty s = (q, s') \<Longrightarrow> mm_vma s' = mm_vma s \<and> mm_shm s' = mm_shm s \<and> mm_va s' = mm_va s
    \<and> grown (mm_registry s) (mm_registry s')
    \<and> (q \<noteq> 0 \<longrightarrow> ans = Some q \<and> mm_registry s' = Host_Memory.TrackMemoryMapping q n (ty = kReserve) (mm_registry s))"
  by (auto simp: host_alloc_def AllocMem_def split: option.splits)

lemma other_claims_registry [simp]: "gv_registry (fold other_claim rs v) = gv_registry v"
  by (induction rs arbitrary: v) (auto simp: other_claim_def commit_claim_def split: option.splits)

definition low_outcome :: "(nat \<Rightarrow> low_try) \<Rightarrow> u64 \<Rightarrow> registry \<Rightarrow> u64 option \<Rightarrow> registry \<Rightarrow> bool" where
  "low_outcome sched n g r g' \<longleftrightarrow> (case r of None \<Rightarrow> g' = g
    | Some b \<Rightarrow> (\<exists>i. lt_mmap (sched i) = Some b) \<and> g' = Host_Memory.TrackMemoryMapping b n False g)"

lemma low_loop_registry:
  "low_outcome sched n (gv_registry v) (fst (low_loop sched n al k v)) (gv_registry (snd (low_loop sched n al k v)))"
proof (induction k arbitrary: v)
  case 0
  show ?case by (simp add: low_outcome_def)
next
  case (Suc k)
  let ?v = "fold other_claim (lt_before (sched k)) v"
  show ?case
  proof (cases "claim (gv_low_next ?v) n al")
    case None
    then show ?thesis by (simp add: Let_def low_outcome_def)
  next
    case (Some c)
    obtain b nx where c: "c = (b, nx)" by fastforce
    let ?w = "fold other_claim (lt_between (sched k)) ?v"
    let ?u = "commit_claim b n nx ?w"
    have eq: "low_loop sched n al (Suc k) v =
        (if lt_spurious (sched k) \<or> gv_low_next ?w \<noteq> gv_low_next ?v then low_loop sched n al k ?w
         else if lt_mmap (sched k) = Some b
         then (Some b, ?u\<lparr>gv_registry := Host_Memory.TrackMemoryMapping b n False (gv_registry ?u)\<rparr>)
         else low_loop sched n al k ?u)"
      using Some c by (simp add: Let_def)
    have "gv_registry ?w = gv_registry v" "gv_registry ?u = gv_registry v" by (simp_all add: commit_claim_def)
    then show ?thesis
      unfolding eq using Suc.IH [of ?w] Suc.IH [of ?u]
      by (auto simp: low_outcome_def simp del: low_loop.simps)
  qed
qed

lemma low_alloc_result:
  "low_alloc h n al s = (q, s') \<Longrightarrow> mm_vma s' = mm_vma s \<and> mm_shm s' = mm_shm s
    \<and> (mm_registry s' = mm_registry s \<and> q = 0
       \<or> (\<exists>i. lt_mmap (en_arena h i) = Some q) \<and> mm_registry s' = Host_Memory.TrackMemoryMapping q (round_size n) False (mm_registry s))"
  using low_loop_registry [of "en_arena h" "round_size n" "(mm_va s)\<lparr>gv_registry := mm_registry s\<rparr>" "arena_align al" 8192]
  by (auto simp: low_alloc_def with_va_def AllocLowGuest_def split_beta low_outcome_def split: option.splits)

section \<open>Unmapping shared views\<close>

text \<open>The addresses of the consumer views, and ranges that do not wrap.\<close>

definition in_view :: "shm \<Rightarrow> u64 \<Rightarrow> bool" where
  "in_view t a \<longleftrightarrow> (\<exists>(k, b) \<in> set (sh_backings t). \<exists>q. bk_base b = Some q \<and> q \<le> a \<and> a < q + bk_map_size b)"

definition views_fit :: "shm \<Rightarrow> bool" where
  "views_fit t \<longleftrightarrow> (\<forall>(k, b) \<in> set (sh_backings t). \<forall>q. bk_base b = Some q \<longrightarrow> fits q (bk_map_size b))"

definition records_fit :: "(u64 \<times> u64 \<times> nat) list \<Rightarrow> bool" where
  "records_fit ms \<longleftrightarrow> (\<forall>(q, m, k) \<in> set ms. fits q m)"

text \<open>The registry of \<open>t'\<close> lost at most the addresses in \<open>A\<close>, and no view was added.\<close>

definition shrunk :: "(u64 \<Rightarrow> bool) \<Rightarrow> shm \<Rightarrow> shm \<Rightarrow> bool" where
  "shrunk A t t' \<longleftrightarrow> set (sh_backings t') \<subseteq> set (sh_backings t)
     \<and> (registry_wf (sh_registry t) \<longrightarrow> registry_wf (sh_registry t')
        \<and> (\<forall>a. known (sh_registry t) a \<and> \<not> A a \<longrightarrow> known (sh_registry t') a))"

lemma shrunk_refl [simp]: "shrunk A t t"
  by (simp add: shrunk_def)

lemma shrunk_trans: "shrunk A t t' \<Longrightarrow> shrunk A t' t'' \<Longrightarrow> shrunk A t t''"
  unfolding shrunk_def by blast

lemma shrunk_same: "sh_registry t' = sh_registry t \<Longrightarrow> sh_backings t' = sh_backings t \<Longrightarrow> shrunk A t t'"
  by (simp add: shrunk_def)

lemma shrunk_fold: "(\<And>x t. x \<in> set xs \<Longrightarrow> P t \<Longrightarrow> shrunk A t (f x t) \<and> P (f x t)) \<Longrightarrow> P t \<Longrightarrow> shrunk A t (fold f xs t) \<and> P (fold f xs t)"
proof (induction xs arbitrary: t)
  case (Cons x xs)
  have "shrunk A t (f x t)" "P (f x t)" using Cons.prems by auto
  then show ?case using Cons.IH [of "f x t"] Cons.prems(1) shrunk_trans by auto
qed simp

lemma in_view_mono: "set (sh_backings t') \<subseteq> set (sh_backings t) \<Longrightarrow> in_view t' a \<Longrightarrow> in_view t a"
  unfolding in_view_def by blast

lemma views_fit_mono: "set (sh_backings t') \<subseteq> set (sh_backings t) \<Longrightarrow> views_fit t \<Longrightarrow> views_fit t'"
  unfolding views_fit_def by blast

lemma shrunk_free:
  assumes "fits p n" "\<And>a. p \<le> a \<Longrightarrow> a < p + n \<Longrightarrow> A a"
  shows "shrunk A t (free_range h p n t)"
  using FreeMem_correct [of "sh_registry t" "ho_munmap h" p n] assms
  by (auto simp: shrunk_def free_range_def known_def)

lemma unmap_records_pieces:
  "f \<le> e \<Longrightarrow> records_fit ms \<Longrightarrow> records_fit (fst (unmap_records f e ms))
    \<and> (\<forall>(a, m, k) \<in> set (snd (unmap_records f e ms)). f \<le> a \<and> fits a m \<and> a + m \<le> e)"
proof (induction f e ms rule: unmap_records.induct)
  case (2 f e lo n k ms)
  let ?hi = "lo + n"
  let ?a = "max lo f"
  let ?b = "min ?hi e"
  have fit: "lo \<le> ?hi" and rest: "records_fit ms" using 2(3) by (auto simp: records_fit_def fits_def)
  note IH = 2(1) [OF 2(2) rest]
  show ?case
  proof (cases "lo \<ge> e \<or> ?hi \<le> f")
    case True
    then show ?thesis using IH fit by (auto simp: records_fit_def split_beta fits_def)
  next
    case False
    then have ord: "?a \<le> ?b" "lo \<le> ?a" "?b \<le> ?hi" "f \<le> ?a" "?b \<le> e" using fit 2(2) by (auto simp: max_def min_def)
    have eq: "unmap_records f e ((lo, n, k) # ms) =
        ((if lo < ?a then [(lo, ?a - lo, k)] else []) @ (if ?b < ?hi then [(?b, ?hi - ?b, k)] else []) @ fst (unmap_records f e ms),
         (?a, ?b - ?a, k) # snd (unmap_records f e ms))"
      using False by (simp add: split_beta Let_def)
    have "fits lo (?a - lo)" "fits ?b (?hi - ?b)" "fits ?a (?b - ?a)" "?a + (?b - ?a) = ?b"
      using ord by (simp_all add: fits_def)
    then show ?thesis unfolding eq using IH ord by (auto simp: records_fit_def)
  qed
qed (simp add: records_fit_def)

lemma shrunk_drop_view:
  assumes "(k, b) \<in> set (sh_backings t)" "views_fit t" "\<And>a. in_view t a \<Longrightarrow> A a"
  shows "shrunk A t (drop_view h b t)"
proof (cases "bk_base b")
  case (Some q)
  have "fits q (bk_map_size b)" using assms(1,2) Some by (auto simp: views_fit_def)
  moreover have "A a" if "q \<le> a" "a < q + bk_map_size b" for a
    using assms(1,3) Some that by (auto simp: in_view_def)
  ultimately have "shrunk A (Shm.AudioDaemonForgetRange q (bk_map_size b) t) (drop_view h b t)"
    using Some by (simp add: drop_view_def shrunk_free)
  then show ?thesis by (simp add: shrunk_def Shm.AudioDaemonForgetRange_def)
qed (simp add: drop_view_def)

lemma shrunk_release:
  assumes "views_fit t" "\<And>a. in_view t a \<Longrightarrow> A a"
  shows "shrunk A t (release_backing h k t)"
proof (cases "backing_of k t")
  case (Some b)
  then have b: "(k, b) \<in> set (sh_backings t)" by (simp add: backing_of_def map_of_SomeD)
  have "shrunk A t (drop_view h b t)" using b assms by (rule shrunk_drop_view)
  moreover have "set (AList.delete k xs) \<subseteq> set xs" for xs :: "(nat \<times> backing) list"
    by (auto simp: AList.delete_eq)
  ultimately show ?thesis using Some by (auto simp: release_backing_def shrunk_def)
qed (simp add: release_backing_def)

lemma UnmapShm_shrunk:
  assumes fit: "fits p n" and rec: "records_fit (sh_maps t)" and views: "views_fit t"
  shows "shrunk (\<lambda>a. p \<le> a \<and> a < p + n \<or> in_view t a) t (UnmapShm h p n t)"
proof -
  let ?A = "\<lambda>a. p \<le> a \<and> a < p + n \<or> in_view t a"
  let ?P = "\<lambda>u :: shm. set (sh_backings u) \<subseteq> set (sh_backings t)"
  obtain ms un where r: "unmap_records p (p + n) (sh_maps t) = (ms, un)" by fastforce
  let ?t1 = "fold (\<lambda>(a, m, _). free_range h a m) un t"
  let ?t2 = "?t1\<lparr>sh_maps := ms\<rparr>"
  let ?forget = "\<lambda>(_ :: u64, _ :: u64, k :: nat) s. case backing_of k s of None \<Rightarrow> s
    | Some b \<Rightarrow> if list_ex (\<lambda>(_, _, j). j = k) (sh_maps s) then s
        else case bk_base b of None \<Rightarrow> s | Some q \<Rightarrow> Shm.AudioDaemonForgetRange q (bk_map_size b) s"
  let ?t3 = "fold ?forget un ?t2"
  have pieces: "\<forall>(a, m, k) \<in> set un. p \<le> a \<and> fits a m \<and> a + m \<le> p + n"
    using unmap_records_pieces [of p "p + n" "sh_maps t"] fit rec r by (simp add: fits_def)
  have t1: "shrunk ?A t ?t1 \<and> ?P ?t1"
  proof (rule shrunk_fold [where P = ?P])
    fix x u assume x: "x \<in> set un" and P: "?P u"
    obtain a m k where x_eq: "x = (a, m, k)" by (cases x)
    have "p \<le> a" "fits a m" "a + m \<le> p + n" using pieces x x_eq by auto
    then have "shrunk ?A u (free_range h a m u)" by (intro shrunk_free) auto
    moreover have "?P (free_range h a m u)" using P by (simp add: free_range_def)
    ultimately show "shrunk ?A u ((\<lambda>(a, m, _). free_range h a m) x u) \<and> ?P ((\<lambda>(a, m, _). free_range h a m) x u)"
      by (simp add: x_eq)
  qed simp
  have t3: "shrunk ?A ?t2 ?t3 \<and> ?P ?t3"
  proof (rule shrunk_fold [where P = ?P])
    fix x :: "u64 \<times> u64 \<times> nat" and u assume P: "?P u"
    obtain a m k where x_eq: "x = (a, m, k)" by (cases x)
    have "sh_backings (?forget x u) = sh_backings u" "sh_registry (?forget x u) = sh_registry u"
      by (auto simp: x_eq Shm.AudioDaemonForgetRange_def split: option.splits)
    then show "shrunk ?A u (?forget x u) \<and> ?P (?forget x u)" using P by (simp add: shrunk_same)
  qed (use t1 in simp)
  have t4: "shrunk ?A ?t3 (fold (\<lambda>(_, _, k). release_backing h k) un ?t3) \<and> ?P (fold (\<lambda>(_, _, k). release_backing h k) un ?t3)"
  proof (rule shrunk_fold [where P = ?P])
    fix x :: "u64 \<times> u64 \<times> nat" and u assume P: "?P u"
    obtain a m k where x_eq: "x = (a, m, k)" by (cases x)
    have "shrunk ?A u (release_backing h k u)"
      using views_fit_mono [OF P views] in_view_mono [OF P] by (intro shrunk_release) auto
    then show "shrunk ?A u ((\<lambda>(_, _, k). release_backing h k) x u) \<and> ?P ((\<lambda>(_, _, k). release_backing h k) x u)"
      using P by (auto simp: x_eq shrunk_def)
  qed (use t3 in simp)
  have t2: "shrunk ?A ?t1 ?t2" by (rule shrunk_same) simp_all
  have "shrunk ?A t (fold (\<lambda>(_, _, k). release_backing h k) un ?t3)"
    by (rule shrunk_trans [OF conjunct1 [OF t1] shrunk_trans [OF t2 shrunk_trans [OF conjunct1 [OF t3] conjunct1 [OF t4]]]])
  then show ?thesis by (simp add: UnmapShm_def r Let_def)
qed

lemma UnmapShm_records:
  assumes "fits p n" "records_fit (sh_maps t)"
  shows "records_fit (sh_maps (UnmapShm h p n t))"
  using unmap_records_pieces [of p "p + n" "sh_maps t"] assms by (simp add: unmap_maps fits_def)

text \<open>Without a record in the range nothing happens.\<close>

lemma UnmapShm_none:
  assumes "\<forall>(q, m, k) \<in> set (sh_maps t). q \<ge> p + n \<or> q + m \<le> p"
  shows "UnmapShm h p n t = t"
proof -
  have "unmap_records p (p + n) ms = (ms, [])" if "\<forall>(q, m, k) \<in> set ms. q \<ge> p + n \<or> q + m \<le> p" for ms
    using that by (induction ms) auto
  then show ?thesis using assms by (simp add: UnmapShm_def)
qed

section \<open>The invariant\<close>

text \<open>
  Outside \<open>R\<close>, every address the address space maps is in the registry and in no consumer view.
  \<open>R\<close> is the range a call is about to replace.
\<close>

definition tracked_but :: "(u64 \<Rightarrow> bool) \<Rightarrow> mem \<Rightarrow> bool" where
  "tracked_but R s \<longleftrightarrow> wf_map (mm_vma s) \<and> registry_wf (mm_registry s)
     \<and> records_fit (sh_maps (mm_shm s)) \<and> views_fit (mm_shm s)
     \<and> (\<forall>a. view (mm_vma s) a \<noteq> None \<and> \<not> R a \<longrightarrow> known (mm_registry s) a \<and> \<not> in_view (mm_shm s) a)"

abbreviation tracked :: "mem \<Rightarrow> bool" where
  "tracked \<equiv> tracked_but (\<lambda>_. False)"

abbreviation within :: "u64 \<Rightarrow> u64 \<Rightarrow> u64 \<Rightarrow> bool" where
  "within p n a \<equiv> p \<le> a \<and> a < p + n"

lemma tracked_but_cong:
  assumes "mm_vma s' = mm_vma s" "sh_maps (mm_shm s') = sh_maps (mm_shm s)" "sh_backings (mm_shm s') = sh_backings (mm_shm s)"
    "grown (mm_registry s) (mm_registry s')"
  shows "tracked_but R s \<Longrightarrow> tracked_but R s'"
proof -
  have "in_view (mm_shm s') = in_view (mm_shm s)" "views_fit (mm_shm s') = views_fit (mm_shm s)"
    using assms(3) by (simp_all add: in_view_def views_fit_def fun_eq_iff)
  then show "tracked_but R s \<Longrightarrow> tracked_but R s'"
    using assms by (auto simp: tracked_but_def grown_def)
qed

lemma tracked_known: "tracked_but R s \<Longrightarrow> \<not> R a \<Longrightarrow> \<not> known (mm_registry s) a \<Longrightarrow> view (mm_vma s) a = None"
  unfolding tracked_but_def by blast

lemma tracked_but_mono: "tracked_but R s \<Longrightarrow> (\<And>a. R a \<Longrightarrow> R' a) \<Longrightarrow> tracked_but R' s"
  unfolding tracked_but_def by blast

lemma tracked_unmap_shm:
  assumes "tracked s" "fits p n"
  shows "tracked_but (within p n) (on_shm (UnmapShm h p n) s)"
proof -
  let ?t = "(mm_shm s)\<lparr>sh_registry := mm_registry s\<rparr>"
  let ?u = "UnmapShm h p n ?t"
  have eqs: "in_view ?t = in_view (mm_shm s)" "views_fit ?t = views_fit (mm_shm s)"
    by (simp_all add: in_view_def views_fit_def fun_eq_iff)
  have inv: "records_fit (sh_maps ?t)" "views_fit ?t" "registry_wf (sh_registry ?t)"
    using assms(1) eqs by (simp_all add: tracked_but_def)
  have sh: "shrunk (\<lambda>a. within p n a \<or> in_view ?t a) ?t ?u"
    using assms(2) inv(1,2) by (rule UnmapShm_shrunk)
  have rec: "records_fit (sh_maps ?u)" using assms(2) inv(1) by (rule UnmapShm_records)
  have sub: "set (sh_backings ?u) \<subseteq> set (sh_backings ?t)" using sh by (simp add: shrunk_def)
  have "registry_wf (sh_registry ?u)" using sh inv(3) by (simp add: shrunk_def)
  moreover have "known (sh_registry ?u) a \<and> \<not> in_view ?u a" if "view (mm_vma s) a \<noteq> None" "\<not> within p n a" for a
  proof -
    have "known (mm_registry s) a" "\<not> in_view ?t a" using assms(1) that(1) eqs by (simp_all add: tracked_but_def)
    moreover have "\<not> in_view ?u a" using \<open>\<not> in_view ?t a\<close> in_view_mono [OF sub, of a] by blast
    ultimately show ?thesis using sh inv(3) that(2) by (simp add: shrunk_def)
  qed
  moreover have "wf_map (mm_vma s)" using assms(1) by (simp add: tracked_but_def)
  moreover have "views_fit ?u" using sub inv(2) by (rule views_fit_mono)
  ultimately show ?thesis using rec unfolding tracked_but_def by (simp add: on_shm_def Let_def)
qed

section \<open>Answers of the host\<close>

text \<open>
  What the documentation of \<open>mmap\<close> promises. A mapping never wraps and is not at the null page; a fixed
  request is granted at its address; a request that must not replace a mapping is granted only where
  nothing is mapped, which covers the registry and the consumer views. The consumer views are the
  emulator's own: the addresses the guest names are not in them.
\<close>

definition can_map :: "mem \<Rightarrow> u64 \<Rightarrow> u64 \<Rightarrow> bool" where
  "can_map s p n \<longleftrightarrow> p \<noteq> 0 \<and> fits p n \<and> (\<forall>a. within p n a \<longrightarrow> \<not> in_view (mm_shm s) a)"

definition host_vacant :: "mem \<Rightarrow> u64 \<Rightarrow> u64 \<Rightarrow> bool" where
  "host_vacant s p n \<longleftrightarrow> can_map s p n \<and> (\<forall>a. within p n a \<longrightarrow> \<not> known (mm_registry s) a)"

definition grants :: "mem \<Rightarrow> u64 option \<Rightarrow> u64 \<Rightarrow> u64 \<Rightarrow> bool" where
  "grants s ans p n \<longleftrightarrow> (\<forall>q. ans = Some q \<longrightarrow> q = p \<and> can_map s p n)"

definition arena_answers :: "mem_env \<Rightarrow> u64 \<Rightarrow> mem \<Rightarrow> bool" where
  "arena_answers h n s \<longleftrightarrow> (\<forall>i q. lt_mmap (en_arena h i) = Some q \<longrightarrow> host_vacant s q n)"

definition hint_answers :: "mem_env \<Rightarrow> u64 \<Rightarrow> u64 \<Rightarrow> mem \<Rightarrow> bool" where
  "hint_answers h addr n s \<longleftrightarrow> grants s (en_on_stack h) addr n \<and> grants s (en_commit h) addr n \<and> grants s (en_retake h) addr n
     \<and> (\<forall>q. en_probe h = Some q \<longrightarrow> q = addr \<and> host_vacant s addr n)"

text \<open>A fixed request that fails twice is only covered where no shared view was unmapped for it.\<close>

definition fixed_want :: "u32 \<Rightarrow> u64 \<Rightarrow> u64 \<Rightarrow> u64" where
  "fixed_want flags addr n = (if flag_set flags kStack then addr - n else addr)"

definition fixed_answers :: "mem_env \<Rightarrow> u64 \<Rightarrow> u64 \<Rightarrow> mem \<Rightarrow> bool" where
  "fixed_answers h w n s \<longleftrightarrow> fits w n \<and> grants s (en_fixed h) w n \<and> grants s (en_fixed_again h) w n
     \<and> (en_fixed h = None \<and> en_fixed_again h = None
        \<longrightarrow> (\<forall>(q, m, k) \<in> set (sh_maps (mm_shm s)). q \<ge> w + n \<or> q + m \<le> w))"

definition mmap_answers :: "mem_env \<Rightarrow> u64 \<Rightarrow> u64 \<Rightarrow> u32 \<Rightarrow> mem \<Rightarrow> bool" where
  "mmap_answers h addr n flags s \<longleftrightarrow> arena_answers h n s
     \<and> (if flag_set flags kFixed then fixed_answers h (fixed_want flags addr n) n s else hint_answers h addr n s)"

section \<open>Placing\<close>

text \<open>Where \<open>p\<close> is not null, it is a placed range: in the registry, outside the views and, but for \<open>R\<close>, unmapped before.\<close>

definition placed :: "(u64 \<Rightarrow> bool) \<Rightarrow> mem \<Rightarrow> u64 \<Rightarrow> u64 \<Rightarrow> mem \<Rightarrow> bool" where
  "placed R s p n s' \<longleftrightarrow> mm_vma s' = mm_vma s
     \<and> (if p = 0 then tracked s' \<and> (\<forall>a. in_view (mm_shm s') a \<longrightarrow> in_view (mm_shm s) a)
          \<and> (\<forall>a. known (mm_registry s) a \<longrightarrow> known (mm_registry s') a)
        else tracked_but (within p n) s' \<and> can_map s' p n
          \<and> (\<forall>a. within p n a \<longrightarrow> known (mm_registry s') a)
          \<and> (\<forall>a. within p n a \<and> \<not> R a \<longrightarrow> view (mm_vma s) a = None))"

lemma trackable_iff: "trackable p n \<longleftrightarrow> p \<noteq> 0 \<and> n \<noteq> 0 \<and> fits p n"
  by (simp add: trackable_fits fits_unat)

lemma can_map_cong: "sh_backings (mm_shm s') = sh_backings (mm_shm s) \<Longrightarrow> can_map s' p n = can_map s p n"
  by (simp add: can_map_def in_view_def)

text \<open>A granted request gives a placed range.\<close>

lemma host_alloc_placed:
  assumes inv: "tracked_but (within p n) s" and n: "n \<noteq> 0" and g: "grants s ans p n"
    and h: "host_alloc ans p n ty s = (q, s')" and q: "q \<noteq> 0"
    and new: "\<And>a. within p n a \<Longrightarrow> \<not> R a \<Longrightarrow> view (mm_vma s) a = None"
  shows "q = p \<and> placed R s p n s'"
proof -
  note r = host_alloc_result [OF h]
  have qp: "q = p" and cm: "can_map s p n" using r q g by (auto simp: grants_def)
  have "registry_wf (mm_registry s)" using inv by (simp add: tracked_but_def)
  then have "known (mm_registry s') a" if "within p n a" for a
    using known_Track [of "mm_registry s" p n a] that r q qp cm n by (simp add: trackable_iff can_map_def)
  moreover have "tracked_but (within p n) s'"
    using r inv by (intro tracked_but_cong [of s' s]) auto
  moreover have "can_map s' p n" using cm r can_map_cong [of s' s] by simp
  ultimately show ?thesis using qp q r new by (simp add: placed_def)
qed

lemma low_alloc_placed:
  assumes inv: "tracked s" and n: "n \<noteq> 0" "round_size n = n"
    and g: "\<And>i q. lt_mmap (en_arena h i) = Some q \<Longrightarrow> can_map s q n \<and> (\<forall>a. within q n a \<longrightarrow> view (mm_vma s) a = None)"
    and l: "low_alloc h n al s = (q, s')"
  shows "placed (\<lambda>_. False) s q n s'"
proof -
  note r = low_alloc_result [OF l]
  show ?thesis
  proof (cases "q = 0")
    case True
    have g': "grown (mm_registry s) (mm_registry s')" using r by auto
    then have "\<forall>a. known (mm_registry s) a \<longrightarrow> known (mm_registry s') a"
      using inv by (simp add: grown_def tracked_but_def)
    moreover have "tracked s'" using r inv g' by (intro tracked_but_cong [of s' s]) auto
    ultimately show ?thesis using True r by (simp add: placed_def)
  next
    case False
    then have q: "\<exists>i. lt_mmap (en_arena h i) = Some q" and reg: "mm_registry s' = Host_Memory.TrackMemoryMapping q n False (mm_registry s)"
      using r n by auto
    then have v: "can_map s q n" "\<And>a. within q n a \<Longrightarrow> view (mm_vma s) a = None" using g by blast+
    have wf: "registry_wf (mm_registry s)" using inv by (simp add: tracked_but_def)
    have "known (mm_registry s') a" if "within q n a" for a
      using known_Track [OF wf, of q n a] that v n reg by (simp add: trackable_iff can_map_def)
    moreover have "tracked s'" using r inv reg by (intro tracked_but_cong [of s' s]) auto
    moreover have "can_map s' q n" using v(1) r can_map_cong [of s' s] by simp
    ultimately show ?thesis using False r v(2) by (auto simp: placed_def intro: tracked_but_mono)
  qed
qed

lemma host_alloc_kept:
  assumes "host_alloc ans p n ty s = (q, s')"
  shows "tracked_but R s \<Longrightarrow> tracked_but R s'" "grants s' ans' p' n' = grants s ans' p' n'"
    "in_view (mm_shm s') = in_view (mm_shm s)" "tracked s \<Longrightarrow> known (mm_registry s) a \<Longrightarrow> known (mm_registry s') a"
proof -
  note r = host_alloc_result [OF assms]
  show "tracked_but R s \<Longrightarrow> tracked_but R s'" using r by (intro tracked_but_cong [of s' s]) auto
  show "in_view (mm_shm s') = in_view (mm_shm s)" using r by simp
  show "grants s' ans' p' n' = grants s ans' p' n'" using r can_map_cong [of s' s] by (simp add: grants_def)
  show "tracked s \<Longrightarrow> known (mm_registry s) a \<Longrightarrow> known (mm_registry s') a" using r by (simp add: grown_def tracked_but_def)
qed

lemma placed_nothing:
  assumes "host_alloc ans p n ty s = (q, s')" "tracked s" "q = 0"
  shows "placed R s q n s'"
  using host_alloc_kept [OF assms(1)] host_alloc_result [OF assms(1)] assms(2,3) by (simp add: placed_def)

lemma placed_later:
  assumes "host_alloc ans p n ty s = (q, s')" "tracked s" "placed R s' p' n' s''"
  shows "placed R s p' n' s''"
  using host_alloc_kept(3,4) [OF assms(1)] host_alloc_result [OF assms(1)] assms(2,3)
  by (auto simp: placed_def split: if_splits)

lemma host_alloc_hint:
  assumes inv: "tracked s" and n: "n \<noteq> 0" and g: "grants s ans p n" and h: "host_alloc ans p n ty s = (q, s')"
    and new: "\<And>a. within p n a \<Longrightarrow> view (mm_vma s) a = None"
  shows "placed (\<lambda>_. False) s q n s'"
proof (cases "q = 0")
  case True
  then show ?thesis using placed_nothing [OF h inv] by simp
next
  case False
  have "tracked_but (within p n) s" using inv by (rule tracked_but_mono) simp
  then show ?thesis using host_alloc_placed [OF _ n g h False new] by simp
qed

lemma place_hint_placed:
  assumes inv: "tracked s" and n: "n \<noteq> 0" and g: "hint_answers h addr n s" and ov: "\<not> Overlaps addr n (mm_vma s)"
    and p: "place_hint h on_stack addr n s = (q, s')"
  shows "placed (\<lambda>_. False) s q n s'"
proof -
  have new: "view (mm_vma s) a = None" if "within addr n a" for a
    using Overlaps_view [OF ov] that by simp
  have gs: "grants s (en_on_stack h) addr n" "grants s (en_commit h) addr n" "grants s (en_retake h) addr n"
    using g by (simp_all add: hint_answers_def)
  obtain q1 s1 where r: "host_alloc (en_probe h) addr n kReserve s = (q1, s1)" by fastforce
  note r1 = host_alloc_result [OF r] host_alloc_kept [OF r]
  have inv1: "tracked s1" using r1(2) inv by simp
  have new1: "view (mm_vma s1) a = None" if "within addr n a" for a
    using new [OF that] r1(1) by simp
  have later: "placed (\<lambda>_. False) s1 q n s' \<Longrightarrow> ?thesis" by (rule placed_later [OF r inv])
  consider "on_stack" | "\<not> on_stack" "q1 \<noteq> 0" | "\<not> on_stack" "q1 = 0" "WasGuestReleased addr n (mm_va s1) \<and> \<not> Overlaps addr n (mm_vma s1)"
    | "\<not> on_stack" "q1 = 0" "q = 0 \<and> s' = s1"
    using p r by (fastforce simp: place_hint_def split: if_splits)
  then show ?thesis
  proof cases
    case 1
    then show ?thesis using p host_alloc_hint [OF inv n gs(1) _ new] by (simp add: place_hint_def)
  next
    case 2
    then have "host_alloc (en_commit h) addr n kCommit s1 = (q, s')" using p r by (simp add: place_hint_def)
    then show ?thesis using host_alloc_hint [OF inv1 n _ _ new1] gs r1 later by simp
  next
    case 3
    then have "host_alloc (en_retake h) addr n kReservecommit s1 = (q, s')" using p r by (simp add: place_hint_def)
    then show ?thesis using host_alloc_hint [OF inv1 n _ _ new1] gs r1 later by simp
  next
    case 4
    then show ?thesis using placed_nothing [OF r inv] by simp
  qed
qed

lemma place_fixed_placed:
  assumes inv: "tracked s" and n: "n \<noteq> 0" and g: "fixed_answers h (fixed_want flags addr n) n s"
    and p: "place_fixed h flags addr n s = (q, s')"
  shows "placed (within (fixed_want flags addr n) n) s q n s' \<and> (q \<noteq> 0 \<longrightarrow> q = fixed_want flags addr n)"
proof -
  define w where "w = fixed_want flags addr n"
  define s0 where "s0 = ForgetDmemVa w n (on_shm (UnmapShm (en_shm h) w n) s)"
  have fit: "fits w n" and gs: "grants s (en_fixed h) w n" "grants s (en_fixed_again h) w n"
    using g by (simp_all add: fixed_answers_def w_def)
  let ?u = "UnmapShm (en_shm h) w n ((mm_shm s)\<lparr>sh_registry := mm_registry s\<rparr>)"
  have shm: "mm_shm s0 = ?u" "mm_registry s0 = sh_registry ?u" "mm_vma s0 = mm_vma s"
    by (simp_all add: s0_def on_shm_def Let_def)
  have tr0: "tracked_but (within w n) s0"
    using tracked_unmap_shm [OF inv fit, of "en_shm h"] by (rule tracked_but_cong [rotated -1]) (simp_all add: s0_def)
  have "set (sh_backings ?u) \<subseteq> set (sh_backings (mm_shm s))"
    using UnmapShm_shrunk [OF fit, of "(mm_shm s)\<lparr>sh_registry := mm_registry s\<rparr>" "en_shm h"] inv
    by (simp add: shrunk_def tracked_but_def views_fit_def)
  then have sub: "in_view (mm_shm s0) a \<Longrightarrow> in_view (mm_shm s) a" for a
    using in_view_mono shm(1) by simp
  then have g0: "grants s ans w n \<Longrightarrow> grants s0 ans w n" for ans
    by (auto simp: grants_def can_map_def)
  obtain q1 s1 where r: "host_alloc (en_fixed h) w n kReservecommit s0 = (q1, s1)" by fastforce
  note r1 = host_alloc_result [OF r] host_alloc_kept [OF r]
  have from0: "placed (within w n) s0 q n s' \<Longrightarrow> q \<noteq> 0 \<Longrightarrow> placed (within w n) s q n s'"
    by (simp add: placed_def shm)
  show ?thesis
  proof (cases "q1 = 0")
    case False
    then have "q = q1" "s' = s1" using p r by (simp_all add: place_fixed_def s0_def w_def fixed_want_def Let_def)
    then show ?thesis
      using host_alloc_placed [OF tr0 n g0 [OF gs(1)] r False, of "within w n"] from0 False by (simp add: w_def)
  next
    case True
    then have r2: "host_alloc (en_fixed_again h) w n kCommit s1 = (q, s')"
      using p r by (simp add: place_fixed_def s0_def w_def fixed_want_def Let_def)
    have tr1: "tracked_but (within w n) s1" using r1(2) tr0 by simp
    have vma1: "mm_vma s1 = mm_vma s0" using r1(1) by simp
    show ?thesis
    proof (cases "q = 0")
      case False
      have pl: "q = w" "placed (within w n) s1 q n s'"
        using host_alloc_placed [OF tr1 n _ r2 False, of "within w n"] g0 [OF gs(2)] r1 by simp_all
      have "placed (within w n) s0 q n s'" using pl(2) False by (simp add: placed_def vma1)
      then show ?thesis using from0 False pl(1) by (simp add: w_def)
    next
      case q: True
      have "en_fixed h = None" using True r gs(1) by (auto simp: host_alloc_def AllocMem_def grants_def can_map_def split: option.splits)
      moreover have "en_fixed_again h = None" using q r2 gs(2) by (auto simp: host_alloc_def AllocMem_def grants_def can_map_def split: option.splits)
      ultimately have none: "\<forall>(q, m, k) \<in> set (sh_maps (mm_shm s)). q \<ge> w + n \<or> q + m \<le> w"
        and same: "s' = s0"
        using g r r2 by (simp_all add: fixed_answers_def w_def host_alloc_def AllocMem_def)
      have "?u = (mm_shm s)\<lparr>sh_registry := mm_registry s\<rparr>" using none by (intro UnmapShm_none) simp
      then have same_parts: "mm_vma s' = mm_vma s" "sh_maps (mm_shm s') = sh_maps (mm_shm s)"
        "sh_backings (mm_shm s') = sh_backings (mm_shm s)" "mm_registry s' = mm_registry s"
        using shm same by simp_all
      then have "tracked s'" using inv by (intro tracked_but_cong [of s' s]) auto
      moreover have "in_view (mm_shm s') = in_view (mm_shm s)" using same_parts by (simp add: in_view_def fun_eq_iff)
      ultimately show ?thesis using q same_parts by (simp add: placed_def)
    qed
  qed
qed

section \<open>Mapping\<close>

lemma request_view:
  assumes "wf_map m" "fits p n" "req_ok p n r"
  shows "wf_map (map_request p n r m)" "view (map_request p n r m) a = (if within p n a then Some (req_attr p r a) else view m a)"
  using assms by (cases r; simp add: req_defs wf_map_Add wf_map_AddDirect view_Add view_AddDirect)+

lemma on_vma_request:
  assumes "tracked_but (within p n) s" "can_map s p n" "\<forall>a. within p n a \<longrightarrow> known (mm_registry s) a" "req_ok p n r"
  shows "tracked (on_vma d (map_request p n r) s)"
    "view (mm_vma (on_vma d (map_request p n r) s)) a = (if within p n a then Some (req_attr p r a) else view (mm_vma s) a)"
proof -
  let ?m = "(mm_vma s)\<lparr>host_trace := []\<rparr>"
  have fit: "fits p n" and wf: "wf_map ?m" using assms(1,2) by (simp_all add: can_map_def tracked_but_def)
  note v = request_view [OF wf fit assms(4)]
  show view: "view (mm_vma (on_vma d (map_request p n r) s)) a = (if within p n a then Some (req_attr p r a) else view (mm_vma s) a)" for a
    using v(2) [of a] by simp
  have g: "grown (mm_registry s) (mm_registry (on_vma d (map_request p n r) s))" by (rule on_vma_grown)
  have "known (mm_registry (on_vma d (map_request p n r) s)) a \<and> \<not> in_view (mm_shm s) a"
    if "view (mm_vma (on_vma d (map_request p n r) s)) a \<noteq> None" for a
  proof (cases "within p n a")
    case True
    then show ?thesis using assms g by (simp add: can_map_def grown_def tracked_but_def)
  next
    case False
    then have "view (mm_vma s) a \<noteq> None" using that by (simp only: view if_False not_False_eq_True)
    then have "known (mm_registry s) a \<and> \<not> in_view (mm_shm s) a" using False assms(1) unfolding tracked_but_def by blast
    then show ?thesis using g assms(1) by (simp add: grown_def tracked_but_def)
  qed
  then show "tracked (on_vma d (map_request p n r) s)"
    using assms(1) g v(1) by (simp add: tracked_but_def grown_def)
qed

definition memory_request :: "u32 \<Rightarrow> u32 \<Rightarrow> u64 \<Rightarrow> bool \<Rightarrow> map_req" where
  "memory_request prot flags offset direct =
     (if direct then Direct (prot AND kRwx) prot offset else Plain (prot AND kRwx) prot (flag_set flags 0x100))"

lemma memory_request_map:
  "map_request p n (memory_request prot flags offset direct) = (if direct then AddDirect p n (prot AND kRwx) prot offset
     else Add p n (prot AND kRwx) prot (flag_set flags 0x100))"
  by (auto simp: memory_request_def map_request_def fun_eq_iff)

text \<open>
  The outcome of a mapping call: nothing changed in the address space, or the range \<open>[p, p + n)\<close> reports
  the request and nothing else changed; then \<open>p\<close> is the fixed address, or all of the range was unmapped.
\<close>

definition mapped_at :: "u64 \<Rightarrow> u64 \<Rightarrow> map_req \<Rightarrow> mem \<Rightarrow> mem \<Rightarrow> bool" where
  "mapped_at p n r s s' \<longleftrightarrow> p \<noteq> 0 \<and> fits p n
     \<and> (\<forall>a. view (mm_vma s') a = (if within p n a then Some (req_attr p r a) else view (mm_vma s) a))"

definition unmapped_before :: "u64 \<Rightarrow> u64 \<Rightarrow> mem \<Rightarrow> bool" where
  "unmapped_before p n s \<longleftrightarrow> (\<forall>a. within p n a \<longrightarrow> view (mm_vma s) a = None)"

lemma placed_request:
  assumes pl: "placed R s p n s1" and p: "p \<noteq> 0" and r: "req_ok p n r"
  shows "tracked (on_vma d (map_request p n r) s1) \<and> mapped_at p n r s (on_vma d (map_request p n r) s1)"
  using on_vma_request [of p n s1 r d] assms by (simp add: placed_def mapped_at_def can_map_def)

lemma mmap_memory_outcome:
  assumes inv: "tracked s" and n: "n \<noteq> 0" "round_size n = n"
    and ans: "arena_answers h n s" "addr \<noteq> 0 \<Longrightarrow> mmap_answers h addr n flags s"
    and hint: "\<not> flag_set flags kFixed \<Longrightarrow> addr \<noteq> 0 \<Longrightarrow> \<not> Overlaps addr n (mm_vma s)"
    and phys: "direct \<Longrightarrow> fits offset n"
    and m: "mmap_memory h addr n prot flags offset direct s = (r, s')"
  shows "tracked s' \<and> (r = err_ptr eNOMEM \<and> mm_vma s' = mm_vma s
    \<or> (\<exists>p. r = (if flag_set flags kStack then p + n else p + (offset AND 0x3FFF))
        \<and> mapped_at p n (memory_request prot flags offset direct) s s'
        \<and> (flag_set flags kFixed \<and> addr \<noteq> 0 \<and> p = fixed_want flags addr n \<or> unmapped_before p n s)))"
proof -
  let ?req = "memory_request prot flags offset direct"
  let ?r = "\<lambda>p. if flag_set flags kStack then p + n else p + (offset AND 0x3FFF)"
  let ?fin = "\<lambda>p. on_vma (en_detach h) (map_request p n ?req)"
  have ok: "req_ok p n ?req" for p using phys by (simp add: req_ok_def memory_request_def)
  define a where "a = usable_hint flags prot addr"
  have a: "a \<noteq> 0 \<Longrightarrow> a = addr" "flag_set flags kFixed \<Longrightarrow> a = addr"
    by (auto simp: a_def usable_hint_def Let_def split: if_splits)
  define first where "first = (if a = 0 then (0, s) else if flag_set flags kFixed then place_fixed h flags a n s
    else place_hint h (in_user_stack h addr n) a n s)"
  obtain p1 s1 where f: "first = (p1, s1)" by fastforce
  define R where "R = (if flag_set flags kFixed \<and> addr \<noteq> 0 then within (fixed_want flags addr n) n else (\<lambda>_. False))"
  have pl1: "placed R s p1 n s1 \<and> (p1 \<noteq> 0 \<and> flag_set flags kFixed \<longrightarrow> addr \<noteq> 0 \<and> p1 = fixed_want flags addr n)"
  proof -
    consider "a = 0" | "a \<noteq> 0" "flag_set flags kFixed" | "a \<noteq> 0" "\<not> flag_set flags kFixed" by blast
    then show ?thesis
    proof cases
      case 1
      then show ?thesis using f inv by (simp add: first_def placed_def)
    next
      case 2
      have pf: "place_fixed h flags addr n s = (p1, s1)" using f a(2) 2 by (simp add: first_def)
      have addr: "addr \<noteq> 0" using a(1) 2(1) by simp
      then have "fixed_answers h (fixed_want flags addr n) n s" using ans(2) 2(2) by (simp add: mmap_answers_def)
      from place_fixed_placed [OF inv n(1) this pf] show ?thesis using addr 2(2) by (simp add: R_def)
    next
      case 3
      have ph: "place_hint h (in_user_stack h addr n) addr n s = (p1, s1)" using f a(1) 3 by (simp add: first_def)
      have addr: "addr \<noteq> 0" using a(1) 3(1) by simp
      then have "hint_answers h addr n s" using ans(2) 3(2) by (simp add: mmap_answers_def)
      from place_hint_placed [OF inv n(1) this hint [OF 3(2) addr] ph] show ?thesis using 3(2) by (simp add: R_def)
    qed
  qed
  have m1: "mmap_memory h addr n prot flags offset direct s =
      (case (if p1 \<noteq> 0 then (p1, s1) else low_alloc h n (map_align flags) s1) of (p, s) \<Rightarrow>
         if p = 0 then (err_ptr eNOMEM, s) else (?r p, ?fin p s))"
    unfolding mmap_memory_def Let_def memory_request_map a_def [symmetric] first_def [symmetric] f prod.case by (rule refl)
  show ?thesis
  proof (cases "p1 = 0")
    case False
    then have eq: "r = ?r p1" "s' = ?fin p1 s1" using m m1 by simp_all
    have "tracked s' \<and> mapped_at p1 n ?req s s'"
      unfolding eq(2) using placed_request [OF conjunct1 [OF pl1] False ok] .
    moreover have "flag_set flags kFixed \<and> addr \<noteq> 0 \<and> p1 = fixed_want flags addr n \<or> unmapped_before p1 n s"
      using pl1 False by (cases "flag_set flags kFixed") (simp_all add: placed_def unmapped_before_def R_def)
    ultimately show ?thesis using eq(1) by blast
  next
    case True
    obtain p2 s2 where l: "low_alloc h n (map_align flags) s1 = (p2, s2)" by fastforce
    have s1: "tracked s1" "mm_vma s1 = mm_vma s" using pl1 True by (simp_all add: placed_def)
    have "can_map s1 q n \<and> (\<forall>a. within q n a \<longrightarrow> view (mm_vma s1) a = None)" if "lt_mmap (en_arena h i) = Some q" for i q
    proof -
      have v: "host_vacant s q n" using ans(1) that by (auto simp: arena_answers_def)
      then have "can_map s1 q n" using pl1 True by (auto simp: host_vacant_def can_map_def placed_def)
      then show ?thesis using v tracked_known [OF inv] s1(2) by (simp add: host_vacant_def)
    qed
    note pl2 = low_alloc_placed [OF s1(1) n this l]
    show ?thesis
    proof (cases "p2 = 0")
      case True
      then show ?thesis using m m1 l \<open>p1 = 0\<close> pl2 s1(2) by (simp add: placed_def)
    next
      case False
      then have eq: "r = ?r p2" "s' = ?fin p2 s2" using m m1 l \<open>p1 = 0\<close> by simp_all
      have "tracked s' \<and> mapped_at p2 n ?req s1 s'"
        unfolding eq(2) using placed_request [OF pl2 False ok] .
      moreover have "unmapped_before p2 n s" using pl2 False s1(2) by (simp add: placed_def unmapped_before_def)
      ultimately show ?thesis using eq(1) s1(2) by (auto simp: mapped_at_def)
    qed
  qed
qed

end
