(* ===== verification/Guest_Map.thy ===== *)
theory Guest_Map
  imports Guest_Mem_Inv
begin

text \<open>
  The outcome of \<open>sys_mmap\<close>, for memory and for shared objects, and of \<open>sys_munmap\<close>: what the
  address space reports afterwards, and that the invariant holds.
\<close>

section \<open>Mapping a shared object\<close>

text \<open>
  The view of a shared object lands at the fixed address or at the range claimed in the arena; a fixed
  request that fails is only covered where no other view was unmapped for it.
\<close>

definition shm_answers :: "mem_env \<Rightarrow> u32 \<Rightarrow> u64 \<Rightarrow> u64 \<Rightarrow> bool \<Rightarrow> mem \<Rightarrow> bool" where
  "shm_answers h flags addr n fd_open s \<longleftrightarrow> arena_answers h n s
     \<and> (if flag_set flags kFixed then fixed_answers (h\<lparr>en_fixed := if fd_open then en_view h else None, en_fixed_again := None\<rparr>) addr n s
        else \<forall>q. en_view h = Some q \<longrightarrow> q = fst (low_alloc h n 0 s))"

lemma add_record_parts [simp]:
  "sh_registry (add_record p n fd t) = sh_registry t" "sh_backings (add_record p n fd t) = sh_backings t"
  "set (sh_maps (add_record p n fd t)) \<subseteq> set (sh_maps t) \<union> {(p, n, k) |k. True}"
  by (auto simp: add_record_def split: option.splits)

lemma tracked_add_record:
  assumes "tracked s" "fits p n"
  shows "tracked (on_shm (add_record p n fd) s)"
proof -
  let ?t = "(mm_shm s)\<lparr>sh_registry := mm_registry s\<rparr>"
  have "records_fit (sh_maps (add_record p n fd ?t))"
    using add_record_parts(3) [of p n fd ?t] assms by (fastforce simp: records_fit_def tracked_but_def)
  moreover have "in_view (add_record p n fd ?t) = in_view (mm_shm s)" "views_fit (add_record p n fd ?t) = views_fit (mm_shm s)"
    by (simp_all add: in_view_def views_fit_def fun_eq_iff)
  ultimately show ?thesis using assms(1) by (simp add: tracked_but_def on_shm_def Let_def)
qed

lemma tracked_track:
  assumes "tracked_but R s"
  shows "tracked_but R (s\<lparr>mm_registry := Host_Memory.TrackMemoryMapping p n False (mm_registry s)\<rparr>)"
  using assms by (rule tracked_but_cong [rotated -1]) simp_all

text \<open>Unmapping shared views over a fixed range: only that range may lose its tracking.\<close>

lemma unmap_shm_facts:
  assumes inv: "tracked s" and fit: "fits p n" and s1_def: "s1 = on_shm (UnmapShm h p n) s"
  shows "tracked_but (within p n) s1" "mm_vma s1 = mm_vma s" "can_map s q m \<Longrightarrow> can_map s1 q m"
    "\<forall>(q, m, k) \<in> set (sh_maps (mm_shm s)). q \<ge> p + n \<or> q + m \<le> p \<Longrightarrow> tracked s1"
proof -
  let ?t = "(mm_shm s)\<lparr>sh_registry := mm_registry s\<rparr>"
  show "tracked_but (within p n) s1" unfolding s1_def using inv fit by (rule tracked_unmap_shm)
  show "mm_vma s1 = mm_vma s" by (simp add: s1_def)
  have "set (sh_backings (UnmapShm h p n ?t)) \<subseteq> set (sh_backings (mm_shm s))"
    using UnmapShm_shrunk [OF fit, of ?t h] inv by (simp add: shrunk_def tracked_but_def views_fit_def)
  then show "can_map s q m \<Longrightarrow> can_map s1 q m"
    using in_view_mono [of "mm_shm s1" "mm_shm s"] by (auto simp: can_map_def s1_def on_shm_def Let_def)
  show "tracked s1" if "\<forall>(q, m, k) \<in> set (sh_maps (mm_shm s)). q \<ge> p + n \<or> q + m \<le> p"
  proof -
    have "UnmapShm h p n ?t = ?t" using that by (intro UnmapShm_none) simp
    then show ?thesis using inv by (intro tracked_but_cong [of s1 s]) (auto simp: s1_def on_shm_def)
  qed
qed

lemma shm_view_mapped:
  assumes s1: "tracked_but (within p n) s1" "mm_vma s1 = mm_vma s" and p: "can_map s1 p n" and n: "n \<noteq> 0"
    and s': "s' = on_shm (add_record p n fd) (on_vma d (Add p n pr prot False)
      (s1\<lparr>mm_registry := Host_Memory.TrackMemoryMapping p n False (mm_registry s1)\<rparr>))"
  shows "tracked s' \<and> mapped_at p n (Plain pr prot False) s s'"
proof -
  let ?s2 = "s1\<lparr>mm_registry := Host_Memory.TrackMemoryMapping p n False (mm_registry s1)\<rparr>"
  have t: "trackable p n" "fits p n" "p \<noteq> 0" using p n by (simp_all add: trackable_iff can_map_def)
  have 1: "tracked_but (within p n) ?s2" using s1(1) by (rule tracked_track)
  have 2: "can_map ?s2 p n" using p by (simp add: can_map_def)
  have 3: "\<forall>a. within p n a \<longrightarrow> known (mm_registry ?s2) a"
    using known_Track [OF _ t(1)] s1(1) by (simp add: tracked_but_def)
  have req: "Add p n pr prot False = map_request p n (Plain pr prot False)" by (simp add: map_request_def fun_eq_iff)
  note v = on_vma_request [OF 1 2 3, of "Plain pr prot False" d, folded req]
  have "req_ok p n (Plain pr prot False)" by (simp add: req_ok_def)
  note v = v [OF this]
  have "view (mm_vma s') a = (if within p n a then Some (req_attr p (Plain pr prot False) a) else view (mm_vma s) a)" for a
    using v(2) [of a] s1(2) by (simp add: s')
  then show ?thesis using tracked_add_record [OF v(1) t(2)] t by (simp add: mapped_at_def s')
qed

lemma ShmMap_outcome:
  assumes inv: "tracked s" and n: "n \<noteq> 0" "round_size n = n"
    and ans: "shm_answers h flags addr n fd_open s"
    and opened: "fd_open \<longleftrightarrow> (\<exists>b. backing_of (so_backing sobj) (mm_shm (if flag_set flags kFixed then on_shm (UnmapShm (en_shm h) addr n) s else s)) = Some b \<and> bk_fd b)"
    and m: "ShmMap h fd sobj addr n offset prot flags s = (r, s')"
  shows "tracked s' \<and> (mm_vma s' = mm_vma s \<and> r \<in> {err_ptr eINVAL, err_ptr eACCES, err_ptr eNOMEM}
     \<or> mapped_at r n (Plain (prot AND 7) prot False) s s'
       \<and> (flag_set flags kFixed \<and> r = addr \<or> unmapped_before r n s))"
proof -
  let ?fix = "flag_set flags kFixed"
  define s1 where "s1 = (if ?fix then on_shm (UnmapShm (en_shm h) addr n) s else s)"
  let ?open = "case backing_of (so_backing sobj) (mm_shm s1) of None \<Rightarrow> False | Some b \<Rightarrow> bk_fd b"
  have op: "?open = fd_open" unfolding opened s1_def by (auto split: option.splits)
  let ?fin = "\<lambda>p t. on_shm (add_record p n fd) (on_vma (en_detach h) (Add p n (prot AND 7) prot False)
    (t\<lparr>mm_registry := Host_Memory.TrackMemoryMapping p n False (mm_registry t)\<rparr>))"
  define bad where "bad \<longleftrightarrow> offset AND 0x3fff \<noteq> 0 \<or> offset > 0x7FFFFFFFFFFFFFFF \<or> n > 0x7FFFFFFFFFFFFFFF - offset \<or> flags AND 3 = 0 \<or> flags AND 3 = 3"
  define ro where "ro \<longleftrightarrow> flag_set flags 1 \<and> flag_set prot 2 \<and> \<not> so_writable sobj"
  obtain w s2 where place: "(if ?fix then (addr, s1) else low_alloc h n 0 s1) = (w, s2)" by fastforce
  have eq: "(r, s') = (if bad then (err_ptr eINVAL, s) else if ro then (err_ptr eACCES, s)
      else if \<not> fd_open then (err_ptr eNOMEM, s1)
      else if \<not> ?fix \<and> w = 0 then (err_ptr eNOMEM, s2)
      else case en_view h of None \<Rightarrow> (err_ptr eNOMEM, s2) | Some p \<Rightarrow> (p, ?fin p s2))"
    unfolding m [symmetric] ShmMap_def bad_def [symmetric] ro_def [symmetric] s1_def [symmetric] Let_def op place prod.case by (rule refl)
  show ?thesis
  proof (cases ?fix)
    case True
    have g: "fits addr n" "grants s (if fd_open then en_view h else None) addr n"
      "(if fd_open then en_view h else None) = None \<Longrightarrow> \<forall>(q, m, k) \<in> set (sh_maps (mm_shm s)). q \<ge> addr + n \<or> q + m \<le> addr"
      using ans True by (simp_all add: shm_answers_def fixed_answers_def)
    have "s1 = on_shm (UnmapShm (en_shm h) addr n) s" using True by (simp add: s1_def)
    moreover have "s2 = s1" "w = addr" using place True by auto
    ultimately have s2: "s2 = s1" "w = addr" "s1 = on_shm (UnmapShm (en_shm h) addr n) s" by blast+
    note f = unmap_shm_facts [OF inv g(1) s2(3)]
    consider "bad \<or> ro" | "\<not> bad" "\<not> ro" "(if fd_open then en_view h else None) = None"
      | p where "\<not> bad" "\<not> ro" "fd_open" "en_view h = Some p" by (cases "en_view h"; cases fd_open) auto
    then show ?thesis
    proof cases
      case 1
      then have "s' = s \<and> (r = err_ptr eINVAL \<or> r = err_ptr eACCES)" using eq by (cases bad) simp_all
      then show ?thesis using inv by auto
    next
      case 2
      then have "s' = s1 \<and> r = err_ptr eNOMEM" using eq True s2 by (auto split: if_splits)
      then show ?thesis using f(2) f(4) [OF g(3) [OF 2(3)]] s2 by simp
    next
      case 3
      have p: "p = addr" "can_map s addr n" using g(2) 3 by (auto simp: grants_def)
      have "s' = ?fin addr s1 \<and> r = addr" using eq True s2 3 p by simp
      then show ?thesis
        using shm_view_mapped [OF f(1,2) f(3) [OF p(2)] n(1), of s' fd "en_detach h" "prot AND 7" prot] s2 True by simp
    qed
  next
    case False
    have s1: "s1 = s" using False by (simp add: s1_def)
    have l: "low_alloc h n 0 s = (w, s2)" using place False s1 by simp
    have "can_map s q n \<and> (\<forall>a. within q n a \<longrightarrow> view (mm_vma s) a = None)" if "lt_mmap (en_arena h i) = Some q" for i q
      using ans that tracked_known [OF inv] by (auto simp: shm_answers_def arena_answers_def host_vacant_def)
    note pl = low_alloc_placed [OF inv n this l]
    have w: "en_view h = Some q \<Longrightarrow> q = w" for q using ans False l by (simp add: shm_answers_def)
    have vma: "mm_vma s2 = mm_vma s" using pl by (simp add: placed_def)
    consider "bad \<or> ro \<or> \<not> fd_open" | "\<not> bad" "\<not> ro" "fd_open" "w = 0 \<or> en_view h = None"
      | "\<not> bad" "\<not> ro" "fd_open" "w \<noteq> 0" "en_view h = Some w" using w by (cases "en_view h") auto
    then show ?thesis
    proof cases
      case 1
      then have "s' = s \<and> (r = err_ptr eINVAL \<or> r = err_ptr eACCES \<or> r = err_ptr eNOMEM)"
        using eq s1 by (cases bad; cases ro) simp_all
      then show ?thesis using inv by auto
    next
      case 2
      then have r: "s' = s2 \<and> r = err_ptr eNOMEM" using eq False by (auto split: if_splits)
      have "tracked s2"
      proof (cases "w = 0")
        case True
        then show ?thesis using pl by (simp add: placed_def)
      next
        case w0: False
        then show ?thesis using low_alloc_result [OF l] inv by (intro tracked_but_cong [of s2 s]) auto
      qed
      then show ?thesis using r vma by simp
    next
      case 3
      have "s' = ?fin w s2 \<and> r = w" using eq False 3 by simp
      moreover have "unmapped_before w n s" using pl 3 by (simp add: placed_def unmapped_before_def)
      ultimately show ?thesis
        using shm_view_mapped [OF _ vma _ n(1), of w s' fd "en_detach h" "prot AND 7" prot] pl 3 by (simp add: placed_def)
    qed
  qed
qed

section \<open>\<open>sys_mmap\<close>\<close>

lemma round_size_twice [simp]: "round_size (round_size n) = round_size n"
proof -
  have "(((n + 0x3FFF) AND NOT 0x3FFF) AND 0x3FFF :: u64) = 0" by (simp add: and.assoc)
  then have "((n + 0x3FFF) AND NOT 0x3FFF) + 0x3FFF = (((n + 0x3FFF) AND NOT 0x3FFF) OR 0x3FFF :: u64)"
    by (rule disjunctive_add_eq_or)
  then show ?thesis by (simp add: round_size_def bit.conj_disj_distrib2 and.assoc)
qed

text \<open>
  What the host may answer to one \<open>sys_mmap\<close>; descriptors of devices, whose \<open>Map\<close> is their own code,
  are left out.
\<close>

definition shm_opened :: "mem_env \<Rightarrow> u32 \<Rightarrow> shm_object \<Rightarrow> u64 \<Rightarrow> u64 \<Rightarrow> mem \<Rightarrow> bool" where
  "shm_opened h flags sobj addr n s \<longleftrightarrow>
     (\<exists>b. backing_of (so_backing sobj) (mm_shm (if flag_set flags kFixed then on_shm (UnmapShm (en_shm h) addr n) s else s)) = Some b \<and> bk_fd b)"

definition sys_mmap_answers :: "mem_env \<Rightarrow> u64 \<Rightarrow> u64 \<Rightarrow> u32 \<Rightarrow> u32 \<Rightarrow> mem \<Rightarrow> bool" where
  "sys_mmap_answers h addr0 len flags0 fd s \<longleftrightarrow>
     (let n = round_size len; flags = mmap_flags flags0; addr = hint_of flags addr0 n (mm_vma s)
      in case (if fd = - 1 then None else map_of (sh_fds (mm_shm s)) fd) of
           Some sobj \<Rightarrow> shm_answers h flags addr n (shm_opened h flags sobj addr n s) s
         | None \<Rightarrow> (fd = - 1 \<or> en_object h fd = No_map_object) \<and> arena_answers h n s
             \<and> (addr \<noteq> 0 \<longrightarrow> mmap_answers h addr n flags s))"

lemma hint_of_free: "\<not> flag_set flags kFixed \<Longrightarrow> hint_of flags addr n m \<noteq> 0 \<Longrightarrow> \<not> Overlaps (hint_of flags addr n m) n m"
  by (auto simp: hint_of_def split: if_splits)

text \<open>The checks at the entry of \<open>sys_mmap\<close>.\<close>

definition mmap_refused :: "u64 \<Rightarrow> u64 \<Rightarrow> u32 \<Rightarrow> u32 \<Rightarrow> u32 \<Rightarrow> bool" where
  "mmap_refused addr n prot flags fd \<longleftrightarrow> n = 0
     \<or> flag_set flags kStack \<and> (fd \<noteq> - 1 \<or> prot AND 3 \<noteq> 3)
     \<or> flag_set flags kFixed \<and> (addr AND 0x3FFF \<noteq> 0 \<or> \<not> fits addr n)"

lemma sys_mmap_memory:
  assumes "fd = - 1 \<or> map_of (sh_fds (mm_shm s)) fd = None \<and> en_object h fd = No_map_object"
  shows "sys_mmap h addr len prot flags0 fd offset s = Some
    (let n = round_size len; flags = mmap_flags flags0
     in if mmap_refused addr n prot flags fd then (err_ptr eINVAL, s)
        else mmap_memory h (hint_of flags addr n (mm_vma s)) n (if flag_set flags 0x100 then 0 else prot) flags
               (if flag_set flags kStack then 0 else offset) False s)"
  using assms by (auto simp: sys_mmap_def mmap_refused_def Let_def)

lemma sys_mmap_shared:
  assumes "fd \<noteq> - 1" "map_of (sh_fds (mm_shm s)) fd = Some sobj"
  shows "sys_mmap h addr len prot flags0 fd offset s = Some
    (let n = round_size len; flags = mmap_flags flags0
     in if mmap_refused addr n prot flags fd then (err_ptr eINVAL, s)
        else ShmMap h fd sobj (hint_of flags addr n (mm_vma s)) n
               (if flag_set flags kStack then 0 else offset) (if flag_set flags 0x100 then 0 else prot) flags s)"
  using assms by (auto simp: sys_mmap_def mmap_refused_def Let_def)

definition mmap_errors :: "u64 set" where
  "mmap_errors = {err_ptr eINVAL, err_ptr eACCES, err_ptr eNOMEM}"

lemma sys_mmap_memory_outcome:
  assumes inv: "tracked s" and ans: "sys_mmap_answers h addr len flags0 fd s"
    and fd: "fd = - 1 \<or> map_of (sh_fds (mm_shm s)) fd = None \<and> en_object h fd = No_map_object"
    and m: "sys_mmap h addr len prot flags0 fd offset s = Some (r, s')"
  defines "n \<equiv> round_size len" and "flags \<equiv> mmap_flags flags0"
  shows "tracked s' \<and> (r \<in> mmap_errors \<and> mm_vma s' = mm_vma s
     \<or> (\<exists>p. r = (if flag_set flags kStack then p + n else p + (offset AND 0x3FFF))
         \<and> mapped_at p n (memory_request (if flag_set flags 0x100 then 0 else prot) flags 0 False) s s'
         \<and> (flag_set flags kFixed \<and> addr \<noteq> 0 \<and> p = fixed_want flags addr n \<or> unmapped_before p n s)))"
proof (cases "mmap_refused addr n prot flags fd")
  case True
  then show ?thesis using m inv by (simp add: sys_mmap_memory [OF fd] n_def flags_def mmap_errors_def)
next
  case False
  let ?a = "hint_of flags addr n (mm_vma s)"
  let ?p = "if flag_set flags 0x100 then 0 else prot"
  let ?o = "if flag_set flags kStack then 0 else offset"
  have mm: "mmap_memory h ?a n ?p flags ?o False s = (r, s')"
    using m False by (simp add: sys_mmap_memory [OF fd] n_def flags_def Let_def)
  have n: "n \<noteq> 0" "round_size n = n" using False by (simp_all add: mmap_refused_def n_def)
  have "(if fd = - 1 then None else map_of (sh_fds (mm_shm s)) fd) = None" using fd by auto
  then have an: "arena_answers h n s" "?a \<noteq> 0 \<Longrightarrow> mmap_answers h ?a n flags s"
    using ans by (auto simp: sys_mmap_answers_def Let_def n_def flags_def)
  have a: "flag_set flags kFixed \<Longrightarrow> ?a = addr" by (simp add: hint_of_def)
  have req: "memory_request ?p flags ?o False = memory_request ?p flags 0 False" by (simp add: memory_request_def)
  have "tracked s' \<and> (r = err_ptr eNOMEM \<and> mm_vma s' = mm_vma s
    \<or> (\<exists>p. r = (if flag_set flags kStack then p + n else p + (?o AND 0x3FFF))
        \<and> mapped_at p n (memory_request ?p flags ?o False) s s'
        \<and> (flag_set flags kFixed \<and> ?a \<noteq> 0 \<and> p = fixed_want flags ?a n \<or> unmapped_before p n s)))"
    using inv n an hint_of_free _ mm by (rule mmap_memory_outcome) simp_all
  then show ?thesis unfolding req using a by (cases "flag_set flags kStack"; cases "flag_set flags kFixed") (auto simp: mmap_errors_def)
qed

lemma sys_mmap_shared_outcome:
  assumes inv: "tracked s" and ans: "sys_mmap_answers h addr len flags0 fd s"
    and fd: "fd \<noteq> - 1" "map_of (sh_fds (mm_shm s)) fd = Some sobj"
    and m: "sys_mmap h addr len prot flags0 fd offset s = Some (r, s')"
  defines "n \<equiv> round_size len" and "flags \<equiv> mmap_flags flags0"
  shows "tracked s' \<and> (r \<in> mmap_errors \<and> mm_vma s' = mm_vma s
     \<or> mapped_at r n (Plain ((if flag_set flags 0x100 then 0 else prot) AND 7) (if flag_set flags 0x100 then 0 else prot) False) s s'
         \<and> (flag_set flags kFixed \<and> r = addr \<or> unmapped_before r n s))"
proof (cases "mmap_refused addr n prot flags fd")
  case True
  then show ?thesis using m inv by (simp add: sys_mmap_shared [OF fd] n_def flags_def mmap_errors_def)
next
  case False
  let ?a = "hint_of flags addr n (mm_vma s)"
  let ?p = "if flag_set flags 0x100 then 0 else prot"
  have mm: "ShmMap h fd sobj ?a n (if flag_set flags kStack then 0 else offset) ?p flags s = (r, s')"
    using m False by (simp add: sys_mmap_shared [OF fd] n_def flags_def Let_def)
  have n: "n \<noteq> 0" "round_size n = n" using False by (simp_all add: mmap_refused_def n_def)
  have an: "shm_answers h flags ?a n (shm_opened h flags sobj ?a n s) s"
    using ans fd by (simp add: sys_mmap_answers_def Let_def n_def flags_def)
  have a: "flag_set flags kFixed \<Longrightarrow> ?a = addr" by (simp add: hint_of_def)
  from ShmMap_outcome [OF inv n an shm_opened_def mm] show ?thesis using a by (auto simp: mmap_errors_def)
qed

lemma sys_mmap_tracked:
  assumes "tracked s" "sys_mmap_answers h addr len flags0 fd s" "sys_mmap h addr len prot flags0 fd offset s = Some (r, s')"
  shows "tracked s'"
proof (cases "if fd = - 1 then None else map_of (sh_fds (mm_shm s)) fd")
  case None
  then have "fd = - 1 \<or> map_of (sh_fds (mm_shm s)) fd = None \<and> en_object h fd = No_map_object"
    using assms(2) by (auto simp: sys_mmap_answers_def Let_def split: if_splits)
  from sys_mmap_memory_outcome [OF assms(1,2) this assms(3)] show ?thesis by blast
next
  case (Some sobj)
  then have "fd \<noteq> - 1" "map_of (sh_fds (mm_shm s)) fd = Some sobj" by (auto split: if_splits)
  from sys_mmap_shared_outcome [OF assms(1,2) this assms(3)] show ?thesis by blast
qed

section \<open>Unmapping\<close>

lemma tracked_but_lose:
  assumes "tracked_but (within p n) s" "mm_vma s' = mm_vma s" "mm_shm s' = mm_shm s" "registry_wf (mm_registry s')"
    "\<And>a. known (mm_registry s) a \<Longrightarrow> \<not> within p n a \<Longrightarrow> known (mm_registry s') a"
  shows "tracked_but (within p n) s'"
  using assms by (simp add: tracked_but_def)

lemma on_vma_remove:
  assumes "tracked_but (within p n) s" "fits p n"
  shows "tracked (on_vma d (Remove p n) s)"
    "view (mm_vma (on_vma d (Remove p n) s)) a = (if within p n a then None else view (mm_vma s) a)"
proof -
  let ?m = "(mm_vma s)\<lparr>host_trace := []\<rparr>"
  have wf: "wf_map ?m" using assms(1) by (simp add: tracked_but_def)
  show view: "view (mm_vma (on_vma d (Remove p n) s)) a = (if within p n a then None else view (mm_vma s) a)" for a
    using view_Remove [OF wf assms(2), of a] by simp
  have g: "grown (mm_registry s) (mm_registry (on_vma d (Remove p n) s))" by (rule on_vma_grown)
  have "known (mm_registry (on_vma d (Remove p n) s)) a \<and> \<not> in_view (mm_shm s) a"
    if "view (mm_vma (on_vma d (Remove p n) s)) a \<noteq> None" for a
  proof -
    have "\<not> within p n a" "view (mm_vma s) a \<noteq> None" using that unfolding view by (simp_all split: if_splits)
    then have "known (mm_registry s) a \<and> \<not> in_view (mm_shm s) a" using assms(1) unfolding tracked_but_def by blast
    then show ?thesis using g assms(1) by (simp add: grown_def tracked_but_def)
  qed
  then show "tracked (on_vma d (Remove p n) s)"
    using assms(1) g wf_map_Remove [OF wf assms(2)] by (simp add: tracked_but_def grown_def)
qed

lemma sys_munmap_steps:
  assumes inv: "tracked s" and fit: "fits p n" and nz: "p \<noteq> 0" "n \<noteq> 0"
  shows "tracked (snd (sys_munmap h p n s))"
    "view (mm_vma (snd (sys_munmap h p n s))) a = (if within p n a then None else view (mm_vma s) a)"
    "known (mm_registry (snd (sys_munmap h p n s))) a \<Longrightarrow> \<not> within p n a"
proof -
  define s1 where "s1 = on_shm (UnmapShm (en_shm h) p n) s"
  define s2 where "s2 = on_shm (Shm.AudioDaemonForgetRange p n) s1"
  define s3 where "s3 = (if whole_reservation p n (mm_vma s2) then s2\<lparr>mm_registry := FreeMem (en_munmap h) p n (mm_registry s2)\<rparr> else s2)"
  define s4 where "s4 = on_vma (en_detach h) (Remove p n) s3"
  define s5 where "s5 = on_va (NoteGuestReleased p n) s4"
  have eq: "snd (sys_munmap h p n s) = ForgetDmemVa p n s5"
    using nz by (simp add: sys_munmap_def Let_def s1_def s2_def s3_def s4_def s5_def)
  note f = unmap_shm_facts [OF inv fit s1_def]
  have t2: "tracked_but (within p n) s2"
    using f(1) by (rule tracked_but_cong [rotated -1]) (simp_all add: s2_def on_shm_def Shm.AudioDaemonForgetRange_def)
  have v2: "mm_vma s2 = mm_vma s" using f(2) by (simp add: s2_def)
  have t3: "tracked_but (within p n) s3"
  proof (cases "whole_reservation p n (mm_vma s2)")
    case True
    have wf: "registry_wf (mm_registry s2)" using t2 by (simp add: tracked_but_def)
    show ?thesis
      using t2 by (rule tracked_but_lose) (use True FreeMem_correct [OF wf, of "en_munmap h" p n] fit in \<open>auto simp: s3_def known_def\<close>)
  qed (simp add: s3_def t2)
  have v3: "mm_vma s3 = mm_vma s" by (simp add: s3_def v2)
  note r = on_vma_remove [OF t3 fit, of "en_detach h", folded s4_def]
  have wf: "registry_wf (mm_registry s4)" using r(1) by (simp add: tracked_but_def)
  have reg5: "mm_registry s5 = ForgetMemoryMapping p n (mm_registry s4)" and s5: "mm_vma s5 = mm_vma s4" "mm_shm s5 = mm_shm s4"
    using nz by (simp_all add: s5_def on_va_def with_va_def NoteGuestReleased_def)
  note fg = ForgetMemoryMapping_correct [OF wf, of p n]
  have tr: "trackable p n" using nz fit by (simp add: trackable_iff)
  have known5: "known (mm_registry s5) a \<longleftrightarrow> known (mm_registry s4) a \<and> \<not> within p n a" for a
    using fg tr by (auto simp: reg5 known_def)
  have view4: "view (mm_vma s4) a = (if within p n a then None else view (mm_vma s) a)" for a
    using r(2) [of a] by (simp add: v3)
  show "view (mm_vma (snd (sys_munmap h p n s))) a = (if within p n a then None else view (mm_vma s) a)"
    using view4 by (simp add: eq s5)
  show "known (mm_registry (snd (sys_munmap h p n s))) a \<Longrightarrow> \<not> within p n a"
    using known5 by (simp add: eq)
  have "known (mm_registry s5) a \<and> \<not> in_view (mm_shm s4) a" if "view (mm_vma s4) a \<noteq> None" for a
  proof -
    have "\<not> within p n a" using that by (auto simp: view4)
    moreover have "known (mm_registry s4) a \<and> \<not> in_view (mm_shm s4) a" using r(1) that unfolding tracked_but_def by blast
    ultimately show ?thesis using known5 by simp
  qed
  then show "tracked (snd (sys_munmap h p n s))"
    using r(1) fg by (simp add: eq tracked_but_def s5 reg5)
qed

section \<open>Direct mappings\<close>

lemma tracked_any: "tracked s \<Longrightarrow> tracked_but R s"
  using tracked_but_mono [of "\<lambda>_. False" s R] by simp

text \<open>A direct mapping over a range the host granted.\<close>

lemma on_vma_direct:
  assumes inv: "tracked_but (within p n) s" and p: "can_map s p n" "n \<noteq> 0" and phys: "fits off n"
  shows "tracked (on_vma d (AddDirect p n prot sp off) s)"
    "view (mm_vma (on_vma d (AddDirect p n prot sp off) s)) a =
      (if within p n a then Some (prot, sp, None, False, Some (off + (a - p))) else view (mm_vma s) a)"
proof -
  let ?f = "AddDirect p n prot sp off"
  let ?m = "(mm_vma s)\<lparr>host_trace := []\<rparr>"
  have fit: "fits p n" and tr: "trackable p n" using p by (simp_all add: can_map_def trackable_iff)
  have wf: "wf_map ?m" and reg: "registry_wf (mm_registry s)" using inv by (simp_all add: tracked_but_def)
  have trace: "\<exists>cs. host_trace (?f ?m) = Vm_Map.TrackMemoryMapping p n # cs"
    by (simp add: AddDirect_def push_page_def MappingChanged_def emit_def punch_map_def)
  then obtain cs where cs: "host_trace (?f ?m) = Vm_Map.TrackMemoryMapping p n # cs" ..
  let ?s1 = "s\<lparr>mm_vma := (?f ?m)\<lparr>host_trace := []\<rparr>, mm_registry := Host_Memory.TrackMemoryMapping p n False (mm_registry s)\<rparr>"
  have eq: "on_vma d ?f s = fold (host_effect d) cs ?s1" by (simp add: on_vma_def Let_def cs)
  have g: "grown (mm_registry ?s1) (mm_registry (on_vma d ?f s))" unfolding eq by (rule host_effects_grown)
  have reg1: "registry_wf (mm_registry ?s1)" using TrackMemoryMapping_correct [OF reg tr] by simp
  have in1: "known (mm_registry (on_vma d ?f s)) a" if "within p n a \<or> known (mm_registry s) a" for a
  proof -
    have "known (mm_registry ?s1) a" using that known_Track [OF reg tr, of a False] grown_Track [of "mm_registry s" p n False] reg
      by (auto simp: grown_def)
    then show ?thesis using g reg1 by (simp add: grown_def)
  qed
  show view: "view (mm_vma (on_vma d ?f s)) a = (if within p n a then Some (prot, sp, None, False, Some (off + (a - p))) else view (mm_vma s) a)" for a
    using view_AddDirect [OF wf fit, of prot sp off a] by simp
  have "known (mm_registry (on_vma d ?f s)) a \<and> \<not> in_view (mm_shm s) a" if "view (mm_vma (on_vma d ?f s)) a \<noteq> None" for a
  proof (cases "within p n a")
    case True
    then show ?thesis using in1 p(1) by (simp add: can_map_def)
  next
    case False
    then have "view (mm_vma s) a \<noteq> None" using that by (simp only: view if_False not_False_eq_True)
    then have "known (mm_registry s) a \<and> \<not> in_view (mm_shm s) a" using inv False unfolding tracked_but_def by blast
    then show ?thesis using in1 by blast
  qed
  then show "tracked (on_vma d ?f s)"
    using inv g reg1 wf_map_AddDirect [OF wf fit phys] by (simp add: tracked_but_def grown_def)
qed

end
