(* ===== verification/Dmem_Ps5.thy ===== *)
theory Dmem_Ps5
  imports Guest_Map
begin

text \<open>
  Mapping direct memory on the PS5 (\<open>delta/kern/ps5/dev/dma_dev.cc\<close>): \<open>DmaDevicePs5::Map\<close> with the
  system block of the graphics drivers, the table of what each address maps, and the contents a new
  mapping takes over. \<open>DmemBackingFd\<close>, \<open>DmemBackingSize\<close> and the answers of the host are those of the
  environment: \<open>en_fixed\<close> answers the fixed map of the system block, \<open>en_probe\<close> the map of a hint,
  \<open>en_view\<close> the fixed map at the chosen base. \<open>no_carry\<close> is the developer option.
\<close>

section \<open>The device\<close>

definition kAgcSystemBase :: u64 where "kAgcSystemBase = 0xfe0000000"
definition kAgcSystemSize :: u64 where "kAgcSystemSize = 0x200000"

text \<open>How many bytes of an existing mapping at the address a new one of the length takes over.\<close>

definition carry_length :: "bool \<Rightarrow> u64 \<Rightarrow> u64 \<Rightarrow> mem \<Rightarrow> u64" where
  "carry_length no_carry va len s = (case map_of (mm_dmem_va s) va of None \<Rightarrow> 0
     | Some n \<Rightarrow> if no_carry then 0 else min len n)"

definition agc_system_block :: "u32 \<Rightarrow> u64 \<Rightarrow> u64 \<Rightarrow> bool" where
  "agc_system_block flags addr len \<longleftrightarrow> \<not> flag_set flags kFixed \<and> addr = kAgcSystemBase \<and> len \<le> kAgcSystemSize"

definition agc_follow_up :: "u32 \<Rightarrow> u64 \<Rightarrow> u64 \<Rightarrow> mem \<Rightarrow> bool" where
  "agc_follow_up flags addr len s \<longleftrightarrow> \<not> flag_set flags kFixed \<and> addr = 0 \<and> len = kAgcSystemSize \<and> mm_gnm_base s \<and> \<not> mm_agc_base s"

definition other_hint_into_block :: "u32 \<Rightarrow> u64 \<Rightarrow> u64 \<Rightarrow> bool" where
  "other_hint_into_block flags addr len \<longleftrightarrow> \<not> flag_set flags kFixed \<and> \<not> agc_system_block flags addr len
     \<and> addr < kAgcSystemBase + kAgcSystemSize \<and> addr + len > kAgcSystemBase"

definition carried :: "bool \<Rightarrow> u32 \<Rightarrow> u64 \<Rightarrow> u64 \<Rightarrow> mem \<Rightarrow> u64" where
  "carried no_carry flags addr len s =
     (if agc_follow_up flags addr len s then carry_length no_carry kAgcSystemBase len s
      else if addr \<noteq> 0 \<and> (flag_set flags kFixed \<or> addr = kAgcSystemBase) then carry_length no_carry addr len s
      else 0)"

text \<open>The first attempt: the system block at its base, or a hint that does not touch the block.\<close>

definition map_first :: "mem_env \<Rightarrow> u32 \<Rightarrow> u64 \<Rightarrow> u64 \<Rightarrow> mem \<Rightarrow> u64 option \<times> mem" where
  "map_first h flags addr len s =
     (if agc_system_block flags addr len \<or> agc_follow_up flags addr len s then
        (en_fixed h, if en_fixed h = None then s
           else if len = kAgcSystemSize then s\<lparr>mm_agc_base := True\<rparr> else s\<lparr>mm_gnm_base := True\<rparr>)
      else if addr \<noteq> 0 \<and> \<not> flag_set flags kFixed \<and> \<not> other_hint_into_block flags addr len
      then (if en_probe h = Some addr then Some addr else None, s)
      else (None, s))"

definition map_second :: "mem_env \<Rightarrow> u32 \<Rightarrow> u64 \<Rightarrow> u64 \<Rightarrow> mem \<Rightarrow> u64 option \<times> mem" where
  "map_second h flags addr len s =
     (case (if addr \<noteq> 0 \<and> flag_set flags kFixed then (addr, s) else low_alloc h len 0 s) of
        (b, s) \<Rightarrow> (if b = 0 then None else en_view h, s))"

definition map_finish :: "u64 \<Rightarrow> u64 \<Rightarrow> u64 \<Rightarrow> mem \<Rightarrow> mem" where
  "map_finish carry p len s =
     (let s = on_va (NoteGuestTaken p len) s;
          s = add_event (Aperture p len) s;
          s = (if carry = 0 then s else add_event (Carried p carry) s)
      in s\<lparr>mm_dmem_va := AList.update p len (mm_dmem_va s)\<rparr>)"

definition DmaDevicePs5_Map :: "mem_env \<Rightarrow> bool \<Rightarrow> u64 \<Rightarrow> u64 \<Rightarrow> u32 \<Rightarrow> u32 \<Rightarrow> u64 \<Rightarrow> mem \<Rightarrow> u64 \<times> mem" where
  "DmaDevicePs5_Map h no_carry addr len prot flags offset s =
     (if \<not> en_dmem_fd h \<or> len = 0 \<or> offset + len > en_dmem_size h then (- 1, s)
      else
        let carry = carried no_carry flags addr len s
        in case map_first h flags addr len s of
             (Some p, s) \<Rightarrow> (p, map_finish carry p len s)
           | (None, s) \<Rightarrow>
               (case map_second h flags addr len s of
                  (None, s) \<Rightarrow> (- 1, s)
                | (Some p, s) \<Rightarrow> (p, map_finish carry p len s)))"

section \<open>Outcome\<close>

definition ps5_answers :: "mem_env \<Rightarrow> u32 \<Rightarrow> u64 \<Rightarrow> u64 \<Rightarrow> mem \<Rightarrow> bool" where
  "ps5_answers h flags addr len s \<longleftrightarrow> arena_answers h len s
     \<and> (agc_system_block flags addr len \<or> agc_follow_up flags addr len s \<longrightarrow> grants s (en_fixed h) kAgcSystemBase len)
     \<and> (en_probe h = Some addr \<longrightarrow> host_vacant s addr len)
     \<and> (if addr \<noteq> 0 \<and> flag_set flags kFixed then grants s (en_view h) addr len
        else \<forall>q. en_view h = Some q \<longrightarrow> q = fst (low_alloc h len 0 s))"

text \<open>A direct mapping is fixed, or the system block, or was unmapped before.\<close>

definition ps5_place :: "u32 \<Rightarrow> u64 \<Rightarrow> u64 \<Rightarrow> mem \<Rightarrow> u64 \<Rightarrow> bool" where
  "ps5_place flags addr len s p \<longleftrightarrow> flag_set flags kFixed \<and> p = addr
     \<or> (agc_system_block flags addr len \<or> agc_follow_up flags addr len s) \<and> p = kAgcSystemBase
     \<or> unmapped_before p len s"

lemma map_finish_tracked:
  assumes "tracked s" "can_map s p len" "len \<noteq> 0"
  shows "tracked_but (within p len) (map_finish c p len s)" "can_map (map_finish c p len s) p len" "mm_vma (map_finish c p len s) = mm_vma s"
proof -
  have parts: "mm_vma (map_finish c p len s) = mm_vma s" "mm_shm (map_finish c p len s) = mm_shm s"
    "mm_registry (map_finish c p len s) = ForgetMemoryMapping p len (mm_registry s)"
    using assms(2,3) by (simp_all add: map_finish_def Let_def add_event_def on_va_def with_va_def NoteGuestTaken_def can_map_def)
  show "mm_vma (map_finish c p len s) = mm_vma s" by (rule parts)
  show "can_map (map_finish c p len s) p len" using assms(2) parts by (simp add: can_map_def)
  have wf: "registry_wf (mm_registry s)" using assms(1) by (simp add: tracked_but_def)
  note f = ForgetMemoryMapping_correct [OF wf, of p len]
  show "tracked_but (within p len) (map_finish c p len s)"
    using tracked_any [OF assms(1)] parts(1,2) by (rule tracked_but_lose) (use f parts(3) in \<open>auto simp: known_def\<close>)
qed

lemma low_alloc_kept:
  assumes "low_alloc h n al s = (q, s')" "tracked s"
  shows "tracked s'" "mm_vma s' = mm_vma s" "mm_shm s' = mm_shm s"
  using low_alloc_result [OF assms(1)] assms(2) by (auto intro: tracked_but_cong [of s' s])

lemma ps5_map_placed:
  assumes inv: "tracked s" and n: "len \<noteq> 0" "round_size len = len" and ans: "ps5_answers h flags addr len s"
    and m: "DmaDevicePs5_Map h no_carry addr len prot flags offset s = (p, s')"
  shows "mm_vma s' = mm_vma s \<and> (p = - 1 \<and> tracked s'
    \<or> tracked_but (within p len) s' \<and> can_map s' p len \<and> ps5_place flags addr len s p)"
proof -
  define c where "c = carried no_carry flags addr len s"
  let ?block = "agc_system_block flags addr len \<or> agc_follow_up flags addr len s"
  obtain f s1 where first: "map_first h flags addr len s = (f, s1)" by fastforce
  have s1: "tracked s1" "mm_vma s1 = mm_vma s" "mm_shm s1 = mm_shm s" "mm_registry s1 = mm_registry s" "mm_va s1 = mm_va s"
    using first inv by (auto simp: map_first_def tracked_but_def split: if_splits)
  have cong: "can_map s1 q len = can_map s q len" for q using s1(3) by (simp add: can_map_def)
  show ?thesis
  proof (cases "\<not> en_dmem_fd h \<or> len = 0 \<or> offset + len > en_dmem_size h")
    case True
    then have "p = - 1 \<and> s' = s" using m by (simp add: DmaDevicePs5_Map_def)
    then show ?thesis using inv by simp
  next
    case ok: False
    have finish: ?thesis if q: "p = q" "s' = map_finish c q len t" and t: "tracked t" "can_map t q len" "mm_vma t = mm_vma s"
      and place: "ps5_place flags addr len s q" for q t
      using map_finish_tracked [OF t(1,2) n(1), of c] q t(3) place by simp
    show ?thesis
    proof (cases f)
      case (Some q)
      have eq: "p = q" "s' = map_finish c q len s1" using m ok first Some by (auto simp: DmaDevicePs5_Map_def Let_def c_def split: if_splits)
      have "can_map s q len \<and> ps5_place flags addr len s q"
      proof (cases ?block)
        case True
        then have "en_fixed h = Some q" using first Some by (simp add: map_first_def)
        then show ?thesis using ans True by (auto simp: ps5_answers_def grants_def ps5_place_def)
      next
        case False
        then have "en_probe h = Some addr" "q = addr" using first Some by (auto simp: map_first_def split: if_splits)
        then have "host_vacant s q len" using ans by (simp add: ps5_answers_def)
        then show ?thesis using tracked_known [OF inv] by (simp add: host_vacant_def ps5_place_def unmapped_before_def)
      qed
      then show ?thesis using finish [OF eq s1(1)] cong s1(2) by simp
    next
      case None
      obtain g s2 where second: "map_second h flags addr len s1 = (g, s2)" by fastforce
      have eq: "(p, s') = (case g of None \<Rightarrow> (- 1, s2) | Some q \<Rightarrow> (q, map_finish c q len s2))"
        using m ok first None second by (auto simp: DmaDevicePs5_Map_def Let_def c_def split: option.splits)
      show ?thesis
      proof (cases "addr \<noteq> 0 \<and> flag_set flags kFixed")
        case True
        then have g: "g = en_view h" "s2 = s1" using second by (simp_all add: map_second_def)
        have gr: "grants s (en_view h) addr len" using ans True by (simp add: ps5_answers_def)
        show ?thesis
        proof (cases "en_view h")
          case None
          then show ?thesis using eq g s1 by simp
        next
          case (Some q)
          then have "q = addr" "can_map s1 q len" using gr cong by (auto simp: grants_def)
          then show ?thesis using finish [of q s1] eq g Some s1(1,2) True by (simp add: ps5_place_def)
        qed
      next
        case False
        obtain b s3 where l: "low_alloc h len 0 s1 = (b, s3)" by fastforce
        have g: "g = (if b = 0 then None else en_view h)" "s2 = s3"
          using second False l by (auto simp: map_second_def split: if_splits)
        have l0: "fst (low_alloc h len 0 s) = b"
          using l s1(4,5) by (simp add: low_alloc_def with_va_def split_beta split: option.splits)
        have "can_map s1 q len \<and> (\<forall>a. within q len a \<longrightarrow> view (mm_vma s1) a = None)" if "lt_mmap (en_arena h i) = Some q" for i q
          using ans that tracked_known [OF inv] cong s1(2) by (auto simp: ps5_answers_def arena_answers_def host_vacant_def)
        note pl = low_alloc_placed [OF s1(1) n this l]
        note kept = low_alloc_kept [OF l s1(1)]
        show ?thesis
        proof (cases "g")
          case None
          then show ?thesis using eq g(2) kept s1(2) by simp
        next
          case (Some q)
          then have b: "b \<noteq> 0" "en_view h = Some q" using g(1) by (auto split: if_splits)
          then have "q = b" using ans False l0 by (auto simp: ps5_answers_def)
          moreover have "can_map s3 b len" "unmapped_before b len s" using pl b(1) s1(2) by (simp_all add: placed_def unmapped_before_def)
          ultimately show ?thesis using finish [of q s3] eq g(2) Some kept s1(2) by (simp add: ps5_place_def)
        qed
      qed
    qed
  qed
qed

section \<open>\<open>sys_mmap\<close> of direct memory\<close>

definition ps5_dmem_fd :: "mem_env \<Rightarrow> mem_env \<Rightarrow> bool \<Rightarrow> u32 \<Rightarrow> mem \<Rightarrow> bool" where
  "ps5_dmem_fd h dv no_carry fd s \<longleftrightarrow> fd \<noteq> - 1 \<and> map_of (sh_fds (mm_shm s)) fd = None
     \<and> en_object h fd = Device_object True (DmaDevicePs5_Map dv no_carry)"

text \<open>
  \<open>dv\<close> are the answers during \<open>Map\<close> of the device, \<open>h\<close> those of the anonymous mapping that stands in
  when the device refuses. The physical range does not wrap.
\<close>

definition ps5_mmap_answers :: "mem_env \<Rightarrow> mem_env \<Rightarrow> bool \<Rightarrow> u64 \<Rightarrow> u64 \<Rightarrow> u32 \<Rightarrow> u32 \<Rightarrow> u64 \<Rightarrow> mem \<Rightarrow> bool" where
  "ps5_mmap_answers h dv no_carry addr len prot flags0 offset s \<longleftrightarrow>
     (let n = round_size len; flags = mmap_flags flags0; a = hint_of flags addr n (mm_vma s);
          t = snd (DmaDevicePs5_Map dv no_carry a n (if flag_set flags 0x100 then 0 else prot) flags offset s)
      in fits offset n \<and> ps5_answers dv flags a n s
         \<and> (fst (DmaDevicePs5_Map dv no_carry a n (if flag_set flags 0x100 then 0 else prot) flags offset s) = - 1
            \<longrightarrow> arena_answers h n t \<and> (a \<noteq> 0 \<longrightarrow> mmap_answers h a n flags t)))"

lemma sys_mmap_ps5_outcome:
  assumes inv: "tracked s" and fd: "ps5_dmem_fd h dv no_carry fd s" and ans: "ps5_mmap_answers h dv no_carry addr len prot flags0 offset s"
    and m: "sys_mmap h addr len prot flags0 fd offset s = Some (r, s')"
  defines "n \<equiv> round_size len" and "flags \<equiv> mmap_flags flags0"
  shows "tracked s' \<and> (r \<in> mmap_errors \<and> mm_vma s' = mm_vma s
    \<or> (\<exists>p. (r = p \<or> r = p + (offset AND 0x3FFF)) \<and> mapped_at p n (memory_request (if flag_set flags 0x100 then 0 else prot) flags offset True) s s'
        \<and> (ps5_place flags (hint_of flags addr n (mm_vma s)) n s p \<or> unmapped_before p n s)))"
proof (cases "mmap_refused addr n prot flags fd")
  case True
  then show ?thesis using m inv fd by (auto simp: sys_mmap_def mmap_refused_def ps5_dmem_fd_def n_def flags_def mmap_errors_def Let_def split: if_splits)
next
  case False
  let ?a = "hint_of flags addr n (mm_vma s)"
  let ?p = "if flag_set flags 0x100 then 0 else prot"
  let ?req = "memory_request ?p flags offset True"
  have n: "n \<noteq> 0" "round_size n = n" using False by (simp_all add: mmap_refused_def n_def)
  have nostack: "\<not> flag_set flags kStack" using False fd by (simp add: mmap_refused_def ps5_dmem_fd_def)
  obtain q s1 where d: "DmaDevicePs5_Map dv no_carry ?a n ?p flags offset s = (q, s1)" by fastforce
  have eq: "(r, s') = (if q \<noteq> - 1 then (q, on_vma (en_detach h) (AddDirect q n (?p AND kRwx) ?p offset) s1)
      else mmap_memory h ?a n ?p flags offset True s1)"
    using m False fd nostack d by (auto simp: sys_mmap_def mmap_refused_def ps5_dmem_fd_def n_def flags_def Let_def split: if_splits)
  have phys: "fits offset n" and pa: "ps5_answers dv flags ?a n s"
    and fall: "q = - 1 \<Longrightarrow> arena_answers h n s1" "q = - 1 \<Longrightarrow> ?a \<noteq> 0 \<Longrightarrow> mmap_answers h ?a n flags s1"
    using ans d by (simp_all add: ps5_mmap_answers_def Let_def n_def flags_def)
  note out = ps5_map_placed [OF inv n pa d]
  show ?thesis
  proof (cases "q = - 1")
    case False
    then have t: "tracked_but (within q n) s1" "can_map s1 q n" "ps5_place flags ?a n s q" "mm_vma s1 = mm_vma s" using out by simp_all
    have e: "r = q" "s' = on_vma (en_detach h) (AddDirect q n (?p AND kRwx) ?p offset) s1" using eq False by simp_all
    note v = on_vma_direct [OF t(1,2) n(1) phys, of "en_detach h" "?p AND kRwx" ?p, folded e(2)]
    have "mapped_at q n ?req s s'"
      using v(2) t(2,4) by (simp add: mapped_at_def can_map_def memory_request_def req_attr_def)
    then show ?thesis using v(1) e(1) t(3) by blast
  next
    case True
    have neg: "tracked s1" "mm_vma s1 = mm_vma s"
    proof -
      have "unat (- 1 :: u64) = 2 ^ 64 - 1" by (simp add: unsigned_minus_1_eq_mask mask_eq_exp_minus_1)
      then have "\<not> fits (- 1) n" using n(1) by (simp add: fits_unat unat_gt_0 Suc_leI)
      then have "\<not> can_map s1 (- 1) n" by (simp add: can_map_def)
      then show "tracked s1" "mm_vma s1 = mm_vma s" using out True by simp_all
    qed
    have mm: "mmap_memory h ?a n ?p flags offset True s1 = (r, s')" using eq True by simp
    have hint: "\<not> flag_set flags kFixed \<Longrightarrow> ?a \<noteq> 0 \<Longrightarrow> \<not> Overlaps ?a n (mm_vma s1)"
      using hint_of_free neg(2) by simp
    have "tracked s' \<and> (r = err_ptr eNOMEM \<and> mm_vma s' = mm_vma s1
      \<or> (\<exists>p. r = (if flag_set flags kStack then p + n else p + (offset AND 0x3FFF)) \<and> mapped_at p n ?req s1 s'
          \<and> (flag_set flags kFixed \<and> ?a \<noteq> 0 \<and> p = fixed_want flags ?a n \<or> unmapped_before p n s1)))"
      using neg(1) n fall(1) [OF True] fall(2) [OF True] hint phys mm by (rule mmap_memory_outcome)
    then show ?thesis using nostack neg(2)
      by (auto simp: mmap_errors_def mapped_at_def unmapped_before_def fixed_want_def ps5_place_def)
  qed
qed

end
