(* ===== verification/Guest_Calls.thy ===== *)
theory Guest_Calls
  imports Dmem_Ps5
begin

text \<open>
  The remaining guest memory calls, the states the calls can reach, and the properties of the guest
  memory as a whole.
\<close>

section \<open>Protection, names and direct memory\<close>

lemma find_map_covers:
  assumes "\<And>e. pg_ptr (f e) = pg_ptr e" "\<And>e. pg_size (f e) = pg_size e"
  shows "List.find (\<lambda>e. covers e a) (map f es) = map_option f (List.find (\<lambda>e. covers e a) es)"
  using assms by (induction es) (auto simp: covers_def)

lemma view_kept:
  assumes "rt_pages m' = map f (rt_pages m)" "\<And>e. pg_ptr (f e) = pg_ptr e" "\<And>e. pg_size (f e) = pg_size e"
  shows "view m' a = None \<longleftrightarrow> view m a = None"
  using find_map_covers [of f a "rt_pages m", OF assms(2,3)] assms(1)
  by (simp add: view_page_view page_view_def)

lemma tracked_same_ranges:
  assumes "tracked s" "wf_map m'" "\<And>a. view m' a = None \<longleftrightarrow> view (mm_vma s) a = None"
  shows "tracked (s\<lparr>mm_vma := m'\<rparr>)"
  using assms by (simp add: tracked_but_def)

lemma sys_mprotect_tracked:
  assumes "tracked s"
  shows "tracked (snd (sys_mprotect a len prot s))"
proof -
  have wf: "wf_map (mm_vma s)" using assms by (simp add: tracked_but_def)
  have "tracked (s\<lparr>mm_vma := ProtectRange b n pr sp (mm_vma s)\<rparr>)" for b n pr sp
  proof (rule tracked_same_ranges [OF assms wf_map_ProtectRange [OF wf]])
    fix a
    show "view (ProtectRange b n pr sp (mm_vma s)) a = None \<longleftrightarrow> view (mm_vma s) a = None"
      by (rule view_kept [where f = "\<lambda>page. if touches b (b + n) page then page\<lparr>pg_prot := pr, pg_sce_prot := sp\<rparr> else page"])
        (auto simp: ProtectRange_def)
  qed
  then show ?thesis using assms by (simp add: sys_mprotect_def split_beta Let_def)
qed

lemma sys_mname_tracked:
  assumes "tracked s" "sys_mname ok a len name s = Some (r, s')"
  shows "tracked s'"
proof -
  have wf: "wf_map (mm_vma s)" using assms by (simp add: tracked_but_def)
  have "tracked (s\<lparr>mm_vma := SetRangeName b n nm ok (mm_vma s)\<rparr>)" for b n nm
  proof (cases "nm = None \<or> \<not> ok")
    case True
    then have "SetRangeName b n nm ok (mm_vma s) = mm_vma s" by (auto simp: SetRangeName_def split: option.splits)
    then show ?thesis using assms(1) by simp
  next
    case False
    then obtain x where nm: "nm = Some x" "ok" by auto
    show ?thesis
    proof (rule tracked_same_ranges [OF assms(1) wf_map_SetRangeName [OF wf]])
      fix a
      show "view (SetRangeName b n nm ok (mm_vma s)) a = None \<longleftrightarrow> view (mm_vma s) a = None"
        by (rule view_kept [where f = "\<lambda>page. if touches b (b + n) page then page\<lparr>pg_name := Some x\<rparr> else page"])
          (auto simp: SetRangeName_def nm)
    qed
  qed
  then show ?thesis using assms by (auto simp: sys_mname_def split: if_splits option.splits)
qed

text \<open>The answers to a mapping of the direct-memory store, and to the anonymous one that stands in for it.\<close>

definition store_answers :: "mem_env \<Rightarrow> u64 \<Rightarrow> u64 \<Rightarrow> u64 \<Rightarrow> bool \<Rightarrow> mem \<Rightarrow> bool" where
  "store_answers h addr off len fixed s \<longleftrightarrow>
     (\<forall>q. en_view h = Some q \<longrightarrow> len \<noteq> 0 \<and> fits off len \<and> (if fixed then q = addr \<and> can_map s addr len else host_vacant s q len))"

definition dmem_flags :: "u32 \<Rightarrow> u32" where
  "dmem_flags flags = (if flag_set flags kFixed then kAnon OR kFixed else kAnon)"

definition dmem_answers :: "mem_env \<Rightarrow> u64 \<Rightarrow> u64 \<Rightarrow> u32 \<Rightarrow> int \<Rightarrow> mem \<Rightarrow> bool" where
  "dmem_answers h addr len flags phys s \<longleftrightarrow> store_answers h addr (word_of_int phys) len (flag_set flags kFixed) s
     \<and> sys_mmap_answers h addr len (dmem_flags flags) (- 1) s \<and> (0 \<le> phys \<longrightarrow> fits (word_of_int phys) len)"

lemma dmem_flags_bits [simp]:
  "\<not> flag_set (mmap_flags (dmem_flags flags)) kStack" "mmap_flags (kFixed OR kAnon) AND kStack = 0"
  "mmap_flags (dmem_flags flags) AND 0x100 = 0" "mmap_flags (kFixed OR kAnon) AND 0x100 = 0"
  by (simp_all add: dmem_flags_def mmap_flags_def kFixed_def kStack_def kAnon_def kNoextend_def)

lemma round_size_ge: "round_size len \<noteq> 0 \<Longrightarrow> len \<le> round_size len"
proof -
  assume nz: "round_size len \<noteq> 0"
  show ?thesis
  proof (cases "unat len + 0x3FFF < 2 ^ 64")
    case True
    then have u: "unat (len + 0x3FFF) = unat len + 0x3FFF" by (simp add: unat_word_ariths)
    have "round_size len = (len + 0x3FFF) AND NOT (2 ^ 14 - 1)" by (simp add: round_size_def)
    then have "unat (round_size len) = (unat len + 0x3FFF) div 0x4000 * 0x4000"
      using unat_page_down [of "len + 0x3FFF" 14] u by simp
    moreover have "(unat len + 0x3FFF) div 0x4000 * 0x4000 + (unat len + 0x3FFF) mod 0x4000 = unat len + 0x3FFF" by simp
    moreover have "(unat len + 0x3FFF) mod 0x4000 < 0x4000" by simp
    ultimately have "unat len \<le> unat (round_size len)" by linarith
    then show ?thesis by (simp add: word_le_nat_alt)
  next
    case False
    moreover have "(unat len + 0x3FFF) mod 2 ^ 64 = unat len + 0x3FFF - 2 ^ 64"
      using False unat_bound [of len] by (simp add: mod_if)
    ultimately have "unat (len + 0x3FFF) < 0x3FFF" using unat_bound [of len] by (simp add: unat_word_ariths)
    then have "unat (len + 0x3FFF) div 0x4000 = 0" by simp
    moreover have "round_size len = (len + 0x3FFF) AND NOT (2 ^ 14 - 1)" by (simp add: round_size_def)
    ultimately have "unat (round_size len) = 0" using unat_page_down [of "len + 0x3FFF" 14] by simp
    then show ?thesis using nz by (simp add: unat_eq_zero)
  qed
qed

lemma sys_mmap_dmem_tracked:
  assumes inv: "tracked s" and ans: "dmem_answers h addr len flags phys s"
    and m: "sys_mmap_dmem h addr len prot flags phys s = Some (r, s')"
  shows "tracked s'"
proof -
  let ?off = "word_of_int phys :: u64"
  let ?v = "if 0 \<le> phys \<and> direct_store h ?off len then en_view h else None"
  have st: "store_answers h addr ?off len (flag_set flags kFixed) s"
    and mm: "sys_mmap_answers h addr len (dmem_flags flags) (- 1) s" and phys: "0 \<le> phys \<Longrightarrow> fits ?off len"
    using ans by (simp_all add: dmem_answers_def)
  show ?thesis
  proof (cases ?v)
    case (Some p)
    then have "en_view h = Some p" by (auto split: if_splits)
    then have "can_map s p len" "len \<noteq> 0" "fits ?off len" using st by (auto simp: store_answers_def host_vacant_def split: if_splits)
    then show ?thesis using on_vma_direct(1) [OF tracked_any [OF inv]] m Some by (auto simp: sys_mmap_dmem_def Let_def)
  next
    case None
    obtain q s1 where q: "sys_mmap h addr len 3 (dmem_flags flags) (- 1) 0 s = Some (q, s1)"
      using sys_mmap_memory [of "- 1" s h addr len 3 "dmem_flags flags" 0] by (metis surj_pair)
    have s': "s' = s1 \<or> (0 \<le> phys \<and> \<not> IsErrnoPtr q \<and> s' = on_vma (en_detach h) (AddDirect q len kW prot ?off) s1)"
      using m None q by (auto simp: sys_mmap_dmem_def Let_def dmem_flags_def [symmetric] split: if_splits)
    have out: "tracked s1 \<and> (q \<in> mmap_errors \<and> mm_vma s1 = mm_vma s \<or> (\<exists>r. mapped_at q (round_size len) r s s1))"
      using sys_mmap_memory_outcome [OF inv mm _ q] by fastforce
    have neg: "q \<in> mmap_errors \<Longrightarrow> IsErrnoPtr q"
      by (auto simp: mmap_errors_def err_ptr_def IsErrnoPtr_def eINVAL_def eACCES_def eNOMEM_def)
    show ?thesis
    proof (cases "s' = s1")
      case True
      then show ?thesis using out by simp
    next
      case False
      then have e: "s' = on_vma (en_detach h) (AddDirect q len kW prot ?off) s1" "0 \<le> phys" "\<not> IsErrnoPtr q" using s' by simp_all
      then obtain r where r: "mapped_at q (round_size len) r s s1" using out neg by blast
      have inv1: "tracked s1" using out by blast
      show ?thesis
      proof (cases "len = 0")
        case True
        then have "round_size len = 0" by (simp add: round_size_def)
        then have "sys_mmap h addr len 3 (dmem_flags flags) (- 1) 0 s = Some (err_ptr eINVAL, s)"
          by (simp add: sys_mmap_memory mmap_refused_def)
        then show ?thesis using q e neg by (simp add: mmap_errors_def)
      next
        case nz: False
        have "round_size len \<noteq> 0"
        proof
          assume "round_size len = 0"
          then have "sys_mmap h addr len 3 (dmem_flags flags) (- 1) 0 s = Some (err_ptr eINVAL, s)"
            by (simp add: sys_mmap_memory mmap_refused_def)
          then show False using q e neg by (simp add: mmap_errors_def)
        qed
        then have le: "len \<le> round_size len" by (rule round_size_ge)
        have fits: "fits q (round_size len)" "q \<noteq> 0" using r by (simp_all add: mapped_at_def)
        have sub: "within q len a \<Longrightarrow> within q (round_size len) a" for a
          using fits_le_iff [OF fits(1), of len "round_size len"] le by (metis order.strict_trans2 order_refl)
        have "fits q len" using fits(1) le by (rule fits_shorter)
        moreover have "\<not> in_view (mm_shm s1) a" if "within q len a" for a
        proof -
          have "view (mm_vma s1) a \<noteq> None" using r sub [OF that] by (simp add: mapped_at_def)
          then show ?thesis using inv1 unfolding tracked_but_def by blast
        qed
        ultimately have "can_map s1 q len" using fits(2) by (simp add: can_map_def)
        then show ?thesis using on_vma_direct(1) [OF tracked_any [OF inv1] _ nz phys [OF e(2)]] e(1) by simp
      qed
    qed
  qed
qed

section \<open>Batches\<close>

definition entry_answers :: "mem_env \<Rightarrow> batch_entry \<Rightarrow> mem \<Rightarrow> bool" where
  "entry_answers h e s \<longleftrightarrow>
     (if be_operation e = 0 \<or> be_operation e = 3
      then store_answers h (be_start e) (be_offset e) (be_length e) True s
        \<and> sys_mmap_answers h (be_start e) (be_length e) (kFixed OR kAnon) (- 1) s
      else be_operation e = 1 \<longrightarrow> fits (be_start e) (be_length e))"

fun batch_answers :: "(nat \<Rightarrow> mem_env) \<Rightarrow> batch_entry list \<Rightarrow> nat \<Rightarrow> nat \<Rightarrow> mem \<Rightarrow> bool" where
  "batch_answers h es k 0 s = True"
| "batch_answers h [] k (Suc n) s = True"
| "batch_answers h (e # es) k (Suc n) s =
     (entry_answers (h k) e s \<and> (case batch_map_entry (h k) e s of Some (None, s) \<Rightarrow> batch_answers h es (k + 1) n s | _ \<Rightarrow> True))"

lemma batch_entry_tracked:
  assumes inv: "tracked s" and ans: "entry_answers h e s" and m: "batch_map_entry h e s = Some (r, s')"
  shows "tracked s'"
proof -
  consider (map) "be_operation e = 0 \<or> be_operation e = 3" | (unmap) "be_operation e = 1" | (other) "be_operation e \<notin> {0, 1, 3}" by auto
  then show ?thesis
  proof cases
    case map
    let ?v = "if be_operation e = 0 \<and> direct_store h (be_offset e) (be_length e) then en_view h else None"
    have st: "store_answers h (be_start e) (be_offset e) (be_length e) True s"
      and mm: "sys_mmap_answers h (be_start e) (be_length e) (kFixed OR kAnon) (- 1) s"
      using ans map by (auto simp: entry_answers_def)
    show ?thesis
    proof (cases "be_start e = 0 \<or> be_length e = 0")
      case True
      then show ?thesis using m map inv by (auto simp: batch_map_entry_def)
    next
      case nz: False
      show ?thesis
      proof (cases ?v)
        case (Some p)
        then have "en_view h = Some p" by (auto split: if_splits)
        then have "can_map s p (be_length e)" "be_length e \<noteq> 0" "fits (be_offset e) (be_length e)"
          using st by (auto simp: store_answers_def)
        from on_vma_direct(1) [OF tracked_any [OF inv] this] show ?thesis using m map nz Some by (auto simp: batch_map_entry_def)
      next
        case None
        obtain q s1 where q: "sys_mmap h (be_start e) (be_length e) (ucast (be_prot e)) (kFixed OR kAnon) (- 1) 0 s = Some (q, s1)"
          using sys_mmap_memory [of "- 1" s h "be_start e" "be_length e" "ucast (be_prot e)" "kFixed OR kAnon" 0] by (metis surj_pair)
        have "s' = s1" using m map nz None q by (auto simp: batch_map_entry_def)
        then show ?thesis using sys_mmap_tracked [OF inv mm q] by simp
      qed
    qed
  next
    case unmap
    then have "fits (be_start e) (be_length e)" using ans by (simp add: entry_answers_def)
    from on_vma_remove(1) [OF tracked_but_mono [OF inv] this, of "en_detach h"] show ?thesis
      using m unmap inv by (auto simp: batch_map_entry_def split: if_splits)
  next
    case other
    then show ?thesis using m inv by (auto simp: batch_map_entry_def)
  qed
qed

lemma batch_loop_tracked:
  "tracked s \<Longrightarrow> batch_answers h es k n s \<Longrightarrow> batch_loop h es k n s = Some (r, j, s') \<Longrightarrow> tracked s'"
proof (induction h es k n s rule: batch_loop.induct)
  case (3 h e es k n s)
  obtain x s1 where e: "batch_map_entry (h k) e s = Some (x, s1)"
    using 3(4) by (auto split: option.splits)
  have t1: "tracked s1" using batch_entry_tracked [OF 3(2) _ e] 3(3) by simp
  show ?case
  proof (cases x)
    case None
    then show ?thesis using 3(1) [OF e refl None t1] 3(3,4) e by simp
  next
    case (Some y)
    then show ?thesis using 3(4) e t1 by simp
  qed
qed auto

section \<open>The calls on shared objects\<close>

definition shm_tracked :: "(u64 \<Rightarrow> bool) \<Rightarrow> shm \<Rightarrow> bool" where
  "shm_tracked V t \<longleftrightarrow> registry_wf (sh_registry t) \<and> records_fit (sh_maps t) \<and> views_fit t
     \<and> (\<forall>a. V a \<longrightarrow> known (sh_registry t) a \<and> \<not> in_view t a)"

lemma tracked_shm:
  "tracked s \<longleftrightarrow> wf_map (mm_vma s) \<and> shm_tracked (\<lambda>a. view (mm_vma s) a \<noteq> None) ((mm_shm s)\<lparr>sh_registry := mm_registry s\<rparr>)"
proof -
  have "in_view ((mm_shm s)\<lparr>sh_registry := mm_registry s\<rparr>) = in_view (mm_shm s)"
    "views_fit ((mm_shm s)\<lparr>sh_registry := mm_registry s\<rparr>) = views_fit (mm_shm s)"
    by (simp_all add: in_view_def views_fit_def fun_eq_iff)
  then show ?thesis by (simp add: tracked_but_def shm_tracked_def)
qed

lemma tracked_on_shm:
  assumes "tracked s" "\<And>V t. shm_tracked V t \<Longrightarrow> t = (mm_shm s)\<lparr>sh_registry := mm_registry s\<rparr> \<Longrightarrow> V = (\<lambda>a. view (mm_vma s) a \<noteq> None) \<Longrightarrow> shm_tracked V (f t)"
  shows "tracked (on_shm f s)"
proof -
  let ?t = "(mm_shm s)\<lparr>sh_registry := mm_registry s\<rparr>"
  have "shm_tracked (\<lambda>a. view (mm_vma s) a \<noteq> None) (f ?t)" using assms tracked_shm by blast
  moreover have "(mm_shm (on_shm f s))\<lparr>sh_registry := mm_registry (on_shm f s)\<rparr> = f ?t" by (simp add: on_shm_def Let_def)
  ultimately show ?thesis using assms(1) unfolding tracked_shm by simp
qed

lemma shm_tracked_shrunk:
  assumes "shm_tracked V t" "shrunk (in_view t) t t'" "records_fit (sh_maps t')"
  shows "shm_tracked V t'"
  using assms views_fit_mono [of t' t] in_view_mono [of t' t] by (auto simp: shm_tracked_def shrunk_def)

lemma shm_tracked_release: "shm_tracked V t \<Longrightarrow> shm_tracked V (release_backing h k t)"
  by (rule shm_tracked_shrunk [OF _ shrunk_release]) (auto simp: shm_tracked_def release_fields)

lemma shm_tracked_drop: "shm_tracked V t \<Longrightarrow> (k, b) \<in> set (sh_backings t) \<Longrightarrow> shm_tracked V (drop_view h b t)"
  by (rule shm_tracked_shrunk [OF _ shrunk_drop_view])
    (auto simp: shm_tracked_def drop_view_def free_range_def Shm.AudioDaemonForgetRange_def split: option.splits)

definition view_ok :: "(u64 \<Rightarrow> bool) \<Rightarrow> backing \<Rightarrow> bool" where
  "view_ok V b \<longleftrightarrow> (\<forall>q. bk_base b = Some q \<longrightarrow> fits q (bk_map_size b) \<and> (\<forall>a. within q (bk_map_size b) a \<longrightarrow> \<not> V a))"

lemma view_ok_member: "shm_tracked V t \<Longrightarrow> (k, b) \<in> set (sh_backings t) \<Longrightarrow> view_ok V b"
  by (fastforce simp: shm_tracked_def view_ok_def views_fit_def in_view_def)

lemma shm_tracked_views: "shm_tracked V t \<longleftrightarrow> registry_wf (sh_registry t) \<and> records_fit (sh_maps t)
    \<and> (\<forall>(k, b) \<in> set (sh_backings t). view_ok V b) \<and> (\<forall>a. V a \<longrightarrow> known (sh_registry t) a)"
  by (fastforce simp: shm_tracked_def view_ok_def views_fit_def in_view_def)

lemma shm_tracked_put: "shm_tracked V t \<Longrightarrow> view_ok V b \<Longrightarrow> shm_tracked V (put_backing k b t)"
proof -
  have "set (AList.update k b xs) \<subseteq> insert (k, b) (set xs)" for xs :: "(nat \<times> backing) list"
    by (induction xs) auto
  then show "shm_tracked V t \<Longrightarrow> view_ok V b \<Longrightarrow> shm_tracked V (put_backing k b t)"
    by (fastforce simp: shm_tracked_views put_backing_def)
qed

lemma shm_tracked_cong:
  "sh_registry t' = sh_registry t \<Longrightarrow> sh_maps t' = sh_maps t \<Longrightarrow> sh_backings t' = sh_backings t \<Longrightarrow> shm_tracked V t \<Longrightarrow> shm_tracked V t'"
  by (simp add: shm_tracked_views)

lemma shm_tracked_new: "shm_tracked V t \<Longrightarrow> shm_tracked V (snd (new_backing h t))"
  by (auto simp: new_backing_def view_ok_def intro!: shm_tracked_put elim: shm_tracked_cong [rotated -1])

definition view_answer :: "shm_host \<Rightarrow> u64 \<Rightarrow> (u64 \<Rightarrow> bool) \<Rightarrow> bool" where
  "view_answer h n V \<longleftrightarrow> (\<forall>p. ho_mmap h = Some p \<longrightarrow> fits p (shm_rounded n) \<and> (\<forall>a. within p (shm_rounded n) a \<longrightarrow> \<not> V a))"

lemma ResizeShm_tracked:
  assumes t: "shm_tracked V t" and h: "view_answer h n V \<or> shm_rounded n = 0"
  shows "shm_tracked V (snd (ResizeShm h k n t))"
proof (cases "backing_of k t")
  case None
  then show ?thesis using t by (simp add: ResizeShm_def)
next
  case (Some b)
  then have b: "(k, b) \<in> set (sh_backings t)" by (simp add: backing_of_def map_of_SomeD)
  let ?t1 = "drop_view h b t"
  have t1: "shm_tracked V ?t1" using t b by (rule shm_tracked_drop)
  have put: "shm_tracked V (put_backing k b' ?t1)" if "bk_base b' = None" for b'
    using t1 that by (intro shm_tracked_put) (simp_all add: view_ok_def)
  let ?reg = "\<lambda>p. ?t1\<lparr>sh_registry := Host_Memory.TrackMemoryMapping p (shm_rounded n) False (sh_registry ?t1)\<rparr>"
  have view: "shm_tracked V (put_backing k b' (?reg p))"
    if "ho_mmap h = Some p" "shm_rounded n \<noteq> 0" "bk_base b' = Some p" "bk_map_size b' = shm_rounded n" for b' p
  proof -
    have "shm_tracked V (?reg p)" using t1 grown_Track [of "sh_registry ?t1" p "shm_rounded n" False]
      by (auto simp: shm_tracked_views grown_def)
    then show ?thesis using h that by (intro shm_tracked_put) (auto simp: view_ok_def view_answer_def)
  qed
  show ?thesis
    using t Some by (auto simp: ResizeShm_def Let_def intro!: put view split: option.splits)
qed

text \<open>
  The calls of guest and emulator on shared objects. The host maps a consumer view where nothing is
  mapped, or where a consumer view was mapped, which the call may just have given up.
\<close>

fun shm_call_size :: "shm_call \<Rightarrow> (shm_host \<times> u64) option" where
  "shm_call_size (SOpen h no_auto path flags) = Some (h, 0x10000)"
| "shm_call_size (SCreate h name n) = Some (h, n)"
| "shm_call_size (STruncate h fd len) = Some (h, word_of_int len)"
| "shm_call_size c = None"

fun shm_call_internal :: "shm_call \<Rightarrow> bool" where
  "shm_call_internal (SMap p n fd) = True"
| "shm_call_internal (SUnmap h p n) = True"
| "shm_call_internal c = False"

definition shm_call_answers :: "shm_call \<Rightarrow> mem \<Rightarrow> bool" where
  "shm_call_answers c s \<longleftrightarrow> \<not> shm_call_internal c
     \<and> (case shm_call_size c of None \<Rightarrow> True
        | Some (h, n) \<Rightarrow> \<forall>p. ho_mmap h = Some p \<longrightarrow> fits p (shm_rounded n)
            \<and> (\<forall>a. within p (shm_rounded n) a \<longrightarrow> known (mm_registry s) a \<longrightarrow> in_view (mm_shm s) a))"

lemma open_object_tracked: "shm_tracked V t \<Longrightarrow> shm_tracked V (snd (open_object h nm k w t))"
  by (auto simp: open_object_def elim: shm_tracked_cong [rotated -1])

lemma tracked_names: "shm_tracked V t \<Longrightarrow> shm_tracked V (t\<lparr>sh_by_name := xs\<rparr>)"
  by (auto elim: shm_tracked_cong [rotated -1])

lemma fill_system_tracked: "shm_tracked V t \<Longrightarrow> shm_tracked V (fill_system_shm nm k t)"
proof -
  assume t: "shm_tracked V t"
  have "view_ok V (b\<lparr>bk_bytes := x\<rparr>)" if "backing_of k t = Some b" for b x
    using view_ok_member [OF t, of k b] that by (simp add: backing_of_def map_of_SomeD view_ok_def)
  then show ?thesis using t by (auto simp: fill_system_shm_def intro!: shm_tracked_put split: option.splits)
qed

lemma ShmWrite_tracked: "shm_tracked V t \<Longrightarrow> shm_tracked V (snd (ShmWrite name off data n i t))"
proof -
  assume t: "shm_tracked V t"
  have "view_ok V (b\<lparr>bk_bytes := x\<rparr>)" if "copy_check name off f n i t = Inr (k, b)" for f k b x
  proof -
    have "backing_of k t = Some b" using that by (simp add: copy_check_ok)
    then show ?thesis using view_ok_member [OF t, of k b] by (simp add: backing_of_def map_of_SomeD view_ok_def)
  qed
  then show ?thesis using t
    by (auto simp: ShmWrite_def intro!: shm_tracked_put split: sum.splits option.splits)
qed

lemma sys_shm_open_tracked:
  assumes t: "shm_tracked V t" and h: "view_answer h 0x10000 V"
  shows "shm_tracked V (snd (sys_shm_open h no_auto path flags t))"
proof -
  have r: "shm_tracked V u \<Longrightarrow> shm_tracked V (snd (ResizeShm h k 0x10000 u))" "shm_tracked V u \<Longrightarrow> shm_tracked V (snd (ResizeShm h k 0 u))" for k u
    using h by (auto intro: ResizeShm_tracked simp: shm_rounded_def)
  note parts = open_object_tracked tracked_names fill_system_tracked shm_tracked_release r shm_tracked_new
  show ?thesis
    using t by (auto simp: sys_shm_open_def Let_def split_beta intro!: parts split: option.splits)
qed

lemma ShmCreate_tracked:
  assumes t: "shm_tracked V t" and h: "view_answer h n V"
  shows "shm_tracked V (snd (ShmCreate h name n t))"
proof -
  have r: "shm_tracked V u \<Longrightarrow> shm_tracked V (snd (ResizeShm h k n u))" for k u
    using h by (auto intro: ResizeShm_tracked)
  note parts = tracked_names shm_tracked_release r shm_tracked_new
  show ?thesis using t by (auto simp: ShmCreate_def split_beta intro!: parts split: option.splits)
qed

lemma sys_ftruncate_tracked:
  assumes t: "shm_tracked V t" and h: "view_answer h (word_of_int len) V"
  shows "shm_tracked V (snd (sys_ftruncate h kind fd len t))"
  using t ResizeShm_tracked [OF t disjI1 [OF h]] by (auto simp: sys_ftruncate_def split_beta split: option.splits)

lemma unlink_close_tracked:
  assumes t: "shm_tracked V t"
  shows "shm_tracked V (snd (sys_shm_unlink h path t))" "shm_tracked V (close_object h fd t)"
proof -
  have "shm_tracked V (t\<lparr>sh_fds := xs\<rparr>)" for xs using t by (auto elim: shm_tracked_cong [rotated -1])
  then show "shm_tracked V (snd (sys_shm_unlink h path t))" "shm_tracked V (close_object h fd t)"
    using t by (auto simp: sys_shm_unlink_def close_object_def intro!: shm_tracked_release tracked_names split: option.splits)
qed

lemma shm_call_tracked:
  assumes inv: "tracked s" and ans: "shm_call_answers c s"
  shows "tracked (on_shm (shm_exec c) s)"
proof (rule tracked_on_shm [OF inv])
  fix V t assume t: "shm_tracked V t" "t = (mm_shm s)\<lparr>sh_registry := mm_registry s\<rparr>" "V = (\<lambda>a. view (mm_vma s) a \<noteq> None)"
  have view: "view_answer h n V" if "shm_call_size c = Some (h, n)" for h n
  proof -
    have "\<not> (known (mm_registry s) a \<longrightarrow> in_view (mm_shm s) a)" if "V a" for a
      using inv that t(3) unfolding tracked_but_def by blast
    then show ?thesis using ans that by (auto simp: shm_call_answers_def view_answer_def)
  qed
  show "shm_tracked V (shm_exec c t)"
  proof (cases c)
    case (SOpen h no_auto path flags)
    then show ?thesis using sys_shm_open_tracked [OF t(1) view] by simp
  next
    case (SCreate h name n)
    then show ?thesis using ShmCreate_tracked [OF t(1) view] by simp
  next
    case (STruncate h fd len)
    then show ?thesis using sys_ftruncate_tracked [OF t(1) view] by simp
  qed (use t(1) ans in \<open>simp_all add: unlink_close_tracked ShmWrite_tracked shm_call_answers_def\<close>)
qed

section \<open>Reachable states\<close>

text \<open>
  The states the calls can reach from the start of a session, in any order, while the host keeps its
  promises. A range to unmap does not wrap.
\<close>

inductive guest_memory :: "mem \<Rightarrow> bool" where
  gm_start: "guest_memory mem_init"
| gm_mmap: "guest_memory s \<Longrightarrow> sys_mmap_answers h addr len flags fd s \<Longrightarrow>
    sys_mmap h addr len prot flags fd offset s = Some (r, s') \<Longrightarrow> guest_memory s'"
| gm_ps5: "guest_memory s \<Longrightarrow> ps5_dmem_fd h dv no_carry fd s \<Longrightarrow> ps5_mmap_answers h dv no_carry addr len prot flags offset s \<Longrightarrow>
    sys_mmap h addr len prot flags fd offset s = Some (r, s') \<Longrightarrow> guest_memory s'"
| gm_munmap: "guest_memory s \<Longrightarrow> fits p n \<Longrightarrow> guest_memory (snd (sys_munmap h p n s))"
| gm_mprotect: "guest_memory s \<Longrightarrow> guest_memory (snd (sys_mprotect a len prot s))"
| gm_mname: "guest_memory s \<Longrightarrow> sys_mname ok a len name s = Some (e, s') \<Longrightarrow> guest_memory s'"
| gm_mmap_dmem: "guest_memory s \<Longrightarrow> dmem_answers h addr len flags phys s \<Longrightarrow>
    sys_mmap_dmem h addr len prot flags phys s = Some (r, s') \<Longrightarrow> guest_memory s'"
| gm_batch: "guest_memory s \<Longrightarrow> batch_answers hs es 0 (nat count) s \<Longrightarrow>
    sys_batch_map hs (Some es) count s = Some (e, k, s') \<Longrightarrow> guest_memory s'"
| gm_shared: "guest_memory s \<Longrightarrow> shm_call_answers c s \<Longrightarrow> guest_memory (on_shm (shm_exec c) s)"

lemma tracked_init: "tracked mem_init"
  by (simp add: tracked_but_def mem_init_def wf_map_def wf_pages_def registry_wf_def registry_init_def records_fit_def views_fit_def
      shm_init_def view_def Get_def)

lemma guest_memory_inv: "guest_memory s \<Longrightarrow> tracked s"
proof (induction rule: guest_memory.induct)
  case (gm_munmap s p n h)
  then show ?case
    by (cases "p = 0 \<or> n = 0") (auto simp: sys_munmap_steps(1), auto simp: sys_munmap_def)
next
  case (gm_batch s hs es count e k s')
  then show ?case using batch_loop_tracked by (simp add: sys_batch_map_def)
next
  case (gm_ps5 s h dv no_carry fd addr len prot flags offset r s')
  then show ?case using sys_mmap_ps5_outcome by blast
qed (auto intro: tracked_init sys_mmap_tracked sys_mprotect_tracked sys_mname_tracked sys_mmap_dmem_tracked shm_call_tracked)

section \<open>Properties\<close>

definition ex_env :: mem_env where
  "ex_env = \<lparr>en_stack = 0, en_stack_size = 0, en_object = (\<lambda>_. No_map_object), en_ps5 = False, en_dmem_fd = False, en_dmem_size = 0,
     en_shm = ex_host, en_arena = (\<lambda>_. refused_try), en_fixed = None, en_fixed_again = None, en_on_stack = None,
     en_probe = Some 0x900000000, en_commit = Some 0x900000000, en_retake = None, en_view = None, en_detach = (\<lambda>_ _. None),
     en_munmap = True\<rparr>"

lemma ex_round: "round_size 0x8000 = 0x8000"
  by (simp add: round_size_def)

lemma ex_flags: "mmap_flags 0x1000 = 0x1000"
  by (simp add: mmap_flags_def kStack_def kNoextend_def)

lemma ex_answers: "sys_mmap_answers ex_env 0x900000000 0x8000 0x1000 (- 1) mem_init"
  by (simp add: sys_mmap_answers_def ex_round ex_flags ex_env_def arena_answers_def refused_try_def mmap_answers_def hint_answers_def
      grants_def host_vacant_def can_map_def fits_def in_view_def known_def mem_init_def shm_init_def registry_init_def kFixed_def
      hint_of_def Overlaps_def)

lemma ex_mmap: "\<exists>s'. sys_mmap ex_env 0x900000000 0x8000 3 0x1000 (- 1) 0 mem_init = Some (0x900000000, s')"
  by (simp add: sys_mmap_memory Let_def ex_round ex_flags mmap_refused_def kStack_def kFixed_def mmap_memory_def usable_hint_def map_align_def
      hint_of_def Overlaps_def mem_init_def ex_env_def place_hint_def in_user_stack_def IsGuestReservedVa_def kRanges_def
      host_alloc_def AllocMem_def)








definition ex_store :: mem_env where
  "ex_store = ex_env\<lparr>en_dmem_fd := True, en_dmem_size := 0x10000000\<rparr>"

definition ex_ps5 :: mem_env where
  "ex_ps5 = ex_env\<lparr>en_object := (\<lambda>_. Device_object True (DmaDevicePs5_Map ex_store False))\<rparr>"

lemma ex_ps5_hint: "hint_of 1 0x900000000 0x8000 (mm_vma mem_init) = 0x900000000"
  by (simp add: hint_of_def kFixed_def Overlaps_def mem_init_def)

lemma ex_ps5_map: "fst (DmaDevicePs5_Map ex_store False 0x900000000 0x8000 3 1 0x4000 mem_init) = 0x900000000"
  by (simp add: DmaDevicePs5_Map_def ex_store_def ex_env_def carried_def map_first_def agc_system_block_def agc_follow_up_def
      other_hint_into_block_def kAgcSystemBase_def kAgcSystemSize_def kFixed_def)


section \<open>Where the code differs from its description\<close>

text \<open>
  A span near the size of the address space wraps to zero before the overflow check, so the call
  succeeds.
\<close>

theorem mprotect_wraps:
  assumes "a AND 0x3FFF = 0"
  shows "fst (sys_mprotect a (- 1) prot s) = 0"
  using assms by (simp add: sys_mprotect_def protect_span_def fits_def Let_def)

text \<open>A fixed request the host refuses twice is placed in the arena, and the call succeeds elsewhere.\<close>

definition ex_refused :: mem_env where
  "ex_refused = ex_env\<lparr>en_arena := (\<lambda>_. quiet_try 0x8000000000)\<rparr>"

theorem fixed_request_moved:
  "\<exists>s'. sys_mmap ex_refused 0x10000 0x4000 3 0x1010 (- 1) 0 mem_init = Some (0x8000000000, s')"
  by (simp add: sys_mmap_memory Let_def round_size_def mmap_flags_def kNoextend_def mmap_refused_def kStack_def kFixed_def mmap_memory_def
      usable_hint_def map_align_def hint_of_def fits_def mem_init_def ex_refused_def ex_env_def place_fixed_def host_alloc_def AllocMem_def
      on_shm_def UnmapShm_def shm_init_def ForgetDmemVa_def low_alloc_def with_va_def low_eval quiet_try_def
      del: Suc_numeral cong: if_cong)

text \<open>
  A whole reservation is given back to the host when it is unmapped, but stays in the record of released
  ranges. When the emulator's own view of a shared object lands there, a later hint takes the range back
  over it.
\<close>

definition ex_reserve :: "mem \<Rightarrow> mem" where
  "ex_reserve s = snd (the (sys_mmap ex_env 0x900000000 0x8000 0 0x1100 (- 1) 0 s))"

definition ex_taken :: mem_env where
  "ex_taken = ex_env\<lparr>en_probe := None, en_retake := Some 0x900000000\<rparr>"

lemma reserve_facts:
  "rt_pages (mm_vma (ex_reserve mem_init)) = [PageInfo_new 0x900000000 0x8000 0 0 True]" "mm_va (ex_reserve mem_init) = guest_va_init"
  "mm_shm (ex_reserve mem_init) = shm_init"
  by (simp_all add: ex_reserve_def sys_mmap_memory Let_def ex_round mmap_flags_def kNoextend_def kAnon_def kStack_def mmap_refused_def kFixed_def mmap_memory_def
      usable_hint_def map_align_def hint_of_def Overlaps_def mem_init_def ex_env_def place_hint_def in_user_stack_def IsGuestReservedVa_def
      kRanges_def host_alloc_def AllocMem_def kGuestArenaFloor_def PunchHoleLocked_def)

lemma munmap_facts:
  assumes "p \<noteq> 0" "n \<noteq> 0" "sh_maps (mm_shm s) = []"
  shows "rt_pages (mm_vma (snd (sys_munmap h p n s))) = PunchHoleLocked p n (rt_pages (mm_vma s))"
    "gv_released (mm_va (snd (sys_munmap h p n s))) = note_released p (p + n) (gv_released (mm_va s))"
    "sh_maps (mm_shm (snd (sys_munmap h p n s))) = []" "sh_by_name (mm_shm (snd (sys_munmap h p n s))) = sh_by_name (mm_shm s)"
    "sh_backings (mm_shm (snd (sys_munmap h p n s))) = sh_backings (mm_shm s)" "sh_count (mm_shm (snd (sys_munmap h p n s))) = sh_count (mm_shm s)"
  using assms by (simp_all add: sys_munmap_def Let_def on_va_def with_va_def NoteGuestReleased_def on_shm_def UnmapShm_def Shm.AudioDaemonForgetRange_def)

definition ex_freed :: mem where
  "ex_freed = snd (sys_munmap ex_env 0x900000000 0x8000 (ex_reserve mem_init))"

lemma freed_facts: "rt_pages (mm_vma ex_freed) = []" "gv_released (mm_va ex_freed) = [(0x900000000, 0x900008000)]" "sh_by_name (mm_shm ex_freed) = []"
  "sh_backings (mm_shm ex_freed) = []" "sh_count (mm_shm ex_freed) = 0"
  unfolding ex_freed_def using munmap_facts [of "0x900000000" "0x8000" "ex_reserve mem_init" ex_env]
  by (simp_all add: reserve_facts shm_init_def PunchHoleLocked_def misses_def note_released_def guest_va_init_def)

definition ex_shared :: mem where
  "ex_shared = on_shm (shm_exec (SCreate (ex_host\<lparr>ho_mmap := Some 0x900000000\<rparr>) (Some ''a'') 0x4000)) ex_freed"

lemma shared_facts: "mm_vma ex_shared = mm_vma ex_freed" "mm_va ex_shared = mm_va ex_freed" "in_view (mm_shm ex_shared) 0x900000000"
proof -
  show "mm_vma ex_shared = mm_vma ex_freed" "mm_va ex_shared = mm_va ex_freed" by (simp_all add: ex_shared_def)
  have "\<exists>k b. (k, b) \<in> set (sh_backings (mm_shm ex_shared)) \<and> bk_base b = Some 0x900000000 \<and> bk_map_size b = 0x4000"
    using freed_facts by (simp add: ex_shared_def on_shm_def Let_def shm_eval)
  then show "in_view (mm_shm ex_shared) 0x900000000" by (force simp: in_view_def)
qed

lemma retake:
  assumes "rt_pages (mm_vma s) = []" "gv_released (mm_va s) = [(0x900000000, 0x900008000)]"
  shows "\<exists>s'. sys_mmap ex_taken 0x900000000 0x8000 3 0x1000 (- 1) 0 s = Some (0x900000000, s') \<and> mm_shm s' = mm_shm s
    \<and> view (mm_vma s') 0x900000000 = Some (3, 3, None, False, None)"
  using assms by (simp add: sys_mmap_memory Let_def ex_round ex_flags mmap_refused_def kStack_def kFixed_def mmap_memory_def usable_hint_def map_align_def
      hint_of_def Overlaps_def ex_taken_def ex_env_def place_hint_def in_user_stack_def IsGuestReservedVa_def kRanges_def
      host_alloc_def AllocMem_def WasGuestReleased_def view_def Get_def PunchHoleLocked_def PageInfo_new_def attr_at_def kRwx_def kR_def kW_def kX_def)

theorem retaken_range_aliases_view:
  "\<exists>s'. sys_mmap ex_taken 0x900000000 0x8000 3 0x1000 (- 1) 0 ex_shared = Some (0x900000000, s')
    \<and> view (mm_vma s') 0x900000000 \<noteq> None \<and> in_view (mm_shm s') 0x900000000"
  using retake [of ex_shared] shared_facts freed_facts by auto

text \<open>
  The UNMAP operation of a batch drops the mapping but keeps the key of its direct memory, so a later
  fixed map of the address takes over contents a real unmap would have ended.
\<close>

lemma detach_trace:
  "set (host_trace (fold (\<lambda>page. case f page of None \<Rightarrow> id | Some (q, n) \<Rightarrow> emit (AllocMemReservecommitW q n)) ps m))
     \<subseteq> set (host_trace m) \<union> {AllocMemReservecommitW q n |q n. True}"
proof (induction ps arbitrary: m)
  case (Cons page ps)
  let ?m = "(case f page of None \<Rightarrow> id | Some (q, n) \<Rightarrow> emit (AllocMemReservecommitW q n)) m"
  have "set (host_trace ?m) \<subseteq> set (host_trace m) \<union> {AllocMemReservecommitW q n |q n. True}"
    by (auto simp: emit_def split: option.splits)
  then show ?case using Cons.IH [of ?m] by (simp only: fold_Cons o_apply) blast
qed simp

lemma effects_keep_keys:
  "\<forall>c \<in> set cs. \<forall>p n. c \<noteq> ForgetDmemVaCall p n \<Longrightarrow> mm_dmem_va (fold (host_effect d) cs s) = mm_dmem_va s"
proof (induction cs arbitrary: s)
  case (Cons c cs)
  then have "mm_dmem_va (host_effect d c s) = mm_dmem_va s" by (cases c) (auto simp: add_event_def)
  then show ?case using Cons by simp
qed simp

lemma remove_keeps_keys: "mm_dmem_va (on_vma d (Remove p n) s) = mm_dmem_va s"
proof -
  have "\<forall>c \<in> set (host_trace (Remove p n ((mm_vma s)\<lparr>host_trace := []\<rparr>))). \<forall>q k. c \<noteq> ForgetDmemVaCall q k"
    using detach_trace [of "detach_range p n" "rt_pages (mm_vma s)" "(mm_vma s)\<lparr>host_trace := []\<rparr>"]
    unfolding Remove_def MappingChanged_def emit_def punch_map_def by auto
  then show ?thesis by (simp add: on_vma_def Let_def effects_keep_keys)
qed

theorem batch_unmap_carries:
  assumes "map_of (mm_dmem_va s) p = Some n" "p \<noteq> 0" "n \<noteq> 0" "fits p n"
    "be_operation e = 1" "be_start e = p" "be_length e = n"
  shows "\<exists>s'. batch_map_entry h e s = Some (None, s') \<and> carried False kFixed p n s' = n
    \<and> carried False kFixed p n (snd (sys_munmap h p n s)) = 0"
proof -
  have lt: "p < p + n" using assms(3,4) fits_less by blast
  have "map_of (forget_keys p (p + n) xs) p = None" for xs
    using lt by (auto simp: forget_keys_def map_of_eq_None_iff)
  then have "map_of (mm_dmem_va (snd (sys_munmap h p n s))) p = None"
    using assms(2,3) by (simp add: sys_munmap_def Let_def ForgetDmemVa_def)
  then show ?thesis
    using assms by (simp add: batch_map_entry_def carried_def agc_follow_up_def carry_length_def kFixed_def remove_keeps_keys)
qed

end
