(* ===== verification/Guest_Query.thy ===== *)
theory Guest_Query
  imports Guest_Mem "HOL-Library.Monad_Syntax"
begin

text \<open>
  The queries of guest memory of \<open>delta/kern/lv2/sys_mem.cc\<close>: \<open>sys_query_memory_protection\<close> and
  \<open>sys_virtual_query\<close>, with the bytes they write. The buffer of the caller is the list of the bytes it
  says it has; a write outside it is undefined, which is \<open>None\<close>. \<open>lines\<close> are the lines of
  \<open>/proc/self/maps\<close> that parse, with their bounds and permissions.
\<close>

section \<open>Bytes\<close>

primrec le_bytes :: "nat \<Rightarrow> 'a :: len word \<Rightarrow> u8 list" where
  "le_bytes 0 w = []"
| "le_bytes (Suc n) w = ucast w # le_bytes n (drop_bit 8 w)"

primrec of_le :: "u8 list \<Rightarrow> nat" where
  "of_le [] = 0"
| "of_le (b # bs) = unat b + 256 * of_le bs"

text \<open>The field of \<open>n\<close> bytes at an offset of a buffer.\<close>

definition field_at :: "nat \<Rightarrow> nat \<Rightarrow> u8 list \<Rightarrow> nat" where
  "field_at i n bs = of_le (take n (drop i bs))"

definition put_bytes :: "nat \<Rightarrow> u8 list \<Rightarrow> u8 list \<Rightarrow> u8 list option" where
  "put_bytes i ds bs = (if i + length ds \<le> length bs then Some (write_at i ds bs) else None)"

lemma length_le_bytes [simp]: "length (le_bytes n w) = n"
  by (induction n arbitrary: w) simp_all

lemma of_le_bytes: "of_le (le_bytes n w) = unat w mod 256 ^ n"
proof (induction n arbitrary: w)
  case (Suc n)
  have u: "unat (drop_bit 8 w) = unat w div 256" by (simp only: unat_drop_bit_eq) (simp add: drop_bit_eq_div)
  have "unat (ucast w :: u8) = unat w mod 256" by (simp add: unsigned_ucast_eq take_bit_eq_mod)
  then show ?case by (simp add: Suc u mod_mult2_eq)
qed simp

lemma of_le_words [simp]: "of_le (le_bytes 8 (w :: u64)) = unat w" "of_le (le_bytes 4 (v :: u32)) = unat v"
  using unsigned_less [of w, where 'a = nat] unsigned_less [of v, where 'a = nat] by (simp_all add: of_le_bytes)

section \<open>The calls\<close>

definition reported_prot :: "PageInfo \<Rightarrow> u32" where
  "reported_prot r = (if pg_sce_prot r \<noteq> 0 then pg_sce_prot r else pg_prot r)"

definition sys_query_memory_protection :: "u64 \<Rightarrow> u8 list option \<Rightarrow> mem \<Rightarrow> (int \<times> u8 list) option" where
  "sys_query_memory_protection addr info s = (case info of None \<Rightarrow> Some (neg_err eINVAL, [])
     | Some buf \<Rightarrow> case Get addr (mm_vma s) of None \<Rightarrow> Some (neg_err eACCES, buf)
       | Some r \<Rightarrow> do {
           b \<leftarrow> put_bytes 0 (replicate 0x18 0) buf;
           b \<leftarrow> put_bytes 0 (le_bytes 8 (pg_ptr r)) b;
           b \<leftarrow> put_bytes 8 (le_bytes 8 (pg_end r)) b;
           b \<leftarrow> put_bytes 0x10 (le_bytes 4 (reported_prot r)) b;
           Some (0, b)})"

definition perm :: "string \<Rightarrow> nat \<Rightarrow> char \<Rightarrow> u32 \<Rightarrow> u32" where
  "perm p i c b = (if i < length p \<and> p ! i = c then b else 0)"

definition HostMappingOf :: "(u64 \<times> u64 \<times> string) list \<Rightarrow> u64 \<Rightarrow> u64 \<times> u64 \<times> u32" where
  "HostMappingOf lines want = (case find (\<lambda>(lo, hi, _). \<not> (want < lo \<or> want \<ge> hi)) lines of
     None \<Rightarrow> (0, 0, 0)
   | Some (lo, hi, p) \<Rightarrow> (lo, hi, perm p 0 CHR ''r'' 1 OR perm p 1 CHR ''w'' 2 OR perm p 2 CHR ''x'' 4))"

text \<open>The reply for memory only the host knows; its readable and writable bits stand for the graphics side too.\<close>

definition gpu_prot :: "u32 \<Rightarrow> u32" where
  "gpu_prot p = (p OR (if p AND 1 \<noteq> 0 then 0x10 else 0)) OR (if p AND 2 \<noteq> 0 then 0x20 else 0)"

definition reply_host :: "u64 \<times> u64 \<times> u32 \<Rightarrow> u8 list \<Rightarrow> (int \<times> u8 list) option" where
  "reply_host hm info = (case hm of (lo, hi, p) \<Rightarrow> do {
     b \<leftarrow> put_bytes 0 (le_bytes 8 lo) info;
     b \<leftarrow> put_bytes 8 (le_bytes 8 hi) b;
     b \<leftarrow> put_bytes 0x10 (le_bytes 8 lo) b;
     b \<leftarrow> (if length info \<ge> 0x20
          then do { b \<leftarrow> put_bytes 0x18 (le_bytes 4 (gpu_prot p)) b; put_bytes 0x1C (le_bytes 4 (0 :: u32)) b } else Some b);
     b \<leftarrow> (if length info \<ge> 0x21 then put_bytes 0x20 [0x01 OR 0x10] b else Some b);
     Some (0, b)})"

definition query_offset :: "PageInfo \<Rightarrow> u64" where
  "query_offset r = (if pg_has_phys r then pg_phys_offset r else pg_ptr r)"

definition query_type :: "PageInfo \<Rightarrow> DmemRegion list \<Rightarrow> u32" where
  "query_type r rs =
     (let t = (if pg_has_phys r then DmemTypeForOffset (pg_phys_offset r) rs else - 1)
      in if t < 0 then (if pg_sce_prot r AND 0x30 \<noteq> 0 then 3 else 0) else word_of_int t)"

definition query_bits :: "PageInfo \<Rightarrow> u8" where
  "query_bits r = (if pg_reserved r then 0
     else (0x01 OR 0x10) OR (if pg_sce_prot r AND 0x30 \<noteq> 0 \<or> pg_has_phys r then 0x02 else 0))"

definition put_name :: "string option \<Rightarrow> u8 list \<Rightarrow> u8 list option" where
  "put_name nm b = (case nm of None \<Rightarrow> Some b | Some x \<Rightarrow> put_bytes 0x21 (map of_char (take 31 x) @ [0]) b)"

definition reply_region :: "PageInfo \<Rightarrow> DmemRegion list \<Rightarrow> u8 list \<Rightarrow> (int \<times> u8 list) option" where
  "reply_region r rs info = do {
     b \<leftarrow> put_bytes 0 (le_bytes 8 (pg_ptr r)) info;
     b \<leftarrow> put_bytes 8 (le_bytes 8 (pg_end r)) b;
     b \<leftarrow> put_bytes 0x10 (le_bytes 8 (query_offset r)) b;
     b \<leftarrow> (if length info \<ge> 0x20
          then do { b \<leftarrow> put_bytes 0x18 (le_bytes 4 (reported_prot r)) b; put_bytes 0x1C (le_bytes 4 (query_type r rs)) b } else Some b);
     b \<leftarrow> (if length info \<ge> 0x21 then do { b \<leftarrow> put_bytes 0x20 [query_bits r] b; put_name (pg_name r) b } else Some b);
     Some (0, b)}"

definition sys_virtual_query :: "(u64 \<times> u64 \<times> string) list \<Rightarrow> u64 \<Rightarrow> u8 list option \<Rightarrow> mem \<Rightarrow> (int \<times> u8 list) option" where
  "sys_virtual_query lines addr info s = (case info of None \<Rightarrow> Some (neg_err eINVAL, [])
     | Some buf \<Rightarrow>
        if buf = [] then Some (neg_err eINVAL, buf)
        else
          let zero = replicate (length buf) 0; hm = HostMappingOf lines addr; accessible = (snd (snd hm) \<noteq> 0)
          in case Get addr (mm_vma s) of
               None \<Rightarrow> if accessible then reply_host hm zero else Some (neg_err eACCES, zero)
             | Some r \<Rightarrow>
                 if pg_sce_prot r = 0 \<and> pg_prot r = 0 \<and> accessible then reply_host hm zero
                 else reply_region r (mm_regions s) zero)"

section \<open>Writes to a buffer\<close>

lemma put_bytes_length: "put_bytes i ds bs = Some b \<Longrightarrow> length b = length bs"
  by (auto simp: put_bytes_def write_at_def split: if_splits)

lemma put_bytes_exact: "i + length ds \<le> length bs \<Longrightarrow> put_bytes i ds bs = Some (write_at i ds bs)"
  by (simp add: put_bytes_def)

lemma length_write [simp]: "i + length ds \<le> length bs \<Longrightarrow> length (write_at i ds bs) = length bs"
  by (simp add: write_at_def)

lemma field_at_same: "i + length ds \<le> length bs \<Longrightarrow> length ds = n \<Longrightarrow> field_at i n (write_at i ds bs) = of_le ds"
  by (simp add: field_at_def write_at_def)

lemma field_at_other:
  assumes "j + length ds \<le> length bs" "i + n \<le> j \<or> j + length ds \<le> i"
  shows "field_at i n (write_at j ds bs) = field_at i n bs"
  using assms(2)
proof
  assume "i + n \<le> j"
  then have "n \<le> j - i" by linarith
  then show ?thesis using assms(1) by (simp add: field_at_def write_at_def drop_take take_append min_def)
next
  assume h: "j + length ds \<le> i"
  then have "drop i (write_at j ds bs) = drop i bs"
    using assms(1) by (simp add: write_at_def)
  then show ?thesis by (simp add: field_at_def)
qed

section \<open>Properties\<close>

lemma reply_region_long:
  assumes "0x48 \<le> length info"
  shows "\<exists>b. reply_region r rs info = Some (0, b) \<and> length b = length info
    \<and> field_at 0 8 b = unat (pg_ptr r) \<and> field_at 8 8 b = unat (pg_end r) \<and> field_at 0x10 8 b = unat (query_offset r)
    \<and> field_at 0x18 4 b = unat (reported_prot r) \<and> field_at 0x1C 4 b = unat (query_type r rs) \<and> field_at 0x20 1 b = unat (query_bits r)"
proof -
  have nm: "\<exists>b'. put_name n b = Some b' \<and> length b' = length info \<and> (\<forall>i k. i + k \<le> 0x21 \<longrightarrow> field_at i k b' = field_at i k b)"
    if "length b = length info" for n b
  proof (cases n)
    case (Some x)
    let ?ds = "map of_char (take 31 x) @ [0 :: u8]"
    have "0x21 + length ?ds \<le> length b" using assms that by simp
    then show ?thesis using Some that field_at_other [of "0x21" ?ds b] by (simp add: put_name_def put_bytes_exact)
  qed (simp add: put_name_def that)
  let ?b1 = "write_at 0 (le_bytes 8 (pg_ptr r)) info"
  let ?b2 = "write_at 8 (le_bytes 8 (pg_end r)) ?b1"
  let ?b3 = "write_at 0x10 (le_bytes 8 (query_offset r)) ?b2"
  let ?b4 = "write_at 0x18 (le_bytes 4 (reported_prot r)) ?b3"
  let ?b5 = "write_at 0x1C (le_bytes 4 (query_type r rs)) ?b4"
  let ?b6 = "write_at 0x20 [query_bits r] ?b5"
  have len: "length ?b1 = length info" "length ?b2 = length info" "length ?b3 = length info" "length ?b4 = length info"
    "length ?b5 = length info" "length ?b6 = length info"
    using assms by simp_all
  obtain b where b: "put_name (pg_name r) ?b6 = Some b" "length b = length info" "\<forall>i k. i + k \<le> 0x21 \<longrightarrow> field_at i k b = field_at i k ?b6"
    using nm [OF len(6), of "pg_name r"] by blast
  have "reply_region r rs info = Some (0, b)"
    using assms b(1) len by (simp add: reply_region_def put_bytes_exact)
  moreover have "field_at 0 8 b = unat (pg_ptr r)" "field_at 8 8 b = unat (pg_end r)" "field_at 0x10 8 b = unat (query_offset r)"
    "field_at 0x18 4 b = unat (reported_prot r)" "field_at 0x1C 4 b = unat (query_type r rs)" "field_at 0x20 1 b = unat (query_bits r)"
    using assms len by (simp_all add: b(3) field_at_other field_at_same)
  ultimately show ?thesis using b(2) by blast
qed

text \<open>What the reply of a query says of an address: its attributes in the terms of \<open>view\<close>.\<close>

lemma view_of_region:
  assumes "wf_map m" "Get a m = Some r" "pg_ptr r \<le> x" "x < pg_end r"
  shows "view m x = Some (attr_at r x)"
proof -
  have "r \<in> set (rt_pages m)" using assms(2) by (auto simp: Get_def find_Some_iff)
  moreover have "covers r x" using assms(3,4) by (simp add: covers_def)
  ultimately show ?thesis using assms(1)
    by (auto simp: view_page_view wf_map_def wf_pages_def page_view_Some_iff)
qed

lemma Get_covers: "Get a m = Some r \<Longrightarrow> pg_ptr r \<le> a \<and> a < pg_end r"
  by (auto simp: Get_def find_Some_iff)



text \<open>
  C38: With room for the name (0x41 bytes) no query writes outside the buffer, whatever the address: the
  reply has the length of the buffer, and the status is success or one of the two errors.
\<close>

theorem virtual_query_bounds:
  assumes "0x41 \<le> length buf"
  shows "\<exists>r b. sys_virtual_query lines a (Some buf) s = Some (r, b) \<and> length b = length buf \<and> r \<in> {0, neg_err eACCES}"
proof -
  let ?z = "replicate (length buf) (0 :: u8)"
  have nm: "\<exists>b'. put_name n b = Some b' \<and> length b' = length buf" if "length b = length buf" for n b
    using that assms by (cases n) (simp_all add: put_name_def put_bytes_exact)
  have host: "\<exists>b. reply_host (HostMappingOf lines a) ?z = Some (0, b) \<and> length b = length buf"
    using assms by (simp add: reply_host_def split_beta put_bytes_exact)
  have region: "\<exists>b. reply_region r (mm_regions s) ?z = Some (0, b) \<and> length b = length buf" for r
  proof -
    have "\<exists>b'. Option.bind (put_name (pg_name r) b) (\<lambda>b. Some (0 :: int, b)) = Some (0, b') \<and> length b' = length buf"
      if "length b = length buf" for b
      using nm [OF that, of "pg_name r"] by auto
    then show ?thesis using assms by (simp add: reply_region_def put_bytes_exact)
  qed
  have ne: "buf \<noteq> []" using assms by auto
  show ?thesis
  proof (cases "Get a (mm_vma s)")
    case None
    then show ?thesis using host ne by (auto simp: sys_virtual_query_def Let_def)
  next
    case (Some r)
    then show ?thesis using host region [of r] ne
      by (cases "pg_sce_prot r = 0 \<and> pg_prot r = 0 \<and> snd (snd (HostMappingOf lines a)) \<noteq> 0") (auto simp: sys_virtual_query_def Let_def)
  qed
qed

theorem virtual_query_bounds_witness:
  "\<exists>r b. sys_virtual_query [] 0x11000 (Some (replicate 0x41 0)) (mem_init\<lparr>mm_vma := ex_map\<rparr>) = Some (r, b) \<and> length b = 0x41"
  using virtual_query_bounds [of "replicate 0x41 0" "[]" "0x11000" "mem_init\<lparr>mm_vma := ex_map\<rparr>"] by auto

text \<open>
  The console's callers pass 0x48 bytes. A smaller size is not checked before the first three fields and
  the name are written: the call writes past the buffer.
\<close>

theorem virtual_query_overflow:
  assumes "Get a (mm_vma s) = Some r" "pg_sce_prot r \<noteq> 0" "buf \<noteq> []" "length buf < 0x18"
  shows "sys_virtual_query lines a (Some buf) s = None"
proof -
  have "reply_region r (mm_regions s) (replicate (length buf) 0) = None"
    using assms(4) by (auto simp: reply_region_def put_bytes_def split: Option.bind_splits option.splits if_splits)
  then show ?thesis using assms by (simp add: sys_virtual_query_def Let_def)
qed

end
