(* ===== verification/Object_Table.thy ===== *)
theory Object_Table
  imports Prelude "HOL-Library.Monad_Syntax"
begin

text \<open>
  The kernel object table of \<open>delta/kern/object_table.{h,cc}\<close> and the reference counting of
  \<open>delta/kern/object.{h,cc}\<close> and \<open>object_ref.h\<close>.

  Objects live in a heap from addresses to objects; \<open>delete this\<close> removes the address. The
  table is the C array that \<open>realloc\<close> returns: its length is what the byte size handed to
  \<open>realloc\<close> makes room for, which is not the capacity once the 32-bit byte size wraps. An
  access outside the array or to a deleted object is undefined behaviour and is the value
  \<open>None\<close> of the operations, so that safety is a theorem and not an assumption. Whether
  \<open>realloc\<close> succeeds is the parameter \<open>ra\<close>. Reference counts start at 0 (the default of
  \<open>base::Atomic<i32>\<close>) and are kept as integers. Every table operation holds \<open>omutex_\<close>.
\<close>

section \<open>Data\<close>

datatype obj_type = kFile | kDevice | kEqueue | kEventflag | kSemaphore | kShm

record 'p kobj =
  ko_type :: obj_type
  ko_handles :: "u32 list"
  ko_refs :: int
  ko_data :: 'p

record entry =
  en_ref :: int
  en_obj :: "nat option"

record 'p objs =
  ot_cap :: u32
  ot_last :: u32
  ot_tab :: "entry list"
  heap :: "nat \<rightharpoonup> 'p kobj"

definition empty_entry :: entry where
  "empty_entry = \<lparr>en_ref = 0, en_obj = None\<rparr>"

definition ObjectTable_new :: "(nat \<rightharpoonup> 'p kobj) \<Rightarrow> 'p objs" where
  "ObjectTable_new h = \<lparr>ot_cap = 0, ot_last = 0, ot_tab = [], heap = h\<rparr>"

section \<open>Reference counting (\<open>object.cc\<close>)\<close>

definition Obj_Retain :: "nat \<Rightarrow> 'p objs \<Rightarrow> 'p objs option" where
  "Obj_Retain o' s = (case heap s o' of None \<Rightarrow> None
     | Some k \<Rightarrow> Some (s\<lparr>heap := (heap s)(o' \<mapsto> k\<lparr>ko_refs := ko_refs k + 1\<rparr>)\<rparr>))"

definition Obj_Release :: "nat \<Rightarrow> 'p objs \<Rightarrow> 'p objs option" where
  "Obj_Release o' s = (case heap s o' of None \<Rightarrow> None
     | Some k \<Rightarrow> let k' = k\<lparr>ko_refs := ko_refs k - 1\<rparr>
                in Some (s\<lparr>heap := (heap s)(o' := if ko_refs k' = 0 then None else Some k')\<rparr>))"

section \<open>The table (\<open>object_table.cc\<close>)\<close>

text \<open>\<open>sizeof(Entry)\<close>: an \<open>int\<close> and a pointer, 16 bytes; the products are narrowed to u32.\<close>

definition Resize :: "(u32 \<Rightarrow> bool) \<Rightarrow> u32 \<Rightarrow> 'p objs \<Rightarrow> 'p objs option" where
  "Resize ra new_cap s =
     (let new_size = new_cap * 16; n = unat new_size div 16
      in if \<not> ra new_size then None
         else Some (s\<lparr>ot_tab := take n (ot_tab s) @ replicate (n - length (ot_tab s)) empty_entry,
                      ot_last := ot_cap s, ot_cap := new_cap\<rparr>))"

text \<open>
  The scan of \<open>FindSlot\<close>. \<open>Some (Some i)\<close> is a free slot, \<open>Some None\<close> a full table, \<open>None\<close> an
  access outside the array. Capacities are 0 or at least \<open>16 * 1024\<close> and double, so the loop
  counters, at most one above the capacity, do not wrap.
\<close>

function scan_slots :: "entry list \<Rightarrow> nat \<Rightarrow> nat \<Rightarrow> nat \<Rightarrow> nat option option" where
  "scan_slots tab cap slot scan_count =
     (if scan_count < cap then
        (if length tab \<le> slot then None
         else if en_obj (tab ! slot) = None then Some (Some slot)
         else if (slot + 1) mod cap = 0 then scan_slots tab cap 1 (scan_count + 2)
         else scan_slots tab cap ((slot + 1) mod cap) (scan_count + 1))
      else Some None)"
  by pat_completeness auto
termination
  by (relation "measure (\<lambda>(tab, cap, slot, scan_count). cap - scan_count)") auto

declare scan_slots.simps [simp del]

definition FindSlot :: "(u32 \<Rightarrow> bool) \<Rightarrow> 'p objs \<Rightarrow> (u32 option \<times> 'p objs) option" where
  "FindSlot ra s =
     (case scan_slots (ot_tab s) (unat (ot_cap s)) (unat (ot_last s)) 0 of
        None \<Rightarrow> None
      | Some (Some slot) \<Rightarrow> Some (Some (of_nat slot), s)
      | Some None \<Rightarrow>
          (case Resize ra (max (16 * 1024) (ot_cap s * 2)) s of
             None \<Rightarrow> Some (None, s)
           | Some s' \<Rightarrow> let slot = ot_last s' + 1 in Some (Some slot, s'\<lparr>ot_last := slot\<rparr>)))"

text \<open>\<open>FindEntry\<close>: \<open>Some None\<close> is the null pointer.\<close>

definition FindEntry :: "u32 \<Rightarrow> 'p objs \<Rightarrow> nat option option" where
  "FindEntry handle s =
     (let slot = drop_bit 2 handle
      in if slot < ot_cap s
         then (if unat slot < length (ot_tab s) then Some (Some (unat slot)) else None)
         else Some None)"

definition set_entry :: "nat \<Rightarrow> entry \<Rightarrow> 'p objs \<Rightarrow> 'p objs" where
  "set_entry i e s = s\<lparr>ot_tab := (ot_tab s)[i := e]\<rparr>"

definition Keep :: "u32 \<Rightarrow> 'p objs \<Rightarrow> (bool \<times> 'p objs) option" where
  "Keep handle s = do {
     eo \<leftarrow> FindEntry handle s;
     case eo of None \<Rightarrow> Some (False, s)
     | Some i \<Rightarrow> let e = ot_tab s ! i in Some (True, set_entry i (e\<lparr>en_ref := en_ref e + 1\<rparr>) s) }"

definition push_handle :: "nat \<Rightarrow> u32 \<Rightarrow> 'p objs \<Rightarrow> 'p objs option" where
  "push_handle o' h s = (case heap s o' of None \<Rightarrow> None
     | Some k \<Rightarrow> Some (s\<lparr>heap := (heap s)(o' \<mapsto> k\<lparr>ko_handles := ko_handles k @ [h]\<rparr>)\<rparr>))"

text \<open>\<open>Add\<close> returns the new handle, or -1 in \<open>handle_out\<close> and false.\<close>

definition Table_Add :: "(u32 \<Rightarrow> bool) \<Rightarrow> nat \<Rightarrow> 'p objs \<Rightarrow> (bool \<times> u32 \<times> 'p objs) option" where
  "Table_Add ra o' s = do {
     (so, s1) \<leftarrow> FindSlot ra s;
     case so of None \<Rightarrow> Some (False, - 1, s1)
     | Some slot \<Rightarrow>
         if length (ot_tab s1) \<le> unat slot then None
         else do {
           let handle = push_bit 2 slot;
           s2 \<leftarrow> push_handle o' handle (set_entry (unat slot) \<lparr>en_ref = 1, en_obj = Some o'\<rparr> s1);
           s3 \<leftarrow> Obj_Retain o' s2;
           Some (True, handle, s3) } }"

definition drop_handle :: "nat \<Rightarrow> u32 \<Rightarrow> 'p objs \<Rightarrow> 'p objs option" where
  "drop_handle o' h s = (case heap s o' of None \<Rightarrow> None
     | Some k \<Rightarrow> Some (s\<lparr>heap := (heap s)(o' \<mapsto> k\<lparr>ko_handles := remove1 h (ko_handles k)\<rparr>)\<rparr>))"

definition Table_Remove :: "u32 \<Rightarrow> 'p objs \<Rightarrow> (bool \<times> 'p objs) option" where
  "Table_Remove handle s = do {
     eo \<leftarrow> FindEntry handle s;
     case eo of None \<Rightarrow> Some (False, s)
     | Some i \<Rightarrow>
         (case en_obj (ot_tab s ! i) of None \<Rightarrow> Some (False, s)
          | Some o' \<Rightarrow> do {
              s1 \<leftarrow> drop_handle o' handle (set_entry i empty_entry s);
              s2 \<leftarrow> Obj_Release o' s1;
              Some (True, s2) }) }"

definition Table_Release :: "u32 \<Rightarrow> 'p objs \<Rightarrow> (bool \<times> 'p objs) option" where
  "Table_Release handle s = do {
     eo \<leftarrow> FindEntry handle s;
     case eo of None \<Rightarrow> Some (False, s)
     | Some i \<Rightarrow>
         let e = ot_tab s ! i; e' = e\<lparr>en_ref := en_ref e - 1\<rparr>; s1 = set_entry i e' s
         in if en_ref e' = 0 then Table_Remove handle s1 else Some (True, s1) }"

text \<open>\<open>Get\<close> retains the object for the reference it returns.\<close>

definition Table_Get :: "u32 \<Rightarrow> 'p objs \<Rightarrow> (nat option \<times> 'p objs) option" where
  "Table_Get handle s = do {
     eo \<leftarrow> FindEntry handle s;
     case (case eo of None \<Rightarrow> None | Some i \<Rightarrow> en_obj (ot_tab s ! i)) of
       None \<Rightarrow> Some (None, s)
     | Some o' \<Rightarrow> do { s1 \<leftarrow> Obj_Retain o' s; Some (Some o', s1) } }"

fun release_all :: "entry list \<Rightarrow> 'p objs \<Rightarrow> 'p objs option" where
  "release_all [] s = Some s"
| "release_all (e # es) s =
     (case en_obj e of None \<Rightarrow> release_all es s
      | Some o' \<Rightarrow> do { s1 \<leftarrow> Obj_Release o' s; release_all es s1 })"

definition Table_Reset :: "'p objs \<Rightarrow> 'p objs option" where
  "Table_Reset s =
     (if length (ot_tab s) < unat (ot_cap s) then None
      else do { s1 \<leftarrow> release_all (take (unat (ot_cap s)) (ot_tab s)) s;
                Some (s1\<lparr>ot_cap := 0, ot_last := 0, ot_tab := []\<rparr>) })"

definition Table_Purge :: "'p objs \<Rightarrow> 'p objs option" where
  "Table_Purge s =
     (if length (ot_tab s) < unat (ot_cap s) then None
      else do { s1 \<leftarrow> release_all (take (unat (ot_cap s)) (ot_tab s)) s;
                Some (s1\<lparr>ot_tab := map (\<lambda>e. if en_obj e = None then e else empty_entry)
                                     (take (unat (ot_cap s)) (ot_tab s)) @
                                   drop (unat (ot_cap s)) (ot_tab s)\<rparr>) })"

section \<open>Object construction\<close>

text \<open>
  \<open>Object::Object\<close> on freshly allocated memory at address \<open>o'\<close>: the header is initialised and
  the object adds itself to the table. The result is the handle list of the new object, whose
  first element is what \<open>handle()\<close> returns.
\<close>

definition Object_new ::
  "(u32 \<Rightarrow> bool) \<Rightarrow> nat \<Rightarrow> obj_type \<Rightarrow> 'p \<Rightarrow> 'p objs \<Rightarrow> (bool \<times> u32 \<times> 'p objs) option" where
  "Object_new ra o' ty d s =
     (if heap s o' \<noteq> None then None
      else Table_Add ra o' (s\<lparr>heap := (heap s)(o' \<mapsto>
             \<lparr>ko_type = ty, ko_handles = [], ko_refs = 0, ko_data = d\<rparr>)\<rparr>))"

definition Obj_handle :: "nat \<Rightarrow> 'p objs \<Rightarrow> u32 option" where
  "Obj_handle o' s = (case heap s o' of None \<Rightarrow> None
     | Some k \<Rightarrow> (case ko_handles k of [] \<Rightarrow> None | h # _ \<Rightarrow> Some h))"

definition RetainHandle :: "nat \<Rightarrow> 'p objs \<Rightarrow> (bool \<times> 'p objs) option" where
  "RetainHandle o' s = do { h \<leftarrow> Obj_handle o' s; Keep h s }"

definition ReleaseHandle :: "nat \<Rightarrow> 'p objs \<Rightarrow> (bool \<times> 'p objs) option" where
  "ReleaseHandle o' s = do { h \<leftarrow> Obj_handle o' s; Table_Release h s }"

section \<open>The slot scan\<close>

text \<open>
  The scan starts at the last free slot \<open>l\<close>, runs to the end of the table, skips slot 0 (and
  counts it) and continues from slot 1. When it gives up it has looked at every slot but 0.
\<close>

abbreviation is_free :: "entry list \<Rightarrow> nat \<Rightarrow> bool" where
  "is_free tab i \<equiv> en_obj (tab ! i) = None"

lemma scan_wrapped:
  assumes "1 \<le> l" "l < cap" "cap = length tab" "1 + j \<le> l"
  shows "\<exists>r. scan_slots tab cap (1 + j) (cap - l + 1 + j) = Some r \<and>
    (case r of Some i \<Rightarrow> 1 \<le> i \<and> i < cap \<and> is_free tab i
     | None \<Rightarrow> \<forall>i. 1 + j \<le> i \<and> i < l \<longrightarrow> \<not> is_free tab i)"
  using assms(4)
proof (induction "l - 1 - j" arbitrary: j)
  case 0
  then have "cap - l + 1 + j = cap" using assms by simp
  then show ?case using 0 assms by (auto simp: scan_slots.simps)
next
  case (Suc d)
  have lt: "cap - l + 1 + j < cap" "(1 + j + 1) mod cap = 1 + (j + 1)"
    using Suc assms by auto
  have IH: "\<exists>r. scan_slots tab cap (1 + (j + 1)) (cap - l + 1 + (j + 1)) = Some r \<and>
    (case r of Some i \<Rightarrow> 1 \<le> i \<and> i < cap \<and> is_free tab i
     | None \<Rightarrow> \<forall>i. 1 + (j + 1) \<le> i \<and> i < l \<longrightarrow> \<not> is_free tab i)"
    using Suc by (intro Suc.hyps(1)) auto
  show ?case
  proof (cases "is_free tab (1 + j)")
    case True
    then show ?thesis using lt assms Suc by (subst scan_slots.simps) auto
  next
    case False
    then have "scan_slots tab cap (1 + j) (cap - l + 1 + j) =
        scan_slots tab cap (1 + (j + 1)) (cap - l + 1 + (j + 1))"
      using lt assms Suc by (subst scan_slots.simps) auto
    then show ?thesis using IH False by (auto split: option.splits) (metis Suc_leI le_neq_implies_less)
  qed
qed

lemma scan_from:
  assumes "1 \<le> l" "cap = length tab" "l + k < cap"
  shows "\<exists>r. scan_slots tab cap (l + k) k = Some r \<and>
    (case r of Some i \<Rightarrow> 1 \<le> i \<and> i < cap \<and> is_free tab i
     | None \<Rightarrow> \<forall>i. (l + k \<le> i \<and> i < cap \<or> 1 \<le> i \<and> i < l) \<longrightarrow> \<not> is_free tab i)"
  using assms(3)
proof (induction "cap - (l + k)" arbitrary: k)
  case 0
  then show ?case by simp
next
  case (Suc d)
  have lt: "k < cap" "\<not> length tab \<le> l + k" using Suc assms by auto
  show ?case
  proof (cases "is_free tab (l + k)")
    case True
    then show ?thesis using lt assms Suc by (subst scan_slots.simps) auto
  next
    case False
    show ?thesis
    proof (cases "l + k + 1 = cap")
      case True
      then have "k + 2 = cap - l + 1 + 0" using assms by simp
      moreover have "scan_slots tab cap (l + k) k = scan_slots tab cap 1 (k + 2)"
        using True False lt by (subst scan_slots.simps) auto
      ultimately show ?thesis
        using scan_wrapped [of l cap tab 0] True False assms Suc.prems
        by (auto split: option.splits) (metis le_antisym less_Suc_eq_le)
    next
      case neq: False
      then have "scan_slots tab cap (l + k) k = scan_slots tab cap (l + (k + 1)) (k + 1)"
        using False lt Suc.prems by (subst scan_slots.simps) auto
      moreover have "\<exists>r. scan_slots tab cap (l + (k + 1)) (k + 1) = Some r \<and>
        (case r of Some i \<Rightarrow> 1 \<le> i \<and> i < cap \<and> is_free tab i
         | None \<Rightarrow> \<forall>i. (l + (k + 1) \<le> i \<and> i < cap \<or> 1 \<le> i \<and> i < l) \<longrightarrow> \<not> is_free tab i)"
        using Suc neq by (intro Suc.hyps(1)) auto
      ultimately show ?thesis
        using False by (auto split: option.splits) (metis Suc_leI le_neq_implies_less)
    qed
  qed
qed

section \<open>Well-formed tables\<close>

text \<open>
  The array has one entry per slot, slot 0 is never used, and the capacity is small enough that
  neither byte sizes nor handles wrap (at most \<open>2 ^ 27\<close> slots, a 2 GiB array).
\<close>

definition wf_table :: "'p objs \<Rightarrow> bool" where
  "wf_table s \<longleftrightarrow> length (ot_tab s) = unat (ot_cap s) \<and> unat (ot_cap s) \<le> 2 ^ 27 \<and>
     (if ot_cap s = 0 then ot_last s = 0
      else 2 ^ 14 \<le> unat (ot_cap s) \<and> 1 \<le> unat (ot_last s) \<and> unat (ot_last s) < unat (ot_cap s) \<and>
           is_free (ot_tab s) 0)"

definition table_refs :: "entry list \<Rightarrow> nat \<Rightarrow> nat" where
  "table_refs tab o' = length (filter (\<lambda>e. en_obj e = Some o') tab)"

text \<open>Every object in the table is alive and counts at least the table's references.\<close>

definition refs_ok :: "'p objs \<Rightarrow> bool" where
  "refs_ok s \<longleftrightarrow> (\<forall>o'. 0 < table_refs (ot_tab s) o' \<longrightarrow>
     (\<exists>k. heap s o' = Some k \<and> int (table_refs (ot_tab s) o') \<le> ko_refs k))"

definition wf_objs :: "'p objs \<Rightarrow> bool" where
  "wf_objs s \<longleftrightarrow> wf_table s \<and> refs_ok s"

lemma Resize_wf:
  assumes "wf_table s" "unat (ot_cap s) \<le> 2 ^ 26"
    and "Resize ra (max (16 * 1024) (ot_cap s * 2)) s = Some s'"
  shows "ot_cap s' = max (16 * 1024) (ot_cap s * 2) \<and> unat (ot_cap s') = max 16384 (2 * unat (ot_cap s)) \<and>
    ot_last s' = ot_cap s \<and> heap s' = heap s \<and>
    ot_tab s' = ot_tab s @ replicate (unat (ot_cap s') - length (ot_tab s)) empty_entry"
proof -
  let ?c = "max (16 * 1024) (ot_cap s * 2)"
  have dbl: "unat (ot_cap s * 2) = unat (ot_cap s) * 2"
    using assms(2) by (simp add: unat_word_ariths)
  then have c: "unat ?c = max 16384 (2 * unat (ot_cap s))"
    by (auto simp: max_def word_le_nat_alt)
  have "unat (?c * 16) = unat ?c * 16"
    using assms(2) c by (simp add: unat_word_ariths)
  then have "unat (?c * 16) div 16 = unat ?c" by simp
  moreover have "length (ot_tab s) \<le> unat ?c" using assms(1) c by (simp add: wf_table_def)
  ultimately show ?thesis using assms(3) c by (auto simp: Resize_def Let_def split: if_splits)
qed

definition has_free :: "'p objs \<Rightarrow> bool" where
  "has_free s \<longleftrightarrow> (\<exists>i. 1 \<le> i \<and> i < unat (ot_cap s) \<and> is_free (ot_tab s) i)"

lemma scan_spec:
  assumes "wf_table s"
  shows "\<exists>r. scan_slots (ot_tab s) (unat (ot_cap s)) (unat (ot_last s)) 0 = Some r \<and>
    (case r of Some i \<Rightarrow> 1 \<le> i \<and> i < unat (ot_cap s) \<and> is_free (ot_tab s) i | None \<Rightarrow> \<not> has_free s)"
proof (cases "ot_cap s = 0")
  case True
  then show ?thesis by (simp add: scan_slots.simps has_free_def)
next
  case False
  then have wf: "1 \<le> unat (ot_last s)" "unat (ot_cap s) = length (ot_tab s)" "unat (ot_last s) + 0 < unat (ot_cap s)"
    using assms by (auto simp: wf_table_def)
  obtain r where r: "scan_slots (ot_tab s) (unat (ot_cap s)) (unat (ot_last s) + 0) 0 = Some r"
    "case r of Some i \<Rightarrow> 1 \<le> i \<and> i < unat (ot_cap s) \<and> is_free (ot_tab s) i
     | None \<Rightarrow> \<forall>i. (unat (ot_last s) + 0 \<le> i \<and> i < unat (ot_cap s) \<or> 1 \<le> i \<and> i < unat (ot_last s)) \<longrightarrow>
         \<not> is_free (ot_tab s) i"
    using scan_from [OF wf] by blast
  have "\<not> has_free s" if "r = None"
  proof
    assume "has_free s"
    then obtain i where i: "1 \<le> i" "i < unat (ot_cap s)" "is_free (ot_tab s) i"
      by (auto simp: has_free_def)
    then have "unat (ot_last s) \<le> i \<and> i < unat (ot_cap s) \<or> 1 \<le> i \<and> i < unat (ot_last s)" by auto
    then show False using r(2) that i(3) by auto
  qed
  then show ?thesis using r by (cases r) simp_all
qed

lemma FindSlot_grow:
  assumes "wf_table s" "unat (ot_cap s) \<le> 2 ^ 26" "Resize ra (max (16 * 1024) (ot_cap s * 2)) s = Some s1"
  defines "slot \<equiv> ot_last s1 + 1"
  shows "wf_table (s1\<lparr>ot_last := slot\<rparr>) \<and> heap s1 = heap s \<and>
    (\<exists>n. ot_tab s1 = ot_tab s @ replicate n empty_entry) \<and>
    1 \<le> unat slot \<and> unat slot < length (ot_tab s1) \<and> is_free (ot_tab s1) (unat slot)"
proof -
  note R = Resize_wf [OF assms(1-3)]
  let ?c = "unat (ot_cap s)"
  have len: "length (ot_tab s) = ?c" using assms(1) by (simp add: wf_table_def)
  have slot: "unat slot = ?c + 1"
    using R assms(2) by (simp add: slot_def unat_word_ariths)
  have big: "?c + 1 < unat (ot_cap s1)" "2 ^ 14 \<le> unat (ot_cap s1)" "unat (ot_cap s1) \<le> 2 ^ 27"
    using R assms(1,2) by (auto simp: wf_table_def)
  have tl: "length (ot_tab s1) = unat (ot_cap s1)" using R len big by simp
  have f: "is_free (ot_tab s1) (?c + 1)"
    using R len big by (simp add: nth_append empty_entry_def)
  have z: "is_free (ot_tab s1) 0"
    using R len big assms(1) by (auto simp: nth_append empty_entry_def wf_table_def split: if_splits)
  have "ot_cap s1 \<noteq> 0" using big by auto
  then have "wf_table (s1\<lparr>ot_last := slot\<rparr>)"
    using tl big slot z by (simp add: wf_table_def)
  then show ?thesis using R slot tl big f by auto
qed

lemma FindSlot_spec:
  assumes "wf_table s" "unat (ot_cap s) \<le> 2 ^ 26 \<or> has_free s"
  shows "\<exists>r s'. FindSlot ra s = Some (r, s') \<and> wf_table s' \<and> heap s' = heap s \<and>
    (\<exists>n. ot_tab s' = ot_tab s @ replicate n empty_entry) \<and> (has_free s \<longrightarrow> s' = s \<and> r \<noteq> None) \<and>
    (case r of Some slot \<Rightarrow> 1 \<le> unat slot \<and> unat slot < length (ot_tab s') \<and> is_free (ot_tab s') (unat slot)
     | None \<Rightarrow> s' = s)"
proof -
  obtain r where r: "scan_slots (ot_tab s) (unat (ot_cap s)) (unat (ot_last s)) 0 = Some r"
    "case r of Some i \<Rightarrow> 1 \<le> i \<and> i < unat (ot_cap s) \<and> is_free (ot_tab s) i | None \<Rightarrow> \<not> has_free s"
    using scan_spec [OF assms(1)] by blast
  have same: "\<exists>n. ot_tab s = ot_tab s @ replicate n empty_entry" by (intro exI [of _ 0]) simp
  show ?thesis
  proof (cases r)
    case (Some i)
    then have "unat (of_nat i :: u32) = i"
      using r assms(1) by (simp add: wf_table_def unat_of_nat)
    then show ?thesis using r Some assms(1) same by (auto simp: FindSlot_def wf_table_def)
  next
    case None
    show ?thesis
    proof (cases "Resize ra (max (16 * 1024) (ot_cap s * 2)) s")
      case R: None
      then show ?thesis using r None assms(1) same by (simp add: FindSlot_def)
    next
      case (Some s1)
      have "unat (ot_cap s) \<le> 2 ^ 26" using assms(2) r None by simp
      note G = FindSlot_grow [OF assms(1) this Some]
      then show ?thesis using r None Some by (simp add: FindSlot_def Let_def)
    qed
  qed
qed

section \<open>Handles\<close>

text \<open>The handle of a slot; for slots below \<open>2 ^ 30\<close> it determines the slot.\<close>

lemma handle_slot: "unat slot < 2 ^ 30 \<Longrightarrow> drop_bit 2 (push_bit 2 (slot :: u32)) = slot"
proof -
  assume a: "unat slot < 2 ^ 30"
  then have "unat (push_bit 2 slot) = unat slot * 4"
    by (simp add: push_bit_eq_mult unat_word_ariths)
  then show ?thesis
    by (simp add: word_unat_eq_iff drop_bit_eq_div unat_div)
qed

lemma FindEntry_wf:
  assumes "wf_table s"
  shows "FindEntry h s = Some (if drop_bit 2 h < ot_cap s then Some (unat (drop_bit 2 h)) else None)"
  using assms by (auto simp: FindEntry_def Let_def wf_table_def word_less_nat_alt)

lemma wf_table_set_entryI:
  "wf_table s \<Longrightarrow> i \<noteq> 0 \<or> en_obj e = None \<Longrightarrow> wf_table (set_entry i e s)"
  by (cases i; cases "ot_tab s") (auto simp: wf_table_def set_entry_def unat_eq_zero split: if_splits)

lemma wf_table_heap [simp]: "wf_table (s\<lparr>heap := h\<rparr>) = wf_table s"
  by (simp add: wf_table_def)

section \<open>What the operations do\<close>

text \<open>The object a handle denotes; the low two bits of a handle are ignored.\<close>

definition handle_obj :: "'p objs \<Rightarrow> u32 \<Rightarrow> nat option" where
  "handle_obj s h = (if drop_bit 2 h < ot_cap s then en_obj (ot_tab s ! unat (drop_bit 2 h)) else None)"

lemma table_refs_update: "i < length tab \<Longrightarrow>
    table_refs (tab[i := e]) o' + (if en_obj (tab ! i) = Some o' then 1 else 0) =
    table_refs tab o' + (if en_obj e = Some o' then 1 else 0)"
  using length_filter_update [of i tab "\<lambda>e. en_obj e = Some o'" e] by (simp add: table_refs_def)

lemma table_refs_pos: "i < length tab \<Longrightarrow> en_obj (tab ! i) = Some o' \<Longrightarrow> 0 < table_refs tab o'"
  by (auto simp: table_refs_def filter_empty_conv)

lemma table_refs_grow [simp]: "table_refs (tab @ replicate n empty_entry) o' = table_refs tab o'"
  by (simp add: table_refs_def empty_entry_def)

lemma handle_index:
  assumes "wf_table s" "drop_bit 2 h < ot_cap s"
  shows "unat (drop_bit 2 h) < length (ot_tab s)"
  using assms by (simp add: wf_table_def word_less_nat_alt)

lemma handle_obj_alive:
  assumes "wf_objs s" "handle_obj s h = Some o'"
  shows "\<exists>k. heap s o' = Some k \<and> int (table_refs (ot_tab s) o') \<le> ko_refs k \<and> 0 < table_refs (ot_tab s) o'"
proof -
  have h: "drop_bit 2 h < ot_cap s" "en_obj (ot_tab s ! unat (drop_bit 2 h)) = Some o'"
    using assms(2) by (auto simp: handle_obj_def split: if_splits)
  then have "0 < table_refs (ot_tab s) o'"
    using table_refs_pos handle_index assms(1) wf_objs_def by blast
  then show ?thesis using assms(1) by (auto simp: wf_objs_def refs_ok_def)
qed

lemma Table_Get_spec:
  assumes "wf_objs s"
  shows "\<exists>s'. Table_Get h s = Some (handle_obj s h, s') \<and> wf_objs s' \<and> ot_tab s' = ot_tab s \<and> ot_cap s' = ot_cap s \<and>
    heap s' = (case handle_obj s h of None \<Rightarrow> heap s
      | Some o' \<Rightarrow> (heap s)(o' := map_option (\<lambda>k. k\<lparr>ko_refs := ko_refs k + 1\<rparr>) (heap s o')))"
proof (cases "handle_obj s h")
  case None
  then show ?thesis using assms
    by (auto simp: Table_Get_def wf_objs_def FindEntry_wf handle_obj_def split: if_splits)
next
  case (Some o')
  then have in_tab: "drop_bit 2 h < ot_cap s" "en_obj (ot_tab s ! unat (drop_bit 2 h)) = Some o'"
    by (auto simp: handle_obj_def split: if_splits)
  obtain k where k: "heap s o' = Some k" "int (table_refs (ot_tab s) o') \<le> ko_refs k"
    using handle_obj_alive [OF assms Some] by blast
  let ?s = "s\<lparr>heap := (heap s)(o' \<mapsto> k\<lparr>ko_refs := ko_refs k + 1\<rparr>)\<rparr>"
  have "Table_Get h s = Some (Some o', ?s)"
    using in_tab k assms by (simp add: Table_Get_def wf_objs_def FindEntry_wf Obj_Retain_def)
  moreover have "wf_objs ?s"
    using assms k by (auto simp: wf_objs_def refs_ok_def)
  ultimately show ?thesis using Some k by simp
qed

lemma Table_Remove_None:
  "wf_table s \<Longrightarrow> handle_obj s h = None \<Longrightarrow> Table_Remove h s = Some (False, s)"
  by (auto simp: Table_Remove_def FindEntry_wf handle_obj_def split: if_splits)

lemma Table_Remove_spec:
  assumes "wf_objs s" "handle_obj s h = Some o'" "heap s o' = Some k"
  shows "\<exists>s'. Table_Remove h s = Some (True, s') \<and> wf_objs s' \<and> ot_cap s' = ot_cap s \<and>
    ot_tab s' = (ot_tab s)[unat (drop_bit 2 h) := empty_entry] \<and>
    heap s' = (heap s)(o' := if ko_refs k = 1 then None
      else Some (k\<lparr>ko_handles := remove1 h (ko_handles k), ko_refs := ko_refs k - 1\<rparr>))"
proof -
  let ?i = "unat (drop_bit 2 h)"
  have in_tab: "drop_bit 2 h < ot_cap s" "en_obj (ot_tab s ! ?i) = Some o'"
    using assms(2) by (auto simp: handle_obj_def split: if_splits)
  have wt: "wf_table s" using assms(1) by (simp add: wf_objs_def)
  have i: "?i < length (ot_tab s)" using handle_index [OF wt in_tab(1)] .
  let ?k = "k\<lparr>ko_handles := remove1 h (ko_handles k), ko_refs := ko_refs k - 1\<rparr>"
  let ?s = "(set_entry ?i empty_entry s)\<lparr>heap := (heap s)(o' := if ko_refs k = 1 then None else Some ?k)\<rparr>"
  have res: "Table_Remove h s = Some (True, ?s)"
    using in_tab assms(3) wt
    by (auto simp: Table_Remove_def FindEntry_wf drop_handle_def Obj_Release_def set_entry_def)
  have refs: "table_refs ((ot_tab s)[?i := empty_entry]) q + (if q = o' then 1 else 0) = table_refs (ot_tab s) q" for q
    using table_refs_update [OF i, of empty_entry q] in_tab(2) by (auto simp: empty_entry_def split: if_splits)
  have "refs_ok ?s"
    unfolding refs_ok_def
  proof (intro allI impI)
    fix q assume "0 < table_refs (ot_tab ?s) q"
    then have pos: "0 < table_refs ((ot_tab s)[?i := empty_entry]) q" by (simp add: set_entry_def)
    have "0 < table_refs (ot_tab s) q" using pos refs [of q] by simp
    then obtain k' where k': "heap s q = Some k'" "int (table_refs (ot_tab s) q) \<le> ko_refs k'"
      using assms(1) by (auto simp: wf_objs_def refs_ok_def)
    show "\<exists>k. heap ?s q = Some k \<and> int (table_refs (ot_tab ?s) q) \<le> ko_refs k"
      using k' refs [of q] pos assms(3) by (auto simp: set_entry_def split: if_splits)
  qed
  moreover have "wf_table ?s" using wt by (simp add: wf_table_set_entryI empty_entry_def)
  ultimately show ?thesis using res by (auto simp: wf_objs_def set_entry_def)
qed

lemma Table_Release_spec:
  assumes "wf_objs s" "handle_obj s h = Some o'" "heap s o' = Some k"
  shows "\<exists>s'. Table_Release h s = Some (True, s') \<and> wf_objs s' \<and> ot_cap s' = ot_cap s \<and>
    (if en_ref (ot_tab s ! unat (drop_bit 2 h)) = 1
     then ot_tab s' = (ot_tab s)[unat (drop_bit 2 h) := empty_entry] \<and>
       heap s' = (heap s)(o' := if ko_refs k = 1 then None
         else Some (k\<lparr>ko_handles := remove1 h (ko_handles k), ko_refs := ko_refs k - 1\<rparr>))
     else heap s' = heap s \<and> (\<forall>h'. handle_obj s' h' = handle_obj s h') \<and>
       (\<forall>q. table_refs (ot_tab s') q = table_refs (ot_tab s) q))"
proof -
  let ?i = "unat (drop_bit 2 h)" and ?e = "ot_tab s ! unat (drop_bit 2 h)"
  let ?s1 = "set_entry ?i (?e\<lparr>en_ref := en_ref ?e - 1\<rparr>) s"
  have in_tab: "drop_bit 2 h < ot_cap s" "en_obj ?e = Some o'"
    using assms(2) by (auto simp: handle_obj_def split: if_splits)
  have wt: "wf_table s" using assms(1) by (simp add: wf_objs_def)
  have i: "?i < length (ot_tab s)" using handle_index [OF wt in_tab(1)] .
  have same: "handle_obj ?s1 h' = handle_obj s h'" for h'
    by (auto simp: handle_obj_def set_entry_def nth_list_update i)
  have same_refs: "table_refs (ot_tab ?s1) q = table_refs (ot_tab s) q" for q
    using table_refs_update [OF i, of "?e\<lparr>en_ref := en_ref ?e - 1\<rparr>" q]
    by (simp add: set_entry_def split: if_splits)
  have "wf_table ?s1"
  proof (cases "?i = 0")
    case True
    then have "is_free (ot_tab s) 0" using wt i by (auto simp: wf_table_def split: if_splits)
    then show ?thesis using in_tab True by simp
  qed (simp add: wt wf_table_set_entryI)
  then have wf1: "wf_objs ?s1"
    using assms(1) same_refs by (simp add: wf_objs_def refs_ok_def set_entry_def)
  have rel: "Table_Release h s = (if en_ref ?e = 1 then Table_Remove h ?s1 else Some (True, ?s1))"
    using in_tab wt by (simp add: Table_Release_def FindEntry_wf Let_def)
  have "heap ?s1 o' = Some k" "handle_obj ?s1 h = Some o'"
    using assms same by (simp_all add: set_entry_def)
  note rem = Table_Remove_spec [OF wf1 this(2) this(1)]
  show ?thesis
  proof (cases "en_ref ?e = 1")
    case True
    then show ?thesis using rem rel by (simp add: set_entry_def)
  next
    case False
    then show ?thesis using rel wf1 same same_refs by (simp add: set_entry_def)
  qed
qed

lemma Table_Add_spec:
  assumes "wf_objs s" "heap s o' = Some k" "int (table_refs (ot_tab s) o') \<le> ko_refs k"
    and "unat (ot_cap s) \<le> 2 ^ 26 \<or> has_free s"
  shows "\<exists>b h s'. Table_Add ra o' s = Some (b, h, s') \<and> wf_objs s' \<and> (has_free s \<longrightarrow> b) \<and>
    (if b then h \<noteq> 0 \<and> h AND 3 = 0 \<and> handle_obj s h = None \<and>
       (\<forall>h'. handle_obj s' h' = (if drop_bit 2 h' = drop_bit 2 h then Some o' else handle_obj s h')) \<and>
       heap s' = (heap s)(o' \<mapsto> k\<lparr>ko_handles := ko_handles k @ [h], ko_refs := ko_refs k + 1\<rparr>)
     else h = - 1 \<and> s' = s)"
proof -
  have "wf_table s" using assms(1) by (simp add: wf_objs_def)
  note F = FindSlot_spec [OF this assms(4), of ra]
  obtain r s1 where fs: "FindSlot ra s = Some (r, s1)" "wf_table s1" "heap s1 = heap s"
    "\<exists>n. ot_tab s1 = ot_tab s @ replicate n empty_entry" "has_free s \<longrightarrow> s1 = s \<and> r \<noteq> None"
    "case r of Some slot \<Rightarrow> 1 \<le> unat slot \<and> unat slot < length (ot_tab s1) \<and> is_free (ot_tab s1) (unat slot)
     | None \<Rightarrow> s1 = s"
    using F by blast
  show ?thesis
  proof (cases r)
    case None
    then show ?thesis using fs assms(1) by (auto simp: Table_Add_def)
  next
    case (Some slot)
    then have sl: "1 \<le> unat slot" "unat slot < length (ot_tab s1)" "is_free (ot_tab s1) (unat slot)"
      using fs by auto
    let ?h = "push_bit 2 slot :: u32" and ?e = "\<lparr>en_ref = 1, en_obj = Some o'\<rparr>"
    let ?k = "k\<lparr>ko_handles := ko_handles k @ [?h], ko_refs := ko_refs k + 1\<rparr>"
    let ?s = "(set_entry (unat slot) ?e s1)\<lparr>heap := (heap s)(o' \<mapsto> ?k)\<rparr>"
    have cap: "unat slot < unat (ot_cap s1)" "unat (ot_cap s1) \<le> 2 ^ 27"
      using fs(2) sl by (auto simp: wf_table_def)
    have slot: "drop_bit 2 ?h = slot" using handle_slot [of slot] cap by simp
    have res: "Table_Add ra o' s = Some (True, ?h, ?s)"
      using fs Some sl assms(2)
      by (auto simp: Table_Add_def push_handle_def Obj_Retain_def set_entry_def Let_def)
    obtain n where n: "ot_tab s1 = ot_tab s @ replicate n empty_entry" using fs(4) by blast
    have refs: "table_refs ((ot_tab s1)[unat slot := ?e]) q = table_refs (ot_tab s) q + (if q = o' then 1 else 0)" for q
      using table_refs_update [OF sl(2), of ?e q] sl(3) n by auto
    have "refs_ok ?s"
      unfolding refs_ok_def
    proof (intro allI impI)
      fix q assume pos: "0 < table_refs (ot_tab ?s) q"
      show "\<exists>k. heap ?s q = Some k \<and> int (table_refs (ot_tab ?s) q) \<le> ko_refs k"
      proof (cases "q = o'")
        case True
        then show ?thesis using refs [of q] assms(3) by (simp add: set_entry_def)
      next
        case False
        then have "0 < table_refs (ot_tab s) q" using pos refs [of q] by (simp add: set_entry_def)
        then show ?thesis using False refs [of q] assms(1)
          by (simp add: set_entry_def wf_objs_def refs_ok_def)
      qed
    qed
    moreover have "wf_table ?s" using fs(2) sl by (simp add: wf_table_set_entryI)
    ultimately have wf: "wf_objs ?s" by (simp add: wf_objs_def)
    have lens: "length (ot_tab s) = unat (ot_cap s)" "length (ot_tab s1) = unat (ot_cap s1)"
      using fs(2) assms(1) by (auto simp: wf_table_def wf_objs_def)
    have old: "handle_obj s1 h' = handle_obj s h'" for h'
      using n lens fs(2) by (auto simp: handle_obj_def nth_append word_less_nat_alt empty_entry_def)
    have upd: "handle_obj ?s h' = (if drop_bit 2 h' = drop_bit 2 ?h then Some o' else handle_obj s h')" for h'
      unfolding slot old [of h', symmetric] using sl cap lens
      by (auto simp: handle_obj_def set_entry_def nth_list_update word_less_nat_alt word_unat_eq_iff)
    have "handle_obj s1 ?h = None" using sl(3) slot by (simp add: handle_obj_def)
    moreover have "?h AND 3 = 0" by (rule bit_word_eqI) (auto simp: bit_simps bit_numeral_rec less_2_cases_iff split: nat.splits)
    moreover have "?h \<noteq> 0"
    proof
      assume "?h = 0"
      then have "slot = 0" using slot by simp
      then show False using sl(1) by simp
    qed
    ultimately show ?thesis using res wf upd old fs(5) by (auto simp: set_entry_def)
  qed
qed

section \<open>Releasing the whole table\<close>

definition released :: "nat \<Rightarrow> 'p kobj option \<Rightarrow> 'p kobj option" where
  "released n ko = (case ko of None \<Rightarrow> None
     | Some k \<Rightarrow> if n = 0 then Some k else if ko_refs k = int n then None
                else Some (k\<lparr>ko_refs := ko_refs k - int n\<rparr>))"

definition covered :: "entry list \<Rightarrow> (nat \<rightharpoonup> 'p kobj) \<Rightarrow> bool" where
  "covered es h \<longleftrightarrow> (\<forall>q. 0 < table_refs es q \<longrightarrow>
     (\<exists>k. h q = Some k \<and> int (table_refs es q) \<le> ko_refs k))"

lemma release_all_spec:
  "covered es (heap s) \<Longrightarrow>
   release_all es s = Some (s\<lparr>heap := \<lambda>q. released (table_refs es q) (heap s q)\<rparr>)"
proof (induction es arbitrary: s)
  case Nil
  have "(\<lambda>q. released (table_refs [] q) (heap s q)) = heap s"
    by (auto simp: released_def table_refs_def split: option.splits)
  then show ?case by simp
next
  case (Cons e es)
  show ?case
  proof (cases "en_obj e")
    case None
    then have "table_refs (e # es) = table_refs es" by (auto simp: table_refs_def)
    then show ?thesis using Cons None by (simp add: covered_def)
  next
    case (Some q)
    have cnt: "table_refs (e # es) r = table_refs es r + (if r = q then 1 else 0)" for r
      using Some by (auto simp: table_refs_def)
    obtain k where k: "heap s q = Some k" "int (table_refs es q) + 1 \<le> ko_refs k"
      using Cons.prems cnt by (force simp: covered_def)
    let ?s = "s\<lparr>heap := (heap s)(q := if ko_refs k - 1 = 0 then None else Some (k\<lparr>ko_refs := ko_refs k - 1\<rparr>))\<rparr>"
    have rel: "Obj_Release q s = Some ?s" using k by (simp add: Obj_Release_def)
    have "covered es (heap ?s)"
      using Cons.prems k cnt by (auto simp: covered_def split: if_splits)
    then have IH: "release_all es ?s = Some (?s\<lparr>heap := \<lambda>r. released (table_refs es r) (heap ?s r)\<rparr>)"
      by (rule Cons.IH)
    have "(\<lambda>r. released (table_refs es r) (heap ?s r)) = (\<lambda>r. released (table_refs (e # es) r) (heap s r))"
      using k by (auto simp: fun_eq_iff cnt released_def split: option.splits)
    then show ?thesis using Some rel IH by simp
  qed
qed

section \<open>Handles as an interface\<close>

text \<open>
  What the syscall handlers rely on when they turn an integer handed in by the guest into an
  object: a successful add makes one fresh slot denote the object, a remove clears one slot,
  nothing else changes, and a handle never denotes an object that is gone.
\<close>

locale handle_table =
  fixes invar :: "'s \<Rightarrow> bool"
    and lookup :: "'s \<Rightarrow> u32 \<Rightarrow> nat option"
    and alive :: "'s \<Rightarrow> nat \<Rightarrow> bool"
    and room :: "'s \<Rightarrow> bool"
    and add :: "nat \<Rightarrow> 's \<Rightarrow> (bool \<times> u32 \<times> 's) option"
    and remove :: "u32 \<Rightarrow> 's \<Rightarrow> (bool \<times> 's) option"
  assumes lookup_slot: "drop_bit 2 h = drop_bit 2 h' \<Longrightarrow> lookup s h = lookup s h'"
    and lookup_alive: "invar s \<Longrightarrow> lookup s h = Some q \<Longrightarrow> alive s q"
    and add_ok: "invar s \<Longrightarrow> alive s q \<Longrightarrow> room s \<Longrightarrow> \<exists>h s'. add q s = Some (True, h, s') \<and> invar s' \<and>
          h \<noteq> 0 \<and> lookup s h = None \<and> (\<forall>q'. alive s q' \<longrightarrow> alive s' q') \<and>
          (\<forall>h'. lookup s' h' = (if drop_bit 2 h' = drop_bit 2 h then Some q else lookup s h'))"
    and remove_ok: "invar s \<Longrightarrow> lookup s h = Some q \<Longrightarrow> \<exists>s'. remove h s = Some (True, s') \<and> invar s' \<and>
          (\<forall>h'. lookup s' h' = (if drop_bit 2 h' = drop_bit 2 h then None else lookup s h'))"
begin

lemma add_remove:
  assumes "invar s" "alive s q" "room s"
  shows "\<exists>h s1 s2. add q s = Some (True, h, s1) \<and> remove h s1 = Some (True, s2) \<and>
    invar s2 \<and> lookup s1 h = Some q \<and> lookup s2 = lookup s"
proof -
  obtain h s1 where a: "add q s = Some (True, h, s1)" "invar s1" "lookup s h = None"
    "\<forall>h'. lookup s1 h' = (if drop_bit 2 h' = drop_bit 2 h then Some q else lookup s h')"
    using add_ok [OF assms] by blast
  then have "lookup s1 h = Some q" by simp
  from remove_ok [OF a(2) this] obtain s2 where r: "remove h s1 = Some (True, s2)" "invar s2"
    "\<forall>h'. lookup s2 h' = (if drop_bit 2 h' = drop_bit 2 h then None else lookup s1 h')"
    by blast
  have "lookup s2 h' = lookup s h'" for h'
  proof (cases "drop_bit 2 h' = drop_bit 2 h")
    case True
    then show ?thesis using lookup_slot [OF True, of s] a(3) r(3) by simp
  qed (use a(4) r(3) in simp)
  then have "lookup s2 = lookup s" by blast
  then show ?thesis using a r \<open>lookup s1 h = Some q\<close> by blast
qed

lemma add_add:
  assumes "invar s" "alive s q" "room s" "alive s r" "\<And>h s1. add q s = Some (True, h, s1) \<Longrightarrow> room s1"
  shows "\<exists>h s1 g s2. add q s = Some (True, h, s1) \<and> add r s1 = Some (True, g, s2) \<and>
    drop_bit 2 h \<noteq> drop_bit 2 g \<and> lookup s2 h = Some q \<and> lookup s2 g = Some r"
proof -
  obtain h s1 where a: "add q s = Some (True, h, s1)" "invar s1" "alive s1 r"
    "\<forall>h'. lookup s1 h' = (if drop_bit 2 h' = drop_bit 2 h then Some q else lookup s h')"
    using add_ok [OF assms(1-3)] assms(4) by blast
  obtain g s2 where b: "add r s1 = Some (True, g, s2)" "lookup s1 g = None"
    "\<forall>h'. lookup s2 h' = (if drop_bit 2 h' = drop_bit 2 g then Some r else lookup s1 h')"
    using add_ok [OF a(2,3) assms(5) [OF a(1)]] by blast
  have h: "lookup s1 h = Some q" using a(4) by simp
  have ne: "drop_bit 2 h \<noteq> drop_bit 2 g"
    using lookup_slot [of h g s1] h b(2) by auto
  have "lookup s2 h = Some q" "lookup s2 g = Some r" using b(3) ne h by simp_all
  then show ?thesis using a(1) b(1) ne by blast
qed

end

definition obj_alive :: "'p objs \<Rightarrow> nat \<Rightarrow> bool" where
  "obj_alive s q \<longleftrightarrow> (\<exists>k. heap s q = Some k \<and> int (table_refs (ot_tab s) q) \<le> ko_refs k)"

lemma Table_Add_alive:
  assumes "wf_objs s'" "heap s' = (heap s)(q \<mapsto> k\<lparr>ko_handles := hs, ko_refs := ko_refs k + 1\<rparr>)"
    "heap s q = Some k" "0 \<le> ko_refs k" "obj_alive s r"
  shows "obj_alive s' r"
proof (cases "0 < table_refs (ot_tab s') r")
  case True
  then show ?thesis using assms(1) by (auto simp: obj_alive_def wf_objs_def refs_ok_def)
next
  case False
  then show ?thesis using assms(2-5) by (auto simp: obj_alive_def)
qed

interpretation obj: handle_table wf_objs handle_obj obj_alive has_free "Table_Add ra" Table_Remove for ra
proof unfold_locales
  show "handle_obj s h = handle_obj s h'" if "drop_bit 2 h = drop_bit 2 h'" for s :: "'p objs" and h h'
    using that by (simp add: handle_obj_def)
  show "obj_alive s q" if "wf_objs s" "handle_obj s h = Some q" for s :: "'p objs" and h q
    using handle_obj_alive [OF that] by (auto simp: obj_alive_def)
  fix s :: "'p objs" and q
  assume a: "wf_objs s" "obj_alive s q" "has_free s"
  then obtain k where k: "heap s q = Some k" "int (table_refs (ot_tab s) q) \<le> ko_refs k"
    by (auto simp: obj_alive_def)
  from Table_Add_spec [OF a(1) k, of ra] a(3) obtain h s' where
    t: "Table_Add ra q s = Some (True, h, s')" "wf_objs s'" "h \<noteq> 0" "handle_obj s h = None"
      "\<forall>h'. handle_obj s' h' = (if drop_bit 2 h' = drop_bit 2 h then Some q else handle_obj s h')"
      "heap s' = (heap s)(q \<mapsto> k\<lparr>ko_handles := ko_handles k @ [h], ko_refs := ko_refs k + 1\<rparr>)"
    by auto
  have "obj_alive s' r" if "obj_alive s r" for r
    using Table_Add_alive [OF t(2,6) k(1) _ that] k(2) by simp
  then show "\<exists>h s'. Table_Add ra q s = Some (True, h, s') \<and> wf_objs s' \<and> h \<noteq> 0 \<and> handle_obj s h = None \<and>
      (\<forall>q'. obj_alive s q' \<longrightarrow> obj_alive s' q') \<and>
      (\<forall>h'. handle_obj s' h' = (if drop_bit 2 h' = drop_bit 2 h then Some q else handle_obj s h'))"
    using t by blast
next
  fix s :: "'p objs" and h q
  assume a: "wf_objs s" "handle_obj s h = Some q"
  then obtain k where k: "heap s q = Some k" using handle_obj_alive by blast
  from Table_Remove_spec [OF a k] obtain s' where
    r: "Table_Remove h s = Some (True, s')" "wf_objs s'" "ot_cap s' = ot_cap s"
      "ot_tab s' = (ot_tab s)[unat (drop_bit 2 h) := empty_entry]" by blast
  have "handle_obj s' h' = (if drop_bit 2 h' = drop_bit 2 h then None else handle_obj s h')" for h'
    unfolding handle_obj_def r(3,4) using a handle_index [of s h]
    by (auto simp: handle_obj_def nth_list_update word_unat_eq_iff empty_entry_def wf_objs_def split: if_splits)
  then show "\<exists>s'. Table_Remove h s = Some (True, s') \<and> wf_objs s' \<and>
      (\<forall>h'. handle_obj s' h' = (if drop_bit 2 h' = drop_bit 2 h then None else handle_obj s h'))"
    using r by blast
qed

section \<open>Properties\<close>

text \<open>
  C3: Adding an object. In a well-formed state \<open>ObjectTable::Add\<close> is memory safe. It succeeds
  whenever a slot other than 0 is free (the wrapping scan misses none and the array is then not
  grown), or when the array can be grown; on success it hands out a non-zero handle, a multiple
  of 4, of a slot that was free, exactly that slot now denotes the object, and the object has
  one more reference and one more handle. On failure the state is unchanged and the handle is -1.
\<close>

theorem object_table_add:
  assumes "wf_objs s" "heap s q = Some k" "int (table_refs (ot_tab s) q) \<le> ko_refs k"
    and "unat (ot_cap s) \<le> 2 ^ 26 \<or> has_free s"
  shows "\<exists>b h s'. Table_Add ra q s = Some (b, h, s') \<and> wf_objs s' \<and> (has_free s \<longrightarrow> b) \<and>
    (if b then h \<noteq> 0 \<and> h AND 3 = 0 \<and> handle_obj s h = None \<and>
       (\<forall>h'. handle_obj s' h' = (if drop_bit 2 h' = drop_bit 2 h then Some q else handle_obj s h')) \<and>
       heap s' = (heap s)(q \<mapsto> k\<lparr>ko_handles := ko_handles k @ [h], ko_refs := ko_refs k + 1\<rparr>)
     else h = - 1 \<and> s' = s)"
  by (rule Table_Add_spec [OF assms])

definition ex_obj :: "unit kobj" where
  "ex_obj = \<lparr>ko_type = kEventflag, ko_handles = [], ko_refs = 0, ko_data = ()\<rparr>"

definition ex_objs :: "unit objs" where
  "ex_objs = ObjectTable_new [7 \<mapsto> ex_obj]"

lemma ex_objs_wf: "wf_objs ex_objs"
  by (simp add: ex_objs_def ObjectTable_new_def wf_objs_def wf_table_def refs_ok_def table_refs_def)

lemma object_table_add_witness:
  "\<exists>b h s'. Table_Add (\<lambda>_. True) 7 ex_objs = Some (b, h, s') \<and> wf_objs s' \<and>
    (b \<longrightarrow> handle_obj s' h = Some 7 \<and> h \<noteq> 0)"
proof -
  have "heap ex_objs 7 = Some ex_obj" "int (table_refs (ot_tab ex_objs) 7) \<le> ko_refs ex_obj"
    "unat (ot_cap ex_objs) \<le> 2 ^ 26 \<or> has_free ex_objs"
    by (simp_all add: ex_objs_def ex_obj_def ObjectTable_new_def table_refs_def)
  from object_table_add [OF ex_objs_wf this, of "\<lambda>_. True"] show ?thesis by (auto split: if_splits)
qed

text \<open>
  C4: Looking a handle up. In a well-formed state \<open>ObjectTable::Get\<close> never touches memory outside
  the table or a deleted object: it returns the object the slot denotes with one reference more,
  or null with the state unchanged, and the state stays well-formed.
\<close>

theorem object_table_get:
  assumes "wf_objs s"
  shows "\<exists>s'. Table_Get h s = Some (handle_obj s h, s') \<and> wf_objs s' \<and> ot_tab s' = ot_tab s \<and>
    heap s' = (case handle_obj s h of None \<Rightarrow> heap s
      | Some q \<Rightarrow> (heap s)(q := map_option (\<lambda>k. k\<lparr>ko_refs := ko_refs k + 1\<rparr>) (heap s q))) \<and>
    (\<forall>q. handle_obj s h = Some q \<longrightarrow> heap s q \<noteq> None)"
  using Table_Get_spec [OF assms, of h] handle_obj_alive [OF assms, of h] by auto

lemma object_table_get_witness: "\<exists>s'. Table_Get 4 ex_objs = Some (None, s') \<and> heap s' = heap ex_objs"
  using object_table_get [OF ex_objs_wf, of 4]
  by (auto simp: handle_obj_def ex_objs_def ObjectTable_new_def)

text \<open>
  Adding an object and removing the handle it got gives back the meaning of every handle.
\<close>

theorem object_table_add_remove:
  assumes "wf_objs s" "obj_alive s q" "has_free s"
  shows "\<exists>h s1 s2. Table_Add ra q s = Some (True, h, s1) \<and> Table_Remove h s1 = Some (True, s2) \<and>
    wf_objs s2 \<and> handle_obj s1 h = Some q \<and> handle_obj s2 = handle_obj s"
  using assms by (rule obj.add_remove)

text \<open>A table of one page of slots in which only slot 1 is taken.\<close>

definition ex_full :: "unit objs" where
  "ex_full = \<lparr>ot_cap = 0x4000, ot_last = 1,
     ot_tab = (replicate 0x4000 empty_entry)[1 := \<lparr>en_ref = 1, en_obj = Some 7\<rparr>],
     heap = [7 \<mapsto> ex_obj\<lparr>ko_handles := [4], ko_refs := 1\<rparr>]\<rparr>"

lemma ex_full_refs: "table_refs (ot_tab ex_full) q = (if q = 7 then 1 else 0)"
  using table_refs_update [of 1 "replicate 0x4000 empty_entry" "\<lparr>en_ref = 1, en_obj = Some 7\<rparr>" q]
    table_refs_grow [of "[]" "0x4000" q]
  by (auto simp: ex_full_def empty_entry_def table_refs_def [of "[]"])

lemma ex_full_wf: "wf_objs ex_full"
  unfolding wf_objs_def refs_ok_def ex_full_refs
  by (simp add: wf_table_def ex_full_def empty_entry_def)

lemma object_table_add_remove_witness:
  "\<exists>h s1 s2. Table_Add (\<lambda>_. True) 7 ex_full = Some (True, h, s1) \<and> Table_Remove h s1 = Some (True, s2) \<and>
    handle_obj s2 = handle_obj ex_full"
proof -
  have "obj_alive ex_full 7" unfolding obj_alive_def ex_full_refs by (simp add: ex_full_def)
  moreover have "has_free ex_full"
    unfolding has_free_def by (intro exI [of _ 2]) (simp add: ex_full_def empty_entry_def)
  ultimately show ?thesis using object_table_add_remove [OF ex_full_wf, of 7 "\<lambda>_. True"] by blast
qed

text \<open>
  C5: Resetting the table. From a well-formed state \<open>ObjectTable::Reset\<close> never releases a deleted
  object; every object loses exactly the references of the slots that denoted it and is deleted
  exactly when no other reference is left, and the table is empty afterwards.
\<close>

theorem object_table_reset:
  assumes "wf_objs s"
  shows "\<exists>s'. Table_Reset s = Some s' \<and> wf_objs s' \<and> ot_cap s' = 0 \<and> ot_tab s' = [] \<and>
    (\<forall>q. heap s' q = (case heap s q of None \<Rightarrow> None
       | Some k \<Rightarrow> let n = table_refs (ot_tab s) q
                  in if n = 0 then Some k else if ko_refs k = int n then None
                     else Some (k\<lparr>ko_refs := ko_refs k - int n\<rparr>)))"
proof -
  have len: "length (ot_tab s) = unat (ot_cap s)" and cov: "covered (ot_tab s) (heap s)"
    using assms by (auto simp: wf_objs_def wf_table_def refs_ok_def covered_def)
  show ?thesis
    using release_all_spec [OF cov] len
    by (simp add: Table_Reset_def released_def Let_def wf_objs_def wf_table_def refs_ok_def
        table_refs_def [of "[]"] split: option.splits)
qed

lemma object_table_reset_witness: "\<exists>s'. Table_Reset ex_full = Some s' \<and> heap s' 7 = None"
  using object_table_reset [OF ex_full_wf] unfolding ex_full_refs
  by (auto simp: ex_full_def Let_def)

end
