(* ===== verification/Session.thy ===== *)
theory Session
  imports Prelude
begin

text \<open>
  The guest session of \<open>shared/guest/session.{h,cc}\<close> and the pause gate of
  \<open>shared/guest/pause.cc\<close>.

  A cancellable wait holds a monitor lock except inside \<open>cv.WaitFor\<close>. Its run is a function of
  a schedule: one observation per iteration, giving what \<open>Stopping()\<close> and the clock return in
  that iteration and what the other threads do to the state while the lock is released. A wait
  whose schedule is used up is still asleep, the value \<open>None\<close>. The pause gate is a step
  relation between one guest thread and the thread that pauses, resumes and stops the session,
  with one step per atomic access.
\<close>

section \<open>Cancellable waits (\<open>session.h\<close>)\<close>

record 's obs =
  ob_stop :: bool
  ob_now :: int
  ob_env :: "'s \<Rightarrow> 's"

fun WaitFor :: "int \<Rightarrow> ('s \<Rightarrow> bool) \<Rightarrow> 's obs list \<Rightarrow> 's \<Rightarrow> (bool \<times> 's \<times> 's obs list) option" where
  "WaitFor deadline ready [] s = (if ready s then Some (True, s, []) else None)"
| "WaitFor deadline ready (b # bs) s =
     (if ready s then Some (True, s, b # bs)
      else if ob_stop b then Some (False, s, bs)
      else if deadline - ob_now b \<le> 0 then Some (False, s, bs)
      else WaitFor deadline ready bs (ob_env b s))"

fun Wait :: "('s \<Rightarrow> bool) \<Rightarrow> 's obs list \<Rightarrow> 's \<Rightarrow> (bool \<times> 's \<times> 's obs list) option" where
  "Wait ready [] s = (if ready s then Some (True, s, []) else None)"
| "Wait ready (b # bs) s =
     (if ready s then Some (True, s, b # bs)
      else if ob_stop b then Some (False, s, bs)
      else Wait ready bs (ob_env b s))"

text \<open>A schedule never observes the stop of the session, and ends a wait with deadline \<open>d\<close>.\<close>

definition no_stop :: "'s obs list \<Rightarrow> bool" where
  "no_stop bs \<longleftrightarrow> (\<forall>b\<in>set bs. \<not> ob_stop b)"

definition expires :: "int \<Rightarrow> 's obs list \<Rightarrow> bool" where
  "expires d bs \<longleftrightarrow> (\<exists>b\<in>set bs. ob_stop b \<or> d \<le> ob_now b)"

lemma no_stop_simps [simp]: "no_stop []" "no_stop (b # bs) \<longleftrightarrow> \<not> ob_stop b \<and> no_stop bs"
  by (auto simp: no_stop_def)

lemma expires_simps [simp]:
  "\<not> expires d []" "expires d (b # bs) \<longleftrightarrow> ob_stop b \<or> d \<le> ob_now b \<or> expires d bs"
  by (auto simp: expires_def)

lemma WaitFor_ready: "WaitFor d ready bs s = Some (ok, s', bs') \<Longrightarrow> ready s' = ok"
  by (induction bs arbitrary: s) (auto split: if_splits)

lemma Wait_ready: "Wait ready bs s = Some (ok, s', bs') \<Longrightarrow> ready s' = ok"
  by (induction bs arbitrary: s) (auto split: if_splits)

lemma WaitFor_returns: "expires d bs \<Longrightarrow> \<exists>r. WaitFor d ready bs s = Some r"
  by (induction bs arbitrary: s) auto

lemma Wait_stop_returns: "\<not> no_stop bs \<Longrightarrow> \<exists>r. Wait ready bs s = Some r"
  by (induction bs arbitrary: s) auto

lemma Wait_no_stop: "no_stop bs \<Longrightarrow> Wait ready bs s = Some (ok, s', bs') \<Longrightarrow> ok"
  by (induction bs arbitrary: s) (auto split: if_splits)

lemma WaitFor_False_expired: "WaitFor d ready bs s = Some (False, s', bs') \<Longrightarrow>
    \<exists>b\<in>set bs. ob_stop b \<or> d \<le> ob_now b"
  by (induction bs arbitrary: s) (auto split: if_splits)

text \<open>
  \<open>monitor\<close>: the state a mutex guards, with an invariant and a relation \<open>R\<close> that bounds what
  any sequence of critical sections does to it (reflexive and transitive). Both kinds of wait
  preserve the invariant and stay in the relation when every other thread does.
\<close>

locale monitor =
  fixes inv :: "'s \<Rightarrow> bool" and R :: "'s \<Rightarrow> 's \<Rightarrow> bool"
  assumes R_refl: "R s s"
    and R_trans: "\<lbrakk>R s t; R t u\<rbrakk> \<Longrightarrow> R s u"
begin

definition well_behaved :: "'s obs list \<Rightarrow> bool" where
  "well_behaved bs \<longleftrightarrow> (\<forall>b\<in>set bs. \<forall>s. inv s \<longrightarrow> inv (ob_env b s) \<and> R s (ob_env b s))"

lemma well_behaved_Cons: "well_behaved (b # bs) \<longleftrightarrow>
    (\<forall>s. inv s \<longrightarrow> inv (ob_env b s) \<and> R s (ob_env b s)) \<and> well_behaved bs"
  by (auto simp: well_behaved_def)

lemma WaitFor_guarantee:
  "\<lbrakk>WaitFor d ready bs s = Some (ok, s', bs'); well_behaved bs; inv s\<rbrakk> \<Longrightarrow> inv s' \<and> R s s'"
proof (induction bs arbitrary: s)
  case (Cons b bs)
  then show ?case
    by (auto simp: well_behaved_Cons intro: R_refl R_trans split: if_splits)
qed (auto intro: R_refl split: if_splits)

lemma Wait_guarantee:
  "\<lbrakk>Wait ready bs s = Some (ok, s', bs'); well_behaved bs; inv s\<rbrakk> \<Longrightarrow> inv s' \<and> R s s'"
proof (induction bs arbitrary: s)
  case (Cons b bs)
  then show ?case
    by (auto simp: well_behaved_Cons intro: R_refl R_trans split: if_splits)
qed (auto intro: R_refl split: if_splits)

end

section \<open>Sleeping (\<open>session.cc\<close>)\<close>

datatype sleep_end = Slept | Cut | StopWorker

text \<open>
  \<open>stop i\<close> is what \<open>Stopping()\<close> returns in iteration \<open>i\<close>, \<open>throws\<close> is
  \<open>t_worker && !OnGuestThread()\<close>. The result lists the slices handed to the host sleep.
\<close>

function SleepForMicroseconds :: "(nat \<Rightarrow> bool) \<Rightarrow> bool \<Rightarrow> nat \<Rightarrow> u64 \<Rightarrow> u64 list \<times> sleep_end" where
  "SleepForMicroseconds stop throws i microseconds =
     (if microseconds = 0 then ([], Slept)
      else if stop i then ([], if throws then StopWorker else Cut)
      else let slice = min microseconds 20000;
               (slices, e) = SleepForMicroseconds stop throws (i + 1) (microseconds - slice)
           in (slice # slices, e))"
  by pat_completeness auto
termination
proof (relation "measure (\<lambda>(stop, throws, i, us). unat us)", simp, goal_cases)
  case (1 stop throws i us slice)
  then have "slice \<le> us" "0 < unat slice" by (auto simp: min_def unat_gt_0)
  moreover have "unat slice \<le> unat us" using \<open>slice \<le> us\<close> by (simp add: word_le_nat_alt)
  ultimately show ?case by (simp add: unat_diff_le)
qed

declare SleepForMicroseconds.simps [simp del]

definition SleepForMilliseconds :: "(nat \<Rightarrow> bool) \<Rightarrow> bool \<Rightarrow> u64 \<Rightarrow> u64 list \<times> sleep_end" where
  "SleepForMilliseconds stop throws milliseconds =
     SleepForMicroseconds stop throws 0 (milliseconds * 1000)"

lemma sleep_slices: "SleepForMicroseconds stop throws i us = (l, e) \<Longrightarrow>
    (\<forall>x\<in>set l. 0 < x \<and> x \<le> 20000) \<and>
    (if e = Slept then sum_list (map unat l) = unat us else sum_list (map unat l) < unat us)"
proof (induction stop throws i us arbitrary: l rule: SleepForMicroseconds.induct)
  case (1 stop throws i us)
  show ?case
  proof (cases "us = 0 \<or> stop i")
    case True
    then show ?thesis
      using "1.prems" by (subst (asm) SleepForMicroseconds.simps) (auto simp: unat_gt_0 split: if_splits)
  next
    case False
    let ?slice = "min us 20000 :: u64"
    obtain l' where l': "SleepForMicroseconds stop throws (i + 1) (us - ?slice) = (l', e)"
        "l = ?slice # l'"
      using "1.prems" False
      by (subst (asm) SleepForMicroseconds.simps) (auto simp: Let_def split: prod.splits)
    have le: "?slice \<le> us" by (rule min.cobounded1)
    then have "unat (us - ?slice) = unat us - unat ?slice" "unat ?slice \<le> unat us"
      by (simp_all add: unat_diff_le word_le_nat_alt)
    moreover have "0 < ?slice \<and> ?slice \<le> 20000"
      using False by (auto simp: min_def word_gt_0)
    ultimately show ?thesis
      using "1.IH"[OF _ _ refl l'(1)] False l'(2) by (auto split: if_splits)
  qed
qed

lemma sleep_no_stop:
  assumes "\<And>j. \<not> stop j"
  shows "snd (SleepForMicroseconds stop throws i us) = Slept"
proof -
  have "\<forall>j. \<not> stop j \<Longrightarrow> snd (SleepForMicroseconds stop throws i us) = Slept"
  proof (induction stop throws i us rule: SleepForMicroseconds.induct)
    case (1 stop throws i us)
    then have "us \<noteq> 0 \<Longrightarrow>
        snd (SleepForMicroseconds stop throws (i + 1) (us - min us 20000)) = Slept"
      by blast
    then show ?case
      using "1.prems" by (subst SleepForMicroseconds.simps) (simp add: case_prod_beta Let_def)
  qed
  with assms show ?thesis by blast
qed

section \<open>The session (\<open>session.cc\<close>)\<close>

record session =
  se_stopping :: bool
  se_paused :: bool
  se_live :: u64
  se_threads :: "nat list"
  se_resets :: "nat list"

definition BeginSession :: "session \<Rightarrow> session" where
  "BeginSession s = s\<lparr>se_stopping := False, se_paused := False\<rparr>"

definition RequestStop :: "session \<Rightarrow> session" where
  "RequestStop s = s\<lparr>se_stopping := True, se_paused := True\<rparr>"

text \<open>\<open>created\<close> is the handle \<open>pthread_create\<close> fills in, or \<open>None\<close> when it fails.\<close>

definition SpawnThread :: "nat option \<Rightarrow> session \<Rightarrow> bool \<times> session" where
  "SpawnThread created s =
     (let s1 = s\<lparr>se_live := se_live s + 1\<rparr>
      in case created of
           None \<Rightarrow> (False, s1\<lparr>se_live := se_live s1 - 1\<rparr>)
         | Some handle \<Rightarrow> (True, s1\<lparr>se_threads := se_threads s1 @ [handle]\<rparr>))"

text \<open>The end of \<open>Run\<close>, when the worker's function returned or threw \<open>StopWorker\<close>.\<close>

definition Run_exit :: "session \<Rightarrow> session" where
  "Run_exit s = s\<lparr>se_live := se_live s - 1\<rparr>"

text \<open>
  \<open>JoinThreads\<close>: one round per element of \<open>spawned\<close>, the handles that still running workers
  spawn while the round joins. The result lists the handles in the order they are joined.
\<close>

fun JoinThreads :: "nat list list \<Rightarrow> session \<Rightarrow> (nat list \<times> session) option" where
  "JoinThreads [] s = (if se_threads s = [] then Some ([], s) else None)"
| "JoinThreads (sp # rest) s =
     (if se_threads s = [] then Some ([], s)
      else case JoinThreads rest (s\<lparr>se_threads := sp\<rparr>) of
             None \<Rightarrow> None
           | Some (js, s') \<Rightarrow> Some (se_threads s @ js, s'))"

definition RegisterSessionReset :: "nat \<Rightarrow> session \<Rightarrow> session" where
  "RegisterSessionReset reset s = s\<lparr>se_resets := se_resets s @ [reset]\<rparr>"

definition ResetSessionResources :: "(nat \<Rightarrow> 'g \<Rightarrow> 'g) \<Rightarrow> session \<Rightarrow> 'g \<Rightarrow> 'g" where
  "ResetSessionResources callbacks s g = fold callbacks (se_resets s) g"

lemma JoinThreads_all: "JoinThreads spawned s = Some (js, s') \<Longrightarrow>
    se_threads s' = [] \<and> (\<exists>n. js = se_threads s @ concat (take n spawned))"
proof (induction spawned arbitrary: s js)
  case Nil
  then show ?case by (auto split: if_splits)
next
  case (Cons sp rest)
  show ?case
  proof (cases "se_threads s = []")
    case True
    then have "js = [] \<and> s' = s" using Cons.prems by simp
    with True show ?thesis by (auto intro: exI[of _ 0])
  next
    case False
    then obtain js' where j: "JoinThreads rest (s\<lparr>se_threads := sp\<rparr>) = Some (js', s')"
        "js = se_threads s @ js'"
      using Cons.prems by (auto split: option.splits)
    from Cons.IH[OF j(1)] obtain n where "se_threads s' = []" "js' = sp @ concat (take n rest)"
      by auto
    then show ?thesis using j(2) by (auto intro: exI[of _ "Suc n"])
  qed
qed

lemma JoinThreads_returns: "[] \<in> set spawned \<Longrightarrow> \<exists>r. JoinThreads spawned s = Some r"
proof (induction spawned arbitrary: s)
  case (Cons sp rest)
  show ?case
  proof (cases "sp = []")
    case True
    then have "JoinThreads rest (s\<lparr>se_threads := sp\<rparr>) = Some ([], s\<lparr>se_threads := sp\<rparr>)"
      by (cases rest) simp_all
    then show ?thesis by simp
  next
    case False
    with Cons.prems have "[] \<in> set rest" by auto
    from Cons.IH[OF this, of "s\<lparr>se_threads := sp\<rparr>"] show ?thesis by (auto split: option.splits)
  qed
qed simp

section \<open>Guest code ranges (\<open>pause.cc\<close>)\<close>

definition RegisterCode :: "u64 \<Rightarrow> u64 \<Rightarrow> (u64 \<times> u64) list \<Rightarrow> (u64 \<times> u64) list" where
  "RegisterCode address sz code =
     (if address = 0 \<or> sz = 0 then code
      else if length code < 4096 then code @ [(address, address + sz)]
      else code)"

definition in_code :: "u64 \<Rightarrow> (u64 \<times> u64) list \<Rightarrow> bool" where
  "in_code pc code \<longleftrightarrow> list_ex (\<lambda>(b, e). b \<le> pc \<and> pc < e) code"

text \<open>Whether the signal handler parks the thread it interrupts.\<close>

definition PauseSignal :: "bool \<Rightarrow> bool \<Rightarrow> (u64 \<Rightarrow> bool) option \<Rightarrow> u64 \<Rightarrow> (u64 \<times> u64) list \<Rightarrow> bool" where
  "PauseSignal guest paused is_guest_pc pc code =
     (if \<not> guest \<or> \<not> paused then False
      else if (case is_guest_pc of None \<Rightarrow> False | Some f \<Rightarrow> f pc) then True
      else in_code pc code)"

section \<open>The pause gate (\<open>pause.cc\<close>)\<close>

text \<open>
  \<open>gpc\<close>: where the guest thread is in \<open>PausePoint\<close>. \<open>cpc\<close>: where the controlling thread is,
  in \<open>RequestStop\<close>, \<open>BeginSession\<close> (both store the stop flag and then call \<open>SetPaused\<close>) or
  between the store and the futex wake of \<open>SetPaused\<close>.
\<close>

datatype gpc = Guest | Test_paused | Test_stopping | Futex_wait | Futex_asleep | Leaving | Exited
datatype cpc = Idle | Store bool | Wake bool

record gate =
  g_paused :: "32 word"
  g_stop :: bool
  g_parked :: bool
  g_pc :: gpc
  g_ctl :: cpc

inductive gate_step :: "gate \<Rightarrow> gate \<Rightarrow> bool" where
  gate_enter: "\<lbrakk>g_pc s = Guest; g_paused s \<noteq> 0\<rbrakk> \<Longrightarrow>
    gate_step s (s\<lparr>g_parked := True, g_pc := Test_paused\<rparr>)"
| gate_paused: "\<lbrakk>g_pc s = Test_paused; g_paused s \<noteq> 0\<rbrakk> \<Longrightarrow>
    gate_step s (s\<lparr>g_pc := Test_stopping\<rparr>)"
| gate_resumed: "\<lbrakk>g_pc s = Test_paused; g_paused s = 0\<rbrakk> \<Longrightarrow>
    gate_step s (s\<lparr>g_pc := Leaving\<rparr>)"
| gate_running: "\<lbrakk>g_pc s = Test_stopping; \<not> g_stop s\<rbrakk> \<Longrightarrow>
    gate_step s (s\<lparr>g_pc := Futex_wait\<rparr>)"
| gate_stopping: "\<lbrakk>g_pc s = Test_stopping; g_stop s\<rbrakk> \<Longrightarrow>
    gate_step s (s\<lparr>g_pc := Leaving\<rparr>)"
| gate_sleep: "\<lbrakk>g_pc s = Futex_wait; g_paused s = 1\<rbrakk> \<Longrightarrow>
    gate_step s (s\<lparr>g_pc := Futex_asleep\<rparr>)"
| gate_retry: "\<lbrakk>g_pc s = Futex_wait; g_paused s \<noteq> 1\<rbrakk> \<Longrightarrow>
    gate_step s (s\<lparr>g_pc := Test_paused\<rparr>)"
| gate_spurious: "g_pc s = Futex_asleep \<Longrightarrow>
    gate_step s (s\<lparr>g_pc := Test_paused\<rparr>)"
| gate_leave: "\<lbrakk>g_pc s = Leaving; \<not> g_stop s\<rbrakk> \<Longrightarrow>
    gate_step s (s\<lparr>g_parked := False, g_pc := Guest\<rparr>)"
| gate_exit: "\<lbrakk>g_pc s = Leaving; g_stop s\<rbrakk> \<Longrightarrow>
    gate_step s (s\<lparr>g_parked := False, g_pc := Exited\<rparr>)"
| ctl_pause: "g_ctl s = Idle \<Longrightarrow>
    gate_step s (s\<lparr>g_ctl := Store b\<rparr>)"
| ctl_stop: "g_ctl s = Idle \<Longrightarrow>
    gate_step s (s\<lparr>g_stop := True, g_ctl := Store True\<rparr>)"
| ctl_begin: "g_ctl s = Idle \<Longrightarrow>
    gate_step s (s\<lparr>g_stop := False, g_ctl := Store False\<rparr>)"
| ctl_store: "g_ctl s = Store b \<Longrightarrow>
    gate_step s (s\<lparr>g_paused := (if b then 1 else 0), g_ctl := Wake b\<rparr>)"
| ctl_wake: "g_ctl s = Wake b \<Longrightarrow>
    gate_step s (s\<lparr>g_pc := (if g_pc s = Futex_asleep then Test_paused else g_pc s),
                   g_ctl := Idle\<rparr>)"

inductive_cases gate_stepE: "gate_step s t"

inductive gate_reach :: "gate \<Rightarrow> gate \<Rightarrow> bool" where
  gate_refl: "gate_reach s s"
| gate_trans: "\<lbrakk>gate_reach s t; gate_step t u\<rbrakk> \<Longrightarrow> gate_reach s u"

text \<open>The state before the session: not paused, not stopping, the thread in guest code.\<close>

definition gate_init :: gate where
  "gate_init = \<lparr>g_paused = 0, g_stop = False, g_parked = False, g_pc = Guest, g_ctl = Idle\<rparr>"

definition gate_inv :: "gate \<Rightarrow> bool" where
  "gate_inv s \<longleftrightarrow>
     g_paused s \<in> {0, 1} \<and>
     (g_parked s \<longleftrightarrow> g_pc s \<noteq> Guest \<and> g_pc s \<noteq> Exited) \<and>
     (g_pc s \<noteq> Futex_asleep \<or> g_paused s = 1 \<or> g_ctl s = Wake False) \<and>
     (g_ctl s \<noteq> Wake True \<or> g_paused s = 1)"

lemma gate_inv_step: "\<lbrakk>gate_step s t; gate_inv s\<rbrakk> \<Longrightarrow> gate_inv t"
  by (induction rule: gate_step.induct) (auto simp: gate_inv_def split: if_splits)

lemma gate_inv_reach: "gate_reach s t \<Longrightarrow> gate_inv s \<Longrightarrow> gate_inv t"
  by (induction rule: gate_reach.induct) (auto intro: gate_inv_step)

lemma gate_inv_init: "gate_inv gate_init"
  by (simp add: gate_inv_def gate_init_def)

section \<open>Properties\<close>

text \<open>
  C32: A resume is never lost. In every state the gate can reach from the start of a session, a
  thread asleep in the futex of \<open>PausePoint\<close> is either still paused or about to be woken by the
  \<open>SetPaused(false)\<close> that stored the flag; and a thread counts as parked exactly while it is
  inside the gate, so \<open>PollPause\<close> signals it exactly when it is not.
\<close>

theorem gate_no_lost_resume:
  assumes "gate_reach gate_init s"
  shows "(g_pc s = Futex_asleep \<longrightarrow> g_paused s = 1 \<or> g_ctl s = Wake False) \<and>
    (g_parked s \<longleftrightarrow> g_pc s \<notin> {Guest, Exited})"
  using gate_inv_reach[OF assms gate_inv_init] by (auto simp: gate_inv_def)

definition gate_asleep :: gate where
  "gate_asleep = \<lparr>g_paused = 1, g_stop = False, g_parked = True, g_pc = Futex_asleep, g_ctl = Idle\<rparr>"

lemma gate_step_eq: "\<lbrakk>gate_step s t'; t' = t\<rbrakk> \<Longrightarrow> gate_step s t"
  by simp

text \<open>The run that pauses a session: the controller stores and wakes, the thread then parks.\<close>

lemma gate_reach_check: "gate_reach gate_init
    \<lparr>g_paused = 1, g_stop = False, g_parked = True, g_pc = Futex_wait, g_ctl = Idle\<rparr>"
proof -
  let ?g = "\<lambda>p pk pc c. \<lparr>g_paused = p, g_stop = False, g_parked = pk, g_pc = pc, g_ctl = c\<rparr>"
  have "gate_reach gate_init (?g 0 False Guest (Store True))"
    by (rule gate_trans[OF gate_refl]) (rule gate_step_eq[OF ctl_pause], simp_all add: gate_init_def)
  then have "gate_reach gate_init (?g 1 False Guest (Wake True))"
    by (rule gate_trans) (rule gate_step_eq[OF ctl_store], simp_all)
  then have "gate_reach gate_init (?g 1 False Guest Idle)"
    by (rule gate_trans) (rule gate_step_eq[OF ctl_wake], simp_all)
  then have "gate_reach gate_init (?g 1 True Test_paused Idle)"
    by (rule gate_trans) (rule gate_step_eq[OF gate_enter], simp_all)
  then have "gate_reach gate_init (?g 1 True Test_stopping Idle)"
    by (rule gate_trans) (rule gate_step_eq[OF gate_paused], simp_all)
  then show ?thesis
    by (rule gate_trans) (rule gate_step_eq[OF gate_running], simp_all)
qed

lemma gate_reach_asleep: "gate_reach gate_init gate_asleep"
  by (rule gate_trans[OF gate_reach_check])
    (rule gate_step_eq[OF gate_sleep], simp_all add: gate_asleep_def)

theorem gate_no_lost_resume_witness:
  "gate_reach gate_init gate_asleep \<and> g_pc gate_asleep = Futex_asleep \<and> g_paused gate_asleep = 1"
  using gate_no_lost_resume[OF gate_reach_asleep] gate_reach_asleep
  by (simp add: gate_asleep_def)

text \<open>
  A stop can be lost. The gate tests \<open>Stopping()\<close> and then sleeps on \<open>g_paused\<close>, whose value
  \<open>RequestStop\<close> does not change when the session is already paused. When the whole of
  \<open>RequestStop\<close> runs between the test and the sleep, the gate reaches a state in which the
  session is stopping, no wake is pending, and the guest thread sleeps parked, so that
  \<open>PollPause\<close> does not signal it either.
\<close>

theorem gate_stop_lost:
  "\<exists>s. gate_reach gate_init s \<and> g_stop s \<and> g_ctl s = Idle \<and> g_pc s = Futex_asleep \<and> g_parked s"
proof -
  let ?g = "\<lambda>pc c. \<lparr>g_paused = 1, g_stop = True, g_parked = True, g_pc = pc, g_ctl = c\<rparr>"
  have "gate_reach gate_init (?g Futex_wait (Store True))"
    by (rule gate_trans[OF gate_reach_check]) (rule gate_step_eq[OF ctl_stop], simp_all)
  then have "gate_reach gate_init (?g Futex_wait (Wake True))"
    by (rule gate_trans) (rule gate_step_eq[OF ctl_store], simp_all)
  then have "gate_reach gate_init (?g Futex_wait Idle)"
    by (rule gate_trans) (rule gate_step_eq[OF ctl_wake], simp_all)
  then have "gate_reach gate_init (?g Futex_asleep Idle)"
    by (rule gate_trans) (rule gate_step_eq[OF gate_sleep], simp_all)
  then show ?thesis by (intro exI[of _ "?g Futex_asleep Idle"]) simp
qed

text \<open>
  \<open>SleepForMicroseconds\<close> sleeps in slices of at most 20 ms that add up to exactly the time
  asked for when the session does not stop, and to less when it does.
\<close>

theorem sleep_exact:
  "let (slices, e) = SleepForMicroseconds stop throws 0 us in
     list_all (\<lambda>x. 0 < x \<and> x \<le> 20000) slices \<and>
     (e = Slept \<longleftrightarrow> sum_list (map unat slices) = unat us) \<and>
     (e = Slept \<or> (\<exists>j. stop j))"
proof -
  obtain l e where r: "SleepForMicroseconds stop throws 0 us = (l, e)" by fastforce
  show ?thesis
    using sleep_slices[OF r] sleep_no_stop[of stop throws 0 us] r
    by (auto simp: list_all_iff split: if_splits)
qed

text \<open>
  When \<open>JoinThreads\<close> returns the thread list is empty, and it has joined every thread that
  was in the list and every thread spawned during its rounds, each once and in order; it
  returns as soon as one round sees no new thread.
\<close>

theorem join_threads_complete:
  "(\<forall>js s'. JoinThreads spawned s = Some (js, s') \<longrightarrow>
      se_threads s' = [] \<and> (\<exists>n. js = se_threads s @ concat (take n spawned))) \<and>
   ([] \<in> set spawned \<longrightarrow> JoinThreads spawned s \<noteq> None)"
  using JoinThreads_all[of spawned s] JoinThreads_returns[of spawned s] by auto

theorem join_threads_complete_witness:
  "let s = \<lparr>se_stopping = True, se_paused = True, se_live = 2, se_threads = [7, 8], se_resets = []\<rparr>
   in JoinThreads [[9], []] s = Some ([7, 8, 9], s\<lparr>se_threads := []\<rparr>) \<and>
      JoinThreads [[9], []] s \<noteq> None"
  using join_threads_complete[of "[[9], []]"
      "\<lparr>se_stopping = True, se_paused = True, se_live = 2, se_threads = [7, 8], se_resets = []\<rparr>"]
  by simp

end
