(* ===== verification/Event_Flag.thy ===== *)
theory Event_Flag
  imports Session
begin

text \<open>
  The event flag of \<open>delta/kern/lv2/sys_event_flag.{h,cc}\<close>: the class \<open>EventFlag\<close>. The
  syscalls on handles are in the theory of the kernel calls.

  A \<open>Waiter\<close> is a stack object of the waiting call and exists exactly while \<open>waiters_\<close> points
  to it, so \<open>waiters_\<close> is a list of addresses with the objects they point to. Each critical
  section of a call is one function on the flag; \<open>EventFlag_Wait\<close> is the whole blocking call,
  run against a schedule of what the other threads do while it sleeps. The wait is generic in
  the state the flag is part of: \<open>rd\<close> reads the flag there and \<open>wr\<close> stores it.
\<close>

section \<open>Data\<close>

definition kEvfAnd :: u32 where "kEvfAnd = 0x01"
definition kEvfOr :: u32 where "kEvfOr = 0x02"
definition kEvfClearAll :: u32 where "kEvfClearAll = 0x10"
definition kEvfClearPat :: u32 where "kEvfClearPat = 0x20"
definition kEvfShared :: u32 where "kEvfShared = 0x100"

record waiter =
  w_pattern :: u64
  w_mode :: u32
  w_result :: u64
  w_done :: bool
  w_cancelled :: bool

record evf =
  ef_name :: string
  ef_bits :: u64
  ef_sticky :: u64
  ef_waiters :: "(nat \<times> waiter) list"
  ef_last_set_tid :: int

definition EventFlag_new :: "string option \<Rightarrow> u64 \<Rightarrow> u64 \<Rightarrow> evf" where
  "EventFlag_new nm init sticky =
     \<lparr>ef_name = (case nm of None \<Rightarrow> [] | Some n \<Rightarrow> n), ef_bits = init, ef_sticky = sticky,
      ef_waiters = [], ef_last_set_tid = 0\<rparr>"

section \<open>Critical sections\<close>

definition bits_match :: "u64 \<Rightarrow> u64 \<Rightarrow> u32 \<Rightarrow> bool" where
  "bits_match bits pattern mode \<longleftrightarrow>
     (if mode AND kEvfOr \<noteq> 0 then bits AND pattern \<noteq> 0 else bits AND pattern = pattern)"

definition Satisfied :: "u64 \<Rightarrow> u32 \<Rightarrow> evf \<Rightarrow> bool" where
  "Satisfied pattern mode f = bits_match (ef_bits f) pattern mode"

text \<open>\<open>Take\<close> stores the bits it found in \<open>*result\<close>, the first component.\<close>

definition Take :: "u64 \<Rightarrow> u32 \<Rightarrow> evf \<Rightarrow> u64 \<times> evf" where
  "Take pattern mode f =
     (let bits' = (if mode AND kEvfClearAll \<noteq> 0 then 0
                   else if mode AND kEvfClearPat \<noteq> 0 then ef_bits f AND NOT pattern
                   else ef_bits f)
      in (ef_bits f, f\<lparr>ef_bits := bits' OR ef_sticky f\<rparr>))"

fun remove_waiter :: "nat \<Rightarrow> (nat \<times> waiter) list \<Rightarrow> (nat \<times> waiter) list" where
  "remove_waiter w [] = []"
| "remove_waiter w (x # xs) = (if fst x = w then xs else x # remove_waiter w xs)"

definition RemoveWaiter :: "nat \<Rightarrow> evf \<Rightarrow> evf" where
  "RemoveWaiter w f = f\<lparr>ef_waiters := remove_waiter w (ef_waiters f)\<rparr>"

definition Trywait :: "u64 \<Rightarrow> u32 \<Rightarrow> evf \<Rightarrow> int \<times> u64 option \<times> evf" where
  "Trywait pattern mode f =
     (if \<not> Satisfied pattern mode f then (neg_err eBUSY, None, f)
      else let (r, f') = Take pattern mode f in (0, Some r, f'))"

text \<open>
  The loop of \<open>Set\<close> over \<open>waiters_\<close>; the waiters it has passed are collected in order. Only
  \<open>bits_\<close> changes besides the waiters, so the loop threads the flag without them.
\<close>

fun set_loop :: "(nat \<times> waiter) list \<Rightarrow> evf \<Rightarrow> (nat \<times> waiter) list \<times> evf" where
  "set_loop [] f = ([], f)"
| "set_loop ((a, w) # ws) f =
     (if w_done w \<or> \<not> Satisfied (w_pattern w) (w_mode w) f
      then let (ws', f') = set_loop ws f in ((a, w) # ws', f')
      else let (r, f1) = Take (w_pattern w) (w_mode w) f;
               (ws', f') = set_loop ws f1
           in ((a, w\<lparr>w_result := r, w_done := True\<rparr>) # ws', f'))"

definition EventFlag_Set :: "int \<Rightarrow> u64 \<Rightarrow> evf \<Rightarrow> evf" where
  "EventFlag_Set tid b f =
     (let f1 = f\<lparr>ef_bits := ef_bits f OR b, ef_last_set_tid := tid\<rparr>;
          (ws, f2) = set_loop (ef_waiters f1) f1
      in f2\<lparr>ef_waiters := ws\<rparr>)"

definition EventFlag_Clear :: "u64 \<Rightarrow> evf \<Rightarrow> evf" where
  "EventFlag_Clear b f = f\<lparr>ef_bits := ef_bits f AND b\<rparr>"

fun cancel_loop :: "u64 \<Rightarrow> (nat \<times> waiter) list \<Rightarrow> int \<times> (nat \<times> waiter) list" where
  "cancel_loop pattern [] = (0, [])"
| "cancel_loop pattern ((a, w) # ws) =
     (let (n, ws') = cancel_loop pattern ws
      in if w_done w then (n, (a, w) # ws')
         else (n + 1, (a, w\<lparr>w_result := pattern, w_cancelled := True, w_done := True\<rparr>) # ws'))"

definition EventFlag_Cancel :: "u64 \<Rightarrow> evf \<Rightarrow> int \<times> evf" where
  "EventFlag_Cancel pattern f =
     (let (n, ws) = cancel_loop pattern (ef_waiters f) in (n, f\<lparr>ef_waiters := ws\<rparr>))"

section \<open>The blocking wait\<close>

text \<open>What the caller of \<open>Wait\<close> sees: the status, \<open>*result\<close> if written, \<open>*timeout_us\<close> if given.\<close>

record wait_out =
  wo_ret :: int
  wo_result :: "u64 option"
  wo_timeout :: "u32 option"

text \<open>The clock readings of a timed wait: at its start, at the start of \<open>WaitFor\<close>, at its end.\<close>

record wait_clock =
  wc_start :: int
  wc_wait :: int
  wc_end :: int

definition new_waiter :: "u64 \<Rightarrow> u32 \<Rightarrow> waiter" where
  "new_waiter pattern mode = \<lparr>w_pattern = pattern, w_mode = mode, w_result = 0, w_done = False,
     w_cancelled = False\<rparr>"

definition push_waiter :: "nat \<Rightarrow> u64 \<Rightarrow> u32 \<Rightarrow> evf \<Rightarrow> evf" where
  "push_waiter w pattern mode f =
     f\<lparr>ef_waiters := ef_waiters f @ [(w, new_waiter pattern mode)]\<rparr>"

definition waiter_done :: "nat \<Rightarrow> evf \<Rightarrow> bool" where
  "waiter_done w f \<longleftrightarrow> (case map_of (ef_waiters f) w of None \<Rightarrow> False | Some r \<Rightarrow> w_done r)"

definition remaining_us :: "u32 \<Rightarrow> wait_clock \<Rightarrow> u32" where
  "remaining_us timeout clk =
     (let elapsed = wc_end clk - wc_start clk
      in if elapsed < uint timeout then word_of_int (uint timeout - elapsed) else 0)"

text \<open>The end of the call, after the condition-variable wait came back.\<close>

definition wait_leave :: "nat \<Rightarrow> u32 option \<Rightarrow> evf \<Rightarrow> (wait_out \<times> evf) option" where
  "wait_leave w timeout f =
     (case map_of (ef_waiters f) w of None \<Rightarrow> None
      | Some r \<Rightarrow>
          Some (if w_cancelled r
                then \<lparr>wo_ret = neg_err eCANCELED, wo_result = None, wo_timeout = timeout\<rparr>
                else \<lparr>wo_ret = 0, wo_result = Some (w_result r), wo_timeout = timeout\<rparr>,
                RemoveWaiter w f))"

definition opt_holds :: "('a \<Rightarrow> bool) \<Rightarrow> 'a option \<Rightarrow> bool" where
  "opt_holds P x = (case x of None \<Rightarrow> False | Some y \<Rightarrow> P y)"

definition EventFlag_Wait ::
  "('s \<Rightarrow> evf option) \<Rightarrow> (evf \<Rightarrow> 's \<Rightarrow> 's) \<Rightarrow> nat \<Rightarrow> u64 \<Rightarrow> u32 \<Rightarrow> u32 option \<Rightarrow> wait_clock
     \<Rightarrow> 's obs list \<Rightarrow> 's \<Rightarrow> (wait_out \<times> 's \<times> 's obs list) option" where
  "EventFlag_Wait rd wr w pattern mode timeout_us clk bs s =
     (case rd s of None \<Rightarrow> None
      | Some f \<Rightarrow>
          if Satisfied pattern mode f
          then let (r, f') = Take pattern mode f
               in Some (\<lparr>wo_ret = 0, wo_result = Some r, wo_timeout = timeout_us\<rparr>, wr f' s, bs)
          else
            let s1 = wr (push_waiter w pattern mode f) s;
                ready = (\<lambda>t. opt_holds (waiter_done w) (rd t))
            in case timeout_us of
                 Some to \<Rightarrow>
                   (case WaitFor (wc_wait clk + uint to) ready bs s1 of
                      None \<Rightarrow> None
                    | Some (ok, s2, bs') \<Rightarrow>
                        (case rd s2 of None \<Rightarrow> None
                         | Some f2 \<Rightarrow>
                             if \<not> ok
                             then Some (\<lparr>wo_ret = neg_err eTIMEDOUT, wo_result = None,
                                         wo_timeout = Some 0\<rparr>, wr (RemoveWaiter w f2) s2, bs')
                             else (case wait_leave w (Some (remaining_us to clk)) f2 of
                                     None \<Rightarrow> None
                                   | Some (out, f3) \<Rightarrow> Some (out, wr f3 s2, bs'))))
               | None \<Rightarrow>
                   (case Wait ready bs s1 of
                      None \<Rightarrow> None
                    | Some (_, s2, bs') \<Rightarrow>
                        (case rd s2 of None \<Rightarrow> None
                         | Some f2 \<Rightarrow>
                             (case wait_leave w None f2 of
                                None \<Rightarrow> None
                              | Some (out, f3) \<Rightarrow> Some (out, wr f3 s2, bs')))))"

section \<open>The flag as a monitor\<close>

lemma bits_match_mono:
  assumes "bits_match a p m" and "a AND b = a"
  shows "bits_match b p m"
proof (cases "m AND kEvfOr = 0")
  case True
  then have "a AND p = p" using assms(1) by (simp add: bits_match_def)
  then have "b AND p = p" using assms(2) by (auto simp: bit_eq_iff bit_simps)
  with True show ?thesis by (simp add: bits_match_def)
next
  case False
  then have "a AND p \<noteq> 0" using assms(1) by (simp add: bits_match_def)
  then have "b AND p \<noteq> 0" using assms(2) by (auto simp: bit_eq_iff bit_simps)
  with False show ?thesis by (simp add: bits_match_def)
qed

lemma Take_fields [simp]:
  "fst (Take p m f) = ef_bits f"
  "ef_sticky (snd (Take p m f)) = ef_sticky f"
  "ef_waiters (snd (Take p m f)) = ef_waiters f"
  "ef_name (snd (Take p m f)) = ef_name f"
  by (simp_all add: Take_def)

lemma Take_le: "ef_sticky f = 0 \<Longrightarrow> ef_bits (snd (Take p m f)) AND ef_bits f = ef_bits (snd (Take p m f))"
  by (auto simp: Take_def bit_eq_iff bit_simps)

lemma bits_le_trans: "\<lbrakk>(a::u64) AND b = a; b AND c = b\<rbrakk> \<Longrightarrow> a AND c = a"
  by (auto simp: bit_eq_iff bit_simps)

text \<open>How a waiter may be changed by another thread: not at all once it is done.\<close>

definition commits :: "waiter \<Rightarrow> waiter \<Rightarrow> bool" where
  "commits r r' \<longleftrightarrow> w_pattern r' = w_pattern r \<and> w_mode r' = w_mode r \<and>
     (r' = r \<or> \<not> w_done r \<and> w_done r')"

definition waiter_ok :: "waiter \<Rightarrow> bool" where
  "waiter_ok r \<longleftrightarrow> (w_cancelled r \<longrightarrow> w_done r) \<and>
     (w_done r \<and> \<not> w_cancelled r \<longrightarrow> bits_match (w_result r) (w_pattern r) (w_mode r))"

lemma commits_refl [simp]: "commits r r"
  by (simp add: commits_def)

lemma commits_trans: "\<lbrakk>commits r s; commits s t\<rbrakk> \<Longrightarrow> commits r t"
  by (auto simp: commits_def)

lemma set_loop_ConsE:
  assumes "set_loop ((a, w) # ws) f = (ws', f')"
  obtains (skip) ws1 where "w_done w \<or> \<not> Satisfied (w_pattern w) (w_mode w) f"
      "set_loop ws f = (ws1, f')" "ws' = (a, w) # ws1"
    | (commit) ws1 where "\<not> w_done w" "Satisfied (w_pattern w) (w_mode w) f"
      "set_loop ws (snd (Take (w_pattern w) (w_mode w) f)) = (ws1, f')"
      "ws' = (a, w\<lparr>w_result := ef_bits f, w_done := True\<rparr>) # ws1"
proof (cases "w_done w \<or> \<not> Satisfied (w_pattern w) (w_mode w) f")
  case True
  then show ?thesis using assms by (intro skip[of "fst (set_loop ws f)"]) (auto simp: case_prod_beta)
next
  case False
  let ?l = "set_loop ws (snd (Take (w_pattern w) (w_mode w) f))"
  show ?thesis
    using assms False by (intro commit[of "fst ?l"]) (auto simp: case_prod_beta Let_def)
qed

lemma set_loop_fields: "set_loop ws f = (ws', f') \<Longrightarrow>
    map fst ws' = map fst ws \<and> ef_sticky f' = ef_sticky f \<and> ef_waiters f' = ef_waiters f \<and>
    ef_name f' = ef_name f"
proof (induction ws arbitrary: f ws')
  case (Cons x ws)
  obtain a w where "x = (a, w)" by fastforce
  with Cons.prems have "set_loop ((a, w) # ws) f = (ws', f')" by simp
  then show ?case
    by (cases rule: set_loop_ConsE) (use Cons.IH \<open>x = (a, w)\<close> in auto)
qed simp

definition may_commit :: "nat \<times> waiter \<Rightarrow> nat \<times> waiter \<Rightarrow> bool" where
  "may_commit x y \<longleftrightarrow> fst y = fst x \<and> commits (snd x) (snd y) \<and>
     (waiter_ok (snd x) \<longrightarrow> waiter_ok (snd y))"

lemma set_loop_commits: "set_loop ws f = (ws', f') \<Longrightarrow> list_all2 may_commit ws ws'"
proof (induction ws arbitrary: f ws')
  case (Cons x ws)
  obtain a w where x: "x = (a, w)" by fastforce
  with Cons.prems have "set_loop ((a, w) # ws) f = (ws', f')" by simp
  then show ?case
  proof (cases rule: set_loop_ConsE)
    case (skip ws1)
    then show ?thesis using Cons.IH x by (simp add: may_commit_def)
  next
    case (commit ws1)
    then have "may_commit (a, w) (a, w\<lparr>w_result := ef_bits f, w_done := True\<rparr>)"
      by (simp add: may_commit_def commits_def waiter_ok_def Satisfied_def)
    with commit show ?thesis using Cons.IH x by simp
  qed
qed simp

lemma set_loop_le: "\<lbrakk>set_loop ws f = (ws', f'); ef_sticky f = 0\<rbrakk> \<Longrightarrow>
    ef_bits f' AND ef_bits f = ef_bits f'"
proof (induction ws arbitrary: f ws')
  case (Cons x ws)
  obtain a w where "x = (a, w)" by fastforce
  with Cons.prems have "set_loop ((a, w) # ws) f = (ws', f')" by simp
  then show ?case
  proof (cases rule: set_loop_ConsE)
    case (skip ws1)
    then show ?thesis using Cons by blast
  next
    case (commit ws1)
    then show ?thesis using Cons.IH[OF commit(3)] Cons.prems(2) Take_le bits_le_trans by simp
  qed
qed simp

lemma set_loop_undone: "\<lbrakk>set_loop ws f = (ws', f'); ef_sticky f = 0; (a, r) \<in> set ws'; \<not> w_done r\<rbrakk> \<Longrightarrow>
    \<not> Satisfied (w_pattern r) (w_mode r) f'"
proof (induction ws arbitrary: f ws')
  case (Cons x ws)
  obtain b w where "x = (b, w)" by fastforce
  with Cons.prems have "set_loop ((b, w) # ws) f = (ws', f')" by simp
  then show ?case
  proof (cases rule: set_loop_ConsE)
    case (skip ws1)
    show ?thesis
    proof (cases "(a, r) \<in> set ws1")
      case False
      with skip(3) Cons.prems(3) have "r = w" by simp
      then have "\<not> bits_match (ef_bits f) (w_pattern r) (w_mode r)"
        using skip(1) Cons.prems(4) by (simp add: Satisfied_def)
      then show ?thesis
        using bits_match_mono set_loop_le[OF skip(2) Cons.prems(2)] by (auto simp: Satisfied_def)
    qed (use Cons.IH[OF skip(2)] Cons.prems in blast)
  next
    case (commit ws1)
    then have "(a, r) \<in> set ws1" using Cons.prems by auto
    then show ?thesis using Cons.IH[OF commit(3)] Cons.prems by simp
  qed
qed simp

lemma cancel_loop_spec: "cancel_loop p ws = (n, ws') \<Longrightarrow>
    map fst ws' = map fst ws \<and> (\<forall>x\<in>set ws'. w_done (snd x)) \<and>
    n = int (length (filter (\<lambda>x. \<not> w_done (snd x)) ws)) \<and> list_all2 may_commit ws ws'"
  by (induction p ws arbitrary: n ws' rule: cancel_loop.induct)
    (auto simp: Let_def may_commit_def commits_def waiter_ok_def split: if_splits prod.splits)

text \<open>
  The invariant: waiters are distinct objects, a committed wait holds bits that match its
  pattern, and, for a flag without sticky bits, no queued wait is already satisfied.
\<close>

definition evf_inv :: "evf \<Rightarrow> bool" where
  "evf_inv f \<longleftrightarrow> distinct (map fst (ef_waiters f)) \<and>
     (\<forall>(a, r)\<in>set (ef_waiters f). waiter_ok r) \<and>
     (ef_sticky f = 0 \<longrightarrow>
        (\<forall>(a, r)\<in>set (ef_waiters f). \<not> w_done r \<longrightarrow> \<not> Satisfied (w_pattern r) (w_mode r) f))"

text \<open>What every other thread guarantees to the wait whose \<open>Waiter\<close> is at \<open>w\<close>.\<close>

definition keeps :: "nat \<Rightarrow> evf \<Rightarrow> evf \<Rightarrow> bool" where
  "keeps w f g \<longleftrightarrow> ef_sticky g = ef_sticky f \<and> ef_name g = ef_name f \<and>
     (\<forall>r. map_of (ef_waiters f) w = Some r \<longrightarrow>
        (\<exists>r'. map_of (ef_waiters g) w = Some r' \<and> commits r r'))"

lemma keeps_refl: "keeps w f f"
  by (simp add: keeps_def)

lemma keeps_trans: "\<lbrakk>keeps w f g; keeps w g h\<rbrakk> \<Longrightarrow> keeps w f h"
  unfolding keeps_def by (metis commits_trans)

interpretation evf_mon: monitor evf_inv "keeps w" for w
  by unfold_locales (rule keeps_refl, erule (1) keeps_trans)

text \<open>The critical sections of the threads, each with the address of its own \<open>Waiter\<close>.\<close>

inductive evf_step :: "nat \<Rightarrow> evf \<Rightarrow> evf \<Rightarrow> bool" where
  es_set: "evf_step w f (EventFlag_Set tid b f)"
| es_clear: "evf_step w f (EventFlag_Clear b f)"
| es_cancel: "evf_step w f (snd (EventFlag_Cancel p f))"
| es_try: "evf_step w f (snd (snd (Trywait p m f)))"
| es_enter: "\<lbrakk>w \<notin> fst ` set (ef_waiters f); \<not> Satisfied p m f\<rbrakk> \<Longrightarrow> evf_step w f (push_waiter w p m f)"
| es_leave: "w \<in> fst ` set (ef_waiters f) \<Longrightarrow> evf_step w f (RemoveWaiter w f)"

inductive_simps evf_step_iff: "evf_step w f g"

inductive evf_others :: "nat \<Rightarrow> evf \<Rightarrow> evf \<Rightarrow> bool" where
  eo_refl: "evf_others w f f"
| eo_step: "\<lbrakk>evf_others w f g; w' \<noteq> w; evf_step w' g h\<rbrakk> \<Longrightarrow> evf_others w f h"

lemma remove_waiter_spec:
  "distinct (map fst xs) \<Longrightarrow> map_of (remove_waiter w xs) = (map_of xs)(w := None)"
  "set (remove_waiter w xs) \<subseteq> set xs"
  "distinct (map fst xs) \<Longrightarrow> distinct (map fst (remove_waiter w xs))"
proof -
  show "set (remove_waiter w xs) \<subseteq> set xs" for xs by (induction xs) auto
  then have sub: "fst ` set (remove_waiter w xs) \<subseteq> fst ` set xs" for xs by (rule image_mono)
  show "distinct (map fst xs) \<Longrightarrow> distinct (map fst (remove_waiter w xs))"
    using sub by (induction xs) auto
  show "distinct (map fst xs) \<Longrightarrow> map_of (remove_waiter w xs) = (map_of xs)(w := None)"
    by (induction xs) (auto simp: fun_eq_iff map_of_eq_None_iff)
qed

lemma may_commit_map_of: "list_all2 may_commit xs ys \<Longrightarrow> map_of xs w = Some r \<Longrightarrow>
    \<exists>r'. map_of ys w = Some r' \<and> commits r r'"
  by (induction rule: list_all2_induct) (auto simp: may_commit_def split: if_splits)

lemma may_commit_ok: "list_all2 may_commit xs ys \<Longrightarrow>
    \<forall>(a, r)\<in>set xs. waiter_ok r \<Longrightarrow> \<forall>(a, r)\<in>set ys. waiter_ok r"
  by (induction rule: list_all2_induct) (auto simp: may_commit_def)

lemma may_commit_fst: "list_all2 may_commit xs ys \<Longrightarrow> map fst ys = map fst xs"
  by (induction rule: list_all2_induct) (auto simp: may_commit_def)

lemma evf_inv_Set: "evf_inv f \<Longrightarrow> evf_inv (EventFlag_Set tid b f) \<and> keeps w f (EventFlag_Set tid b f)"
proof -
  assume inv: "evf_inv f"
  let ?f1 = "f\<lparr>ef_bits := ef_bits f OR b, ef_last_set_tid := tid\<rparr>"
  obtain ws f2 where l: "set_loop (ef_waiters ?f1) ?f1 = (ws, f2)" by fastforce
  have eq: "EventFlag_Set tid b f = f2\<lparr>ef_waiters := ws\<rparr>"
    using l by (simp add: EventFlag_Set_def)
  note c = set_loop_commits[OF l] and fld = set_loop_fields[OF l]
  have "evf_inv (f2\<lparr>ef_waiters := ws\<rparr>)"
    using inv fld may_commit_ok[OF c] set_loop_undone[OF l]
    by (auto simp: evf_inv_def Satisfied_def)
  moreover have "keeps w f (f2\<lparr>ef_waiters := ws\<rparr>)"
    using fld may_commit_map_of[OF c] by (auto simp: keeps_def)
  ultimately show ?thesis by (simp add: eq)
qed

lemma evf_inv_fewer_bits:
  assumes inv: "evf_inv f" and le: "ef_sticky f = 0 \<Longrightarrow> b AND ef_bits f = b"
  shows "evf_inv (f\<lparr>ef_bits := b\<rparr>) \<and> keeps w f (f\<lparr>ef_bits := b\<rparr>)"
proof -
  have "\<not> bits_match b p m" if "\<not> bits_match (ef_bits f) p m" "ef_sticky f = 0" for p m
    using that bits_match_mono le by blast
  then show ?thesis using inv by (auto simp: evf_inv_def keeps_def Satisfied_def)
qed

lemma evf_inv_Clear: "evf_inv f \<Longrightarrow> evf_inv (EventFlag_Clear b f) \<and> keeps w f (EventFlag_Clear b f)"
  unfolding EventFlag_Clear_def by (rule evf_inv_fewer_bits) (auto simp: bit_eq_iff bit_simps)

lemma evf_inv_Cancel: "evf_inv f \<Longrightarrow>
    evf_inv (snd (EventFlag_Cancel p f)) \<and> keeps w f (snd (EventFlag_Cancel p f))"
proof -
  assume inv: "evf_inv f"
  obtain n ws where l: "cancel_loop p (ef_waiters f) = (n, ws)" by fastforce
  note c = cancel_loop_spec[OF l]
  have "evf_inv (f\<lparr>ef_waiters := ws\<rparr>)"
    using inv c may_commit_ok by (fastforce simp: evf_inv_def Satisfied_def)
  moreover have "keeps w f (f\<lparr>ef_waiters := ws\<rparr>)"
    using c may_commit_map_of by (auto simp: keeps_def)
  ultimately show ?thesis using l by (simp add: EventFlag_Cancel_def)
qed

lemma evf_inv_Take: "evf_inv f \<Longrightarrow> evf_inv (snd (Take p m f)) \<and> keeps w f (snd (Take p m f))"
  using evf_inv_fewer_bits[of f "ef_bits (snd (Take p m f))" w] Take_le[of f p m]
  by (simp add: Take_def)

lemma evf_inv_push: "\<lbrakk>evf_inv f; a \<notin> fst ` set (ef_waiters f); \<not> Satisfied p m f\<rbrakk> \<Longrightarrow>
    evf_inv (push_waiter a p m f) \<and> (a \<noteq> w \<longrightarrow> keeps w f (push_waiter a p m f)) \<and>
    map_of (ef_waiters (push_waiter a p m f)) a = Some (new_waiter p m)"
proof -
  assume inv: "evf_inv f" and fresh: "a \<notin> fst ` set (ef_waiters f)" and ns: "\<not> Satisfied p m f"
  have none: "map_of (ef_waiters f) a = None" using fresh by (simp add: map_of_eq_None_iff)
  have "evf_inv (push_waiter a p m f)"
    using inv fresh ns
    by (auto simp: evf_inv_def push_waiter_def new_waiter_def waiter_ok_def Satisfied_def)
  moreover have "keeps w f (push_waiter a p m f)" if "a \<noteq> w"
    using that by (auto simp: keeps_def push_waiter_def map_add_def)
  ultimately show ?thesis using none by (auto simp: push_waiter_def map_add_def)
qed

lemma evf_inv_remove: "evf_inv f \<Longrightarrow> evf_inv (RemoveWaiter a f) \<and>
    (a \<noteq> w \<longrightarrow> keeps w f (RemoveWaiter a f)) \<and> a \<notin> fst ` set (ef_waiters (RemoveWaiter a f))"
proof -
  assume inv: "evf_inv f"
  then have d: "distinct (map fst (ef_waiters f))" by (simp add: evf_inv_def)
  have "map_of (remove_waiter a (ef_waiters f)) a = None" by (simp add: remove_waiter_spec(1)[OF d])
  then have "a \<notin> fst ` set (ef_waiters (RemoveWaiter a f))"
    by (simp add: RemoveWaiter_def map_of_eq_None_iff)
  moreover have "keeps w f (RemoveWaiter a f)" if "a \<noteq> w"
    using that by (simp add: keeps_def RemoveWaiter_def remove_waiter_spec(1)[OF d])
  moreover have "evf_inv (RemoveWaiter a f)"
    using inv remove_waiter_spec(2)[of a "ef_waiters f"] remove_waiter_spec(3)[OF d]
    by (fastforce simp: evf_inv_def RemoveWaiter_def Satisfied_def)
  ultimately show ?thesis by blast
qed

lemma evf_step_ok: "\<lbrakk>evf_step w' f g; evf_inv f\<rbrakk> \<Longrightarrow> evf_inv g \<and> (w' \<noteq> w \<longrightarrow> keeps w f g)"
proof (induction rule: evf_step.induct)
  case (es_try w f p m)
  then show ?case using evf_inv_Take[of f p m] by (simp add: Trywait_def keeps_refl case_prod_beta)
qed (use evf_inv_Set evf_inv_Clear evf_inv_Cancel evf_inv_push evf_inv_remove in blast)+

lemma evf_others_ok: "evf_others w f g \<Longrightarrow> evf_inv f \<Longrightarrow> evf_inv g \<and> keeps w f g"
proof (induction rule: evf_others.induct)
  case (eo_step w f g w' h)
  then show ?case using evf_step_ok keeps_trans by blast
qed (simp add: keeps_refl)

section \<open>Correctness of the wait\<close>

text \<open>
  \<open>flag_cell\<close>: a flag that is part of a larger state. Everything the wait promises follows
  from the law of the cell and from the other threads running only critical sections of the
  flag; the laws are discharged for the flag alone here and for a flag in the kernel heap in
  the theory of the kernel calls.
\<close>

locale flag_cell =
  fixes rd :: "'s \<Rightarrow> evf option" and wr :: "evf \<Rightarrow> 's \<Rightarrow> 's"
  assumes rd_wr: "rd s = Some f \<Longrightarrow> rd (wr g s) = Some g"
begin

definition cell_inv :: "'s \<Rightarrow> bool" where
  "cell_inv s \<longleftrightarrow> (\<exists>f. rd s = Some f \<and> evf_inv f)"

definition cell_keeps :: "nat \<Rightarrow> 's \<Rightarrow> 's \<Rightarrow> bool" where
  "cell_keeps w s t \<longleftrightarrow> (\<forall>f. rd s = Some f \<longrightarrow> (\<exists>g. rd t = Some g \<and> keeps w f g))"

definition interferes :: "nat \<Rightarrow> 's obs list \<Rightarrow> bool" where
  "interferes w bs \<longleftrightarrow>
     (\<forall>b\<in>set bs. \<forall>s f. rd s = Some f \<and> evf_inv f \<longrightarrow>
        (\<exists>g. rd (ob_env b s) = Some g \<and> evf_others w f g))"

lemma cell_monitor: "monitor (cell_keeps w)"
proof
  show "cell_keeps w s s" for s by (simp add: cell_keeps_def keeps_refl)
  show "\<lbrakk>cell_keeps w s t; cell_keeps w t u\<rbrakk> \<Longrightarrow> cell_keeps w s u" for s t u
    unfolding cell_keeps_def using keeps_trans by blast
qed

lemma interferes_behaved: "interferes w bs \<Longrightarrow> monitor.well_behaved cell_inv (cell_keeps w) bs"
  unfolding monitor.well_behaved_def[OF cell_monitor] interferes_def cell_inv_def cell_keeps_def
  using evf_others_ok by (metis option.inject)

lemma wait_guarantee:
  assumes "interferes w bs" and "rd s = Some f" and "evf_inv f" and "map_of (ef_waiters f) w = Some r"
    and "WaitFor d ready bs s = Some (ok, s', bs') \<or> Wait ready bs s = Some (ok, s', bs')"
  shows "\<exists>g r'. rd s' = Some g \<and> evf_inv g \<and> keeps w f g \<and> map_of (ef_waiters g) w = Some r' \<and>
    commits r r'"
proof -
  have inv: "cell_inv s" using assms by (auto simp: cell_inv_def)
  have "cell_inv s' \<and> cell_keeps w s s'"
    using assms(5) interferes_behaved[OF assms(1)] inv
      monitor.WaitFor_guarantee[OF cell_monitor] monitor.Wait_guarantee[OF cell_monitor] by blast
  then show ?thesis using assms by (force simp: cell_inv_def cell_keeps_def keeps_def)
qed

text \<open>The possible outcomes of a wait.\<close>

definition outcome_ok :: "u64 \<Rightarrow> u32 \<Rightarrow> u32 option \<Rightarrow> wait_clock \<Rightarrow> 's obs list \<Rightarrow> wait_out \<Rightarrow> bool" where
  "outcome_ok p m to clk bs out \<longleftrightarrow>
     wo_ret out = 0 \<and> opt_holds (\<lambda>v. bits_match v p m) (wo_result out) \<or>
     wo_ret out = 0 \<and> wo_result out = Some 0 \<and> to = None \<and> \<not> no_stop bs \<or>
     wo_ret out = neg_err eCANCELED \<and> wo_result out = None \<or>
     wo_ret out = neg_err eTIMEDOUT \<and> wo_result out = None \<and> wo_timeout out = Some 0 \<and>
       opt_holds (\<lambda>t. expires (wc_wait clk + uint t) bs) to"

lemma wait_leave_ok:
  assumes "evf_inv g" and "map_of (ef_waiters g) w = Some r'" and "commits (new_waiter p m) r'"
    and "wait_leave w to' g = Some (out, g')"
    and "w_done r' \<or> to = None \<and> \<not> no_stop bs"
  shows "evf_inv g' \<and> w \<notin> fst ` set (ef_waiters g') \<and> outcome_ok p m to clk bs out"
proof -
  have "waiter_ok r'"
    using assms(1,2) by (fastforce simp: evf_inv_def dest: map_of_SomeD)
  have out: "out = (if w_cancelled r'
      then \<lparr>wo_ret = neg_err eCANCELED, wo_result = None, wo_timeout = to'\<rparr>
      else \<lparr>wo_ret = 0, wo_result = Some (w_result r'), wo_timeout = to'\<rparr>)"
    using assms(2,4) by (auto simp: wait_leave_def)
  have "outcome_ok p m to clk bs out"
  proof (cases "w_done r'")
    case True
    then show ?thesis
      using \<open>waiter_ok r'\<close> assms(3)
      by (simp add: out outcome_ok_def opt_holds_def waiter_ok_def commits_def new_waiter_def)
  next
    case False
    then have "r' = new_waiter p m" using assms(3) by (simp add: commits_def)
    then show ?thesis
      using assms(5) False by (simp add: out outcome_ok_def opt_holds_def new_waiter_def)
  qed
  moreover have "g' = RemoveWaiter w g" using assms(2,4) by (simp add: wait_leave_def)
  ultimately show ?thesis using evf_inv_remove[OF assms(1), of w] by simp
qed

lemma wait_correct:
  assumes f: "rd s = Some f" "evf_inv f" "w \<notin> fst ` set (ef_waiters f)"
    and env: "interferes w bs"
    and ret: "EventFlag_Wait rd wr w p m to clk bs s = Some (out, s', bs')"
  shows "\<exists>f'. rd s' = Some f' \<and> evf_inv f' \<and> w \<notin> fst ` set (ef_waiters f') \<and>
    outcome_ok p m to clk bs out"
proof (cases "Satisfied p m f")
  case True
  have "out = \<lparr>wo_ret = 0, wo_result = Some (ef_bits f), wo_timeout = to\<rparr>"
      "s' = wr (snd (Take p m f)) s"
    using ret f True by (auto simp: EventFlag_Wait_def case_prod_beta)
  then show ?thesis
    using rd_wr[OF f(1)] evf_inv_Take[OF f(2)] f(3) True
    by (auto simp: outcome_ok_def opt_holds_def Satisfied_def)
next
  case False
  let ?f1 = "push_waiter w p m f" and ?ready = "\<lambda>t. opt_holds (waiter_done w) (rd t)"
  let ?s1 = "wr ?f1 s"
  note push = evf_inv_push[OF f(2,3) False] and r1 = rd_wr[OF f(1), of ?f1]
  note g = wait_guarantee[OF env r1 conjunct1[OF push] conjunct2[OF conjunct2[OF push]]]
  show ?thesis
  proof (cases to)
    case None
    then obtain ok s2 where w: "Wait ?ready bs ?s1 = Some (ok, s2, bs')"
      using ret f False by (auto simp: EventFlag_Wait_def Let_def split: option.splits)
    obtain g r' where gr: "rd s2 = Some g" "evf_inv g" "map_of (ef_waiters g) w = Some r'"
        "commits (new_waiter p m) r'"
      using g[OF disjI2[OF w]] by blast
    obtain g' where l: "wait_leave w None g = Some (out, g')" "s' = wr g' s2"
      using ret f False None w gr(1)
      by (auto simp: EventFlag_Wait_def Let_def split: option.splits)
    have "w_done r' \<or> to = None \<and> \<not> no_stop bs"
      using Wait_ready[OF w] Wait_no_stop[OF _ w] gr None by (auto simp: opt_holds_def waiter_done_def)
    then show ?thesis
      using wait_leave_ok[OF gr(2-4) l(1)] rd_wr[OF gr(1)] l(2) by blast
  next
    case (Some t)
    let ?d = "wc_wait clk + uint t"
    obtain ok s2 where w: "WaitFor ?d ?ready bs ?s1 = Some (ok, s2, bs')"
      using ret f False Some
      by (auto simp: EventFlag_Wait_def Let_def split: option.splits if_splits)
    obtain g r' where gr: "rd s2 = Some g" "evf_inv g" "map_of (ef_waiters g) w = Some r'"
        "commits (new_waiter p m) r'"
      using g[OF disjI1[OF w]] by blast
    show ?thesis
    proof (cases ok)
      case True
      then obtain g' where l: "wait_leave w (Some (remaining_us t clk)) g = Some (out, g')"
          "s' = wr g' s2"
        using ret f False Some w gr(1)
        by (auto simp: EventFlag_Wait_def Let_def split: option.splits)
      have "w_done r'"
        using WaitFor_ready[OF w] True gr by (auto simp: opt_holds_def waiter_done_def)
      then show ?thesis
        using wait_leave_ok[OF gr(2-4) l(1)] rd_wr[OF gr(1)] l(2) by blast
    next
      case no: False
      then have "out = \<lparr>wo_ret = neg_err eTIMEDOUT, wo_result = None, wo_timeout = Some 0\<rparr>"
          "s' = wr (RemoveWaiter w g) s2"
        using ret f False Some w gr(1) by (auto simp: EventFlag_Wait_def Let_def)
      moreover have "expires ?d bs"
        using WaitFor_False_expired w no by (auto simp: expires_def)
      ultimately show ?thesis
        using rd_wr[OF gr(1)] evf_inv_remove[OF gr(2)] Some
        by (auto simp: outcome_ok_def opt_holds_def)
    qed
  qed
qed

lemma wait_returns:
  assumes f: "rd s = Some f" "evf_inv f" "w \<notin> fst ` set (ef_waiters f)"
    and env: "interferes w bs" and ex: "expires (wc_wait clk + uint t) bs"
  shows "\<exists>r. EventFlag_Wait rd wr w p m (Some t) clk bs s = Some r"
proof (cases "Satisfied p m f")
  case True
  then show ?thesis using f by (simp add: EventFlag_Wait_def case_prod_beta)
next
  case False
  let ?f1 = "push_waiter w p m f" and ?ready = "\<lambda>t. opt_holds (waiter_done w) (rd t)"
  note push = evf_inv_push[OF f(2,3) False] and r1 = rd_wr[OF f(1), of ?f1]
  obtain ok s2 bs' where w: "WaitFor (wc_wait clk + uint t) ?ready bs (wr ?f1 s) = Some (ok, s2, bs')"
    using WaitFor_returns[OF ex] by (metis prod_cases3)
  obtain g r' where "rd s2 = Some g" "map_of (ef_waiters g) w = Some r'"
    using wait_guarantee[OF env r1 conjunct1[OF push] conjunct2[OF conjunct2[OF push]] disjI1[OF w]]
    by blast
  then show ?thesis
    using f False w by (cases ok) (simp_all add: EventFlag_Wait_def Let_def wait_leave_def)
qed

end

text \<open>The flag alone.\<close>

interpretation evf_self: flag_cell Some "\<lambda>f s. f"
  by unfold_locales simp

lemma evf_inv_new: "evf_inv (EventFlag_new nm init sticky)"
  by (simp add: evf_inv_def EventFlag_new_def)

text \<open>A later commit in the loop of \<open>Set\<close> needs bits that an earlier \<open>CLEAR_ALL\<close> has taken.\<close>

lemma set_loop_empty: "\<lbrakk>set_loop ws f = (ws', f'); ef_bits f = 0; ef_sticky f = 0;
    \<forall>(a, r)\<in>set ws. w_pattern r \<noteq> 0\<rbrakk> \<Longrightarrow> ws' = ws"
proof (induction ws arbitrary: ws')
  case (Cons x ws)
  obtain a w where x: "x = (a, w)" by fastforce
  have "\<not> Satisfied (w_pattern w) (w_mode w) f"
    using Cons.prems(2,4) x by (simp add: Satisfied_def bits_match_def)
  moreover have "set_loop ((a, w) # ws) f = (ws', f')" using Cons.prems(1) x by simp
  ultimately obtain ws1 where "set_loop ws f = (ws1, f')" "ws' = (a, w) # ws1"
    by (metis set_loop_ConsE)
  with Cons x show ?case by auto
qed simp

lemma set_loop_one: "\<lbrakk>set_loop ws f = (ws', f'); ef_sticky f = 0;
    \<forall>(a, r)\<in>set ws. w_pattern r \<noteq> 0 \<and> w_mode r AND kEvfClearAll \<noteq> 0\<rbrakk> \<Longrightarrow>
    length (filter (\<lambda>x. w_done (snd x)) ws') \<le> length (filter (\<lambda>x. w_done (snd x)) ws) + 1"
proof (induction ws arbitrary: ws')
  case (Cons x ws)
  obtain a w where x: "x = (a, w)" by fastforce
  have "set_loop ((a, w) # ws) f = (ws', f')" using Cons.prems(1) x by simp
  then show ?case
  proof (cases rule: set_loop_ConsE)
    case (skip ws1)
    then show ?thesis using Cons.IH[OF skip(2)] Cons.prems x by simp
  next
    case (commit ws1)
    let ?T = "snd (Take (w_pattern w) (w_mode w) f)"
    have "ef_bits ?T = 0" using Cons.prems(2,3) x by (simp add: Take_def)
    then have "ws1 = ws"
      using set_loop_empty[OF commit(3)] Cons.prems x by auto
    then show ?thesis using commit x by simp
  qed
qed simp

section \<open>Properties\<close>

text \<open>
  C6: A wait on an event flag delivers what it promises whatever other threads do to the flag
  while it sleeps (sets, clears, cancels, polls, and waits that come and go). When \<open>Wait\<close>
  returns, its waiter has left the queue, the flag is well formed, and one of four things
  holds: status 0 with result bits that match the pattern in its mode; the cancel status with
  no result; the timeout status with the remaining time set to zero, after the deadline passed
  or the session stopped; or, for an untimed wait only, status 0 with result 0 after the
  session stopped. A timed wait returns once its schedule reaches the deadline.
\<close>

theorem evf_wait_correct:
  assumes "evf_inv f" and "w \<notin> fst ` set (ef_waiters f)"
    and "\<forall>b\<in>set bs. \<forall>g. evf_others w g (ob_env b g)"
  shows "(\<forall>out f' bs'. EventFlag_Wait Some (\<lambda>f s. f) w p m to clk bs f = Some (out, f', bs') \<longrightarrow>
      evf_inv f' \<and> w \<notin> fst ` set (ef_waiters f') \<and>
      (wo_ret out = 0 \<and> opt_holds (\<lambda>v. bits_match v p m) (wo_result out) \<or>
       wo_ret out = 0 \<and> wo_result out = Some 0 \<and> to = None \<and> \<not> no_stop bs \<or>
       wo_ret out = - 85 \<and> wo_result out = None \<or>
       wo_ret out = - 60 \<and> wo_result out = None \<and> wo_timeout out = Some 0 \<and>
         opt_holds (\<lambda>t. expires (wc_wait clk + uint t) bs) to)) \<and>
    (opt_holds (\<lambda>t. expires (wc_wait clk + uint t) bs) to \<longrightarrow>
      EventFlag_Wait Some (\<lambda>f s. f) w p m to clk bs f \<noteq> None)"
proof -
  have env: "evf_self.interferes w bs" using assms(3) by (auto simp: evf_self.interferes_def)
  have "\<exists>r. EventFlag_Wait Some (\<lambda>f s. f) w p m to clk bs f = Some r"
    if "opt_holds (\<lambda>t. expires (wc_wait clk + uint t) bs) to"
    using that evf_self.wait_returns[OF refl assms(1,2) env]
    by (cases to) (simp_all add: opt_holds_def)
  then show ?thesis
    using evf_self.wait_correct[OF refl assms(1,2) env]
    by (auto simp: evf_self.outcome_ok_def)
qed

definition ex_flag :: evf where
  "ex_flag = EventFlag_new (Some ''SceExample'') 1 0"

definition ex_sched :: "evf obs list" where
  "ex_sched = [\<lparr>ob_stop = False, ob_now = 10, ob_env = EventFlag_Set 7 4\<rparr>,
     \<lparr>ob_stop = False, ob_now = 900, ob_env = EventFlag_Clear 0\<rparr>]"

lemma ex_sched_others: "\<forall>b\<in>set ex_sched. \<forall>g. evf_others w g (ob_env b g)"
  using eo_step[OF eo_refl, of "Suc w" w, OF _ es_set] eo_step[OF eo_refl, of "Suc w" w, OF _ es_clear]
  by (simp add: ex_sched_def)

lemmas evf_exec = EventFlag_new_def EventFlag_Wait_def Satisfied_def bits_match_def Take_def
  push_waiter_def new_waiter_def waiter_done_def opt_holds_def EventFlag_Set_def EventFlag_Clear_def
  wait_leave_def RemoveWaiter_def remaining_us_def kEvfOr_def kEvfClearAll_def kEvfClearPat_def

text \<open>A wait for bit 2 of a flag with bit 0 set, woken by a set of bit 2.\<close>

theorem evf_wait_correct_witness:
  "evf_inv ex_flag \<and>
   EventFlag_Wait Some (\<lambda>f s. f) 1 4 0x12 (Some 500) \<lparr>wc_start = 0, wc_wait = 0, wc_end = 30\<rparr>
     ex_sched ex_flag =
   Some (\<lparr>wo_ret = 0, wo_result = Some 5, wo_timeout = Some 470\<rparr>,
         ex_flag\<lparr>ef_bits := 0, ef_last_set_tid := 7\<rparr>, tl ex_sched) \<and>
   bits_match 5 4 0x12"
proof -
  let ?clk = "\<lparr>wc_start = 0, wc_wait = 0, wc_end = 30\<rparr>"
  have inv: "evf_inv ex_flag" by (simp add: ex_flag_def evf_inv_new)
  have run: "EventFlag_Wait Some (\<lambda>f s. f) 1 4 0x12 (Some 500) ?clk ex_sched ex_flag =
      Some (\<lparr>wo_ret = 0, wo_result = Some 5, wo_timeout = Some 470\<rparr>,
        ex_flag\<lparr>ef_bits := 0, ef_last_set_tid := 7\<rparr>, tl ex_sched)"
    by (simp add: ex_flag_def ex_sched_def evf_exec)
  have "1 \<notin> fst ` set (ef_waiters ex_flag)" by (simp add: ex_flag_def EventFlag_new_def)
  from evf_wait_correct[OF inv this ex_sched_others, of 4 "0x12" "Some 500" ?clk] run inv
  show ?thesis by (auto simp: opt_holds_def)
qed

text \<open>
  C7: No wakeup is lost. Starting from a flag without sticky bits, after any sequence of calls
  by any threads, the queued waiters are distinct objects, none that still sleeps has its
  pattern satisfied by the flag's bits, and every committed one holds bits that match.
\<close>

theorem evf_no_lost_wakeup:
  assumes "evf_others w (EventFlag_new nm init 0) f"
  shows "distinct (map fst (ef_waiters f)) \<and>
    (\<forall>(a, r)\<in>set (ef_waiters f).
       (if w_done r then w_cancelled r \<or> bits_match (w_result r) (w_pattern r) (w_mode r)
        else \<not> Satisfied (w_pattern r) (w_mode r) f))"
proof -
  have "evf_inv f" "ef_sticky f = 0"
    using evf_others_ok[OF assms evf_inv_new] by (simp_all add: keeps_def EventFlag_new_def)
  then show ?thesis by (auto simp: evf_inv_def waiter_ok_def split: if_splits)
qed

definition ex_parked :: evf where
  "ex_parked = EventFlag_Set 7 8 (push_waiter 2 4 0x11 ex_flag)"

theorem evf_no_lost_wakeup_witness:
  "evf_others 0 (EventFlag_new (Some ''SceExample'') 1 0) ex_parked \<and>
   ef_waiters ex_parked = [(2, new_waiter 4 0x11)] \<and> \<not> Satisfied 4 0x11 ex_parked"
proof -
  have "evf_step 2 ex_flag (push_waiter 2 4 0x11 ex_flag)"
    by (rule es_enter) (simp_all add: ex_flag_def evf_exec)
  then have r: "evf_others 0 (EventFlag_new (Some ''SceExample'') 1 0) ex_parked"
    unfolding ex_parked_def ex_flag_def
    by (intro eo_step[OF eo_step[OF eo_refl, of 2] _ es_set, of 0 _ _ 1]) simp_all
  have w: "ef_waiters ex_parked = [(2, new_waiter 4 0x11)]"
    by (simp add: ex_parked_def ex_flag_def evf_exec)
  from evf_no_lost_wakeup[OF r] r w show ?thesis by (simp add: new_waiter_def)
qed

text \<open>
  A committed wake cannot be revoked. Once \<open>Set\<close> (or \<open>Cancel\<close>) has marked a waiter done,
  nothing another thread does changes it, in particular no later \<open>Clear\<close>; when the waiting
  thread is scheduled again it returns the bits recorded at the commit, or the cancel status.
\<close>

theorem evf_committed_wake:
  assumes "evf_inv f" and "map_of (ef_waiters f) w = Some r" and "w_done r"
    and "evf_others w f g"
  shows "map_of (ef_waiters g) w = Some r \<and>
    wait_leave w to g =
      Some (if w_cancelled r then \<lparr>wo_ret = - 85, wo_result = None, wo_timeout = to\<rparr>
            else \<lparr>wo_ret = 0, wo_result = Some (w_result r), wo_timeout = to\<rparr>, RemoveWaiter w g)"
proof -
  have "map_of (ef_waiters g) w = Some r"
    using evf_others_ok[OF assms(4,1)] assms(2,3) by (auto simp: keeps_def commits_def)
  then show ?thesis by (simp add: wait_leave_def)
qed

definition ex_woken :: evf where
  "ex_woken = EventFlag_Set 7 4 (push_waiter 2 4 0x11 ex_flag)"

theorem evf_committed_wake_witness:
  "ef_bits (EventFlag_Clear 0 ex_woken) = 0 \<and>
   wait_leave 2 None (EventFlag_Clear 0 ex_woken) =
     Some (\<lparr>wo_ret = 0, wo_result = Some 5, wo_timeout = None\<rparr>,
           RemoveWaiter 2 (EventFlag_Clear 0 ex_woken))"
proof -
  have inv: "evf_inv ex_woken"
    unfolding ex_woken_def
    by (intro conjunct1[OF evf_inv_Set] conjunct1[OF evf_inv_push])
      (simp_all add: ex_flag_def evf_inv_new, simp_all add: evf_exec)
  have m: "map_of (ef_waiters ex_woken) 2 = Some ((new_waiter 4 0x11)\<lparr>w_result := 5, w_done := True\<rparr>)"
    by (simp add: ex_woken_def ex_flag_def evf_exec)
  have o: "evf_others 2 ex_woken (EventFlag_Clear 0 ex_woken)"
    by (rule eo_step[OF eo_refl _ es_clear, of 3]) simp
  from evf_committed_wake[OF inv m _ o, of None] show ?thesis
    by (simp add: new_waiter_def EventFlag_Clear_def)
qed

text \<open>
  \<open>Set\<close> hands a pulse to at most one thread. When every queued waiter uses the
  \<open>CLEAR_ALL\<close> mode and a non-zero pattern (which the syscall enforces), one \<open>Set\<close> on a flag
  without sticky bits commits at most one of them.
\<close>

theorem evf_set_clear_all_one:
  assumes "ef_sticky f = 0"
    and "\<forall>(a, r)\<in>set (ef_waiters f). w_pattern r \<noteq> 0 \<and> w_mode r AND kEvfClearAll \<noteq> 0"
  shows "length (filter (\<lambda>x. w_done (snd x)) (ef_waiters (EventFlag_Set tid b f)))
     \<le> length (filter (\<lambda>x. w_done (snd x)) (ef_waiters f)) + 1"
proof -
  let ?f1 = "f\<lparr>ef_bits := ef_bits f OR b, ef_last_set_tid := tid\<rparr>"
  obtain ws f2 where l: "set_loop (ef_waiters f) ?f1 = (ws, f2)" by fastforce
  then show ?thesis
    using set_loop_one[OF l] assms by (simp add: EventFlag_Set_def Let_def)
qed

definition ex_two :: evf where
  "ex_two = push_waiter 3 4 0x12 (push_waiter 2 4 0x12 ex_flag)"

theorem evf_set_clear_all_one_witness:
  "length (filter (\<lambda>x. w_done (snd x)) (ef_waiters (EventFlag_Set 7 4 ex_two))) \<le> 1 \<and>
   map (\<lambda>x. (fst x, w_done (snd x))) (ef_waiters (EventFlag_Set 7 4 ex_two)) = [(2, True), (3, False)]"
  using evf_set_clear_all_one[of ex_two 7 4] by (simp add: ex_two_def ex_flag_def evf_exec)

text \<open>
  With sticky bits a wakeup can be lost. \<open>Clear\<close> drops the sticky bits, and they come back
  only with the next \<open>Take\<close>: a flag whose sticky bit was cleared reaches a state in which the
  bit is set again and a thread that waits for it still sleeps.
\<close>

theorem evf_sticky_lost_wakeup:
  "\<exists>f r. evf_others 0 (EventFlag_new (Some ''SceSysFlag'') 2 2) f \<and>
     (2, r) \<in> set (ef_waiters f) \<and> \<not> w_done r \<and> Satisfied (w_pattern r) (w_mode r) f"
proof -
  let ?f0 = "EventFlag_new (Some ''SceSysFlag'') 2 2"
  let ?f1 = "EventFlag_Clear 0 ?f0"
  let ?f2 = "push_waiter 2 2 2 ?f1"
  let ?f3 = "push_waiter 3 4 2 ?f2"
  let ?f4 = "EventFlag_Set 7 4 ?f3"
  have "evf_others 0 ?f0 ?f1" by (rule eo_step[OF eo_refl _ es_clear, of 1]) simp
  then have "evf_others 0 ?f0 ?f2"
    by (rule eo_step[of _ _ _ 2]) (simp, rule es_enter, simp_all add: evf_exec)
  then have "evf_others 0 ?f0 ?f3"
    by (rule eo_step[of _ _ _ 3]) (simp, rule es_enter, simp_all add: evf_exec)
  then have "evf_others 0 ?f0 ?f4"
    by (rule eo_step[of _ _ _ 1]) (simp, rule es_set)
  moreover have "(2, new_waiter 2 2) \<in> set (ef_waiters ?f4)" "Satisfied 2 2 ?f4"
    by (simp_all add: evf_exec)
  ultimately show ?thesis
    by (intro exI[of _ ?f4] exI[of _ "new_waiter 2 2"]) (simp add: new_waiter_def)
qed

text \<open>
  When the session stops during an untimed wait, the wait reports success: status 0 with
  result 0, bits that do not match the pattern.
\<close>

theorem evf_wait_stop_succeeds:
  "EventFlag_Wait Some (\<lambda>f s. f) w 4 2 None clk [\<lparr>ob_stop = True, ob_now = 0, ob_env = id\<rparr>] ex_flag =
     Some (\<lparr>wo_ret = 0, wo_result = Some 0, wo_timeout = None\<rparr>, ex_flag, []) \<and>
   \<not> bits_match 0 4 2"
  by (simp add: ex_flag_def evf_exec)

end
