(* ===== verification/Semaphore.thy ===== *)
theory Semaphore
  imports Session
begin

text \<open>
  The counting semaphore of \<open>delta/kern/lv2/sys_semaphore.{h,cc}\<close> (\<open>class Semaphore\<close>) and the
  POSIX kernel semaphores of \<open>delta/kern/lv2/sys_ksem.cc\<close>. The osem syscalls on handles are in
  the theory of the kernel calls.

  \<open>int\<close> fields hold values of the C++ \<open>int\<close> range. Signed overflow is undefined behaviour and is
  the value \<open>None\<close> of the arithmetic.
\<close>

section \<open>Signed arithmetic\<close>

definition i32_ok :: "int \<Rightarrow> bool" where
  "i32_ok x \<longleftrightarrow> - (2 ^ 31) \<le> x \<and> x < 2 ^ 31"

definition i32_add :: "int \<Rightarrow> int \<Rightarrow> int option" where
  "i32_add x y = (if i32_ok (x + y) then Some (x + y) else None)"

definition i32_sub :: "int \<Rightarrow> int \<Rightarrow> int option" where
  "i32_sub x y = (if i32_ok (x - y) then Some (x - y) else None)"

text \<open>\<open>static_cast<int>\<close> of an \<open>unsigned\<close>.\<close>

definition to_i32 :: "u32 \<Rightarrow> int" where
  "to_i32 u = sint u"

section \<open>The semaphore object\<close>

record sem =
  sm_name :: string
  sm_count :: int
  sm_max :: int
  sm_init :: int
  sm_waiters :: int

definition Semaphore_new :: "string option \<Rightarrow> int \<Rightarrow> int \<Rightarrow> sem" where
  "Semaphore_new nm init mx =
     \<lparr>sm_name = (case nm of None \<Rightarrow> [] | Some n \<Rightarrow> n), sm_count = init, sm_max = mx, sm_init = init,
      sm_waiters = 0\<rparr>"

definition enough :: "int \<Rightarrow> sem \<Rightarrow> bool" where
  "enough need s \<longleftrightarrow> need \<le> sm_count s"

definition Sem_Trywait :: "int \<Rightarrow> sem \<Rightarrow> (int \<times> sem) option" where
  "Sem_Trywait need s =
     (if need \<le> 0 then Some (neg_err eINVAL, s)
      else if sm_count s < need then
        (if 0 < sm_max s \<and> sm_max s < need then Some (neg_err eINVAL, s)
         else Some (neg_err eBUSY, s))
      else map_option (\<lambda>c. (0, s\<lparr>sm_count := c\<rparr>)) (i32_sub (sm_count s) need))"

text \<open>The sum is computed only when there is a ceiling, and again to store it.\<close>

definition Sem_Post :: "int \<Rightarrow> sem \<Rightarrow> (int \<times> sem) option" where
  "Sem_Post n s =
     (if n \<le> 0 then Some (neg_err eINVAL, s)
      else case i32_add (sm_count s) n of
             None \<Rightarrow> None
           | Some c \<Rightarrow> if 0 < sm_max s \<and> sm_max s < c then Some (neg_err eINVAL, s)
                       else Some (0, s\<lparr>sm_count := c\<rparr>))"

text \<open>\<open>Cancel\<close> returns the status and, when it succeeds, the number of waiters it reports.\<close>

definition Sem_Cancel :: "int \<Rightarrow> sem \<Rightarrow> int \<times> int option \<times> sem" where
  "Sem_Cancel set_count s =
     (if 0 < sm_max s \<and> sm_max s < set_count then (neg_err eINVAL, None, s)
      else (0, Some (sm_waiters s),
            s\<lparr>sm_count := (if set_count < 0 then sm_init s else set_count)\<rparr>))"

text \<open>
  The blocking wait, generic in the state the semaphore is part of. \<open>now\<close> is the clock at the
  start of \<open>WaitFor\<close>.
\<close>

definition Sem_Wait ::
  "('s \<Rightarrow> sem option) \<Rightarrow> (sem \<Rightarrow> 's \<Rightarrow> 's) \<Rightarrow> int \<Rightarrow> u32 option \<Rightarrow> int \<Rightarrow> 's obs list \<Rightarrow> 's
     \<Rightarrow> (int \<times> 's \<times> 's obs list) option" where
  "Sem_Wait rd wr need timeout_us now bs s =
     (if need \<le> 0 then Some (neg_err eINVAL, s, bs)
      else case rd s of None \<Rightarrow> None
      | Some m \<Rightarrow>
          if 0 < sm_max m \<and> sm_max m < need then Some (neg_err eINVAL, s, bs)
          else if enough need m
          then map_option (\<lambda>c. (0, wr (m\<lparr>sm_count := c\<rparr>) s, bs)) (i32_sub (sm_count m) need)
          else
            (let s1 = wr (m\<lparr>sm_waiters := sm_waiters m + 1\<rparr>) s;
                 ready = (\<lambda>t. case rd t of None \<Rightarrow> False | Some u \<Rightarrow> enough need u)
             in case (case timeout_us of
                        Some to \<Rightarrow> WaitFor (now + uint to) ready bs s1
                      | None \<Rightarrow> Wait ready bs s1) of
                  None \<Rightarrow> None
                | Some (ok, s2, bs') \<Rightarrow>
                    (case rd s2 of None \<Rightarrow> None
                     | Some u \<Rightarrow>
                         let u1 = u\<lparr>sm_waiters := sm_waiters u - 1\<rparr>
                         in if \<not> ok then Some (neg_err eTIMEDOUT, wr u1 s2, bs')
                            else map_option (\<lambda>c. (0, wr (u1\<lparr>sm_count := c\<rparr>) s2, bs'))
                                   (i32_sub (sm_count u) need))))"

section \<open>Kernel semaphores (\<open>sys_ksem.cc\<close>)\<close>

text \<open>
  The registry: values by id, ids by name, the next id. \<open>HashMap\<close> is a map; only the erasure of
  names in \<open>destroy\<close> iterates, and its result does not depend on the order.
\<close>

record ksems =
  ks_by_id :: "int \<rightharpoonup> int"
  ks_by_name :: "string \<rightharpoonup> int"
  ks_next :: int

definition ksems_new :: ksems where
  "ksems_new = \<lparr>ks_by_id = Map.empty, ks_by_name = Map.empty, ks_next = 1\<rparr>"

definition kO_CREAT :: u32 where "kO_CREAT = 0x0200"
definition kO_EXCL :: u32 where "kO_EXCL = 0x0800"

text \<open>\<open>g_next_ksem_id.fetch_add(1)\<close>: an atomic \<open>int\<close>, which wraps.\<close>

definition next_id :: "ksems \<Rightarrow> int \<times> ksems" where
  "next_id k = (ks_next k, k\<lparr>ks_next := sint (word_of_int (ks_next k + 1) :: u32)\<rparr>)"

definition sys_ksem_init :: "u32 \<Rightarrow> ksems \<Rightarrow> int \<times> int \<times> ksems" where
  "sys_ksem_init value k =
     (let (id', k1) = next_id k
      in (0, id', k1\<lparr>ks_by_id := (ks_by_id k1)(id' \<mapsto> to_i32 value)\<rparr>))"

definition ksem_key :: "string option \<Rightarrow> string" where
  "ksem_key name = (case name of None \<Rightarrow> [] | Some n \<Rightarrow> n)"

definition sys_ksem_open :: "string option \<Rightarrow> u32 \<Rightarrow> u32 \<Rightarrow> ksems \<Rightarrow> int \<times> int option \<times> ksems" where
  "sys_ksem_open name oflag value k =
     (case ks_by_name k (ksem_key name) of
        Some i \<Rightarrow> if oflag AND kO_CREAT \<noteq> 0 \<and> oflag AND kO_EXCL \<noteq> 0 then (neg_err eEXIST, None, k)
                  else (0, Some i, k)
      | None \<Rightarrow>
          if oflag AND kO_CREAT = 0 then (neg_err eNOENT, None, k)
          else let (id', k1) = next_id k
               in (0, Some id', k1\<lparr>ks_by_id := (ks_by_id k1)(id' \<mapsto> to_i32 value),
                                  ks_by_name := (ks_by_name k1)(ksem_key name \<mapsto> id')\<rparr>))"

definition sys_ksem_unlink :: "string option \<Rightarrow> ksems \<Rightarrow> int \<times> ksems" where
  "sys_ksem_unlink name k =
     (case ks_by_name k (ksem_key name) of
        None \<Rightarrow> (neg_err eNOENT, k)
      | Some _ \<Rightarrow> (0, k\<lparr>ks_by_name := (ks_by_name k)(ksem_key name := None)\<rparr>))"

definition sys_ksem_close :: "int \<Rightarrow> ksems \<Rightarrow> int \<times> ksems" where
  "sys_ksem_close id' k = (0, k)"

definition set_value :: "int \<Rightarrow> int \<Rightarrow> ksems \<Rightarrow> ksems" where
  "set_value id' v k = k\<lparr>ks_by_id := (ks_by_id k)(id' \<mapsto> v)\<rparr>"

definition sys_ksem_post :: "int \<Rightarrow> ksems \<Rightarrow> (int \<times> ksems) option" where
  "sys_ksem_post id' k =
     (case ks_by_id k id' of
        None \<Rightarrow> Some (neg_err eINVAL, k)
      | Some v \<Rightarrow> map_option (\<lambda>v'. (0, set_value id' v' k)) (i32_add v 1))"

text \<open>
  The predicate of the waits reads \<open>s->value\<close>. On an object that another thread deleted it ends
  the wait, and the access that follows is undefined behaviour (\<open>ksem_take\<close> is \<open>None\<close>).
\<close>

definition ksem_ready :: "int \<Rightarrow> ksems \<Rightarrow> bool" where
  "ksem_ready id' k \<longleftrightarrow> (case ks_by_id k id' of None \<Rightarrow> True | Some v \<Rightarrow> 0 < v)"

text \<open>The end of the waits: \<open>s->value--\<close>, on an object that another thread may have destroyed.\<close>

definition ksem_take :: "int \<Rightarrow> ksems \<Rightarrow> (int \<times> ksems) option" where
  "ksem_take id' k =
     (case ks_by_id k id' of
        None \<Rightarrow> None
      | Some v \<Rightarrow> map_option (\<lambda>v'. (0, set_value id' v' k)) (i32_sub v 1))"

text \<open>\<open>sys_ksem_wait\<close> ignores whether \<open>guest::Wait\<close> succeeded.\<close>

definition sys_ksem_wait :: "int \<Rightarrow> ksems obs list \<Rightarrow> ksems \<Rightarrow> (int \<times> ksems \<times> ksems obs list) option" where
  "sys_ksem_wait id' bs k =
     (case ks_by_id k id' of
        None \<Rightarrow> Some (neg_err eINVAL, k, bs)
      | Some _ \<Rightarrow>
          (case Wait (ksem_ready id') bs k of
             None \<Rightarrow> None
           | Some (_, k', bs') \<Rightarrow> map_option (\<lambda>(r, k2). (r, k2, bs')) (ksem_take id' k')))"

definition sys_ksem_trywait :: "int \<Rightarrow> ksems \<Rightarrow> (int \<times> ksems) option" where
  "sys_ksem_trywait id' k =
     (case ks_by_id k id' of
        None \<Rightarrow> Some (neg_err eINVAL, k)
      | Some v \<Rightarrow> if v = 0 then Some (neg_err eAGAIN, k)
                  else map_option (\<lambda>v'. (0, set_value id' v' k)) (i32_sub v 1))"

text \<open>
  \<open>abstime\<close> holds \<open>tv_sec\<close> and \<open>tv_nsec\<close>; \<open>wall\<close> is the wall clock in microseconds and \<open>now\<close> the
  monotonic clock at the start of \<open>WaitFor\<close>. The division truncates towards zero.
\<close>

definition ksem_rel :: "int \<times> int \<Rightarrow> int \<Rightarrow> int" where
  "ksem_rel abstime wall =
     (let nsec = snd abstime;
          us = (if nsec < 0 then - ((- nsec) div 1000) else nsec div 1000);
          rel = fst abstime * 1000000 + us - wall
      in if rel < 0 then 0 else rel)"

definition sys_ksem_timedwait ::
  "int \<Rightarrow> (int \<times> int) option \<Rightarrow> int \<Rightarrow> int \<Rightarrow> ksems obs list \<Rightarrow> ksems
     \<Rightarrow> (int \<times> ksems \<times> ksems obs list) option" where
  "sys_ksem_timedwait id' abstime wall now bs k =
     (case ks_by_id k id' of
        None \<Rightarrow> Some (neg_err eINVAL, k, bs)
      | Some _ \<Rightarrow>
          (case abstime of
             None \<Rightarrow> sys_ksem_wait id' bs k
           | Some t \<Rightarrow>
               (case WaitFor (now + ksem_rel t wall) (ksem_ready id') bs k of
                  None \<Rightarrow> None
                | Some (ok, k', bs') \<Rightarrow>
                    if \<not> ok then Some (neg_err eTIMEDOUT, k', bs')
                    else map_option (\<lambda>(r, k2). (r, k2, bs')) (ksem_take id' k'))))"

definition sys_ksem_getvalue :: "int \<Rightarrow> ksems \<Rightarrow> int \<times> int option" where
  "sys_ksem_getvalue id' k =
     (case ks_by_id k id' of None \<Rightarrow> (neg_err eINVAL, None) | Some v \<Rightarrow> (0, Some v))"

definition sys_ksem_destroy :: "int \<Rightarrow> ksems \<Rightarrow> int \<times> ksems" where
  "sys_ksem_destroy id' k =
     (case ks_by_id k id' of
        None \<Rightarrow> (neg_err eINVAL, k)
      | Some _ \<Rightarrow> (0, k\<lparr>ks_by_id := (ks_by_id k)(id' := None),
                       ks_by_name := (\<lambda>n. if ks_by_name k n = Some id' then None
                                          else ks_by_name k n)\<rparr>))"

definition ksem_session_reset :: "ksems \<Rightarrow> ksems" where
  "ksem_session_reset k = ksems_new"

section \<open>The semaphore as a monitor\<close>

definition sem_inv :: "sem \<Rightarrow> bool" where
  "sem_inv m \<longleftrightarrow> 0 < sm_max m \<and> sm_max m < 2 ^ 31 \<and> 0 \<le> sm_count m \<and> sm_count m \<le> sm_max m \<and>
     0 \<le> sm_init m \<and> sm_init m \<le> sm_max m"

definition same_limits :: "sem \<Rightarrow> sem \<Rightarrow> bool" where
  "same_limits m u \<longleftrightarrow> sm_max u = sm_max m \<and> sm_init u = sm_init m \<and> sm_name u = sm_name m"

interpretation sem_mon: monitor sem_inv same_limits
  by unfold_locales (simp_all add: same_limits_def)

lemma sem_inv_take: "\<lbrakk>sem_inv m; 0 < need; need \<le> sm_count m\<rbrakk> \<Longrightarrow>
    i32_sub (sm_count m) need = Some (sm_count m - need) \<and> sem_inv (m\<lparr>sm_count := sm_count m - need\<rparr>)"
  by (simp add: sem_inv_def i32_sub_def i32_ok_def)

lemma sem_inv_waiters [simp]: "sem_inv (m\<lparr>sm_waiters := k\<rparr>) = sem_inv m"
  by (simp add: sem_inv_def)

lemma Sem_Trywait_ok: "sem_inv m \<Longrightarrow> \<exists>r m'. Sem_Trywait need m = Some (r, m') \<and> sem_inv m' \<and>
    same_limits m m' \<and> (if r = 0 then 0 < need \<and> sm_count m' = sm_count m - need else m' = m)"
  using sem_inv_take[of m need] by (auto simp: Sem_Trywait_def same_limits_def)

lemma Sem_Cancel_ok: "sem_inv m \<Longrightarrow> case Sem_Cancel n m of (r, k, m') \<Rightarrow> sem_inv m' \<and>
    same_limits m m' \<and> (r \<noteq> 0 \<longrightarrow> m' = m)"
  by (auto simp: Sem_Cancel_def sem_inv_def same_limits_def)

lemma Sem_Post_ok: "\<lbrakk>sem_inv m; Sem_Post n m = Some (r, m')\<rbrakk> \<Longrightarrow> sem_inv m' \<and> same_limits m m' \<and>
    (if r = 0 then 0 < n \<and> sm_count m' = sm_count m + n else m' = m)"
  by (auto simp: Sem_Post_def sem_inv_def same_limits_def i32_add_def split: if_splits option.splits)

lemma Sem_Post_defined: "\<lbrakk>sem_inv m; sm_max m + n < 2 ^ 31\<rbrakk> \<Longrightarrow> Sem_Post n m \<noteq> None"
  by (auto simp: Sem_Post_def sem_inv_def i32_add_def i32_ok_def)

text \<open>
  \<open>sem_run m net m'\<close>: a run of critical sections of any threads from \<open>m\<close> to \<open>m'\<close>, in which \<open>net\<close>
  is the units posted less the units taken. The last section of a blocking wait takes its units
  when there are enough; parking and unparking change the number of waiters only.
\<close>

inductive sem_run :: "sem \<Rightarrow> int \<Rightarrow> sem \<Rightarrow> bool" where
  sr_refl: "sem_run m 0 m"
| sr_post: "\<lbrakk>sem_run m net u; Sem_Post n u = Some (r, v)\<rbrakk> \<Longrightarrow>
    sem_run m (net + (if r = 0 then n else 0)) v"
| sr_try: "\<lbrakk>sem_run m net u; Sem_Trywait n u = Some (r, v)\<rbrakk> \<Longrightarrow>
    sem_run m (net - (if r = 0 then n else 0)) v"
| sr_take: "\<lbrakk>sem_run m net u; 0 < need; enough need u; i32_sub (sm_count u) need = Some c\<rbrakk> \<Longrightarrow>
    sem_run m (net - need) (u\<lparr>sm_count := c\<rparr>)"
| sr_park: "\<lbrakk>sem_run m net u\<rbrakk> \<Longrightarrow> sem_run m net (u\<lparr>sm_waiters := sm_waiters u + 1\<rparr>)"
| sr_unpark: "\<lbrakk>sem_run m net u\<rbrakk> \<Longrightarrow> sem_run m net (u\<lparr>sm_waiters := sm_waiters u - 1\<rparr>)"

lemma sem_run_inv: "sem_run m net u \<Longrightarrow> sem_inv m \<Longrightarrow>
    sem_inv u \<and> same_limits m u \<and> sm_count u = sm_count m + net"
proof (induction rule: sem_run.induct)
  case (sr_post m net u n r v)
  then show ?case using Sem_Post_ok[of u n r v] by (auto simp: same_limits_def)
next
  case (sr_try m net u n r v)
  then show ?case using Sem_Trywait_ok[of u n] by (auto simp: same_limits_def split: if_splits)
next
  case (sr_take m net u need c)
  then show ?case using sem_inv_take[of u need] by (auto simp: same_limits_def enough_def)
qed (auto simp: same_limits_def)

text \<open>A semaphore that is part of a larger state.\<close>

locale sem_cell =
  fixes rd :: "'s \<Rightarrow> sem option" and wr :: "sem \<Rightarrow> 's \<Rightarrow> 's"
  assumes rd_wr: "rd s = Some m \<Longrightarrow> rd (wr u s) = Some u"
begin

definition sinv :: "'s \<Rightarrow> bool" where
  "sinv s \<longleftrightarrow> (\<exists>m. rd s = Some m \<and> sem_inv m)"

definition skeeps :: "'s \<Rightarrow> 's \<Rightarrow> bool" where
  "skeeps s t \<longleftrightarrow> (\<forall>m. rd s = Some m \<longrightarrow> (\<exists>u. rd t = Some u \<and> same_limits m u))"

definition posts_and_takes :: "'s obs list \<Rightarrow> bool" where
  "posts_and_takes bs \<longleftrightarrow> (\<forall>b\<in>set bs. \<forall>s m. rd s = Some m \<longrightarrow>
     (\<exists>u net. rd (ob_env b s) = Some u \<and> sem_run m net u))"

lemma sem_monitor: "monitor skeeps"
  by unfold_locales (auto simp: skeeps_def same_limits_def) 

lemma behaved: "posts_and_takes bs \<Longrightarrow> monitor.well_behaved sinv skeeps bs"
  unfolding monitor.well_behaved_def[OF sem_monitor] posts_and_takes_def sinv_def skeeps_def
  using sem_run_inv by (metis option.inject)

definition sem_poll :: "int \<Rightarrow> u32 option \<Rightarrow> int \<Rightarrow> 's obs list \<Rightarrow> 's \<Rightarrow> (bool \<times> 's \<times> 's obs list) option" where
  "sem_poll need to now bs s =
     (let ready = (\<lambda>t. case rd t of None \<Rightarrow> False | Some u \<Rightarrow> enough need u)
      in case to of Some t \<Rightarrow> WaitFor (now + uint t) ready bs s | None \<Rightarrow> Wait ready bs s)"

lemma sem_wait_guarantee:
  assumes "posts_and_takes bs" and "rd s = Some m" and "sem_inv m"
    and "sem_poll need to now bs s = Some (ok, s', bs')"
  shows "\<exists>u. rd s' = Some u \<and> sem_inv u \<and> same_limits m u"
proof -
  have "sinv s" using assms(2,3) by (auto simp: sinv_def)
  then have "sinv s' \<and> skeeps s s'"
    using assms(4) monitor.WaitFor_guarantee[OF sem_monitor _ behaved[OF assms(1)]]
      monitor.Wait_guarantee[OF sem_monitor _ behaved[OF assms(1)]]
    by (cases to) (auto simp: sem_poll_def)
  then show ?thesis using assms(2) by (force simp: sinv_def skeeps_def)
qed

lemma sem_poll_cases:
  assumes "sem_poll need to now bs s = Some (ok, s', bs')" and "rd s' = Some u"
  shows "ok = enough need u" and "\<not> ok \<Longrightarrow> (case to of None \<Rightarrow> \<not> no_stop bs | Some t \<Rightarrow> expires (now + uint t) bs)"
proof -
  show "ok = enough need u"
  proof (cases to)
    case None
    then show ?thesis using assms by (auto simp: sem_poll_def dest!: Wait_ready)
  next
    case (Some t)
    then show ?thesis using assms by (auto simp: sem_poll_def dest!: WaitFor_ready)
  qed
  show "case to of None \<Rightarrow> \<not> no_stop bs | Some t \<Rightarrow> expires (now + uint t) bs" if "\<not> ok"
    using assms(1) that Wait_no_stop[of bs] WaitFor_False_expired
    by (cases to) (auto simp: sem_poll_def expires_def)
qed

lemma sem_wait_result:
  assumes s: "rd s = Some m" "sem_inv m" and env: "posts_and_takes bs"
    and ret: "Sem_Wait rd wr need to now bs s = Some (r, s', bs')"
  shows "\<exists>m'. rd s' = Some m' \<and> sem_inv m' \<and>
    (r = 0 \<and> 0 < need \<and> (\<exists>u. sem_inv u \<and> need \<le> sm_count u \<and> sm_count m' = sm_count u - need) \<or>
     r = neg_err eINVAL \<and> (need \<le> 0 \<or> sm_max m < need) \<and> s' = s \<or>
     r = neg_err eTIMEDOUT \<and> (case to of None \<Rightarrow> \<not> no_stop bs | Some t \<Rightarrow> expires (now + uint t) bs))"
proof (cases "need \<le> 0 \<or> sm_max m < need")
  case True
  then show ?thesis using ret s by (auto simp: Sem_Wait_def sem_inv_def split: if_splits)
next
  case False
  then have need: "0 < need" "\<not> (0 < sm_max m \<and> sm_max m < need)" by auto
  show ?thesis
  proof (cases "enough need m")
    case True
    then have t: "i32_sub (sm_count m) need = Some (sm_count m - need)"
        "sem_inv (m\<lparr>sm_count := sm_count m - need\<rparr>)"
      using sem_inv_take[OF s(2) need(1)] by (simp_all add: enough_def)
    then have "r = 0" "s' = wr (m\<lparr>sm_count := sm_count m - need\<rparr>) s"
      using ret s need True by (auto simp: Sem_Wait_def)
    then show ?thesis
      using rd_wr[OF s(1)] t(2) need(1) s(2) True by (auto simp: enough_def)
  next
    case ne: False
    let ?s1 = "wr (m\<lparr>sm_waiters := sm_waiters m + 1\<rparr>) s"
    obtain ok s2 where p: "sem_poll need to now bs ?s1 = Some (ok, s2, bs')"
      using ret s need ne
      by (auto simp: Sem_Wait_def sem_poll_def Let_def split: option.splits if_splits)
    obtain u where u: "rd s2 = Some u" "sem_inv u"
      using sem_wait_guarantee[OF env rd_wr[OF s(1)] _ p] s(2) by auto
    note pc = sem_poll_cases[OF p u(1)]
    have step: "Sem_Wait rd wr need to now bs s =
        (let u1 = u\<lparr>sm_waiters := sm_waiters u - 1\<rparr>
         in if \<not> ok then Some (neg_err eTIMEDOUT, wr u1 s2, bs')
            else map_option (\<lambda>c. (0, wr (u1\<lparr>sm_count := c\<rparr>) s2, bs')) (i32_sub (sm_count u) need))"
      using p s need ne u(1) unfolding Sem_Wait_def sem_poll_def by (auto simp: Let_def)
    show ?thesis
    proof (cases ok)
      case True
      then have "need \<le> sm_count u" using pc(1) by (simp add: enough_def)
      then show ?thesis
        using ret step True need(1) rd_wr[OF u(1)] u(2)
          sem_inv_take[of "u\<lparr>sm_waiters := sm_waiters u - 1\<rparr>" need]
        by (auto simp: Let_def)
    next
      case False
      then show ?thesis using ret step pc(2) rd_wr[OF u(1)] u(2) by (auto simp: Let_def)
    qed
  qed
qed

lemma sem_wait_returns:
  assumes s: "rd s = Some m" "sem_inv m" and env: "posts_and_takes bs"
    and ex: "expires (now + uint t) bs"
  shows "\<exists>r. Sem_Wait rd wr need (Some t) now bs s = Some r"
proof (cases "need \<le> 0 \<or> sm_max m < need \<or> enough need m")
  case True
  then show ?thesis
    using s sem_inv_take[OF s(2), of need] by (auto simp: Sem_Wait_def enough_def sem_inv_def)
next
  case False
  let ?s1 = "wr (m\<lparr>sm_waiters := sm_waiters m + 1\<rparr>) s"
  obtain ok s2 bs' where p: "sem_poll need (Some t) now bs ?s1 = Some (ok, s2, bs')"
    using WaitFor_returns[OF ex] unfolding sem_poll_def Let_def option.case by (metis prod_cases3)
  obtain u where u: "rd s2 = Some u" "sem_inv u"
    using sem_wait_guarantee[OF env rd_wr[OF s(1)] _ p] s(2) by auto
  have "ok \<longrightarrow> i32_sub (sm_count u) need \<noteq> None"
    using sem_poll_cases(1)[OF p u(1)] sem_inv_take[OF u(2), of need] False
    by (auto simp: enough_def)
  then show ?thesis
    using p s False u(1) unfolding Sem_Wait_def sem_poll_def by (auto simp: Let_def)
qed

end

interpretation sem_self: sem_cell Some "\<lambda>m s. m"
  by unfold_locales simp

section \<open>The registry of kernel semaphores\<close>

text \<open>Names are bound to live ids, and every id in use was handed out by the counter.\<close>

definition ksems_inv :: "ksems \<Rightarrow> bool" where
  "ksems_inv k \<longleftrightarrow> ran (ks_by_name k) \<subseteq> dom (ks_by_id k) \<and>
     (\<forall>i\<in>dom (ks_by_id k). 0 < i \<and> i < ks_next k) \<and> 0 < ks_next k \<and> ks_next k < 2 ^ 31"

datatype ksem_call = Kinit u32 | Kopen "string option" u32 u32 | Kunlink "string option" | Kclose int
  | Kpost int | Ktrywait int | Kgetvalue int | Kdestroy int

fun ksem_exec :: "ksem_call \<Rightarrow> ksems \<Rightarrow> ksems option" where
  "ksem_exec (Kinit v) k = Some (snd (snd (sys_ksem_init v k)))"
| "ksem_exec (Kopen n fl v) k = Some (snd (snd (sys_ksem_open n fl v k)))"
| "ksem_exec (Kunlink n) k = Some (snd (sys_ksem_unlink n k))"
| "ksem_exec (Kclose i) k = Some (snd (sys_ksem_close i k))"
| "ksem_exec (Kpost i) k = map_option snd (sys_ksem_post i k)"
| "ksem_exec (Ktrywait i) k = map_option snd (sys_ksem_trywait i k)"
| "ksem_exec (Kgetvalue i) k = Some k"
| "ksem_exec (Kdestroy i) k = Some (snd (sys_ksem_destroy i k))"

lemma next_id_eq: "ksems_inv k \<Longrightarrow> ks_next k + 1 < 2 ^ 31 \<Longrightarrow>
    next_id k = (ks_next k, k\<lparr>ks_next := ks_next k + 1\<rparr>)"
proof -
  assume "ksems_inv k" and *: "ks_next k + 1 < 2 ^ 31"
  then have "sint (word_of_int (ks_next k + 1) :: u32) = ks_next k + 1"
    by (simp add: sint_sbintrunc' ksems_inv_def signed_take_bit_int_eq_self del: of_int_add)
  then show ?thesis by (simp add: next_id_def)
qed

lemma ksems_inv_value: "\<lbrakk>ksems_inv k; ks_by_id k i = Some v\<rbrakk> \<Longrightarrow> ksems_inv (set_value i v' k)"
  by (auto simp: ksems_inv_def set_value_def)

lemma ran_upd_subset: "ran (f(a \<mapsto> b)) \<subseteq> insert b (ran f)"
  by (auto simp: ran_def)

lemma ksems_inv_create: "\<lbrakk>ksems_inv k; ks_next k + 1 < 2 ^ 31\<rbrakk> \<Longrightarrow>
    ksems_inv (k\<lparr>ks_next := ks_next k + 1, ks_by_id := (ks_by_id k)(ks_next k \<mapsto> v)\<rparr>)"
  unfolding ksems_inv_def by (simp, intro conjI ballI) (blast, simp add: less_imp_le)

lemma ksems_inv_name: "\<lbrakk>ksems_inv k; i \<in> dom (ks_by_id k)\<rbrakk> \<Longrightarrow>
    ksems_inv (k\<lparr>ks_by_name := (ks_by_name k)(n \<mapsto> i)\<rparr>)"
  using ran_upd_subset[of "ks_by_name k" n i] by (auto simp: ksems_inv_def)

lemma ksems_inv_names: "\<lbrakk>ksems_inv k; ran f \<subseteq> ran (ks_by_name k)\<rbrakk> \<Longrightarrow>
    ksems_inv (k\<lparr>ks_by_name := f\<rparr>)"
  unfolding ksems_inv_def by (simp add: subset_trans)

lemma ksem_exec_inv:
  assumes "ksem_exec c k = Some k'" and "ksems_inv k" and "ks_next k + 1 < 2 ^ 31"
  shows "ksems_inv k'"
proof (cases c)
  case (Kinit v)
  then have "k' = k\<lparr>ks_next := ks_next k + 1, ks_by_id := (ks_by_id k)(ks_next k \<mapsto> to_i32 v)\<rparr>"
    using assms by (simp add: sys_ksem_init_def next_id_eq)
  then show ?thesis using assms ksems_inv_create by simp
next
  case (Kopen n fl v)
  let ?k1 = "k\<lparr>ks_next := ks_next k + 1, ks_by_id := (ks_by_id k)(ks_next k \<mapsto> to_i32 v)\<rparr>"
  have "k' = k \<or> k' = ?k1\<lparr>ks_by_name := (ks_by_name ?k1)(ksem_key n \<mapsto> ks_next k)\<rparr>"
    using Kopen assms by (auto simp: sys_ksem_open_def next_id_eq split: option.splits if_splits)
  moreover have "ksems_inv (?k1\<lparr>ks_by_name := (ks_by_name ?k1)(ksem_key n \<mapsto> ks_next k)\<rparr>)"
    by (rule ksems_inv_name[OF ksems_inv_create[OF assms(2,3)]]) simp
  ultimately show ?thesis using assms(2) by auto
next
  case (Kunlink n)
  have "ran ((ks_by_name k)(m := None)) \<subseteq> ran (ks_by_name k)" for m by (auto simp: ran_def)
  then show ?thesis
    using Kunlink assms(1,2) ksems_inv_names[OF assms(2)]
    by (auto simp: sys_ksem_unlink_def simp del: ran_map_upd split: option.splits)
next
  case (Kdestroy i)
  let ?f = "\<lambda>n. if ks_by_name k n = Some i then None else ks_by_name k n"
  have "ran ?f \<subseteq> ran (ks_by_name k) - {i}" by (auto simp: ran_def split: if_splits)
  then have "ran ?f \<subseteq> dom (ks_by_id k) - {i}" using assms(2) by (fastforce simp: ksems_inv_def)
  then show ?thesis
    using Kdestroy assms(1,2)
    by (auto simp: sys_ksem_destroy_def ksems_inv_def dom_def split: option.splits if_splits)
qed (use assms in \<open>auto simp: sys_ksem_close_def sys_ksem_post_def sys_ksem_trywait_def
      intro: ksems_inv_value split: option.splits if_splits\<close>)

section \<open>Properties\<close>


lemmas sem_exec = Semaphore_new_def Sem_Post_def Sem_Trywait_def Sem_Wait_def Sem_Cancel_def
  enough_def i32_add_def i32_sub_def i32_ok_def



definition ex_sem :: sem where
  "ex_sem = Semaphore_new (Some ''SceJobs'') 0 8"


text \<open>
  \<open>Post\<close> tests the ceiling after computing \<open>count_ + n\<close>, so on a semaphore with the ceiling
  that \<open>sys_osem_open\<close> gives an auto-created one the sum overflows \<open>int\<close> when the semaphore is
  full, which is undefined behaviour; with a ceiling that leaves room for the sum it never does.
\<close>

theorem sem_post_overflow:
  "Sem_Post 1 ((Semaphore_new nm 0 0x7fffffff)\<lparr>sm_count := 0x7fffffff\<rparr>) = None \<and>
   (\<forall>m n. sem_inv m \<longrightarrow> sm_max m + n < 2 ^ 31 \<longrightarrow> Sem_Post n m \<noteq> None)"
  using Sem_Post_defined by (simp add: sem_exec)

theorem sem_post_overflow_witness:
  "sem_inv ex_sem \<and> Sem_Post 9 ex_sem \<noteq> None"
  using sem_post_overflow[of None] by (auto simp: ex_sem_def sem_inv_def Semaphore_new_def)

text \<open>
  \<open>Cancel\<close> does not wake a waiter with an error: it resets the count and lets every waiter
  test it again. A thread that waits for two units and is cancelled with a count of one goes
  back to sleep and later succeeds as if nothing had happened.
\<close>

theorem sem_cancel_not_delivered:
  "let cancel = (\<lambda>u. snd (snd (Sem_Cancel 1 u)));
       post = (\<lambda>u. case Sem_Post 1 u of None \<Rightarrow> u | Some (r, v) \<Rightarrow> v);
       poll = (\<lambda>f. \<lparr>ob_stop = False, ob_now = 0, ob_env = f\<rparr>)
   in fst (Sem_Cancel 1 (ex_sem\<lparr>sm_waiters := 1\<rparr>)) = 0 \<and>
      fst (snd (Sem_Cancel 1 (ex_sem\<lparr>sm_waiters := 1\<rparr>))) = Some 1 \<and>
      Sem_Wait Some (\<lambda>m s. m) 2 None 0 [poll cancel, poll id, poll id] ex_sem = None \<and>
      Sem_Wait Some (\<lambda>m s. m) 2 None 0 [poll cancel, poll id, poll post] ex_sem = Some (0, ex_sem, [])"
  by (simp add: ex_sem_def sem_exec)

text \<open>
  The registry of kernel semaphores stays consistent under every sequence of calls until
  the id counter is used up: every name is bound to a live semaphore, and a new semaphore gets
  an id that no live one has.
\<close>

theorem ksem_registry_inv:
  assumes "ksem_exec c k = Some k'" and "ksems_inv k" and "ks_next k + 1 < 2 ^ 31"
  shows "ksems_inv k' \<and> ks_by_id k (ks_next k) = None \<and> ksems_inv ksems_new"
proof -
  have "ks_by_id k (ks_next k) = None" using assms(2) by (force simp: ksems_inv_def)
  then show ?thesis
    using ksem_exec_inv[OF assms] by (simp add: ksems_inv_def ksems_new_def)
qed

theorem ksem_registry_inv_witness:
  "\<exists>k'. ksem_exec (Kopen (Some ''a'') 0x200 3) ksems_new = Some k' \<and> ksems_inv k' \<and>
     ks_by_name k' ''a'' = Some 1 \<and> ks_by_id k' 1 = Some 3"
proof -
  let ?k = "snd (snd (sys_ksem_open (Some ''a'') 0x200 3 ksems_new))"
  have "ksems_inv ksems_new" by (simp add: ksems_inv_def ksems_new_def)
  from ksem_registry_inv[of "Kopen (Some ''a'') 0x200 3" ksems_new ?k, OF _ this]
  show ?thesis
    by (simp add: ksems_new_def)
      (simp add: sys_ksem_open_def next_id_def kO_CREAT_def ksem_key_def to_i32_def)
qed

text \<open>
  \<open>sys_ksem_trywait\<close> tests for zero instead of for positive, so a semaphore whose value is
  negative is taken successfully; an untimed wait that the session's stop cuts short drives the
  value of an empty semaphore to -1.
\<close>

theorem ksem_negative:
  "sys_ksem_trywait 1 (set_value 1 (- 1) ksems_new) = Some (0, set_value 1 (- 2) ksems_new) \<and>
   sys_ksem_wait 1 [\<lparr>ob_stop = True, ob_now = 0, ob_env = id\<rparr>] (set_value 1 0 ksems_new) =
     Some (0, set_value 1 (- 1) ksems_new, [])"
  by (simp add: sys_ksem_trywait_def sys_ksem_wait_def set_value_def i32_sub_def i32_ok_def
      ksem_ready_def ksem_take_def)

text \<open>
  \<open>sys_ksem_destroy\<close> does not serialise with a thread that sleeps in \<open>sys_ksem_wait\<close>: the
  sleep has released the semaphore's mutex, so the semaphore is deleted under the waiter, whose
  next test of the value finds no object.
\<close>

theorem ksem_destroy_under_waiter:
  "let destroy = (\<lambda>k. snd (sys_ksem_destroy 1 k)); k = set_value 1 0 ksems_new;
       bs = [\<lparr>ob_stop = False, ob_now = 0, ob_env = destroy\<rparr>]
   in fst (sys_ksem_destroy 1 k) = 0 \<and> ks_by_id (destroy k) 1 = None \<and>
      Wait (ksem_ready 1) bs k = Some (True, destroy k, []) \<and> sys_ksem_wait 1 bs k = None"
  by (simp add: sys_ksem_wait_def sys_ksem_destroy_def set_value_def ksem_ready_def ksem_take_def)

end
