(* ===== verification/Equeue.thy ===== *)
theory Equeue
  imports Session
begin

text \<open>
  Event queues of \<open>delta/kern/lv2/sys_event.{h,cc}\<close>: the class \<open>Equeue\<close>, the registry of live
  queues, the sources that post to them (GPU end of pipe, flips, the vblank pump, sockets) and
  the session reset. The syscalls on handles are in the theory of the kernel calls.

  The state is the file's globals together with the queues, by address. \<open>i64\<close> data is kept as the
  64-bit pattern. The TSC nonce, the clock and whether a descriptor is a socket are arguments.
\<close>

section \<open>Data\<close>

record kevent_t =
  ke_ident :: u64
  ke_filter :: int
  ke_flags :: u16
  ke_fflags :: u32
  ke_data :: u64
  ke_udata :: u64

definition kEV_ADD :: u16 where "kEV_ADD = 0x0001"
definition kEV_DELETE :: u16 where "kEV_DELETE = 0x0002"
definition kEV_ENABLE :: u16 where "kEV_ENABLE = 0x0004"
definition kEV_DISABLE :: u16 where "kEV_DISABLE = 0x0008"
definition kEV_ONESHOT :: u16 where "kEV_ONESHOT = 0x0010"
definition kEV_CLEAR :: u16 where "kEV_CLEAR = 0x0020"

definition kEVFILT_READ :: int where "kEVFILT_READ = - 1"
definition kEVFILT_USER :: int where "kEVFILT_USER = - 11"
definition kNOTE_TRIGGER :: u32 where "kNOTE_TRIGGER = 0x01000000"
definition kEVFILT_DISPLAY :: int where "kEVFILT_DISPLAY = - 13"
definition kEVFILT_VIDEOOUT :: int where "kEVFILT_VIDEOOUT = - 14"
definition kGnmIdentMax :: u64 where "kGnmIdentMax = 0x10000"

record knote =
  kn_ev :: kevent_t
  kn_active :: bool
  kn_eop_seen :: u64

record equeue =
  eq_name :: string
  eq_notes :: "knote list"
  eq_warned_empty_wait :: bool
  eq_idle_since :: "int option"
  eq_reported_idle :: bool

record evworld =
  ew_queues :: "nat \<rightharpoonup> equeue"
  ew_reg :: "nat list"
  ew_vblank_started :: bool
  ew_flip_count :: u64
  ew_watched :: "u32 list"
  ew_watch_started :: bool
  ew_eop_seq :: u64
  ew_last_eop_data :: u64
  ew_eop_raw :: bool
  ew_last_eop_ctx :: u64

definition upd_queue :: "nat \<Rightarrow> (equeue \<Rightarrow> equeue) \<Rightarrow> evworld \<Rightarrow> evworld" where
  "upd_queue q f w = w\<lparr>ew_queues := (ew_queues w)(q := map_option f (ew_queues w q))\<rparr>"

definition upd_notes :: "nat \<Rightarrow> (knote list \<Rightarrow> knote list) \<Rightarrow> evworld \<Rightarrow> evworld" where
  "upd_notes q f w = upd_queue q (\<lambda>e. e\<lparr>eq_notes := f (eq_notes e)\<rparr>) w"

section \<open>Knotes\<close>

definition note_key :: "knote \<Rightarrow> u64 \<times> int" where
  "note_key k = (ke_ident (kn_ev k), ke_filter (kn_ev k))"

text \<open>\<open>Find\<close> and an update through the pointer it returns: the first knote with the key.\<close>

definition has_note :: "u64 \<Rightarrow> int \<Rightarrow> knote list \<Rightarrow> bool" where
  "has_note ident filter' ks \<longleftrightarrow> list_ex (\<lambda>k. note_key k = (ident, filter')) ks"

fun upd_note :: "u64 \<Rightarrow> int \<Rightarrow> (knote \<Rightarrow> knote) \<Rightarrow> knote list \<Rightarrow> knote list" where
  "upd_note ident filter' f [] = []"
| "upd_note ident filter' f (k # ks) =
     (if note_key k = (ident, filter') then f k # ks else k # upd_note ident filter' f ks)"

fun erase_note :: "u64 \<Rightarrow> int \<Rightarrow> knote list \<Rightarrow> knote list" where
  "erase_note ident filter' [] = []"
| "erase_note ident filter' (k # ks) =
     (if note_key k = (ident, filter') then ks else k # erase_note ident filter' ks)"

definition register_note :: "kevent_t \<Rightarrow> knote list \<Rightarrow> knote list" where
  "register_note c ks =
     (if has_note (ke_ident c) (ke_filter c) ks
      then upd_note (ke_ident c) (ke_filter c) (\<lambda>k. k\<lparr>kn_ev := c, kn_active := False\<rparr>) ks
      else ks @ [\<lparr>kn_ev = c, kn_active = False, kn_eop_seen = 0\<rparr>])"

definition user_trigger :: "kevent_t \<Rightarrow> knote list \<Rightarrow> knote list" where
  "user_trigger c ks = upd_note (ke_ident c) (ke_filter c)
     (\<lambda>k. k\<lparr>kn_active := True,
            kn_ev := (kn_ev k)\<lparr>ke_data := ke_data c,
              ke_udata := (if ke_udata c \<noteq> 0 then ke_udata c else ke_udata (kn_ev k))\<rparr>\<rparr>) ks"

definition StartVblankPump :: "evworld \<Rightarrow> evworld" where
  "StartVblankPump w = w\<lparr>ew_vblank_started := True\<rparr>"

definition WatchSocket :: "(u32 \<Rightarrow> bool) \<Rightarrow> u32 \<Rightarrow> evworld \<Rightarrow> evworld" where
  "WatchSocket is_socket fd w =
     (if \<not> is_socket fd then w
      else if fd \<in> set (ew_watched w) then w
      else w\<lparr>ew_watched := ew_watched w @ [fd], ew_watch_started := True\<rparr>)"

definition is_vblank_filter :: "int \<Rightarrow> bool" where
  "is_vblank_filter f \<longleftrightarrow> f = kEVFILT_DISPLAY \<or> f = kEVFILT_VIDEOOUT \<or> f = - 15"

text \<open>One element of the changelist.\<close>

definition apply_change :: "(u32 \<Rightarrow> bool) \<Rightarrow> nat \<Rightarrow> kevent_t \<Rightarrow> evworld \<Rightarrow> evworld" where
  "apply_change is_socket q c w =
     (if ke_flags c AND kEV_DELETE \<noteq> 0
      then upd_notes q (erase_note (ke_ident c) (ke_filter c)) w
      else if ke_filter c = kEVFILT_USER \<and> ke_fflags c AND kNOTE_TRIGGER \<noteq> 0
      then upd_notes q (user_trigger c) w
      else
        let w1 = upd_notes q (register_note c) w;
            w2 = (if is_vblank_filter (ke_filter c) then StartVblankPump w1 else w1)
        in if ke_filter c = kEVFILT_READ then WatchSocket is_socket (ucast (ke_ident c)) w2 else w2)"

section \<open>Collecting\<close>

fun collect :: "int \<Rightarrow> u64 \<Rightarrow> knote list \<Rightarrow> kevent_t list \<times> knote list" where
  "collect nout eop [] = ([], [])"
| "collect nout eop (k # ks) =
     (if nout \<le> 0 then ([], k # ks)
      else if \<not> kn_active k then let (out, ks') = collect nout eop ks in (out, k # ks')
      else let (out, ks') = collect (nout - 1) eop ks
           in (kn_ev k # out, k\<lparr>kn_active := False, kn_eop_seen := eop\<rparr> # ks'))"

definition is_gnm :: "knote \<Rightarrow> bool" where
  "is_gnm k \<longleftrightarrow> ke_filter (kn_ev k) = kEVFILT_VIDEOOUT \<and> ke_ident (kn_ev k) < kGnmIdentMax"

definition fire :: "u64 \<Rightarrow> knote \<Rightarrow> knote" where
  "fire data k = k\<lparr>kn_active := True, kn_ev := (kn_ev k)\<lparr>ke_data := data\<rparr>\<rparr>"

definition gnm_data :: "bool \<Rightarrow> u64 \<Rightarrow> u64 \<Rightarrow> u64" where
  "gnm_data raw data ident = (if raw then data else (data AND NOT 0xFFFF) OR ident)"

text \<open>The diagnostic pump, and the re-arm of knotes that missed an end of pipe.\<close>

definition eop_pump :: "u64 \<Rightarrow> knote list \<Rightarrow> knote list" where
  "eop_pump ctx ks = map (\<lambda>k. if kn_active k \<or> \<not> is_gnm k then k else fire ctx k) ks"

definition rearm :: "evworld \<Rightarrow> knote list \<Rightarrow> knote list" where
  "rearm w ks = map (\<lambda>k.
     if kn_active k \<or> \<not> is_gnm k \<or> ew_eop_seq w \<le> kn_eop_seen k then k
     else fire (if ew_eop_raw w then ew_last_eop_ctx w
                else gnm_data False (ew_last_eop_data w) (ke_ident (kn_ev k))) k) ks"

definition any_active :: "nat \<Rightarrow> evworld \<Rightarrow> bool" where
  "any_active q w = (case ew_queues w q of None \<Rightarrow> False | Some e \<Rightarrow> list_ex kn_active (eq_notes e))"

text \<open>\<open>collect\<close> on the queue in place: the events and the new state.\<close>

definition collect_at :: "nat \<Rightarrow> int \<Rightarrow> evworld \<Rightarrow> (kevent_t list \<times> evworld) option" where
  "collect_at q nout w =
     (case ew_queues w q of None \<Rightarrow> None
      | Some e \<Rightarrow> let (out, ks) = collect nout (ew_eop_seq w) (eq_notes e)
                  in Some (out, upd_notes q (\<lambda>_. ks) w))"

section \<open>Kevent\<close>

record kevent_opts =
  ko_eop_pump_ms :: int
  ko_stall_secs :: int

record kevent_clock =
  kc_until :: int
  kc_rem :: int
  kc_wait :: int
  kc_now :: int

definition dur_us :: "int \<times> int \<Rightarrow> int" where
  "dur_us to = fst to * 1000000 +
     (if snd to < 0 then - ((- snd to) div 1000) else snd to div 1000)"

text \<open>The wait for a ready knote: \<open>(ready, state, rest of the schedule)\<close>.\<close>

definition kevent_wait ::
  "kevent_opts \<Rightarrow> kevent_clock \<Rightarrow> (int \<times> int) option \<Rightarrow> nat \<Rightarrow> evworld obs list \<Rightarrow> evworld
     \<Rightarrow> (bool \<times> evworld \<times> evworld obs list) option" where
  "kevent_wait opts clk to q bs w =
     (case to of
        Some t \<Rightarrow> WaitFor (kc_wait clk + dur_us t) (any_active q) bs w
      | None \<Rightarrow>
          map_option (\<lambda>(_, w', bs'). (True, w', bs'))
            (if 0 < ko_stall_secs opts
             then (case WaitFor (kc_wait clk + (kc_until clk + ko_stall_secs opts * 1000000 - kc_rem clk))
                          (any_active q) bs w of
                     None \<Rightarrow> None
                   | Some (ok, w', bs') \<Rightarrow>
                       if ok then Some (ok, w', bs') else Wait (any_active q) bs' w')
             else Wait (any_active q) bs w))"

text \<open>The bookkeeping of a timed-out wait.\<close>

definition note_idle :: "kevent_opts \<Rightarrow> int \<Rightarrow> equeue \<Rightarrow> equeue" where
  "note_idle opts now e =
     (let since = (case eq_idle_since e of None \<Rightarrow> now | Some t \<Rightarrow> t)
      in e\<lparr>eq_idle_since := Some since,
           eq_reported_idle := (eq_reported_idle e \<or>
             0 < ko_stall_secs opts \<and> ko_stall_secs opts * 1000000 \<le> now - since)\<rparr>)"

definition prepare :: "kevent_opts \<Rightarrow> (u32 \<Rightarrow> bool) \<Rightarrow> nat \<Rightarrow> kevent_t list \<Rightarrow> int \<Rightarrow> evworld \<Rightarrow> evworld" where
  "prepare opts is_socket q changes nout w =
     (let w1 = fold (apply_change is_socket q) changes w
      in if nout \<le> 0 then w1
         else let w2 = (if 0 < ko_eop_pump_ms opts then upd_notes q (eop_pump (ew_last_eop_ctx w1)) w1 else w1)
              in upd_notes q (rearm w2) w2)"

definition Kevent ::
  "kevent_opts \<Rightarrow> kevent_clock \<Rightarrow> (u32 \<Rightarrow> bool) \<Rightarrow> nat \<Rightarrow> kevent_t list \<Rightarrow> int \<Rightarrow> (int \<times> int) option
     \<Rightarrow> evworld obs list \<Rightarrow> evworld \<Rightarrow> (kevent_t list \<times> evworld \<times> evworld obs list) option" where
  "Kevent opts clk is_socket q changes nout to bs w =
     (let w2 = prepare opts is_socket q changes nout w
      in if nout \<le> 0 then Some ([], w2, bs)
         else case collect_at q nout w2 of None \<Rightarrow> None
         | Some (got, w3) \<Rightarrow>
             if got \<noteq> [] then Some (got, w3, bs)
             else
               let w4 = (if to = None then upd_queue q (\<lambda>e. if eq_notes e = []
                            then e\<lparr>eq_warned_empty_wait := True\<rparr> else e) w3 else w3)
               in case kevent_wait opts clk to q bs w4 of
                    None \<Rightarrow> None
                  | Some (ready, w5, bs') \<Rightarrow>
                      if \<not> ready then Some ([], upd_queue q (note_idle opts (kc_now clk)) w5, bs')
                      else map_option (\<lambda>(got, w6). (got, w6, bs'))
                             (collect_at q nout (upd_queue q (\<lambda>e. e\<lparr>eq_idle_since := None,
                                                   eq_reported_idle := False\<rparr>) w5)))"

section \<open>Other operations\<close>

definition Equeue_new :: "string option \<Rightarrow> equeue" where
  "Equeue_new nm = \<lparr>eq_name = (case nm of None \<Rightarrow> [] | Some n \<Rightarrow> n), eq_notes = [],
     eq_warned_empty_wait = False, eq_idle_since = None, eq_reported_idle = False\<rparr>"

definition equeue_ctor :: "nat \<Rightarrow> string option \<Rightarrow> evworld \<Rightarrow> evworld" where
  "equeue_ctor q nm w = w\<lparr>ew_queues := (ew_queues w)(q \<mapsto> Equeue_new nm), ew_reg := ew_reg w @ [q]\<rparr>"

definition equeue_dtor :: "nat \<Rightarrow> evworld \<Rightarrow> evworld" where
  "equeue_dtor q w = w\<lparr>ew_queues := (ew_queues w)(q := None), ew_reg := remove1 q (ew_reg w)\<rparr>"

definition AddEvent :: "nat \<Rightarrow> u64 \<Rightarrow> int \<Rightarrow> u64 \<Rightarrow> evworld \<Rightarrow> evworld" where
  "AddEvent q ident filter' udata w =
     (let ev = \<lparr>ke_ident = ident, ke_filter = filter', ke_flags = kEV_CLEAR, ke_fflags = 0, ke_data = 0,
                ke_udata = udata\<rparr>;
          w1 = upd_notes q (register_note ev) w
      in if is_vblank_filter filter' then StartVblankPump w1 else w1)"

definition RemoveEvent :: "nat \<Rightarrow> u64 \<Rightarrow> int \<Rightarrow> evworld \<Rightarrow> bool \<times> evworld" where
  "RemoveEvent q ident filter' w =
     ((case ew_queues w q of None \<Rightarrow> False | Some e \<Rightarrow> has_note ident filter' (eq_notes e)),
      upd_notes q (erase_note ident filter') w)"

definition TriggerGnm :: "u64 \<Rightarrow> bool \<Rightarrow> nat \<Rightarrow> evworld \<Rightarrow> evworld" where
  "TriggerGnm data raw_data q w = upd_notes q (map (\<lambda>k.
     if \<not> is_gnm k then k else fire (gnm_data raw_data data (ke_ident (kn_ev k))) k)) w"

text \<open>Whether \<open>Trigger\<close> fires a knote; \<open>kIdent0Vblank\<close> is the option \<open>DELTA_PS5_IDENT0_VBLANK\<close>.\<close>

definition trigger_match :: "bool \<Rightarrow> int \<Rightarrow> int \<Rightarrow> bool \<Rightarrow> knote \<Rightarrow> bool" where
  "trigger_match kIdent0Vblank ident filter' vblank k \<longleftrightarrow>
     (if filter' \<noteq> 0 \<and> ke_filter (kn_ev k) \<noteq> filter' then False
      else if 0 \<le> ident \<and> ke_ident (kn_ev k) \<noteq> word_of_int ident then False
      else if filter' = kEVFILT_VIDEOOUT \<and> ke_ident (kn_ev k) < kGnmIdentMax \<and>
              \<not> (kIdent0Vblank \<and> ke_ident (kn_ev k) = 0) then False
      else if filter' = kEVFILT_DISPLAY \<and> (drop_bit 48 (ke_ident (kn_ev k)) = 7) \<noteq> vblank then False
      else True)"

definition Trigger :: "bool \<Rightarrow> int \<Rightarrow> int \<Rightarrow> u64 \<Rightarrow> bool \<Rightarrow> nat \<Rightarrow> evworld \<Rightarrow> evworld" where
  "Trigger kIdent0Vblank ident filter' data vblank q w = upd_notes q (map (\<lambda>k.
     if trigger_match kIdent0Vblank ident filter' vblank k then fire data k else k)) w"

definition TriggerAllEqueues :: "bool \<Rightarrow> int \<Rightarrow> int \<Rightarrow> u64 \<Rightarrow> bool \<Rightarrow> evworld \<Rightarrow> evworld" where
  "TriggerAllEqueues kIdent0Vblank ident filter' data vblank w =
     fold (Trigger kIdent0Vblank ident filter' data vblank) (ew_reg w) w"

text \<open>The counter above bit 16, a sequence from 1 to 14 in bits 12 to 15, the nonce below.\<close>

definition pack_event :: "u64 \<Rightarrow> u64 \<Rightarrow> u64 \<Rightarrow> u64" where
  "pack_event count seq nonce = push_bit 16 count OR push_bit 12 seq OR (nonce AND 0xFFF)"

definition NoteGpuEndOfPipe :: "u64 \<Rightarrow> evworld \<Rightarrow> evworld" where
  "NoteGpuEndOfPipe nonce w =
     (let n = ew_eop_seq w + 1;
          data = pack_event n ((n - 1) mod 14 + 1) nonce;
          w1 = w\<lparr>ew_eop_seq := n, ew_last_eop_data := data\<rparr>
      in fold (TriggerGnm data False) (ew_reg w1) w1)"

definition NoteGpuEndOfPipeCtx :: "u64 \<Rightarrow> evworld \<Rightarrow> evworld" where
  "NoteGpuEndOfPipeCtx context_id w =
     (let w1 = w\<lparr>ew_eop_seq := ew_eop_seq w + 1, ew_last_eop_ctx := context_id, ew_eop_raw := True\<rparr>
      in fold (TriggerGnm context_id True) (ew_reg w1) w1)"

definition NoteFlip :: "bool \<Rightarrow> u64 \<Rightarrow> evworld \<Rightarrow> evworld" where
  "NoteFlip kIdent0Vblank nonce w =
     (let idx = ew_flip_count w;
          w1 = w\<lparr>ew_flip_count := idx + 1\<rparr>
      in TriggerAllEqueues kIdent0Vblank (- 1) kEVFILT_DISPLAY (pack_event idx (idx mod 14 + 1) nonce) False w1)"

text \<open>One round of the vblank pump; \<open>count\<close> is the tick and \<open>emulate\<close> is \<open>kEmulateTiming\<close>.\<close>

definition vblank_tick :: "bool \<Rightarrow> bool \<Rightarrow> u64 \<Rightarrow> u64 \<Rightarrow> evworld \<Rightarrow> evworld" where
  "vblank_tick kIdent0Vblank emulate count nonce w =
     (let trig = TriggerAllEqueues kIdent0Vblank;
          w1 = trig 1 (- 15) count False w;
          vdata = pack_event count ((count - 1) mod 14 + 1) nonce;
          w2 = trig (- 1) kEVFILT_DISPLAY vdata True (trig (- 1) kEVFILT_VIDEOOUT vdata False w1);
          flips = ew_flip_count w2
      in if 0 < flips \<and> \<not> emulate
         then let idx = flips - 1
              in trig (- 1) kEVFILT_DISPLAY (pack_event idx (idx mod 14 + 1) nonce) False w2
         else w2)"

text \<open>One round of the socket poll: \<open>readable\<close> are the watched descriptors \<open>select\<close> reports.\<close>

definition watch_round :: "bool \<Rightarrow> u32 list \<Rightarrow> evworld \<Rightarrow> evworld" where
  "watch_round kIdent0Vblank readable w =
     fold (\<lambda>fd. TriggerAllEqueues kIdent0Vblank (uint fd) kEVFILT_READ 1 False) readable w"

definition event_session_reset :: "evworld \<Rightarrow> evworld" where
  "event_session_reset w = w\<lparr>ew_reg := [], ew_vblank_started := False, ew_flip_count := 0,
     ew_watched := [], ew_watch_started := False, ew_eop_seq := 0, ew_last_eop_data := 0,
     ew_eop_raw := False\<rparr>"

section \<open>Knote lists\<close>

lemma fire_key [simp]: "note_key (fire d k) = note_key k" "kn_active (fire d k)"
    "kn_eop_seen (fire d k) = kn_eop_seen k"
  by (simp_all add: note_key_def fire_def)

lemma upd_note_keys: "(\<And>k. note_key k = (i, f) \<Longrightarrow> note_key (g k) = note_key k) \<Longrightarrow>
    map note_key (upd_note i f g ks) = map note_key ks"
  by (induction ks) auto

lemma erase_note_set: "set (erase_note i f ks) \<subseteq> set ks"
  by (induction ks) auto

lemma erase_note_keys: "map note_key (erase_note i f ks) = remove1 (i, f) (map note_key ks)"
  by (induction ks) auto

lemma has_note_iff: "has_note i f ks \<longleftrightarrow> (i, f) \<in> note_key ` set ks"
  by (force simp: has_note_def list_ex_iff)

lemma register_note_keys: "map note_key (register_note c ks) =
    (if has_note (ke_ident c) (ke_filter c) ks then map note_key ks
     else map note_key ks @ [(ke_ident c, ke_filter c)])"
  unfolding register_note_def by (auto intro!: upd_note_keys simp: note_key_def)

lemma user_trigger_keys: "map note_key (user_trigger c ks) = map note_key ks"
  unfolding user_trigger_def by (rule upd_note_keys) (simp add: note_key_def)

definition keyed :: "knote list \<Rightarrow> bool" where
  "keyed ks \<longleftrightarrow> distinct (map note_key ks)"

lemma keyed_change:
  "keyed ks \<Longrightarrow> keyed (register_note c ks)" "keyed ks \<Longrightarrow> keyed (user_trigger c ks)"
  "keyed ks \<Longrightarrow> keyed (erase_note i f ks)" "keyed []"
  by (auto simp: keyed_def register_note_keys user_trigger_keys erase_note_keys has_note_iff)

lemma keyed_map: "(\<And>k. note_key (g k) = note_key k) \<Longrightarrow> keyed (map g ks) = keyed ks"
  by (simp add: keyed_def comp_def)

lemma collect_spec: "collect n eop ks = (out, ks') \<Longrightarrow>
    out = map kn_ev (take (nat n) (filter kn_active ks)) \<and>
    filter kn_active ks' = drop (nat n) (filter kn_active ks) \<and>
    map note_key ks' = map note_key ks \<and>
    map (\<lambda>k. k\<lparr>kn_active := False, kn_eop_seen := 0\<rparr>) ks' =
      map (\<lambda>k. k\<lparr>kn_active := False, kn_eop_seen := 0\<rparr>) ks"
proof (induction n eop ks arbitrary: out ks' rule: collect.induct)
  case (2 n eop k ks)
  show ?case
  proof (cases "n \<le> 0")
    case False
    then have n: "nat n = Suc (nat (n - 1))" by simp
    show ?thesis
    proof (cases "kn_active k")
      case True
      obtain o1 k1 where "collect (n - 1) eop ks = (o1, k1)" by fastforce
      with 2 True False show ?thesis by (auto simp: n note_key_def)
    next
      case inactive: False
      obtain o1 k1 where "collect n eop ks = (o1, k1)" by fastforce
      with 2 inactive False show ?thesis by auto
    qed
  qed (use 2 in auto)
qed simp

section \<open>Queues under concurrent use\<close>

definition eqs_inv :: "evworld \<Rightarrow> bool" where
  "eqs_inv w \<longleftrightarrow> (\<forall>q e. ew_queues w q = Some e \<longrightarrow> keyed (eq_notes e))"

definition alive :: "nat \<Rightarrow> evworld \<Rightarrow> bool" where
  "alive q w \<longleftrightarrow> ew_queues w q \<noteq> None"

definition still_alive :: "nat \<Rightarrow> evworld \<Rightarrow> evworld \<Rightarrow> bool" where
  "still_alive q w w' \<longleftrightarrow> (alive q w \<longrightarrow> alive q w')"

interpretation eq_mon: monitor eqs_inv "still_alive q" for q
  by unfold_locales (auto simp: still_alive_def)

lemma upd_queue_ok: "(\<And>e. keyed (eq_notes e) \<Longrightarrow> keyed (eq_notes (f e))) \<Longrightarrow> eqs_inv w \<Longrightarrow>
    eqs_inv (upd_queue q f w) \<and> still_alive r w (upd_queue q f w)"
  by (auto simp: eqs_inv_def upd_queue_def still_alive_def alive_def split: if_splits)

lemma upd_notes_ok: "(\<And>ks. keyed ks \<Longrightarrow> keyed (f ks)) \<Longrightarrow> eqs_inv w \<Longrightarrow>
    eqs_inv (upd_notes q f w) \<and> still_alive r w (upd_notes q f w)"
  unfolding upd_notes_def by (rule upd_queue_ok) auto

lemma same_queues_ok: "ew_queues w' = ew_queues w \<Longrightarrow> eqs_inv w' = eqs_inv w \<and> still_alive r w w'"
  by (simp add: eqs_inv_def still_alive_def alive_def)

lemma still_trans: "\<lbrakk>still_alive r a b; still_alive r b c\<rbrakk> \<Longrightarrow> still_alive r a c"
  by (rule eq_mon.R_trans)

definition ok_op :: "(evworld \<Rightarrow> evworld) \<Rightarrow> bool" where
  "ok_op f \<longleftrightarrow> (\<forall>w r. eqs_inv w \<longrightarrow> eqs_inv (f w) \<and> still_alive r w (f w))"

named_theorems ok_ops \<open>operations that keep the queues well formed and alive\<close>

lemma ok_op_notes [ok_ops]: "(\<And>ks. keyed ks \<Longrightarrow> keyed (f ks)) \<Longrightarrow> ok_op (upd_notes q f)"
  unfolding ok_op_def using upd_notes_ok by blast

lemma ok_op_comp: "\<lbrakk>ok_op f; ok_op g\<rbrakk> \<Longrightarrow> ok_op (\<lambda>w. g (f w))"
  unfolding ok_op_def using still_trans by blast

lemma ok_op_id [ok_ops]: "ok_op (\<lambda>w. w)"
  by (simp add: ok_op_def still_alive_def)

lemma ok_op_fold: "(\<And>x. ok_op (f x)) \<Longrightarrow> ok_op (fold f xs)"
proof (induction xs)
  case (Cons x xs)
  have "ok_op (\<lambda>w. fold f xs (f x w))"
    by (rule ok_op_comp[OF Cons.prems Cons.IH[OF Cons.prems]])
  moreover have "fold f (x # xs) = (\<lambda>w. fold f xs (f x w))" by (simp add: fun_eq_iff)
  ultimately show ?case by simp
qed (simp add: ok_op_def still_alive_def)

lemma ok_opD: "\<lbrakk>ok_op f; eqs_inv w\<rbrakk> \<Longrightarrow> eqs_inv (f w)" "\<lbrakk>ok_op f; eqs_inv w; alive r w\<rbrakk> \<Longrightarrow> alive r (f w)"
  by (auto simp: ok_op_def still_alive_def)

lemma ok_op_same [ok_ops]: "(\<And>w. ew_queues (f w) = ew_queues w) \<Longrightarrow> ok_op f"
  by (simp add: ok_op_def eqs_inv_def still_alive_def alive_def)

lemma ok_op_if: "\<lbrakk>ok_op f; ok_op g\<rbrakk> \<Longrightarrow> ok_op (\<lambda>w. if b then f w else g w)"
  by (cases b) simp_all

lemma ok_op_pump: "ok_op StartVblankPump"
  by (rule ok_op_same) (simp add: StartVblankPump_def)

lemma ok_op_watch: "ok_op (WatchSocket sk fd)"
  by (rule ok_op_same) (simp add: WatchSocket_def)

lemma ok_op_register: "ok_op (upd_notes q (register_note c))"
  by (rule ok_op_notes) (rule keyed_change)

lemma ok_op_change: "ok_op (apply_change sk q c)"
proof -
  have "ok_op (upd_notes q (erase_note (ke_ident c) (ke_filter c)))"
      "ok_op (upd_notes q (user_trigger c))"
    by (rule ok_op_notes, erule keyed_change)+
  then show ?thesis
    unfolding apply_change_def Let_def
    by (intro ok_op_if ok_op_comp[OF _ ok_op_watch] ok_op_comp[OF ok_op_register ok_op_pump]
        ok_op_register)
qed

lemma ok_op_map: "(\<And>k. note_key (g k) = note_key k) \<Longrightarrow> ok_op (upd_notes q (map g))"
  by (rule ok_op_notes) (simp add: keyed_map)

lemma ok_op_trigger: "ok_op (Trigger b i f d v q)"
  unfolding Trigger_def by (rule ok_op_map) simp

lemma ok_op_gnm: "ok_op (TriggerGnm d r q)"
  unfolding TriggerGnm_def by (rule ok_op_map) simp

lemma ok_op_all: "ok_op (TriggerAllEqueues b i f d v)"
proof -
  have "ok_op (fold (Trigger b i f d v) qs)" for qs by (rule ok_op_fold) (rule ok_op_trigger)
  then show ?thesis unfolding ok_op_def TriggerAllEqueues_def by blast
qed

lemma ok_op_rearm: "ok_op (\<lambda>w. upd_notes q (rearm w) w)"
  unfolding ok_op_def by (intro allI impI upd_notes_ok) (simp_all add: rearm_def keyed_map)

lemma ok_op_eop_pump: "ok_op (\<lambda>w. upd_notes q (eop_pump (ew_last_eop_ctx w)) w)"
  unfolding ok_op_def by (intro allI impI upd_notes_ok) (simp_all add: eop_pump_def keyed_map)

lemma ok_op_collect: "collect_at q n w = Some (out, w') \<Longrightarrow> eqs_inv w \<Longrightarrow> eqs_inv w' \<and> still_alive r w w'"
proof -
  assume c: "collect_at q n w = Some (out, w')" and inv: "eqs_inv w"
  then obtain e ks where e: "ew_queues w q = Some e"
      "collect n (ew_eop_seq w) (eq_notes e) = (out, ks)" "w' = upd_notes q (\<lambda>_. ks) w"
    by (auto simp: collect_at_def split: option.splits prod.splits)
  then have "keyed ks" using collect_spec[OF e(2)] inv by (auto simp: keyed_def eqs_inv_def)
  then show ?thesis using e(3) inv upd_notes_ok[of "\<lambda>_. ks"] by simp
qed

text \<open>
  What other threads may do to the queues while \<open>Kevent\<close> sleeps on \<open>q\<close>: every operation of this
  file except the destruction of \<open>q\<close>, which its caller's reference prevents.
\<close>

datatype ev_op = Op_change nat kevent_t | Op_collect nat int | Op_rearm nat | Op_add nat u64 int u64
  | Op_remove nat u64 int | Op_trigger int int u64 bool | Op_eop u64 | Op_eop_ctx u64 | Op_flip u64
  | Op_tick bool u64 u64 | Op_watch "u32 list" | Op_idle nat "kevent_opts" int

fun ev_exec :: "(u32 \<Rightarrow> bool) \<Rightarrow> bool \<Rightarrow> ev_op \<Rightarrow> evworld \<Rightarrow> evworld" where
  "ev_exec sk b (Op_change r c) w = apply_change sk r c w"
| "ev_exec sk b (Op_collect r n) w = (case collect_at r n w of None \<Rightarrow> w | Some (out, w') \<Rightarrow> w')"
| "ev_exec sk b (Op_rearm r) w = upd_notes r (rearm w) w"
| "ev_exec sk b (Op_add r i f u) w = AddEvent r i f u w"
| "ev_exec sk b (Op_remove r i f) w = snd (RemoveEvent r i f w)"
| "ev_exec sk b (Op_trigger i f d v) w = TriggerAllEqueues b i f d v w"
| "ev_exec sk b (Op_eop t) w = NoteGpuEndOfPipe t w"
| "ev_exec sk b (Op_eop_ctx c) w = NoteGpuEndOfPipeCtx c w"
| "ev_exec sk b (Op_flip t) w = NoteFlip b t w"
| "ev_exec sk b (Op_tick em n t) w = vblank_tick b em n t w"
| "ev_exec sk b (Op_watch fds) w = watch_round b fds w"
| "ev_exec sk b (Op_idle r opts t) w = upd_queue r (note_idle opts t) w"

lemma same_then_ok: "\<lbrakk>ok_op f; ew_queues w1 = ew_queues w; eqs_inv w\<rbrakk> \<Longrightarrow>
    eqs_inv (f w1) \<and> still_alive r w (f w1)"
  using same_queues_ok[of w1 w] unfolding ok_op_def by (meson still_trans)

lemma ok_op_upd_queue: "(\<And>e. eq_notes (f e) = eq_notes e) \<Longrightarrow> ok_op (upd_queue q f)"
  unfolding ok_op_def by (intro allI impI upd_queue_ok) simp_all

lemma ok_op_gnm_all: "ok_op (fold (TriggerGnm d raw) qs)"
  by (rule ok_op_fold) (rule ok_op_gnm)

lemma ok_op_tick: "ok_op (vblank_tick b em n t)"
  unfolding ok_op_def
proof (intro allI impI)
  fix w r assume "eqs_inv w"
  let ?d = "pack_event n ((n - 1) mod 14 + 1) t"
  let ?w2 = "\<lambda>w. TriggerAllEqueues b (- 1) kEVFILT_DISPLAY ?d True
      (TriggerAllEqueues b (- 1) kEVFILT_VIDEOOUT ?d False (TriggerAllEqueues b 1 (- 15) n False w))"
  have 2: "ok_op ?w2" by (rule ok_op_comp[OF ok_op_comp[OF ok_op_all ok_op_all] ok_op_all])
  show "eqs_inv (vblank_tick b em n t w) \<and> still_alive r w (vblank_tick b em n t w)"
    using \<open>eqs_inv w\<close> 2 ok_op_comp[OF 2 ok_op_all] unfolding ok_op_def vblank_tick_def Let_def by auto
qed

lemma ok_op_exec: "ok_op (ev_exec sk b p)"
proof (cases p)
  case (Op_collect r n)
  then show ?thesis
    using ok_op_collect unfolding ok_op_def ev_exec.simps
    by (auto simp: still_alive_def split: option.splits)
next
  case (Op_add r i f u)
  have "ok_op (AddEvent r i f u)"
    unfolding AddEvent_def Let_def
    by (intro ok_op_if ok_op_comp[OF ok_op_register ok_op_pump] ok_op_register)
  with Op_add show ?thesis by (simp add: ok_op_def)
next
  case (Op_remove r i f)
  have "ok_op (upd_notes r (erase_note i f))" by (rule ok_op_notes) (erule keyed_change)
  with Op_remove show ?thesis by (simp add: ok_op_def RemoveEvent_def)
next
  case (Op_eop t)
  show ?thesis
    unfolding ok_op_def Op_eop ev_exec.simps NoteGpuEndOfPipe_def Let_def
    by (intro allI impI same_then_ok[OF ok_op_gnm_all]) simp_all
next
  case (Op_eop_ctx c)
  show ?thesis
    unfolding ok_op_def Op_eop_ctx ev_exec.simps NoteGpuEndOfPipeCtx_def Let_def
    by (intro allI impI same_then_ok[OF ok_op_gnm_all]) simp_all
next
  case (Op_flip t)
  show ?thesis
    unfolding ok_op_def Op_flip ev_exec.simps NoteFlip_def Let_def
    by (intro allI impI same_then_ok[OF ok_op_all]) simp_all
next
  case (Op_watch fds)
  have "ok_op (watch_round b fds)"
    unfolding watch_round_def by (rule ok_op_fold) (rule ok_op_all)
  with Op_watch show ?thesis by (simp add: ok_op_def)
next
  case (Op_idle r opts t)
  have "ok_op (upd_queue r (note_idle opts t))"
    by (rule ok_op_upd_queue) (simp add: note_idle_def Let_def)
  with Op_idle show ?thesis by (simp add: ok_op_def)
next
  case (Op_change r c)
  with ok_op_change[of sk r c] show ?thesis by (simp add: ok_op_def)
next
  case (Op_rearm r)
  with ok_op_rearm[of r] show ?thesis by (simp add: ok_op_def)
next
  case (Op_trigger i f d v)
  with ok_op_all[of b i f d v] show ?thesis by (simp add: ok_op_def)
next
  case (Op_tick em n t)
  with ok_op_tick[of b em n t] show ?thesis by (simp add: ok_op_def)
qed

definition ev_schedule :: "(u32 \<Rightarrow> bool) \<Rightarrow> bool \<Rightarrow> evworld obs list \<Rightarrow> bool" where
  "ev_schedule sk b bs \<longleftrightarrow> (\<forall>o'\<in>set bs. \<exists>ops. ob_env o' = fold (ev_exec sk b) ops)"

lemma ev_schedule_behaved: "ev_schedule sk b bs \<Longrightarrow> eq_mon.well_behaved q bs"
proof -
  assume "ev_schedule sk b bs"
  then have "ok_op (ob_env o')" if "o' \<in> set bs" for o'
    using that ok_op_fold[of "ev_exec sk b", OF ok_op_exec] by (auto simp: ev_schedule_def)
  then show ?thesis by (simp add: eq_mon.well_behaved_def ok_op_def)
qed

lemma WaitFor_rest: "WaitFor d ready bs s = Some (ok, s', bs') \<Longrightarrow> set bs' \<subseteq> set bs"
  by (induction bs arbitrary: s) (auto split: if_splits)

lemma kevent_wait_ok:
  assumes "kevent_wait opts clk to q bs w = Some (ready, w', bs')" and "ev_schedule sk b bs"
    and "eqs_inv w" and "alive q w"
  shows "eqs_inv w' \<and> alive q w' \<and>
    (if ready then any_active q w' \<or> to = None \<and> \<not> no_stop bs
     else \<exists>t. to = Some t \<and> expires (kc_wait clk + dur_us t) bs)"
proof -
  have beh: "ev_schedule sk b cs \<Longrightarrow> eq_mon.well_behaved q cs" for cs by (rule ev_schedule_behaved)
  have WF: "eqs_inv u' \<and> alive q u'" if "WaitFor d (any_active q) bs w = Some (ok, u', cs)" for d ok u' cs
    using eq_mon.WaitFor_guarantee[OF that beh[OF assms(2)] assms(3)] assms(4)
    by (simp add: still_alive_def)
  have W: "eqs_inv u' \<and> alive q u' \<and> (any_active q u' \<or> \<not> no_stop cs)"
    if "Wait (any_active q) cs u = Some (ok, u', ds)" "eqs_inv u" "alive q u" "set cs \<subseteq> set bs"
    for ok u u' cs ds
  proof -
    have "ev_schedule sk b cs" using assms(2) that(4) by (auto simp: ev_schedule_def)
    from eq_mon.Wait_guarantee[OF that(1) beh[OF this] that(2)] that(3)
    show ?thesis using Wait_ready[OF that(1)] Wait_no_stop[OF _ that(1)] by (auto simp: still_alive_def)
  qed
  show ?thesis
  proof (cases to)
    case (Some t)
    then have w: "WaitFor (kc_wait clk + dur_us t) (any_active q) bs w = Some (ready, w', bs')"
      using assms(1) by (simp add: kevent_wait_def)
    show ?thesis
      using WF[OF w] WaitFor_ready[OF w] Some WaitFor_False_expired[of _ "any_active q" bs w w' bs'] w
      by (cases ready) (simp_all add: expires_def)
  next
    case None
    have sub: "no_stop bs \<Longrightarrow> set cs \<subseteq> set bs \<Longrightarrow> no_stop cs" for cs :: "evworld obs list"
      by (auto simp: no_stop_def)
    show ?thesis
    proof (cases "0 < ko_stall_secs opts")
      case False
      then obtain ok where "ready" "Wait (any_active q) bs w = Some (ok, w', bs')"
        using assms(1) None by (auto simp: kevent_wait_def)
      then show ?thesis using W[of bs w ok w' bs'] assms(3,4) None by simp
    next
      case True
      let ?d = "kc_wait clk + (kc_until clk + ko_stall_secs opts * 1000000 - kc_rem clk)"
      obtain ok u cs where wf: "WaitFor ?d (any_active q) bs w = Some (ok, u, cs)" "ready"
          "if ok then w' = u else \<exists>ok'. Wait (any_active q) cs u = Some (ok', w', bs')"
        using assms(1) None True by (auto simp: kevent_wait_def split: option.splits if_splits)
      show ?thesis
        using wf W[of cs u _ w' bs'] WF[OF wf(1)] WaitFor_ready[OF wf(1)] WaitFor_rest[OF wf(1)] sub None
        by (cases ok) auto
    qed
  qed
qed

lemma collect_at_ok:
  assumes "collect_at q n w = Some (out, w')" and "eqs_inv w"
  shows "length out \<le> nat n \<and> distinct (map (\<lambda>e. (ke_ident e, ke_filter e)) out) \<and>
    (0 < n \<and> any_active q w \<longrightarrow> out \<noteq> [])"
proof -
  obtain e ks where e: "ew_queues w q = Some e" "collect n (ew_eop_seq w) (eq_notes e) = (out, ks)"
    using assms(1) by (auto simp: collect_at_def split: option.splits prod.splits)
  have out: "out = map kn_ev (take (nat n) (filter kn_active (eq_notes e)))"
    using collect_spec[OF e(2)] by simp
  have "distinct (map note_key (eq_notes e))" using assms(2) e(1) by (simp add: eqs_inv_def keyed_def)
  then have "distinct (map note_key (take (nat n) (filter kn_active (eq_notes e))))"
    by (simp add: distinct_map_filter take_map[symmetric] distinct_take)
  then have "distinct (map (\<lambda>e. (ke_ident e, ke_filter e)) out)"
    unfolding out by (simp add: comp_def note_key_def[abs_def])
  moreover have "out \<noteq> []" if "0 < n" "any_active q w"
  proof -
    have "filter kn_active (eq_notes e) \<noteq> []"
      using that(2) e(1) by (auto simp: any_active_def list_ex_iff filter_empty_conv)
    then show ?thesis unfolding out using that(1) by simp
  qed
  ultimately show ?thesis unfolding out by auto
qed

lemma ok_op_prepare: "ok_op (prepare opts sk q changes nout)"
proof -
  let ?w1 = "fold (apply_change sk q) changes"
  have 1: "ok_op ?w1" by (rule ok_op_fold) (rule ok_op_change)
  have 2: "ok_op (\<lambda>w. if 0 < ko_eop_pump_ms opts
      then upd_notes q (eop_pump (ew_last_eop_ctx (?w1 w))) (?w1 w) else ?w1 w)"
    by (rule ok_op_if[OF ok_op_comp[OF 1 ok_op_eop_pump] 1])
  show ?thesis
    unfolding prepare_def Let_def by (rule ok_op_if[OF 1 ok_op_comp[OF 2 ok_op_rearm]])
qed

lemma ok_op_warn: "ok_op (upd_queue q (\<lambda>e. if eq_notes e = [] then e\<lparr>eq_warned_empty_wait := True\<rparr> else e))"
  by (rule ok_op_upd_queue) simp

lemma any_active_upd: "(\<And>e. eq_notes (f e) = eq_notes e) \<Longrightarrow> any_active q (upd_queue q f w) = any_active q w"
  by (simp add: any_active_def upd_queue_def split: option.splits)

lemma collect_at_alive: "alive q w \<Longrightarrow> \<exists>out w'. collect_at q n w = Some (out, w')"
  by (auto simp: alive_def collect_at_def split: prod.splits)

lemma Kevent_result:
  assumes ret: "Kevent opts clk sk q changes nout to bs w = Some (out, w', bs')"
    and env: "ev_schedule sk b bs" and w: "eqs_inv w" "alive q w"
  shows "eqs_inv w' \<and> alive q w' \<and> length out \<le> nat nout \<and>
    distinct (map (\<lambda>e. (ke_ident e, ke_filter e)) out) \<and>
    (out = [] \<longrightarrow> nout \<le> 0 \<or> \<not> no_stop bs \<or> (\<exists>t. to = Some t \<and> expires (kc_wait clk + dur_us t) bs))"
proof -
  let ?w2 = "prepare opts sk q changes nout w"
  note w2 = ok_opD(1)[OF ok_op_prepare w(1), of opts sk q changes nout] and
    a2 = ok_opD(2)[OF ok_op_prepare w, of opts sk q changes nout]
  show ?thesis
  proof (cases "nout \<le> 0")
    case True
    then show ?thesis using ret w2 a2 by (auto simp: Kevent_def Let_def)
  next
    case n: False
    obtain got w3 where c: "collect_at q nout ?w2 = Some (got, w3)"
      using collect_at_alive[OF a2] by blast
    note cok = collect_at_ok[OF c w2] and inv3 = ok_op_collect[OF c w2, of q]
    have a3: "alive q w3" using inv3 a2 by (simp add: still_alive_def)
    show ?thesis
    proof (cases "got = []")
      case False
      then show ?thesis using ret n c cok inv3 a3 by (auto simp: Kevent_def Let_def)
    next
      case True
      let ?w4 = "if to = None then upd_queue q (\<lambda>e. if eq_notes e = []
          then e\<lparr>eq_warned_empty_wait := True\<rparr> else e) w3 else w3"
      have w4: "eqs_inv ?w4" "alive q ?w4"
        using ok_opD[OF ok_op_warn] inv3 a3 by (cases to; simp)+
      obtain ready w5 where k: "kevent_wait opts clk to q bs ?w4 = Some (ready, w5, bs')"
        using ret n c True by (auto simp: Kevent_def Let_def split: option.splits if_splits)
      note k5 = kevent_wait_ok[OF k env w4]
      show ?thesis
      proof (cases ready)
        case False
        have o: "ok_op (upd_queue q (note_idle opts (kc_now clk)))"
          by (rule ok_op_upd_queue) (simp add: note_idle_def Let_def)
        have "out = []" "w' = upd_queue q (note_idle opts (kc_now clk)) w5"
          using ret n c True k False by (auto simp: Kevent_def Let_def)
        then show ?thesis using k5 False ok_opD[OF o] by auto
      next
        case r: True
        let ?f = "\<lambda>e. e\<lparr>eq_idle_since := None, eq_reported_idle := False\<rparr>"
        let ?w6 = "upd_queue q ?f w5"
        have o: "ok_op (upd_queue q ?f)" by (rule ok_op_upd_queue) simp
        have inv6: "eqs_inv ?w6" "alive q ?w6" using k5 ok_opD[OF o] by blast+
        have c6: "collect_at q nout ?w6 = Some (out, w')"
          using ret n c True k r by (auto simp: Kevent_def Let_def)
        show ?thesis
          using collect_at_ok[OF c6 inv6(1)] ok_op_collect[OF c6 inv6(1), of q] inv6(2) k5 r n
            any_active_upd[of ?f q w5] by (auto simp: still_alive_def)
      qed
    qed
  qed
qed

lemma Kevent_returns:
  assumes env: "ev_schedule sk b bs" and w: "eqs_inv w" "alive q w"
    and ex: "expires (kc_wait clk + dur_us t) bs"
  shows "Kevent opts clk sk q changes nout (Some t) bs w \<noteq> None"
proof (cases "nout \<le> 0")
  case True
  then show ?thesis by (simp add: Kevent_def Let_def)
next
  case False
  let ?w2 = "prepare opts sk q changes nout w"
  note w2 = ok_opD(1)[OF ok_op_prepare w(1), of opts sk q changes nout] and
    a2 = ok_opD(2)[OF ok_op_prepare w, of opts sk q changes nout]
  obtain got w3 where c: "collect_at q nout ?w2 = Some (got, w3)"
    using collect_at_alive[OF a2] by blast
  have i3: "eqs_inv w3" "alive q w3"
    using ok_op_collect[OF c w2, of q] a2 by (auto simp: still_alive_def)
  obtain ready w5 bs' where k: "kevent_wait opts clk (Some t) q bs w3 = Some (ready, w5, bs')"
    using WaitFor_returns[OF ex] unfolding kevent_wait_def option.case by (metis prod_cases3)
  let ?w6 = "upd_queue q (\<lambda>e. e\<lparr>eq_idle_since := None, eq_reported_idle := False\<rparr>) w5"
  have o: "ok_op (upd_queue q (\<lambda>e. e\<lparr>eq_idle_since := None, eq_reported_idle := False\<rparr>))"
    by (rule ok_op_upd_queue) simp
  have "alive q ?w6" using kevent_wait_ok[OF k env i3] ok_opD[OF o] by blast
  then obtain out w' where "collect_at q nout ?w6 = Some (out, w')"
    using collect_at_alive by blast
  then show ?thesis using False c k by (auto simp: Kevent_def Let_def)
qed

section \<open>Triggers\<close>

lemma fold_upd_notes:
  assumes idem: "\<And>ks. f (f ks) = f ks"
  shows "ew_queues (fold (\<lambda>q. upd_notes q f) qs w) r =
    (if r \<in> set qs then map_option (\<lambda>e. e\<lparr>eq_notes := f (eq_notes e)\<rparr>) (ew_queues w r)
     else ew_queues w r)"
proof (induction qs arbitrary: w)
  case (Cons q qs)
  then show ?case
    by (auto simp: upd_notes_def upd_queue_def option.map_comp comp_def idem)
qed simp

definition fire_all :: "(knote \<Rightarrow> bool) \<Rightarrow> (u64 \<Rightarrow> u64) \<Rightarrow> knote list \<Rightarrow> knote list" where
  "fire_all P d ks = map (\<lambda>k. if P k then fire (d (ke_ident (kn_ev k))) k else k) ks"

lemma fire_all_idem: "(\<And>x k. P (fire x k) = P k) \<Longrightarrow> fire_all P d (fire_all P d ks) = fire_all P d ks"
  by (auto simp: fire_all_def fire_def)

lemma fire_fields [simp]: "ke_ident (kn_ev (fire x k)) = ke_ident (kn_ev k)"
    "ke_filter (kn_ev (fire x k)) = ke_filter (kn_ev k)" "ke_data (kn_ev (fire x k)) = x"
  by (simp_all add: fire_def)

lemma is_gnm_fire: "is_gnm (fire x k) = is_gnm k"
  by (simp only: is_gnm_def fire_fields)

lemma trigger_match_fire: "trigger_match b i f v (fire x k) = trigger_match b i f v k"
  by (simp only: trigger_match_def fire_fields)

lemma TriggerGnm_eq: "TriggerGnm data raw q = upd_notes q (fire_all is_gnm (gnm_data raw data))"
  unfolding TriggerGnm_def fire_all_def by (rule ext, rule arg_cong2[where f="upd_notes q"]) auto

lemma Trigger_eq: "Trigger b i f data v q = upd_notes q (fire_all (trigger_match b i f v) (\<lambda>_. data))"
  unfolding Trigger_def fire_all_def by (rule ext, rule arg_cong2[where f="upd_notes q"]) auto

lemma fold_gnm: "ew_queues (fold (TriggerGnm data raw) qs w) r =
    (if r \<in> set qs then map_option (\<lambda>e. e\<lparr>eq_notes := fire_all is_gnm (gnm_data raw data) (eq_notes e)\<rparr>)
       (ew_queues w r) else ew_queues w r)"
  unfolding TriggerGnm_eq[abs_def]
  by (rule fold_upd_notes) (rule fire_all_idem, rule is_gnm_fire)

lemma fold_trigger: "ew_queues (TriggerAllEqueues b i f data v w) r =
    (if r \<in> set (ew_reg w) then map_option (\<lambda>e. e\<lparr>eq_notes :=
         fire_all (trigger_match b i f v) (\<lambda>_. data) (eq_notes e)\<rparr>) (ew_queues w r)
     else ew_queues w r)"
  unfolding TriggerAllEqueues_def Trigger_eq[abs_def]
  by (rule fold_upd_notes) (rule fire_all_idem, rule trigger_match_fire)

lemma bit_small: "\<lbrakk>unat (x :: u64) < 2 ^ k; bit x n\<rbrakk> \<Longrightarrow> n < k"
proof (rule ccontr)
  assume "unat x < 2 ^ k" "bit x n" "\<not> n < k"
  then have "unat x < 2 ^ n" by (meson not_less order_less_le_trans power_increasing one_le_numeral)
  then have "\<not> bit (unat x) n" by (simp add: bit_nat_def)
  with \<open>bit x n\<close> show False by (simp add: bit_unsigned_iff)
qed

lemma gnm_data_parts: "ident < kGnmIdentMax \<Longrightarrow>
    gnm_data False data ident AND 0xFFFF = ident \<and> drop_bit 16 (gnm_data False data ident) = drop_bit 16 data"
proof -
  assume "ident < kGnmIdentMax"
  have m: "(0xFFFF :: u64) = mask 16" by (simp add: mask_eq_exp_minus_1)
  from \<open>ident < kGnmIdentMax\<close> have "unat ident < 2 ^ 16"
    by (simp add: kGnmIdentMax_def word_less_nat_alt)
  then have "n < 16" if "bit ident n" for n using that by (rule bit_small)
  then show ?thesis
    by (auto simp: gnm_data_def bit_eq_iff bit_simps m dest: bit_imp_le_length)
qed

lemma pack_event_parts:
  assumes "unat count < 2 ^ 48" and "unat seq < 2 ^ 4"
  shows "drop_bit 16 (pack_event count seq nonce) = count \<and>
    drop_bit 12 (pack_event count seq nonce) AND 0xF = seq \<and>
    pack_event count seq nonce AND 0xFFF = nonce AND 0xFFF"
proof -
  have m: "(0xFFF :: u64) = mask 12" "(0xF :: u64) = mask 4" by (simp_all add: mask_eq_exp_minus_1)
  note bits = bit_small[OF assms(1)] bit_small[OF assms(2)]
  have 1: "drop_bit 16 (pack_event count seq nonce) = count"
    by (rule bit_word_eqI) (auto simp: pack_event_def bit_simps m dest: bits)
  have 2: "drop_bit 12 (pack_event count seq nonce) AND 0xF = seq"
    by (rule bit_word_eqI) (auto simp: pack_event_def bit_simps m dest: bits)
  have 3: "pack_event count seq nonce AND 0xFFF = nonce AND 0xFFF"
    by (rule bit_word_eqI) (auto simp: pack_event_def bit_simps m dest: bits)
  from 1 2 3 show ?thesis by simp
qed

lemma seq_range: "unat ((x :: u64) mod 14 + 1) < 2 ^ 4 \<and> 1 \<le> unat (x mod 14 + 1) \<and> unat (x mod 14 + 1) \<le> 14"
proof -
  have "unat (x mod 14) < 14" by (simp add: unat_mod)
  then have "unat (x mod 14 + 1) = unat (x mod 14) + 1" by (simp add: unat_word_ariths)
  with \<open>unat (x mod 14) < 14\<close> show ?thesis by simp
qed

lemma rearm_active:
  assumes "k \<in> set ks" and "kn_active k \<or> is_gnm k \<and> kn_eop_seen k < ew_eop_seq w"
  shows "list_ex kn_active (rearm w ks)"
proof -
  define g where "g k = (if kn_active k \<or> \<not> is_gnm k \<or> ew_eop_seq w \<le> kn_eop_seen k then k
     else fire (if ew_eop_raw w then ew_last_eop_ctx w
                else gnm_data False (ew_last_eop_data w) (ke_ident (kn_ev k))) k)" for k
  have "kn_active (g k)" using assms(2) by (auto simp: g_def not_le)
  moreover have "rearm w ks = map g ks" by (simp add: rearm_def g_def)
  ultimately show ?thesis using assms(1) by (auto simp: list_ex_iff)
qed

section \<open>Properties\<close>

text \<open>
  C8: \<open>Kevent\<close> keeps its promise under every interleaving. While it sleeps the other threads may
  change, collect and trigger any queue; when it returns, every queue still has at most one
  knote per pair of ident and filter, the call has returned at most \<open>nout\<close> events, no two of
  them from the same knote, and it has returned none only if none were asked for, the session
  stopped, or its timeout passed. A timed call returns once its schedule reaches the timeout.
\<close>

theorem kevent_correct:
  assumes "eqs_inv w" and "ew_queues w q \<noteq> None" and "ev_schedule sk b bs"
  shows "(\<forall>out w' bs'. Kevent opts clk sk q changes nout to bs w = Some (out, w', bs') \<longrightarrow>
      eqs_inv w' \<and> length out \<le> nat nout \<and>
      distinct (map (\<lambda>e. (ke_ident e, ke_filter e)) out) \<and>
      (out = [] \<longrightarrow> nout \<le> 0 \<or> \<not> no_stop bs \<or>
        (\<exists>t. to = Some t \<and> expires (kc_wait clk + dur_us t) bs))) \<and>
    (\<forall>t. to = Some t \<longrightarrow> expires (kc_wait clk + dur_us t) bs \<longrightarrow>
      Kevent opts clk sk q changes nout to bs w \<noteq> None)"
proof -
  have a: "alive q w" using assms(2) by (simp add: alive_def)
  show ?thesis
    using Kevent_result[OF _ assms(3,1) a] Kevent_returns[OF assms(3,1) a] by blast
qed

definition ex_world :: evworld where
  "ex_world = \<lparr>ew_queues = [5 \<mapsto> Equeue_new (Some ''flip'')], ew_reg = [5], ew_vblank_started = False,
     ew_flip_count = 0, ew_watched = [], ew_watch_started = False, ew_eop_seq = 0,
     ew_last_eop_data = 0, ew_eop_raw = False, ew_last_eop_ctx = 0\<rparr>"

definition ex_reg :: kevent_t where
  "ex_reg = \<lparr>ke_ident = 6, ke_filter = - 13, ke_flags = 1, ke_fflags = 0, ke_data = 0, ke_udata = 0xAB\<rparr>"

definition ex_flip_sched :: "evworld obs list" where
  "ex_flip_sched = [\<lparr>ob_stop = False, ob_now = 1, ob_env = fold (ev_exec (\<lambda>_. False) False) [Op_flip 0]\<rparr>]"

lemmas equeue_exec = Kevent_def prepare_def apply_change_def upd_notes_def upd_queue_def
  register_note_def has_note_def note_key_def kEV_DELETE_def kEVFILT_USER_def kEVFILT_READ_def
  kEVFILT_DISPLAY_def kEVFILT_VIDEOOUT_def is_vblank_filter_def StartVblankPump_def rearm_def is_gnm_def
  collect_at_def kevent_wait_def any_active_def dur_us_def NoteFlip_def TriggerAllEqueues_def
  Trigger_def trigger_match_def fire_def pack_event_def Equeue_new_def kGnmIdentMax_def
  NoteGpuEndOfPipe_def TriggerGnm_def gnm_data_def

text \<open>A call that registers a flip event and is woken by the first flip.\<close>

theorem kevent_correct_witness:
  "\<exists>w'. Kevent \<lparr>ko_eop_pump_ms = 0, ko_stall_secs = 0\<rparr>
      \<lparr>kc_until = 0, kc_rem = 0, kc_wait = 0, kc_now = 0\<rparr> (\<lambda>_. False) 5 [ex_reg] 4 (Some (1, 0))
      ex_flip_sched ex_world = Some ([ex_reg\<lparr>ke_data := 0x1000\<rparr>], w', []) \<and> eqs_inv w'"
proof -
  let ?o = "\<lparr>ko_eop_pump_ms = 0, ko_stall_secs = 0\<rparr>"
    and ?c = "\<lparr>kc_until = 0, kc_rem = 0, kc_wait = 0, kc_now = 0\<rparr>"
  obtain w' where run: "Kevent ?o ?c (\<lambda>_. False) 5 [ex_reg] 4 (Some (1, 0)) ex_flip_sched ex_world =
      Some ([ex_reg\<lparr>ke_data := 0x1000\<rparr>], w', [])"
    by (simp add: ex_world_def ex_reg_def ex_flip_sched_def equeue_exec)
  have 1: "eqs_inv ex_world" by (simp add: eqs_inv_def ex_world_def Equeue_new_def keyed_def)
  have 2: "ew_queues ex_world 5 \<noteq> None" by (simp add: ex_world_def)
  have 3: "ev_schedule (\<lambda>_. False) False ex_flip_sched"
    unfolding ev_schedule_def ex_flip_sched_def by (simp del: fold.simps) blast
  from kevent_correct[OF 1 2 3, of ?o ?c "[ex_reg]" 4 "Some (1, 0)"] run show ?thesis by simp
qed

text \<open>
  Collecting loses and duplicates nothing. The events returned are those of the first
  \<open>nout\<close> active knotes, in registration order; exactly these become inactive, the rest stay
  pending, and no registration changes.
\<close>

theorem collect_exact:
  "let (out, ks') = collect nout eop ks; pending = filter kn_active ks in
     out = map kn_ev (take (nat nout) pending) \<and>
     filter kn_active ks' = drop (nat nout) pending \<and>
     map kn_ev ks' = map kn_ev ks"
proof -
  obtain out ks' where c: "collect nout eop ks = (out, ks')" by fastforce
  have "map kn_ev (map (\<lambda>k. k\<lparr>kn_active := False, kn_eop_seen := 0\<rparr>) ks') =
      map kn_ev (map (\<lambda>k. k\<lparr>kn_active := False, kn_eop_seen := 0\<rparr>) ks)"
    using collect_spec[OF c] by simp
  then have "map kn_ev ks' = map kn_ev ks" by (simp add: comp_def)
  then show ?thesis using c collect_spec[OF c] by simp
qed

text \<open>
  An end-of-pipe interrupt fires every graphics knote of every registered queue and no
  other knote. In the event the low 16 bits are the knote's ident and the bits above are the
  number of the interrupt, so a title recognises its own submit.
\<close>

theorem gpu_eop_event:
  assumes "ew_queues w q = Some e" and "q \<in> set (ew_reg w)" and "unat (ew_eop_seq w + 1) < 2 ^ 48"
  shows "\<exists>e'. ew_queues (NoteGpuEndOfPipe nonce w) q = Some e' \<and>
    list_all2 (\<lambda>k k'. if is_gnm k
       then kn_active k' \<and> note_key k' = note_key k \<and>
         ke_data (kn_ev k') AND 0xFFFF = ke_ident (kn_ev k) \<and>
         drop_bit 16 (ke_data (kn_ev k')) = ew_eop_seq w + 1
       else k' = k) (eq_notes e) (eq_notes e')"
proof -
  let ?n = "ew_eop_seq w + 1"
  let ?d = "pack_event ?n ((?n - 1) mod 14 + 1) nonce"
  have d: "drop_bit 16 ?d = ?n" using pack_event_parts[OF assms(3)] seq_range[of "?n - 1"] by blast
  have "list_all2 (\<lambda>k k'. if is_gnm k then kn_active k' \<and> note_key k' = note_key k \<and>
         ke_data (kn_ev k') AND 0xFFFF = ke_ident (kn_ev k) \<and> drop_bit 16 (ke_data (kn_ev k')) = ?n
       else k' = k) ks (fire_all is_gnm (gnm_data False ?d) ks)" for ks
    using gnm_data_parts d by (auto simp: fire_all_def list_all2_conv_all_nth is_gnm_def)
  then show ?thesis
    using assms(1,2) by (auto simp: NoteGpuEndOfPipe_def Let_def fold_gnm)
qed

theorem gpu_eop_event_witness:
  "let w = AddEvent 5 0x40 (- 14) 0 ex_world
   in ew_queues w 5 \<noteq> None \<and>
      (\<exists>e' k'. ew_queues (NoteGpuEndOfPipe 0 w) 5 = Some e' \<and> eq_notes e' = [k'] \<and> kn_active k' \<and>
        ke_data (kn_ev k') AND 0xFFFF = 0x40 \<and> drop_bit 16 (ke_data (kn_ev k')) = 1)"
proof -
  let ?w = "AddEvent 5 0x40 (- 14) 0 ex_world"
  obtain e where e: "ew_queues ?w 5 = Some e" and n: "\<exists>k. eq_notes e = [k] \<and> is_gnm k \<and> ke_ident (kn_ev k) = 0x40"
    by (simp add: ex_world_def AddEvent_def equeue_exec)
  have "5 \<in> set (ew_reg ?w)" "unat (ew_eop_seq ?w + 1) < 2 ^ 48" "ew_eop_seq ?w = 0"
    by (simp_all add: ex_world_def AddEvent_def equeue_exec)
  then show ?thesis
    using gpu_eop_event[OF e, of 0] e n by (auto simp: list_all2_Cons1)
qed

text \<open>
  A trigger reaches exactly the knotes it names. After \<open>TriggerAllEqueues\<close> each knote of
  each registered queue that matches the ident, the filter and the vblank kind is active with
  the new data, and every other knote is unchanged; in particular the vblank tick never tells a
  graphics knote that the GPU has finished.
\<close>

theorem trigger_exact:
  "ew_queues (TriggerAllEqueues b ident filt data vblank w) q =
     (if q \<in> set (ew_reg w)
      then map_option (\<lambda>e. e\<lparr>eq_notes := map (\<lambda>k. if trigger_match b ident filt vblank k
             then k\<lparr>kn_active := True, kn_ev := (kn_ev k)\<lparr>ke_data := data\<rparr>\<rparr> else k) (eq_notes e)\<rparr>)
           (ew_queues w q)
      else ew_queues w q) \<and>
   (\<forall>k. is_gnm k \<longrightarrow> \<not> trigger_match False ident (- 14) vblank k)"
proof
  show "\<forall>k. is_gnm k \<longrightarrow> \<not> trigger_match False ident (- 14) vblank k"
    by (simp add: trigger_match_def is_gnm_def kEVFILT_VIDEOOUT_def)
qed (unfold fold_trigger fire_all_def fire_def, rule refl)

theorem trigger_exact_witness:
  "let k = \<lparr>kn_ev = ex_reg\<lparr>ke_filter := - 14\<rparr>, kn_active = False, kn_eop_seen = 0\<rparr>
   in is_gnm k \<and> \<not> trigger_match False (- 1) (- 14) False k"
  using trigger_exact[of False "- 1" "- 14" 0 False ex_world 5]
  by (simp add: is_gnm_def kEVFILT_VIDEOOUT_def ex_reg_def kGnmIdentMax_def)

text \<open>
  The data of a flip event can be taken apart again: above bit 16 the index of the flip that
  completed, in bits 12 to 15 a sequence number from 1 to 14, below it the nonce.
\<close>

theorem flip_data_parts:
  assumes "unat idx < 2 ^ 48"
  shows "let d = pack_event idx (idx mod 14 + 1) nonce in
    drop_bit 16 d = idx \<and> drop_bit 12 d AND 0xF = idx mod 14 + 1 \<and> d AND 0xFFF = nonce AND 0xFFF \<and>
    1 \<le> unat (drop_bit 12 d AND 0xF) \<and> unat (drop_bit 12 d AND 0xF) \<le> 14"
proof -
  have "unat (idx mod 14 + 1) < 2 ^ 4" using seq_range[of idx] by blast
  from pack_event_parts[OF assms this] seq_range[of idx] show ?thesis by (simp add: Let_def)
qed

theorem flip_data_parts_witness:
  "drop_bit 16 (pack_event 20 (20 mod 14 + 1) 0x1234) = 20 \<and>
   drop_bit 12 (pack_event 20 (20 mod 14 + 1) 0x1234) AND 0xF = 7"
  using flip_data_parts[of 20 "0x1234"] by (simp add: Let_def)

text \<open>
  No end-of-pipe edge is lost between two calls. If a graphics knote has accounted for fewer
  interrupts than were raised, a call that asks for events returns at once, without sleeping,
  and whatever the schedule.
\<close>

theorem kevent_rearm:
  assumes "ew_queues w q = Some e" and "k \<in> set (eq_notes e)" and "is_gnm k"
    and "kn_eop_seen k < ew_eop_seq w" and "0 < nout"
  shows "\<exists>out w'. Kevent opts clk sk q [] nout to bs w = Some (out, w', bs) \<and> out \<noteq> []"
proof -
  let ?w2 = "prepare opts sk q [] nout w"
  let ?ks = "if 0 < ko_eop_pump_ms opts then eop_pump (ew_last_eop_ctx w) (eq_notes e) else eq_notes e"
  have q2: "ew_queues ?w2 q = Some (e\<lparr>eq_notes := rearm w ?ks\<rparr>)"
    using assms(1,5) by (auto simp: prepare_def upd_notes_def upd_queue_def Let_def rearm_def)
  have "\<exists>k'\<in>set ?ks. kn_active k' \<or> is_gnm k' \<and> kn_eop_seen k' < ew_eop_seq w"
  proof (cases "kn_active k \<or> ko_eop_pump_ms opts \<le> 0")
    case True
    then have "k \<in> set ?ks" using assms(2) by (auto simp: eop_pump_def)
    then show ?thesis using assms(3,4) by blast
  next
    case False
    then have "fire (ew_last_eop_ctx w) k \<in> set ?ks" using assms(2,3) by (auto simp: eop_pump_def)
    then show ?thesis by (rule bexI[rotated]) simp
  qed
  then have act: "list_ex kn_active (rearm w ?ks)" using rearm_active by blast
  obtain out ks' where c: "collect nout (ew_eop_seq ?w2) (rearm w ?ks) = (out, ks')" by fastforce
  have "out = map kn_ev (take (nat nout) (filter kn_active (rearm w ?ks)))"
    using collect_spec[OF c] by blast
  moreover have "filter kn_active (rearm w ?ks) \<noteq> []"
    using act by (simp add: list_ex_iff filter_empty_conv)
  ultimately have "out \<noteq> []" using assms(5) by simp
  then show ?thesis
    using assms(5) q2 c by (auto simp: Kevent_def Let_def collect_at_def)
qed

theorem kevent_rearm_witness:
  "\<exists>out w'. Kevent \<lparr>ko_eop_pump_ms = 0, ko_stall_secs = 0\<rparr>
      \<lparr>kc_until = 0, kc_rem = 0, kc_wait = 0, kc_now = 0\<rparr> (\<lambda>_. False) 5 [] 1 None []
      ((AddEvent 5 0x40 (- 14) 0 ex_world)\<lparr>ew_eop_seq := 3\<rparr>) = Some (out, w', []) \<and> out \<noteq> []"
proof -
  let ?w = "(AddEvent 5 0x40 (- 14) 0 ex_world)\<lparr>ew_eop_seq := 3\<rparr>"
  obtain e k where "ew_queues ?w 5 = Some e" "k \<in> set (eq_notes e)" "is_gnm k" "kn_eop_seen k < ew_eop_seq ?w"
    by (simp add: ex_world_def AddEvent_def equeue_exec)
  then show ?thesis by (rule kevent_rearm) simp
qed

end
