(* ===== verification/Kernel_Calls.thy ===== *)
theory Kernel_Calls
  imports Object_Table Event_Flag Semaphore Equeue
begin

text \<open>
  The synchronisation syscalls on handles: \<open>sys_evf_*\<close> (\<open>sys_event_flag.cc\<close>), \<open>sys_osem_*\<close>
  (\<open>sys_semaphore.cc\<close>), \<open>sys_kqueue\<close>, \<open>sys_kqueueex\<close> and \<open>sys_kevent\<close> (\<open>sys_event.cc\<close>), and the
  closing of a descriptor that is not a device (\<open>sys_vfs.cc\<close>).

  The kernel state is the object table with the headers of all kernel objects, the bodies of the
  flags, semaphores and queues by object address, and the two name registries. The registry of
  flags is iterated, so it is a list in the order of the hash map; that order is arbitrary, the
  other uses of the registries are lookups by name. An access to a deleted object is the value
  \<open>None\<close>. A blocking call that is still asleep when its schedule ends is \<open>None\<close> too.
\<close>

section \<open>State\<close>

record kern =
  k_objs :: "unit objs"
  k_evf :: "nat \<rightharpoonup> evf"
  k_sem :: "nat \<rightharpoonup> sem"
  k_ev :: evworld
  k_ef_by_name :: "(string \<times> nat) list"
  k_sem_by_name :: "string \<rightharpoonup> nat"
  k_deferred :: "u32 list"

text \<open>The destructor that \<open>delete this\<close> runs. \<open>EventFlag\<close> declares none.\<close>

definition run_dtor :: "obj_type \<Rightarrow> nat \<Rightarrow> kern \<Rightarrow> kern" where
  "run_dtor ty a s =
     (case ty of
        kEventflag \<Rightarrow> s\<lparr>k_evf := (k_evf s)(a := None)\<rparr>
      | kSemaphore \<Rightarrow>
          (case k_sem s a of None \<Rightarrow> s
           | Some m \<Rightarrow> s\<lparr>k_sem := (k_sem s)(a := None),
                         k_sem_by_name := (if k_sem_by_name s (sm_name m) = Some a
                           then (k_sem_by_name s)(sm_name m := None) else k_sem_by_name s)\<rparr>)
      | kEqueue \<Rightarrow> s\<lparr>k_ev := equeue_dtor a (k_ev s)\<rparr>
      | _ \<Rightarrow> s)"

text \<open>Store a new object table; if the object \<open>a\<close> went away with it, its destructor runs.\<close>

definition put_objs :: "nat \<Rightarrow> unit objs \<Rightarrow> kern \<Rightarrow> kern" where
  "put_objs a t s =
     (case (heap (k_objs s) a, heap t a) of
        (Some k, None) \<Rightarrow> run_dtor (ko_type k) a (s\<lparr>k_objs := t\<rparr>)
      | _ \<Rightarrow> s\<lparr>k_objs := t\<rparr>)"

definition Unref :: "nat \<Rightarrow> kern \<Rightarrow> kern option" where
  "Unref a s = map_option (\<lambda>t. put_objs a t s) (Obj_Release a (k_objs s))"

definition table_release :: "u32 \<Rightarrow> kern \<Rightarrow> kern option" where
  "table_release id' s = do {
     (b, t) \<leftarrow> Table_Release id' (k_objs s);
     Some (case handle_obj (k_objs s) id' of None \<Rightarrow> s\<lparr>k_objs := t\<rparr> | Some a \<Rightarrow> put_objs a t s) }"

section \<open>Handles to objects\<close>

text \<open>\<open>FromId\<close>: a reference to the object of the right type, or null.\<close>

definition FromId :: "obj_type \<Rightarrow> u32 \<Rightarrow> kern \<Rightarrow> (nat option \<times> kern) option" where
  "FromId ty id' s = do {
     (ao, t) \<leftarrow> Table_Get id' (k_objs s);
     let s1 = s\<lparr>k_objs := t\<rparr>;
     case ao of None \<Rightarrow> Some (None, s1)
     | Some a \<Rightarrow> do {
         k \<leftarrow> heap t a;
         if ko_type k = ty then Some (Some a, s1)
         else do { s2 \<leftarrow> Unref a s1; Some (None, s2) } } }"

text \<open>The scope of the \<open>ObjectRef\<close> a handler holds: it is released when the handler returns.\<close>

definition with_ref ::
  "obj_type \<Rightarrow> u32 \<Rightarrow> 'r \<Rightarrow> (nat \<Rightarrow> kern \<Rightarrow> ('r \<times> kern) option) \<Rightarrow> kern \<Rightarrow> ('r \<times> kern) option" where
  "with_ref ty id' missing body s = do {
     (ao, s1) \<leftarrow> FromId ty id' s;
     case ao of None \<Rightarrow> Some (missing, s1)
     | Some a \<Rightarrow> do { (r, s2) \<leftarrow> body a s1; s3 \<leftarrow> Unref a s2; Some (r, s3) } }"

definition put_evf :: "nat \<Rightarrow> evf \<Rightarrow> kern \<Rightarrow> kern" where
  "put_evf a f s = s\<lparr>k_evf := (k_evf s)(a \<mapsto> f)\<rparr>"

definition put_sem :: "nat \<Rightarrow> sem \<Rightarrow> kern \<Rightarrow> kern" where
  "put_sem a m s = s\<lparr>k_sem := (k_sem s)(a \<mapsto> m)\<rparr>"

definition handle_int :: "u32 \<Rightarrow> int" where
  "handle_int h = sint h"

section \<open>Event flags\<close>

fun reg_put :: "string \<Rightarrow> nat \<Rightarrow> (string \<times> nat) list \<Rightarrow> (string \<times> nat) list" where
  "reg_put n a [] = [(n, a)]"
| "reg_put n a ((m, b) # r) = (if m = n then (m, a) # r else (m, b) # reg_put n a r)"

fun reg_erase :: "string \<Rightarrow> (string \<times> nat) list \<Rightarrow> (string \<times> nat) list" where
  "reg_erase n [] = []"
| "reg_erase n ((m, b) # r) = (if m = n then r else (m, b) # reg_erase n r)"

text \<open>\<open>new EventFlag\<close> at address \<open>a\<close>; the result is \<open>handle()\<close>.\<close>

definition evf_new ::
  "(u32 \<Rightarrow> bool) \<Rightarrow> nat \<Rightarrow> string option \<Rightarrow> u64 \<Rightarrow> u64 \<Rightarrow> kern \<Rightarrow> (int \<times> kern) option" where
  "evf_new ra a nm init sticky s = do {
     (b, h, t) \<leftarrow> Object_new ra a kEventflag () (k_objs s);
     let f = EventFlag_new nm init sticky;
     let s1 = s\<lparr>k_objs := t, k_evf := (k_evf s)(a \<mapsto> f),
                k_ef_by_name := (if ef_name f \<noteq> [] then reg_put (ef_name f) a (k_ef_by_name s)
                                 else k_ef_by_name s)\<rparr>;
     h' \<leftarrow> Obj_handle a t;
     Some (handle_int h', s1) }"

definition sys_evf_create ::
  "(u32 \<Rightarrow> bool) \<Rightarrow> nat \<Rightarrow> string option \<Rightarrow> u32 \<Rightarrow> u64 \<Rightarrow> kern \<Rightarrow> (int \<times> kern) option" where
  "sys_evf_create ra a name attr init_pattern s =
     (if name = None then Some (neg_err eINVAL, s)
      else evf_new ra a name init_pattern 0 s)"

definition contains :: "string \<Rightarrow> string \<Rightarrow> bool" where
  "contains n sub \<longleftrightarrow> list_ex (\<lambda>i. take (length sub) (drop i n) = sub) [0..<Suc (length n)]"

definition starts_with :: "string \<Rightarrow> string \<Rightarrow> bool" where
  "starts_with n pre \<longleftrightarrow> take (length pre) n = pre"

definition kForegroundAppId :: u64 where "kForegroundAppId = 0x60000001"

text \<open>\<open>dialog_status\<close> is \<open>ipmi::CommonDialogProcessStatus\<close>, the state of another component.\<close>

definition SystemFlagInit :: "(string \<Rightarrow> u64) \<Rightarrow> string option \<Rightarrow> u64" where
  "SystemFlagInit dialog_status name =
     (case name of None \<Rightarrow> 0
      | Some n \<Rightarrow>
          if contains n ''AppFocus'' \<or> contains n ''CtrlFocus'' then kForegroundAppId
          else if contains n ''PowerControl'' \<or> contains n ''SystemStateMgr'' then 1
          else if contains n ''BootStatus'' then NOT 0
          else if contains n ''SceAuOut2'' \<and> contains n ''DelEvf'' then NOT 0
          else if n = ''SceAvSettingEvf'' then push_bit 32 1
          else if n = ''SceAvControlEvf'' then push_bit 34 1 OR push_bit 40 1
          else dialog_status n)"

definition evf_sticky :: "string option \<Rightarrow> u64 \<Rightarrow> u64" where
  "evf_sticky name seed =
     (case name of None \<Rightarrow> seed
      | Some n \<Rightarrow> if starts_with n ''SceLncUtilAppStatus'' then 0 else seed)"

definition sys_evf_open ::
  "(string \<Rightarrow> u64) \<Rightarrow> (u32 \<Rightarrow> bool) \<Rightarrow> nat \<Rightarrow> string option \<Rightarrow> kern \<Rightarrow> (int \<times> kern) option" where
  "sys_evf_open dialog_status ra a name s =
     (case Option.bind name (map_of (k_ef_by_name s)) of
        Some e \<Rightarrow> map_option (\<lambda>h. (handle_int h, s)) (Obj_handle e (k_objs s))
      | None \<Rightarrow>
          if (case name of None \<Rightarrow> False | Some n \<Rightarrow> starts_with n ''SceSaveDataMemoryRUI'')
          then Some (neg_err eNOENT, s)
          else let seed = SystemFlagInit dialog_status name
               in evf_new ra a name seed (evf_sticky name seed) s)"

definition sys_evf_delete :: "u32 \<Rightarrow> kern \<Rightarrow> (int \<times> kern) option" where
  "sys_evf_delete id' = with_ref kEventflag id' (neg_err eSRCH) (\<lambda>a s. do {
     f \<leftarrow> k_evf s a;
     let s1 = (if ef_name f \<noteq> [] then s\<lparr>k_ef_by_name := reg_erase (ef_name f) (k_ef_by_name s)\<rparr> else s);
     s2 \<leftarrow> table_release id' s1;
     Some (0, s2) })"

definition sys_evf_close :: "u32 \<Rightarrow> kern \<Rightarrow> (int \<times> kern) option" where
  "sys_evf_close id' s = sys_evf_delete id' s"

definition evf_mode_bad :: "u64 \<Rightarrow> u32 \<Rightarrow> bool" where
  "evf_mode_bad pattern mode \<longleftrightarrow> pattern = 0 \<or> mode AND 3 = 0 \<or> mode AND 3 = 3 \<or> mode AND 0x30 = 0x30"

text \<open>
  \<open>sys_evf_wait\<close>: the result is the status, \<open>*result\<close> (written whenever the flag was found), the
  timeout left and the rest of the schedule. \<open>ack_us\<close> is the option \<open>DELTA_AUDIOMIX_ACK\<close>, \<open>w\<close> the
  address of the waiter on the stack.
\<close>

type_synonym wait_result = "int \<times> u64 option \<times> u32 option \<times> kern obs list"

definition sys_evf_wait ::
  "int \<Rightarrow> nat \<Rightarrow> u32 \<Rightarrow> u64 \<Rightarrow> u32 \<Rightarrow> u32 option \<Rightarrow> wait_clock \<Rightarrow> kern obs list \<Rightarrow> kern
     \<Rightarrow> (wait_result \<times> kern) option" where
  "sys_evf_wait ack_us w id' pattern mode timeout_us clk bs s =
     (if evf_mode_bad pattern mode then Some ((neg_err eINVAL, None, timeout_us, bs), s)
      else with_ref kEventflag id' (neg_err eSRCH, None, timeout_us, bs) (\<lambda>a s1. do {
        f \<leftarrow> k_evf s1 a;
        let rd = (\<lambda>t. k_evf t a);
        if 0 \<le> ack_us \<and> contains (ef_name f) ''sceAudioOutMix'' then do {
          (out, s2, bs') \<leftarrow> EventFlag_Wait rd (put_evf a) w pattern mode
                             (Some (word_of_int ack_us)) clk bs s1;
          let res = (case wo_result out of None \<Rightarrow> 0 | Some v \<Rightarrow> v);
          Some (if wo_ret out = neg_err eTIMEDOUT then (0, Some pattern, timeout_us, bs')
                else (wo_ret out, Some res, timeout_us, bs'), s2) }
        else do {
          (out, s2, bs') \<leftarrow> EventFlag_Wait rd (put_evf a) w pattern mode timeout_us clk bs s1;
          let res = (case wo_result out of None \<Rightarrow> 0 | Some v \<Rightarrow> v);
          Some ((wo_ret out, Some res, wo_timeout out, bs'), s2) } }) s)"

text \<open>The grace period of a thread that polls the flag it has just set itself.\<close>

definition sys_evf_trywait ::
  "bool \<Rightarrow> int \<Rightarrow> nat \<Rightarrow> u32 \<Rightarrow> u64 \<Rightarrow> u32 \<Rightarrow> wait_clock \<Rightarrow> kern obs list \<Rightarrow> kern
     \<Rightarrow> ((int \<times> u64 option \<times> kern obs list) \<times> kern) option" where
  "sys_evf_trywait no_grace tid w id' pattern mode clk bs s =
     (if evf_mode_bad pattern mode then Some ((neg_err eINVAL, None, bs), s)
      else with_ref kEventflag id' (neg_err eSRCH, None, bs) (\<lambda>a s1. do {
        f \<leftarrow> k_evf s1 a;
        let (r, res, f') = Trywait pattern mode f;
        let s2 = put_evf a f' s1;
        if r = neg_err eBUSY \<and> \<not> no_grace \<and> ef_last_set_tid f' = tid then do {
          (out, s3, bs') \<leftarrow> EventFlag_Wait (\<lambda>t. k_evf t a) (put_evf a) w pattern mode
                             (Some 250000) clk bs s2;
          Some ((if wo_ret out = neg_err eTIMEDOUT then neg_err eBUSY else wo_ret out,
                 Some (case wo_result out of None \<Rightarrow> 0 | Some v \<Rightarrow> v), bs'), s3) }
        else Some ((r, Some (case res of None \<Rightarrow> 0 | Some v \<Rightarrow> v), bs), s2) }) s)"

definition sys_evf_set :: "int \<Rightarrow> u32 \<Rightarrow> u64 \<Rightarrow> kern \<Rightarrow> (int \<times> kern) option" where
  "sys_evf_set tid id' bits = with_ref kEventflag id' (neg_err eSRCH) (\<lambda>a s. do {
     f \<leftarrow> k_evf s a; Some (0, put_evf a (EventFlag_Set tid bits f) s) })"

definition sys_evf_clear :: "u32 \<Rightarrow> u64 \<Rightarrow> kern \<Rightarrow> (int \<times> kern) option" where
  "sys_evf_clear id' bits = with_ref kEventflag id' (neg_err eSRCH) (\<lambda>a s. do {
     f \<leftarrow> k_evf s a; Some (0, put_evf a (EventFlag_Clear bits f) s) })"

definition sys_evf_cancel :: "u32 \<Rightarrow> u64 \<Rightarrow> kern \<Rightarrow> ((int \<times> int option) \<times> kern) option" where
  "sys_evf_cancel id' pattern = with_ref kEventflag id' (neg_err eSRCH, None) (\<lambda>a s. do {
     f \<leftarrow> k_evf s a;
     let (woken, f') = EventFlag_Cancel pattern f;
     Some ((0, Some woken), put_evf a f' s) })"

text \<open>
  Name-keyed access from the host: the first flag, in the order of the registry, whose name
  contains the substring.
\<close>

definition first_named :: "string \<Rightarrow> kern \<Rightarrow> nat option" where
  "first_named sub s = map_option snd (find (\<lambda>(n, a). contains n sub) (k_ef_by_name s))"

definition EvfSetByNameSubstr :: "int \<Rightarrow> string option \<Rightarrow> u64 \<Rightarrow> kern \<Rightarrow> (bool \<times> kern) option" where
  "EvfSetByNameSubstr tid substr bits s =
     (case Option.bind substr (\<lambda>sub. first_named sub s) of None \<Rightarrow> Some (False, s)
      | Some a \<Rightarrow> map_option (\<lambda>f. (True, put_evf a (EventFlag_Set tid bits f) s)) (k_evf s a))"

definition EvfClearByNameSubstr :: "string option \<Rightarrow> u64 \<Rightarrow> kern \<Rightarrow> (bool \<times> kern) option" where
  "EvfClearByNameSubstr substr keep_mask s =
     (case Option.bind substr (\<lambda>sub. first_named sub s) of None \<Rightarrow> Some (False, s)
      | Some a \<Rightarrow> map_option (\<lambda>f. (True, put_evf a (EventFlag_Clear keep_mask f) s)) (k_evf s a))"

section \<open>Semaphores\<close>

definition sem_new ::
  "(u32 \<Rightarrow> bool) \<Rightarrow> nat \<Rightarrow> string option \<Rightarrow> int \<Rightarrow> int \<Rightarrow> kern \<Rightarrow> (int \<times> kern) option" where
  "sem_new ra a nm init mx s = do {
     (b, h, t) \<leftarrow> Object_new ra a kSemaphore () (k_objs s);
     let m = Semaphore_new nm init mx;
     let s1 = s\<lparr>k_objs := t, k_sem := (k_sem s)(a \<mapsto> m),
                k_sem_by_name := (if sm_name m \<noteq> [] then (k_sem_by_name s)(sm_name m \<mapsto> a)
                                  else k_sem_by_name s)\<rparr>;
     h' \<leftarrow> Obj_handle a t;
     Some (handle_int h', s1) }"

definition sys_osem_create ::
  "(u32 \<Rightarrow> bool) \<Rightarrow> nat \<Rightarrow> string option \<Rightarrow> u32 \<Rightarrow> int \<Rightarrow> int \<Rightarrow> kern \<Rightarrow> (int \<times> kern) option" where
  "sys_osem_create ra a name attr init mx s = sem_new ra a name init mx s"

definition sys_osem_open :: "(u32 \<Rightarrow> bool) \<Rightarrow> nat \<Rightarrow> string option \<Rightarrow> kern \<Rightarrow> (int \<times> kern) option" where
  "sys_osem_open ra a name s =
     (case Option.bind name (k_sem_by_name s) of
        Some e \<Rightarrow> map_option (\<lambda>h. (handle_int h, s)) (Obj_handle e (k_objs s))
      | None \<Rightarrow>
          if (case name of None \<Rightarrow> False | Some n \<Rightarrow> starts_with n ''SceSaveData'')
          then Some (neg_err eNOENT, s)
          else let suspend = (name = Some ''SceLncSuspendBlock60000001'')
               in sem_new ra a name (if suspend then 1 else 0) (if suspend then 1 else 0x7fffffff) s)"

definition sys_osem_delete :: "u32 \<Rightarrow> kern \<Rightarrow> (int \<times> kern) option" where
  "sys_osem_delete id' = with_ref kSemaphore id' (neg_err eSRCH) (\<lambda>a s. do {
     m \<leftarrow> k_sem s a;
     let s1 = (if k_sem_by_name s (sm_name m) = Some a
               then s\<lparr>k_sem_by_name := (k_sem_by_name s)(sm_name m := None)\<rparr> else s);
     s2 \<leftarrow> table_release id' s1;
     Some (0, s2) })"

definition sys_osem_close :: "u32 \<Rightarrow> kern \<Rightarrow> (int \<times> kern) option" where
  "sys_osem_close id' s = sys_osem_delete id' s"

text \<open>The doorbell of a service that is not hosted (\<open>sys_mem.cc\<close>).\<close>

definition IsAbsentServiceChannel :: "string \<Rightarrow> bool" where
  "IsAbsentServiceChannel name =
     (let n = (case name of [] \<Rightarrow> [] | c # cs \<Rightarrow> if c = CHR ''/'' then cs else name)
      in takeWhile (\<lambda>c. c \<noteq> CHR '' '') n = ''SceNpTpip'')"

text \<open>\<open>max_wait_ms\<close> is the option \<open>DELTA_OSEM_MAXWAIT\<close>, \<open>now\<close> the clock at the start of the wait.\<close>

definition sys_osem_wait ::
  "u32 \<Rightarrow> u32 \<Rightarrow> int \<Rightarrow> u32 option \<Rightarrow> int \<Rightarrow> kern obs list \<Rightarrow> kern
     \<Rightarrow> ((int \<times> kern obs list) \<times> kern) option" where
  "sys_osem_wait max_wait_ms id' need timeout_us now bs = with_ref kSemaphore id' (neg_err eSRCH, bs) (\<lambda>a s. do {
     m \<leftarrow> k_sem s a;
     let cap_us = max_wait_ms * 1000;
     let to = (if timeout_us = None \<and> cap_us \<noteq> 0 then Some cap_us else timeout_us);
     let rd = (\<lambda>t. k_sem t a);
     if IsAbsentServiceChannel (sm_name m) then do {
       let idle_us = (case to of Some t \<Rightarrow> if t < 100000 then t else 100000 | None \<Rightarrow> 100000);
       (r, s2, bs') \<leftarrow> Sem_Wait rd (put_sem a) need (Some idle_us) now bs s;
       Some ((if r = 0 then 0 else neg_err eTIMEDOUT, bs'), s2) }
     else do {
       (r, s2, bs') \<leftarrow> Sem_Wait rd (put_sem a) need to now bs s;
       Some ((r, bs'), s2) } })"

definition sys_osem_trywait :: "u32 \<Rightarrow> int \<Rightarrow> kern \<Rightarrow> (int \<times> kern) option" where
  "sys_osem_trywait id' need = with_ref kSemaphore id' (neg_err eSRCH) (\<lambda>a s. do {
     m \<leftarrow> k_sem s a; (r, m') \<leftarrow> Sem_Trywait need m; Some (r, put_sem a m' s) })"

definition sys_osem_post :: "u32 \<Rightarrow> int \<Rightarrow> kern \<Rightarrow> (int \<times> kern) option" where
  "sys_osem_post id' count = with_ref kSemaphore id' (neg_err eSRCH) (\<lambda>a s. do {
     m \<leftarrow> k_sem s a; (r, m') \<leftarrow> Sem_Post count m; Some (r, put_sem a m' s) })"

definition sys_osem_cancel :: "u32 \<Rightarrow> int \<Rightarrow> kern \<Rightarrow> ((int \<times> int option) \<times> kern) option" where
  "sys_osem_cancel id' set_count = with_ref kSemaphore id' (neg_err eSRCH, None) (\<lambda>a s. do {
     m \<leftarrow> k_sem s a;
     let (r, n, m') = Sem_Cancel set_count m;
     Some ((r, n), put_sem a m' s) })"

section \<open>Event queues and closing\<close>

definition sys_kqueueex :: "(u32 \<Rightarrow> bool) \<Rightarrow> nat \<Rightarrow> string option \<Rightarrow> kern \<Rightarrow> (int \<times> kern) option" where
  "sys_kqueueex ra a name s = do {
     (b, h, t) \<leftarrow> Object_new ra a kEqueue () (k_objs s);
     let s1 = s\<lparr>k_objs := t, k_ev := equeue_ctor a name (k_ev s)\<rparr>;
     h' \<leftarrow> Obj_handle a t;
     Some (handle_int h', s1) }"

definition sys_kqueue :: "(u32 \<Rightarrow> bool) \<Rightarrow> nat \<Rightarrow> kern \<Rightarrow> (int \<times> kern) option" where
  "sys_kqueue ra a s = sys_kqueueex ra a None s"

text \<open>The schedule of \<open>sys_kevent\<close> is what the other threads do to the queues.\<close>

definition sys_kevent ::
  "kevent_opts \<Rightarrow> kevent_clock \<Rightarrow> (u32 \<Rightarrow> bool) \<Rightarrow> u32 \<Rightarrow> kevent_t list \<Rightarrow> int \<Rightarrow> (int \<times> int) option
     \<Rightarrow> evworld obs list \<Rightarrow> kern \<Rightarrow> ((int \<times> kevent_t list) \<times> kern) option" where
  "sys_kevent opts clk is_socket kq changes nevents to bs =
     with_ref kEqueue kq (neg_err eBADF, []) (\<lambda>a s. do {
       (out, w, bs') \<leftarrow> Kevent opts clk is_socket a changes nevents to bs (k_ev s);
       Some ((int (length out), out), s\<lparr>k_ev := w\<rparr>) })"

text \<open>
  \<open>is_file fd\<close> says that the descriptor is a regular file without a save quota: its release is put
  off until 256 later closes. Any other table entry is released at once.
\<close>

definition kDeferredCloseWindow :: nat where "kDeferredCloseWindow = 256"

definition defer_close :: "u32 \<Rightarrow> kern \<Rightarrow> kern option" where
  "defer_close fd s =
     (if fd \<in> set (k_deferred s) then Some s
      else let q = k_deferred s @ [fd]
           in if kDeferredCloseWindow < length q then table_release (hd q) (s\<lparr>k_deferred := tl q\<rparr>)
              else Some (s\<lparr>k_deferred := q\<rparr>))"

definition sys_close :: "(u32 \<Rightarrow> bool) \<Rightarrow> u32 \<Rightarrow> kern \<Rightarrow> (int \<times> kern) option" where
  "sys_close is_file fd s =
     (if fd = - 1 then Some (neg_err eBADF, s)
      else map_option (\<lambda>s'. (0, s')) (if is_file fd then defer_close fd s else table_release fd s))"

section \<open>References\<close>

definition obj_at :: "obj_type \<Rightarrow> u32 \<Rightarrow> kern \<Rightarrow> nat option" where
  "obj_at ty id' s = (case handle_obj (k_objs s) id' of None \<Rightarrow> None
     | Some a \<Rightarrow> (case heap (k_objs s) a of None \<Rightarrow> None
                 | Some k \<Rightarrow> if ko_type k = ty then Some a else None))"

definition retained :: "nat \<Rightarrow> unit objs \<Rightarrow> unit objs" where
  "retained a t = t\<lparr>heap := (heap t)(a := map_option (\<lambda>k. k\<lparr>ko_refs := ko_refs k + 1\<rparr>) (heap t a))\<rparr>"

lemma Table_Get_eq:
  assumes "wf_objs t"
  shows "Table_Get h t = Some (handle_obj t h, case handle_obj t h of None \<Rightarrow> t | Some a \<Rightarrow> retained a t)"
proof (cases "handle_obj t h")
  case None
  then show ?thesis
    using assms by (auto simp: Table_Get_def wf_objs_def FindEntry_wf handle_obj_def split: if_splits)
next
  case (Some a)
  then have "drop_bit 2 h < ot_cap t" "en_obj (ot_tab t ! unat (drop_bit 2 h)) = Some a"
    by (auto simp: handle_obj_def split: if_splits)
  moreover obtain k where "heap t a = Some k" using handle_obj_alive[OF assms Some] by blast
  ultimately show ?thesis
    using assms Some by (simp add: Table_Get_def wf_objs_def FindEntry_wf Obj_Retain_def retained_def)
qed

lemma release_retained:
  assumes "heap t a = Some k" and "ko_refs k \<noteq> 0"
  shows "Obj_Release a (retained a t) = Some t"
  using assms by (simp add: Obj_Release_def retained_def fun_upd_idem)

lemma Unref_retained:
  assumes "heap t a = Some k" and "ko_refs k \<noteq> 0" and "k_objs s = retained a t"
  shows "Unref a s = Some (s\<lparr>k_objs := t\<rparr>)"
  using assms release_retained[OF assms(1,2)]
  by (auto simp: Unref_def put_objs_def split: option.splits)

lemma handle_refs:
  assumes "wf_objs t" and "handle_obj t h = Some a"
  obtains k where "heap t a = Some k" "1 \<le> ko_refs k" "int (table_refs (ot_tab t) a) \<le> ko_refs k"
    "0 < table_refs (ot_tab t) a"
  using handle_obj_alive[OF assms] by force

lemma FromId_eq:
  assumes "wf_objs (k_objs s)"
  shows "FromId ty id' s = Some (case obj_at ty id' s of None \<Rightarrow> (None, s)
    | Some a \<Rightarrow> (Some a, s\<lparr>k_objs := retained a (k_objs s)\<rparr>))"
proof (cases "handle_obj (k_objs s) id'")
  case None
  then show ?thesis using Table_Get_eq[OF assms] by (simp add: FromId_def obj_at_def)
next
  case (Some a)
  obtain k where k: "heap (k_objs s) a = Some k" "1 \<le> ko_refs k" using handle_refs[OF assms Some] .
  have "heap (retained a (k_objs s)) a = Some (k\<lparr>ko_refs := ko_refs k + 1\<rparr>)"
    using k(1) by (simp add: retained_def)
  moreover have "Unref a (s\<lparr>k_objs := retained a (k_objs s)\<rparr>) = Some s"
    using Unref_retained[OF k(1), of "s\<lparr>k_objs := retained a (k_objs s)\<rparr>"] k(2) by simp
  ultimately show ?thesis
    using Table_Get_eq[OF assms, of id'] Some k(1) by (simp add: FromId_def obj_at_def)
qed

lemma obj_at_SomeD:
  assumes "obj_at ty id' s = Some a"
  shows "handle_obj (k_objs s) id' = Some a" "\<exists>k. heap (k_objs s) a = Some k \<and> ko_type k = ty"
  using assms by (auto simp: obj_at_def split: option.splits if_splits)

lemma with_ref_missing:
  "\<lbrakk>wf_objs (k_objs s); obj_at ty id' s = None\<rbrakk> \<Longrightarrow> with_ref ty id' e body s = Some (e, s)"
  by (simp add: with_ref_def FromId_eq)

text \<open>A handler that leaves the object table alone gives its reference back.\<close>

lemma with_ref_local:
  assumes wf: "wf_objs (k_objs s)" and a: "obj_at ty id' s = Some a"
    and body: "body a (s\<lparr>k_objs := retained a (k_objs s)\<rparr>) = Some (r, s2)"
    and same: "k_objs s2 = retained a (k_objs s)"
  shows "with_ref ty id' e body s = Some (r, s2\<lparr>k_objs := k_objs s\<rparr>)"
proof -
  obtain k where k: "heap (k_objs s) a = Some k" "1 \<le> ko_refs k"
    using handle_refs[OF wf obj_at_SomeD(1)[OF a]] .
  show ?thesis
    using Unref_retained[OF k(1) _ same] k(2) body a by (simp add: with_ref_def FromId_eq[OF wf])
qed

section \<open>The invariant of the kernel state\<close>

text \<open>Object headers and bodies agree; a registered name belongs to a live object that still has a handle.\<close>

definition bodies_ok :: "kern \<Rightarrow> bool" where
  "bodies_ok s \<longleftrightarrow> (\<forall>a. (k_evf s a \<noteq> None) = (\<exists>k. heap (k_objs s) a = Some k \<and> ko_type k = kEventflag)) \<and>
     (\<forall>a. (k_sem s a \<noteq> None) = (\<exists>k. heap (k_objs s) a = Some k \<and> ko_type k = kSemaphore)) \<and>
     (\<forall>a. (ew_queues (k_ev s) a \<noteq> None) = (\<exists>k. heap (k_objs s) a = Some k \<and> ko_type k = kEqueue))"

definition has_handle :: "nat \<Rightarrow> kern \<Rightarrow> bool" where
  "has_handle a s \<longleftrightarrow> (\<exists>k. heap (k_objs s) a = Some k \<and> ko_handles k \<noteq> [])"

definition names_ok :: "kern \<Rightarrow> bool" where
  "names_ok s \<longleftrightarrow> distinct (map fst (k_ef_by_name s)) \<and>
     (\<forall>(n, a)\<in>set (k_ef_by_name s). n \<noteq> [] \<and> has_handle a s \<and> (\<exists>f. k_evf s a = Some f \<and> ef_name f = n)) \<and>
     (\<forall>n a. k_sem_by_name s n = Some a \<longrightarrow> has_handle a s \<and> (\<exists>m. k_sem s a = Some m \<and> sm_name m = n))"

definition kern_inv :: "kern \<Rightarrow> bool" where
  "kern_inv s \<longleftrightarrow> wf_objs (k_objs s) \<and> bodies_ok s \<and> names_ok s"

text \<open>The event flag a handle denotes, with its body.\<close>

definition evf_at :: "u32 \<Rightarrow> kern \<Rightarrow> (nat \<times> evf) option" where
  "evf_at id' s = (case obj_at kEventflag id' s of None \<Rightarrow> None
     | Some a \<Rightarrow> map_option (Pair a) (k_evf s a))"

definition sem_at :: "u32 \<Rightarrow> kern \<Rightarrow> (nat \<times> sem) option" where
  "sem_at id' s = (case obj_at kSemaphore id' s of None \<Rightarrow> None
     | Some a \<Rightarrow> map_option (Pair a) (k_sem s a))"

lemma evf_at_cases:
  assumes "kern_inv s"
  obtains "evf_at id' s = None" "obj_at kEventflag id' s = None"
  | a f where "evf_at id' s = Some (a, f)" "obj_at kEventflag id' s = Some a" "k_evf s a = Some f"
proof (cases "obj_at kEventflag id' s")
  case None
  then show ?thesis using that(1) by (simp add: evf_at_def)
next
  case (Some a)
  then obtain f where "k_evf s a = Some f"
    using assms obj_at_SomeD(2)[OF Some] unfolding kern_inv_def bodies_ok_def by blast
  then show ?thesis using that(2)[of a f] Some by (simp add: evf_at_def)
qed

lemma sem_at_cases:
  assumes "kern_inv s"
  obtains "sem_at id' s = None" "obj_at kSemaphore id' s = None"
  | a m where "sem_at id' s = Some (a, m)" "obj_at kSemaphore id' s = Some a" "k_sem s a = Some m"
proof (cases "obj_at kSemaphore id' s")
  case None
  then show ?thesis using that(1) by (simp add: sem_at_def)
next
  case (Some a)
  then obtain m where "k_sem s a = Some m"
    using assms obj_at_SomeD(2)[OF Some] unfolding kern_inv_def bodies_ok_def by blast
  then show ?thesis using that(2)[of a m] Some by (simp add: sem_at_def)
qed

lemma with_ref_evf:
  assumes inv: "kern_inv s" and body: "\<And>a f t. \<lbrakk>evf_at id' s = Some (a, f); k_evf t a = Some f\<rbrakk> \<Longrightarrow>
      body a t = Some (r a f, put_evf a (g f) t)"
  shows "with_ref kEventflag id' e body s =
    Some (case evf_at id' s of None \<Rightarrow> (e, s) | Some (a, f) \<Rightarrow> (r a f, put_evf a (g f) s))"
proof (cases rule: evf_at_cases[OF inv, of id'])
  case 1
  then show ?thesis using with_ref_missing[OF _ 1(2), of e body] inv by (simp add: kern_inv_def)
next
  case (2 a f)
  let ?t = "s\<lparr>k_objs := retained a (k_objs s)\<rparr>"
  have "body a ?t = Some (r a f, put_evf a (g f) ?t)" using 2 by (intro body) simp_all
  from with_ref_local[where body=body, OF _ 2(2) this] inv 2 show ?thesis by (simp add: kern_inv_def put_evf_def)
qed

lemma with_ref_sem:
  assumes inv: "kern_inv s" and body: "\<And>a m t. \<lbrakk>sem_at id' s = Some (a, m); k_sem t a = Some m\<rbrakk> \<Longrightarrow>
      body a t = Some (r a m, put_sem a (g m) t)"
  shows "with_ref kSemaphore id' e body s =
    Some (case sem_at id' s of None \<Rightarrow> (e, s) | Some (a, m) \<Rightarrow> (r a m, put_sem a (g m) s))"
proof (cases rule: sem_at_cases[OF inv, of id'])
  case 1
  then show ?thesis using with_ref_missing[OF _ 1(2), of e body] inv by (simp add: kern_inv_def)
next
  case (2 a m)
  let ?t = "s\<lparr>k_objs := retained a (k_objs s)\<rparr>"
  have "body a ?t = Some (r a m, put_sem a (g m) ?t)" using 2 by (intro body) simp_all
  from with_ref_local[where body=body, OF _ 2(2) this] inv 2 show ?thesis by (simp add: kern_inv_def put_sem_def)
qed

lemma kern_inv_put_evf: "\<lbrakk>kern_inv s; k_evf s a = Some f; ef_name f' = ef_name f\<rbrakk> \<Longrightarrow>
    kern_inv (put_evf a f' s)"
  by (auto simp: kern_inv_def bodies_ok_def names_ok_def put_evf_def has_handle_def split: if_splits)

lemma kern_inv_put_sem: "\<lbrakk>kern_inv s; k_sem s a = Some m; sm_name m' = sm_name m\<rbrakk> \<Longrightarrow>
    kern_inv (put_sem a m' s)"
  by (auto simp: kern_inv_def bodies_ok_def names_ok_def put_sem_def has_handle_def split: if_splits)
    (metis option.inject)

section \<open>Creation\<close>

lemma reg_put_set: "distinct (map fst r) \<Longrightarrow> set (reg_put n a r) = insert (n, a) {x \<in> set r. fst x \<noteq> n} \<and>
    distinct (map fst (reg_put n a r))"
  by (induction n a r rule: reg_put.induct) (auto simp: image_iff)

lemma reg_erase_set: "distinct (map fst r) \<Longrightarrow> set (reg_erase n r) = {x \<in> set r. fst x \<noteq> n} \<and>
    distinct (map fst (reg_erase n r))"
  by (induction n r rule: reg_erase.induct) (auto simp: image_iff)

lemma map_of_reg_put: "map_of (reg_put n a r) = (map_of r)(n \<mapsto> a)"
  by (induction n a r rule: reg_put.induct) (auto simp: fun_eq_iff)

lemma table_refs_fresh:
  assumes "wf_objs t" and "heap t a = None"
  shows "table_refs (ot_tab t) a = 0"
  using assms by (auto simp: wf_objs_def refs_ok_def)

lemma Object_new_ok:
  assumes wf: "wf_objs t" and fresh: "heap t a = None" and room: "has_free t"
  shows "\<exists>h t'. Object_new ra a ty () t = Some (True, h, t') \<and> wf_objs t' \<and> h \<noteq> 0 \<and>
    heap t' = (heap t)(a \<mapsto> \<lparr>ko_type = ty, ko_handles = [h], ko_refs = 1, ko_data = ()\<rparr>) \<and>
    handle_obj t h = None \<and>
    (\<forall>h'. handle_obj t' h' = (if drop_bit 2 h' = drop_bit 2 h then Some a else handle_obj t h'))"
proof -
  let ?k = "\<lparr>ko_type = ty, ko_handles = [], ko_refs = 0, ko_data = ()\<rparr>"
  let ?t = "t\<lparr>heap := (heap t)(a \<mapsto> ?k)\<rparr>"
  have refs: "table_refs (ot_tab ?t) a = 0" using table_refs_fresh[OF wf fresh] by simp
  have "wf_objs ?t"
    using wf refs by (auto simp: wf_objs_def refs_ok_def)
  moreover have "has_free ?t" using room by (simp add: has_free_def)
  moreover have "handle_obj ?t = handle_obj t" by (simp add: handle_obj_def fun_eq_iff)
  ultimately show ?thesis
    using Table_Add_spec[of ?t a ?k ra] refs fresh by (auto simp: Object_new_def)
qed

lemma evf_new_ok:
  assumes inv: "kern_inv s" and fresh: "heap (k_objs s) a = None" and room: "has_free (k_objs s)"
  shows "\<exists>h t. evf_new ra a nm init sticky s = Some (handle_int h,
      s\<lparr>k_objs := t, k_evf := (k_evf s)(a \<mapsto> EventFlag_new nm init sticky),
        k_ef_by_name := (if ef_name (EventFlag_new nm init sticky) \<noteq> []
          then reg_put (ef_name (EventFlag_new nm init sticky)) a (k_ef_by_name s) else k_ef_by_name s)\<rparr>) \<and>
    wf_objs t \<and> h \<noteq> 0 \<and> handle_obj (k_objs s) h = None \<and>
    heap t = (heap (k_objs s))(a \<mapsto> \<lparr>ko_type = kEventflag, ko_handles = [h], ko_refs = 1, ko_data = ()\<rparr>) \<and>
    (\<forall>h'. handle_obj t h' = (if drop_bit 2 h' = drop_bit 2 h then Some a else handle_obj (k_objs s) h'))"
proof -
  obtain h t where o: "Object_new ra a kEventflag () (k_objs s) = Some (True, h, t)" "wf_objs t" "h \<noteq> 0"
      "heap t = (heap (k_objs s))(a \<mapsto> \<lparr>ko_type = kEventflag, ko_handles = [h], ko_refs = 1, ko_data = ()\<rparr>)"
      "handle_obj (k_objs s) h = None"
      "\<forall>h'. handle_obj t h' = (if drop_bit 2 h' = drop_bit 2 h then Some a else handle_obj (k_objs s) h')"
    using Object_new_ok[OF _ fresh room, of ra kEventflag] inv unfolding kern_inv_def by blast
  then have "Obj_handle a t = Some h" by (simp add: Obj_handle_def)
  with o show ?thesis
    unfolding evf_new_def by (intro exI[of _ h] exI[of _ t]) (simp add: Let_def)
qed

lemma kern_inv_evf_new:
  assumes inv: "kern_inv s" and fresh: "heap (k_objs s) a = None"
    and t: "wf_objs t" "heap t = (heap (k_objs s))(a \<mapsto> k)" "ko_type k = kEventflag" "ko_handles k \<noteq> []"
    and nm: "ef_name f = n"
  shows "kern_inv (s\<lparr>k_objs := t, k_evf := (k_evf s)(a \<mapsto> f),
    k_ef_by_name := (if n \<noteq> [] then reg_put n a (k_ef_by_name s) else k_ef_by_name s)\<rparr>)"
    (is "kern_inv ?s")
proof -
  have d: "distinct (map fst (k_ef_by_name s))" using inv by (simp add: kern_inv_def names_ok_def)
  have a: "k_evf s a = None" "k_sem s a = None" "ew_queues (k_ev s) a = None"
    using inv fresh unfolding kern_inv_def bodies_ok_def by (metis option.distinct(1))+
  have "bodies_ok ?s"
    using inv a t fresh unfolding kern_inv_def bodies_ok_def by (auto split: if_splits)
  moreover have "names_ok ?s"
    using inv a t nm reg_put_set[OF d, of n a] fresh
    unfolding kern_inv_def names_ok_def has_handle_def by (fastforce split: if_splits)
  ultimately show ?thesis using t(1) by (simp add: kern_inv_def)
qed

section \<open>Deletion\<close>

lemma Release_wf:
  assumes "wf_objs t" and "heap t a = Some k" and "int (table_refs (ot_tab t) a) < ko_refs k"
  shows "Obj_Release a t = Some (t\<lparr>heap := (heap t)(a := if ko_refs k = 1 then None
      else Some (k\<lparr>ko_refs := ko_refs k - 1\<rparr>))\<rparr>) \<and>
    wf_objs (t\<lparr>heap := (heap t)(a := if ko_refs k = 1 then None else Some (k\<lparr>ko_refs := ko_refs k - 1\<rparr>))\<rparr>)"
proof -
  have "wf_objs (t\<lparr>heap := (heap t)(a := if ko_refs k = 1 then None else Some (k\<lparr>ko_refs := ko_refs k - 1\<rparr>))\<rparr>)"
    using assms by (auto simp: wf_objs_def refs_ok_def)
  then show ?thesis using assms(2) by (simp add: Obj_Release_def Let_def)
qed

lemma retained_wf: "wf_objs t \<Longrightarrow> wf_objs (retained a t)"
  unfolding wf_objs_def refs_ok_def
proof (elim conjE, intro conjI allI impI)
  fix q assume ok: "\<forall>q. 0 < table_refs (ot_tab t) q \<longrightarrow>
      (\<exists>k. heap t q = Some k \<and> int (table_refs (ot_tab t) q) \<le> ko_refs k)"
    and "0 < table_refs (ot_tab (retained a t)) q"
  then obtain k where "heap t q = Some k" "int (table_refs (ot_tab t) q) \<le> ko_refs k"
    by (auto simp: retained_def)
  then show "\<exists>k. heap (retained a t) q = Some k \<and> int (table_refs (ot_tab (retained a t)) q) \<le> ko_refs k"
    by (auto simp: retained_def)
qed (simp add: retained_def)

lemma handle_obj_retained [simp]: "handle_obj (retained a t) = handle_obj t"
  by (simp add: handle_obj_def retained_def fun_eq_iff)

text \<open>
  Releasing the table entry of an object through a reference that is dropped afterwards: other
  objects keep their headers, and the object keeps its header or goes away.
\<close>

lemma release_and_unref:
  assumes wf: "wf_objs t" and h: "handle_obj t id' = Some a"
  shows "\<exists>t1 t2. Table_Release id' (retained a t) = Some (True, t1) \<and> heap t1 a \<noteq> None \<and>
    Obj_Release a t1 = Some t2 \<and> wf_objs t2 \<and> (\<forall>b. b \<noteq> a \<longrightarrow> heap t2 b = heap t b) \<and>
    (\<forall>k2. heap t2 a = Some k2 \<longrightarrow> (\<exists>k. heap t a = Some k \<and> ko_type k2 = ko_type k)) \<and>
    (\<forall>k1. heap t1 a = Some k1 \<longrightarrow> (\<exists>k. heap t a = Some k \<and> ko_type k1 = ko_type k)) \<and>
    (en_ref (ot_tab t ! unat (drop_bit 2 id')) = 1 \<longrightarrow> handle_obj t2 id' = None)"
proof -
  let ?i = "unat (drop_bit 2 id')"
  obtain k where k: "heap t a = Some k" "1 \<le> ko_refs k" "int (table_refs (ot_tab t) a) \<le> ko_refs k"
      "0 < table_refs (ot_tab t) a"
    using handle_refs[OF wf h] .
  let ?k = "k\<lparr>ko_refs := ko_refs k + 1\<rparr>"
  have r: "heap (retained a t) a = Some ?k" "ot_tab (retained a t) = ot_tab t" "ot_cap (retained a t) = ot_cap t"
    using k(1) by (simp_all add: retained_def)
  obtain t1 where t1: "Table_Release id' (retained a t) = Some (True, t1)" "wf_objs t1" "ot_cap t1 = ot_cap t"
      "if en_ref (ot_tab t ! ?i) = 1
       then ot_tab t1 = (ot_tab t)[?i := empty_entry] \<and> heap t1 = (heap (retained a t))(a :=
         Some (?k\<lparr>ko_handles := remove1 id' (ko_handles k), ko_refs := ko_refs k\<rparr>))
       else heap t1 = heap (retained a t) \<and> (\<forall>q. table_refs (ot_tab t1) q = table_refs (ot_tab t) q)"
    using Table_Release_spec[OF retained_wf[OF wf], of a id' a ?k] h r k(2) by auto
  have idx: "?i < length (ot_tab t)" "en_obj (ot_tab t ! ?i) = Some a"
    using h wf handle_index by (auto simp: handle_obj_def wf_objs_def split: if_splits)
  show ?thesis
  proof (cases "en_ref (ot_tab t ! ?i) = 1")
    case True
    let ?k1 = "?k\<lparr>ko_handles := remove1 id' (ko_handles k), ko_refs := ko_refs k\<rparr>"
    have h1: "heap t1 = (heap (retained a t))(a \<mapsto> ?k1)" "ot_tab t1 = (ot_tab t)[?i := empty_entry]"
      using t1(4) True by auto
    have "table_refs (ot_tab t1) a + 1 = table_refs (ot_tab t) a"
      using table_refs_update[OF idx(1), of empty_entry a] idx(2) h1(2) by (simp add: empty_entry_def)
    then have lt: "int (table_refs (ot_tab t1) a) < ko_refs ?k1" using k(3) by simp
    have ka: "heap t1 a = Some ?k1" using h1 by simp
    have none: "handle_obj t1 id' = None"
      using h1(2) idx(1) t1(3) by (simp add: handle_obj_def empty_entry_def)
    then show ?thesis
      using Release_wf[OF t1(2) ka lt] t1(1) ka h1(1) k(1)
      by (auto simp: handle_obj_def retained_def)
  next
    case False
    then have h1: "heap t1 = heap (retained a t)" "table_refs (ot_tab t1) a = table_refs (ot_tab t) a"
      using t1(4) by auto
    then have ka: "heap t1 a = Some ?k" and lt: "int (table_refs (ot_tab t1) a) < ko_refs ?k"
      using r(1) k(3) by simp_all
    show ?thesis
      using Release_wf[OF t1(2) ka lt] t1(1) ka h1(1) k False by (auto simp: retained_def)
  qed
qed

text \<open>What \<open>sys_evf_delete\<close> does to a flag.\<close>

lemma evf_delete_ok:
  assumes inv: "kern_inv s" and e: "evf_at id' s = Some (a, f)"
  shows "\<exists>t. sys_evf_delete id' s = Some (0, s\<lparr>k_objs := t,
      k_ef_by_name := (if ef_name f \<noteq> [] then reg_erase (ef_name f) (k_ef_by_name s) else k_ef_by_name s),
      k_evf := (if heap t a = None then (k_evf s)(a := None) else k_evf s)\<rparr>) \<and> wf_objs t \<and>
    (\<forall>b. b \<noteq> a \<longrightarrow> heap t b = heap (k_objs s) b) \<and>
    (\<forall>k. heap t a = Some k \<longrightarrow> ko_type k = kEventflag) \<and>
    (en_ref (ot_tab (k_objs s) ! unat (drop_bit 2 id')) = 1 \<longrightarrow> handle_obj t id' = None)"
proof -
  have a: "obj_at kEventflag id' s = Some a" "k_evf s a = Some f"
    using e by (auto simp: evf_at_def split: option.splits)
  obtain k where k: "handle_obj (k_objs s) id' = Some a" "heap (k_objs s) a = Some k" "ko_type k = kEventflag"
    using obj_at_SomeD[OF a(1)] by blast
  have wf: "wf_objs (k_objs s)" using inv by (simp add: kern_inv_def)
  obtain t1 t2 where t: "Table_Release id' (retained a (k_objs s)) = Some (True, t1)" "heap t1 a \<noteq> None"
      "Obj_Release a t1 = Some t2" "wf_objs t2" "\<forall>b. b \<noteq> a \<longrightarrow> heap t2 b = heap (k_objs s) b"
      "\<forall>k2. heap t2 a = Some k2 \<longrightarrow> ko_type k2 = kEventflag" "\<forall>k1. heap t1 a = Some k1 \<longrightarrow> ko_type k1 = kEventflag"
      "en_ref (ot_tab (k_objs s) ! unat (drop_bit 2 id')) = 1 \<longrightarrow> handle_obj t2 id' = None"
    using release_and_unref[OF wf k(1)] k(2,3) by auto
  let ?reg = "if ef_name f \<noteq> [] then reg_erase (ef_name f) (k_ef_by_name s) else k_ef_by_name s"
  let ?s1 = "s\<lparr>k_objs := retained a (k_objs s)\<rparr>"
  have rel: "table_release id' (?s1\<lparr>k_ef_by_name := ?reg\<rparr>) = Some (s\<lparr>k_objs := t1, k_ef_by_name := ?reg\<rparr>)"
    using t(1,2) k(1) by (auto simp: table_release_def put_objs_def split: option.splits)
  have same: "(if ef_name f \<noteq> [] then ?s1\<lparr>k_ef_by_name := reg_erase (ef_name f) (k_ef_by_name ?s1)\<rparr> else ?s1) =
      ?s1\<lparr>k_ef_by_name := ?reg\<rparr>" by simp
  have un: "Unref a (s\<lparr>k_objs := t1, k_ef_by_name := ?reg\<rparr>) = Some (s\<lparr>k_objs := t2, k_ef_by_name := ?reg,
      k_evf := (if heap t2 a = None then (k_evf s)(a := None) else k_evf s)\<rparr>)"
    using t(2,3,7) by (auto simp: Unref_def put_objs_def run_dtor_def split: option.splits)
  have "sys_evf_delete id' s = Some (0, s\<lparr>k_objs := t2, k_ef_by_name := ?reg,
      k_evf := (if heap t2 a = None then (k_evf s)(a := None) else k_evf s)\<rparr>)"
    unfolding sys_evf_delete_def with_ref_def FromId_eq[OF wf] a(1)
    using a(2) rel un by (simp add: Let_def same del: if_image_distrib split del: if_split)
  then show ?thesis using t by blast
qed

lemma evf_delete_inv:
  assumes inv: "kern_inv s" and e: "evf_at id' s = Some (a, f)"
    and t: "wf_objs t" "\<forall>b. b \<noteq> a \<longrightarrow> heap t b = heap (k_objs s) b"
      "\<forall>k. heap t a = Some k \<longrightarrow> ko_type k = kEventflag"
  shows "kern_inv (s\<lparr>k_objs := t,
      k_ef_by_name := (if ef_name f \<noteq> [] then reg_erase (ef_name f) (k_ef_by_name s) else k_ef_by_name s),
      k_evf := (if heap t a = None then (k_evf s)(a := None) else k_evf s)\<rparr>)"
    (is "kern_inv ?s")
proof -
  have a: "k_evf s a = Some f" "\<exists>k. heap (k_objs s) a = Some k \<and> ko_type k = kEventflag"
    using e obj_at_SomeD(2) by (auto simp: evf_at_def split: option.splits)
  have d: "distinct (map fst (k_ef_by_name s))" using inv by (simp add: kern_inv_def names_ok_def)
  let ?reg = "if ef_name f \<noteq> [] then reg_erase (ef_name f) (k_ef_by_name s) else k_ef_by_name s"
  have other: "b \<noteq> a \<and> (n, b) \<in> set (k_ef_by_name s)" if "(n, b) \<in> set ?reg" for n b
    using that inv a(1) reg_erase_set[OF d, of "ef_name f"] unfolding kern_inv_def names_ok_def
    by (fastforce split: if_splits)
  have sem: "b \<noteq> a" if "k_sem_by_name s n = Some b" for n b
    using that inv a(2) unfolding kern_inv_def names_ok_def bodies_ok_def
    by (metis obj_type.distinct option.distinct(1) option.inject)
  have B: "bodies_ok s" and N: "names_ok s" using inv by (simp_all add: kern_inv_def)
  have na: "k_sem s a = None" "ew_queues (k_ev s) a = None"
    using B a(2) unfolding bodies_ok_def by (metis obj_type.distinct option.inject)+
  have "bodies_ok ?s"
    unfolding bodies_ok_def
  proof (intro conjI allI)
    fix b
    show "(k_evf ?s b \<noteq> None) = (\<exists>k. heap (k_objs ?s) b = Some k \<and> ko_type k = kEventflag)"
      using B t(2,3) a by (cases "b = a"; cases "heap t a") (auto simp: bodies_ok_def)
    show "(k_sem ?s b \<noteq> None) = (\<exists>k. heap (k_objs ?s) b = Some k \<and> ko_type k = kSemaphore)"
      using B t(2,3) na by (cases "b = a") (auto simp: bodies_ok_def)
    show "(ew_queues (k_ev ?s) b \<noteq> None) = (\<exists>k. heap (k_objs ?s) b = Some k \<and> ko_type k = kEqueue)"
      using B t(2,3) na by (cases "b = a") (auto simp: bodies_ok_def)
  qed
  moreover have "names_ok ?s"
    unfolding names_ok_def
  proof (intro conjI allI impI ballI)
    show "distinct (map fst (k_ef_by_name ?s))" using d reg_erase_set[OF d] by simp
    show "case x of (n, b) \<Rightarrow> n \<noteq> [] \<and> has_handle b ?s \<and> (\<exists>f. k_evf ?s b = Some f \<and> ef_name f = n)"
      if "x \<in> set (k_ef_by_name ?s)" for x
      using that other[of "fst x" "snd x"] N t(2) by (fastforce simp: names_ok_def has_handle_def)
    fix n b assume "k_sem_by_name ?s n = Some b"
    then show "has_handle b ?s" "\<exists>m. k_sem ?s b = Some m \<and> sm_name m = n"
      using sem[of n b] N t(2) by (auto simp: names_ok_def has_handle_def)
  qed
  ultimately show ?thesis using t(1) by (simp add: kern_inv_def)
qed

lemma with_ref_sem_opt:
  assumes inv: "kern_inv s" and body: "\<And>a m t. k_sem t a = Some m \<Longrightarrow>
      body a t = map_option (\<lambda>(r, m'). (r, put_sem a m' t)) (g m)"
  shows "with_ref kSemaphore id' e body s = (case sem_at id' s of None \<Rightarrow> Some (e, s)
    | Some (a, m) \<Rightarrow> map_option (\<lambda>(r, m'). (r, put_sem a m' s)) (g m))"
proof (cases rule: sem_at_cases[OF inv, of id'])
  case 1
  then show ?thesis using with_ref_missing[OF _ 1(2), of e body] inv by (simp add: kern_inv_def)
next
  case (2 a m)
  have wf: "wf_objs (k_objs s)" using inv by (simp add: kern_inv_def)
  let ?t = "s\<lparr>k_objs := retained a (k_objs s)\<rparr>"
  have b: "body a ?t = map_option (\<lambda>(r, m'). (r, put_sem a m' ?t)) (g m)" using 2 by (intro body) simp
  show ?thesis
  proof (cases "g m")
    case None
    then show ?thesis using 2 b by (simp add: with_ref_def FromId_eq[OF wf])
  next
    case (Some x)
    obtain r m' where "x = (r, m')" by fastforce
    with Some b have "body a ?t = Some (r, put_sem a m' ?t)" by simp
    from with_ref_local[where body=body, OF wf 2(2) this] 2 Some \<open>x = (r, m')\<close>
    show ?thesis by (simp add: put_sem_def)
  qed
qed

lemma bind_pair: "Option.bind x (\<lambda>(r, m). Some (r, f m)) = map_option (\<lambda>(r, m). (r, f m)) x"
  by (cases x) auto

lemma Set_name [simp]: "ef_name (EventFlag_Set tid b f) = ef_name f"
proof -
  let ?f1 = "f\<lparr>ef_bits := ef_bits f OR b, ef_last_set_tid := tid\<rparr>"
  obtain ws f2 where "set_loop (ef_waiters f) ?f1 = (ws, f2)" by fastforce
  with set_loop_fields[OF this] show ?thesis by (simp add: EventFlag_Set_def Let_def)
qed

lemma Clear_name [simp]: "ef_name (EventFlag_Clear b f) = ef_name f"
  by (simp add: EventFlag_Clear_def)

lemma Cancel_name [simp]: "ef_name (snd (EventFlag_Cancel p f)) = ef_name f"
  by (simp add: EventFlag_Cancel_def case_prod_beta)

text \<open>The flag in the kernel heap is a cell, so the guarantees of the wait hold there too.\<close>

interpretation evf_kern: flag_cell "\<lambda>s. k_evf s a" "put_evf a" for a
  by unfold_locales (simp add: put_evf_def)

interpretation sem_kern: sem_cell "\<lambda>s. k_sem s a" "put_sem a" for a
  by unfold_locales (simp add: put_sem_def)

section \<open>Properties\<close>

text \<open>
  C10: The event-flag syscalls implement the operations of the flag their handle denotes. In a
  well-formed kernel state a set, clear or cancel on a handle of a flag changes that flag as the
  class operation says and nothing else, every reference taken on the way is given back, and the
  state stays well formed; on any other handle the call fails with ESRCH and changes nothing.
\<close>

theorem evf_calls_refine:
  assumes "kern_inv s"
  shows "sys_evf_set tid id' bits s = Some (case evf_at id' s of None \<Rightarrow> (- 3, s)
      | Some (a, f) \<Rightarrow> (0, put_evf a (EventFlag_Set tid bits f) s)) \<and>
    sys_evf_clear id' bits s = Some (case evf_at id' s of None \<Rightarrow> (- 3, s)
      | Some (a, f) \<Rightarrow> (0, put_evf a (EventFlag_Clear bits f) s)) \<and>
    sys_evf_cancel id' bits s = Some (case evf_at id' s of None \<Rightarrow> ((- 3, None), s)
      | Some (a, f) \<Rightarrow> ((0, Some (fst (EventFlag_Cancel bits f))),
                       put_evf a (snd (EventFlag_Cancel bits f)) s)) \<and>
    (case evf_at id' s of None \<Rightarrow> True | Some (a, f) \<Rightarrow>
       kern_inv (put_evf a (EventFlag_Set tid bits f) s) \<and>
       kern_inv (put_evf a (EventFlag_Clear bits f) s) \<and>
       kern_inv (put_evf a (snd (EventFlag_Cancel bits f)) s))"
proof (intro conjI)
  show "sys_evf_set tid id' bits s = Some (case evf_at id' s of None \<Rightarrow> (- 3, s)
      | Some (a, f) \<Rightarrow> (0, put_evf a (EventFlag_Set tid bits f) s))"
    unfolding sys_evf_set_def neg_err_simps
    by (subst with_ref_evf[OF assms, where r="\<lambda>_ _. 0" and g="EventFlag_Set tid bits"]) simp_all
  show "sys_evf_clear id' bits s = Some (case evf_at id' s of None \<Rightarrow> (- 3, s)
      | Some (a, f) \<Rightarrow> (0, put_evf a (EventFlag_Clear bits f) s))"
    unfolding sys_evf_clear_def neg_err_simps
    by (subst with_ref_evf[OF assms, where r="\<lambda>_ _. 0" and g="EventFlag_Clear bits"]) simp_all
  show "sys_evf_cancel id' bits s = Some (case evf_at id' s of None \<Rightarrow> ((- 3, None), s)
      | Some (a, f) \<Rightarrow> ((0, Some (fst (EventFlag_Cancel bits f))),
                       put_evf a (snd (EventFlag_Cancel bits f)) s))"
    unfolding sys_evf_cancel_def neg_err_simps
    by (subst with_ref_evf[OF assms, where r="\<lambda>_ f. (0, Some (fst (EventFlag_Cancel bits f)))"
        and g="\<lambda>f. snd (EventFlag_Cancel bits f)"]) (simp_all add: case_prod_beta)
  show "case evf_at id' s of None \<Rightarrow> True | Some (a, f) \<Rightarrow>
       kern_inv (put_evf a (EventFlag_Set tid bits f) s) \<and>
       kern_inv (put_evf a (EventFlag_Clear bits f) s) \<and>
       kern_inv (put_evf a (snd (EventFlag_Cancel bits f)) s)"
    by (cases rule: evf_at_cases[OF assms, of id']) (auto intro: kern_inv_put_evf[OF assms])
qed

text \<open>The kernel at the start of a process, with a table of empty slots.\<close>

definition ex_kern :: kern where
  "ex_kern = \<lparr>k_objs = \<lparr>ot_cap = 0x4000, ot_last = 1, ot_tab = replicate 0x4000 empty_entry, heap = Map.empty\<rparr>,
     k_evf = Map.empty, k_sem = Map.empty,
     k_ev = \<lparr>ew_queues = Map.empty, ew_reg = [], ew_vblank_started = False, ew_flip_count = 0,
       ew_watched = [], ew_watch_started = False, ew_eop_seq = 0, ew_last_eop_data = 0,
       ew_eop_raw = False, ew_last_eop_ctx = 0\<rparr>,
     k_ef_by_name = [], k_sem_by_name = Map.empty, k_deferred = []\<rparr>"

lemma ex_kern_refs: "table_refs (replicate n empty_entry) q = 0"
  by (simp add: table_refs_def empty_entry_def)

lemma en_obj_empty [simp]: "en_obj empty_entry = None"
  by (simp add: empty_entry_def)

lemma ex_kern_inv: "kern_inv ex_kern"
  by (simp add: kern_inv_def ex_kern_def bodies_ok_def names_ok_def wf_objs_def wf_table_def refs_ok_def
      ex_kern_refs)

lemma ex_kern_room: "has_free (k_objs ex_kern)" "heap (k_objs ex_kern) a = None"
  unfolding has_free_def by (auto simp: ex_kern_def empty_entry_def intro!: exI[of _ 2])

theorem evf_calls_refine_witness:
  "kern_inv ex_kern \<and> sys_evf_set 1 4 7 ex_kern = Some (- 3, ex_kern)"
proof -
  have "evf_at 4 ex_kern = None"
    by (simp add: evf_at_def obj_at_def handle_obj_def ex_kern_def empty_entry_def)
  then show ?thesis using evf_calls_refine[OF ex_kern_inv, of 1 4 7] ex_kern_inv by simp
qed

text \<open>
  The semaphore syscalls implement the operations of the semaphore their handle denotes, and
  fail with ESRCH on any other handle; they are undefined exactly when the operation overflows.
\<close>

theorem osem_calls_refine:
  assumes "kern_inv s"
  shows "sys_osem_trywait id' n s = (case sem_at id' s of None \<Rightarrow> Some (- 3, s)
      | Some (a, m) \<Rightarrow> map_option (\<lambda>(r, m'). (r, put_sem a m' s)) (Sem_Trywait n m)) \<and>
    sys_osem_post id' n s = (case sem_at id' s of None \<Rightarrow> Some (- 3, s)
      | Some (a, m) \<Rightarrow> map_option (\<lambda>(r, m'). (r, put_sem a m' s)) (Sem_Post n m)) \<and>
    sys_osem_cancel id' n s = (case sem_at id' s of None \<Rightarrow> Some ((- 3, None), s)
      | Some (a, m) \<Rightarrow> (case Sem_Cancel n m of (r, k, m') \<Rightarrow> Some ((r, k), put_sem a m' s)))"
proof (intro conjI)
  show "sys_osem_trywait id' n s = (case sem_at id' s of None \<Rightarrow> Some (- 3, s)
      | Some (a, m) \<Rightarrow> map_option (\<lambda>(r, m'). (r, put_sem a m' s)) (Sem_Trywait n m))"
    unfolding sys_osem_trywait_def neg_err_simps
    by (subst with_ref_sem_opt[OF assms, where g="Sem_Trywait n"]) (simp_all add: bind_pair)
  show "sys_osem_post id' n s = (case sem_at id' s of None \<Rightarrow> Some (- 3, s)
      | Some (a, m) \<Rightarrow> map_option (\<lambda>(r, m'). (r, put_sem a m' s)) (Sem_Post n m))"
    unfolding sys_osem_post_def neg_err_simps
    by (subst with_ref_sem_opt[OF assms, where g="Sem_Post n"]) (simp_all add: bind_pair)
  show "sys_osem_cancel id' n s = (case sem_at id' s of None \<Rightarrow> Some ((- 3, None), s)
      | Some (a, m) \<Rightarrow> (case Sem_Cancel n m of (r, k, m') \<Rightarrow> Some ((r, k), put_sem a m' s)))"
    unfolding sys_osem_cancel_def neg_err_simps
    by (subst with_ref_sem[OF assms, where r="\<lambda>_ m. (fst (Sem_Cancel n m), fst (snd (Sem_Cancel n m)))"
        and g="\<lambda>m. snd (snd (Sem_Cancel n m))"]) (auto simp: case_prod_beta split: option.splits)
qed

theorem osem_calls_refine_witness:
  "kern_inv ex_kern \<and> sys_osem_post 4 1 ex_kern = Some (- 3, ex_kern)"
proof -
  have "sem_at 4 ex_kern = None"
    by (simp add: sem_at_def obj_at_def handle_obj_def ex_kern_def empty_entry_def)
  then show ?thesis using osem_calls_refine[OF ex_kern_inv, of 4 1] ex_kern_inv by simp
qed



text \<open>
  \<open>sys_evf_delete\<close> frees the name of the flag it deletes even when the name has passed to a
  newer flag: afterwards the newer flag is alive but can no longer be opened by its name.
\<close>

theorem evf_delete_drops_newer:
  assumes "kern_inv s" and "evf_at id' s = Some (a, f)" and "ef_name f = n"
    and "map_of (k_ef_by_name s) n = Some b" and "b \<noteq> a"
  shows "\<exists>s'. sys_evf_delete id' s = Some (0, s') \<and> kern_inv s' \<and> k_evf s' b = k_evf s b \<and>
    k_evf s b \<noteq> None \<and> map_of (k_ef_by_name s') n = None"
proof -
  have reg: "(n, b) \<in> set (k_ef_by_name s)" using assms(4) by (rule map_of_SomeD)
  then have b: "n \<noteq> []" "k_evf s b \<noteq> None"
    using assms(1) unfolding kern_inv_def names_ok_def by fastforce+
  have d: "distinct (map fst (k_ef_by_name s))" using assms(1) by (simp add: kern_inv_def names_ok_def)
  have "map_of (reg_erase n (k_ef_by_name s)) n = None"
    using reg_erase_set[OF d, of n] by (auto simp: map_of_eq_None_iff)
  moreover obtain t where "sys_evf_delete id' s = Some (0, s\<lparr>k_objs := t,
      k_ef_by_name := (if ef_name f \<noteq> [] then reg_erase (ef_name f) (k_ef_by_name s) else k_ef_by_name s),
      k_evf := (if heap t a = None then (k_evf s)(a := None) else k_evf s)\<rparr>)" "wf_objs t"
    "\<forall>b. b \<noteq> a \<longrightarrow> heap t b = heap (k_objs s) b" "\<forall>k. heap t a = Some k \<longrightarrow> ko_type k = kEventflag"
    using evf_delete_ok[OF assms(1,2)] by blast
  moreover note evf_delete_inv[OF assms(1,2) this(2-4)]
  ultimately show ?thesis using assms(3,5) b by auto
qed

text \<open>Two flags created one after the other under the name \<open>x\<close>, with the handles 4 and 8.\<close>

definition flag_head :: "u32 \<Rightarrow> unit kobj" where
  "flag_head h = \<lparr>ko_type = kEventflag, ko_handles = [h], ko_refs = 1, ko_data = ()\<rparr>"

definition ex_twins :: kern where
  "ex_twins = ex_kern\<lparr>k_objs := \<lparr>ot_cap = 0x4000, ot_last = 1,
       ot_tab = ((replicate 0x4000 empty_entry)[1 := \<lparr>en_ref = 1, en_obj = Some 7\<rparr>])
         [2 := \<lparr>en_ref = 1, en_obj = Some 8\<rparr>],
       heap = [7 \<mapsto> flag_head 4, 8 \<mapsto> flag_head 8]\<rparr>,
     k_evf := [7 \<mapsto> EventFlag_new (Some ''x'') 1 0, 8 \<mapsto> EventFlag_new (Some ''x'') 2 0],
     k_ef_by_name := [(''x'', 8)]\<rparr>"

lemma ex_twins_refs: "table_refs (ot_tab (k_objs ex_twins)) q = (if q = 7 \<or> q = 8 then 1 else 0)"
proof -
  let ?t1 = "(replicate 0x4000 empty_entry)[1 := \<lparr>en_ref = 1, en_obj = Some 7\<rparr>]"
  have "table_refs ?t1 q = (if q = 7 then 1 else 0)"
    using table_refs_update[of 1 "replicate 0x4000 empty_entry" "\<lparr>en_ref = 1, en_obj = Some 7\<rparr>" q]
    by (auto simp: ex_kern_refs)
  then show ?thesis
    using table_refs_update[of 2 ?t1 "\<lparr>en_ref = 1, en_obj = Some 8\<rparr>" q] by (auto simp: ex_twins_def)
qed

lemma ex_twins_inv: "kern_inv ex_twins"
proof -
  have "wf_objs (k_objs ex_twins)"
    unfolding wf_objs_def refs_ok_def ex_twins_refs
    by (auto simp: ex_twins_def wf_table_def flag_head_def)
  then show ?thesis
    by (auto simp: kern_inv_def bodies_ok_def names_ok_def has_handle_def ex_twins_def ex_kern_def
        flag_head_def EventFlag_new_def)
qed

lemma ex_twins_at: "evf_at 4 ex_twins = Some (7, EventFlag_new (Some ''x'') 1 0)"
    "evf_at 8 ex_twins = Some (8, EventFlag_new (Some ''x'') 2 0)"
  by (simp_all add: evf_at_def obj_at_def handle_obj_def ex_twins_def flag_head_def)

theorem evf_delete_drops_newer_witness:
  "\<exists>s'. sys_evf_delete 4 ex_twins = Some (0, s') \<and>
     k_evf s' 8 = Some (EventFlag_new (Some ''x'') 2 0) \<and> map_of (k_ef_by_name s') ''x'' = None"
  using evf_delete_drops_newer[OF ex_twins_inv ex_twins_at(1), of "''x''" 8]
  by (auto simp: ex_twins_def EventFlag_new_def)

text \<open>
  \<open>sys_close\<close> on the handle of a named event flag leaves a dangling pointer in the name
  registry. It releases the table entry like \<open>sys_evf_delete\<close> does, but \<open>EventFlag\<close> has no
  destructor that would remove the name, so opening the name afterwards dereferences the deleted
  flag.
\<close>

theorem evf_close_dangles:
  assumes "kern_inv s" and "evf_at id' s = Some (a, f)" and "map_of (k_ef_by_name s) n = Some a"
    and "heap (k_objs s) a = Some k" and "ko_refs k = 1"
    and "en_ref (ot_tab (k_objs s) ! unat (drop_bit 2 id')) = 1" and "id' \<noteq> - 1" and "\<not> is_file id'"
  shows "\<exists>s'. sys_close is_file id' s = Some (0, s') \<and> map_of (k_ef_by_name s') n = Some a \<and>
    k_evf s' a = None \<and> sys_evf_open d ra b (Some n) s' = None"
proof -
  have o: "obj_at kEventflag id' s = Some a" using assms(2) by (auto simp: evf_at_def split: option.splits)
  have h: "handle_obj (k_objs s) id' = Some a" "ko_type k = kEventflag"
    using obj_at_SomeD[OF o] assms(4) by auto
  have wf: "wf_objs (k_objs s)" using assms(1) by (simp add: kern_inv_def)
  obtain t where t: "Table_Release id' (k_objs s) = Some (True, t)" "heap t a = None"
    using Table_Release_spec[OF wf h(1) assms(4)] assms(5,6) by auto
  then have "table_release id' s = Some (s\<lparr>k_objs := t, k_evf := (k_evf s)(a := None)\<rparr>)"
    using h assms(4) by (simp add: table_release_def put_objs_def run_dtor_def)
  then show ?thesis
    using assms(3,7,8) t(2) by (simp add: sys_close_def sys_evf_open_def Obj_handle_def)
qed

theorem evf_close_dangles_witness:
  "\<exists>s'. sys_close (\<lambda>_. False) 8 ex_twins = Some (0, s') \<and> sys_evf_open (\<lambda>_. 0) (\<lambda>_. True) 9 (Some ''x'') s' = None"
  using evf_close_dangles[OF ex_twins_inv ex_twins_at(2), of "''x''" "flag_head 8" "\<lambda>_. False" "\<lambda>_. 0" "\<lambda>_. True" 9]
  by (auto simp: ex_twins_def flag_head_def)

end
