(* ===== verification/Gcn_Decode.thy ===== *)
theory Gcn_Decode
  imports Prelude
begin

text \<open>
  The GCN instruction decoder of \<open>delta/gpu/gcn/gcn_decode.h\<close> and \<open>gcn_decode.cc\<close>: instruction
  classification, the length of an instruction, the decode loop, the footer that bounds a shader,
  and the scalar-load helpers of the header.

  Shader code is the guest memory from the shader's address on, a function from dword index to
  dword; \<open>None\<close> is the null pointer. Indices are 32-bit words, as in the code.
  \<open>readable n\<close> stands for \<open>IsReadableRange\<close> of the first \<open>n\<close> bytes.
\<close>

unbundle bit_operations_syntax

section \<open>Data\<close>

datatype IsaMode = kBase | kNeo

datatype Enc = kUnknown | kSop1 | kSop2 | kSopk | kSopc | kSopp | kSmrd | kVop1 | kVop2 | kVop3
  | kVop3p | kVopc | kVintrp | kDs | kMubuf | kMtbuf | kMimg | kExp | kFlat

datatype InstExtension = kNone | kLiteral | kSdwa | kDpp | kDpp8 | kDpp8Fi

record Inst =
  i_isa :: IsaMode
  i_enc :: Enc
  i_opcode :: u32
  i_raw :: "u32 list"
  i_size :: u32
  i_pc :: u32
  i_has_literal :: bool
  i_literal :: u32
  i_extension :: InstExtension

type_synonym Program = "Inst list"
type_synonym gcn_code = "u32 \<Rightarrow> u32"

definition Inst_new :: Inst where
  "Inst_new = \<lparr>i_isa = kBase, i_enc = kUnknown, i_opcode = 0, i_raw = [0, 0, 0, 0, 0], i_size = 1,
     i_pc = 0, i_has_literal = False, i_literal = 0, i_extension = kNone\<rparr>"

section \<open>Classification\<close>

definition Sop2HasLiteral :: "u32 \<Rightarrow> bool" where
  "Sop2HasLiteral w \<longleftrightarrow> w AND 0xFF = 255 \<or> drop_bit 8 w AND 0xFF = 255"

definition Sop1HasLiteral :: "u32 \<Rightarrow> bool" where
  "Sop1HasLiteral w \<longleftrightarrow> w AND 0xFF = 255"

definition VopExtension :: "u32 \<Rightarrow> IsaMode \<Rightarrow> InstExtension" where
  "VopExtension w mode =
     (let f = w AND 0x1FF
      in if f = 249 then (if mode = kNeo then kSdwa else kNone)
         else if f = 250 then (if mode = kNeo then kDpp else kNone)
         else if f = 255 then kLiteral else kNone)"

definition Classify_scalar :: "u32 \<Rightarrow> Enc \<times> u32" where
  "Classify_scalar w =
     (let top9 = drop_bit 23 w
      in if top9 = 0x17F then (kSopp, drop_bit 16 w AND 0x7F)
         else if top9 = 0x17E then (kSopc, drop_bit 16 w AND 0x7F)
         else if top9 = 0x17D then (kSop1, drop_bit 8 w AND 0xFF)
         else if drop_bit 28 w = 0xB then (kSopk, drop_bit 23 w AND 0x1F)
         else (kSop2, drop_bit 23 w AND 0x7F))"

definition Classify :: "u32 \<Rightarrow> IsaMode \<Rightarrow> Enc \<times> u32" where
  "Classify w mode =
     (if drop_bit 30 w = 2 then Classify_scalar w
      else if drop_bit 27 w = 0x18 then (kSmrd, drop_bit 22 w AND 0x1F)
      else if drop_bit 26 w = 0x34 then
        (kVop3, if mode = kNeo then (drop_bit 17 w AND 0x1FF) OR push_bit 9 (drop_bit 16 w AND 1)
                else drop_bit 17 w AND 0x1FF)
      else if mode = kNeo \<and> drop_bit 26 w = 0x33 then (kVop3p, drop_bit 16 w AND 0x7F)
      else if drop_bit 26 w = 0x32 then (kVintrp, drop_bit 16 w AND 3)
      else if drop_bit 26 w = 0x36 then (kDs, drop_bit 18 w AND 0xFF)
      else if drop_bit 26 w = 0x37 then (kFlat, drop_bit 18 w AND 0x7F)
      else if drop_bit 26 w = 0x38 then (kMubuf, drop_bit 18 w AND 0x7F)
      else if drop_bit 26 w = 0x3A then (kMtbuf, drop_bit 16 w AND 7)
      else if drop_bit 26 w = 0x3C then (kMimg, drop_bit 18 w AND 0x7F)
      else if drop_bit 26 w = 0x3E then (kExp, drop_bit 16 w AND 0x3F)
      else if drop_bit 25 w = 0x3F then (kVop1, drop_bit 9 w AND 0xFF)
      else if drop_bit 25 w = 0x3E then (kVopc, drop_bit 17 w AND 0xFF)
      else if drop_bit 31 w = 0 then (kVop2, drop_bit 25 w AND 0x3F)
      else (kUnknown, 0))"

definition BaseSize :: "Enc \<Rightarrow> u32" where
  "BaseSize e = (if e \<in> {kVop3, kVop3p, kDs, kMubuf, kMtbuf, kMimg, kExp, kFlat} then 2 else 1)"

definition HasTrailingLiteral :: "Inst \<Rightarrow> u32 \<Rightarrow> bool" where
  "HasTrailingLiteral inst w =
     (case i_enc inst of
        kSop2 \<Rightarrow> Sop2HasLiteral w
      | kSopc \<Rightarrow> Sop2HasLiteral w
      | kSop1 \<Rightarrow> Sop1HasLiteral w
      | kSopk \<Rightarrow> i_opcode inst = 0x15
      | kSmrd \<Rightarrow> drop_bit 8 w AND 1 = 0 \<and> w AND 0xFF = 255
      | kVop2 \<Rightarrow> VopExtension w (i_isa inst) = kLiteral \<or> i_opcode inst = 0x20 \<or> i_opcode inst = 0x21 \<or>
          (i_isa inst = kNeo \<and> (i_opcode inst = 0x37 \<or> i_opcode inst = 0x38))
      | kVop1 \<Rightarrow> VopExtension w (i_isa inst) = kLiteral
      | kVopc \<Rightarrow> VopExtension w (i_isa inst) = kLiteral
      | e \<Rightarrow> e \<in> {kVop3, kVop3p} \<and> i_isa inst = kNeo \<and>
          (let w1 = i_raw inst ! 1
           in w1 AND 0x1FF = 255 \<or> drop_bit 9 w1 AND 0x1FF = 255 \<or> drop_bit 18 w1 AND 0x1FF = 255))"

section \<open>The decode loop\<close>

text \<open>The body of the loop at dword \<open>i\<close>, split at its stages.\<close>

definition fetch_base :: "gcn_code \<Rightarrow> u32 \<Rightarrow> IsaMode \<Rightarrow> u32 \<Rightarrow> Inst" where
  "fetch_base code max_dwords mode i =
     (let (e, op) = Classify (code i) mode;
          inst = Inst_new\<lparr>i_isa := mode, i_pc := i, i_raw := [code i, 0, 0, 0, 0], i_enc := e,
            i_opcode := op, i_size := BaseSize e\<rparr>
      in if i_size inst = 2 then
           (if max_dwords \<le> i + 1 then inst\<lparr>i_enc := kUnknown, i_opcode := 0, i_size := 1\<rparr>
            else inst\<lparr>i_raw := (i_raw inst)[1 := code (i + 1)]\<rparr>)
         else inst)"

definition mtbuf_opcode :: "Inst \<Rightarrow> Inst" where
  "mtbuf_opcode inst =
     (if i_isa inst = kNeo \<and> i_enc inst = kMtbuf
      then inst\<lparr>i_opcode := i_opcode inst OR push_bit 3 (drop_bit 21 (i_raw inst ! 1) AND 1)\<rparr>
      else inst)"

definition vop_extension :: "Inst \<Rightarrow> u32 \<Rightarrow> InstExtension" where
  "vop_extension inst w =
     (if i_enc inst \<in> {kVop1, kVop2, kVopc} then VopExtension w (i_isa inst) else kNone)"

definition attach_extension :: "gcn_code \<Rightarrow> u32 \<Rightarrow> Inst \<Rightarrow> Inst" where
  "attach_extension code max_dwords inst =
     (let i = i_pc inst; next = i + i_size inst; ext = vop_extension inst (code i)
      in if ext = kSdwa \<or> ext = kDpp then
           (if max_dwords \<le> next then inst\<lparr>i_enc := kUnknown, i_opcode := 0\<rparr>
            else inst\<lparr>i_extension := ext, i_raw := (i_raw inst)[1 := code next], i_size := i_size inst + 1\<rparr>)
         else if HasTrailingLiteral inst (code i) then
           (if max_dwords \<le> next then inst\<lparr>i_enc := kUnknown, i_opcode := 0\<rparr>
            else inst\<lparr>i_has_literal := True, i_literal := code next, i_extension := kLiteral,
              i_size := i_size inst + 1\<rparr>)
         else inst)"

definition never_stall :: "Inst \<Rightarrow> Inst" where
  "never_stall inst = (if i_size inst = 0 then inst\<lparr>i_size := 1\<rparr> else inst)"

definition decode_at :: "gcn_code \<Rightarrow> u32 \<Rightarrow> IsaMode \<Rightarrow> u32 \<Rightarrow> Inst" where
  "decode_at code max_dwords mode i =
     never_stall (attach_extension code max_dwords (mtbuf_opcode (fetch_base code max_dwords mode i)))"

definition is_endpgm :: "Inst \<Rightarrow> bool" where
  "is_endpgm inst \<longleftrightarrow> i_enc inst = kSopp \<and> i_opcode inst = 1"

lemma BaseSize_cases: "BaseSize e = 1 \<or> BaseSize e = 2"
  by (simp add: BaseSize_def)

lemma fetch_base_facts [simp]:
  "i_isa (fetch_base code m mode i) = mode" "i_pc (fetch_base code m mode i) = i"
  "length (i_raw (fetch_base code m mode i)) = 5" "i_raw (fetch_base code m mode i) ! 0 = code i"
  "i_has_literal (fetch_base code m mode i) = False" "i_extension (fetch_base code m mode i) = kNone"
  by (simp_all add: fetch_base_def Inst_new_def Let_def split: prod.splits)

lemma fetch_base_size: "i_size (fetch_base code m mode i) = 1 \<or>
    i_size (fetch_base code m mode i) = 2 \<and> i + 1 < m"
  using BaseSize_cases by (auto simp: fetch_base_def Inst_new_def Let_def split: prod.splits)

lemma mtbuf_opcode_facts [simp]:
  "i_isa (mtbuf_opcode x) = i_isa x" "i_pc (mtbuf_opcode x) = i_pc x" "i_raw (mtbuf_opcode x) = i_raw x"
  "i_size (mtbuf_opcode x) = i_size x" "i_enc (mtbuf_opcode x) = i_enc x"
  "i_has_literal (mtbuf_opcode x) = i_has_literal x" "i_extension (mtbuf_opcode x) = i_extension x"
  by (simp_all add: mtbuf_opcode_def)

lemma attach_extension_facts [simp]:
  "i_isa (attach_extension code m x) = i_isa x" "i_pc (attach_extension code m x) = i_pc x"
  "length (i_raw (attach_extension code m x)) = length (i_raw x)"
  "i_raw (attach_extension code m x) ! 0 = i_raw x ! 0"
  by (simp_all add: attach_extension_def Let_def)

lemma attach_extension_size: "i_size (attach_extension code m x) = i_size x \<or>
    i_size (attach_extension code m x) = i_size x + 1 \<and> i_pc x + i_size x < m"
  by (auto simp: attach_extension_def Let_def not_le)

lemma next_below:
  assumes "(i :: u32) + s < m" "unat (i + s) = unat i + unat s"
  shows "unat (i + (s + 1)) = unat i + unat s + 1" "unat i + unat s + 1 \<le> unat m"
proof -
  have "unat m < 2 ^ 32" using unsigned_less[of m, where 'a = nat] by simp
  moreover have "unat i + unat s < unat m" using assms by (simp add: word_less_nat_alt)
  ultimately have "unat ((i + s) + 1) = unat i + unat s + 1" using assms(2) by (simp add: unat_word_ariths)
  then show "unat (i + (s + 1)) = unat i + unat s + 1" by (simp add: add.assoc)
  show "unat i + unat s + 1 \<le> unat m" using \<open>unat i + unat s < unat m\<close> by simp
qed

text \<open>Where the instruction at \<open>i\<close> ends: it is 1 to 3 dwords long and inside the code.\<close>

lemma decode_at_size:
  assumes "i < m"
  shows "i_size (decode_at code m mode i) \<in> {1, 2, 3}"
    and "unat (i + i_size (decode_at code m mode i)) = unat i + unat (i_size (decode_at code m mode i))"
    and "unat i + unat (i_size (decode_at code m mode i)) \<le> unat m"
    and "decode_at code m mode i = attach_extension code m (mtbuf_opcode (fetch_base code m mode i))"
proof -
  let ?b = "fetch_base code m mode i"
  let ?x = "attach_extension code m (mtbuf_opcode ?b)"
  have one: "unat (i + 1) = unat i + 1" "unat i + 1 \<le> unat m" using next_below[of i 0 m] assms by simp_all
  have base: "i_size ?b \<in> {1, 2} \<and> unat (i + i_size ?b) = unat i + unat (i_size ?b) \<and>
      unat i + unat (i_size ?b) \<le> unat m"
    using fetch_base_size[of code m mode i] one next_below[of i 1 m] by auto
  have ext: "i_size ?x \<in> {1, 2, 3} \<and> unat (i + i_size ?x) = unat i + unat (i_size ?x) \<and>
      unat i + unat (i_size ?x) \<le> unat m"
    using attach_extension_size[of code m "mtbuf_opcode ?b"] base next_below[of i "i_size ?b" m] by auto
  then show eq: "decode_at code m mode i = ?x" by (auto simp: decode_at_def never_stall_def)
  show "i_size (decode_at code m mode i) \<in> {1, 2, 3}"
    "unat (i + i_size (decode_at code m mode i)) = unat i + unat (i_size (decode_at code m mode i))"
    "unat i + unat (i_size (decode_at code m mode i)) \<le> unat m" unfolding eq using ext by simp_all
qed

function decode_from :: "gcn_code \<Rightarrow> u32 \<Rightarrow> bool \<Rightarrow> IsaMode \<Rightarrow> u32 \<Rightarrow> Program" where
  "decode_from code max_dwords stop_at_endpgm mode i =
     (if i < max_dwords then
        let inst = decode_at code max_dwords mode i
        in inst # (if stop_at_endpgm \<and> is_endpgm inst then []
                   else decode_from code max_dwords stop_at_endpgm mode (i + i_size inst))
      else [])"
  by pat_completeness auto
termination
proof (relation "measure (\<lambda>(code, m, stop, mode, i). unat m - unat i)")
  fix code :: gcn_code and m stop mode and i :: u32 and x
  assume i: "i < m" and x: "x = decode_at code m mode i"
  have "0 < unat (i_size x)" using decode_at_size(1)[OF i, of code mode] x by auto
  then show "((code, m, stop, mode, i + i_size x), code, m, stop, mode, i) \<in>
      measure (\<lambda>(code, m, stop, mode, i). unat m - unat i)"
    using decode_at_size(2)[OF i, of code mode] i x by (simp add: word_less_nat_alt)
qed simp

definition Decode :: "gcn_code option \<Rightarrow> u32 \<Rightarrow> bool \<Rightarrow> IsaMode \<Rightarrow> Program" where
  "Decode code max_dwords stop_at_endpgm mode =
     (case code of None \<Rightarrow> [] | Some c \<Rightarrow> decode_from c max_dwords stop_at_endpgm mode 0)"

section \<open>The footer\<close>

definition OrbShdrAt :: "gcn_code \<Rightarrow> u32 \<Rightarrow> bool" where
  "OrbShdrAt code off \<longleftrightarrow> code (off div 4) = 0x5362724F \<and> code (off div 4 + 1) AND 0xFFFFFF = 0x726468"

definition kMaxShaderDwords :: u32 where "kMaxShaderDwords = 64 * 1024"

text \<open>
  The scan for the signature, from dword \<open>d\<close> on. \<open>d + 2\<close> wraps, so with the largest window and no
  signature anywhere the loop does not end (\<open>None\<close>).
\<close>

partial_function (option) footer_scan :: "gcn_code \<Rightarrow> u32 \<Rightarrow> u32 \<Rightarrow> u32 option" where
  "footer_scan code max_dwords d =
     (if d + 2 \<le> max_dwords then
        if OrbShdrAt code (d * 4) then Some d else footer_scan code max_dwords (d + 1)
      else Some 0)"

definition hinted_length :: "(u64 \<Rightarrow> bool) \<Rightarrow> gcn_code \<Rightarrow> u32 option" where
  "hinted_length readable code =
     (let d = (ucast (code 1) + 1) * 2 :: u64
      in if code 0 = 0xBEEB03FF \<and> 2 \<le> d \<and> d + 2 \<le> ucast kMaxShaderDwords \<and>
            readable ((d + 2) * 4) \<and> OrbShdrAt code (ucast d * 4)
         then Some (ucast d) else None)"

definition CodeLength :: "(u64 \<Rightarrow> bool) \<Rightarrow> gcn_code option \<Rightarrow> u32 \<Rightarrow> u32 option" where
  "CodeLength readable code max_dwords =
     (case code of
        None \<Rightarrow> Some 0
      | Some c \<Rightarrow>
          if max_dwords < 2 then Some 0
          else case hinted_length readable c of
                 Some d \<Rightarrow> Some d
               | None \<Rightarrow> footer_scan c max_dwords 1)"

definition DecodeShader :: "(u64 \<Rightarrow> bool) \<Rightarrow> gcn_code option \<Rightarrow> u32 \<Rightarrow> IsaMode \<Rightarrow> Program option" where
  "DecodeShader readable code max_dwords mode =
     (case CodeLength readable code max_dwords of
        None \<Rightarrow> None
      | Some len \<Rightarrow> Some (if len \<noteq> 0 then Decode code len False mode else Decode code max_dwords True mode))"

definition CallsFetchShader :: "Program \<Rightarrow> bool" where
  "CallsFetchShader prog = list_ex (\<lambda>inst. i_enc inst = kSop1 \<and> i_opcode inst = 0x21) prog"

section \<open>Scalar loads\<close>

record SmrdOffset =
  so_dwords :: u32
  so_sgpr :: u32
  so_in_sgpr :: bool

definition DecodeSmrdOffset :: "Inst \<Rightarrow> SmrdOffset" where
  "DecodeSmrdOffset inst =
     (let w = i_raw inst ! 0; field = w AND 0xFF;
          v = \<lparr>so_dwords = 0, so_sgpr = 0, so_in_sgpr = False\<rparr>
      in if drop_bit 8 w AND 1 \<noteq> 0 then v\<lparr>so_dwords := field\<rparr>
         else if field = 0xFF \<and> i_has_literal inst then v\<lparr>so_dwords := i_literal inst\<rparr>
         else v\<lparr>so_in_sgpr := True, so_sgpr := field\<rparr>)"

text \<open>
  \<open>DescriptorVersions\<close>: per scalar register the length, first register and pc of the load that filled
  it. \<open>start_\<close> and \<open>pc_\<close> are not initialised; their contents do not matter while \<open>len_\<close> is 0.
\<close>

record DescriptorVersions =
  dv_len :: "u8 list"
  dv_start :: "u8 list"
  dv_pc :: "u32 list"

definition kInline :: u32 where "kInline = 0xFFFFFFFF"
definition kSgprs :: nat where "kSgprs = 128"

definition DescriptorVersions_new :: "u8 list \<Rightarrow> u32 list \<Rightarrow> DescriptorVersions" where
  "DescriptorVersions_new starts pcs = \<lparr>dv_len = replicate kSgprs 0, dv_start = starts, dv_pc = pcs\<rparr>"

definition Of :: "DescriptorVersions \<Rightarrow> u32 \<Rightarrow> u32 \<Rightarrow> u32" where
  "Of v sgpr dwords =
     (let s = unat sgpr
      in if kSgprs \<le> s \<or> dv_len v ! s = 0 then kInline
         else if sgpr + dwords \<le> ucast (dv_start v ! s) + ucast (dv_len v ! s) then dv_pc v ! s else kInline)"

text \<open>The number of registers a load fills; 0 for other opcodes.\<close>

definition load_count :: "u32 \<Rightarrow> nat" where
  "load_count op = (if op \<le> 4 then 2 ^ unat op else if 8 \<le> op \<and> op \<le> 0xC then 2 ^ unat (op - 8) else 0)"

text \<open>
  The two loops of \<open>Note\<close>. Retiring the load that owns register \<open>s\<close> clears \<open>len_\<close> from its first
  register on; an index past the array is a write outside it (\<open>None\<close>).
\<close>

definition retire :: "nat \<Rightarrow> DescriptorVersions \<Rightarrow> DescriptorVersions option" where
  "retire s v =
     (if dv_len v ! s = 0 then Some v
      else let first = unat (dv_start v ! s); last = first + unat (dv_len v ! s)
           in if kSgprs < last then None
              else Some (v\<lparr>dv_len := fold (\<lambda>t l. l[t := 0]) [first..<last] (dv_len v)\<rparr>))"

fun retire_all :: "nat list \<Rightarrow> DescriptorVersions \<Rightarrow> DescriptorVersions option" where
  "retire_all [] v = Some v"
| "retire_all (s # ss) v = (case retire s v of None \<Rightarrow> None | Some v' \<Rightarrow> retire_all ss v')"

definition fill :: "nat \<Rightarrow> nat \<Rightarrow> u32 \<Rightarrow> nat \<Rightarrow> DescriptorVersions \<Rightarrow> DescriptorVersions" where
  "fill sdst n pc s v = v\<lparr>dv_start := (dv_start v)[s := word_of_nat sdst],
     dv_len := (dv_len v)[s := word_of_nat n], dv_pc := (dv_pc v)[s := pc]\<rparr>"

definition Note :: "Inst \<Rightarrow> DescriptorVersions \<Rightarrow> DescriptorVersions option" where
  "Note inst v =
     (let n = load_count (i_opcode inst); sdst = unat (drop_bit 15 (i_raw inst ! 0) AND 0x7F);
          stop = min (sdst + n) kSgprs
      in if i_enc inst \<noteq> kSmrd \<or> n = 0 then Some v
         else case retire_all [sdst..<stop] v of
                None \<Rightarrow> None
              | Some v' \<Rightarrow> Some (fold (fill sdst n (i_pc inst)) [sdst..<stop] v'))"

declare decode_from.simps [simp del]

section \<open>The decoded program tiles the code\<close>

text \<open>The instructions cover the dwords from \<open>lo\<close> to \<open>hi\<close> one after the other.\<close>

fun tiles :: "nat \<Rightarrow> nat \<Rightarrow> Program \<Rightarrow> bool" where
  "tiles lo hi [] \<longleftrightarrow> lo = hi"
| "tiles lo hi (x # xs) \<longleftrightarrow> unat (i_pc x) = lo \<and> 1 \<le> unat (i_size x) \<and> unat (i_size x) \<le> 5 \<and>
     tiles (lo + unat (i_size x)) hi xs"

lemma tiles_le: "tiles lo hi xs \<Longrightarrow> lo \<le> hi"
  by (induction xs arbitrary: lo) fastforce+

lemma tiles_bounds: "\<lbrakk>tiles lo e xs; x \<in> set xs\<rbrakk> \<Longrightarrow>
    lo \<le> unat (i_pc x) \<and> unat (i_pc x) < unat (i_pc x) + unat (i_size x) \<and> unat (i_pc x) + unat (i_size x) \<le> e"
proof (induction xs arbitrary: lo)
  case (Cons a xs)
  then show ?case using tiles_le[of "lo + unat (i_size a)" e xs] by fastforce
qed simp

lemma decode_at_facts [simp]:
  "i_isa (decode_at code m mode i) = mode" "i_pc (decode_at code m mode i) = i"
  "length (i_raw (decode_at code m mode i)) = 5" "i_raw (decode_at code m mode i) ! 0 = code i"
  by (simp_all add: decode_at_def never_stall_def)

lemma decode_from_spec:
  "i \<le> m \<Longrightarrow> \<exists>e \<le> unat m. tiles (unat i) e (decode_from code m stop mode i) \<and>
    (\<forall>x\<in>set (decode_from code m stop mode i). x = decode_at code m mode (i_pc x)) \<and>
    (stop \<longrightarrow> (\<forall>x\<in>set (butlast (decode_from code m stop mode i)). \<not> is_endpgm x)) \<and>
    (e < unat m \<longrightarrow> stop \<and> decode_from code m stop mode i \<noteq> [] \<and>
      is_endpgm (last (decode_from code m stop mode i)))"
proof (induction code m stop mode i rule: decode_from.induct)
  case (1 code m stop mode i)
  show ?case
  proof (cases "i < m")
    case False
    then have "i = m" using 1(2) by simp
    then show ?thesis by (simp add: decode_from.simps[of _ _ _ _ m])
  next
    case True
    let ?x = "decode_at code m mode i"
    let ?rest = "decode_from code m stop mode (i + i_size ?x)"
    note size = decode_at_size[OF True, of code mode]
    have le3: "1 \<le> unat (i_size ?x)" "unat (i_size ?x) \<le> 5" using size(1) by auto
    show ?thesis
    proof (cases "stop \<and> is_endpgm ?x")
      case True
      then have "decode_from code m stop mode i = [?x]"
        using \<open>i < m\<close> by (subst decode_from.simps) (simp add: Let_def)
      then show ?thesis using True size(3) le3 by (intro exI[of _ "unat i + unat (i_size ?x)"]) simp
    next
      case False
      then have eq: "decode_from code m stop mode i = ?x # ?rest"
        using \<open>i < m\<close> by (subst decode_from.simps) (auto simp: Let_def)
      have "i + i_size ?x \<le> m" using size(2,3) by (simp add: word_le_nat_alt)
      then obtain e where e: "e \<le> unat m" "tiles (unat (i + i_size ?x)) e ?rest"
          "\<forall>x\<in>set ?rest. x = decode_at code m mode (i_pc x)"
          "stop \<longrightarrow> (\<forall>x\<in>set (butlast ?rest). \<not> is_endpgm x)"
          "e < unat m \<longrightarrow> stop \<and> ?rest \<noteq> [] \<and> is_endpgm (last ?rest)"
        using 1(1)[OF True refl False] by blast
      have "tiles (unat i) e (?x # ?rest)" using e(2) size(2) le3 by simp
      then show ?thesis unfolding eq using e False by (intro exI[of _ e]) auto
    qed
  qed
qed

lemma decode_from_cong:
  "\<forall>i<m. code i = code' i \<Longrightarrow> decode_from code m stop mode i = decode_from code' m stop mode i"
proof (induction code m stop mode i rule: decode_from.induct)
  case (1 code m stop mode i)
  show ?case
  proof (cases "i < m")
    case False
    then show ?thesis by (simp add: decode_from.simps[of _ m])
  next
    case True
    have b: "fetch_base code m mode i = fetch_base code' m mode i"
      using 1(2) True by (auto simp: fetch_base_def Let_def not_le split: prod.splits)
    have "attach_extension code m (mtbuf_opcode (fetch_base code' m mode i)) =
        attach_extension code' m (mtbuf_opcode (fetch_base code' m mode i))"
      using 1(2) True by (auto simp: attach_extension_def Let_def not_le)
    then have x: "decode_at code m mode i = decode_at code' m mode i" by (simp add: decode_at_def b)
    show ?thesis
      using 1(1)[OF True refl] 1(2) True
      by (simp add: decode_from.simps[of code m stop mode i] decode_from.simps[of code' m stop mode i] x Let_def)
  qed
qed

section \<open>The footer\<close>

lemma footer_scan_spec:
  assumes "m < 0xFFFFFFFF" and "unat d < unat m" and "d \<noteq> 0"
  shows "\<exists>r. footer_scan code m d = Some r \<and>
    (if r = 0 then \<forall>e. d \<le> e \<and> unat e + 2 \<le> unat m \<longrightarrow> \<not> OrbShdrAt code (e * 4)
     else d \<le> r \<and> unat r + 2 \<le> unat m \<and> OrbShdrAt code (r * 4) \<and>
       (\<forall>e. d \<le> e \<and> e < r \<longrightarrow> \<not> OrbShdrAt code (e * 4)))"
  using assms
proof (induction "unat m - unat d" arbitrary: d rule: less_induct)
  case less
  have m: "unat m < 2 ^ 32 - 1" using assms(1) by (simp add: word_less_nat_alt)
  have one: "unat (d + 1) = unat d + 1" using less.prems(2) m by (simp add: unat_word_ariths)
  consider (stop) "unat m < unat d + 2" | (hit) "unat d + 2 \<le> unat m" "OrbShdrAt code (d * 4)"
    | (step) "unat d + 2 \<le> unat m" "\<not> OrbShdrAt code (d * 4)" by linarith
  then show ?case
  proof cases
    case stop
    have "unat (d + 2) = unat d + 2" using less.prems(2) m by (simp add: unat_word_ariths)
    then have "\<not> d + 2 \<le> m" using stop by (simp add: word_le_nat_alt)
    then have "footer_scan code m d = Some 0" by (simp add: footer_scan.simps[of code m d])
    then show ?thesis using stop by (auto simp: word_le_nat_alt)
  next
    case hit
    then have "d + 2 \<le> m" using m by (simp add: word_le_nat_alt unat_word_ariths)
    then have "footer_scan code m d = Some d" using hit by (simp add: footer_scan.simps[of code m d])
    then show ?thesis using hit less.prems(3) by auto
  next
    case step
    then have "d + 2 \<le> m" using m by (simp add: word_le_nat_alt unat_word_ariths)
    then have eq: "footer_scan code m d = footer_scan code m (d + 1)"
      using step by (simp add: footer_scan.simps[of code m d])
    have nz: "d + 1 \<noteq> 0" using one by (metis add_is_0 one_neq_zero unat_0)
    have ge: "d \<le> e \<longleftrightarrow> e = d \<or> d + 1 \<le> e" for e
      using one by (auto simp: word_le_nat_alt word_unat_eq_iff)
    have "unat m - unat (d + 1) < unat m - unat d" "unat (d + 1) < unat m" using one step(1) by simp_all
    then obtain r where r: "footer_scan code m (d + 1) = Some r"
        "if r = 0 then \<forall>e. d + 1 \<le> e \<and> unat e + 2 \<le> unat m \<longrightarrow> \<not> OrbShdrAt code (e * 4)
         else d + 1 \<le> r \<and> unat r + 2 \<le> unat m \<and> OrbShdrAt code (r * 4) \<and>
           (\<forall>e. d + 1 \<le> e \<and> e < r \<longrightarrow> \<not> OrbShdrAt code (e * 4))"
      using less.hyps[of "d + 1"] less.prems(1) nz by blast
    then show ?thesis unfolding eq ge using step(2) by (intro exI[of _ r]) (cases "r = 0"; auto)
  qed
qed

section \<open>Properties of the decoder\<close>

lemma word_below_64: "unat (t :: u32) < 64 \<Longrightarrow> P (word_of_nat (unat t)) \<Longrightarrow> P t"
  by simp

lemma drop_bit_26: fixes w :: u32
  shows "drop_bit 30 w = drop_bit 4 (drop_bit 26 w)" "drop_bit 27 w = drop_bit 1 (drop_bit 26 w)"
    "drop_bit 31 w = drop_bit 5 (drop_bit 26 w)" "drop_bit 26 w = drop_bit 1 (drop_bit 25 w)"
    "drop_bit 23 w = drop_bit 7 (drop_bit 16 w)" "drop_bit 30 w = drop_bit 14 (drop_bit 16 w)"
  by (simp_all only: drop_bit_drop_bit) simp_all

lemma unat_drop_bit_less: "unat (drop_bit k (w :: u32)) < 2 ^ (32 - k)" if "k \<le> 32"
proof -
  have "unat w < 2 ^ k * 2 ^ (32 - k)"
    using unsigned_less[of w, where 'a = nat] that by (simp flip: power_add)
  then show ?thesis
    by (simp only: unat_drop_bit_eq) (simp add: drop_bit_eq_div less_mult_imp_div_less mult.commute)
qed

definition unknown_top :: "IsaMode \<Rightarrow> u32 \<Rightarrow> bool" where
  "unknown_top mode t \<longleftrightarrow> t \<in> {0x35, 0x39, 0x3B, 0x3D, 0x3F} \<or> mode = kBase \<and> t = 0x33"

lemma unknown_top_table:
  "\<forall>mode\<in>set [kBase, kNeo]. \<forall>n\<in>set [0..<64]. let t = word_of_nat n :: u32 in
    (drop_bit 4 t \<noteq> 2 \<and> drop_bit 1 t \<noteq> 0x18 \<and> drop_bit 5 t \<noteq> 0 \<and>
     t \<notin> {0x34, 0x32, 0x36, 0x37, 0x38, 0x3A, 0x3C, 0x3E} \<and> \<not> (mode = kNeo \<and> t = 0x33)) =
    unknown_top mode t"
  by code_simp

lemma Classify_unknown: "fst (Classify w mode) = kUnknown \<longleftrightarrow> unknown_top mode (drop_bit 26 w)"
proof -
  let ?t = "drop_bit 26 w"
  have "unat ?t < 64" using unat_drop_bit_less[of 26 w] by simp
  then have tab: "(drop_bit 4 ?t \<noteq> 2 \<and> drop_bit 1 ?t \<noteq> 0x18 \<and> drop_bit 5 ?t \<noteq> 0 \<and>
      ?t \<notin> {0x34, 0x32, 0x36, 0x37, 0x38, 0x3A, 0x3C, 0x3E} \<and> \<not> (mode = kNeo \<and> ?t = 0x33)) = unknown_top mode ?t"
    using unknown_top_table[THEN bspec, of mode, THEN bspec, of "unat ?t"] by (cases mode) (simp_all add: Let_def)
  have v: "drop_bit 5 ?t = 0" if "drop_bit 25 w = 0x3F \<or> drop_bit 25 w = 0x3E"
  proof -
    have "drop_bit 5 ?t = drop_bit 6 (drop_bit 25 w)" by (simp only: drop_bit_drop_bit) simp
    moreover have "drop_bit 6 x = 0" if "x = 0x3F \<or> x = 0x3E" for x :: u32 using that by auto
    ultimately show ?thesis using that by metis
  qed
  have "fst (Classify w mode) = kUnknown \<longleftrightarrow>
     drop_bit 30 w \<noteq> 2 \<and> drop_bit 27 w \<noteq> 0x18 \<and> drop_bit 31 w \<noteq> 0 \<and>
     ?t \<notin> {0x34, 0x32, 0x36, 0x37, 0x38, 0x3A, 0x3C, 0x3E} \<and> \<not> (mode = kNeo \<and> ?t = 0x33) \<and>
     drop_bit 25 w \<noteq> 0x3F \<and> drop_bit 25 w \<noteq> 0x3E"
    unfolding Classify_def by (auto simp: Classify_scalar_def Let_def)
  then show ?thesis unfolding tab[symmetric] drop_bit_26(1-3) using v by blast
qed

lemma Classify_endpgm: "Classify w mode = (kSopp, 1) \<longleftrightarrow> drop_bit 16 w = 0xBF81"
proof -
  let ?h = "drop_bit 16 w"
  have "Classify w mode = (kSopp, 1) \<longleftrightarrow> drop_bit 30 w = 2 \<and> drop_bit 23 w = 0x17F \<and> ?h AND 0x7F = 1"
    unfolding Classify_def by (auto simp: Classify_scalar_def Let_def)
  also have "\<dots> \<longleftrightarrow> drop_bit 14 ?h = 2 \<and> drop_bit 7 ?h = 0x17F \<and> take_bit 7 ?h = 1"
    unfolding drop_bit_26(5,6) by (simp add: take_bit_eq_mask mask_numeral)
  also have "\<dots> \<longleftrightarrow> ?h = 0xBF81"
  proof
    assume a: "drop_bit 14 ?h = 2 \<and> drop_bit 7 ?h = 0x17F \<and> take_bit 7 ?h = 1"
    have "?h = push_bit 7 (drop_bit 7 ?h) + take_bit 7 ?h" by (simp only: bits_ident)
    then show "?h = 0xBF81" unfolding a[THEN conjunct2, THEN conjunct1] a[THEN conjunct2, THEN conjunct2] by simp
  qed auto
  finally show ?thesis .
qed

lemma hint_nonzero:
  fixes x :: u32
  assumes "(ucast x + 1) * 2 + 2 \<le> (0x10000 :: u64)"
  shows "(ucast ((ucast x + 1) * 2 :: u64) :: u32) \<noteq> 0"
proof -
  let ?d = "(ucast x + 1) * 2 :: u64"
  have x: "unat x < 2 ^ 32" using unsigned_less[of x, where 'a = nat] by simp
  then have u: "unat (ucast x :: u64) = unat x" by (simp add: unsigned_ucast_eq take_bit_nat_eq_self)
  then have d: "unat ?d = (unat x + 1) * 2" using x by (simp add: unat_word_ariths)
  then have "unat (?d + 2) = unat ?d + 2" using x u by (simp add: unat_word_ariths)
  then have "unat ?d \<le> 0xFFFE" using assms by (simp add: word_le_nat_alt)
  then have "unat (ucast ?d :: u32) = unat ?d" by (simp only: unsigned_ucast_eq) (simp add: take_bit_nat_eq_self)
  then show ?thesis using d by (metis unat_0 add_is_0 mult_eq_0_iff one_neq_zero zero_neq_numeral)
qed

lemma CodeLength_spec:
  assumes "m < 0xFFFFFFFF"
  shows "\<exists>r. CodeLength readable (Some c) m = Some r \<and> (r \<noteq> 0 \<longrightarrow> OrbShdrAt c (r * 4)) \<and>
    (r = 0 \<longrightarrow> (\<forall>e. 1 \<le> e \<and> unat e + 2 \<le> unat m \<longrightarrow> \<not> OrbShdrAt c (e * 4)))"
proof (cases "hinted_length readable c")
  case None
  show ?thesis
  proof (cases "m < 2")
    case True
    then show ?thesis by (auto simp: CodeLength_def word_less_nat_alt)
  next
    case False
    then have "unat (1 :: u32) < unat m" by (simp add: word_less_nat_alt)
    then obtain r where "footer_scan c m 1 = Some r" "if r = 0 then \<forall>e. 1 \<le> e \<and> unat e + 2 \<le> unat m \<longrightarrow> \<not> OrbShdrAt c (e * 4)
       else 1 \<le> r \<and> unat r + 2 \<le> unat m \<and> OrbShdrAt c (r * 4) \<and> (\<forall>e. 1 \<le> e \<and> e < r \<longrightarrow> \<not> OrbShdrAt c (e * 4))"
      using footer_scan_spec[OF assms, of 1 c] by auto
    then show ?thesis using None False by (intro exI[of _ r]) (auto simp: CodeLength_def split: if_splits)
  qed
next
  case (Some d)
  then have d: "OrbShdrAt c (d * 4)" "d \<noteq> 0"
    using hint_nonzero[of "c 1"]
    unfolding hinted_length_def Let_def kMaxShaderDwords_def by (simp_all split: if_splits)
  show ?thesis
  proof (cases "m < 2")
    case True
    then show ?thesis by (auto simp: CodeLength_def word_less_nat_alt)
  next
    case False
    then show ?thesis using Some d by (auto simp: CodeLength_def)
  qed
qed

text \<open>
  C31: The decoder terminates on every input and its output tiles the code. From dword 0 the decoded
  instructions follow one another without gap or overlap, each 1 to 3 dwords long and each the
  decoding of the dword at its pc. Without the stop flag they cover exactly the requested window;
  with it they end with the first \<open>s_endpgm\<close>, if the window has one.
\<close>

theorem decode_tiles:
  "\<exists>e \<le> unat m. tiles 0 e (Decode (Some c) m stop mode) \<and>
    (\<forall>x\<in>set (Decode (Some c) m stop mode). x = decode_at c m mode (i_pc x) \<and> i_size x \<in> {1, 2, 3}) \<and>
    (stop \<longrightarrow> (\<forall>x\<in>set (butlast (Decode (Some c) m stop mode)). \<not> is_endpgm x)) \<and>
    (e < unat m \<longrightarrow> stop \<and> Decode (Some c) m stop mode \<noteq> [] \<and> is_endpgm (last (Decode (Some c) m stop mode)))"
proof -
  let ?p = "decode_from c m stop mode 0"
  obtain e where e: "e \<le> unat m" "tiles 0 e ?p" "\<forall>x\<in>set ?p. x = decode_at c m mode (i_pc x)"
      "stop \<longrightarrow> (\<forall>x\<in>set (butlast ?p). \<not> is_endpgm x)" "e < unat m \<longrightarrow> stop \<and> ?p \<noteq> [] \<and> is_endpgm (last ?p)"
    using decode_from_spec[of 0 m c stop mode] by auto
  have "i_size x \<in> {1, 2, 3}" if "x \<in> set ?p" for x
  proof -
    have "i_pc x < m" using tiles_bounds[OF e(2) that] e(1) by (simp add: word_less_nat_alt)
    then show ?thesis using decode_at_size(1)[of "i_pc x" m c mode] e(3) that by metis
  qed
  then show ?thesis unfolding Decode_def option.case using e by blast
qed

lemma decode_tiles_witness:
  "\<exists>e \<le> 3. tiles 0 e (Decode (Some (\<lambda>i. if i = 1 then 0xBF810000 else 0x7E000280)) 3 True kBase)"
  using decode_tiles[of 3 "\<lambda>i. if i = 1 then 0xBF810000 else 0x7E000280" True kBase] by auto

text \<open>
  A shader is decoded within its bounds. With any window below \<open>2^32 - 1\<close> the footer search
  returns. When it finds a footer, the program covers exactly the dwords before the footer and
  depends on no other dword; otherwise no dword of the window starts a footer, and the program is
  the decoding up to the first \<open>s_endpgm\<close>, which depends on no dword outside the window.
\<close>

theorem decode_shader_bounded:
  assumes "m < 0xFFFFFFFF"
  shows "\<exists>len prog. CodeLength readable (Some c) m = Some len \<and>
    DecodeShader readable (Some c) m mode = Some prog \<and>
    (if len \<noteq> 0 then OrbShdrAt c (len * 4) \<and> tiles 0 (unat len) prog \<and>
       (\<forall>c'. (\<forall>i<len. c' i = c i) \<longrightarrow> Decode (Some c') len False mode = prog)
     else (\<forall>e. 1 \<le> e \<and> unat e + 2 \<le> unat m \<longrightarrow> \<not> OrbShdrAt c (e * 4)) \<and>
       (\<forall>x\<in>set (butlast prog). \<not> is_endpgm x) \<and>
       (\<forall>c'. (\<forall>i<m. c' i = c i) \<longrightarrow> Decode (Some c') m True mode = prog))"
proof -
  obtain len where len: "CodeLength readable (Some c) m = Some len" "len \<noteq> 0 \<longrightarrow> OrbShdrAt c (len * 4)"
      "len = 0 \<longrightarrow> (\<forall>e. 1 \<le> e \<and> unat e + 2 \<le> unat m \<longrightarrow> \<not> OrbShdrAt c (e * 4))"
    using CodeLength_spec[OF assms] by blast
  have cong: "Decode (Some c') n stop mode = Decode (Some c) n stop mode" if "\<forall>i<n. c' i = c i" for c' n stop
    using decode_from_cong[OF that] by (simp add: Decode_def)
  show ?thesis
  proof (cases "len = 0")
    case True
    have "\<forall>x\<in>set (butlast (Decode (Some c) m True mode)). \<not> is_endpgm x"
      using decode_from_spec[of 0 m c True mode] by (auto simp: Decode_def)
    then show ?thesis using len True by (auto simp: DecodeShader_def intro: cong)
  next
    case False
    have "tiles 0 (unat len) (Decode (Some c) len False mode)"
      using decode_from_spec[of 0 len c False mode] by (auto simp: Decode_def nat_less_le)
    then show ?thesis using len False by (auto simp: DecodeShader_def intro: cong)
  qed
qed

definition ex_code :: gcn_code where
  "ex_code i = (if i = 0 then 0xBF810000 else if i = 1 then 0x7E000280 else if i = 2 then 0x5362724F
     else if i = 3 then 0x00726468 else 0)"

lemma decode_shader_bounded_witness:
  "\<exists>prog. DecodeShader (\<lambda>_. True) (Some ex_code) 16 kBase = Some prog \<and> tiles 0 2 prog"
proof -
  have "hinted_length (\<lambda>_. True) ex_code = None" by (simp add: hinted_length_def ex_code_def)
  moreover have "footer_scan ex_code 16 1 = Some 2"
    by (simp add: footer_scan.simps[of _ _ 1] footer_scan.simps[of _ _ 2] OrbShdrAt_def ex_code_def)
  ultimately have "CodeLength (\<lambda>_. True) (Some ex_code) 16 = Some 2" by (simp add: CodeLength_def)
  then show ?thesis using decode_shader_bounded[of 16 "\<lambda>_. True" ex_code kBase] by auto
qed

text \<open>
  The classification of a dword. It is an unknown encoding exactly when its top six bits are one of
  the five unassigned values (or the packed-math prefix, in base mode), and it is the program
  terminator exactly when its upper half is \<open>0xBF81\<close>.
\<close>

theorem classify_exact:
  "(fst (Classify w mode) = kUnknown) = unknown_top mode (drop_bit 26 w) \<and>
   (Classify w mode = (kSopp, 1)) = (drop_bit 16 w = 0xBF81)"
  using Classify_unknown Classify_endpgm by simp

section \<open>Descriptor versions\<close>

text \<open>
  The abstract state: the loads still live, each a first register, a count and a pc. A new load
  replaces every live load it overlaps.
\<close>

type_synonym load = "nat \<times> nat \<times> u32"

fun owns :: "load \<Rightarrow> nat \<Rightarrow> bool" where
  "owns (b, n, pc) s \<longleftrightarrow> b \<le> s \<and> s < b + n"

definition lookup :: "load list \<Rightarrow> nat \<Rightarrow> nat \<Rightarrow> u32" where
  "lookup L s d = (case find (\<lambda>l. owns l s) L of
     None \<Rightarrow> kInline
   | Some (b, n, pc) \<Rightarrow> if s + d \<le> b + n then pc else kInline)"

definition load_of :: "Inst \<Rightarrow> load" where
  "load_of inst = (unat (drop_bit 15 (i_raw inst ! 0) AND 0x7F), load_count (i_opcode inst), i_pc inst)"

definition is_load :: "Inst \<Rightarrow> bool" where
  "is_load inst \<longleftrightarrow> i_enc inst = kSmrd \<and> load_count (i_opcode inst) \<noteq> 0"

definition note_load :: "Inst \<Rightarrow> load list \<Rightarrow> load list" where
  "note_load inst L =
     (if is_load inst then load_of inst # filter (\<lambda>l. \<forall>s. owns (load_of inst) s \<longrightarrow> \<not> owns l s) L else L)"

definition in_file :: "load \<Rightarrow> bool" where
  "in_file l = (case l of (b, n, pc) \<Rightarrow> 0 < n \<and> n \<le> 16 \<and> b + n \<le> kSgprs)"

definition rep :: "DescriptorVersions \<Rightarrow> load list \<Rightarrow> bool" where
  "rep v L \<longleftrightarrow> length (dv_len v) = kSgprs \<and> length (dv_start v) = kSgprs \<and> length (dv_pc v) = kSgprs \<and>
     (\<forall>l\<in>set L. in_file l) \<and>
     (\<forall>s<kSgprs. (dv_len v ! s \<noteq> 0 \<longrightarrow> (\<exists>l\<in>set L. owns l s)) \<and>
        (\<forall>b n pc. (b, n, pc) \<in> set L \<and> owns (b, n, pc) s \<longrightarrow>
           dv_start v ! s = word_of_nat b \<and> dv_len v ! s = word_of_nat n \<and> dv_pc v ! s = pc))"

declare owns.simps [simp del]

lemma in_file_words:
  assumes "in_file (b, n, pc)"
  shows "unat (word_of_nat b :: u8) = b" "unat (word_of_nat n :: u8) = n" "(word_of_nat n :: u8) \<noteq> 0" "b + n \<le> 128"
proof -
  have b: "b < 256" "n < 256" "0 < n" using assms by (auto simp: in_file_def kSgprs_def)
  then show "unat (word_of_nat b :: u8) = b" "unat (word_of_nat n :: u8) = n"
    by (simp_all add: unat_of_nat)
  then show "(word_of_nat n :: u8) \<noteq> 0" using b(3) by (metis unat_0 less_irrefl)
  show "b + n \<le> 128" using assms by (auto simp: in_file_def kSgprs_def)
qed

lemma rep_owner:
  assumes "rep v L" "(b, n, pc) \<in> set L" "owns (b, n, pc) s"
  shows "s < kSgprs" "dv_start v ! s = word_of_nat b" "dv_len v ! s = word_of_nat n" "dv_pc v ! s = pc"
    "in_file (b, n, pc)"
proof -
  show f: "in_file (b, n, pc)" using assms by (auto simp: rep_def)
  then show "s < kSgprs" using assms(3) by (auto simp: in_file_def owns.simps)
  then show "dv_start v ! s = word_of_nat b" "dv_len v ! s = word_of_nat n" "dv_pc v ! s = pc"
    using assms unfolding rep_def by blast+
qed

lemma rep_unique:
  assumes "rep v L" "l \<in> set L" "l' \<in> set L" "owns l s" "owns l' s"
  shows "l = l'"
proof -
  obtain b n pc b' n' pc' where l: "l = (b, n, pc)" "l' = (b', n', pc')" by (cases l, cases l')
  note o1 = rep_owner[OF assms(1) assms(2,4)[unfolded l]] and o2 = rep_owner[OF assms(1) assms(3,5)[unfolded l]]
  have "b = b'" using o1(2) o2(2) in_file_words(1)[OF o1(5)] in_file_words(1)[OF o2(5)] by metis
  moreover have "n = n'" using o1(3) o2(3) in_file_words(2)[OF o1(5)] in_file_words(2)[OF o2(5)] by metis
  ultimately show ?thesis using o1(4) o2(4) l by simp
qed

lemma fold_clear: "length l = N \<Longrightarrow> b \<le> N \<Longrightarrow> length (fold (\<lambda>t l. l[t := 0]) [a..<b] l) = N \<and>
    (\<forall>s<N. fold (\<lambda>t l. l[t := (0 :: u8)]) [a..<b] l ! s = (if a \<le> s \<and> s < b then 0 else l ! s))"
proof (induction b)
  case (Suc b)
  then show ?case by (cases "a \<le> b") (auto simp: nth_list_update less_Suc_eq)
qed simp

lemma retire_rep:
  assumes r: "rep v L" and s: "s < kSgprs"
  shows "\<exists>v'. retire s v = Some v' \<and> rep v' (filter (\<lambda>l. \<not> owns l s) L)"
proof (cases "dv_len v ! s = 0")
  case True
  have "\<not> owns l s" if "l \<in> set L" for l
    using rep_owner(3,5)[OF r, of _ _ _ s] in_file_words(3) True that by (cases l) metis
  then show ?thesis using r True by (simp add: retire_def cong: filter_cong)
next
  case False
  then obtain b n pc where l: "(b, n, pc) \<in> set L" "owns (b, n, pc) s"
    using r s unfolding rep_def by (metis prod_cases3)
  note ow = rep_owner[OF r l]
  note w = in_file_words[OF ow(5)]
  let ?len = "fold (\<lambda>t l. l[t := 0]) [b..<b + n] (dv_len v)" and ?L = "filter (\<lambda>l. \<not> owns l s) L"
  have eq: "retire s v = Some (v\<lparr>dv_len := ?len\<rparr>)"
    using False ow(2,3) w by (simp add: retire_def Let_def kSgprs_def)
  have len: "length ?len = kSgprs" "\<forall>t<kSgprs. ?len ! t = (if b \<le> t \<and> t < b + n then 0 else dv_len v ! t)"
    using fold_clear[of "dv_len v" kSgprs "b + n" b] r w(4) by (auto simp: rep_def kSgprs_def)
  have other: "\<not> (b \<le> t \<and> t < b + n)" if "l' \<in> set ?L" "owns l' t" for l' t
    using rep_unique[OF r, of l' "(b, n, pc)" t] that l by (auto simp: owns.simps)
  have "rep (v\<lparr>dv_len := ?len\<rparr>) ?L"
  proof -
    have "\<exists>l\<in>set ?L. owns l t" if t: "t < kSgprs" "?len ! t \<noteq> 0" for t
    proof -
      have n: "\<not> (b \<le> t \<and> t < b + n)" "dv_len v ! t \<noteq> 0" using t len(2) by (auto split: if_splits)
      then obtain l' where l': "l' \<in> set L" "owns l' t" using r t(1) unfolding rep_def by blast
      then have "\<not> owns l' s" using rep_unique[OF r l'(1) l(1) _ l(2)] l'(2) n(1) by (auto simp: owns.simps)
      then show ?thesis using l' by (intro bexI[of _ l']) simp_all
    qed
    moreover have "dv_start v ! t = word_of_nat b' \<and> ?len ! t = word_of_nat n' \<and> dv_pc v ! t = pc'"
      if "t < kSgprs" "(b', n', pc') \<in> set ?L" "owns (b', n', pc') t" for t b' n' pc'
    proof -
      have "(b', n', pc') \<in> set L" using that(2) by simp
      then show ?thesis using rep_owner[OF r _ that(3)] other[OF that(2,3)] len(2) that(1) by auto
    qed
    ultimately show ?thesis using r len(1) unfolding rep_def by auto
  qed
  then show ?thesis using eq by blast
qed

lemma retire_all_rep:
  "\<lbrakk>rep v L; \<forall>s\<in>set ss. s < kSgprs\<rbrakk> \<Longrightarrow>
    \<exists>v'. retire_all ss v = Some v' \<and> rep v' (filter (\<lambda>l. \<forall>s\<in>set ss. \<not> owns l s) L)"
proof (induction ss arbitrary: v L)
  case (Cons s ss)
  obtain v' where v': "retire s v = Some v'" "rep v' (filter (\<lambda>l. \<not> owns l s) L)"
    using retire_rep[of v L s] Cons.prems by auto
  then obtain v'' where "retire_all ss v' = Some v''"
      "rep v'' (filter (\<lambda>l. \<forall>s\<in>set ss. \<not> owns l s) (filter (\<lambda>l. \<not> owns l s) L))"
    using Cons.IH[OF v'(2)] Cons.prems(2) by auto
  then show ?case using v'(1) by (simp add: conj_commute)
qed simp

lemma fold_fill:
  "\<lbrakk>length (dv_len v) = N; length (dv_start v) = N; length (dv_pc v) = N; b \<le> N\<rbrakk> \<Longrightarrow>
    (let v' = fold (fill sdst n pc) [a..<b] v
     in length (dv_len v') = N \<and> length (dv_start v') = N \<and> length (dv_pc v') = N \<and>
       (\<forall>s<N. dv_len v' ! s = (if a \<le> s \<and> s < b then word_of_nat n else dv_len v ! s) \<and>
         dv_start v' ! s = (if a \<le> s \<and> s < b then word_of_nat sdst else dv_start v ! s) \<and>
         dv_pc v' ! s = (if a \<le> s \<and> s < b then pc else dv_pc v ! s)))"
proof (induction b)
  case (Suc b)
  then show ?case by (cases "a \<le> b") (auto simp: Let_def fill_def nth_list_update less_Suc_eq)
qed simp

lemma fill_rep:
  assumes r: "rep v L" and l: "in_file (b, n, pc)" and apart: "\<forall>l\<in>set L. \<forall>s. owns (b, n, pc) s \<longrightarrow> \<not> owns l s"
  shows "rep (fold (fill b n pc) [b..<b + n] v) ((b, n, pc) # L)"
proof -
  let ?v = "fold (fill b n pc) [b..<b + n] v"
  have bound: "b + n \<le> kSgprs" using l by (auto simp: in_file_def)
  have f: "length (dv_len ?v) = kSgprs" "length (dv_start ?v) = kSgprs" "length (dv_pc ?v) = kSgprs"
      "\<forall>s<kSgprs. dv_len ?v ! s = (if owns (b, n, pc) s then word_of_nat n else dv_len v ! s) \<and>
         dv_start ?v ! s = (if owns (b, n, pc) s then word_of_nat b else dv_start v ! s) \<and>
         dv_pc ?v ! s = (if owns (b, n, pc) s then pc else dv_pc v ! s)"
    using fold_fill[of v kSgprs "b + n" b n pc b] r bound by (simp_all add: rep_def Let_def owns.simps)
  have "\<exists>l\<in>set ((b, n, pc) # L). owns l s" if "s < kSgprs" "dv_len ?v ! s \<noteq> 0" for s
  proof (cases "owns (b, n, pc) s")
    case False
    then have "dv_len v ! s \<noteq> 0" using f(4) that by simp
    then show ?thesis using r that(1) unfolding rep_def by (meson list.set_intros(2))
  qed (meson list.set_intros(1))
  moreover have "dv_start ?v ! s = word_of_nat b' \<and> dv_len ?v ! s = word_of_nat n' \<and> dv_pc ?v ! s = pc'"
    if "s < kSgprs" "(b', n', pc') \<in> set ((b, n, pc) # L)" "owns (b', n', pc') s" for s b' n' pc'
  proof (cases "owns (b, n, pc) s")
    case True
    then have "(b', n', pc') = (b, n, pc)" using that apart by auto
    then show ?thesis using f(4) that True by simp
  next
    case False
    then have "(b', n', pc') \<in> set L" using that by auto
    then show ?thesis using rep_owner[OF r _ that(3)] f(4) that(1) False by simp
  qed
  moreover have "\<forall>l\<in>set ((b, n, pc) # L). in_file l" using r l by (simp add: rep_def)
  ultimately show ?thesis using f(1-3) unfolding rep_def by blast
qed

lemma load_count_le: "load_count op \<le> 16"
proof -
  have "op \<le> 4 \<Longrightarrow> unat op \<le> 4" "op \<le> 0xC \<and> 8 \<le> op \<Longrightarrow> unat (op - 8) \<le> 4"
    by (auto simp: word_le_nat_alt unat_diff_le)
  then have "load_count op \<le> 2 ^ 4" unfolding load_count_def
    by (auto intro: power_increasing simp del: power_numeral)
  then show ?thesis by simp
qed

text \<open>The load of an instruction stays inside the register file.\<close>

definition load_fits :: "Inst \<Rightarrow> bool" where
  "load_fits inst \<longleftrightarrow> is_load inst \<longrightarrow> (case load_of inst of (b, n, pc) \<Rightarrow> b + n \<le> kSgprs)"

lemma Note_rep:
  assumes r: "rep v L" and fit: "load_fits inst"
  shows "\<exists>v'. Note inst v = Some v' \<and> rep v' (note_load inst L)"
proof (cases "is_load inst")
  case False
  then show ?thesis using r by (auto simp: Note_def note_load_def is_load_def Let_def)
next
  case True
  obtain b n pc where l: "load_of inst = (b, n, pc)" by (cases "load_of inst")
  have bn: "0 < n" "b + n \<le> kSgprs" "n \<le> 16" and inf: "in_file (b, n, pc)"
    using True fit l load_count_le[of "i_opcode inst"] by (auto simp: is_load_def load_fits_def load_of_def in_file_def)
  obtain v' where v': "retire_all [b..<b + n] v = Some v'"
      "rep v' (filter (\<lambda>l. \<forall>s\<in>set [b..<b + n]. \<not> owns l s) L)"
    using retire_all_rep[OF r, of "[b..<b + n]"] bn(2) by auto
  have eq: "filter (\<lambda>l. \<forall>s\<in>set [b..<b + n]. \<not> owns l s) L = filter (\<lambda>l. \<forall>s. owns (b, n, pc) s \<longrightarrow> \<not> owns l s) L"
    by (rule filter_cong) (auto simp: owns.simps)
  have "Note inst v = Some (fold (fill b n pc) [b..<b + n] v')"
    using True l v'(1) bn(2) by (simp add: Note_def is_load_def load_of_def min_def Let_def)
  then show ?thesis
    using fill_rep[OF v'(2)[unfolded eq] inf] True l by (simp add: note_load_def)
qed

lemma Of_rep:
  assumes r: "rep v L" and d: "unat s + unat d < 2 ^ 32"
  shows "Of v s d = lookup L (unat s) (unat d)"
proof (cases "find (\<lambda>l. owns l (unat s)) L")
  case None
  then have "\<not> (\<exists>l\<in>set L. owns l (unat s))" by (auto simp: find_None_iff)
  then have "kSgprs \<le> unat s \<or> dv_len v ! unat s = 0" using r unfolding rep_def by (meson not_le)
  then show ?thesis using None by (simp add: Of_def lookup_def)
next
  case (Some l)
  then obtain b n pc where l: "l = (b, n, pc)" "(b, n, pc) \<in> set L" "owns (b, n, pc) (unat s)"
    by (cases l) (auto simp: find_Some_iff)
  note ow = rep_owner[OF r l(2,3)]
  note w = in_file_words[OF ow(5)]
  have "unat (ucast (word_of_nat b :: u8) + ucast (word_of_nat n :: u8) :: u32) = b + n"
    using w by (simp add: unat_word_ariths unsigned_ucast_eq take_bit_nat_eq_self)
  moreover have "unat (s + d) = unat s + unat d" using d by (simp add: unat_word_ariths)
  ultimately show ?thesis using ow w(3) Some l by (simp add: Of_def lookup_def word_le_nat_alt)
qed

lemma rep_new:
  "\<lbrakk>length starts = kSgprs; length pcs = kSgprs\<rbrakk> \<Longrightarrow> rep (DescriptorVersions_new starts pcs) []"
  by (simp add: rep_def DescriptorVersions_new_def)

text \<open>\<open>Note\<close> over a whole program.\<close>

fun note_all :: "Program \<Rightarrow> DescriptorVersions \<Rightarrow> DescriptorVersions option" where
  "note_all [] v = Some v"
| "note_all (x # xs) v = (case Note x v of None \<Rightarrow> None | Some v' \<Rightarrow> note_all xs v')"

lemma note_all_rep:
  "\<lbrakk>rep v L; \<forall>x\<in>set prog. load_fits x\<rbrakk> \<Longrightarrow> \<exists>v'. note_all prog v = Some v' \<and> rep v' (fold note_load prog L)"
proof (induction prog arbitrary: v L)
  case (Cons x xs)
  then obtain v' where "Note x v = Some v'" "rep v' (note_load x L)" using Note_rep[of v L x] by auto
  then show ?case using Cons.IH[of v'] Cons.prems(2) by simp
qed simp

text \<open>
  The table of descriptor versions implements the list of live loads. Starting from the user data,
  whatever the uninitialised arrays hold, noting the loads of any program whose destinations stay
  in the register file never leaves the table, and a query then names the pc of the live load that
  wholly contains the registers asked for, and the user data when there is none.
\<close>

theorem descriptor_versions_refine:
  assumes "length starts = kSgprs" and "length pcs = kSgprs" and "\<forall>x\<in>set prog. load_fits x"
    and "unat s + unat d < 2 ^ 32"
  shows "\<exists>v. note_all prog (DescriptorVersions_new starts pcs) = Some v \<and>
    Of v s d = lookup (fold note_load prog []) (unat s) (unat d)"
  using note_all_rep[OF rep_new[OF assms(1,2)] assms(3)] Of_rep[OF _ assms(4)] by blast

definition ex_smrd :: "u32 \<Rightarrow> u32 \<Rightarrow> u32 \<Rightarrow> Inst" where
  "ex_smrd sdst op pc = Inst_new\<lparr>i_enc := kSmrd, i_opcode := op, i_raw := [push_bit 15 sdst, 0, 0, 0, 0], i_pc := pc\<rparr>"

lemma descriptor_versions_refine_witness:
  "\<exists>v. note_all [ex_smrd 8 2 0, ex_smrd 10 1 5] (DescriptorVersions_new (replicate 128 0) (replicate 128 0)) = Some v \<and>
    Of v 8 2 = kInline"
proof -
  have "\<forall>x\<in>set [ex_smrd 8 2 0, ex_smrd 10 1 5]. load_fits x"
    by (simp add: load_fits_def is_load_def load_of_def ex_smrd_def Inst_new_def load_count_def kSgprs_def)
  moreover have "(\<forall>s. owns (10, 2, 5 :: u32) s \<longrightarrow> \<not> owns (8, 4, 0 :: u32) s) = False"
    using owns.simps[of 10 2 5 10] owns.simps[of 8 4 0 10] by auto
  then have "lookup (fold note_load [ex_smrd 8 2 0, ex_smrd 10 1 5] []) (unat (8 :: u32)) (unat (2 :: u32)) = kInline"
    by (auto simp: note_load_def is_load_def load_of_def ex_smrd_def Inst_new_def load_count_def lookup_def
        owns.simps[of _ _ _ 8])
  ultimately show ?thesis
    using descriptor_versions_refine[of "replicate 128 0" "replicate 128 0" "[ex_smrd 8 2 0, ex_smrd 10 1 5]" 8 2]
    by (simp add: kSgprs_def)
qed

text \<open>
  A load whose destination runs past the register file is clamped when it is recorded but not when
  it is retired: a second load over it writes outside the table.
\<close>

theorem note_out_of_bounds:
  "Note (ex_smrd 124 0 2) (DescriptorVersions_new (replicate 128 0) (replicate 128 0)) \<noteq> None \<and>
   note_all [ex_smrd 120 4 0, ex_smrd 124 0 2]
     (DescriptorVersions_new (replicate 128 0) (replicate 128 0)) = None"
  by code_simp

text \<open>
  The offset of a decoded scalar load. For every load the decoder emits, the offset is the 8-bit
  field in dwords when IMM is set, the dword after the instruction when IMM is clear and the field
  is 255 (that dword is then inside the window), and otherwise the register the field names, which
  is never 255.
\<close>

theorem smrd_offset_exact:
  assumes "i < m" and "i_enc (decode_at c m mode i) = kSmrd"
  shows "let w = c i; f = w AND 0xFF
    in DecodeSmrdOffset (decode_at c m mode i) =
      (if drop_bit 8 w AND 1 \<noteq> 0 then \<lparr>so_dwords = f, so_sgpr = 0, so_in_sgpr = False\<rparr>
       else if f = 0xFF then \<lparr>so_dwords = c (i + 1), so_sgpr = 0, so_in_sgpr = False\<rparr>
       else \<lparr>so_dwords = 0, so_sgpr = f, so_in_sgpr = True\<rparr>) \<and>
      (drop_bit 8 w AND 1 = 0 \<and> f = 0xFF \<longrightarrow> i + 1 < m)"
proof -
  let ?b = "mtbuf_opcode (fetch_base c m mode i)"
  have dec: "decode_at c m mode i = attach_extension c m ?b"
    by (rule decode_at_size(4)[OF assms(1)])
  have eb: "i_enc ?b = kSmrd"
    using assms(2) unfolding dec by (auto simp: attach_extension_def Let_def split: if_splits)
  then have cls: "fst (Classify (c i) mode) = kSmrd"
    by (auto simp: fetch_base_def Let_def Inst_new_def split: prod.splits if_splits)
  then have size: "i_size ?b = 1"
    by (auto simp: fetch_base_def Let_def Inst_new_def BaseSize_def split: prod.splits)
  have lit: "HasTrailingLiteral ?b (c i) \<longleftrightarrow> drop_bit 8 (c i) AND 1 = 0 \<and> c i AND 0xFF = 255"
    using eb by (simp add: HasTrailingLiteral_def)
  have ext: "vop_extension ?b (c i) = kNone" using eb by (simp add: vop_extension_def)
  have att: "attach_extension c m ?b =
      (if HasTrailingLiteral ?b (c i) then
         if m \<le> i + 1 then ?b\<lparr>i_enc := kUnknown, i_opcode := 0\<rparr>
         else ?b\<lparr>i_has_literal := True, i_literal := c (i + 1), i_extension := kLiteral, i_size := 2\<rparr>
       else ?b)"
    unfolding attach_extension_def Let_def using ext size by simp
  show ?thesis
  proof (cases "HasTrailingLiteral ?b (c i)")
    case True
    then have "i + 1 < m" using assms(2) unfolding dec att by (auto simp: not_le split: if_splits)
    then have "attach_extension c m ?b = ?b\<lparr>i_has_literal := True, i_literal := c (i + 1), i_extension := kLiteral, i_size := 2\<rparr>"
      unfolding att using True by auto
    then show ?thesis unfolding dec using True lit \<open>i + 1 < m\<close> by (simp add: DecodeSmrdOffset_def Let_def)
  next
    case False
    then have "attach_extension c m ?b = ?b" unfolding att by simp
    then show ?thesis unfolding dec using False lit by (auto simp: DecodeSmrdOffset_def Let_def)
  qed
qed

lemma smrd_offset_exact_witness:
  "DecodeSmrdOffset (decode_at (\<lambda>i. if i = 0 then 0xC00000FF else 0x1234) 2 kBase 0) =
     \<lparr>so_dwords = 0x1234, so_sgpr = 0, so_in_sgpr = False\<rparr>"
proof -
  have "i_enc (decode_at (\<lambda>i. if i = 0 then 0xC00000FF else 0x1234) 2 kBase 0) = kSmrd" by code_simp
  then show ?thesis
    using smrd_offset_exact[of 0 2 "\<lambda>i. if i = 0 then 0xC00000FF else 0x1234" kBase] by (simp add: Let_def)
qed

end
