(* ===== verification/Shader_Blocks.thy ===== *)
theory Shader_Blocks
  imports Gcn_Decode
begin

text \<open>
  The basic-block marking that \<open>ComputeReachability\<close> (\<open>delta/gpu/gcn/gcn_decode.cc\<close>) and
  \<open>ComputeRdnaReachability\<close> (\<open>delta/gpu/ps5/rdna/rdna_decode.cc\<close>) share line for line, over the
  classification \<open>kind\<close> of branches in which they differ: 0 ordinary, 1 unconditional relative,
  2 conditional relative, 3 end, 4 indirect. Blocks start at branch targets and after branches,
  and a worklist marks them. The locale \<open>decoded\<close> is the interface to a decoder: what it needs of a
  decoded program is that it tiles its code. In it the marks are shown to be the control flow of
  the program.

  Branch targets are sums of 32-bit words with the sign-extended 16-bit immediate.
\<close>

section \<open>Blocks\<close>

definition next_pc :: "Inst \<Rightarrow> u32" where
  "next_pc inst = i_pc inst + i_size inst"

definition branch_target :: "Inst \<Rightarrow> u32" where
  "branch_target inst = next_pc inst + scast (ucast (i_raw inst ! 0 AND 0xFFFF) :: 16 word)"

definition max_pc :: "Program \<Rightarrow> u32" where
  "max_pc prog = next_pc (last prog)"

definition raw_starts :: "(Inst \<Rightarrow> nat) \<Rightarrow> Program \<Rightarrow> u32 list" where
  "raw_starts kind prog = 0 # concat (map (\<lambda>inst.
     if kind inst = 0 then []
     else next_pc inst # (if kind inst \<in> {1, 2} then [branch_target inst] else [])) prog)"

definition block_starts :: "(Inst \<Rightarrow> nat) \<Rightarrow> Program \<Rightarrow> u32 list" where
  "block_starts kind prog = filter (\<lambda>pc. pc < max_pc prog) (remdups_adj (sort (raw_starts kind prog)))"

text \<open>The scan of \<open>block_of\<close>: \<open>i\<close> is the index of the head, \<open>block\<close> the last start not above \<open>pc\<close>.\<close>

fun block_scan :: "u32 \<Rightarrow> nat \<Rightarrow> nat \<Rightarrow> u32 list \<Rightarrow> nat" where
  "block_scan pc i block [] = block"
| "block_scan pc i block (s # ss) = (if pc < s then block else block_scan pc (Suc i) i ss)"

definition block_of :: "u32 list \<Rightarrow> u32 \<Rightarrow> nat" where
  "block_of starts pc = block_scan pc 0 0 starts"

definition block_end :: "Program \<Rightarrow> u32 list \<Rightarrow> nat \<Rightarrow> u32" where
  "block_end prog starts b = (if b + 1 < length starts then starts ! (b + 1) else max_pc prog)"

section \<open>The worklist\<close>

text \<open>The first branch of a block.\<close>

definition block_exit :: "(Inst \<Rightarrow> nat) \<Rightarrow> Program \<Rightarrow> u32 list \<Rightarrow> nat \<Rightarrow> Inst option" where
  "block_exit kind prog starts b =
     find (\<lambda>inst. \<not> (i_pc inst < starts ! b \<or> block_end prog starts b \<le> i_pc inst) \<and> kind inst \<noteq> 0) prog"

text \<open>
  The blocks a block puts on the worklist, the one popped first in front; \<open>None\<close> for an indirect
  branch, which marks every block and empties the worklist.
\<close>

definition pushes :: "(Inst \<Rightarrow> nat) \<Rightarrow> Program \<Rightarrow> u32 list \<Rightarrow> nat \<Rightarrow> nat list option" where
  "pushes kind prog starts b =
     (case block_exit kind prog starts b of
        None \<Rightarrow> Some [b + 1]
      | Some inst \<Rightarrow>
          if kind inst = 3 then Some []
          else if kind inst = 4 then None
          else Some ((if kind inst = 2 then [b + 1] else []) @
                     (if branch_target inst < max_pc prog then [block_of starts (branch_target inst)] else [])))"

text \<open>\<open>block_reachable\<close> has one entry per block, so its length is the bound the code tests.\<close>

function mark_blocks :: "(Inst \<Rightarrow> nat) \<Rightarrow> Program \<Rightarrow> u32 list \<Rightarrow> bool list \<Rightarrow> nat list \<Rightarrow> bool list" where
  "mark_blocks kind prog starts marked [] = marked"
| "mark_blocks kind prog starts marked (b # wl) =
     (if length marked \<le> b \<or> marked ! b then mark_blocks kind prog starts marked wl
      else case pushes kind prog starts b of
             None \<Rightarrow> replicate (length marked) True
           | Some ps \<Rightarrow> mark_blocks kind prog starts (marked[b := True]) (ps @ wl))"
  by pat_completeness auto
termination
proof (relation "measures [\<lambda>(kind, prog, starts, marked, wl). length (filter Not marked), \<lambda>(kind, prog, starts, marked, wl). length wl]",
    goal_cases)
  case (3 kind prog starts marked b wl ps)
  then have "length (filter Not (marked[b := True])) + 1 = length (filter Not marked)"
    using length_filter_update[of b marked Not True] by simp
  then show ?case by simp
qed simp_all

definition mark_program :: "(Inst \<Rightarrow> nat) \<Rightarrow> Program \<Rightarrow> bool list" where
  "mark_program kind prog =
     (if prog = [] then []
      else let starts = block_starts kind prog;
               marked = mark_blocks kind prog starts (replicate (length starts) False) [0]
           in map (\<lambda>inst. marked ! block_of starts (i_pc inst)) prog)"

section \<open>Programs that tile the code\<close>

abbreviation P :: "Inst \<Rightarrow> nat" where "P x \<equiv> unat (i_pc x)"
abbreviation Q :: "Inst \<Rightarrow> nat" where "Q x \<equiv> unat (i_pc x) + unat (i_size x)"

lemma tiles_apart: "\<lbrakk>tiles lo e xs; x \<in> set xs; y \<in> set xs; P x < P y\<rbrakk> \<Longrightarrow> Q x \<le> P y"
proof (induction xs arbitrary: lo)
  case (Cons a xs)
  have t: "tiles (Q a) e xs" "P a = lo" using Cons.prems(1) by auto
  consider "x = a" "y \<in> set xs" | "y = a" | "x \<in> set xs" "y \<in> set xs" using Cons.prems by auto
  then show ?case
  proof cases
    case 1
    then show ?thesis using tiles_bounds[OF t(1)] by auto
  next
    case 2
    then show ?thesis using Cons.prems(1,2,4) tiles_bounds[OF Cons.prems(1,2)] t(2) by simp
  next
    case 3
    then show ?thesis using Cons.IH[OF t(1)] Cons.prems(4) by blast
  qed
qed simp

lemma tiles_unique: "\<lbrakk>tiles lo e xs; x \<in> set xs; y \<in> set xs; P x = P y\<rbrakk> \<Longrightarrow> x = y"
proof (induction xs arbitrary: lo)
  case (Cons a xs)
  have t: "tiles (Q a) e xs" "P a < Q a" using Cons.prems(1) by auto
  have "P a < P z" if "z \<in> set xs" for z using tiles_bounds[OF t(1) that] t(2) by linarith
  then show ?case using Cons.IH[OF t(1)] Cons.prems(2-4) by (metis set_ConsD less_irrefl)
qed simp

lemma tiles_succ: "\<lbrakk>tiles lo e xs; x \<in> set xs; Q x < e\<rbrakk> \<Longrightarrow> \<exists>y\<in>set xs. P y = Q x"
proof (induction xs arbitrary: lo)
  case (Cons a xs)
  have t: "tiles (Q a) e xs" using Cons.prems(1) by auto
  show ?case
  proof (cases "x = a")
    case True
    then show ?thesis using t Cons.prems(3) by (cases xs) auto
  next
    case False
    then show ?thesis using Cons.IH[OF t] Cons.prems by auto
  qed
qed simp

lemma tiles_pred: "\<lbrakk>tiles lo e xs; y \<in> set xs; lo < P y\<rbrakk> \<Longrightarrow> \<exists>x\<in>set xs. Q x = P y"
proof (induction xs arbitrary: lo)
  case (Cons a xs)
  have t: "tiles (Q a) e xs" "P a = lo" using Cons.prems(1) by auto
  then have y: "y \<in> set xs" using Cons.prems(2,3) by auto
  show ?case
  proof (cases "P y = Q a")
    case True
    then show ?thesis by auto
  next
    case False
    then have "Q a < P y" using tiles_bounds[OF t(1) y] by linarith
    then show ?thesis using Cons.IH[OF t(1) y] by auto
  qed
qed simp

lemma tiles_last: "\<lbrakk>tiles lo e xs; xs \<noteq> []\<rbrakk> \<Longrightarrow> Q (last xs) = e"
proof (induction xs arbitrary: lo)
  case (Cons a xs)
  then show ?case by (cases xs) auto
qed simp

lemma tiles_first: "\<lbrakk>tiles lo e xs; xs \<noteq> []\<rbrakk> \<Longrightarrow> P (hd xs) = lo"
  by (cases xs) auto

lemma strict_remdups_adj: "sorted xs \<Longrightarrow> sorted_wrt (<) (remdups_adj (xs :: u32 list))"
  by (induction xs rule: remdups_adj.induct) (auto simp: less_le)

text \<open>A decoded program, not empty and of less than \<open>2^32\<close> dwords.\<close>

locale decoded =
  fixes kind :: "Inst \<Rightarrow> nat" and prog :: Program and e :: nat
  assumes tiled: "tiles 0 e prog" and nonempty: "prog \<noteq> []" and small: "e < 2 ^ 32"
    and kinds: "kind x \<in> {0, 1, 2, 3, 4}"
begin

abbreviation starts :: "u32 list" where "starts \<equiv> block_starts kind prog"
abbreviation N :: nat where "N \<equiv> length starts"
abbreviation blk :: "u32 \<Rightarrow> nat" where "blk \<equiv> block_of starts"

lemmas bounds = tiles_bounds[OF tiled]
lemmas apart = tiles_apart[OF tiled]
lemmas unique = tiles_unique[OF tiled]
lemmas succ = tiles_succ[OF tiled]
lemmas pred = tiles_pred[OF tiled]

lemma next_pc: "x \<in> set prog \<Longrightarrow> unat (next_pc x) = Q x"
  using bounds[of x] small by (simp add: next_pc_def unat_word_ariths)

lemma max_pc: "unat (max_pc prog) = e"
  using next_pc[of "last prog"] tiles_last[OF tiled nonempty] nonempty by (simp add: max_pc_def)

lemma e_pos: "0 < e"
  using bounds[of "hd prog"] nonempty by fastforce

lemma starts_set: "set starts = {s \<in> set (raw_starts kind prog). s < max_pc prog}"
  by (auto simp: block_starts_def)

lemma starts_sorted: "sorted_wrt (<) starts"
proof -
  have "sorted_wrt (<) (remdups_adj (sort (raw_starts kind prog)))"
    by (rule strict_remdups_adj) simp
  then show ?thesis unfolding block_starts_def by (rule sorted_wrt_filter)
qed

lemma starts_less: "\<lbrakk>i < j; j < N\<rbrakk> \<Longrightarrow> starts ! i < starts ! j"
  using starts_sorted by (simp add: sorted_wrt_iff_nth_less)

lemma starts_le: "\<lbrakk>i \<le> j; j < N\<rbrakk> \<Longrightarrow> starts ! i \<le> starts ! j"
  using starts_less[of i j] by (cases "i = j") auto

lemma zero_start: "0 < N" "starts ! 0 = 0"
proof -
  have "0 \<in> set starts" using e_pos max_pc by (auto simp: starts_set raw_starts_def word_less_nat_alt)
  then obtain i where i: "i < N" "starts ! i = 0" by (meson in_set_conv_nth)
  then show "0 < N" by linarith
  have "i = 0" using starts_less[of 0 i] i by (cases i) auto
  then show "starts ! 0 = 0" using i by simp
qed

lemma start_below: "b < N \<Longrightarrow> starts ! b < max_pc prog"
  using starts_set nth_mem[of b starts] by blast

lemma next_start: "\<lbrakk>x \<in> set prog; kind x \<noteq> 0; Q x < e\<rbrakk> \<Longrightarrow> next_pc x \<in> set starts"
  using next_pc[of x] max_pc by (fastforce simp: starts_set raw_starts_def word_less_nat_alt)

lemma target_start:
  "\<lbrakk>x \<in> set prog; kind x \<in> {1, 2}; branch_target x < max_pc prog\<rbrakk> \<Longrightarrow> branch_target x \<in> set starts"
  by (fastforce simp: starts_set raw_starts_def)

end

lemma block_scan_spec:
  assumes "sorted_wrt (<) (pre @ ss)" "pre \<noteq> []" "last pre \<le> pc"
  shows "let b = block_scan pc (length pre) (length pre - 1) ss; all = pre @ ss
    in b < length all \<and> all ! b \<le> pc \<and> (b + 1 < length all \<longrightarrow> pc < all ! (b + 1))"
  using assms
proof (induction ss arbitrary: pre)
  case Nil
  then show ?case by (simp add: last_conv_nth)
next
  case (Cons s ss)
  show ?case
  proof (cases "pc < s")
    case True
    have "(pre @ s # ss) ! (length pre - 1) = last pre"
      using Cons.prems(2) by (simp add: nth_append last_conv_nth)
    moreover have "length pre - 1 + 1 = length pre" using Cons.prems(2) by (cases pre) auto
    ultimately show ?thesis using True Cons.prems by (simp add: Let_def)
  next
    case False
    have "block_scan pc (length pre) (length pre - 1) (s # ss) =
        block_scan pc (length (pre @ [s])) (length (pre @ [s]) - 1) ss" using False by simp
    then show ?thesis using Cons.IH[of "pre @ [s]"] Cons.prems(1) False by simp
  qed
qed

context decoded
begin

lemma blk: "blk pc < N \<and> starts ! blk pc \<le> pc \<and> (blk pc + 1 < N \<longrightarrow> pc < starts ! (blk pc + 1))"
proof -
  obtain ss where ss: "starts = 0 # ss" using zero_start by (cases starts) auto
  have "blk pc = block_scan pc (length [0]) (length [0 :: u32] - 1) ss" unfolding block_of_def ss by simp
  moreover have "sorted_wrt (<) ([0] @ ss)" using starts_sorted ss by simp
  ultimately show ?thesis using block_scan_spec[of "[0]" ss pc] ss by (simp add: Let_def)
qed

lemma blk_eq: "\<lbrakk>b < N; starts ! b \<le> pc; b + 1 < N \<longrightarrow> pc < starts ! (b + 1)\<rbrakk> \<Longrightarrow> blk pc = b"
proof (rule ccontr)
  assume a: "b < N" "starts ! b \<le> pc" "b + 1 < N \<longrightarrow> pc < starts ! (b + 1)" and "blk pc \<noteq> b"
  then consider "blk pc < b" | "b < blk pc" by linarith
  then show False
  proof cases
    case 1
    then have "starts ! (blk pc + 1) \<le> starts ! b" using a(1) starts_le[of "blk pc + 1" b] by simp
    then show False using blk[of pc] 1 a(1,2) by (simp add: word_nat)
  next
    case 2
    then have "starts ! (b + 1) \<le> starts ! blk pc" using blk[of pc] starts_le[of "b + 1" "blk pc"] by simp
    then show False using blk[of pc] 2 a(3) by (simp add: word_nat)
  qed
qed

lemma blk_start: "s \<in> set starts \<Longrightarrow> starts ! blk s = s"
proof -
  assume "s \<in> set starts"
  then obtain b where b: "b < N" "starts ! b = s" by (meson in_set_conv_nth)
  then have "blk s = b" using starts_less[of b "b + 1"] by (intro blk_eq) auto
  then show ?thesis using b by simp
qed

lemma in_block: "b < N \<Longrightarrow> pc < max_pc prog \<Longrightarrow>
    (\<not> (pc < starts ! b \<or> block_end prog starts b \<le> pc)) \<longleftrightarrow> blk pc = b"
  using blk[of pc] blk_eq[of b pc] by (auto simp: block_end_def not_less not_le)

lemma pc_below: "x \<in> set prog \<Longrightarrow> i_pc x < max_pc prog"
  using bounds[of x] max_pc by (simp add: word_less_nat_alt)

text \<open>A branch is the last instruction of its block.\<close>

lemma branch_last:
  assumes x: "x \<in> set prog" "kind x \<noteq> 0" and y: "y \<in> set prog" "P x < P y"
  shows "blk (i_pc x) < blk (i_pc y)"
proof (rule ccontr)
  assume "\<not> blk (i_pc x) < blk (i_pc y)"
  then have le: "blk (i_pc y) \<le> blk (i_pc x)" by simp
  have qy: "Q x \<le> P y" by (rule apart[OF x(1) y])
  then have "Q x < e" using bounds[OF y(1)] by linarith
  then have s: "next_pc x \<in> set starts" by (rule next_start[OF x])
  let ?c = "blk (next_pc x)"
  have c: "?c < N" "starts ! ?c = next_pc x" using blk blk_start[OF s] by blast+
  have "?c \<le> blk (i_pc y)"
  proof (rule ccontr)
    assume "\<not> ?c \<le> blk (i_pc y)"
    then have "starts ! (blk (i_pc y) + 1) \<le> next_pc x" using starts_le[of "blk (i_pc y) + 1" ?c] c by simp
    moreover have "i_pc y < starts ! (blk (i_pc y) + 1)" using blk[of "i_pc y"] \<open>\<not> ?c \<le> _\<close> c(1) by simp
    ultimately show False using qy next_pc[OF x(1)] by (simp add: word_le_nat_alt word_less_nat_alt)
  qed
  then have "starts ! ?c \<le> starts ! blk (i_pc x)" using starts_le[of ?c "blk (i_pc x)"] le blk by simp
  then have "next_pc x \<le> i_pc x" using c(2) blk[of "i_pc x"] by (metis order_trans)
  then show False using bounds[OF x(1)] next_pc[OF x(1)] by (simp add: word_le_nat_alt)
qed

lemma block_exit_None:
  "\<lbrakk>b < N; block_exit kind prog starts b = None; x \<in> set prog; blk (i_pc x) = b\<rbrakk> \<Longrightarrow> kind x = 0"
  using in_block[of b "i_pc x"] pc_below[of x] by (auto simp: block_exit_def find_None_iff)

lemma block_exit_Some:
  "\<lbrakk>b < N; block_exit kind prog starts b = Some x\<rbrakk> \<Longrightarrow> x \<in> set prog \<and> blk (i_pc x) = b \<and> kind x \<noteq> 0"
  using in_block[of b "i_pc x"] pc_below[of x] by (auto simp: block_exit_def find_Some_iff)

lemma block_exit_eq:
  assumes "x \<in> set prog" "kind x \<noteq> 0"
  shows "block_exit kind prog starts (blk (i_pc x)) = Some x"
proof -
  let ?b = "blk (i_pc x)"
  have b: "?b < N" using blk by blast
  obtain y where y: "block_exit kind prog starts ?b = Some y"
    using block_exit_None[OF b _ assms(1) refl] assms(2) by fastforce
  then have y': "y \<in> set prog" "blk (i_pc y) = ?b" "kind y \<noteq> 0" using block_exit_Some[OF b] by auto
  have "\<not> P x < P y" "\<not> P y < P x"
    using branch_last[OF assms y'(1)] branch_last[OF y'(1,3) assms(1)] y'(2) by auto
  then have "y = x" using unique[OF y'(1) assms(1)] by simp
  then show ?thesis using y by simp
qed

end

section \<open>The worklist loop\<close>

text \<open>
  A block that the loop marked has its successors marked too, and all blocks are marked when one of
  the marked blocks ends in an indirect branch.
\<close>

definition closed :: "(Inst \<Rightarrow> nat) \<Rightarrow> Program \<Rightarrow> u32 list \<Rightarrow> bool list \<Rightarrow> bool list \<Rightarrow> bool" where
  "closed kind prog starts old new \<longleftrightarrow>
     (\<forall>b<length new. new ! b \<and> \<not> old ! b \<longrightarrow>
        (case pushes kind prog starts b of
           None \<Rightarrow> \<forall>c<length new. new ! c
         | Some ps \<Rightarrow> \<forall>c\<in>set ps. c < length new \<longrightarrow> new ! c))"

lemma mark_blocks_spec:
  "length (mark_blocks kind prog starts marked wl) = length marked \<and>
   (\<forall>b<length marked. marked ! b \<or> b \<in> set wl \<longrightarrow> mark_blocks kind prog starts marked wl ! b) \<and>
   closed kind prog starts marked (mark_blocks kind prog starts marked wl)"
proof (induction kind prog starts marked wl rule: mark_blocks.induct)
  case (1 kind prog starts marked)
  then show ?case by (simp add: closed_def)
next
  case (2 kind prog starts marked b wl)
  consider (skip) "length marked \<le> b \<or> marked ! b"
    | (all) "b < length marked" "\<not> marked ! b" "pushes kind prog starts b = None"
    | (step) ps where "b < length marked" "\<not> marked ! b" "pushes kind prog starts b = Some ps" by fastforce
  then show ?case
  proof cases
    case skip
    then have "mark_blocks kind prog starts marked (b # wl) = mark_blocks kind prog starts marked wl" by simp
    then show ?thesis using 2(1)[OF skip] skip by auto
  next
    case all
    then show ?thesis by (auto simp: closed_def split: option.split)
  next
    case step
    let ?m = "mark_blocks kind prog starts (marked[b := True]) (ps @ wl)"
    have eq: "mark_blocks kind prog starts marked (b # wl) = ?m" using step by simp
    have IH: "length ?m = length marked"
        "\<And>c. \<lbrakk>c < length marked; marked[b := True] ! c \<or> c \<in> set (ps @ wl)\<rbrakk> \<Longrightarrow> ?m ! c"
        "closed kind prog starts (marked[b := True]) ?m"
      using 2(2)[OF _ step(3)] step by auto
    have "closed kind prog starts marked ?m"
      unfolding closed_def
    proof (intro allI impI)
      fix c assume c: "c < length ?m" "?m ! c \<and> \<not> marked ! c"
      show "case pushes kind prog starts c of None \<Rightarrow> \<forall>c<length ?m. ?m ! c
          | Some ps \<Rightarrow> \<forall>c\<in>set ps. c < length ?m \<longrightarrow> ?m ! c"
      proof (cases "c = b")
        case True
        then show ?thesis using step(3) IH(1,2) by auto
      next
        case False
        then have "\<not> marked[b := True] ! c" using c(2) by simp
        then show ?thesis using IH(3) c unfolding closed_def by blast
      qed
    qed
    moreover have "?m ! c" if "c < length marked" "marked ! c \<or> c \<in> set (b # wl)" for c
      using IH(2)[of c] that step(1) by (cases "c = b") auto
    ultimately show ?thesis unfolding eq using IH(1) by blast
  qed
qed

text \<open>Every block the loop marks satisfies a property that the worklist starts with and blocks pass on.\<close>

definition passes :: "(Inst \<Rightarrow> nat) \<Rightarrow> Program \<Rightarrow> u32 list \<Rightarrow> nat \<Rightarrow> (nat \<Rightarrow> bool) \<Rightarrow> bool" where
  "passes kind prog starts n R \<longleftrightarrow>
     (\<forall>b<n. R b \<longrightarrow> (case pushes kind prog starts b of
        None \<Rightarrow> \<forall>c<n. R c | Some ps \<Rightarrow> \<forall>c\<in>set ps. c < n \<longrightarrow> R c))"

lemma mark_blocks_only:
  "\<lbrakk>passes kind prog starts (length marked) R; \<forall>b<length marked. marked ! b \<or> b \<in> set wl \<longrightarrow> R b\<rbrakk> \<Longrightarrow>
    \<forall>b<length marked. mark_blocks kind prog starts marked wl ! b \<longrightarrow> R b"
proof (induction kind prog starts marked wl rule: mark_blocks.induct)
  case (2 kind prog starts marked b wl)
  consider (skip) "length marked \<le> b \<or> marked ! b"
    | (all) "b < length marked" "\<not> marked ! b" "pushes kind prog starts b = None"
    | (step) ps where "b < length marked" "\<not> marked ! b" "pushes kind prog starts b = Some ps" by fastforce
  then show ?case
  proof cases
    case skip
    then have "mark_blocks kind prog starts marked (b # wl) = mark_blocks kind prog starts marked wl" by simp
    then show ?thesis using 2(1)[OF skip 2(3)] 2(4) by simp
  next
    case all
    then have "\<forall>c<length marked. R c" using 2(3,4) unfolding passes_def by fastforce
    then show ?thesis by blast
  next
    case step
    then have R: "R b" "\<forall>c\<in>set ps. c < length marked \<longrightarrow> R c" using 2(3,4) unfolding passes_def by fastforce+
    have "\<forall>c<length (marked[b := True]). marked[b := True] ! c \<or> c \<in> set (ps @ wl) \<longrightarrow> R c"
    proof (intro allI impI)
      fix c assume c: "c < length (marked[b := True])" "marked[b := True] ! c \<or> c \<in> set (ps @ wl)"
      then show "R c" using R 2(4) by (cases "c = b") auto
    qed
    moreover have "\<not> (length marked \<le> b \<or> marked ! b)" using step by simp
    ultimately have "\<forall>c<length (marked[b := True]). mark_blocks kind prog starts (marked[b := True]) (ps @ wl) ! c \<longrightarrow> R c"
      using 2(2)[OF _ step(3)] 2(3) unfolding length_list_update by blast
    then show ?thesis using step by simp
  qed
qed simp

section \<open>Control flow\<close>

text \<open>
  The positions control flow can reach: the entry, the instruction after one that can fall through,
  a relative target, and any decoded instruction after an indirect branch.
\<close>

inductive flow :: "(Inst \<Rightarrow> nat) \<Rightarrow> Program \<Rightarrow> u32 \<Rightarrow> bool" for kind prog where
  entry: "flow kind prog 0"
| fall: "\<lbrakk>flow kind prog (i_pc x); x \<in> set prog; kind x \<in> {0, 2}\<rbrakk> \<Longrightarrow> flow kind prog (next_pc x)"
| jump: "\<lbrakk>flow kind prog (i_pc x); x \<in> set prog; kind x \<in> {1, 2}\<rbrakk> \<Longrightarrow> flow kind prog (branch_target x)"
| indirect: "\<lbrakk>flow kind prog (i_pc x); x \<in> set prog; kind x = 4; y \<in> set prog\<rbrakk> \<Longrightarrow> flow kind prog (i_pc y)"

context decoded
begin

abbreviation M :: "bool list" where "M \<equiv> mark_blocks kind prog starts (replicate N False) [0]"

lemma M_facts: "length M = N" "M ! 0"
    "\<lbrakk>b < N; M ! b; pushes kind prog starts b = Some ps; c \<in> set ps; c < N\<rbrakk> \<Longrightarrow> M ! c"
    "\<lbrakk>b < N; M ! b; pushes kind prog starts b = None; c < N\<rbrakk> \<Longrightarrow> M ! c"
  using mark_blocks_spec[of kind prog starts "replicate N False" "[0]"] zero_start(1)
  unfolding closed_def by fastforce+

text \<open>Falling through from \<open>x\<close> passes only blocks without instructions.\<close>

lemma fall_marked:
  assumes x: "x \<in> set prog" and q: "next_pc x < max_pc prog"
    and nxt: "blk (i_pc x) + 1 \<le> blk (next_pc x) \<Longrightarrow> M ! (blk (i_pc x) + 1)" and here: "M ! blk (i_pc x)"
  shows "M ! blk (next_pc x)"
proof -
  let ?b = "blk (i_pc x)" and ?c = "blk (next_pc x)"
  have "?b \<le> ?c"
  proof (rule ccontr)
    assume "\<not> ?b \<le> ?c"
    then have "starts ! (?c + 1) \<le> starts ! ?b" using starts_le[of "?c + 1" ?b] blk by simp
    then have "starts ! (?c + 1) \<le> i_pc x" using blk[of "i_pc x"] by (metis order_trans)
    moreover have "next_pc x < starts ! (?c + 1)" using blk[of "next_pc x"] blk[of "i_pc x"] \<open>\<not> ?b \<le> ?c\<close> by simp
    ultimately show False using next_pc[OF x] by (simp add: word_nat)
  qed
  have "M ! k" if "?b + 1 \<le> k" "k \<le> ?c" for k
    using that
  proof (induction k rule: nat_induct_at_least)
    case base
    then show ?case using nxt by simp
  next
    case (Suc k)
    have k: "k < N" "M ! k" "Suc k < N" using Suc blk[of "next_pc x"] by auto
    have "block_exit kind prog starts k = None"
    proof (rule ccontr)
      assume "block_exit kind prog starts k \<noteq> None"
      then obtain y where y: "y \<in> set prog" "blk (i_pc y) = k" using block_exit_Some[OF k(1)] by fastforce
      have "i_pc y < starts ! Suc k" using blk[of "i_pc y"] y(2) k(3) by simp
      moreover have "starts ! Suc k \<le> next_pc x"
        using starts_le[of "Suc k" ?c] Suc.prems blk[of "next_pc x"] by (metis order_trans)
      ultimately have up: "P y < Q x" using next_pc[OF x] by (simp add: word_nat)
      have "i_pc x < starts ! (?b + 1)" using blk[of "i_pc x"] Suc.hyps k(1) by simp
      moreover have "starts ! (?b + 1) \<le> i_pc y" using starts_le[of "?b + 1" k] Suc.hyps k(1) blk[of "i_pc y"] y(2) by (metis order_trans)
      ultimately have "P x < P y" by (simp add: word_nat)
      then show False using apart[OF x y(1)] up by simp
    qed
    then have "pushes kind prog starts k = Some [k + 1]" by (simp add: pushes_def)
    then show ?case using M_facts(3)[OF k(1,2)] k(3) by simp
  qed
  then show ?thesis using \<open>?b \<le> ?c\<close> here by (cases "?b = ?c") auto
qed

lemma flow_marked: "flow kind prog pc \<Longrightarrow> pc < max_pc prog \<Longrightarrow> M ! blk pc"
proof (induction rule: flow.induct)
  case entry
  have "blk 0 = 0" using zero_start starts_less[of 0 1] by (intro blk_eq) auto
  then show ?case using M_facts(2) by simp
next
  case (fall x)
  let ?b = "blk (i_pc x)"
  have b: "?b < N" "M ! ?b" using fall.IH[OF pc_below] fall.hyps(2) blk by auto
  show ?case
  proof (rule fall_marked[OF fall.hyps(2) fall.prems _ b(2)])
    assume le: "?b + 1 \<le> blk (next_pc x)"
    then have n: "?b + 1 < N" using blk[of "next_pc x"] by simp
    have "?b + 1 \<in> set ps" if "pushes kind prog starts ?b = Some ps" for ps
    proof (cases "block_exit kind prog starts ?b")
      case None
      then show ?thesis using that by (auto simp: pushes_def)
    next
      case (Some y)
      then have y: "y \<in> set prog" "blk (i_pc y) = ?b" "kind y \<noteq> 0" using block_exit_Some[OF b(1)] by auto
      have "\<not> P y < P x" using branch_last[OF y(1,3) fall.hyps(2)] y(2) by auto
      moreover have "\<not> P x < P y"
      proof
        assume "P x < P y"
        then have "next_pc x \<le> i_pc y" using apart[OF fall.hyps(2) y(1)] next_pc[OF fall.hyps(2)] by (simp add: word_nat)
        moreover have "starts ! (?b + 1) \<le> next_pc x"
          using starts_le[OF le] blk[of "next_pc x"] by (metis order_trans)
        moreover have "i_pc y < starts ! (?b + 1)" using blk[of "i_pc y"] y(2) n by simp
        ultimately show False by (simp add: word_nat)
      qed
      ultimately have "y = x" using unique[OF y(1) fall.hyps(2)] by simp
      then show ?thesis using that Some fall.hyps(3) y(3) by (auto simp: pushes_def)
    qed
    then show "M ! (?b + 1)" using M_facts(3,4)[OF b] n by (cases "pushes kind prog starts ?b") auto
  qed
next
  case (jump x)
  let ?b = "blk (i_pc x)"
  have b: "?b < N" "M ! ?b" using jump.IH[OF pc_below] jump.hyps(2) blk by auto
  have "block_exit kind prog starts ?b = Some x" using block_exit_eq[OF jump.hyps(2)] jump.hyps(3) by auto
  then obtain ps where "pushes kind prog starts ?b = Some ps" "blk (branch_target x) \<in> set ps"
    using jump.hyps(3) jump.prems by (auto simp: pushes_def)
  then show ?case using M_facts(3)[OF b] blk by blast
next
  case (indirect x y)
  let ?b = "blk (i_pc x)"
  have b: "?b < N" "M ! ?b" using indirect.IH[OF pc_below] indirect.hyps(2) blk by auto
  have "block_exit kind prog starts ?b = Some x" using block_exit_eq[OF indirect.hyps(2)] indirect.hyps(3) by auto
  then have "pushes kind prog starts ?b = None" using indirect.hyps(3) by (simp add: pushes_def)
  then show ?case using M_facts(4)[OF b] blk by blast
qed

end

text \<open>No relative branch jumps into the middle of an instruction.\<close>

definition boundaries :: "(Inst \<Rightarrow> nat) \<Rightarrow> Program \<Rightarrow> bool" where
  "boundaries kind prog \<longleftrightarrow>
     (\<forall>x\<in>set prog. kind x \<in> {1, 2} \<and> branch_target x < max_pc prog \<longrightarrow>
        (\<exists>y\<in>set prog. i_pc y = branch_target x))"

context decoded
begin

lemma start_inst:
  assumes "boundaries kind prog" "s \<in> set starts"
  shows "\<exists>y\<in>set prog. i_pc y = s"
proof -
  have s: "s \<in> set (raw_starts kind prog)" "s < max_pc prog" using assms(2) starts_set by auto
  consider "s = 0" | x where "x \<in> set prog" "s = next_pc x"
    | x where "x \<in> set prog" "kind x \<in> {1, 2}" "s = branch_target x"
    using s(1) by (auto simp: raw_starts_def split: if_splits)
  then show ?thesis
  proof cases
    case 1
    then show ?thesis
      using tiles_first[OF tiled nonempty] nonempty by (metis hd_in_set unat_eq_zero)
  next
    case (2 x)
    then have "Q x < e" using s(2) next_pc[OF 2(1)] max_pc by (simp add: word_nat)
    then obtain y where "y \<in> set prog" "P y = Q x" using succ[OF 2(1)] by blast
    then show ?thesis using 2 next_pc[OF 2(1)] by (metis word_unat_eq_iff)
  next
    case (3 x)
    then show ?thesis using assms(1) s(2) unfolding boundaries_def by blast
  qed
qed

text \<open>The instruction before a position inside a block is in the block.\<close>

lemma block_pred:
  assumes bnd: "boundaries kind prog" and b: "b < N" and y: "y \<in> set prog" "starts ! b < i_pc y"
    "b + 1 < N \<longrightarrow> i_pc y \<le> starts ! (b + 1)"
  shows "\<exists>x\<in>set prog. blk (i_pc x) = b \<and> next_pc x = i_pc y \<and> P x < P y"
proof -
  obtain z where z: "z \<in> set prog" "i_pc z = starts ! b" using start_inst[OF bnd] b nth_mem by blast
  have "0 < P y" using y(2) by (simp add: word_nat)
  then obtain x where x: "x \<in> set prog" "Q x = P y" using pred[OF y(1)] by blast
  have lt: "P x < P y" using x(2) bounds[OF x(1)] by simp
  have "\<not> P x < P z" using apart[OF x(1) z(1)] x(2) y(2) z(2) by (auto simp: word_nat)
  then have "starts ! b \<le> i_pc x" using z(2) by (simp add: word_nat)
  moreover have "b + 1 < N \<longrightarrow> i_pc x < starts ! (b + 1)" using y(3) lt by (auto simp: word_nat)
  ultimately have "blk (i_pc x) = b" by (rule blk_eq[OF b])
  moreover have "next_pc x = i_pc y" using next_pc[OF x(1)] x(2) by (simp add: word_unat_eq_iff)
  ultimately show ?thesis using x(1) lt by blast
qed

lemma block_flow:
  assumes bnd: "boundaries kind prog" and b: "b < N" "flow kind prog (starts ! b)"
  shows "\<lbrakk>x \<in> set prog; blk (i_pc x) = b\<rbrakk> \<Longrightarrow> flow kind prog (i_pc x)"
proof (induction "P x" arbitrary: x rule: less_induct)
  case less
  show ?case
  proof (cases "i_pc x = starts ! b")
    case True
    then show ?thesis using b(2) by simp
  next
    case False
    then have gt: "starts ! b < i_pc x" using blk[of "i_pc x"] less.prems(2) by auto
    have "b + 1 < N \<longrightarrow> i_pc x \<le> starts ! (b + 1)" using blk[of "i_pc x"] less.prems(2) by auto
    then obtain y where y: "y \<in> set prog" "blk (i_pc y) = b" "next_pc y = i_pc x" "P y < P x"
      using block_pred[OF bnd b(1) less.prems(1) gt] by blast
    have "kind y = 0" using branch_last[OF y(1) _ less.prems(1) y(4)] y(2) less.prems(2) by auto
    then show ?thesis using flow.fall[OF less.hyps[OF y(4,1,2)] y(1)] y(3) by simp
  qed
qed

lemma flow_passes: "boundaries kind prog \<Longrightarrow> passes kind prog starts N (\<lambda>b. flow kind prog (starts ! b))"
  unfolding passes_def
proof (intro allI impI)
  fix b assume bnd: "boundaries kind prog" and b: "b < N" "flow kind prog (starts ! b)"
  note inside = block_flow[OF bnd b]
  have succ: "flow kind prog (starts ! (b + 1))"
    if n: "b + 1 < N" and k: "\<And>x. \<lbrakk>x \<in> set prog; blk (i_pc x) = b; next_pc x = starts ! (b + 1)\<rbrakk> \<Longrightarrow> kind x \<in> {0, 2}"
  proof -
    obtain y where y: "y \<in> set prog" "i_pc y = starts ! (b + 1)" using start_inst[OF bnd] n nth_mem by blast
    then obtain x where "x \<in> set prog" "blk (i_pc x) = b" "next_pc x = starts ! (b + 1)"
      using block_pred[OF bnd b(1) y(1)] starts_less[of b "b + 1"] n by auto
    then show ?thesis using flow.fall[OF inside] k by metis
  qed
  show "case pushes kind prog starts b of None \<Rightarrow> \<forall>c<N. flow kind prog (starts ! c)
      | Some ps \<Rightarrow> \<forall>c\<in>set ps. c < N \<longrightarrow> flow kind prog (starts ! c)"
  proof (cases "block_exit kind prog starts b")
    case None
    then have "kind x = 0" if "x \<in> set prog" "blk (i_pc x) = b" for x using block_exit_None[OF b(1)] that by blast
    then show ?thesis using None succ by (simp add: pushes_def)
  next
    case (Some x)
    then have x: "x \<in> set prog" "blk (i_pc x) = b" "kind x \<noteq> 0" using block_exit_Some[OF b(1)] by auto
    have fx: "flow kind prog (i_pc x)" by (rule inside[OF x(1,2)])
    have only: "y = x" if "y \<in> set prog" "blk (i_pc y) = b" "next_pc y = starts ! (b + 1)" "b + 1 < N" for y
    proof -
      have "\<not> P x < P y" using branch_last[OF x(1,3) that(1)] x(2) that(2) by auto
      moreover have "\<not> P y < P x"
      proof
        assume "P y < P x"
        then have "starts ! (b + 1) \<le> i_pc x" using apart[OF that(1) x(1)] next_pc[OF that(1)] that(3) by (simp add: word_nat)
        then show False using blk[of "i_pc x"] x(2) that(4) by (simp add: word_nat)
      qed
      ultimately show ?thesis using unique[OF that(1) x(1)] by simp
    qed
    have fall: "flow kind prog (starts ! (b + 1))" if "kind x = 2" "b + 1 < N"
      using succ[OF that(2)] only that by blast
    have jump: "flow kind prog (starts ! blk (branch_target x))"
      if "kind x \<in> {1, 2}" "branch_target x < max_pc prog"
      using flow.jump[OF fx x(1) that(1)] blk_start[OF target_start[OF x(1) that]] by simp
    have all: "flow kind prog (starts ! c)" if "kind x = 4" "c < N" for c
      using start_inst[OF bnd nth_mem[OF that(2)]] flow.indirect[OF fx x(1) that(1)] by metis
    show ?thesis
      using Some fall jump all kinds[of x] x(3) by (auto simp: pushes_def split: if_splits)
  qed
qed

lemma marked_flow: "\<lbrakk>boundaries kind prog; x \<in> set prog; M ! blk (i_pc x)\<rbrakk> \<Longrightarrow> flow kind prog (i_pc x)"
proof -
  assume bnd: "boundaries kind prog" and x: "x \<in> set prog" "M ! blk (i_pc x)"
  have "\<forall>b<N. M ! b \<longrightarrow> flow kind prog (starts ! b)"
    using mark_blocks_only[of kind prog starts "replicate N False" "\<lambda>b. flow kind prog (starts ! b)" "[0]"]
      flow_passes[OF bnd] zero_start flow.entry by simp
  then show ?thesis using block_flow[OF bnd _ _ x(1) refl] blk x(2) by blast
qed

lemma reach_nth: "k < length prog \<Longrightarrow> mark_program kind prog ! k = M ! blk (i_pc (prog ! k))"
  using nonempty by (simp add: mark_program_def Let_def)

lemma reach_sound: "\<lbrakk>k < length prog; flow kind prog (i_pc (prog ! k))\<rbrakk> \<Longrightarrow> mark_program kind prog ! k"
  using reach_nth flow_marked pc_below by simp

lemma reach_precise: "\<lbrakk>boundaries kind prog; k < length prog; mark_program kind prog ! k\<rbrakk> \<Longrightarrow> flow kind prog (i_pc (prog ! k))"
  using reach_nth marked_flow by simp

end

definition span :: "Program \<Rightarrow> nat" where
  "span prog = sum_list (map (\<lambda>x. unat (i_size x)) prog)"

lemma tiles_span: "tiles lo e xs \<Longrightarrow> e = lo + span xs"
proof (induction xs arbitrary: lo)
  case (Cons a xs)
  have "e = lo + unat (i_size a) + span xs" using Cons.prems by (intro Cons.IH) simp
  then show ?case by (simp add: span_def)
qed (simp add: span_def)

end
