(* ===== verification/Gcn_Reach.thy ===== *)
theory Gcn_Reach
  imports Shader_Blocks
begin

text \<open>
  \<open>ComputeReachability\<close> of \<open>delta/gpu/gcn/gcn_decode.cc\<close>: which decoded instructions control flow can
  reach from the entry, for the GCN branch opcodes. The decoder's output is an instance of the
  programs for which the block marking was shown correct.
\<close>

text \<open>0 ordinary, 1 unconditional relative, 2 conditional relative, 3 end, 4 indirect.\<close>

definition branch_kind :: "Inst \<Rightarrow> nat" where
  "branch_kind inst =
     (if i_enc inst = kSopk \<and> i_opcode inst = 0x11 then 2
      else if i_enc inst = kSop2 \<and> i_opcode inst = 0x2B then 4
      else if i_enc inst = kSop1 then (if i_opcode inst \<in> {0x20, 0x22, 0x32} then 4 else 0)
      else if i_enc inst \<noteq> kSopp then 0
      else if i_opcode inst \<in> {0x01, 0x1E, 0x1F} then 3
      else if i_opcode inst = 0x02 then 1
      else if i_opcode inst \<in> {0x04, 0x05, 0x06, 0x07, 0x08, 0x09, 0x17, 0x18, 0x19, 0x1A} then 2
      else 0)"

definition ComputeReachability :: "Program \<Rightarrow> bool list" where
  "ComputeReachability prog = mark_program branch_kind prog"

text \<open>The decoder's output tiles the code, for every window of at least one dword.\<close>

lemma decode_from_nonempty: "i < m \<Longrightarrow> decode_from c m stop mode i \<noteq> []"
  by (subst decode_from.simps) (simp add: Let_def)

interpretation dec: decoded branch_kind "Decode (Some c) (max 1 m) stop mode" "span (Decode (Some c) (max 1 m) stop mode)"
  for c m stop mode
proof
  let ?prog = "Decode (Some c) (max 1 m) stop mode"
  obtain e where e: "e \<le> unat (max 1 m)" "tiles 0 e ?prog"
    using decode_from_spec[of 0 "max 1 m" c stop mode] by (auto simp: Decode_def)
  then show "tiles 0 (span ?prog) ?prog" using tiles_span[OF e(2)] by simp
  have "0 < max 1 m" by (auto simp: word_nat max_def)
  then show "?prog \<noteq> []" using decode_from_nonempty by (simp add: Decode_def)
  show "span ?prog < 2 ^ 32"
    using tiles_span[OF e(2)] e(1) unsigned_less[of "max 1 m", where 'a = nat] by simp
  show "branch_kind x \<in> {0, 1, 2, 3, 4}" for x by (simp add: branch_kind_def)
qed

text \<open>
  C30: The reachability analysis is correct on every decoded program: its worklist loop ends, each
  instruction that control flow can reach from the entry is marked, and when no relative branch
  jumps into the middle of an instruction nothing else is marked.
\<close>

theorem reachability_correct:
  assumes "prog = Decode (Some c) m stop mode" and "k < length prog"
  shows "(flow branch_kind prog (i_pc (prog ! k)) \<longrightarrow> ComputeReachability prog ! k) \<and>
    (boundaries branch_kind prog \<longrightarrow> ComputeReachability prog ! k \<longrightarrow> flow branch_kind prog (i_pc (prog ! k)))"
proof -
  have "m \<noteq> 0" using assms by (auto simp: Decode_def decode_from.simps[of _ 0])
  then have "max 1 m = m" by (simp add: max_def word_le_nat_alt unat_gt_0 Suc_le_eq)
  then show ?thesis
    using dec.reach_sound[of k c m stop mode] dec.reach_precise[of c m stop mode k] assms by (simp add: ComputeReachability_def)
qed

definition ex_branch :: gcn_code where
  "ex_branch i = (if i = 0 then 0xBF820001 else if i = 1 then 0x7E000280 else 0xBF810000)"

lemma reachability_correct_witness:
  "\<not> flow branch_kind (Decode (Some ex_branch) 3 False kBase) 1 \<and> flow branch_kind (Decode (Some ex_branch) 3 False kBase) 2"
proof -
  let ?p = "Decode (Some ex_branch) 3 False kBase"
  have "length ?p = 3" "map i_pc ?p = [0, 1, 2]" "ComputeReachability ?p = [True, False, True]" "boundaries branch_kind ?p"
    by code_simp+
  then have "i_pc (?p ! 1) = 1" "i_pc (?p ! 2) = 2" by (simp_all flip: nth_map)
  then show ?thesis
    using reachability_correct[OF refl, of 1 ex_branch 3 False kBase]
      reachability_correct[OF refl, of 2 ex_branch 3 False kBase]
      \<open>length ?p = 3\<close> \<open>ComputeReachability ?p = _\<close> \<open>boundaries branch_kind ?p\<close> by simp
qed

end
