(* ===== verification/Gcn_Cache.thy ===== *)
theory Gcn_Cache
  imports Gcn_Decode
begin

text \<open>
  The caches of \<open>delta/gpu/gcn/gcn_decode.cc\<close>: decoded programs and code hashes per guest address,
  revalidated once per generation, and the process-wide ISA mode.

  Guest memory is a parameter: \<open>mem a\<close> is the code from address \<open>a\<close> on and \<open>readable a n\<close> says
  whether the \<open>n\<close> bytes from \<open>a\<close> can be read. The hash maps are association lists with one entry
  per key (their order is not used). An operation is \<open>None\<close> when the footer search does not end.
\<close>

section \<open>State\<close>

record prog_entry =
  pe_hash :: u64
  pe_hashed :: u32
  pe_generation :: u64
  pe_mode :: IsaMode
  pe_program :: Program

record gcn_state =
  g_mode :: IsaMode
  g_generation :: u64
  g_programs :: "(u64 \<times> prog_entry) list"
  g_hashes :: "(u64 \<times> u64 \<times> u64) list"

definition gcn_init :: gcn_state where
  "gcn_init = \<lparr>g_mode = kBase, g_generation = 1, g_programs = [], g_hashes = []\<rparr>"

definition put :: "'k \<Rightarrow> 'v \<Rightarrow> ('k \<times> 'v) list \<Rightarrow> ('k \<times> 'v) list" where
  "put k v m = (k, v) # filter (\<lambda>e. fst e \<noteq> k) m"

section \<open>Operations\<close>

definition HashCode :: "gcn_code \<Rightarrow> u32 \<Rightarrow> u64" where
  "HashCode code dwords =
     fold (\<lambda>i h. (h XOR ucast (code (word_of_nat i))) * 0x100000001B3) [0..<unat dwords] 0xCBF29CE484222325"

definition NextProgramCacheGeneration :: "gcn_state \<Rightarrow> gcn_state" where
  "NextProgramCacheGeneration st = st\<lparr>g_generation := g_generation st + 1\<rparr>"

definition DefaultIsaMode :: "gcn_state \<Rightarrow> IsaMode" where
  "DefaultIsaMode st = g_mode st"

definition SetDefaultIsaMode :: "IsaMode \<Rightarrow> gcn_state \<Rightarrow> gcn_state" where
  "SetDefaultIsaMode mode st = NextProgramCacheGeneration (st\<lparr>g_mode := mode\<rparr>)"

definition hash_span :: "u32 \<Rightarrow> u32 \<Rightarrow> u32" where
  "hash_span len max_dwords = (if len \<noteq> 0 then len else if max_dwords < 64 then max_dwords else 64)"

text \<open>The growth backstop before an insertion.\<close>

definition trim :: "u64 \<Rightarrow> (u64 \<times> prog_entry) list \<Rightarrow> (u64 \<times> prog_entry) list" where
  "trim gen m =
     (if 4096 < length m then
        let m' = filter (\<lambda>e. \<not> pe_generation (snd e) + 60 < gen) m
        in if 16384 < length m' then [] else m'
      else m)"

text \<open>An entry already validated in this generation, and one whose code has not changed.\<close>

definition current :: "gcn_state \<Rightarrow> prog_entry \<Rightarrow> bool" where
  "current st e \<longleftrightarrow> pe_generation e = g_generation st \<and> pe_mode e = DefaultIsaMode st"

definition unchanged :: "gcn_state \<Rightarrow> u64 \<Rightarrow> u32 \<Rightarrow> prog_entry \<Rightarrow> bool" where
  "unchanged st hash hashed e \<longleftrightarrow> pe_mode e = DefaultIsaMode st \<and> pe_hash e = hash \<and> pe_hashed e = hashed"

text \<open>Decoding the code at \<open>addr\<close> and storing it.\<close>

definition refill ::
  "(u64 \<Rightarrow> gcn_code) \<Rightarrow> (u64 \<Rightarrow> u64 \<Rightarrow> bool) \<Rightarrow> u64 \<Rightarrow> u32 \<Rightarrow> u64 \<Rightarrow> u32 \<Rightarrow> gcn_state \<Rightarrow> (Program \<times> gcn_state) option" where
  "refill mem readable addr max_dwords hash hashed st =
     map_option (\<lambda>p. (p, st\<lparr>g_programs := put addr \<lparr>pe_hash = hash, pe_hashed = hashed,
         pe_generation = g_generation st, pe_mode = DefaultIsaMode st, pe_program = p\<rparr>
         (trim (g_generation st) (g_programs st))\<rparr>))
       (DecodeShader (readable addr) (Some (mem addr)) max_dwords (DefaultIsaMode st))"

text \<open>The slow path, with the entry found, if any.\<close>

definition revalidate ::
  "(u64 \<Rightarrow> gcn_code) \<Rightarrow> (u64 \<Rightarrow> u64 \<Rightarrow> bool) \<Rightarrow> u64 \<Rightarrow> u32 \<Rightarrow> prog_entry option \<Rightarrow> gcn_state \<Rightarrow> (Program \<times> gcn_state) option" where
  "revalidate mem readable addr max_dwords it st =
     (case CodeLength (readable addr) (Some (mem addr)) max_dwords of
        None \<Rightarrow> None
      | Some len \<Rightarrow>
          let hashed = hash_span len max_dwords; hash = HashCode (mem addr) hashed
          in case it of
               Some e \<Rightarrow>
                 if unchanged st hash hashed e
                 then Some (pe_program e,
                        st\<lparr>g_programs := put addr (e\<lparr>pe_generation := g_generation st\<rparr>) (g_programs st)\<rparr>)
                 else refill mem readable addr max_dwords hash hashed st
             | None \<Rightarrow> refill mem readable addr max_dwords hash hashed st)"

definition CachedProgram ::
  "(u64 \<Rightarrow> gcn_code) \<Rightarrow> (u64 \<Rightarrow> u64 \<Rightarrow> bool) \<Rightarrow> u64 \<Rightarrow> u32 \<Rightarrow> gcn_state \<Rightarrow> (Program \<times> gcn_state) option" where
  "CachedProgram mem readable addr max_dwords st =
     (if addr = 0 then Some ([], st)
      else case map_of (g_programs st) addr of
             Some e \<Rightarrow> if current st e then Some (pe_program e, st)
                       else revalidate mem readable addr max_dwords (Some e) st
           | None \<Rightarrow> revalidate mem readable addr max_dwords None st)"

text \<open>An instruction that ends a shader without a footer, and the dwords up to it.\<close>

definition ends_code :: "Inst \<Rightarrow> bool" where
  "ends_code inst \<longleftrightarrow> (i_enc inst = kSopp \<and> i_opcode inst = 1) \<or>
     (i_enc inst = kSop1 \<and> (i_opcode inst = 0x20 \<or> i_opcode inst = 0x21))"

definition code_extent :: "u32 \<Rightarrow> Program \<Rightarrow> u32" where
  "code_extent max_dwords prog =
     (case find ends_code prog of None \<Rightarrow> max_dwords | Some x \<Rightarrow> i_pc x + i_size x)"

definition store_hash :: "(u64 \<Rightarrow> gcn_code) \<Rightarrow> u64 \<Rightarrow> u32 \<Rightarrow> gcn_state \<Rightarrow> u64 \<times> gcn_state" where
  "store_hash mem addr len st =
     (let hash = HashCode (mem addr) len; m = (if 4096 < length (g_hashes st) then [] else g_hashes st)
      in (hash, st\<lparr>g_hashes := put addr (hash, g_generation st) m\<rparr>))"

definition rehash ::
  "(u64 \<Rightarrow> gcn_code) \<Rightarrow> (u64 \<Rightarrow> u64 \<Rightarrow> bool) \<Rightarrow> u64 \<Rightarrow> u32 \<Rightarrow> gcn_state \<Rightarrow> (u64 \<times> gcn_state) option" where
  "rehash mem readable addr max_dwords st =
     (case CodeLength (readable addr) (Some (mem addr)) max_dwords of
        None \<Rightarrow> None
      | Some len \<Rightarrow>
          if len \<noteq> 0 then Some (store_hash mem addr len st)
          else case CachedProgram mem readable addr max_dwords st of
                 None \<Rightarrow> None
               | Some (p, st') \<Rightarrow> Some (store_hash mem addr (code_extent max_dwords p) st'))"

definition CachedCodeHash ::
  "(u64 \<Rightarrow> gcn_code) \<Rightarrow> (u64 \<Rightarrow> u64 \<Rightarrow> bool) \<Rightarrow> u64 \<Rightarrow> u32 \<Rightarrow> gcn_state \<Rightarrow> (u64 \<times> gcn_state) option" where
  "CachedCodeHash mem readable addr max_dwords st =
     (if addr = 0 then Some (0, st)
      else case map_of (g_hashes st) addr of
             Some (h, g) \<Rightarrow> if g = g_generation st then Some (h, st)
                            else rehash mem readable addr max_dwords st
           | None \<Rightarrow> rehash mem readable addr max_dwords st)"

text \<open>The reset callbacks of the two caches at the end of a session.\<close>

definition gcn_session_reset :: "gcn_state \<Rightarrow> gcn_state" where
  "gcn_session_reset st = st\<lparr>g_programs := [], g_hashes := []\<rparr>"

section \<open>The program cache\<close>

lemma map_of_put: "map_of (put k v m) x = (if x = k then Some v else map_of m x)"
proof -
  have "map_of (filter (\<lambda>e. fst e \<noteq> k) m) x = map_of m x" if "x \<noteq> k" using that by (induction m) auto
  then show ?thesis by (simp add: put_def)
qed

lemma put_distinct: "distinct (map fst m) \<Longrightarrow> distinct (map fst (put k v m))"
  by (auto simp: put_def distinct_map inj_on_def)

lemma put_length: "length (put k v m) \<le> Suc (length m)"
  by (simp add: put_def)

lemma put_length_old: "map_of m k = Some w \<Longrightarrow> length (put k v m) \<le> length m"
  by (auto simp: put_def Suc_le_eq dest: map_of_SomeD intro!: length_filter_less)

lemma put_set: "e \<in> set (put k v m) \<Longrightarrow> e = (k, v) \<or> e \<in> set m"
  by (auto simp: put_def)

lemma trim_facts: "set (trim g m) \<subseteq> set m" "distinct (map fst m) \<Longrightarrow> distinct (map fst (trim g m))"
    "length (trim g m) \<le> 16384"
  by (auto simp: trim_def Let_def distinct_map inj_on_def)

text \<open>What an entry records: a decoding of some code, and the hash of that code's span.\<close>

definition records_code :: "prog_entry \<Rightarrow> bool" where
  "records_code e \<longleftrightarrow>
     (\<exists>rd c m len. CodeLength rd (Some c) m = Some len \<and> pe_hashed e = hash_span len m \<and>
        pe_hash e = HashCode c (pe_hashed e) \<and> DecodeShader rd (Some c) m (pe_mode e) = Some (pe_program e))"

definition cache_inv :: "gcn_state \<Rightarrow> bool" where
  "cache_inv st \<longleftrightarrow> distinct (map fst (g_programs st)) \<and> length (g_programs st) \<le> 16385 \<and>
     (\<forall>e\<in>set (g_programs st). records_code (snd e))"

lemma cache_inv_entry: "\<lbrakk>cache_inv st; map_of (g_programs st) a = Some e\<rbrakk> \<Longrightarrow> records_code e"
  by (auto simp: cache_inv_def dest!: map_of_SomeD)

lemma cache_inv_put:
  assumes "cache_inv st" "records_code e" "set m \<subseteq> set (g_programs st)" "distinct (map fst m)"
    "length (put a e m) \<le> 16385"
  shows "cache_inv (st\<lparr>g_programs := put a e m\<rparr>)"
  using assms put_distinct[of m a e] by (auto simp: cache_inv_def dest!: put_set)

text \<open>What a call of \<open>CachedProgram\<close> may do, with the entry \<open>e\<close> it leaves behind.\<close>

definition refreshed :: "(u64 \<Rightarrow> gcn_code) \<Rightarrow> (u64 \<Rightarrow> u64 \<Rightarrow> bool) \<Rightarrow> u64 \<Rightarrow> u32 \<Rightarrow> gcn_state \<Rightarrow> prog_entry \<Rightarrow> bool" where
  "refreshed mem readable addr m st e \<longleftrightarrow>
     (\<exists>len. CodeLength (readable addr) (Some (mem addr)) m = Some len \<and> pe_hashed e = hash_span len m \<and>
        pe_hash e = HashCode (mem addr) (pe_hashed e)) \<and>
     (DecodeShader (readable addr) (Some (mem addr)) m (g_mode st) = Some (pe_program e) \<or>
      (\<exists>e0. map_of (g_programs st) addr = Some e0 \<and> e = e0\<lparr>pe_generation := g_generation st\<rparr>))"

lemma refill_spec:
  assumes "cache_inv st" "CodeLength (readable addr) (Some (mem addr)) m = Some len"
  shows "\<exists>p st' e. refill mem readable addr m (HashCode (mem addr) (hash_span len m)) (hash_span len m) st = Some (p, st') \<and>
    cache_inv st' \<and> map_of (g_programs st') addr = Some e \<and> current st' e \<and> pe_program e = p \<and>
    refreshed mem readable addr m st e \<and> g_mode st' = g_mode st \<and>
    DecodeShader (readable addr) (Some (mem addr)) m (g_mode st) = Some p"
proof -
  let ?h = "hash_span len m"
  obtain p where p: "DecodeShader (readable addr) (Some (mem addr)) m (g_mode st) = Some p"
    using assms(2) by (simp add: DecodeShader_def)
  let ?e = "\<lparr>pe_hash = HashCode (mem addr) ?h, pe_hashed = ?h, pe_generation = g_generation st,
      pe_mode = g_mode st, pe_program = p\<rparr>"
  let ?st = "st\<lparr>g_programs := put addr ?e (trim (g_generation st) (g_programs st))\<rparr>"
  have "refill mem readable addr m (HashCode (mem addr) ?h) ?h st = Some (p, ?st)"
    using p by (simp add: refill_def DefaultIsaMode_def)
  moreover have "records_code ?e" using assms(2) p unfolding records_code_def
    by (intro exI[of _ "readable addr"] exI[of _ "mem addr"] exI[of _ m] exI[of _ len]) simp
  then have "cache_inv ?st"
    using trim_facts[where g="g_generation st" and m="g_programs st"] assms(1)
      put_length[of addr ?e "trim (g_generation st) (g_programs st)"]
    by (intro cache_inv_put) (auto simp: cache_inv_def intro: order_trans)
  moreover have "refreshed mem readable addr m st ?e" using assms(2) p by (simp add: refreshed_def)
  ultimately show ?thesis
    using p by (intro exI[of _ p] exI[of _ ?st] exI[of _ ?e]) (simp add: map_of_put current_def DefaultIsaMode_def)
qed

lemma revalidate_spec:
  assumes inv: "cache_inv st" and m: "m < 0xFFFFFFFF"
  shows "\<exists>p st' e. revalidate mem readable addr m (map_of (g_programs st) addr) st = Some (p, st') \<and>
    cache_inv st' \<and> map_of (g_programs st') addr = Some e \<and> current st' e \<and> pe_program e = p \<and>
    refreshed mem readable addr m st e \<and> g_mode st' = g_mode st"
proof -
  obtain len where len: "CodeLength (readable addr) (Some (mem addr)) m = Some len"
    using CodeLength_spec[OF m, of "readable addr" "mem addr"] by blast
  let ?h = "hash_span len m" and ?hash = "HashCode (mem addr) (hash_span len m)"
  show ?thesis
  proof (cases "\<exists>e. map_of (g_programs st) addr = Some e \<and> unchanged st ?hash ?h e")
    case False
    then have "revalidate mem readable addr m (map_of (g_programs st) addr) st = refill mem readable addr m ?hash ?h st"
      using len by (auto simp: revalidate_def Let_def split: option.splits)
    then show ?thesis using refill_spec[where readable=readable and mem=mem and addr=addr, OF inv len] by metis
  next
    case True
    then obtain e where e: "map_of (g_programs st) addr = Some e" "unchanged st ?hash ?h e" by blast
    let ?e = "e\<lparr>pe_generation := g_generation st\<rparr>"
    let ?st = "st\<lparr>g_programs := put addr ?e (g_programs st)\<rparr>"
    have "revalidate mem readable addr m (map_of (g_programs st) addr) st = Some (pe_program e, ?st)"
      using len e by (simp add: revalidate_def Let_def)
    moreover have "records_code ?e" using cache_inv_entry[OF inv e(1)] by (simp add: records_code_def)
    then have "cache_inv ?st"
      using inv put_length_old[OF e(1), of ?e] by (intro cache_inv_put) (auto simp: cache_inv_def)
    moreover have "refreshed mem readable addr m st ?e"
      using e len by (auto simp: refreshed_def unchanged_def)
    ultimately show ?thesis
      using e(2) by (intro exI[of _ "pe_program e"] exI[of _ ?st] exI[of _ ?e])
        (simp add: map_of_put current_def unchanged_def DefaultIsaMode_def)
  qed
qed


lemma gcn_init_inv: "cache_inv gcn_init"
  by (simp add: cache_inv_def gcn_init_def)


lemma HashCode_cong:
  assumes "\<forall>i<n. c i = c' i"
  shows "HashCode c n = HashCode c' n"
proof -
  have "c (word_of_nat i) = c' (word_of_nat i)" if "i < unat n" for i
  proof -
    have "i < 2 ^ 32" using that unsigned_less[of n, where 'a = nat] by simp
    then have "unat (word_of_nat i :: u32) = i" by (simp add: unat_of_nat)
    then show ?thesis using assms that by (simp add: word_less_nat_alt)
  qed
  then show ?thesis unfolding HashCode_def by (intro fold_cong) auto
qed

text \<open>
  A shader without a footer is revalidated by its first 64 dwords only. When the code at an
  address is rewritten beyond them, the next generation's call still returns the old program.
\<close>

theorem cached_program_stale:
  assumes addr: "addr \<noteq> 0" and m: "64 \<le> m" and fresh: "map_of (g_programs st) addr = None"
    and old: "CodeLength (readable addr) (Some (mem addr)) m = Some 0"
    and new: "CodeLength (readable addr) (Some (mem' addr)) m = Some 0"
    and same: "\<forall>i<64. mem' addr i = mem addr i"
    and call: "CachedProgram mem readable addr m st = Some (p, st')"
  shows "DecodeShader (readable addr) (Some (mem addr)) m (g_mode st) = Some p \<and>
    (\<exists>st''. CachedProgram mem' readable addr m (NextProgramCacheGeneration st') = Some (p, st''))"
proof -
  have span: "hash_span 0 m = 64" using m by (auto simp: hash_span_def)
  have hash: "HashCode (mem' addr) 64 = HashCode (mem addr) 64" using same by (intro HashCode_cong) simp
  let ?e = "\<lparr>pe_hash = HashCode (mem addr) 64, pe_hashed = 64, pe_generation = g_generation st,
      pe_mode = g_mode st, pe_program = p\<rparr>"
  have "CachedProgram mem readable addr m st = refill mem readable addr m (HashCode (mem addr) 64) 64 st"
    using addr fresh old span by (simp add: CachedProgram_def revalidate_def)
  then have "refill mem readable addr m (HashCode (mem addr) 64) 64 st = Some (p, st')" using call by simp
  then have p: "DecodeShader (readable addr) (Some (mem addr)) m (g_mode st) = Some p"
      "st' = st\<lparr>g_programs := put addr ?e (trim (g_generation st) (g_programs st))\<rparr>"
    by (auto simp: refill_def DefaultIsaMode_def)
  then have e: "map_of (g_programs (NextProgramCacheGeneration st')) addr = Some ?e"
    by (simp add: NextProgramCacheGeneration_def map_of_put)
  have "\<not> current (NextProgramCacheGeneration st') ?e"
    using p(2) by (simp add: current_def NextProgramCacheGeneration_def)
  then have "\<exists>st''. CachedProgram mem' readable addr m (NextProgramCacheGeneration st') = Some (p, st'')"
    using addr e new span hash p(2)
    by (simp add: CachedProgram_def revalidate_def unchanged_def DefaultIsaMode_def NextProgramCacheGeneration_def Let_def)
  then show ?thesis using p(1) by blast
qed

definition ex_long :: "u32 \<Rightarrow> gcn_code" where
  "ex_long k i = (if i = k then 0xBF810000 else 0x7E000280)"

lemma ex_long_length: "CodeLength readable (Some (ex_long k)) 128 = Some 0"
proof -
  have "\<not> OrbShdrAt (ex_long k) d" for d by (simp add: OrbShdrAt_def ex_long_def)
  then show ?thesis using CodeLength_spec[of 128 readable "ex_long k"] by auto
qed

lemma cached_program_stale_witness:
  "\<exists>p st' st'' q. CachedProgram (\<lambda>_. ex_long 70) (\<lambda>_ _. True) 0x1000 128 gcn_init = Some (p, st') \<and>
     CachedProgram (\<lambda>_. ex_long 80) (\<lambda>_ _. True) 0x1000 128 (NextProgramCacheGeneration st') = Some (p, st'') \<and>
     DecodeShader (\<lambda>_. True) (Some (ex_long 80)) 128 kBase = Some q \<and> length q = 81 \<and> length p = 71"
proof -
  let ?q = "\<lambda>k. Decode (Some (ex_long k)) 128 True kBase"
  have len: "length (?q 70) = 71" "length (?q 80) = 81" by code_simp+
  have dec: "DecodeShader (\<lambda>_. True) (Some (ex_long k)) 128 kBase = Some (?q k)" for k
    using ex_long_length by (simp add: DecodeShader_def)
  obtain p st' where c: "CachedProgram (\<lambda>_. ex_long 70) (\<lambda>_ _. True) 0x1000 128 gcn_init = Some (p, st')"
    using ex_long_length dec by (simp add: CachedProgram_def revalidate_def refill_def gcn_init_def DefaultIsaMode_def Let_def)
  have "\<forall>i<64. ex_long 80 i = ex_long 70 i" by (auto simp: ex_long_def)
  then show ?thesis
    using cached_program_stale[of "0x1000" 128 gcn_init "\<lambda>_ _. True" "\<lambda>_. ex_long 70" "\<lambda>_. ex_long 80" p st']
      c dec len ex_long_length by (auto simp: gcn_init_def)
qed

section \<open>The code hash\<close>

text \<open>The decoding of an instruction reads only the dwords it covers.\<close>

lemma decode_at_local:
  assumes i: "i < m" and same: "\<forall>j. unat i \<le> unat j \<and> unat j < unat i + unat (i_size (decode_at c m mode i)) \<longrightarrow> c' j = c j"
  shows "decode_at c' m mode i = decode_at c m mode i"
proof -
  let ?b = "fetch_base c m mode i"
  note size = decode_at_size[OF i, of c mode]
  have eq: "decode_at c m mode i = attach_extension c m (mtbuf_opcode ?b)" by (rule size(4))
  have pos: "1 \<le> unat (i_size (decode_at c m mode i))" using size(1) by auto
  have c0: "c' i = c i" using same pos by simp
  have grow: "i_size (decode_at c m mode i) = i_size ?b \<or>
      i_size (decode_at c m mode i) = i_size ?b + 1 \<and> i + i_size ?b < m"
    unfolding eq using attach_extension_size[of c m "mtbuf_opcode ?b"] by simp
  have bs: "i_size ?b = 1 \<or> i_size ?b = 2 \<and> i + 1 < m" by (rule fetch_base_size)
  have one: "unat (i + 1) = unat i + 1" using next_below(1)[of i 0 m] i by simp
  have b: "fetch_base c' m mode i = ?b"
  proof (cases "i_size ?b = 2")
    case True
    then have "unat (i_size (decode_at c m mode i)) \<ge> 2" using grow by auto
    then have "c' (i + 1) = c (i + 1)" using same one by simp
    then show ?thesis unfolding fetch_base_def c0 by (simp add: Let_def split: prod.split)
  next
    case False
    then show ?thesis by (auto simp: fetch_base_def c0 Let_def Inst_new_def split: prod.splits)
  qed
  have "attach_extension c' m (mtbuf_opcode ?b) = attach_extension c m (mtbuf_opcode ?b)"
  proof (cases "i_size (decode_at c m mode i) = i_size ?b + 1")
    case True
    have "unat (i + i_size ?b) = unat i + unat (i_size ?b)"
      using bs one next_below(1)[of i 1 m] by auto
    moreover have "unat (i_size ?b + 1) = unat (i_size ?b) + 1" using bs by auto
    ultimately have "c' (i + i_size ?b) = c (i + i_size ?b)" using same True by simp
    then show ?thesis by (simp add: attach_extension_def Let_def c0)
  next
    case False
    then have "i_size (attach_extension c m (mtbuf_opcode ?b)) = i_size ?b" using grow eq by simp
    then show ?thesis by (auto simp: attach_extension_def Let_def c0)
  qed
  then show ?thesis unfolding eq using b decode_at_size(4)[OF i, of c' mode] by simp
qed

lemma decode_find_local:
  "\<lbrakk>i \<le> m; find ends_code (decode_from c m True mode i) = Some x;
    \<forall>j. unat i \<le> unat j \<and> unat j < unat (i_pc x) + unat (i_size x) \<longrightarrow> c' j = c j\<rbrakk> \<Longrightarrow>
   find ends_code (decode_from c' m True mode i) = Some x"
proof (induction c m True mode i rule: decode_from.induct)
  case (1 c m mode i)
  have i: "i < m" using 1(3) by (cases "i < m") (simp_all add: decode_from.simps[of _ m _ _ i])
  let ?y = "decode_at c m mode i" and ?j = "i + i_size (decode_at c m mode i)"
  note size = decode_at_size[OF i, of c mode]
  have dec: "decode_from c' m True mode i = decode_at c' m mode i #
      (if is_endpgm (decode_at c' m mode i) then [] else decode_from c' m True mode (i + i_size (decode_at c' m mode i)))" for c'
    using i by (subst decode_from.simps) (simp add: Let_def)
  show ?case
  proof (cases "ends_code ?y")
    case True
    then have x: "x = ?y" using 1(3) dec[of c] by simp
    have "decode_at c' m mode i = ?y" using 1(4) x by (intro decode_at_local[OF i]) simp
    then show ?thesis using dec[of c'] True x by simp
  next
    case False
    then have ne: "\<not> is_endpgm ?y" by (auto simp: ends_code_def is_endpgm_def)
    then have f: "find ends_code (decode_from c m True mode ?j) = Some x" using 1(3) dec[of c] False by simp
    then have "x \<in> set (decode_from c m True mode ?j)" by (auto simp: find_Some_iff)
    have le: "?j \<le> m" using size(2,3) by (simp add: word_le_nat_alt)
    obtain e where "tiles (unat ?j) e (decode_from c m True mode ?j)" using decode_from_spec[OF le] by blast
    then have px: "unat ?j \<le> unat (i_pc x)" using tiles_bounds \<open>x \<in> _\<close> by blast
    then have "decode_at c' m mode i = ?y"
      using 1(4) size(2) by (intro decode_at_local[OF i]) simp
    moreover have "find ends_code (decode_from c' m True mode ?j) = Some x"
      using 1(1)[OF i refl _ le f] ne 1(4) size(2) by simp
    ultimately show ?thesis using dec[of c'] False ne by simp
  qed
qed

lemma HashCode_extent:
  assumes "m < 0xFFFFFFFF" and "\<forall>i<code_extent m (Decode (Some c) m True mode). c' i = c i"
  shows "HashCode c' (code_extent m (Decode (Some c') m True mode)) =
    HashCode c (code_extent m (Decode (Some c) m True mode))"
proof -
  let ?p = "\<lambda>c. Decode (Some c) m True mode"
  have "code_extent m (?p c') = code_extent m (?p c)"
  proof (cases "find ends_code (?p c)")
    case None
    then have "\<forall>i<m. c' i = c i" using assms(2) by (simp add: code_extent_def)
    then show ?thesis using decode_from_cong[of m c' c] by (simp add: Decode_def)
  next
    case (Some x)
    obtain e where e: "e \<le> unat m" "tiles 0 e (?p c)"
      using decode_from_spec[of 0 m c True mode] by (auto simp: Decode_def)
    have "x \<in> set (?p c)" using Some by (auto simp: find_Some_iff)
    then have "unat (i_pc x) + unat (i_size x) < 2 ^ 32"
      using tiles_bounds[OF e(2)] e(1) unsigned_less[of m, where 'a = nat] by fastforce
    then have "unat (i_pc x + i_size x) = unat (i_pc x) + unat (i_size x)" by (simp add: unat_word_ariths)
    then have "\<forall>j. unat j < unat (i_pc x) + unat (i_size x) \<longrightarrow> c' j = c j"
      using assms(2) Some by (simp add: code_extent_def word_less_nat_alt)
    then have "find ends_code (?p c') = Some x"
      using decode_find_local[of 0 m c mode x c'] Some by (simp add: Decode_def)
    then show ?thesis using Some by (simp add: code_extent_def)
  qed
  then show ?thesis using HashCode_cong[OF assms(2)] by simp
qed

text \<open>
  The code hash names the code and not its address. For code without a footer, at addresses the
  caches do not know yet, two calls give the same hash when the code up to and including the first
  terminator is the same, whatever follows it.
\<close>

theorem code_hash_names_code:
  assumes "a \<noteq> 0" "b \<noteq> 0" "m < 0xFFFFFFFF" "g_mode st = g_mode st'"
    and "map_of (g_hashes st) a = None" "map_of (g_programs st) a = None"
    and "map_of (g_hashes st') b = None" "map_of (g_programs st') b = None"
    and "CodeLength (readable a) (Some (mem a)) m = Some 0" "CodeLength (readable b) (Some (mem b)) m = Some 0"
    and "\<forall>i<code_extent m (Decode (Some (mem a)) m True (g_mode st)). mem b i = mem a i"
  shows "\<exists>h s s'. CachedCodeHash mem readable a m st = Some (h, s) \<and> CachedCodeHash mem readable b m st' = Some (h, s')"
proof -
  have hash: "\<exists>s. CachedCodeHash mem readable x m t =
      Some (HashCode (mem x) (code_extent m (Decode (Some (mem x)) m True (g_mode t))), s)"
    if "x \<noteq> 0" "map_of (g_hashes t) x = None" "map_of (g_programs t) x = None"
      "CodeLength (readable x) (Some (mem x)) m = Some 0" for x t
    using that by (simp add: CachedCodeHash_def rehash_def CachedProgram_def revalidate_def refill_def
        store_hash_def DecodeShader_def DefaultIsaMode_def Let_def)
  show ?thesis
    using hash[of a st] hash[of b st'] HashCode_extent[OF assms(3,11)] assms by auto
qed

lemma code_hash_names_code_witness:
  "\<exists>h s s'. CachedCodeHash (\<lambda>a. if a = 0x1000 then ex_long 70 else (ex_long 70)(71 := 0)) (\<lambda>_ _. True) 0x1000 128 gcn_init = Some (h, s) \<and>
     CachedCodeHash (\<lambda>a. if a = 0x1000 then ex_long 70 else (ex_long 70)(71 := 0)) (\<lambda>_ _. True) 0x2000 128 gcn_init = Some (h, s')"
proof -
  let ?mem = "\<lambda>a :: u64. if a = 0x1000 then ex_long 70 else (ex_long 70)(71 := 0)"
  have ext: "code_extent 128 (Decode (Some (ex_long 70)) 128 True kBase) = 71" by code_simp
  have "\<not> OrbShdrAt ((ex_long 70)(71 := 0)) d" for d by (auto simp: OrbShdrAt_def ex_long_def)
  then have "CodeLength (\<lambda>_. True) (Some ((ex_long 70)(71 := 0))) 128 = Some 0"
    using CodeLength_spec[of 128 "\<lambda>_. True" "(ex_long 70)(71 := 0)"] by auto
  then show ?thesis
    using code_hash_names_code[of "0x1000" "0x2000" 128 gcn_init gcn_init "\<lambda>_ _. True" ?mem] ex_long_length ext
    by (simp add: gcn_init_def)
qed

end
