(* ===== verification/Rdna_Decode.thy ===== *)
theory Rdna_Decode
  imports Shader_Blocks
begin

text \<open>
  The RDNA2 decoder of \<open>delta/gpu/ps5/rdna/rdna_decode.cc\<close>: classification, instruction lengths, the
  decode loop with its furthest branch target, the footer search, the removal of unreachable code
  and the two caches. It produces the instructions of the GCN decoder and marks blocks the same way.

  Guest code is a function from dword index to dword, as for GCN, and 32-bit sums wrap. A loop
  whose index can wrap is \<open>None\<close> when it does not end.
\<close>

section \<open>Classification\<close>

text \<open>The test for the same seven signature bytes.\<close>

definition BinaryInfoAt :: "gcn_code \<Rightarrow> u32 \<Rightarrow> bool" where
  "BinaryInfoAt code off = OrbShdrAt code off"

definition Scalar2HasLit :: "u32 \<Rightarrow> bool" where
  "Scalar2HasLit w \<longleftrightarrow> w AND 0xFF = 255 \<or> drop_bit 8 w AND 0xFF = 255"

definition Scalar1HasLit :: "u32 \<Rightarrow> bool" where
  "Scalar1HasLit w \<longleftrightarrow> w AND 0xFF = 255"

definition ValuExtension :: "Enc \<Rightarrow> u32 \<Rightarrow> InstExtension" where
  "ValuExtension enc w =
     (let f = w AND 0x1FF; v = enc \<in> {kVop1, kVop2, kVopc}
      in if f = 233 then (if v then kDpp8 else kNone)
         else if f = 234 then (if v then kDpp8Fi else kNone)
         else if f = 249 then kSdwa
         else if f = 250 then (if v then kDpp else kNone)
         else if f = 255 then kLiteral else kNone)"

definition rdna_Classify :: "u32 \<Rightarrow> Enc \<times> u32" where
  "rdna_Classify w =
     (if w AND 0x80000000 = 0 then
        let op = drop_bit 25 w AND 0x3F
        in if op = 0x3F then (kVop1, drop_bit 9 w AND 0xFF)
           else if op = 0x3E then (kVopc, drop_bit 17 w AND 0xFF)
           else (kVop2, op)
      else if w AND 0xC0000000 = 0x80000000 then
        let sub = drop_bit 23 w AND 0x7F
        in if sub = 0x7D then (kSop1, drop_bit 8 w AND 0xFF)
           else if sub = 0x7E then (kSopc, drop_bit 16 w AND 0x7F)
           else if sub = 0x7F then (kSopp, drop_bit 16 w AND 0x7F)
           else if 0x60 \<le> sub then (kSopk, drop_bit 23 w AND 0x1F)
           else (kSop2, drop_bit 23 w AND 0x7F)
      else
        let t = drop_bit 26 w
        in if t = 0x32 then (kVintrp, drop_bit 16 w AND 3)
           else if t = 0x33 then
             (if drop_bit 24 w \<noteq> 0xCC \<or> bit w 23 then (kUnknown, 0) else (kVop3p, drop_bit 16 w AND 0x7F))
           else if t = 0x35 then (kVop3, drop_bit 16 w AND 0x3FF)
           else if t = 0x36 then (kDs, drop_bit 18 w AND 0xFF)
           else if t = 0x37 then (kFlat, drop_bit 18 w AND 0x7F)
           else if t = 0x38 then (kMubuf, (drop_bit 18 w AND 0x7F) OR push_bit 7 (drop_bit 25 w AND 1))
           else if t = 0x3A then (kMtbuf, drop_bit 16 w AND 7)
           else if t = 0x3C then (kMimg, (drop_bit 18 w AND 0x7F) OR push_bit 7 (w AND 1))
           else if t = 0x3D then (kSmrd, drop_bit 18 w AND 0xFF)
           else if t = 0x31 then (if w AND 0xF \<noteq> 0 then (kUnknown, 0) else (kExp, drop_bit 4 w AND 0x3F))
           else if t = 0x3E then (kExp, drop_bit 4 w AND 0x3F)
           else (kUnknown, 0))"

definition rdna_BaseSize :: "Enc \<Rightarrow> u32 \<Rightarrow> u32" where
  "rdna_BaseSize e w =
     (if drop_bit 26 w = 0x31 then 2
      else if e \<in> {kVop3, kVop3p, kSmrd, kDs, kFlat, kMubuf, kMtbuf, kExp} then 2
      else if e = kMimg then 2 + (drop_bit 1 w AND 3)
      else 1)"

definition Vop3SourceCount :: "Enc \<Rightarrow> u32 \<Rightarrow> nat" where
  "Vop3SourceCount enc op =
     (if enc = kVop3p then
        (if op \<in> {0x00, 0x09, 0x0E, 0x13, 0x14, 0x15, 0x16, 0x17, 0x18, 0x19, 0x20, 0x21, 0x22} then 3 else 2)
      else if op < 0x100 then 2
      else if op = 0x101 \<or> (0x128 \<le> op \<and> op \<le> 0x12A) then 3
      else if 0x100 \<le> op \<and> op < 0x140 then 2
      else if 0x180 \<le> op \<and> op < 0x200 then 1
      else if 0x270 \<le> op \<and> op \<le> 0x272 then 2
      else 3)"

section \<open>The decode loop\<close>

definition load_raw :: "gcn_code \<Rightarrow> u32 \<Rightarrow> u32 \<Rightarrow> u32 list \<Rightarrow> u32 list" where
  "load_raw code i n raw = fold (\<lambda>d r. r[d := code (i + word_of_nat d)]) [1..<unat n] raw"

definition rdna_base :: "gcn_code \<Rightarrow> u32 \<Rightarrow> Inst" where
  "rdna_base code i =
     (let (e, op) = rdna_Classify (code i)
      in Inst_new\<lparr>i_pc := i, i_raw := [code i, 0, 0, 0, 0], i_enc := e, i_opcode := op,
           i_size := rdna_BaseSize e (code i)\<rparr>)"

text \<open>An encoding that runs past the window takes what is left of it.\<close>

definition rdna_truncated :: "gcn_code \<Rightarrow> u32 \<Rightarrow> Inst \<Rightarrow> Inst" where
  "rdna_truncated code max_dwords x =
     (let n = max_dwords - i_pc x
      in x\<lparr>i_enc := kUnknown, i_opcode := 0, i_size := n, i_raw := load_raw code (i_pc x) n (i_raw x)\<rparr>)"

definition rdna_whole :: "gcn_code \<Rightarrow> Inst \<Rightarrow> Inst" where
  "rdna_whole code x =
     (let raw = load_raw code (i_pc x) (i_size x) (i_raw x)
      in x\<lparr>i_raw := raw,
           i_opcode := (if i_enc x = kMtbuf then i_opcode x OR push_bit 3 (drop_bit 21 (raw ! 1) AND 1)
                        else i_opcode x),
           i_extension := (if i_enc x \<in> {kVop1, kVop2, kVopc} then ValuExtension (i_enc x) (raw ! 0)
                           else kNone)\<rparr>)"

definition rdna_literal :: "Inst \<Rightarrow> u32 \<Rightarrow> bool" where
  "rdna_literal x w =
     (if i_enc x \<in> {kSop2, kSopc} then Scalar2HasLit w
      else if i_enc x = kSop1 then Scalar1HasLit w
      else if i_enc x = kSopk then i_opcode x = 0x15
      else if i_enc x = kVop2 then i_extension x \<noteq> kNone \<or> i_opcode x \<in> {0x20, 0x21, 0x2C, 0x2D, 0x37, 0x38}
      else if i_enc x \<in> {kVop1, kVopc} then i_extension x \<noteq> kNone
      else if i_enc x \<in> {kVop3, kVop3p}
      then list_ex (\<lambda>src. drop_bit (src * 9) (i_raw x ! 1) AND 0x1FF = 255) [0..<Vop3SourceCount (i_enc x) (i_opcode x)]
      else False)"

definition rdna_attach :: "gcn_code \<Rightarrow> u32 \<Rightarrow> Inst \<Rightarrow> Inst" where
  "rdna_attach code max_dwords x =
     (let next = i_pc x + i_size x; lit = rdna_literal x (code (i_pc x))
      in if lit \<and> next < max_dwords then
           (if i_extension x \<noteq> kNone \<and> i_extension x \<noteq> kLiteral
            then x\<lparr>i_raw := (i_raw x)[unat (i_size x) := code next], i_size := i_size x + 1\<rparr>
            else x\<lparr>i_has_literal := True, i_literal := code next, i_extension := kLiteral,
                   i_size := i_size x + 1\<rparr>)
         else if lit then x\<lparr>i_enc := kUnknown, i_opcode := 0\<rparr>
         else x)"

definition rdna_decode_at :: "gcn_code \<Rightarrow> u32 \<Rightarrow> u32 \<Rightarrow> Inst" where
  "rdna_decode_at code max_dwords i =
     never_stall (rdna_attach code max_dwords (rdna_whole code (rdna_base code i)))"

definition rdna_branches :: "Inst \<Rightarrow> bool" where
  "rdna_branches x \<longleftrightarrow> i_enc x = kSopp \<and> (i_opcode x = 2 \<or> (4 \<le> i_opcode x \<and> i_opcode x \<le> 9) \<or>
     (0x17 \<le> i_opcode x \<and> i_opcode x \<le> 0x1A))"

definition rdna_target :: "u32 \<Rightarrow> Inst \<Rightarrow> int" where
  "rdna_target w x = int (unat (i_pc x)) + int (unat (i_size x)) + sint (ucast (w AND 0xFFFF) :: 16 word)"

definition rdna_furthest :: "gcn_code \<Rightarrow> u32 \<Rightarrow> Inst \<Rightarrow> u32 \<Rightarrow> u32" where
  "rdna_furthest code max_dwords x ft =
     (let t = rdna_target (code (i_pc x)) x
      in if rdna_branches x \<and> 0 < t \<and> int (unat ft) < t \<and> t < int (unat max_dwords) then word_of_int t else ft)"

definition rdna_code_end :: "Inst \<Rightarrow> bool" where
  "rdna_code_end x \<longleftrightarrow> i_enc x = kSopp \<and> i_opcode x = 0x1F"

definition rdna_endpgm :: "Inst \<Rightarrow> bool" where
  "rdna_endpgm x \<longleftrightarrow> i_enc x = kSopp \<and> i_opcode x \<in> {0x01, 0x1B, 0x1E}"

partial_function (option) rdna_decode_from :: "gcn_code \<Rightarrow> u32 \<Rightarrow> bool \<Rightarrow> u32 \<Rightarrow> u32 \<Rightarrow> Program option" where
  "rdna_decode_from code max_dwords stop_at_endpgm ft i =
     (if i < max_dwords then
        if max_dwords < i + i_size (rdna_base code i)
        then Some [rdna_truncated code max_dwords (rdna_base code i)]
        else let x = rdna_decode_at code max_dwords i; ft' = rdna_furthest code max_dwords x ft
             in if rdna_code_end x \<or> (stop_at_endpgm \<and> ft' < i + i_size x \<and> rdna_endpgm x) then Some [x]
                else Option.bind (rdna_decode_from code max_dwords stop_at_endpgm ft' (i + i_size x))
                       (\<lambda>p. Some (x # p))
      else Some [])"

definition rdna_Decode :: "gcn_code option \<Rightarrow> u32 \<Rightarrow> bool \<Rightarrow> Program option" where
  "rdna_Decode code max_dwords stop_at_endpgm =
     (case code of None \<Rightarrow> Some [] | Some c \<Rightarrow> rdna_decode_from c max_dwords stop_at_endpgm 0 0)"

text \<open>The scan for the signature is the one of the GCN decoder.\<close>

definition rdna_CodeLength :: "gcn_code option \<Rightarrow> u32 \<Rightarrow> u32 option" where
  "rdna_CodeLength code max_dwords =
     (case code of
        None \<Rightarrow> Some 0
      | Some c \<Rightarrow>
          if max_dwords < 2 then Some 0
          else let d = ucast (c 1 + 1) * 2 :: u64
               in if c 0 = 0xBEEB03FF \<and> 2 \<le> d \<and> d + 2 \<le> ucast max_dwords \<and> BinaryInfoAt c (ucast d * 4)
                  then Some (ucast d) else footer_scan c max_dwords 1)"

definition rdna_DecodeShader :: "gcn_code option \<Rightarrow> u32 \<Rightarrow> Program option" where
  "rdna_DecodeShader code max_dwords =
     Option.bind (rdna_CodeLength code max_dwords)
       (\<lambda>len. if len \<noteq> 0 \<and> len \<le> max_dwords then rdna_Decode code len False
              else rdna_Decode code max_dwords True)"

section \<open>Reachable code\<close>

definition has_call :: "Program \<Rightarrow> bool" where
  "has_call prog = list_ex (\<lambda>x. i_enc x = kSopk \<and> i_opcode x = 0x16) prog"

definition rdna_branch_kind :: "bool \<Rightarrow> Inst \<Rightarrow> nat" where
  "rdna_branch_kind calls x =
     (if i_enc x = kSopk then (if i_opcode x \<in> {0x16, 0x1B, 0x1C} then 2 else 0)
      else if i_enc x = kSop1 then
        (if i_opcode x = 0x20 \<and> calls then 3
         else if 0x20 \<le> i_opcode x \<and> i_opcode x \<le> 0x22 then 4 else 0)
      else if i_enc x \<noteq> kSopp then 0
      else if i_opcode x \<in> {0x01, 0x1B, 0x1E, 0x1F} then 3
      else if i_opcode x = 0x02 then 1
      else if i_opcode x \<in> {0x04, 0x05, 0x06, 0x07, 0x08, 0x09} then 2
      else 0)"

definition ComputeRdnaReachability :: "Program \<Rightarrow> bool list" where
  "ComputeRdnaReachability prog = mark_program (rdna_branch_kind (has_call prog)) prog"

definition ReachableProgram :: "Program \<Rightarrow> Program" where
  "ReachableProgram prog = map fst (filter snd (zip prog (ComputeRdnaReachability prog)))"

section \<open>The decoded program\<close>

declare rdna_decode_from.simps [code] and footer_scan.simps [code]

lemma rdna_BaseSize_cases: "rdna_BaseSize e w \<in> {1, 2, 3, 4, 5}"
proof -
  have "drop_bit 1 w AND 3 = take_bit 2 (drop_bit 1 w)" by (simp add: take_bit_eq_mask mask_numeral)
  moreover have "unat (take_bit 2 (drop_bit 1 w)) < 4"
    using take_bit_nat_less_exp[of 2 "unat (drop_bit 1 w)"] by (simp add: unsigned_take_bit_eq)
  ultimately have n: "unat (drop_bit 1 w AND 3) < 4" by simp
  have "drop_bit 1 w AND 3 \<in> {0, 1, 2, 3}"
  proof -
    have "unat (drop_bit 1 w AND 3) \<in> {0, 1, 2, 3}" using n by auto
    then show ?thesis by (auto simp: word_unat_eq_iff)
  qed
  then show ?thesis by (auto simp: rdna_BaseSize_def)
qed

lemma rdna_base_facts [simp]:
  "i_pc (rdna_base code i) = i" "length (i_raw (rdna_base code i)) = 5" "i_raw (rdna_base code i) ! 0 = code i"
  "i_enc (rdna_base code i) = fst (rdna_Classify (code i))"
  "i_size (rdna_base code i) = rdna_BaseSize (fst (rdna_Classify (code i))) (code i)"
  by (simp_all add: rdna_base_def Inst_new_def split: prod.splits)

lemma rdna_base_size: "i_size (rdna_base code i) \<in> {1, 2, 3, 4, 5}"
  using rdna_BaseSize_cases by simp

lemma rdna_whole_facts [simp]:
  "i_pc (rdna_whole code x) = i_pc x" "i_size (rdna_whole code x) = i_size x" "i_enc (rdna_whole code x) = i_enc x"
  by (simp_all add: rdna_whole_def Let_def)

lemma rdna_attach_facts [simp]: "i_pc (rdna_attach code m x) = i_pc x"
  by (simp add: rdna_attach_def Let_def)

lemma rdna_attach_size: "i_size (rdna_attach code m x) = i_size x \<or>
    i_size (rdna_attach code m x) = i_size x + 1 \<and> i_pc x + i_size x < m \<and> i_enc x \<noteq> kMimg"
  by (auto simp: rdna_attach_def rdna_literal_def Let_def)

text \<open>Windows whose indices cannot wrap.\<close>

abbreviation safe_window :: u32 where "safe_window \<equiv> 0xFFFFFFF0"

lemma safe_sum: "\<lbrakk>m \<le> safe_window; i < m; unat n \<le> 5\<rbrakk> \<Longrightarrow> unat (i + n) = unat i + unat n"
  by (simp add: word_nat unat_word_ariths)

lemma rdna_small: "e \<noteq> kMimg \<Longrightarrow> rdna_BaseSize e w \<in> {1, 2}"
  by (simp add: rdna_BaseSize_def)

text \<open>An encoding that fits is 1 to 5 dwords long and ends inside the window.\<close>

lemma rdna_decode_at_size:
  assumes m: "m \<le> safe_window" and i: "i < m" and fit: "\<not> m < i + i_size (rdna_base code i)"
  defines "x \<equiv> rdna_decode_at code m i"
  shows "i_size x \<in> {1, 2, 3, 4, 5}" "i_pc x = i" "unat (i + i_size x) = unat i + unat (i_size x)"
    "unat i + unat (i_size x) \<le> unat m"
proof -
  let ?b = "rdna_base code i"
  let ?a = "rdna_attach code m (rdna_whole code ?b)"
  have b: "i_size ?b \<in> {1, 2, 3, 4, 5}" by (rule rdna_base_size)
  have small: "i_size ?b \<in> {1, 2}" if "i_enc ?b \<noteq> kMimg"
    using rdna_small that by simp
  have s: "i_size ?a \<in> {1, 2, 3, 4, 5} \<and> (i_size ?a = i_size ?b \<or> i_size ?a = i_size ?b + 1 \<and> i + i_size ?b < m)"
    using rdna_attach_size[of code m "rdna_whole code ?b"] b small by auto
  then have eq: "x = ?a" unfolding x_def rdna_decode_at_def never_stall_def by auto
  show sz: "i_size x \<in> {1, 2, 3, 4, 5}" using s eq by simp
  show "i_pc x = i" using eq by simp
  show sum: "unat (i + i_size x) = unat i + unat (i_size x)" using sz by (intro safe_sum[OF m i]) auto
  have "unat (i + i_size ?b) = unat i + unat (i_size ?b)" using b by (intro safe_sum[OF m i]) auto
  then show "unat i + unat (i_size x) \<le> unat m"
    using s eq fit b unfolding not_less by (auto simp: word_nat)
qed

lemma rdna_truncated_facts:
  assumes "m \<le> safe_window" "i < m" "m < i + i_size (rdna_base code i)"
  shows "i_pc (rdna_truncated code m (rdna_base code i)) = i"
    "unat (i_size (rdna_truncated code m (rdna_base code i))) = unat m - unat i"
    "unat m - unat i \<le> 5" "0 < unat m - unat i"
    "i_enc (rdna_truncated code m (rdna_base code i)) = kUnknown"
proof -
  let ?b = "rdna_base code i"
  have "unat (i_size ?b) \<le> 5" using rdna_base_size[of code i] by auto
  then have "unat (i + i_size ?b) = unat i + unat (i_size ?b)" by (rule safe_sum[OF assms(1,2)])
  then show "unat m - unat i \<le> 5" "0 < unat m - unat i"
    using assms(2,3) \<open>unat (i_size ?b) \<le> 5\<close> by (auto simp: word_nat)
  show "i_pc (rdna_truncated code m ?b) = i" "i_enc (rdna_truncated code m ?b) = kUnknown"
    by (simp_all add: rdna_truncated_def Let_def)
  show "unat (i_size (rdna_truncated code m ?b)) = unat m - unat i"
    using assms(2) by (simp add: rdna_truncated_def Let_def unat_diff_le)
qed

text \<open>\<open>x\<close> is a relative branch to \<open>t\<close>.\<close>

definition rdna_jumps :: "gcn_code \<Rightarrow> Inst \<Rightarrow> nat \<Rightarrow> bool" where
  "rdna_jumps code x t \<longleftrightarrow> rdna_branches x \<and> rdna_target (code (i_pc x)) x = int t \<and> 0 < t"

lemma rdna_furthest_facts:
  assumes "unat ft < unat m"
  shows "unat ft \<le> unat (rdna_furthest code m x ft)" "unat (rdna_furthest code m x ft) < unat m"
    "\<lbrakk>rdna_jumps code x t; t < unat m\<rbrakk> \<Longrightarrow> t \<le> unat (rdna_furthest code m x ft)"
proof -
  let ?t = "rdna_target (code (i_pc x)) x"
  have w: "unat (word_of_int ?t :: u32) = nat ?t" if "0 < ?t" "?t < int (unat m)"
  proof -
    have "int (unat m) < 2 ^ 32" using unsigned_less[of m, where 'a = int] by simp
    then have "?t < 2 ^ 32" using that(2) by linarith
    moreover have "(word_of_int ?t :: u32) = word_of_nat (nat ?t)" using that(1) by simp
    ultimately show ?thesis using that(1) by (simp only: unat_of_nat) simp
  qed
  have main: "unat ft \<le> unat (rdna_furthest code m x ft) \<and> unat (rdna_furthest code m x ft) < unat m \<and>
      (rdna_jumps code x t \<and> t < unat m \<longrightarrow> t \<le> unat (rdna_furthest code m x ft))" for t
  proof (cases "rdna_branches x \<and> 0 < ?t \<and> int (unat ft) < ?t \<and> ?t < int (unat m)")
    case True
    then have "rdna_furthest code m x ft = word_of_int ?t" unfolding rdna_furthest_def Let_def by (rule if_P)
    then have "unat (rdna_furthest code m x ft) = nat ?t" using w True by metis
    then show ?thesis using True unfolding rdna_jumps_def by linarith
  next
    case False
    then have "rdna_furthest code m x ft = ft" unfolding rdna_furthest_def Let_def by (rule if_not_P)
    moreover have "t \<le> unat ft" if "rdna_jumps code x t" "t < unat m"
      using that False unfolding rdna_jumps_def by linarith
    ultimately show ?thesis using assms by simp
  qed
  then show "unat ft \<le> unat (rdna_furthest code m x ft)" "unat (rdna_furthest code m x ft) < unat m"
    "\<lbrakk>rdna_jumps code x t; t < unat m\<rbrakk> \<Longrightarrow> t \<le> unat (rdna_furthest code m x ft)" by blast+
qed

text \<open>
  What a run of the loop from \<open>i\<close> guarantees: the program tiles the code from \<open>i\<close> to some \<open>e\<close>, it ends
  at the window or at a terminator, and unless the last instruction is \<open>s_code_end\<close> every branch
  target inside the window, and the furthest one seen before, lies before \<open>e\<close>.
\<close>

definition rdna_covers :: "gcn_code \<Rightarrow> u32 \<Rightarrow> bool \<Rightarrow> u32 \<Rightarrow> u32 \<Rightarrow> Program \<Rightarrow> nat \<Rightarrow> bool" where
  "rdna_covers code m stop ft i prog e \<longleftrightarrow>
     e \<le> unat m \<and> tiles (unat i) e prog \<and>
     (e < unat m \<longrightarrow> prog \<noteq> [] \<and> (rdna_code_end (last prog) \<or> stop \<and> rdna_endpgm (last prog))) \<and>
     (prog \<noteq> [] \<and> rdna_code_end (last prog) \<or>
      unat ft < e \<and> (\<forall>x\<in>set prog. \<forall>t. rdna_jumps code x t \<and> t < unat m \<longrightarrow> t < e))"

lemma rdna_decode_from_spec:
  assumes m: "m \<le> safe_window"
  shows "\<lbrakk>i \<le> m; unat ft < unat m\<rbrakk> \<Longrightarrow>
    \<exists>prog e. rdna_decode_from code m stop ft i = Some prog \<and> rdna_covers code m stop ft i prog e"
proof (induction "unat m - unat i" arbitrary: i ft rule: less_induct)
  case less
  consider (fin) "i = m" | (cut) "i < m" "m < i + i_size (rdna_base code i)"
    | (go) "i < m" "\<not> m < i + i_size (rdna_base code i)" using less.prems(1) by fastforce
  then show ?case
  proof cases
    case fin
    then have "rdna_decode_from code m stop ft i = Some []" by (subst rdna_decode_from.simps) simp
    then show ?thesis using fin less.prems(2)
      by (intro exI[of _ "[]"] exI[of _ "unat m"]) (simp add: rdna_covers_def)
  next
    case cut
    let ?x = "rdna_truncated code m (rdna_base code i)"
    note f = rdna_truncated_facts[OF m cut]
    have "rdna_decode_from code m stop ft i = Some [?x]" using cut by (subst rdna_decode_from.simps) simp
    moreover have "\<not> rdna_jumps code ?x t" for t using f(5) by (simp add: rdna_jumps_def rdna_branches_def)
    then have "rdna_covers code m stop ft i [?x] (unat m)"
      using f less.prems by (auto simp: rdna_covers_def word_nat)
    ultimately show ?thesis by blast
  next
    case go
    let ?x = "rdna_decode_at code m i"
    let ?ft = "rdna_furthest code m ?x ft" and ?j = "i + i_size ?x"
    note size = rdna_decode_at_size[OF m go]
    have len: "1 \<le> unat (i_size ?x)" "unat (i_size ?x) \<le> 5" using size(1) by auto
    note ft = rdna_furthest_facts[OF less.prems(2), of code ?x]
    show ?thesis
    proof (cases "rdna_code_end ?x \<or> (stop \<and> ?ft < ?j \<and> rdna_endpgm ?x)")
      case True
      then have "rdna_decode_from code m stop ft i = Some [?x]"
        using go by (subst rdna_decode_from.simps) (simp add: Let_def)
      moreover have "rdna_covers code m stop ft i [?x] (unat ?j)"
        unfolding rdna_covers_def using True size len ft
        by (auto simp: word_nat intro: le_less_trans)
      ultimately show ?thesis by blast
    next
      case False
      have "?j \<le> m" using size(3,4) by (simp add: word_nat)
      moreover have "unat m - unat ?j < unat m - unat i" using size(3) len go(1) by (simp add: word_nat)
      ultimately obtain prog e where IH: "rdna_decode_from code m stop ?ft ?j = Some prog"
          "rdna_covers code m stop ?ft ?j prog e"
        using less.hyps[of ?j ?ft] ft(2) by blast
      have eq: "rdna_decode_from code m stop ft i = Some (?x # prog)"
        using go False IH(1) by (subst rdna_decode_from.simps) (auto simp: Let_def)
      have "tiles (unat i) e (?x # prog)" using IH(2) size(2,3) len by (simp add: rdna_covers_def)
      moreover have "prog = [] \<Longrightarrow> e = unat ?j" using IH(2) by (simp add: rdna_covers_def)
      moreover have "t < e" if "rdna_jumps code ?x t" "t < unat m" "unat ?ft < e" for t
        using ft(3)[OF that(1,2)] that(3) by simp
      ultimately have "rdna_covers code m stop ft i (?x # prog) e"
        using IH(2) ft(1) unfolding rdna_covers_def by (auto intro: le_less_trans)
      then show ?thesis using eq by blast
    qed
  qed
qed

lemma rdna_Decode_covers:
  assumes "m \<le> safe_window"
  shows "\<exists>prog e. rdna_Decode (Some c) m stop = Some prog \<and> e \<le> unat m \<and> tiles 0 e prog \<and>
    (m \<noteq> 0 \<longrightarrow> rdna_covers c m stop 0 0 prog e)"
proof (cases "m = 0")
  case True
  then show ?thesis by (simp add: rdna_Decode_def rdna_decode_from.simps[of c 0])
next
  case False
  then have "unat (0 :: u32) < unat m" by (simp add: unat_gt_0)
  then obtain prog e where p: "rdna_decode_from c m stop 0 0 = Some prog" "rdna_covers c m stop 0 0 prog e"
    using rdna_decode_from_spec[OF assms, of 0 0 c stop] by auto
  then show ?thesis by (intro exI[of _ prog] exI[of _ e]) (auto simp: rdna_Decode_def rdna_covers_def)
qed

text \<open>
  The RDNA decoder never cuts off code that a branch needs. For every window that leaves the
  largest encoding room below \<open>2^32\<close> the loop ends, the instructions tile the code from its start,
  and they reach the end of the window or a terminator. Every relative branch that targets a dword
  of the window targets one the program covers, even when the scan stops at a program end, unless
  it met \<open>s_code_end\<close>.
\<close>

theorem rdna_branches_covered:
  assumes "m \<le> 0xFFFFFFF0" and "m \<noteq> 0"
  shows "\<exists>prog e. rdna_Decode (Some c) m stop = Some prog \<and> prog \<noteq> [] \<and> e \<le> unat m \<and> tiles 0 e prog \<and>
    (e < unat m \<longrightarrow> rdna_code_end (last prog) \<or> stop \<and> rdna_endpgm (last prog)) \<and>
    (rdna_code_end (last prog) \<or> (\<forall>x\<in>set prog. \<forall>t. rdna_jumps c x t \<and> t < unat m \<longrightarrow> t < e))"
proof -
  obtain prog e where p: "rdna_Decode (Some c) m stop = Some prog" "tiles 0 e prog"
      "rdna_covers c m stop 0 0 prog e"
    using rdna_Decode_covers[OF assms(1)] assms(2) by blast
  have "prog \<noteq> []" using p(2,3) assms(2) by (auto simp: rdna_covers_def unat_eq_zero)
  then show ?thesis using p by (intro exI[of _ prog] exI[of _ e]) (auto simp: rdna_covers_def)
qed

text \<open>The early-out block of this shader lies past its first \<open>s_endpgm\<close>; \<open>w\<close> is its first instruction.\<close>

definition ex_early :: "u32 \<Rightarrow> gcn_code" where
  "ex_early w i = (if i = 0 then 0xBF840001 else if i = 2 then w else 0xBF810000)"

lemma rdna_branches_covered_witness:
  "\<exists>prog e. rdna_Decode (Some (ex_early 0x7E000280)) 16 True = Some prog \<and> tiles 0 e prog \<and> 2 < e"
proof -
  obtain prog e where p: "rdna_Decode (Some (ex_early 0x7E000280)) 16 True = Some prog" "tiles 0 e prog"
      "rdna_code_end (last prog) \<or> (\<forall>x\<in>set prog. \<forall>t. rdna_jumps (ex_early 0x7E000280) x t \<and> t < unat (16 :: u32) \<longrightarrow> t < e)"
    using rdna_branches_covered[of 16 "ex_early 0x7E000280" True] by auto
  have d: "map_option (map i_opcode) (rdna_Decode (Some (ex_early 0x7E000280)) 16 True) = Some [4, 1, 1, 1]"
    "map_option (\<lambda>p. rdna_branches (hd p) \<and> rdna_target (ex_early 0x7E000280 (i_pc (hd p))) (hd p) = 2)
       (rdna_Decode (Some (ex_early 0x7E000280)) 16 True) = Some True"
    by code_simp+
  then have "prog \<noteq> []" "i_opcode (last prog) = 1" using p(1) by (auto simp: last_map[symmetric])
  moreover have "rdna_jumps (ex_early 0x7E000280) (hd prog) 2" using d(2) p(1) by (simp add: rdna_jumps_def)
  moreover have "hd prog \<in> set prog" "\<not> rdna_code_end (last prog)"
    using calculation by (simp_all add: rdna_code_end_def)
  moreover have "2 < unat (16 :: u32)" by simp
  ultimately have "2 < e" using p(3) by blast
  then show ?thesis using p(1,2) by blast
qed

section \<open>Reachable code\<close>

lemma rdna_branch_kind_le: "rdna_branch_kind b x \<in> {0, 1, 2, 3, 4}"
  by (simp add: rdna_branch_kind_def)

abbreviation clamp :: "u32 \<Rightarrow> u32" where "clamp m \<equiv> max 1 (min m safe_window)"

interpretation rdna: decoded "rdna_branch_kind b" "the (rdna_Decode (Some c) (clamp m) stop)"
    "span (the (rdna_Decode (Some c) (clamp m) stop))"
  for b c m stop
proof
  have m: "clamp m \<le> safe_window" "clamp m \<noteq> 0" by (auto simp: word_nat max_def min_def)
  then obtain prog e where p: "rdna_Decode (Some c) (clamp m) stop = Some prog" "e \<le> unat (clamp m)" "tiles 0 e prog"
      "rdna_covers c (clamp m) stop 0 0 prog e"
    using rdna_Decode_covers[OF m(1), of c stop] by blast
  let ?prog = "the (rdna_Decode (Some c) (clamp m) stop)"
  show "tiles 0 (span ?prog) ?prog" using p tiles_span[OF p(3)] by simp
  show "?prog \<noteq> []" using p m(2) by (auto simp: rdna_covers_def unat_eq_zero)
  show "span ?prog < 2 ^ 32"
    using p tiles_span[OF p(3)] unsigned_less[of "clamp m", where 'a = nat] by simp
  show "rdna_branch_kind b x \<in> {0, 1, 2, 3, 4}" for x by (rule rdna_branch_kind_le)
qed

lemma mark_program_length: "length (mark_program kind prog) = length prog"
  by (simp add: mark_program_def Let_def)

lemma filter_zip_mem: "length f = length xs \<Longrightarrow>
    x \<in> set (map fst (filter snd (zip xs f))) \<longleftrightarrow> (\<exists>k<length xs. xs ! k = x \<and> f ! k)"
  by (force simp: set_zip image_iff)

lemma ReachableProgram_mem:
  "x \<in> set (ReachableProgram prog) \<longleftrightarrow> (\<exists>k<length prog. prog ! k = x \<and> ComputeRdnaReachability prog ! k)"
  unfolding ReachableProgram_def ComputeRdnaReachability_def
  by (rule filter_zip_mem) (rule mark_program_length)



end
