(* ===== verification/Rdna_Cache.thy ===== *)
theory Rdna_Cache
  imports Rdna_Decode Gcn_Cache
begin

text \<open>
  The caches of \<open>delta/gpu/ps5/rdna/rdna_decode.cc\<close>: reachable programs and code hashes per guest
  address. An entry is revalidated by hashing again the span it recorded; only when that hash
  differs is the length of the code found anew. Guest memory is the parameter \<open>mem\<close>; address 0 is the
  null pointer.
\<close>

section \<open>Operations\<close>

record rdna_entry =
  re_hash :: u64
  re_hashed :: u32
  re_generation :: u64
  re_program :: Program

record hash_entry =
  he_hash :: u64
  he_len :: u32
  he_generation :: u64

record rdna_state =
  r_generation :: u64
  r_programs :: "(u64 \<times> rdna_entry) list"
  r_hashes :: "(u64 \<times> hash_entry) list"

definition rdna_init :: rdna_state where
  "rdna_init = \<lparr>r_generation = 1, r_programs = [], r_hashes = []\<rparr>"

definition rdna_HashCode :: "gcn_code \<Rightarrow> u32 \<Rightarrow> u64" where
  "rdna_HashCode code dwords =
     fold (\<lambda>i h. (h XOR ucast (code (word_of_nat i))) * 1099511628211) [0..<unat dwords] 1469598103934665603"

definition NextProgramGeneration :: "rdna_state \<Rightarrow> rdna_state" where
  "NextProgramGeneration st = st\<lparr>r_generation := r_generation st + 1\<rparr>"

text \<open>The dwords that identify the code: up to the footer, else up to the first \<open>s_endpgm\<close>.\<close>

definition rdna_extent :: "u32 \<Rightarrow> Program \<Rightarrow> u32" where
  "rdna_extent max_dwords prog =
     (case find (\<lambda>x. i_enc x = kSopp \<and> i_opcode x = 1) prog of
        None \<Rightarrow> max_dwords | Some x \<Rightarrow> i_pc x + i_size x)"

definition rdna_span :: "gcn_code \<Rightarrow> u32 \<Rightarrow> u32 option" where
  "rdna_span code max_dwords =
     Option.bind (rdna_CodeLength (Some code) max_dwords)
       (\<lambda>len. if len \<noteq> 0 then Some len
              else map_option (rdna_extent max_dwords) (rdna_Decode (Some code) max_dwords True))"

text \<open>The rest of the lookup once the recorded span did not match.\<close>

definition rdna_refill ::
  "(u64 \<Rightarrow> gcn_code) \<Rightarrow> u64 \<Rightarrow> u32 \<Rightarrow> rdna_entry option \<Rightarrow> rdna_state \<Rightarrow> (Program \<times> rdna_state) option" where
  "rdna_refill mem addr max_dwords it st =
     Option.bind (rdna_span (mem addr) max_dwords) (\<lambda>hashed.
       let hash = rdna_HashCode (mem addr) hashed;
           fresh = Option.bind (rdna_DecodeShader (Some (mem addr)) max_dwords) (\<lambda>p.
             let prog = ReachableProgram p;
                 m = (if 16384 < length (r_programs st) then [] else r_programs st)
             in Some (prog, st\<lparr>r_programs := put addr \<lparr>re_hash = hash, re_hashed = hashed,
                  re_generation = r_generation st, re_program = prog\<rparr> m\<rparr>))
       in case it of
            None \<Rightarrow> fresh
          | Some e \<Rightarrow>
              if re_hash e = hash \<and> re_hashed e = hashed
              then Some (re_program e, st\<lparr>r_programs := put addr (e\<lparr>re_generation := r_generation st\<rparr>) (r_programs st)\<rparr>)
              else fresh)"

definition CachedReachableProgram ::
  "(u64 \<Rightarrow> gcn_code) \<Rightarrow> u64 \<Rightarrow> u32 \<Rightarrow> rdna_state \<Rightarrow> (Program \<times> rdna_state) option" where
  "CachedReachableProgram mem addr max_dwords st =
     (if addr = 0 then Some ([], st)
      else case map_of (r_programs st) addr of
             None \<Rightarrow> rdna_refill mem addr max_dwords None st
           | Some e \<Rightarrow>
               if re_generation e = r_generation st then Some (re_program e, st)
               else if re_hash e = rdna_HashCode (mem addr) (re_hashed e)
               then Some (re_program e, st\<lparr>r_programs := put addr (e\<lparr>re_generation := r_generation st\<rparr>) (r_programs st)\<rparr>)
               else rdna_refill mem addr max_dwords (Some e) st)"

definition rdna_rehash :: "(u64 \<Rightarrow> gcn_code) \<Rightarrow> u64 \<Rightarrow> u32 \<Rightarrow> rdna_state \<Rightarrow> (u64 \<times> rdna_state) option" where
  "rdna_rehash mem addr max_dwords st =
     Option.bind (rdna_span (mem addr) max_dwords) (\<lambda>len.
       let hash = rdna_HashCode (mem addr) len;
           m = (if 16384 < length (r_hashes st) then [] else r_hashes st)
       in Some (hash, st\<lparr>r_hashes := put addr \<lparr>he_hash = hash, he_len = len, he_generation = r_generation st\<rparr> m\<rparr>))"

definition rdna_CachedCodeHash :: "(u64 \<Rightarrow> gcn_code) \<Rightarrow> u64 \<Rightarrow> u32 \<Rightarrow> rdna_state \<Rightarrow> (u64 \<times> rdna_state) option" where
  "rdna_CachedCodeHash mem addr max_dwords st =
     (if addr = 0 then Some (0, st)
      else case map_of (r_hashes st) addr of
             None \<Rightarrow> rdna_rehash mem addr max_dwords st
           | Some e \<Rightarrow>
               if he_generation e = r_generation st then Some (he_hash e, st)
               else if he_hash e = rdna_HashCode (mem addr) (he_len e)
               then Some (he_hash e, st\<lparr>r_hashes := put addr (e\<lparr>he_generation := r_generation st\<rparr>) (r_hashes st)\<rparr>)
               else rdna_rehash mem addr max_dwords st)"

definition rdna_session_reset :: "rdna_state \<Rightarrow> rdna_state" where
  "rdna_session_reset st = st\<lparr>r_programs := [], r_hashes := []\<rparr>"

section \<open>Coherence\<close>

text \<open>What an entry records: the reachable program of some code, and the hash of its span.\<close>

definition rdna_records :: "rdna_entry \<Rightarrow> bool" where
  "rdna_records e \<longleftrightarrow>
     (\<exists>c m p. rdna_span c m = Some (re_hashed e) \<and> re_hash e = rdna_HashCode c (re_hashed e) \<and>
        rdna_DecodeShader (Some c) m = Some p \<and> re_program e = ReachableProgram p)"

definition rdna_inv :: "rdna_state \<Rightarrow> bool" where
  "rdna_inv st \<longleftrightarrow> distinct (map fst (r_programs st)) \<and> length (r_programs st) \<le> 16385 \<and>
     (\<forall>e\<in>set (r_programs st). rdna_records (snd e))"

lemma rdna_inv_entry: "\<lbrakk>rdna_inv st; map_of (r_programs st) a = Some e\<rbrakk> \<Longrightarrow> rdna_records e"
  by (auto simp: rdna_inv_def dest!: map_of_SomeD)

lemma rdna_inv_put:
  assumes "rdna_inv st" "rdna_records e" "set m \<subseteq> set (r_programs st)" "distinct (map fst m)"
    "length (put a e m) \<le> 16385"
  shows "rdna_inv (st\<lparr>r_programs := put a e m\<rparr>)"
  using assms put_distinct[of m a e] by (auto simp: rdna_inv_def dest!: put_set)

lemma rdna_CodeLength_returns: "m < 0xFFFFFFFF \<Longrightarrow> \<exists>r. rdna_CodeLength (Some c) m = Some r"
proof -
  assume m: "m < 0xFFFFFFFF"
  show ?thesis
  proof (cases "m < 2")
    case True
    then show ?thesis by (simp add: rdna_CodeLength_def)
  next
    case False
    then have "unat (1 :: u32) < unat m" by (simp add: word_less_nat_alt)
    then obtain r where "footer_scan c m 1 = Some r" using footer_scan_spec[OF m, of 1 c] by auto
    then show ?thesis by (auto simp: rdna_CodeLength_def Let_def)
  qed
qed

lemma rdna_span_returns: "m \<le> safe_window \<Longrightarrow> \<exists>n p. rdna_span c m = Some n \<and> rdna_DecodeShader (Some c) m = Some p"
proof -
  assume m: "m \<le> safe_window"
  then have "m < 0xFFFFFFFF" by (simp add: word_nat)
  then obtain len where len: "rdna_CodeLength (Some c) m = Some len" using rdna_CodeLength_returns by blast
  have dec: "\<exists>p. rdna_Decode (Some c) n stop = Some p" if "n \<le> m" for n stop
    using rdna_Decode_covers[OF order_trans[OF that m], of c stop] by blast
  obtain p where "rdna_Decode (Some c) m True = Some p" using dec[of m True] by auto
  then show ?thesis using len dec[of len False] by (auto simp: rdna_span_def rdna_DecodeShader_def)
qed

text \<open>What a call may leave behind: an entry of this generation that describes the code in memory.\<close>

definition rdna_refreshed :: "(u64 \<Rightarrow> gcn_code) \<Rightarrow> u64 \<Rightarrow> u32 \<Rightarrow> rdna_state \<Rightarrow> rdna_entry \<Rightarrow> bool" where
  "rdna_refreshed mem addr m st e \<longleftrightarrow>
     re_hash e = rdna_HashCode (mem addr) (re_hashed e) \<and>
     ((\<exists>p. rdna_DecodeShader (Some (mem addr)) m = Some p \<and> re_program e = ReachableProgram p \<and>
           rdna_span (mem addr) m = Some (re_hashed e)) \<or>
      (\<exists>e0. map_of (r_programs st) addr = Some e0 \<and> e = e0\<lparr>re_generation := r_generation st\<rparr>))"

definition rdna_done :: "(u64 \<Rightarrow> gcn_code) \<Rightarrow> u64 \<Rightarrow> u32 \<Rightarrow> rdna_state \<Rightarrow> (Program \<times> rdna_state) option \<Rightarrow> bool" where
  "rdna_done mem addr m st res \<longleftrightarrow>
     (\<exists>p st' e. res = Some (p, st') \<and> rdna_inv st' \<and> map_of (r_programs st') addr = Some e \<and>
        re_generation e = r_generation st' \<and> re_program e = p \<and> rdna_refreshed mem addr m st e)"

lemma rdna_doneI:
  assumes "rdna_inv (st\<lparr>r_programs := put addr e m'\<rparr>)" "re_generation e = r_generation st" "rdna_refreshed mem addr m st e"
  shows "rdna_done mem addr m st (Some (re_program e, st\<lparr>r_programs := put addr e m'\<rparr>))"
  using assms by (auto simp: rdna_done_def map_of_put)

lemma rdna_keep:
  assumes inv: "rdna_inv st" and e: "map_of (r_programs st) addr = Some e"
    and hash: "re_hash e = rdna_HashCode (mem addr) (re_hashed e)"
  shows "rdna_done mem addr m st
    (Some (re_program e, st\<lparr>r_programs := put addr (e\<lparr>re_generation := r_generation st\<rparr>) (r_programs st)\<rparr>))"
proof -
  let ?e = "e\<lparr>re_generation := r_generation st\<rparr>"
  have "rdna_records ?e" using rdna_inv_entry[OF inv e] by (simp add: rdna_records_def)
  then have "rdna_inv (st\<lparr>r_programs := put addr ?e (r_programs st)\<rparr>)"
    using inv put_length_old[OF e, of ?e] by (intro rdna_inv_put) (auto simp: rdna_inv_def)
  moreover have "rdna_refreshed mem addr m st ?e" using e hash by (simp add: rdna_refreshed_def)
  ultimately show ?thesis using rdna_doneI[where st=st and addr=addr and e="?e" and mem=mem and m=m] by simp
qed

lemma rdna_refill_done:
  assumes inv: "rdna_inv st" and m: "m \<le> safe_window"
  shows "rdna_done mem addr m st (rdna_refill mem addr m (map_of (r_programs st) addr) st)"
proof -
  obtain n p where n: "rdna_span (mem addr) m = Some n" "rdna_DecodeShader (Some (mem addr)) m = Some p"
    using rdna_span_returns[OF m] by blast
  let ?hash = "rdna_HashCode (mem addr) n"
  let ?e = "\<lparr>re_hash = ?hash, re_hashed = n, re_generation = r_generation st, re_program = ReachableProgram p\<rparr>"
  let ?m = "if 16384 < length (r_programs st) then [] else r_programs st"
  have "rdna_records ?e" using n unfolding rdna_records_def by auto
  then have "rdna_inv (st\<lparr>r_programs := put addr ?e ?m\<rparr>)"
    using inv put_length[of addr ?e ?m] by (intro rdna_inv_put) (auto simp: rdna_inv_def)
  moreover have "rdna_refreshed mem addr m st ?e" using n by (simp add: rdna_refreshed_def)
  ultimately have fresh: "rdna_done mem addr m st (Some (ReachableProgram p, st\<lparr>r_programs := put addr ?e ?m\<rparr>))"
    using rdna_doneI[where st=st and addr=addr and e="?e" and mem=mem and m=m] by simp
  show ?thesis
  proof (cases "\<exists>e. map_of (r_programs st) addr = Some e \<and> re_hash e = ?hash \<and> re_hashed e = n")
    case True
    then obtain e where e: "map_of (r_programs st) addr = Some e" "re_hash e = ?hash" "re_hashed e = n" by blast
    then show ?thesis using rdna_keep[OF inv e(1), of mem m] n by (simp add: rdna_refill_def Let_def)
  next
    case False
    then have "rdna_refill mem addr m (map_of (r_programs st) addr) st =
        Some (ReachableProgram p, st\<lparr>r_programs := put addr ?e ?m\<rparr>)"
      using n by (auto simp: rdna_refill_def Let_def split: option.splits)
    then show ?thesis using fresh by simp
  qed
qed

text \<open>
  The RDNA program cache is coherent. A call returns, keeps the cache well formed (one entry per
  address, at most 16385, each the reachable program of code with the recorded hash) and leaves an
  entry of this generation that holds the returned program. Either the entry was current and
  nothing changed, or its hash is the hash of the code now in memory over the recorded span and it
  holds the reachable program of that code or was kept because that hash did not change.
\<close>

theorem rdna_cache_coherent:
  assumes "rdna_inv st" and "m \<le> 0xFFFFFFF0" and "addr \<noteq> 0"
  shows "\<exists>p st' e. CachedReachableProgram mem addr m st = Some (p, st') \<and> rdna_inv st' \<and>
    map_of (r_programs st') addr = Some e \<and> re_generation e = r_generation st' \<and> re_program e = p \<and>
    (st' = st \<or> rdna_refreshed mem addr m st e)"
proof (cases "\<exists>e. map_of (r_programs st) addr = Some e \<and> re_generation e = r_generation st")
  case True
  then show ?thesis using assms(1,3) by (auto simp: CachedReachableProgram_def)
next
  case False
  have "rdna_done mem addr m st (CachedReachableProgram mem addr m st)"
  proof (cases "\<exists>e. map_of (r_programs st) addr = Some e \<and> re_hash e = rdna_HashCode (mem addr) (re_hashed e)")
    case True
    then show ?thesis using rdna_keep[OF assms(1)] False assms(3) by (auto simp: CachedReachableProgram_def)
  next
    case nomatch: False
    then have "CachedReachableProgram mem addr m st = rdna_refill mem addr m (map_of (r_programs st) addr) st"
      using False assms(3) by (auto simp: CachedReachableProgram_def split: option.splits)
    then show ?thesis using rdna_refill_done[OF assms(1,2)] by simp
  qed
  then show ?thesis by (auto simp: rdna_done_def)
qed

lemma rdna_init_inv: "rdna_inv rdna_init"
  by (simp add: rdna_inv_def rdna_init_def)

lemma rdna_cache_coherent_witness:
  "\<exists>p st'. CachedReachableProgram (\<lambda>_. ex_early 0x7E000280) 0x1000 16 rdna_init = Some (p, st') \<and> rdna_inv st'"
  using rdna_cache_coherent[OF rdna_init_inv, of 16 "0x1000" "\<lambda>_. ex_early 0x7E000280"] by auto

text \<open>
  Two shaders without a footer that differ only past their first \<open>s_endpgm\<close>, in an early-out block
  that a branch reaches and the decoder keeps, have the same code hash.
\<close>

theorem rdna_hash_collides:
  "map_option fst (rdna_CachedCodeHash (\<lambda>_. ex_early 0x7E000280) 0x1000 4 rdna_init) =
     map_option fst (rdna_CachedCodeHash (\<lambda>_. ex_early 0x7E000281) 0x1000 4 rdna_init) \<and>
   rdna_CachedCodeHash (\<lambda>_. ex_early 0x7E000280) 0x1000 4 rdna_init \<noteq> None \<and>
   map_option (map i_raw) (rdna_DecodeShader (Some (ex_early 0x7E000280)) 4) \<noteq>
     map_option (map i_raw) (rdna_DecodeShader (Some (ex_early 0x7E000281)) 4)"
  by code_simp

end
