(* ===== verification/Wait_Queue.thy ===== *)
theory Wait_Queue
  imports Prelude
begin

text \<open>
  The wait channel of an address (\<open>WaitChan\<close> in \<open>delta/kern/lv2/sys_thread.cc\<close>) and its intrusive
  queue of simple waiters. The waiters are nodes on the stacks of the sleeping threads; the model
  keeps them in a store indexed by the thread, with the \<open>prev\<close> and \<open>next\<close> pointers of the code.
  The queue is shown to implement a first-in first-out list.
\<close>

section \<open>The channel and its operations\<close>

record SimpleWaiter =
  sw_prev :: "u32 option"
  sw_next :: "u32 option"
  sw_queued :: bool
  sw_selected :: bool

record WaitChan =
  ch_gen :: u64
  ch_signals :: u64
  ch_waiters :: u32
  ch_next_ticket :: u64
  ch_signal_cutoff :: u64
  ch_mutex_waiters :: u32
  ch_head :: "u32 option"
  ch_tail :: "u32 option"

definition SimpleWaiter_new :: SimpleWaiter where
  "SimpleWaiter_new = \<lparr>sw_prev = None, sw_next = None, sw_queued = False, sw_selected = False\<rparr>"

definition WaitChan_new :: WaitChan where
  "WaitChan_new = \<lparr>ch_gen = 0, ch_signals = 0, ch_waiters = 0, ch_next_ticket = 0, ch_signal_cutoff = 0,
     ch_mutex_waiters = 0, ch_head = None, ch_tail = None\<rparr>"

type_synonym nodes = "u32 \<Rightarrow> SimpleWaiter"

definition upd_node :: "u32 \<Rightarrow> (SimpleWaiter \<Rightarrow> SimpleWaiter) \<Rightarrow> nodes \<Rightarrow> nodes" where
  "upd_node w f ns = ns(w := f (ns w))"

definition QueueSimple :: "u32 \<Rightarrow> WaitChan \<times> nodes \<Rightarrow> WaitChan \<times> nodes" where
  "QueueSimple w = (\<lambda>(ch, ns).
     let ns = upd_node w (sw_prev_update (\<lambda>_. ch_tail ch)) ns;
         (ch, ns) = (case ch_tail ch of
             Some t \<Rightarrow> (ch, upd_node t (sw_next_update (\<lambda>_. Some w)) ns)
           | None \<Rightarrow> (ch\<lparr>ch_head := Some w\<rparr>, ns))
     in (ch\<lparr>ch_tail := Some w\<rparr>, upd_node w (sw_queued_update (\<lambda>_. True)) ns))"

definition RemoveSimple :: "u32 \<Rightarrow> WaitChan \<times> nodes \<Rightarrow> WaitChan \<times> nodes" where
  "RemoveSimple w = (\<lambda>(ch, ns).
     if \<not> sw_queued (ns w) then (ch, ns)
     else
       let (ch, ns) = (case sw_prev (ns w) of
               Some p \<Rightarrow> (ch, upd_node p (sw_next_update (\<lambda>_. sw_next (ns w))) ns)
             | None \<Rightarrow> (ch\<lparr>ch_head := sw_next (ns w)\<rparr>, ns));
           (ch, ns) = (case sw_next (ns w) of
               Some n \<Rightarrow> (ch, upd_node n (sw_prev_update (\<lambda>_. sw_prev (ns w))) ns)
             | None \<Rightarrow> (ch\<lparr>ch_tail := sw_prev (ns w)\<rparr>, ns))
       in (ch, upd_node w (\<lambda>v. v\<lparr>sw_prev := None, sw_next := None, sw_queued := False\<rparr>) ns))"

text \<open>\<open>WakeSimple\<close>: the count is narrowed to a signed 32-bit value and at least one waiter is woken.\<close>

definition wake_budget :: "u64 \<Rightarrow> nat" where
  "wake_budget requested = (let count = sint (ucast requested :: u32) in if count > 1 then nat count else 1)"

fun wake_loop :: "nat \<Rightarrow> nat \<Rightarrow> WaitChan \<times> nodes \<Rightarrow> nat \<times> WaitChan \<times> nodes" where
  "wake_loop 0 woken st = (woken, st)"
| "wake_loop (Suc remaining) woken st = (case ch_head (fst st) of
       None \<Rightarrow> (woken, st)
     | Some w \<Rightarrow> (case RemoveSimple w st of (ch, ns) \<Rightarrow>
         wake_loop remaining (Suc woken) (ch, upd_node w (sw_selected_update (\<lambda>_. True)) ns)))"

definition WakeSimple :: "u64 \<Rightarrow> WaitChan \<times> nodes \<Rightarrow> nat \<times> WaitChan \<times> nodes" where
  "WakeSimple requested st = wake_loop (wake_budget requested) 0 st"

section \<open>The queue as a list\<close>

text \<open>
  \<open>seg ns p c xs q d\<close>: following \<open>next\<close> from \<open>c\<close> visits \<open>xs\<close> and arrives at \<open>d\<close>, the \<open>prev\<close>
  pointers lead back to \<open>p\<close>, and \<open>q\<close> is the node before \<open>d\<close>.
\<close>

fun seg :: "nodes \<Rightarrow> u32 option \<Rightarrow> u32 option \<Rightarrow> u32 list \<Rightarrow> u32 option \<Rightarrow> u32 option \<Rightarrow> bool" where
  "seg ns p c [] q d \<longleftrightarrow> p = q \<and> c = d"
| "seg ns p c (x # xs) q d \<longleftrightarrow>
     c = Some x \<and> sw_prev (ns x) = p \<and> sw_queued (ns x) \<and> seg ns (Some x) (sw_next (ns x)) xs q d"

definition queue_rep :: "WaitChan \<times> nodes \<Rightarrow> u32 list \<Rightarrow> bool" where
  "queue_rep st xs \<longleftrightarrow> seg (snd st) None (ch_head (fst st)) xs (ch_tail (fst st)) None \<and> distinct xs"

lemma seg_append: "seg ns p c (xs @ ys) q d \<longleftrightarrow> (\<exists>r e. seg ns p c xs r e \<and> seg ns r e ys q d)"
  by (induction xs arbitrary: p c) auto

lemma seg_cong: "(\<And>x. x \<in> set xs \<Longrightarrow> ns' x = ns x) \<Longrightarrow> seg ns' p c xs q d = seg ns p c xs q d"
  by (induction xs arbitrary: p c) auto

lemma seg_other [simp]: "w \<notin> set xs \<Longrightarrow> seg (upd_node w f ns) p c xs q d = seg ns p c xs q d"
  by (rule seg_cong) (auto simp: upd_node_def)

lemma upd_node_apply [simp]: "upd_node w f ns x = (if x = w then f (ns w) else ns x)"
  by (simp add: upd_node_def)

text \<open>Redirecting the end of a segment through its last node, and its start through its first.\<close>

lemma seg_relink_end:
  "seg ns p c (xs @ [x]) q d \<Longrightarrow> x \<notin> set xs \<Longrightarrow>
     seg (upd_node x (sw_next_update (\<lambda>_. e)) ns) p c (xs @ [x]) q e"
  by (auto simp: seg_append)

lemma seg_relink_start:
  "seg ns p c (x # xs) q d \<Longrightarrow> x \<notin> set xs \<Longrightarrow>
     seg (upd_node x (sw_prev_update (\<lambda>_. r)) ns) r c (x # xs) q d"
  by simp

lemma seg_ends: "seg ns p c xs q d \<Longrightarrow> xs = [] \<and> q = p \<and> c = d \<or> xs \<noteq> [] \<and> q = Some (last xs) \<and> c = Some (hd xs)"
  by (induction xs arbitrary: p c) (auto split: if_splits)

lemma queue_rep_queued: "queue_rep st xs \<Longrightarrow> x \<in> set xs \<Longrightarrow> sw_queued (snd st x)"
proof -
  have "seg ns p c xs q d \<Longrightarrow> x \<in> set xs \<Longrightarrow> sw_queued (ns x)" for ns p c q d
    by (induction xs arbitrary: p c) auto
  then show "queue_rep st xs \<Longrightarrow> x \<in> set xs \<Longrightarrow> sw_queued (snd st x)"
    by (auto simp: queue_rep_def)
qed

section \<open>The operations on the list\<close>

lemma QueueSimple_rep:
  assumes "queue_rep st xs" and "w \<notin> set xs" and "sw_next (snd st w) = None"
  shows "queue_rep (QueueSimple w st) (xs @ [w])"
proof (cases xs rule: rev_cases)
  case Nil
  with assms show ?thesis by (cases st) (auto simp: queue_rep_def QueueSimple_def Let_def)
next
  case (snoc ys y)
  obtain ch ns where st: "st = (ch, ns)" by (cases st)
  have seg: "seg ns None (ch_head ch) (ys @ [y]) (ch_tail ch) None" and d: "distinct (ys @ [y])"
    using assms(1) by (auto simp: queue_rep_def st snoc)
  then have tail: "ch_tail ch = Some y" by (auto dest: seg_ends)
  let ?ns = "upd_node y (sw_next_update (\<lambda>_. Some w)) (upd_node w (sw_prev_update (\<lambda>_. Some y)) ns)"
  have "seg (upd_node w (sw_prev_update (\<lambda>_. Some y)) ns) None (ch_head ch) (ys @ [y]) (Some y) None"
    using seg assms(2) snoc tail by simp
  then have "seg ?ns None (ch_head ch) (ys @ [y]) (Some y) (Some w)"
    by (rule seg_relink_end) (use d in simp)
  then show ?thesis using assms d
    by (auto simp: queue_rep_def QueueSimple_def st snoc tail seg_append)
qed

lemma RemoveSimple_rep:
  assumes "queue_rep st (as @ w # bs)"
  shows "queue_rep (RemoveSimple w st) (as @ bs)"
proof -
  obtain ch ns where st: "st = (ch, ns)" by (cases st)
  have d: "distinct (as @ w # bs)" and q: "sw_queued (ns w)"
    and a: "seg ns None (ch_head ch) as (sw_prev (ns w)) (Some w)"
    and b: "seg ns (Some w) (sw_next (ns w)) bs (ch_tail ch) None"
    using assms by (auto simp: queue_rep_def st seg_append)
  obtain p n where p: "sw_prev (ns w) = p" and n: "sw_next (ns w) = n" by blast
  have pa: "p = (if as = [] then None else Some (last as))" using a p by (auto dest: seg_ends)
  have nb: "n = (if bs = [] then None else Some (hd bs))" using b n by (auto dest: seg_ends)
  show ?thesis
  proof (cases as rule: rev_cases)
    case Nil
    then show ?thesis
      using d q b pa nb p n a by (cases bs) (auto simp: queue_rep_def st RemoveSimple_def)
  next
    case (snoc ys y)
    then have y: "p = Some y" using pa by simp
    have seg_a: "seg (upd_node y (sw_next_update (\<lambda>_. n)) ns) None (ch_head ch) as p n"
      using seg_relink_end[of ns None "ch_head ch" ys y p "Some w" n] a d snoc p by auto
    show ?thesis
    proof (cases bs)
      case Nil
      with seg_a d q y p n nb snoc a show ?thesis
        by (auto simp: queue_rep_def st RemoveSimple_def)
    next
      case (Cons z zs)
      have "seg (upd_node z (sw_prev_update (\<lambda>_. p)) ns) p n bs (ch_tail ch) None"
        using seg_relink_start[of ns "Some w" n z zs "ch_tail ch" None p] b d n Cons by auto
      with seg_a d q y p n nb snoc a Cons show ?thesis
        by (auto simp: queue_rep_def st RemoveSimple_def seg_append)
    qed
  qed
qed

text \<open>What the operations leave alone: the other fields of the channel, and the selection of every waiter.\<close>

definition same_counts :: "WaitChan \<Rightarrow> WaitChan \<Rightarrow> bool" where
  "same_counts c d \<longleftrightarrow> c\<lparr>ch_head := None, ch_tail := None\<rparr> = d\<lparr>ch_head := None, ch_tail := None\<rparr>"

lemma same_counts_refl [simp]: "same_counts c c" by (simp add: same_counts_def)

lemma same_counts_trans: "same_counts a b \<Longrightarrow> same_counts b c \<Longrightarrow> same_counts a c" by (simp add: same_counts_def)

lemma same_countsD: "same_counts c d \<Longrightarrow> ch_gen c = ch_gen d \<and> ch_signals c = ch_signals d \<and> ch_waiters c = ch_waiters d \<and>
    ch_next_ticket c = ch_next_ticket d \<and> ch_signal_cutoff c = ch_signal_cutoff d \<and> ch_mutex_waiters c = ch_mutex_waiters d"
  by (cases c; cases d) (simp add: same_counts_def)

definition selected :: "WaitChan \<times> nodes \<Rightarrow> u32 set" where
  "selected st = {w. sw_selected (snd st w)}"

lemma QueueSimple_frame:
  "same_counts (fst (QueueSimple w st)) (fst st)" "selected (QueueSimple w st) = selected st"
  "sw_queued (snd (QueueSimple w st) x) \<longleftrightarrow> x = w \<or> sw_queued (snd st x)"
  by (cases st; auto simp: QueueSimple_def Let_def same_counts_def selected_def split: option.splits)+

lemma RemoveSimple_frame:
  "same_counts (fst (RemoveSimple w st)) (fst st)" "selected (RemoveSimple w st) = selected st"
  "sw_queued (snd (RemoveSimple w st) x) \<longleftrightarrow> x \<noteq> w \<and> sw_queued (snd st x)"
  by (cases st; auto simp: RemoveSimple_def Let_def same_counts_def selected_def split: option.splits)+

lemma queue_rep_select: "queue_rep (ch, upd_node w (sw_selected_update (\<lambda>_. True)) ns) xs = queue_rep (ch, ns) xs"
proof -
  have "seg (upd_node w (sw_selected_update (\<lambda>_. True)) ns) p c xs q d = seg ns p c xs q d" for p c q d
    by (induction xs arbitrary: p c) auto
  then show ?thesis by (simp add: queue_rep_def)
qed

lemma wake_loop_rep:
  "queue_rep st xs \<Longrightarrow> \<exists>st'. wake_loop n k st = (k + min n (length xs), st') \<and> queue_rep st' (drop n xs) \<and>
     selected st' = selected st \<union> set (take n xs) \<and> same_counts (fst st') (fst st) \<and>
     (\<forall>x. sw_queued (snd st' x) \<longleftrightarrow> x \<notin> set (take n xs) \<and> sw_queued (snd st x))"
proof (induction n arbitrary: k st xs)
  case 0
  then show ?case by simp
next
  case (Suc n)
  show ?case
  proof (cases xs)
    case Nil
    with Suc.prems show ?thesis by (auto simp: queue_rep_def)
  next
    case (Cons x ys)
    obtain ch ns where r: "RemoveSimple x st = (ch, ns)" by force
    let ?st = "(ch, upd_node x (sw_selected_update (\<lambda>_. True)) ns)"
    have hd: "ch_head (fst st) = Some x" using Suc.prems Cons by (simp add: queue_rep_def)
    have "queue_rep (ch, ns) ys" using RemoveSimple_rep[of st "[]" x ys] Suc.prems Cons r by simp
    then have rep: "queue_rep ?st ys" by (simp add: queue_rep_select)
    have fr: "same_counts ch (fst st)" "selected (ch, ns) = selected st"
      "\<And>y. sw_queued (ns y) \<longleftrightarrow> y \<noteq> x \<and> sw_queued (snd st y)"
      using RemoveSimple_frame[of x st] r by auto
    have sel: "selected ?st = insert x (selected st)"
      using fr(2) by (auto simp: selected_def set_eq_iff)
    obtain st' where "wake_loop n (Suc k) ?st = (Suc k + min n (length ys), st')" "queue_rep st' (drop n ys)"
        "selected st' = selected ?st \<union> set (take n ys)" "same_counts (fst st') ch"
        "\<And>y. sw_queued (snd st' y) \<longleftrightarrow> y \<notin> set (take n ys) \<and> sw_queued (snd ?st y)"
      using Suc.IH[OF rep, of "Suc k"] by auto
    then show ?thesis using hd r Cons fr sel by (auto dest: same_counts_trans)
  qed
qed

section \<open>The interface of a wait queue\<close>

text \<open>What the waits and wakes rely on; the linked list of the code provides it.\<close>

locale wait_queue =
  fixes rep :: "'q \<Rightarrow> u32 list \<Rightarrow> bool" and fresh :: "u32 \<Rightarrow> 'q \<Rightarrow> bool" and chosen :: "'q \<Rightarrow> u32 set"
    and enq leave :: "u32 \<Rightarrow> 'q \<Rightarrow> 'q" and wake :: "nat \<Rightarrow> 'q \<Rightarrow> nat \<times> 'q"
  assumes enq: "\<lbrakk>rep q xs; w \<notin> set xs; fresh w q\<rbrakk> \<Longrightarrow> rep (enq w q) (xs @ [w]) \<and> chosen (enq w q) = chosen q"
    and enq_fresh: "\<lbrakk>rep q xs; v \<notin> set xs; fresh v q; v \<noteq> w\<rbrakk> \<Longrightarrow> fresh v (enq w q)"
    and leave: "rep q (as @ w # bs) \<Longrightarrow> rep (leave w q) (as @ bs) \<and> chosen (leave w q) = chosen q"
    and wake: "rep q xs \<Longrightarrow> \<exists>q'. wake n q = (min n (length xs), q') \<and> rep q' (drop n xs) \<and>
      chosen q' = chosen q \<union> set (take n xs)"
begin

lemma enq_all:
  "\<lbrakk>rep q xs; distinct ws; set ws \<inter> set xs = {}; \<forall>w\<in>set ws. fresh w q\<rbrakk> \<Longrightarrow>
     rep (fold enq ws q) (xs @ ws) \<and> chosen (fold enq ws q) = chosen q"
proof (induction ws arbitrary: q xs)
  case (Cons w ws)
  have "rep (enq w q) (xs @ [w])" "chosen (enq w q) = chosen q" using Cons.prems enq[of q xs w] by auto
  moreover have "\<forall>v\<in>set ws. fresh v (enq w q)" using Cons.prems enq_fresh[of q xs _ w] by auto
  ultimately show ?case using Cons.IH[of "enq w q" "xs @ [w]"] Cons.prems by auto
qed simp

text \<open>Waiters that queue, one of which gives up, are woken in the order in which they queued.\<close>

lemma wake_in_order:
  assumes "rep q []" and "distinct (as @ w # bs)" and "\<forall>v\<in>set (as @ w # bs). fresh v q"
  shows "\<exists>q'. wake n (leave w (fold enq (as @ w # bs) q)) = (min n (length as + length bs), q') \<and>
    rep q' (drop n (as @ bs)) \<and> chosen q' = chosen q \<union> set (take n (as @ bs))"
proof -
  have "rep (fold enq (as @ w # bs) q) (as @ w # bs)" "chosen (fold enq (as @ w # bs) q) = chosen q"
    using enq_all[of q "[]" "as @ w # bs"] assms by auto
  then have "rep (leave w (fold enq (as @ w # bs) q)) (as @ bs)"
      "chosen (leave w (fold enq (as @ w # bs) q)) = chosen q"
    using leave by (metis, metis)
  from wake[OF this(1), of n] this(2) show ?thesis by simp
qed

end

text \<open>A waiter is constructed with both pointers null.\<close>

definition unlinked :: "u32 \<Rightarrow> WaitChan \<times> nodes \<Rightarrow> bool" where
  "unlinked w st \<longleftrightarrow> sw_next (snd st w) = None"

interpretation chan: wait_queue queue_rep unlinked selected QueueSimple RemoveSimple "\<lambda>n. wake_loop n 0"
proof unfold_locales
  fix q xs v w
  assume q: "queue_rep q xs" "v \<notin> set xs" "unlinked v q" "v \<noteq> w"
  then have "ch_tail (fst q) \<noteq> Some v"
    using seg_ends[of "snd q" None "ch_head (fst q)" xs "ch_tail (fst q)" None] last_in_set[of xs]
    by (auto simp: queue_rep_def)
  with q show "unlinked v (QueueSimple w q)"
    by (cases q) (auto simp: unlinked_def QueueSimple_def Let_def split: option.splits)
next
  fix q xs n
  assume "queue_rep q xs"
  then show "\<exists>q'. wake_loop n 0 q = (min n (length xs), q') \<and> queue_rep q' (drop n xs) \<and>
      selected q' = selected q \<union> set (take n xs)"
    using wake_loop_rep[of q xs n 0] by auto
qed (auto simp: unlinked_def QueueSimple_rep RemoveSimple_rep QueueSimple_frame RemoveSimple_frame)

end
