(* ===== verification/Umtx.thy ===== *)
theory Umtx
  imports Wait_Queue
begin

text \<open>
  The user mutex, condition variable, read-write lock and semaphore operations of
  \<open>sys_umtx_op\<close> (\<open>delta/kern/lv2/sys_thread.cc\<close>) as a machine of concurrent guest threads.

  Guest memory is a store of 32-bit words that the threads also change without entering the kernel.
  The wait channels live in 256 buckets with a lock each. A step of a thread runs from one atomic
  access of a guest word to the next: a load and the compare-and-swap that uses it are two steps
  with the bucket lock held in between, so that user code can interfere. \<open>cv.WaitFor\<close> releases the
  lock and returns on a notification or after a tick of at most 20 ms; a step of a sleeping thread is
  such a return, possible at any moment, and therefore notifying changes no state. A thread that
  cannot take its bucket lock does not move. The tracing of the code only logs.
\<close>

section \<open>State\<close>

datatype upc =
    Returned int
  | Wait_queue int u64 u64 "int option"
  | Wait_loop int u64 u64 "int option"
  | MutexWait_lock u64
  | MutexWait_cas u64 u32 u64
  | MutexWait_loop u64 u64
  | Wake_lock u64 u64
  | MutexWake_lock u64
  | MutexWake_cas u64
  | Lock_loop int u64 bool
  | Lock_claim int u64 u32 bool
  | Lock_contest int u64 u32 bool
  | Unlock_lock u64
  | Unlock_cas u64 u32
  | Cv_enter u64 u64 "int option"
  | Cv_load u64 u64 "int option" u64 u64
  | Cv_cas u64 u64 "int option" u64 u64 u32
  | Cv_loop u64 "int option" u64 u64
  | Signal_lock u64
  | Bump_lock u64
  | Rw_loop bool u64 u32 bool
  | Rw_claim bool u64 u32 u32
  | Rw_publish bool u64 u32 u32
  | RwUnlock_lock u64
  | RwUnlock_cas u64 u32
  | Sem_enter u64 "int option"
  | Sem_loop u64 "int option" u64
  | Nwake_lock u64 u64 u64

record umtx =
  u_mem :: "u64 \<Rightarrow> u32"
  u_chan :: "u64 \<Rightarrow> WaitChan"
  u_node :: nodes
  u_lock :: "u64 \<Rightarrow> u32 option"
  u_pc :: "u32 \<Rightarrow> upc"
  u_stop :: bool

text \<open>The clocks a step reads: the steady clock in microseconds, and the two POSIX clocks.\<close>

record clocks =
  tm_now :: int
  tm_real :: "int \<times> int"
  tm_mono :: "int \<times> int"

definition umtx_init :: "(u64 \<Rightarrow> u32) \<Rightarrow> umtx" where
  "umtx_init mem = \<lparr>u_mem = mem, u_chan = (\<lambda>_. WaitChan_new), u_node = (\<lambda>_. SimpleWaiter_new), u_lock = (\<lambda>_. None),
     u_pc = (\<lambda>_. Returned 0), u_stop = False\<rparr>"

definition UmtxBucket :: "u64 \<Rightarrow> u64" where
  "UmtxBucket p = drop_bit 4 p AND 0xff"

definition UMUTEX_CONTESTED :: u32 where "UMUTEX_CONTESTED = 0x80000000"

definition holder :: "u32 \<Rightarrow> u32" where
  "holder w = w AND NOT UMUTEX_CONTESTED"

section \<open>Steps\<close>

definition goto :: "u32 \<Rightarrow> upc \<Rightarrow> umtx \<Rightarrow> umtx" where
  "goto t k s = s\<lparr>u_pc := (u_pc s)(t := k)\<rparr>"

definition unlock :: "u64 \<Rightarrow> umtx \<Rightarrow> umtx" where
  "unlock p s = s\<lparr>u_lock := (u_lock s)(UmtxBucket p := None)\<rparr>"

definition locking :: "u32 \<Rightarrow> u64 \<Rightarrow> (umtx \<Rightarrow> umtx) \<Rightarrow> umtx \<Rightarrow> umtx" where
  "locking t p k s = (if u_lock s (UmtxBucket p) = None \<or> u_lock s (UmtxBucket p) = Some t
     then k (s\<lparr>u_lock := (u_lock s)(UmtxBucket p := Some t)\<rparr>) else s)"

definition ret :: "u32 \<Rightarrow> u64 \<Rightarrow> int \<Rightarrow> umtx \<Rightarrow> umtx" where
  "ret t p r s = goto t (Returned r) (unlock p s)"

definition sleeping :: "u32 \<Rightarrow> u64 \<Rightarrow> upc \<Rightarrow> umtx \<Rightarrow> umtx" where
  "sleeping t p k s = goto t k (unlock p s)"

definition store32 :: "u64 \<Rightarrow> u32 \<Rightarrow> umtx \<Rightarrow> umtx" where
  "store32 p v s = s\<lparr>u_mem := (u_mem s)(p := v)\<rparr>"

definition upd_chan :: "u64 \<Rightarrow> (WaitChan \<Rightarrow> WaitChan) \<Rightarrow> umtx \<Rightarrow> umtx" where
  "upd_chan p f s = s\<lparr>u_chan := (u_chan s)(p := f (u_chan s p))\<rparr>"

definition on_queue :: "u64 \<Rightarrow> (WaitChan \<times> nodes \<Rightarrow> WaitChan \<times> nodes) \<Rightarrow> umtx \<Rightarrow> umtx" where
  "on_queue p f s = (case f (u_chan s p, u_node s) of (c, ns) \<Rightarrow> s\<lparr>u_chan := (u_chan s)(p := c), u_node := ns\<rparr>)"

definition mem64 :: "umtx \<Rightarrow> u64 \<Rightarrow> u64" where
  "mem64 s p = push_bit 32 (ucast (u_mem s (p + 4))) OR ucast (u_mem s p)"

definition expired :: "int option \<Rightarrow> clocks \<Rightarrow> bool" where
  "expired dl tm \<longleftrightarrow> (case dl of None \<Rightarrow> False | Some d \<Rightarrow> d \<le> tm_now tm)"

definition trunc_div :: "int \<Rightarrow> int \<Rightarrow> int" where
  "trunc_div a b = (if 0 \<le> a then a div b else - ((- a) div b))"

definition UmtxRelDeadline :: "umtx \<Rightarrow> clocks \<Rightarrow> u64 \<Rightarrow> int option" where
  "UmtxRelDeadline s tm b = (if b = 0 then None
     else Some (tm_now tm + max 0 (sint (mem64 s b) * 1000000 + trunc_div (sint (mem64 s (b + 8))) 1000)))"

definition CvDeadline :: "umtx \<Rightarrow> clocks \<Rightarrow> u64 \<Rightarrow> u64 \<Rightarrow> u64 \<Rightarrow> int option" where
  "CvDeadline s tm ucond flags b = (if b = 0 then None
     else if flags AND 2 = 0 then UmtxRelDeadline s tm b
     else let (sec, nsec) = (if u_mem s (ucond + 8) = 0 then tm_real tm else tm_mono tm)
       in Some (tm_now tm + max 0 ((sint (mem64 s b) - sec) * 1000000 + trunc_div (sint (mem64 s (b + 8)) - nsec) 1000)))"

subsection \<open>Waiting for a word to change\<close>

definition word_changed :: "umtx \<Rightarrow> int \<Rightarrow> u64 \<Rightarrow> u64 \<Rightarrow> bool" where
  "word_changed s op p val \<longleftrightarrow> (if op = 2 then mem64 s p \<noteq> val else u_mem s p \<noteq> ucast val)"

definition wait_queue_step :: "u32 \<Rightarrow> int \<Rightarrow> u64 \<Rightarrow> u64 \<Rightarrow> int option \<Rightarrow> umtx \<Rightarrow> umtx" where
  "wait_queue_step t op p val dl = locking t p (\<lambda>s.
     goto t (Wait_loop op p val dl)
       (on_queue p (QueueSimple t) (s\<lparr>u_node := (u_node s)(t := SimpleWaiter_new)\<rparr>)))"

definition wait_loop_step :: "u32 \<Rightarrow> int \<Rightarrow> u64 \<Rightarrow> u64 \<Rightarrow> int option \<Rightarrow> clocks \<Rightarrow> umtx \<Rightarrow> umtx" where
  "wait_loop_step t op p val dl tm = locking t p (\<lambda>s.
     if \<not> u_stop s \<and> \<not> word_changed s op p val \<and> \<not> sw_selected (u_node s t) then
       if expired dl tm then ret t p (neg_err eTIMEDOUT) (on_queue p (RemoveSimple t) s)
       else sleeping t p (Wait_loop op p val dl) s
     else ret t p 0 (on_queue p (RemoveSimple t) s))"

definition wake_step :: "u32 \<Rightarrow> u64 \<Rightarrow> u64 \<Rightarrow> umtx \<Rightarrow> umtx" where
  "wake_step t p val = locking t p (\<lambda>s. ret t p 0 (on_queue p (\<lambda>q. snd (WakeSimple val q)) s))"

definition nwake_step :: "u32 \<Rightarrow> u64 \<Rightarrow> u64 \<Rightarrow> u64 \<Rightarrow> umtx \<Rightarrow> umtx" where
  "nwake_step t addrs val i s0 =
     (if i < val then
        let p = mem64 s0 (addrs + 8 * i)
        in locking t p (\<lambda>s. sleeping t p (Nwake_lock addrs val (i + 1)) (on_queue p (\<lambda>q. snd (WakeSimple 0x7fffffff q)) s)) s0
      else goto t (Returned 0) s0)"

subsection \<open>Mutexes arbitrated by user code\<close>

text \<open>
  \<open>MUTEX_WAIT\<close> and \<open>MUTEX_WAKE\<close>. Both look at the word once before they take the bucket lock. The
  sleeper publishes the contested bit with a compare-and-swap, so that the release enters the kernel.
\<close>

definition mutex_wait_lock :: "u32 \<Rightarrow> u64 \<Rightarrow> umtx \<Rightarrow> umtx" where
  "mutex_wait_lock t p = locking t p (\<lambda>s.
     if holder (u_mem s p) = 0 then ret t p 0 s
     else goto t (MutexWait_cas p (u_mem s p) (ch_gen (u_chan s p))) s)"

definition mutex_wait_cas :: "u32 \<Rightarrow> u64 \<Rightarrow> u32 \<Rightarrow> u64 \<Rightarrow> umtx \<Rightarrow> umtx" where
  "mutex_wait_cas t p owner g0 s =
     (if u_mem s p = owner
      then goto t (MutexWait_loop p g0) (upd_chan p (\<lambda>c. c\<lparr>ch_mutex_waiters := ch_mutex_waiters c + 1\<rparr>)
             (store32 p (owner OR UMUTEX_CONTESTED) s))
      else ret t p 0 s)"

definition mutex_wait_loop :: "u32 \<Rightarrow> u64 \<Rightarrow> u64 \<Rightarrow> umtx \<Rightarrow> umtx" where
  "mutex_wait_loop t p g0 = locking t p (\<lambda>s.
     if \<not> u_stop s \<and> holder (u_mem s p) \<noteq> 0 \<and> ch_gen (u_chan s p) = g0 then sleeping t p (MutexWait_loop p g0) s
     else ret t p 0 (upd_chan p (\<lambda>c. c\<lparr>ch_mutex_waiters := ch_mutex_waiters c - 1\<rparr>) s))"

definition mutex_wake_finish :: "u32 \<Rightarrow> u64 \<Rightarrow> umtx \<Rightarrow> umtx" where
  "mutex_wake_finish t p s = ret t p 0
     (if ch_mutex_waiters (u_chan s p) \<noteq> 0 then upd_chan p (\<lambda>c. c\<lparr>ch_gen := ch_gen c + 1\<rparr>) s else s)"

definition mutex_wake_lock :: "u32 \<Rightarrow> u64 \<Rightarrow> umtx \<Rightarrow> umtx" where
  "mutex_wake_lock t p = locking t p (\<lambda>s.
     if holder (u_mem s p) \<noteq> 0 then ret t p 0 s
     else if ch_mutex_waiters (u_chan s p) \<le> 1 then goto t (MutexWake_cas p) s
     else mutex_wake_finish t p s)"

definition mutex_wake_cas :: "u32 \<Rightarrow> u64 \<Rightarrow> umtx \<Rightarrow> umtx" where
  "mutex_wake_cas t p s =
     mutex_wake_finish t p (if u_mem s p = UMUTEX_CONTESTED then store32 p 0 s else s)"

subsection \<open>Mutexes arbitrated by the kernel\<close>

definition dequeue :: "u64 \<Rightarrow> bool \<Rightarrow> umtx \<Rightarrow> umtx" where
  "dequeue p queued s = (if queued then upd_chan p (\<lambda>c. c\<lparr>ch_mutex_waiters := ch_mutex_waiters c - 1\<rparr>) s else s)"

definition lock_loop :: "u32 \<Rightarrow> int \<Rightarrow> u64 \<Rightarrow> bool \<Rightarrow> umtx \<Rightarrow> umtx" where
  "lock_loop t op p queued = locking t p (\<lambda>s.
     let owner = u_mem s p in
     if u_stop s then ret t p (neg_err eINTR) (dequeue p queued s)
     else if holder owner = 0 then goto t (Lock_claim op p owner queued) s
     else if holder owner = t then ret t p 0 (dequeue p queued s)
     else if op = 4 then ret t p (- 16) (dequeue p queued s)
     else goto t (Lock_contest op p owner queued) s)"

definition lock_claim :: "u32 \<Rightarrow> int \<Rightarrow> u64 \<Rightarrow> u32 \<Rightarrow> bool \<Rightarrow> umtx \<Rightarrow> umtx" where
  "lock_claim t op p owner queued s =
     (if u_mem s p = owner
      then ret t p 0 (dequeue p queued (store32 p (t OR (owner AND UMUTEX_CONTESTED)) s))
      else goto t (Lock_loop op p queued) s)"

definition lock_contest :: "u32 \<Rightarrow> int \<Rightarrow> u64 \<Rightarrow> u32 \<Rightarrow> bool \<Rightarrow> umtx \<Rightarrow> umtx" where
  "lock_contest t op p owner queued s =
     (if u_mem s p = owner
      then sleeping t p (Lock_loop op p True)
             ((if queued then id else upd_chan p (\<lambda>c. c\<lparr>ch_mutex_waiters := ch_mutex_waiters c + 1\<rparr>))
               (store32 p (owner OR UMUTEX_CONTESTED) s))
      else goto t (Lock_loop op p queued) s)"

definition release_word :: "WaitChan \<Rightarrow> u32" where
  "release_word c = (if ch_mutex_waiters c \<le> 1 then 0 else UMUTEX_CONTESTED)"

definition release_mutex :: "u64 \<Rightarrow> u32 \<Rightarrow> umtx \<Rightarrow> umtx" where
  "release_mutex p owner s =
     upd_chan p (\<lambda>c. c\<lparr>ch_gen := ch_gen c + 1\<rparr>)
       (if u_mem s p = owner then store32 p (release_word (u_chan s p)) s else s)"

definition unlock_lock :: "u32 \<Rightarrow> u64 \<Rightarrow> umtx \<Rightarrow> umtx" where
  "unlock_lock t p = locking t p (\<lambda>s.
     if holder (u_mem s p) \<noteq> t then ret t p (neg_err ePERM) s else goto t (Unlock_cas p (u_mem s p)) s)"

definition unlock_cas :: "u32 \<Rightarrow> u64 \<Rightarrow> u32 \<Rightarrow> umtx \<Rightarrow> umtx" where
  "unlock_cas t p owner s = ret t p 0 (release_mutex p owner s)"

subsection \<open>Condition variables\<close>

definition cv_enter :: "u32 \<Rightarrow> u64 \<Rightarrow> u64 \<Rightarrow> int option \<Rightarrow> umtx \<Rightarrow> umtx" where
  "cv_enter t p a dl = locking t p (\<lambda>s0.
     let ticket = ch_next_ticket (u_chan s0 p); g0 = ch_gen (u_chan s0 p);
         s = store32 p 1 (upd_chan p (\<lambda>c. c\<lparr>ch_waiters := ch_waiters c + 1, ch_next_ticket := ticket + 1\<rparr>) s0)
     in if a = 0 then goto t (Cv_loop p dl ticket g0) s
        else if UmtxBucket a = UmtxBucket p then goto t (Cv_load p a dl ticket g0) s
        else sleeping t p (Cv_load p a dl ticket g0) s)"

definition cv_load :: "u32 \<Rightarrow> u64 \<Rightarrow> u64 \<Rightarrow> int option \<Rightarrow> u64 \<Rightarrow> u64 \<Rightarrow> umtx \<Rightarrow> umtx" where
  "cv_load t p a dl ticket g0 = locking t a (\<lambda>s. goto t (Cv_cas p a dl ticket g0 (u_mem s a)) s)"

definition cv_cas :: "u32 \<Rightarrow> u64 \<Rightarrow> u64 \<Rightarrow> int option \<Rightarrow> u64 \<Rightarrow> u64 \<Rightarrow> u32 \<Rightarrow> umtx \<Rightarrow> umtx" where
  "cv_cas t p a dl ticket g0 owner s =
     (let s = release_mutex a owner s
      in if UmtxBucket a = UmtxBucket p then goto t (Cv_loop p dl ticket g0) s
         else sleeping t a (Cv_loop p dl ticket g0) s)"

definition cv_leave :: "u32 \<Rightarrow> u64 \<Rightarrow> int \<Rightarrow> umtx \<Rightarrow> umtx" where
  "cv_leave t p r s0 =
     (let s = upd_chan p (\<lambda>c. c\<lparr>ch_waiters := ch_waiters c - 1\<rparr>) s0
      in ret t p r (if ch_waiters (u_chan s p) = 0 then store32 p 0 (upd_chan p (\<lambda>c. c\<lparr>ch_signals := 0\<rparr>) s) else s))"

definition cv_loop :: "u32 \<Rightarrow> u64 \<Rightarrow> int option \<Rightarrow> u64 \<Rightarrow> u64 \<Rightarrow> clocks \<Rightarrow> umtx \<Rightarrow> umtx" where
  "cv_loop t p dl ticket g0 tm = locking t p (\<lambda>s.
     let c = u_chan s p in
     if u_stop s then ret t p (neg_err eINTR) s
     else if ch_gen c \<noteq> g0 then cv_leave t p 0 s
     else if ch_signals c > 0 \<and> ticket < ch_signal_cutoff c
       then cv_leave t p 0 (upd_chan p (\<lambda>c. c\<lparr>ch_signals := ch_signals c - 1\<rparr>) s)
     else if expired dl tm then cv_leave t p (neg_err eTIMEDOUT) s
     else sleeping t p (Cv_loop p dl ticket g0) s)"

definition note_signal :: "WaitChan \<Rightarrow> WaitChan" where
  "note_signal c = (if ucast (ch_waiters c) > ch_signals c
     then c\<lparr>ch_signals := ch_signals c + 1, ch_signal_cutoff := ch_next_ticket c\<rparr> else c)"

definition signal_step :: "u32 \<Rightarrow> u64 \<Rightarrow> umtx \<Rightarrow> umtx" where
  "signal_step t p = locking t p (\<lambda>s. ret t p 0 (upd_chan p note_signal s))"

definition bump_step :: "u32 \<Rightarrow> u64 \<Rightarrow> umtx \<Rightarrow> umtx" where
  "bump_step t p = locking t p (\<lambda>s. ret t p 0 (upd_chan p (\<lambda>c. c\<lparr>ch_gen := ch_gen c + 1\<rparr>) s))"

subsection \<open>Read-write locks\<close>

definition kWriteOwner :: u32 where "kWriteOwner = 0x80000000"
definition kWriteWaiters :: u32 where "kWriteWaiters = 0x40000000"
definition kReadWaiters :: u32 where "kReadWaiters = 0x20000000"
definition kMaxReaders :: u32 where "kMaxReaders = 0x1fffffff"
definition kPreferReader :: u32 where "kPreferReader = 2"

definition blocked_at :: "bool \<Rightarrow> u64 \<Rightarrow> u64" where
  "blocked_at wr p = p + (if wr then 12 else 8)"

definition yield_to_writer :: "u32 \<Rightarrow> u32 \<Rightarrow> bool" where
  "yield_to_writer st flags \<longleftrightarrow> st AND kWriteWaiters \<noteq> 0 \<and> flags AND kPreferReader = 0 \<and> st AND kMaxReaders = 0"

definition rw_admits :: "bool \<Rightarrow> u32 \<Rightarrow> u32 \<Rightarrow> bool" where
  "rw_admits wr st flags \<longleftrightarrow> (if wr then st AND kWriteOwner = 0 \<and> st AND kMaxReaders = 0
     else st AND kWriteOwner = 0 \<and> \<not> yield_to_writer st flags)"

definition rw_granted :: "bool \<Rightarrow> u32 \<Rightarrow> u32" where
  "rw_granted wr st = (if wr then st OR kWriteOwner else st + 1)"

definition rw_want :: "bool \<Rightarrow> u32 \<Rightarrow> u32" where
  "rw_want wr st = st OR (if wr then kWriteWaiters else kReadWaiters)"

definition rw_block :: "u32 \<Rightarrow> bool \<Rightarrow> u64 \<Rightarrow> u32 \<Rightarrow> umtx \<Rightarrow> umtx" where
  "rw_block t wr p flags s =
     sleeping t p (Rw_loop wr p flags True) (store32 (blocked_at wr p) (u_mem s (blocked_at wr p) + 1) s)"

definition rw_loop :: "u32 \<Rightarrow> bool \<Rightarrow> u64 \<Rightarrow> u32 \<Rightarrow> bool \<Rightarrow> umtx \<Rightarrow> umtx" where
  "rw_loop t wr p flags slept = locking t p (\<lambda>s0.
     let s = (if slept then store32 (blocked_at wr p) (u_mem s0 (blocked_at wr p) - 1) s0 else s0);
         st = u_mem s p
     in if u_stop s then ret t p (neg_err eINTR) s
        else if rw_admits wr st flags then
          if \<not> wr \<and> st AND kMaxReaders = kMaxReaders then ret t p (neg_err eAGAIN) s
          else goto t (Rw_claim wr p flags st) s
        else if st = rw_want wr st then rw_block t wr p flags s
        else goto t (Rw_publish wr p flags st) s)"

definition rw_claim :: "u32 \<Rightarrow> bool \<Rightarrow> u64 \<Rightarrow> u32 \<Rightarrow> u32 \<Rightarrow> umtx \<Rightarrow> umtx" where
  "rw_claim t wr p flags st s =
     (if u_mem s p = st then ret t p 0 (store32 p (rw_granted wr st) s)
      else goto t (Rw_loop wr p flags False) s)"

definition rw_publish :: "u32 \<Rightarrow> bool \<Rightarrow> u64 \<Rightarrow> u32 \<Rightarrow> u32 \<Rightarrow> umtx \<Rightarrow> umtx" where
  "rw_publish t wr p flags st s =
     (if u_mem s p = st then rw_block t wr p flags (store32 p (rw_want wr st) s)
      else goto t (Rw_loop wr p flags False) s)"

definition rw_unlock_lock :: "u32 \<Rightarrow> u64 \<Rightarrow> umtx \<Rightarrow> umtx" where
  "rw_unlock_lock t p = locking t p (\<lambda>s. goto t (RwUnlock_cas p (u_mem s p)) s)"

text \<open>The word after a release, with the waiter bits nobody is behind any more retired.\<close>

definition rw_released :: "u32 \<Rightarrow> u32 \<Rightarrow> u32 \<Rightarrow> u32 option" where
  "rw_released st readers writers =
     (let retire = (\<lambda>n. let n = (if writers = 0 then n AND NOT kWriteWaiters else n)
                        in if readers = 0 then n AND NOT kReadWaiters else n)
      in if st AND kWriteOwner \<noteq> 0 then Some (retire (st AND NOT kWriteOwner))
         else if st AND kMaxReaders \<noteq> 0 then Some (retire (st - 1))
         else None)"

definition rw_unlock_cas :: "u32 \<Rightarrow> u64 \<Rightarrow> u32 \<Rightarrow> umtx \<Rightarrow> umtx" where
  "rw_unlock_cas t p st s =
     (if u_stop s then ret t p (neg_err eINTR) s
      else case rw_released st (u_mem s (p + 8)) (u_mem s (p + 12)) of
        None \<Rightarrow> ret t p (neg_err ePERM) s
      | Some n \<Rightarrow> if u_mem s p = st then ret t p 0 (store32 p n s)
                else goto t (RwUnlock_cas p (u_mem s p)) s)"

subsection \<open>Semaphores\<close>

definition sem_enter :: "u32 \<Rightarrow> u64 \<Rightarrow> int option \<Rightarrow> umtx \<Rightarrow> umtx" where
  "sem_enter t p dl = locking t p (\<lambda>s.
     goto t (Sem_loop p dl (ch_gen (u_chan s p))) (if u_mem s p = 0 then store32 p 1 s else s))"

definition sem_loop :: "u32 \<Rightarrow> u64 \<Rightarrow> int option \<Rightarrow> u64 \<Rightarrow> clocks \<Rightarrow> umtx \<Rightarrow> umtx" where
  "sem_loop t p dl g0 tm = locking t p (\<lambda>s.
     if \<not> u_stop s \<and> u_mem s (p + 4) = 0 \<and> ch_gen (u_chan s p) = g0 then
       if expired dl tm then ret t p (neg_err eTIMEDOUT) s else sleeping t p (Sem_loop p dl g0) s
     else ret t p 0 s)"

section \<open>The system call and the machine\<close>

text \<open>Entry of \<open>sys_umtx_op(ptr, op, val, a, b)\<close>, up to the first lock or the unlocked look at the word.\<close>

definition umtx_entry :: "umtx \<Rightarrow> u64 \<Rightarrow> int \<Rightarrow> u64 \<Rightarrow> u64 \<Rightarrow> u64 \<Rightarrow> clocks \<Rightarrow> upc" where
  "umtx_entry s p op val a b tm =
     (if op \<in> {2, 11, 15} then Wait_queue op p val (UmtxRelDeadline s tm b)
      else if op = 17 then (if holder (u_mem s p) = 0 then Returned 0 else MutexWait_lock p)
      else if op \<in> {3, 16} then Wake_lock p val
      else if op \<in> {18, 23} then (if holder (u_mem s p) \<noteq> 0 then Returned 0 else MutexWake_lock p)
      else if op \<in> {4, 5} then Lock_loop op p False
      else if op = 6 then Unlock_lock p
      else if op = 8 then Cv_enter p a (CvDeadline s tm p val b)
      else if op \<in> {9, 22} then Signal_lock p
      else if op \<in> {10, 20} then Bump_lock p
      else if op \<in> {12, 13} then Rw_loop (op = 13) p (u_mem s (p + 4)) False
      else if op = 14 then RwUnlock_lock p
      else if op = 19 then Sem_enter p (UmtxRelDeadline s tm b)
      else if op = 21 then Nwake_lock p val 0
      else if op < 0 \<or> op > 22 then Returned (neg_err eINVAL)
      else Returned 0)"

definition sys_umtx_op :: "u32 \<Rightarrow> u64 \<Rightarrow> int \<Rightarrow> u64 \<Rightarrow> u64 \<Rightarrow> u64 \<Rightarrow> clocks \<Rightarrow> umtx \<Rightarrow> umtx" where
  "sys_umtx_op t p op val a b tm s = (case u_pc s t of
       Returned _ \<Rightarrow> goto t (umtx_entry s p op val a b tm) s
     | _ \<Rightarrow> s)"

definition umtx_run :: "u32 \<Rightarrow> clocks \<Rightarrow> umtx \<Rightarrow> umtx" where
  "umtx_run t tm s = (case u_pc s t of
       Returned r \<Rightarrow> s
     | Wait_queue op p val dl \<Rightarrow> wait_queue_step t op p val dl s
     | Wait_loop op p val dl \<Rightarrow> wait_loop_step t op p val dl tm s
     | MutexWait_lock p \<Rightarrow> mutex_wait_lock t p s
     | MutexWait_cas p owner g0 \<Rightarrow> mutex_wait_cas t p owner g0 s
     | MutexWait_loop p g0 \<Rightarrow> mutex_wait_loop t p g0 s
     | Wake_lock p val \<Rightarrow> wake_step t p val s
     | MutexWake_lock p \<Rightarrow> mutex_wake_lock t p s
     | MutexWake_cas p \<Rightarrow> mutex_wake_cas t p s
     | Lock_loop op p queued \<Rightarrow> lock_loop t op p queued s
     | Lock_claim op p owner queued \<Rightarrow> lock_claim t op p owner queued s
     | Lock_contest op p owner queued \<Rightarrow> lock_contest t op p owner queued s
     | Unlock_lock p \<Rightarrow> unlock_lock t p s
     | Unlock_cas p owner \<Rightarrow> unlock_cas t p owner s
     | Cv_enter p a dl \<Rightarrow> cv_enter t p a dl s
     | Cv_load p a dl ticket g0 \<Rightarrow> cv_load t p a dl ticket g0 s
     | Cv_cas p a dl ticket g0 owner \<Rightarrow> cv_cas t p a dl ticket g0 owner s
     | Cv_loop p dl ticket g0 \<Rightarrow> cv_loop t p dl ticket g0 tm s
     | Signal_lock p \<Rightarrow> signal_step t p s
     | Bump_lock p \<Rightarrow> bump_step t p s
     | Rw_loop wr p flags slept \<Rightarrow> rw_loop t wr p flags slept s
     | Rw_claim wr p flags st \<Rightarrow> rw_claim t wr p flags st s
     | Rw_publish wr p flags st \<Rightarrow> rw_publish t wr p flags st s
     | RwUnlock_lock p \<Rightarrow> rw_unlock_lock t p s
     | RwUnlock_cas p st \<Rightarrow> rw_unlock_cas t p st s
     | Sem_enter p dl \<Rightarrow> sem_enter t p dl s
     | Sem_loop p dl g0 \<Rightarrow> sem_loop t p dl g0 tm s
     | Nwake_lock addrs val i \<Rightarrow> nwake_step t addrs val i s)"

text \<open>
  What happens next: a thread enters the kernel, a thread in the kernel runs one step, user code of a
  thread changes a word with a compare-and-swap or a store, or the session is stopped.
\<close>

datatype uevent =
    Call u32 u64 int u64 u64 u64 clocks
  | Run u32 clocks
  | User_cas u32 u64 u32 u32
  | User_store u32 u64 u32
  | Stop_session

fun umtx_step :: "uevent \<Rightarrow> umtx \<Rightarrow> umtx" where
  "umtx_step (Call t p op val a b tm) s = sys_umtx_op t p op val a b tm s"
| "umtx_step (Run t tm) s = umtx_run t tm s"
| "umtx_step (User_cas t p e n) s = (if u_mem s p = e then store32 p n s else s)"
| "umtx_step (User_store t p v) s = store32 p v s"
| "umtx_step Stop_session s = s\<lparr>u_stop := True\<rparr>"

definition umtx_exec :: "uevent list \<Rightarrow> umtx \<Rightarrow> umtx" where
  "umtx_exec es s = fold umtx_step es s"

definition umtx_session_reset :: "umtx \<Rightarrow> umtx" where
  "umtx_session_reset s = s\<lparr>u_chan := (\<lambda>_. WaitChan_new)\<rparr>"

end
