(* ===== verification/Umtx_Steps.thy ===== *)
theory Umtx_Steps
  imports Umtx
begin

text \<open>
  What the steps of the \<open>sys_umtx_op\<close> machine leave alone, runs of the machine, and the rules by which concrete
  schedules are evaluated.
\<close>

section \<open>Fields\<close>

named_theorems umtx_steps \<open>the steps of \<open>sys_umtx_op\<close>\<close>

lemmas [umtx_steps] = wait_queue_step_def wait_loop_step_def wake_step_def nwake_step_def mutex_wait_lock_def mutex_wait_cas_def
  mutex_wait_loop_def mutex_wake_finish_def mutex_wake_lock_def mutex_wake_cas_def lock_loop_def lock_claim_def
  lock_contest_def unlock_lock_def unlock_cas_def cv_enter_def cv_load_def cv_cas_def cv_leave_def cv_loop_def
  signal_step_def bump_step_def rw_block_def rw_loop_def rw_claim_def rw_publish_def rw_unlock_lock_def
  rw_unlock_cas_def sem_enter_def sem_loop_def

lemma umtx_fields [simp]:
  "u_mem (goto t k s) = u_mem s" "u_chan (goto t k s) = u_chan s" "u_node (goto t k s) = u_node s"
  "u_stop (goto t k s) = u_stop s" "u_lock (goto t k s) = u_lock s" "u_pc (goto t k s) = (u_pc s)(t := k)"
  "u_mem (unlock p s) = u_mem s" "u_chan (unlock p s) = u_chan s" "u_node (unlock p s) = u_node s"
  "u_stop (unlock p s) = u_stop s" "u_pc (unlock p s) = u_pc s" "u_lock (unlock p s) = (u_lock s)(UmtxBucket p := None)"
  "u_mem (store32 p v s) = (u_mem s)(p := v)" "u_chan (store32 p v s) = u_chan s" "u_node (store32 p v s) = u_node s"
  "u_stop (store32 p v s) = u_stop s" "u_pc (store32 p v s) = u_pc s" "u_lock (store32 p v s) = u_lock s"
  "u_mem (upd_chan p f s) = u_mem s" "u_chan (upd_chan p f s) = (u_chan s)(p := f (u_chan s p))"
  "u_node (upd_chan p f s) = u_node s" "u_stop (upd_chan p f s) = u_stop s" "u_pc (upd_chan p f s) = u_pc s"
  "u_lock (upd_chan p f s) = u_lock s"
  by (simp_all add: goto_def unlock_def store32_def upd_chan_def)

lemma umtx_queue_fields [simp]:
  "u_mem (on_queue p f s) = u_mem s" "u_stop (on_queue p f s) = u_stop s" "u_pc (on_queue p f s) = u_pc s"
  "u_lock (on_queue p f s) = u_lock s"
  "u_chan (on_queue p f s) = (u_chan s)(p := fst (f (u_chan s p, u_node s)))"
  "u_node (on_queue p f s) = snd (f (u_chan s p, u_node s))"
  by (simp_all add: on_queue_def split: prod.splits)

lemma umtx_return_fields [simp]:
  "u_mem (ret t p r s) = u_mem s" "u_chan (ret t p r s) = u_chan s" "u_node (ret t p r s) = u_node s"
  "u_stop (ret t p r s) = u_stop s" "u_pc (ret t p r s) = (u_pc s)(t := Returned r)"
  "u_lock (ret t p r s) = (u_lock s)(UmtxBucket p := None)"
  "u_mem (sleeping t p k s) = u_mem s" "u_chan (sleeping t p k s) = u_chan s" "u_node (sleeping t p k s) = u_node s"
  "u_stop (sleeping t p k s) = u_stop s" "u_pc (sleeping t p k s) = (u_pc s)(t := k)"
  "u_lock (sleeping t p k s) = (u_lock s)(UmtxBucket p := None)"
  by (simp_all add: ret_def sleeping_def)

lemma umtx_dequeue_fields [simp]:
  "u_mem (dequeue p b s) = u_mem s" "u_stop (dequeue p b s) = u_stop s" "u_pc (dequeue p b s) = u_pc s" "u_node (dequeue p b s) = u_node s"
  "u_lock (dequeue p b s) = u_lock s"
  "u_chan (dequeue p b s) = (u_chan s)(p := (u_chan s p)\<lparr>ch_mutex_waiters := ch_mutex_waiters (u_chan s p) - of_bool b\<rparr>)"
  by (simp_all add: dequeue_def)

lemma umtx_release_fields [simp]:
  "u_mem (release_mutex p owner s) = (if u_mem s p = owner then (u_mem s)(p := release_word (u_chan s p)) else u_mem s)"
  "u_chan (release_mutex p owner s) = (u_chan s)(p := (u_chan s p)\<lparr>ch_gen := ch_gen (u_chan s p) + 1\<rparr>)"
  "u_stop (release_mutex p owner s) = u_stop s" "u_pc (release_mutex p owner s) = u_pc s" "u_node (release_mutex p owner s) = u_node s"
  "u_lock (release_mutex p owner s) = u_lock s"
  by (simp_all add: release_mutex_def)

lemma run_pc_other: "t' \<noteq> t \<Longrightarrow> u_pc (umtx_run t tm s) t' = u_pc s t'"
  by (cases "u_pc s t") (simp_all add: umtx_run_def umtx_steps locking_def Let_def split: option.split)

lemma run_stop [simp]: "u_stop (umtx_run t tm s) = u_stop s"
  by (cases "u_pc s t") (simp_all add: umtx_run_def umtx_steps locking_def Let_def split: option.split)

lemma sys_umtx_op_fields [simp]:
  "u_chan (sys_umtx_op t p op val a b tm s) = u_chan s" "u_mem (sys_umtx_op t p op val a b tm s) = u_mem s"
  "u_stop (sys_umtx_op t p op val a b tm s) = u_stop s" "u_lock (sys_umtx_op t p op val a b tm s) = u_lock s"
  "u \<noteq> t \<Longrightarrow> u_pc (sys_umtx_op t p op val a b tm s) u = u_pc s u"
  by (simp_all add: sys_umtx_op_def split: upc.split)

lemma run_pc: "u_pc (umtx_run t tm s) = (u_pc s)(t := u_pc (umtx_run t tm s) t)"
  using run_pc_other[of _ t tm s] by auto

lemma run_returned: "u_pc s t = Returned r \<Longrightarrow> umtx_run t tm s = s"
  by (simp add: umtx_run_def)

lemma queue_counts [simp]:
  "same_counts (fst (QueueSimple w st)) c \<longleftrightarrow> same_counts (fst st) c"
  "same_counts (fst (RemoveSimple w st)) c \<longleftrightarrow> same_counts (fst st) c"
  using QueueSimple_frame(1)[of w st] RemoveSimple_frame(1)[of w st] by (auto simp: same_counts_def)

lemma wake_counts: "same_counts (fst (snd (wake_loop n k st))) (fst st)"
proof (induction n arbitrary: k st)
  case (Suc n)
  show ?case
  proof (cases "ch_head (fst st)")
    case (Some w)
    obtain ch ns where r: "RemoveSimple w st = (ch, ns)" by force
    then have "same_counts ch (fst st)" using RemoveSimple_frame(1)[of w st] by simp
    with Suc[of "Suc k" "(ch, upd_node w (sw_selected_update (\<lambda>_. True)) ns)"] show ?thesis
      using Some r by (auto dest: same_counts_trans)
  qed simp
qed simp

lemma queue_keeps [simp]:
  "ch_mutex_waiters (fst (QueueSimple w st)) = ch_mutex_waiters (fst st)"
  "ch_mutex_waiters (fst (RemoveSimple w st)) = ch_mutex_waiters (fst st)"
  "ch_mutex_waiters (fst (snd (WakeSimple v st))) = ch_mutex_waiters (fst st)"
  "ch_gen (fst (QueueSimple w st)) = ch_gen (fst st)"
  "ch_gen (fst (RemoveSimple w st)) = ch_gen (fst st)"
  "ch_gen (fst (snd (WakeSimple v st))) = ch_gen (fst st)"
  "ch_signals (fst (QueueSimple w st)) = ch_signals (fst st)"
  "ch_signals (fst (RemoveSimple w st)) = ch_signals (fst st)"
  "ch_signals (fst (snd (WakeSimple v st))) = ch_signals (fst st)"
  "ch_waiters (fst (QueueSimple w st)) = ch_waiters (fst st)"
  "ch_waiters (fst (RemoveSimple w st)) = ch_waiters (fst st)"
  "ch_waiters (fst (snd (WakeSimple v st))) = ch_waiters (fst st)"
  "ch_next_ticket (fst (QueueSimple w st)) = ch_next_ticket (fst st)"
  "ch_next_ticket (fst (RemoveSimple w st)) = ch_next_ticket (fst st)"
  "ch_next_ticket (fst (snd (WakeSimple v st))) = ch_next_ticket (fst st)"
  "ch_signal_cutoff (fst (QueueSimple w st)) = ch_signal_cutoff (fst st)"
  "ch_signal_cutoff (fst (RemoveSimple w st)) = ch_signal_cutoff (fst st)"
  "ch_signal_cutoff (fst (snd (WakeSimple v st))) = ch_signal_cutoff (fst st)"
  using same_countsD[OF QueueSimple_frame(1)[of w st]] same_countsD[OF RemoveSimple_frame(1)[of w st]]
    same_countsD[OF wake_counts[of "wake_budget v" 0 st]]
  by (simp_all add: WakeSimple_def)

lemma run_gen:
  "ch_gen (u_chan (umtx_run t tm s) p) = ch_gen (u_chan s p) \<or>
   ch_gen (u_chan (umtx_run t tm s) p) = ch_gen (u_chan s p) + 1"
  by (cases "u_pc s t")
    (auto simp: umtx_run_def umtx_steps locking_def Let_def note_signal_def split: option.split)

lemma word_step: "unat (w :: u64) \<le> n \<Longrightarrow> Suc n < 2 ^ 64 \<Longrightarrow> unat (w + 1) = Suc (unat w)"
  by (simp add: unat_word_ariths)

section \<open>Runs\<close>

text \<open>
  \<open>follows ok es s\<close>: every event of the run satisfies \<open>ok\<close> in the state in which it happens.
\<close>

fun follows :: "(uevent \<Rightarrow> umtx \<Rightarrow> bool) \<Rightarrow> uevent list \<Rightarrow> umtx \<Rightarrow> bool" where
  "follows ok [] s \<longleftrightarrow> True"
| "follows ok (e # es) s \<longleftrightarrow> ok e s \<and> follows ok es (umtx_step e s)"

lemma follows_append: "follows ok (es @ fs) s \<longleftrightarrow> follows ok es s \<and> follows ok fs (umtx_exec es s)"
  by (induction es arbitrary: s) (auto simp: umtx_exec_def)

lemma umtx_exec_simps [simp]: "umtx_exec [] s = s" "umtx_exec (e # es) s = umtx_exec es (umtx_step e s)"
  by (simp_all add: umtx_exec_def)

lemma umtx_exec_append: "umtx_exec (es @ fs) s = umtx_exec fs (umtx_exec es s)"
  by (simp add: umtx_exec_def)

lemma follows_inv:
  assumes "\<And>e s. I s \<Longrightarrow> ok e s \<Longrightarrow> I (umtx_step e s)"
  shows "I s \<Longrightarrow> follows ok es s \<Longrightarrow> I (umtx_exec es s)"
  by (induction es arbitrary: s) (auto intro: assms)

fun actor :: "uevent \<Rightarrow> u32 option" where
  "actor (Call t p op val a b tm) = Some t"
| "actor (Run t tm) = Some t"
| "actor (User_cas t p e n) = Some t"
| "actor (User_store t p v) = Some t"
| "actor Stop_session = None"

section \<open>Owner words\<close>

lemma holder_facts [simp]:
  "holder 0 = 0" "holder UMUTEX_CONTESTED = 0" "holder (w OR UMUTEX_CONTESTED) = holder w"
  "holder (t OR (w AND UMUTEX_CONTESTED)) = holder t" "holder (release_word c) = 0"
  by (auto simp: holder_def release_word_def bit_eq_iff bit_simps)

definition valid_tid :: "u32 \<Rightarrow> bool" where
  "valid_tid t \<longleftrightarrow> t \<noteq> 0 \<and> holder t = t"

section \<open>Evaluation of schedules\<close>

definition ex_tm :: clocks where
  "ex_tm = \<lparr>tm_now = 0, tm_real = (0, 0), tm_mono = (0, 0)\<rparr>"

lemma ex_bucket [simp]: "UmtxBucket 0x2000 = 0"
  by code_simp

lemmas umtx_eval = sys_umtx_op_def umtx_entry_def umtx_run_def umtx_steps locking_def goto_def unlock_def ret_def sleeping_def store32_def
  upd_chan_def on_queue_def note_signal_def umtx_init_def WaitChan_new_def CvDeadline_def UmtxRelDeadline_def expired_def

end
