(* ===== verification/Umtx_Mutex.thy ===== *)
theory Umtx_Mutex
  imports Umtx_Steps
begin

text \<open>
  Mutexes of \<open>sys_umtx_op\<close>: mutual exclusion on the owner word, the exact count of the queued threads,
  and the handshake by which a release finds out that it has to wake somebody.
\<close>

section \<open>Mutual exclusion\<close>

text \<open>
  What user code may do with the words of \<open>M\<close>, which are mutexes: a thread takes a free one, or
  releases one it holds, with a compare-and-swap; it waits on a condition variable only while it holds the mutex
  it passes; and it does not use the words as anything else.
\<close>

definition in_user :: "upc \<Rightarrow> bool" where
  "in_user k \<longleftrightarrow> (case k of Returned r \<Rightarrow> True | _ \<Rightarrow> False)"

lemma in_userE: "in_user k \<Longrightarrow> (\<And>r. k = Returned r \<Longrightarrow> thesis) \<Longrightarrow> thesis"
  by (auto simp: in_user_def split: upc.splits)

fun mutex_protocol :: "u64 set \<Rightarrow> uevent \<Rightarrow> umtx \<Rightarrow> bool" where
  "mutex_protocol M (Call t p op val a b tm) s \<longleftrightarrow> valid_tid t \<and>
     (op = 8 \<longrightarrow> p \<notin> M \<and> (a \<in> M \<longrightarrow> holder (u_mem s a) = t)) \<and>
     (op \<in> {12, 13, 14} \<longrightarrow> p \<notin> M \<and> p + 8 \<notin> M \<and> p + 12 \<notin> M) \<and> (op = 19 \<longrightarrow> p \<notin> M)"
| "mutex_protocol M (User_cas t p e n) s \<longleftrightarrow> (p \<in> M \<longrightarrow> in_user (u_pc s t) \<and> valid_tid t \<and>
     (holder e = 0 \<and> holder n = t \<or> holder e = t \<and> holder n = 0))"
| "mutex_protocol M (User_store t p v) s \<longleftrightarrow> p \<notin> M"
| "mutex_protocol M _ s \<longleftrightarrow> True"

text \<open>What a thread in the kernel has established about the mutexes.\<close>

definition mutex_pc :: "u64 set \<Rightarrow> (u64 \<Rightarrow> u32) \<Rightarrow> u32 \<Rightarrow> upc \<Rightarrow> bool" where
  "mutex_pc M mem t k \<longleftrightarrow> (case k of
       Lock_loop op p q \<Rightarrow> valid_tid t
     | Lock_claim op p owner q \<Rightarrow> valid_tid t \<and> holder owner = 0
     | Lock_contest op p owner q \<Rightarrow> valid_tid t
     | Unlock_lock p \<Rightarrow> valid_tid t
     | Unlock_cas p owner \<Rightarrow> valid_tid t \<and> holder owner = t
     | Cv_enter p a dl \<Rightarrow> valid_tid t \<and> p \<notin> M \<and> (a \<in> M \<longrightarrow> holder (mem a) = t)
     | Cv_load p a dl ticket g0 \<Rightarrow> valid_tid t \<and> p \<notin> M \<and> (a \<in> M \<longrightarrow> holder (mem a) = t)
     | Cv_cas p a dl ticket g0 owner \<Rightarrow> valid_tid t \<and> p \<notin> M \<and> (a \<in> M \<longrightarrow> holder (mem a) = t \<and> holder owner = t)
     | Cv_loop p dl ticket g0 \<Rightarrow> p \<notin> M
     | Rw_loop wr p flags slept \<Rightarrow> p \<notin> M \<and> p + 8 \<notin> M \<and> p + 12 \<notin> M
     | Rw_claim wr p flags st \<Rightarrow> p \<notin> M \<and> p + 8 \<notin> M \<and> p + 12 \<notin> M
     | Rw_publish wr p flags st \<Rightarrow> p \<notin> M \<and> p + 8 \<notin> M \<and> p + 12 \<notin> M
     | RwUnlock_lock p \<Rightarrow> p \<notin> M
     | RwUnlock_cas p st \<Rightarrow> p \<notin> M
     | Sem_enter p dl \<Rightarrow> p \<notin> M
     | _ \<Rightarrow> True)"

definition mutex_inv :: "u64 set \<Rightarrow> umtx \<Rightarrow> bool" where
  "mutex_inv M s \<longleftrightarrow> (\<forall>t. mutex_pc M (u_mem s) t (u_pc s t))"

text \<open>How one step may change the holder of a word.\<close>

definition holder_change :: "u32 option \<Rightarrow> u32 \<Rightarrow> u32 \<Rightarrow> bool" where
  "holder_change who h h' \<longleftrightarrow> h' = h \<or> h = 0 \<and> who = Some h' \<or> h' = 0 \<and> who = Some h"

lemma run_holder:
  assumes "mutex_pc M (u_mem s) t (u_pc s t)" and "p \<in> M"
  shows "holder_change (Some t) (holder (u_mem s p)) (holder (u_mem (umtx_run t tm s) p))"
  using assms
  by (cases "u_pc s t")
    (auto simp: umtx_run_def umtx_steps locking_def Let_def holder_change_def mutex_pc_def blocked_at_def valid_tid_def split: option.split)

lemma step_holder:
  assumes "mutex_inv M s" and "mutex_protocol M e s" and "p \<in> M"
  shows "holder_change (actor e) (holder (u_mem s p)) (holder (u_mem (umtx_step e s) p))"
proof (cases e)
  case (Call t q op val a b tm)
  then show ?thesis by (auto simp: sys_umtx_op_def holder_change_def split: upc.split)
next
  case (Run t tm)
  then show ?thesis using run_holder[of M s t p tm] assms by (auto simp: mutex_inv_def)
qed (use assms in \<open>auto simp: holder_change_def\<close>)

lemma mutex_pc_mono:
  assumes "mutex_pc M mem t k" and "\<And>p. p \<in> M \<Longrightarrow> holder (mem p) = t \<Longrightarrow> t \<noteq> 0 \<Longrightarrow> holder (mem' p) = t"
  shows "mutex_pc M mem' t k"
  using assms by (auto simp: mutex_pc_def valid_tid_def split: upc.splits)

lemma run_mutex_pc:
  assumes "mutex_pc M (u_mem s) t (u_pc s t)"
  shows "mutex_pc M (u_mem (umtx_run t tm s)) t (u_pc (umtx_run t tm s) t)"
  using assms
  by (cases "u_pc s t")
    (auto simp: umtx_run_def umtx_steps locking_def Let_def mutex_pc_def split: option.split)

lemma entry_mutex_pc:
  "mutex_protocol M (Call t p op val a b tm) s \<Longrightarrow> mutex_pc M (u_mem s) t (umtx_entry s p op val a b tm)"
  by (auto simp: umtx_entry_def mutex_pc_def)

lemma step_mutex_inv:
  assumes inv: "mutex_inv M s" and ok: "mutex_protocol M e s"
  shows "mutex_inv M (umtx_step e s)"
  unfolding mutex_inv_def
proof
  fix t
  have pc: "mutex_pc M (u_mem s) t (u_pc s t)" using inv by (simp add: mutex_inv_def)
  have others: "actor e \<noteq> Some t \<Longrightarrow> mutex_pc M (u_mem (umtx_step e s)) t (u_pc s t)"
    using mutex_pc_mono[OF pc] step_holder[OF inv ok] by (metis holder_change_def)
  show "mutex_pc M (u_mem (umtx_step e s)) t (u_pc (umtx_step e s) t)"
  proof (cases e)
    case (Call u p op val a b tm)
    then show ?thesis using pc entry_mutex_pc[of M u p op val a b tm s] ok
      by (auto simp: sys_umtx_op_def split: upc.split)
  next
    case (Run u tm)
    then show ?thesis using run_mutex_pc[OF pc, of tm] others run_pc_other[of t u tm s] by (cases "u = t") auto
  next
    case (User_cas u p x n)
    have away: "p \<notin> M \<Longrightarrow> mutex_pc M (u_mem (umtx_step e s)) t (u_pc s t)"
      by (rule mutex_pc_mono[OF pc]) (use User_cas in auto)
    have same: "u_pc (umtx_step e s) = u_pc s" using User_cas by simp
    show ?thesis
    proof (cases "u = t \<and> p \<in> M")
      case True
      then obtain r where "u_pc s t = Returned r" using ok User_cas by (auto elim: in_userE)
      then show ?thesis by (simp only: same) (simp add: mutex_pc_def)
    next
      case False
      then show ?thesis using away others User_cas by (simp only: same) auto
    qed
  next
    case (User_store u p v)
    have "mutex_pc M (u_mem (umtx_step e s)) t (u_pc s t)"
      by (rule mutex_pc_mono[OF pc]) (use ok User_store in auto)
    then show ?thesis using User_store by simp
  next
    case Stop_session
    then show ?thesis using pc by simp
  qed
qed
lemma init_mutex_inv: "mutex_inv M (umtx_init mem)"
  by (simp add: mutex_inv_def umtx_init_def mutex_pc_def)

lemma reach_mutex_inv: "follows (mutex_protocol M) es (umtx_init mem) \<Longrightarrow> mutex_inv M (umtx_exec es (umtx_init mem))"
  using follows_inv[of "mutex_inv M" "mutex_protocol M"] step_mutex_inv init_mutex_inv by blast

lemma held_by_others:
  assumes "mutex_inv M s" and "follows (mutex_protocol M) fs s" and "p \<in> M" and "\<forall>e\<in>set fs. actor e \<noteq> Some t"
    and "holder (u_mem s p) = t" and "t \<noteq> 0"
  shows "holder (u_mem (umtx_exec fs s) p) = t"
  using assms
proof (induction fs arbitrary: s)
  case (Cons e fs)
  have "holder (u_mem (umtx_step e s) p) = t"
    using step_holder[of M s e p] Cons.prems by (auto simp: holder_change_def)
  with Cons show ?case using step_mutex_inv[of M s e] by auto
qed simp

text \<open>A thread that is inside \<open>MUTEX_TRYLOCK\<close> or \<open>MUTEX_LOCK\<close> of the word at \<open>p\<close>.\<close>

definition acquiring :: "u64 \<Rightarrow> upc \<Rightarrow> bool" where
  "acquiring p k \<longleftrightarrow> (case k of Lock_loop op q b \<Rightarrow> q = p | Lock_claim op q w b \<Rightarrow> q = p | Lock_contest op q w b \<Rightarrow> q = p | _ \<Rightarrow> False)"

lemma run_acquired:
  assumes "mutex_pc M (u_mem s) t (u_pc s t)" and "acquiring p (u_pc s t)" and "u_pc (umtx_run t tm s) t = Returned 0"
  shows "holder (u_mem (umtx_run t tm s) p) = t"
  using assms
  by (cases "u_pc s t")
    (auto simp: acquiring_def umtx_run_def umtx_steps locking_def Let_def mutex_pc_def valid_tid_def split: if_splits)

text \<open>
  C13: Mutual exclusion of the kernel-arbitrated mutexes. In every interleaving of system calls and
  user code that follows the protocol: a \<open>MUTEX_LOCK\<close> or \<open>MUTEX_TRYLOCK\<close> that returns 0 leaves the word naming
  the caller; and as long as that thread does nothing, whatever the others do, in the kernel or with their
  own compare-and-swaps, the word goes on naming it, so no other thread's lock can return 0.
\<close>

theorem umtx_mutual_exclusion:
  assumes "follows (mutex_protocol M) es (umtx_init mem)" and "p \<in> M" and "valid_tid t"
    and "acquiring p (u_pc (umtx_exec es (umtx_init mem)) t)"
    and "u_pc (umtx_exec (es @ [Run t tm]) (umtx_init mem)) t = Returned 0"
    and "follows (mutex_protocol M) fs (umtx_exec (es @ [Run t tm]) (umtx_init mem))" and "\<forall>e\<in>set fs. actor e \<noteq> Some t"
  shows "holder (u_mem (umtx_exec (es @ [Run t tm] @ fs) (umtx_init mem)) p) = t \<and>
    (\<forall>u tm'. u \<noteq> t \<and> acquiring p (u_pc (umtx_exec (es @ [Run t tm] @ fs) (umtx_init mem)) u) \<longrightarrow>
      u_pc (umtx_exec (es @ [Run t tm] @ fs @ [Run u tm']) (umtx_init mem)) u \<noteq> Returned 0)"
proof -
  let ?s = "umtx_exec es (umtx_init mem)"
  have inv: "mutex_inv M ?s" using assms(1) by (rule reach_mutex_inv)
  then have "mutex_pc M (u_mem ?s) t (u_pc ?s t)" by (simp add: mutex_inv_def)
  then have got: "holder (u_mem (umtx_run t tm ?s) p) = t"
    using assms(4,5) run_acquired by (simp add: umtx_exec_append)
  have inv1: "mutex_inv M (umtx_run t tm ?s)" using step_mutex_inv[OF inv, of "Run t tm"] by simp
  have fs: "follows (mutex_protocol M) (fs) (umtx_run t tm ?s)" using assms(6) by (simp add: umtx_exec_append)
  have held: "holder (u_mem (umtx_exec (es @ [Run t tm] @ fs) (umtx_init mem)) p) = t"
    using held_by_others[OF inv1 fs assms(2,7) got] assms(3) by (simp add: umtx_exec_append valid_tid_def)
  let ?u = "umtx_exec fs (umtx_run t tm ?s)"
  have inv2: "mutex_inv M ?u" by (rule follows_inv[OF step_mutex_inv inv1 fs])
  moreover have "\<forall>u tm'. u \<noteq> t \<and> acquiring p (u_pc (umtx_exec (es @ [Run t tm] @ fs) (umtx_init mem)) u) \<longrightarrow>
      u_pc (umtx_exec (es @ [Run t tm] @ fs @ [Run u tm']) (umtx_init mem)) u \<noteq> Returned 0"
  proof (intro allI impI notI)
    fix u tm'
    assume a: "u \<noteq> t \<and> acquiring p (u_pc (umtx_exec (es @ [Run t tm] @ fs) (umtx_init mem)) u)"
      and r: "u_pc (umtx_exec (es @ [Run t tm] @ fs @ [Run u tm']) (umtx_init mem)) u = Returned 0"
    have "holder (u_mem (umtx_run u tm' ?u) p) = u"
      using run_acquired[of M ?u u p tm'] inv2 a r by (simp add: umtx_exec_append mutex_inv_def)
    moreover have "holder (u_mem (umtx_run u tm' ?u) p) = t"
      using held_by_others[OF inv2, of "[Run u tm']" p t] held assms(2,3) a by (simp add: umtx_exec_append valid_tid_def)
    ultimately show False using a by simp
  qed
  ultimately show ?thesis using held by blast
qed

lemma umtx_mutual_exclusion_witness:
  "holder (u_mem (umtx_exec ([Call 1 0x1000 5 0 0 0 ex_tm, Run 1 ex_tm] @ [Run 1 ex_tm] @
     [Call 2 0x1000 5 0 0 0 ex_tm, Run 2 ex_tm, Run 2 ex_tm]) (umtx_init (\<lambda>_. 0))) 0x1000) = 1"
  by (rule umtx_mutual_exclusion[of "{0x1000}", THEN conjunct1]) code_simp+

section \<open>The contested handshake\<close>

lemma card_fun_upd:
  "(of_nat (card {x. P ((f(t := k)) x)}) :: 'a::ring_1) = of_nat (card {x :: u32. P (f x)}) + of_bool (P k) - of_bool (P (f t))"
proof -
  let ?A = "{x. x \<noteq> t \<and> P (f x)}"
  have "{x. P ((f(t := k)) x)} = ?A \<union> (if P k then {t} else {})" by auto
  moreover have "{x. P (f x)} = ?A \<union> (if P (f t) then {t} else {})" by auto
  ultimately show ?thesis by (simp add: card_insert_disjoint)
qed

definition mutex_sleeper :: "u64 \<Rightarrow> upc \<Rightarrow> bool" where
  "mutex_sleeper p k \<longleftrightarrow> (case k of MutexWait_loop q g0 \<Rightarrow> q = p | Lock_loop op q b \<Rightarrow> q = p \<and> b
     | Lock_claim op q w b \<Rightarrow> q = p \<and> b | Lock_contest op q w b \<Rightarrow> q = p \<and> b | _ \<Rightarrow> False)"

definition mutex_sleepers :: "u64 \<Rightarrow> umtx \<Rightarrow> u32 set" where
  "mutex_sleepers p s = {t. mutex_sleeper p (u_pc s t)}"

lemma run_mutex_count:
  "ch_mutex_waiters (u_chan (umtx_run t tm s) p) = ch_mutex_waiters (u_chan s p)
     + of_bool (mutex_sleeper p (u_pc (umtx_run t tm s) t)) - of_bool (mutex_sleeper p (u_pc s t))"
  by (cases "u_pc s t")
    (auto simp: umtx_run_def umtx_steps locking_def Let_def mutex_sleeper_def note_signal_def split: option.split)

definition counts_inv :: "umtx \<Rightarrow> bool" where
  "counts_inv s \<longleftrightarrow> (\<forall>p. ch_mutex_waiters (u_chan s p) = of_nat (card (mutex_sleepers p s))) \<and>
     (\<forall>t. valid_tid t \<or> (\<exists>r. u_pc s t = Returned r))"

lemma entry_awake: "\<not> mutex_sleeper p (umtx_entry s q op val a b tm)"
  by (simp add: umtx_entry_def mutex_sleeper_def)

lemma run_counts_inv:
  assumes "counts_inv s"
  shows "counts_inv (umtx_run t tm s)"
proof -
  have "ch_mutex_waiters (u_chan (umtx_run t tm s) p) = of_nat (card (mutex_sleepers p (umtx_run t tm s)))" for p
    using card_fun_upd[of "mutex_sleeper p" "u_pc s" t "u_pc (umtx_run t tm s) t", where 'a = u32]
      assms run_mutex_count[of t tm s p]
    unfolding run_pc[symmetric] mutex_sleepers_def counts_inv_def by simp
  moreover have "valid_tid u \<or> (\<exists>r. u_pc (umtx_run t tm s) u = Returned r)" for u
    using assms run_pc_other[of u t tm s] run_returned[of s t _ tm] by (cases "u = t") (auto simp: counts_inv_def)
  ultimately show ?thesis by (simp add: counts_inv_def)
qed

definition tids_valid :: "uevent \<Rightarrow> umtx \<Rightarrow> bool" where
  "tids_valid e s \<longleftrightarrow> (case e of Call t p op val a b tm \<Rightarrow> valid_tid t | _ \<Rightarrow> True)"

lemma step_counts_inv:
  assumes "counts_inv s" and "tids_valid e s"
  shows "counts_inv (umtx_step e s)"
proof (cases e)
  case (Call t q op val a b tm)
  have "counts_inv (goto t (umtx_entry s q op val a b tm) s)" if "u_pc s t = Returned r" for r
  proof -
    have "mutex_sleepers p (goto t (umtx_entry s q op val a b tm) s) = mutex_sleepers p s" for p
      using that by (auto simp: mutex_sleepers_def entry_awake mutex_sleeper_def[of _ "Returned r"])
    then show ?thesis using assms Call by (auto simp: counts_inv_def tids_valid_def)
  qed
  then show ?thesis using assms Call by (auto simp: sys_umtx_op_def split: upc.split)
next
  case (Run t tm)
  then show ?thesis using run_counts_inv assms by simp
qed (use assms in \<open>auto simp: counts_inv_def mutex_sleepers_def\<close>)
lemma card_valid: "(\<And>t. t \<in> A \<Longrightarrow> valid_tid t) \<Longrightarrow> card A < 2 ^ 32"
proof -
  assume "\<And>t. t \<in> A \<Longrightarrow> valid_tid t"
  then have "A \<subset> (UNIV :: u32 set)" by (auto simp: valid_tid_def)
  then have "card A < card (UNIV :: u32 set)" by (rule psubset_card_mono[OF finite])
  then show ?thesis by (simp add: card_word)
qed

lemma mutex_count_exact:
  assumes "counts_inv s"
  shows "unat (ch_mutex_waiters (u_chan s p)) = card (mutex_sleepers p s)"
proof -
  have "card (mutex_sleepers p s) < 2 ^ 32"
    by (rule card_valid) (use assms in \<open>fastforce simp: counts_inv_def mutex_sleepers_def mutex_sleeper_def\<close>)
  then show ?thesis using assms by (simp add: counts_inv_def unat_of_nat)
qed

lemma sleeper_counted:
  assumes "counts_inv s" and "mutex_sleeper p (u_pc s t)"
  shows "ch_mutex_waiters (u_chan s p) \<noteq> 0"
proof -
  have "card (mutex_sleepers p s) \<noteq> 0" using assms(2) by (auto simp: mutex_sleepers_def)
  then show ?thesis using mutex_count_exact[OF assms(1), of p] by auto
qed

definition contested :: "u32 \<Rightarrow> bool" where
  "contested w \<longleftrightarrow> w AND UMUTEX_CONTESTED \<noteq> 0"

lemma contested_facts [simp]:
  "contested (w OR UMUTEX_CONTESTED)" "holder t = t \<Longrightarrow> contested (t OR (w AND UMUTEX_CONTESTED)) \<longleftrightarrow> contested w"
  "contested UMUTEX_CONTESTED"
proof -
  have *: "contested w \<longleftrightarrow> bit w 31" for w
    using and_exp_eq_0_iff_not_bit[of w 31] by (simp add: contested_def UMUTEX_CONTESTED_def)
  have c: "bit UMUTEX_CONTESTED 31" by (simp add: UMUTEX_CONTESTED_def)
  show "contested (w OR UMUTEX_CONTESTED)" "contested UMUTEX_CONTESTED" using c by (simp_all add: * bit_simps)
  show "contested (t OR (w AND UMUTEX_CONTESTED)) \<longleftrightarrow> contested w" if "holder t = t"
  proof -
    have "\<not> bit t 31" by (subst that[symmetric]) (simp add: holder_def bit_simps UMUTEX_CONTESTED_def)
    then show ?thesis using c by (simp add: * bit_simps)
  qed
qed

text \<open>The protocol of \<open>libthr\<close>: a compare-and-swap of user code keeps the contested bit.\<close>

fun contested_protocol :: "u64 set \<Rightarrow> uevent \<Rightarrow> umtx \<Rightarrow> bool" where
  "contested_protocol M (User_cas t p e n) s \<longleftrightarrow> mutex_protocol M (User_cas t p e n) s \<and>
     (p \<in> M \<longrightarrow> n AND UMUTEX_CONTESTED = e AND UMUTEX_CONTESTED)"
| "contested_protocol M e s \<longleftrightarrow> mutex_protocol M e s"

lemma run_contested:
  assumes "mutex_pc M (u_mem s) t (u_pc s t)" and "p \<in> M" and "ch_gen (u_chan (umtx_run t tm s) p) = ch_gen (u_chan s p)"
    and "contested (u_mem s p)" and "ch_mutex_waiters (u_chan s p) \<noteq> 0"
  shows "contested (u_mem (umtx_run t tm s) p)"
  using assms
  by (cases "u_pc s t")
    (auto simp: umtx_run_def umtx_steps locking_def Let_def note_signal_def mutex_pc_def valid_tid_def blocked_at_def split: option.splits if_splits)

lemma run_sleeps:
  assumes "u_pc (umtx_run t tm s) t = MutexWait_loop p g0"
  shows "u_pc s t = MutexWait_loop p g0 \<or> (\<exists>w. u_pc s t = MutexWait_cas p w g0) \<and> contested (u_mem (umtx_run t tm s) p) \<and>
    ch_gen (u_chan (umtx_run t tm s) p) = ch_gen (u_chan s p)"
  using assms
  by (cases "u_pc s t")
    (auto simp: umtx_run_def umtx_steps locking_def Let_def split: option.splits if_splits)

lemma run_loads:
  assumes "u_pc (umtx_run t tm s) t = MutexWait_cas p w g0"
  shows "u_pc s t = MutexWait_cas p w g0 \<or> g0 = ch_gen (u_chan s p) \<and> ch_gen (u_chan (umtx_run t tm s) p) = ch_gen (u_chan s p)"
  using assms
  by (cases "u_pc s t")
    (auto simp: umtx_run_def umtx_steps locking_def Let_def split: option.splits if_splits)

definition snapshot_of :: "u64 \<Rightarrow> upc \<Rightarrow> u64 option" where
  "snapshot_of p k = (case k of MutexWait_cas q w g0 \<Rightarrow> if q = p then Some g0 else None
     | MutexWait_loop q g0 \<Rightarrow> if q = p then Some g0 else None | _ \<Rightarrow> None)"

definition handshake_inv :: "u64 set \<Rightarrow> nat \<Rightarrow> umtx \<Rightarrow> bool" where
  "handshake_inv M n s \<longleftrightarrow> mutex_inv M s \<and> counts_inv s \<and> (\<forall>p. unat (ch_gen (u_chan s p)) \<le> n) \<and>
     (\<forall>t p g0. snapshot_of p (u_pc s t) = Some g0 \<longrightarrow> g0 \<le> ch_gen (u_chan s p)) \<and>
     (\<forall>t p g0. p \<in> M \<and> u_pc s t = MutexWait_loop p g0 \<and> ch_gen (u_chan s p) = g0 \<longrightarrow> contested (u_mem s p))"

lemma handshake_bounds:
  assumes "handshake_inv M n s"
  shows "unat (ch_gen (u_chan s p)) \<le> n" and "u_pc s t = MutexWait_loop p g0 \<Longrightarrow> g0 \<le> ch_gen (u_chan s p)"
proof -
  show "unat (ch_gen (u_chan s p)) \<le> n" using assms by (simp add: handshake_inv_def)
  assume "u_pc s t = MutexWait_loop p g0"
  then have "snapshot_of p (u_pc s t) = Some g0" by (simp add: snapshot_of_def)
  then show "g0 \<le> ch_gen (u_chan s p)" using assms by (simp add: handshake_inv_def)
qed

lemma run_handshake_inv:
  assumes inv: "handshake_inv M n s" and n: "Suc n < 2 ^ 64"
  shows "handshake_inv M (Suc n) (umtx_run t tm s)"
proof -
  let ?s = "umtx_run t tm s"
  have mi: "mutex_inv M ?s" using inv step_mutex_inv[of M s "Run t tm"] by (simp add: handshake_inv_def)
  have ci: "counts_inv ?s" using inv run_counts_inv by (simp add: handshake_inv_def)
  have bump: "unat (ch_gen (u_chan s p) + 1) = Suc (unat (ch_gen (u_chan s p)))" for p
    using inv n
    by (auto simp: handshake_inv_def unat_word_ariths dest!: spec[of _ p])
  have gen: "unat (ch_gen (u_chan ?s p)) \<le> Suc n" and up: "ch_gen (u_chan s p) \<le> ch_gen (u_chan ?s p)" for p
    using run_gen[of t tm s p] bump[of p] inv by (auto simp: handshake_inv_def word_le_nat_alt dest!: spec[of _ p])
  have snap: "g0 \<le> ch_gen (u_chan ?s p)" if "snapshot_of p (u_pc ?s u) = Some g0" for u p g0
  proof -
    have "snapshot_of p (u_pc s u) = Some g0 \<or> g0 = ch_gen (u_chan s p)"
      using that run_pc_other[of u t tm s] run_sleeps[of t tm s p g0] run_loads[of t tm s p _ g0]
      by (cases "u = t") (auto simp: snapshot_of_def split: upc.splits if_splits)
    then have "g0 \<le> ch_gen (u_chan s p)" using inv by (auto simp: handshake_inv_def)
    then show ?thesis using up[of p] by simp
  qed
  have "contested (u_mem ?s p)" if p: "p \<in> M" and pc: "u_pc ?s u = MutexWait_loop p g0" and g: "ch_gen (u_chan ?s p) = g0" for u p g0
  proof (cases "u_pc s u = MutexWait_loop p g0")
    case True
    then have "g0 \<le> ch_gen (u_chan s p)" by (rule handshake_bounds(2)[OF inv])
    then have eq: "ch_gen (u_chan ?s p) = ch_gen (u_chan s p)" using g up[of p] by simp
    then have "contested (u_mem s p)" using inv p True g by (auto simp: handshake_inv_def)
    moreover have "ch_mutex_waiters (u_chan s p) \<noteq> 0"
      using sleeper_counted[of s p u] inv True by (simp add: handshake_inv_def mutex_sleeper_def)
    ultimately show ?thesis using run_contested[of M s t p tm] inv p eq by (simp add: handshake_inv_def mutex_inv_def)
  next
    case False
    then have "u = t" using pc run_pc_other[of u t tm s] by auto
    then show ?thesis using run_sleeps[of t tm s p g0] pc False by auto
  qed
  then show ?thesis using mi ci gen snap by (auto simp: handshake_inv_def)
qed

lemma contested_is_mutex: "contested_protocol M e s \<Longrightarrow> mutex_protocol M e s"
  by (cases e) auto

lemma entry_snapshot: "snapshot_of p (umtx_entry s q op val a b tm) = None"
  by (simp add: umtx_entry_def snapshot_of_def)

lemma step_handshake_inv:
  assumes inv: "handshake_inv M n s" and ok: "contested_protocol M e s" and n: "Suc n < 2 ^ 64"
  shows "handshake_inv M (Suc n) (umtx_step e s)"
proof (cases "\<exists>t tm. e = Run t tm")
  case True
  then show ?thesis using run_handshake_inv[OF inv n] by auto
next
  case False
  have mi: "mutex_inv M (umtx_step e s)"
    using inv ok contested_is_mutex step_mutex_inv by (auto simp: handshake_inv_def)
  have ci: "counts_inv (umtx_step e s)"
    using inv ok contested_is_mutex[OF ok] step_counts_inv[of s e] by (cases e) (auto simp: handshake_inv_def tids_valid_def)
  have ch: "u_chan (umtx_step e s) = u_chan s" using False by (cases e) (auto simp: sys_umtx_op_def split: upc.split)
  have snap: "snapshot_of p (u_pc (umtx_step e s) u) = None \<or> u_pc (umtx_step e s) u = u_pc s u" for p u
    using False by (cases e) (auto simp: sys_umtx_op_def entry_snapshot split: upc.split)
  have sleeps: "u_pc s u = MutexWait_loop p g0" if "u_pc (umtx_step e s) u = MutexWait_loop p g0" for u p g0
    using snap[of p u] that by (auto simp: snapshot_of_def)
  have mem: "contested (u_mem (umtx_step e s) p) \<longleftrightarrow> contested (u_mem s p)" if "p \<in> M" for p
    using False ok that by (cases e) (auto simp: sys_umtx_op_def contested_def split: upc.split)
  have "g0 \<le> ch_gen (u_chan s p)" if "snapshot_of p (u_pc (umtx_step e s) u) = Some g0" for u p g0
    using inv snap[of p u] that by (auto simp: handshake_inv_def)
  moreover have "unat (ch_gen (u_chan s p)) \<le> Suc n" for p
    using handshake_bounds(1)[OF inv] by (rule le_SucI)
  moreover have "contested (u_mem (umtx_step e s) p)"
    if "p \<in> M" "u_pc (umtx_step e s) u = MutexWait_loop p (ch_gen (u_chan s p))" for u p
    using inv mem[OF that(1)] sleeps[OF that(2)] that(1) by (auto simp: handshake_inv_def)
  ultimately show ?thesis using mi ci by (auto simp: handshake_inv_def ch)
qed

lemma follows_handshake:
  "\<lbrakk>handshake_inv M n s; follows (contested_protocol M) es s; n + length es < 2 ^ 64\<rbrakk> \<Longrightarrow>
     handshake_inv M (n + length es) (umtx_exec es s)"
proof (induction es arbitrary: n s)
  case (Cons e es)
  have "handshake_inv M (Suc n) (umtx_step e s)" by (rule step_handshake_inv) (use Cons.prems in auto)
  then show ?case using Cons.IH[of "Suc n" "umtx_step e s"] Cons.prems by simp
qed simp

lemma init_handshake: "handshake_inv M 0 (umtx_init mem)"
  using init_mutex_inv[of M mem]
  by (simp add: handshake_inv_def umtx_init_def counts_inv_def mutex_sleepers_def mutex_sleeper_def snapshot_of_def WaitChan_new_def)

text \<open>The steps that release the sleepers of a mutex.\<close>

definition releases :: "u64 \<Rightarrow> upc \<Rightarrow> bool" where
  "releases p k \<longleftrightarrow> (case k of Unlock_cas q w \<Rightarrow> q = p | MutexWake_cas q \<Rightarrow> q = p | Cv_cas c q dl ticket g0 w \<Rightarrow> q = p | _ \<Rightarrow> False)"

lemma run_releases:
  "releases p (u_pc s u) \<Longrightarrow> ch_mutex_waiters (u_chan s p) \<noteq> 0 \<Longrightarrow>
     ch_gen (u_chan (umtx_run u tm s) p) = ch_gen (u_chan s p) + 1"
  by (cases "u_pc s u") (auto simp: releases_def umtx_run_def umtx_steps Let_def)


text \<open>Thread 1 holds the mutex, thread 2 sleeps on it, and thread 1 is about to release it.\<close>

definition ex_contest :: "uevent list" where
  "ex_contest = [User_cas 1 0x1000 0 1, Call 2 0x1000 17 0 0 0 ex_tm, Run 2 ex_tm, Run 2 ex_tm, Run 2 ex_tm,
     Call 1 0x1000 6 0 0 0 ex_tm, Run 1 ex_tm]"


end
