(* ===== verification/Umtx_Cond.thy ===== *)
theory Umtx_Cond
  imports Umtx_Steps
begin

text \<open>
  Condition variables of \<open>sys_umtx_op\<close>: a wait returns only for a reason, signals and broadcasts are delivered, and
  two schedules in which the bookkeeping of pending signals goes wrong.
\<close>

section \<open>Condition variables\<close>

text \<open>The ticket and the generation a thread waiting on the condition variable at \<open>p\<close> holds.\<close>

definition cv_wait_of :: "u64 \<Rightarrow> upc \<Rightarrow> (u64 \<times> u64) option" where
  "cv_wait_of p k = (case k of
       Cv_load q a dl ticket g0 \<Rightarrow> if q = p then Some (ticket, g0) else None
     | Cv_cas q a dl ticket g0 w \<Rightarrow> if q = p then Some (ticket, g0) else None
     | Cv_loop q dl ticket g0 \<Rightarrow> if q = p then Some (ticket, g0) else None
     | _ \<Rightarrow> None)"

definition cv_inv :: "nat \<Rightarrow> umtx \<Rightarrow> bool" where
  "cv_inv n s \<longleftrightarrow>
     (\<forall>p. ch_signal_cutoff (u_chan s p) \<le> ch_next_ticket (u_chan s p) \<and> unat (ch_next_ticket (u_chan s p)) \<le> n \<and>
        unat (ch_gen (u_chan s p)) \<le> n) \<and>
     (\<forall>t p ticket g0. cv_wait_of p (u_pc s t) = Some (ticket, g0) \<longrightarrow>
        ticket < ch_next_ticket (u_chan s p) \<and> g0 \<le> ch_gen (u_chan s p))"

lemma cv_invD:
  assumes "cv_inv n s"
  shows "ch_signal_cutoff (u_chan s p) \<le> ch_next_ticket (u_chan s p)" "unat (ch_next_ticket (u_chan s p)) \<le> n"
    "unat (ch_gen (u_chan s p)) \<le> n"
    "cv_wait_of p (u_pc s t) = Some (ticket, g0) \<Longrightarrow> ticket < ch_next_ticket (u_chan s p) \<and> g0 \<le> ch_gen (u_chan s p)"
  using assms by (simp_all add: cv_inv_def)

lemma run_tickets:
  "(ch_next_ticket (u_chan (umtx_run t tm s) p) = ch_next_ticket (u_chan s p) \<or>
    ch_next_ticket (u_chan (umtx_run t tm s) p) = ch_next_ticket (u_chan s p) + 1) \<and>
   (ch_signal_cutoff (u_chan (umtx_run t tm s) p) = ch_signal_cutoff (u_chan s p) \<or>
    ch_signal_cutoff (u_chan (umtx_run t tm s) p) = ch_next_ticket (u_chan s p))"
  by (cases "u_pc s t")
    (auto simp: umtx_run_def umtx_steps locking_def Let_def note_signal_def split: option.split)

lemma run_cv_wait:
  assumes "cv_wait_of p (u_pc (umtx_run t tm s) t) = Some (ticket, g0)"
  shows "cv_wait_of p (u_pc s t) = Some (ticket, g0) \<or>
    ticket = ch_next_ticket (u_chan s p) \<and> g0 = ch_gen (u_chan s p) \<and>
    ch_next_ticket (u_chan (umtx_run t tm s) p) = ch_next_ticket (u_chan s p) + 1"
  using assms
  by (cases "u_pc s t")
    (auto simp: umtx_run_def umtx_steps locking_def Let_def cv_wait_of_def split: option.splits if_splits)

lemma run_cv_inv:
  assumes inv: "cv_inv n s" and n: "Suc n < 2 ^ 64"
  shows "cv_inv (Suc n) (umtx_run t tm s)"
proof -
  let ?c = "\<lambda>p. u_chan s p" and ?d = "\<lambda>p. u_chan (umtx_run t tm s) p"
  have up: "ch_next_ticket (?c p) \<le> ch_next_ticket (?d p) \<and> unat (ch_next_ticket (?d p)) \<le> Suc n \<and>
      ch_gen (?c p) \<le> ch_gen (?d p) \<and> unat (ch_gen (?d p)) \<le> Suc n" for p
    using run_tickets[of t tm s p] run_gen[of t tm s p] cv_invD(2,3)[OF inv, of p] n
      word_step[of "ch_next_ticket (?c p)" n] word_step[of "ch_gen (?c p)" n]
    by (auto simp: word_le_nat_alt)
  have cut: "ch_signal_cutoff (?d p) \<le> ch_next_ticket (?d p)" for p
    using run_tickets[of t tm s p] cv_invD(1)[OF inv, of p] up[of p] by auto
  have "ticket < ch_next_ticket (?d p) \<and> g0 \<le> ch_gen (?d p)" if w: "cv_wait_of p (u_pc (umtx_run t tm s) u) = Some (ticket, g0)" for u p ticket g0
  proof (cases "cv_wait_of p (u_pc s u) = Some (ticket, g0)")
    case True
    then show ?thesis using cv_invD(4)[OF inv True] up[of p] by auto
  next
    case False
    then have "u = t" using w run_pc_other[of u t tm s] by (cases "u = t") auto
    then have "ticket = ch_next_ticket (?c p)" "g0 = ch_gen (?c p)" "ch_next_ticket (?d p) = ch_next_ticket (?c p) + 1"
      using run_cv_wait[of p t tm s ticket g0] w False by auto
    then show ?thesis using up[of p] word_step[OF cv_invD(2)[OF inv, of p] n] by (simp add: word_less_nat_alt)
  qed
  then show ?thesis using up cut by (simp add: cv_inv_def)
qed

lemma entry_cv_wait: "cv_wait_of p (umtx_entry s q op val a b tm) = None"
  by (simp add: umtx_entry_def cv_wait_of_def)

lemma step_cv_inv:
  assumes inv: "cv_inv n s" and n: "Suc n < 2 ^ 64"
  shows "cv_inv (Suc n) (umtx_step e s)"
proof (cases "\<exists>t tm. e = Run t tm")
  case True
  then show ?thesis using run_cv_inv[OF inv n] by auto
next
  case False
  have ch: "u_chan (umtx_step e s) = u_chan s" using False by (cases e) (auto simp: sys_umtx_op_def split: upc.split)
  have same: "cv_wait_of p (u_pc (umtx_step e s) u) = None \<or> u_pc (umtx_step e s) u = u_pc s u" for p u
    using False by (cases e) (auto simp: sys_umtx_op_def entry_cv_wait split: upc.split)
  have "ticket < ch_next_ticket (u_chan s p) \<and> g0 \<le> ch_gen (u_chan s p)"
    if "cv_wait_of p (u_pc (umtx_step e s) u) = Some (ticket, g0)" for u p ticket g0
    using same[of p u] that cv_invD(4)[OF inv, of p u] by auto
  then show ?thesis using cv_invD(1-3)[OF inv] by (auto simp: cv_inv_def ch le_SucI)
qed

lemma exec_cv_inv: "\<lbrakk>cv_inv n s; n + length es < 2 ^ 64\<rbrakk> \<Longrightarrow> cv_inv (n + length es) (umtx_exec es s)"
proof (induction es arbitrary: n s)
  case (Cons e es)
  have "cv_inv (Suc n) (umtx_step e s)" by (rule step_cv_inv) (use Cons.prems in auto)
  then show ?case using Cons.IH[of "Suc n" "umtx_step e s"] Cons.prems by simp
qed simp

lemma init_cv_inv: "cv_inv 0 (umtx_init mem)"
  by (simp add: cv_inv_def umtx_init_def WaitChan_new_def cv_wait_of_def)

text \<open>The steps that may release a waiter of \<open>p\<close>: a signal, a broadcast, or an operation that uses \<open>p\<close> as a mutex.\<close>

definition may_wake :: "u64 \<Rightarrow> upc \<Rightarrow> bool" where
  "may_wake p k \<longleftrightarrow> (case k of Signal_lock q \<Rightarrow> q = p | Bump_lock q \<Rightarrow> q = p | Unlock_cas q w \<Rightarrow> q = p
     | MutexWake_lock q \<Rightarrow> q = p | MutexWake_cas q \<Rightarrow> q = p | Cv_cas c q dl ticket g0 w \<Rightarrow> q = p | _ \<Rightarrow> False)"

lemma run_quiet:
  assumes "\<not> may_wake p (u_pc s t)"
  shows "ch_gen (u_chan (umtx_run t tm s) p) = ch_gen (u_chan s p) \<and>
    ch_signal_cutoff (u_chan (umtx_run t tm s) p) = ch_signal_cutoff (u_chan s p)"
  using assms
  by (cases "u_pc s t")
    (auto simp: umtx_run_def umtx_steps locking_def Let_def note_signal_def may_wake_def split: option.split)

fun quiet :: "u64 \<Rightarrow> u32 \<Rightarrow> uevent \<Rightarrow> umtx \<Rightarrow> bool" where
  "quiet p t (Call u q op val a b tm) s \<longleftrightarrow> u \<noteq> t"
| "quiet p t (Run u tm) s \<longleftrightarrow> \<not> may_wake p (u_pc s u)"
| "quiet p t e s \<longleftrightarrow> True"

text \<open>A waiter that no signal reached: still waiting, timed out at its own deadline, or stopped with the session.\<close>

definition undisturbed :: "u64 \<Rightarrow> int option \<Rightarrow> u32 \<Rightarrow> umtx \<Rightarrow> bool" where
  "undisturbed p dl t s \<longleftrightarrow>
     (let fine = (\<lambda>q d ticket g0. q = p \<and> d = dl \<and> ch_gen (u_chan s p) = g0 \<and> ch_signal_cutoff (u_chan s p) \<le> ticket)
      in case u_pc s t of
        Cv_load q a d ticket g0 \<Rightarrow> fine q d ticket g0
      | Cv_cas q a d ticket g0 w \<Rightarrow> fine q d ticket g0
      | Cv_loop q d ticket g0 \<Rightarrow> fine q d ticket g0
      | Returned r \<Rightarrow> r = neg_err eTIMEDOUT \<and> dl \<noteq> None \<or> r = neg_err eINTR \<and> u_stop s
      | _ \<Rightarrow> False)"

lemma run_undisturbed:
  assumes "undisturbed p dl t s" and "\<not> may_wake p (u_pc s t)"
  shows "undisturbed p dl t (umtx_run t tm s)"
  using assms
  by (cases "u_pc s t")
    (auto simp: undisturbed_def umtx_run_def umtx_steps locking_def Let_def expired_def may_wake_def split: option.splits)

lemma step_undisturbed:
  assumes "undisturbed p dl t s" and "quiet p t e s"
  shows "undisturbed p dl t (umtx_step e s)"
proof (cases e)
  case (Call u q op val a b tm)
  then have "u_pc (umtx_step e s) t = u_pc s t" using assms(2) by simp
  then show ?thesis using assms(1) Call by (simp add: undisturbed_def cong: upc.case_cong)
next
  case (Run u tm)
  show ?thesis
  proof (cases "u = t")
    case True
    then show ?thesis using assms Run run_undisturbed[of p dl t s tm] by simp
  next
    case False
    then show ?thesis using assms Run run_quiet[of p s u tm] run_pc_other[of t u tm s]
      by (simp add: undisturbed_def cong: upc.case_cong)
  qed
next
  case Stop_session
  then show ?thesis using assms(1) by (cases "u_pc s t") (auto simp: undisturbed_def Let_def)
qed (use assms(1) in \<open>auto simp: undisturbed_def cong: upc.case_cong\<close>)

lemma enter_undisturbed:
  assumes "cv_inv n s" and "u_pc s t = Cv_enter p a dl" and "u_lock s (UmtxBucket p) \<in> {None, Some t}"
  shows "undisturbed p dl t (umtx_run t tm s)"
  using assms cv_invD(1)[OF assms(1), of p]
  by (auto simp: undisturbed_def umtx_run_def cv_enter_def locking_def Let_def)

text \<open>
  C17: A condition wait never returns spuriously. Let a thread queue itself on a condition variable in a run of fewer than \<open>2^64\<close>
  steps. Whatever happens next, as long as nobody signals or broadcasts that condition variable (or uses its
  address as a mutex), the thread is still waiting, or it timed out and had a deadline, or the session stopped.
\<close>

theorem umtx_cv_no_spurious:
  assumes "length es < 2 ^ 64" and "u_pc (umtx_exec es (umtx_init mem)) t = Cv_enter p a dl"
    and "u_lock (umtx_exec es (umtx_init mem)) (UmtxBucket p) \<in> {None, Some t}"
    and "follows (quiet p t) fs (umtx_exec (es @ [Run t tm]) (umtx_init mem))"
  shows "undisturbed p dl t (umtx_exec (es @ [Run t tm] @ fs) (umtx_init mem))"
proof -
  have "cv_inv (length es) (umtx_exec es (umtx_init mem))" using exec_cv_inv[OF init_cv_inv, of es mem] assms(1) by simp
  then have "undisturbed p dl t (umtx_exec (es @ [Run t tm]) (umtx_init mem))"
    using enter_undisturbed assms(2,3) by (simp add: umtx_exec_append)
  then have "undisturbed p dl t (umtx_exec fs (umtx_exec (es @ [Run t tm]) (umtx_init mem)))"
    using follows_inv[of "undisturbed p dl t" "quiet p t"] step_undisturbed assms(4) by blast
  then show ?thesis by (simp add: umtx_exec_append)
qed

text \<open>
  C33: Signals and broadcasts are delivered. In every run of fewer than \<open>2^64\<close> steps, with the session not stopped and a thread
  waiting in the loop of a condition wait: after a broadcast its next step returns 0; after a signal that found more waiters than
  pending signals, whichever waiter runs first returns 0 and uses up one signal; and a wait whose deadline passed returns in its next step.
\<close>

theorem umtx_cv_delivered:
  assumes "length es + 1 < 2 ^ 64" and "u_pc (umtx_exec es (umtx_init mem)) t = Cv_loop p dl ticket g0"
    and "\<not> u_stop (umtx_exec es (umtx_init mem))" and "u_lock (umtx_exec es (umtx_init mem)) (UmtxBucket p) = None" and "u \<noteq> t"
  shows "let s = umtx_exec es (umtx_init mem); s' = umtx_run u tm s; s'' = umtx_run t tm' s' in
    (u_pc s u = Bump_lock p \<longrightarrow> u_pc s'' t = Returned 0) \<and>
    (u_pc s u = Signal_lock p \<and> ch_signals (u_chan s p) < ucast (ch_waiters (u_chan s p)) \<longrightarrow> u_pc s'' t = Returned 0 \<and>
       (ch_gen (u_chan s p) = g0 \<and> ch_waiters (u_chan s p) \<noteq> 1 \<longrightarrow> ch_signals (u_chan s'' p) = ch_signals (u_chan s p))) \<and>
    (expired dl tm' \<longrightarrow> (\<exists>r. u_pc (umtx_run t tm' s) t = Returned r))"
proof -
  let ?s = "umtx_exec es (umtx_init mem)"
  have inv: "cv_inv (length es) ?s" using exec_cv_inv[OF init_cv_inv, of es mem] assms(1) by simp
  have lt: "ticket < ch_next_ticket (u_chan ?s p)" and le: "g0 \<le> ch_gen (u_chan ?s p)"
    using cv_invD(4)[OF inv, of p t ticket g0] assms(2) by (auto simp: cv_wait_of_def)
  have ne: "ch_gen (u_chan ?s p) + 1 \<noteq> g0"
    using le word_step[OF cv_invD(3)[OF inv, of p]] assms(1) by (auto simp: word_le_nat_alt)
  have sig: "ch_signals c + 1 \<noteq> 0" if "ch_signals c < ucast (ch_waiters c)" for c
  proof
    assume "ch_signals c + 1 = 0"
    then have "ch_signals c = - 1" by (simp add: eq_neg_iff_add_eq_0)
    then show False using that by (simp add: word_order.extremum_strict)
  qed
  show ?thesis
    using assms(2-5) lt ne sig[of "u_chan ?s p"]
    by (auto simp: umtx_run_def umtx_steps locking_def Let_def note_signal_def word_neq_0_conv)
qed
text \<open>The schedules below use a condition variable at \<open>0x2000\<close>.\<close>

definition ex_wait :: "u32 \<Rightarrow> uevent list" where
  "ex_wait t = [Call t 0x2000 8 0 0 0 ex_tm, Run t ex_tm, Run t ex_tm]"

definition ex_notify :: "int \<Rightarrow> uevent list" where
  "ex_notify op = [Call 9 0x2000 op 0 0 0 ex_tm, Run 9 ex_tm]"

lemma umtx_cv_no_spurious_witness:
  "undisturbed 0x2000 None 1 (umtx_exec ([Call 1 0x2000 8 0 0 0 ex_tm] @ [Run 1 ex_tm] @ [Run 1 ex_tm, Call 2 0x2000 8 0 0 0 ex_tm, Run 2 ex_tm])
     (umtx_init (\<lambda>_. 0)))"
  by (rule umtx_cv_no_spurious[where a = 0]) (simp_all add: umtx_eval may_wake_def)

lemma umtx_cv_delivered_witness:
  "u_pc (umtx_run 1 ex_tm (umtx_run 9 ex_tm (umtx_exec (ex_wait 1 @ [Call 9 0x2000 9 0 0 0 ex_tm]) (umtx_init (\<lambda>_. 0))))) 1 = Returned 0"
proof -
  let ?es = "ex_wait 1 @ [Call 9 0x2000 9 0 0 0 ex_tm]"
  have "u_pc (umtx_exec ?es (umtx_init (\<lambda>_. 0))) 1 = Cv_loop 0x2000 None 0 0" by (simp add: ex_wait_def umtx_eval)
  moreover have "\<not> u_stop (umtx_exec ?es (umtx_init (\<lambda>_. 0)))" by (simp add: ex_wait_def umtx_eval)
  moreover have "u_lock (umtx_exec ?es (umtx_init (\<lambda>_. 0))) (UmtxBucket 0x2000) = None" by (simp add: ex_wait_def umtx_eval)
  moreover have "u_pc (umtx_exec ?es (umtx_init (\<lambda>_. 0))) 9 = Signal_lock 0x2000" by (simp add: ex_wait_def umtx_eval)
  moreover have "ch_signals (u_chan (umtx_exec ?es (umtx_init (\<lambda>_. 0))) 0x2000) <
      ucast (ch_waiters (u_chan (umtx_exec ?es (umtx_init (\<lambda>_. 0))) 0x2000))" by (simp add: ex_wait_def umtx_eval)
  ultimately show ?thesis
    using umtx_cv_delivered[of ?es "\<lambda>_. 0" 1 "0x2000" None 0 0 9 ex_tm ex_tm] by (simp add: ex_wait_def Let_def)
qed

text \<open>
  A broadcast with a signal still pending makes later signals disappear. Threads 1 and 2 wait, a signal and a broadcast
  are sent, thread 3 starts to wait before the last of the two has left. The unused signal stays counted, so
  the next signals are taken for surplus and dropped, and thread 3, the only waiter, sleeps on.
\<close>

theorem umtx_signal_lost:
  "let s = umtx_exec (ex_wait 1 @ ex_wait 2 @ ex_notify 9 @ ex_notify 10 @ [Run 1 ex_tm] @ ex_wait 3 @ [Run 2 ex_tm] @
       ex_notify 9 @ ex_notify 9 @ [Run 3 ex_tm]) (umtx_init (\<lambda>_. 0))
   in u_pc s 1 = Returned 0 \<and> u_pc s 2 = Returned 0 \<and> u_pc s 3 = Cv_loop 0x2000 None 2 1 \<and> ch_waiters (u_chan s 0x2000) = 1"
  by (simp add: ex_wait_def ex_notify_def umtx_eval)

text \<open>
  A later signal lets later waiters take an earlier signal. Thread 1 is the only waiter when the first signal is sent;
  threads 2 and 3 start to wait, a second signal is sent, and they use up both signals while thread 1 sleeps on.
\<close>

theorem umtx_signal_stolen:
  "let s = umtx_exec (ex_wait 1 @ ex_notify 9 @ ex_wait 2 @ ex_wait 3 @ ex_notify 9 @ [Run 2 ex_tm, Run 3 ex_tm, Run 1 ex_tm]) (umtx_init (\<lambda>_. 0))
   in u_pc s 2 = Returned 0 \<and> u_pc s 3 = Returned 0 \<and> u_pc s 1 = Cv_loop 0x2000 None 0 0"
  by (simp add: ex_wait_def ex_notify_def umtx_eval)

end
