(* ===== verification/Umtx_Rw.thy ===== *)
theory Umtx_Rw
  imports Umtx_Steps
begin

text \<open>
  Read-write locks of \<open>sys_umtx_op\<close>: the arithmetic of the lock word and the exclusion of writers.
\<close>

section \<open>Read-write locks\<close>

text \<open>What the lock word says: whether a writer holds the lock, and how many readers do.\<close>

definition rw_view :: "u32 \<Rightarrow> bool \<times> nat" where
  "rw_view w = (w AND kWriteOwner \<noteq> 0, unat (w AND kMaxReaders))"

lemma rw_view_bits: "rw_view w = (2 ^ 31 \<le> unat w, unat w mod 2 ^ 29)"
proof -
  have "w AND kWriteOwner \<noteq> 0 \<longleftrightarrow> bit w 31"
    using and_exp_eq_0_iff_not_bit[of w 31] by (simp add: kWriteOwner_def)
  also have "\<dots> \<longleftrightarrow> odd (unat w div 2 ^ 31)" 
    using bit_unsigned_iff[of w 31, where 'a = nat] by (simp add: bit_iff_odd[of "unat w"])
  also have "\<dots> \<longleftrightarrow> 2 ^ 31 \<le> unat w"
  proof -
    have "unat w div 2 ^ 31 < 2" using unsigned_less[of w, where 'a = nat] by (simp add: div_less_iff_less_mult)
    then have "odd (unat w div 2 ^ 31) \<longleftrightarrow> unat w div 2 ^ 31 = 1" by (cases "unat w div 2 ^ 31") auto
    then show ?thesis using \<open>unat w div 2 ^ 31 < 2\<close> by (auto simp: div_eq_0_iff less_2_cases_iff)
  qed
  finally have "w AND kWriteOwner \<noteq> 0 \<longleftrightarrow> 2 ^ 31 \<le> unat w" .
  moreover have "w AND kMaxReaders = take_bit 29 w" by (simp add: take_bit_eq_mask kMaxReaders_def mask_eq_exp_minus_1)
  then have "unat (w AND kMaxReaders) = take_bit 29 (unat w)" by (simp only: unsigned_take_bit_eq)
  then have "unat (w AND kMaxReaders) = unat w mod 2 ^ 29" by (simp add: take_bit_eq_mod)
  ultimately show ?thesis by (simp add: rw_view_def)
qed

lemmas rw_consts = kWriteOwner_def kWriteWaiters_def kReadWaiters_def kMaxReaders_def

lemma rw_view_flags [simp]:
  "rw_view (w OR kWriteWaiters) = rw_view w" "rw_view (w OR kReadWaiters) = rw_view w"
  "rw_view (w AND NOT kWriteWaiters) = rw_view w" "rw_view (w AND NOT kReadWaiters) = rw_view w"
  "rw_view (w OR kWriteOwner) = (True, snd (rw_view w))" "rw_view (w AND NOT kWriteOwner) = (False, snd (rw_view w))"
proof -
  have d: "(w OR a) AND b = (w AND b) OR (a AND b)" "(w AND NOT a) AND b = w AND (NOT a AND b)" for a b
    by (simp_all add: bit.conj_disj_distrib2 and.assoc)
  have c: "kWriteWaiters AND kWriteOwner = 0" "kWriteWaiters AND kMaxReaders = 0" "kReadWaiters AND kWriteOwner = 0"
      "kReadWaiters AND kMaxReaders = 0" "kWriteOwner AND kWriteOwner = kWriteOwner" "kWriteOwner AND kMaxReaders = 0"
      "NOT kWriteWaiters AND kWriteOwner = kWriteOwner" "NOT kWriteWaiters AND kMaxReaders = kMaxReaders"
      "NOT kReadWaiters AND kWriteOwner = kWriteOwner" "NOT kReadWaiters AND kMaxReaders = kMaxReaders"
      "NOT kWriteOwner AND kWriteOwner = 0" "NOT kWriteOwner AND kMaxReaders = kMaxReaders" "kWriteOwner \<noteq> 0"
    by (simp_all add: rw_consts)
  show "rw_view (w OR kWriteWaiters) = rw_view w" "rw_view (w OR kReadWaiters) = rw_view w"
    "rw_view (w AND NOT kWriteWaiters) = rw_view w" "rw_view (w AND NOT kReadWaiters) = rw_view w"
    "rw_view (w OR kWriteOwner) = (True, snd (rw_view w))" "rw_view (w AND NOT kWriteOwner) = (False, snd (rw_view w))"
    by (simp_all add: rw_view_def d c)
qed

lemma rw_view_inc: "w AND kMaxReaders \<noteq> kMaxReaders \<Longrightarrow> rw_view (w + 1) = (fst (rw_view w), Suc (snd (rw_view w)))"
proof -
  assume "w AND kMaxReaders \<noteq> kMaxReaders"
  then have "snd (rw_view w) \<noteq> unat kMaxReaders" by (simp add: rw_view_def word_unat_eq_iff)
  then have ne: "unat w mod 2 ^ 29 \<noteq> 2 ^ 29 - 1" unfolding rw_view_bits by (simp add: kMaxReaders_def)
  have lt: "unat w < 2 ^ 32" using unsigned_less[of w, where 'a = nat] by simp
  then have "unat w + 1 < 2 ^ 32" using ne by (cases "unat w = 2 ^ 32 - 1") auto
  then have u: "unat (w + 1) = unat w + 1" by (simp add: unat_word_ariths)
  have "(unat w + 1) mod 2 ^ 29 = Suc (unat w mod 2 ^ 29)" using ne mod_Suc[of "unat w" "2 ^ 29"] by auto
  moreover have "2 ^ 31 \<le> unat w + 1 \<longleftrightarrow> 2 ^ 31 \<le> unat w" using ne by (cases "unat w = 2 ^ 31 - 1") auto
  ultimately show ?thesis unfolding rw_view_bits u by simp
qed

lemma rw_view_dec: "w AND kMaxReaders \<noteq> 0 \<Longrightarrow> rw_view (w - 1) = (fst (rw_view w), snd (rw_view w) - 1)"
proof -
  assume "w AND kMaxReaders \<noteq> 0"
  then have "unat (w AND kMaxReaders) \<noteq> 0" by (simp only: unsigned_eq_0_iff not_False_eq_True)
  then have ne: "unat w mod 2 ^ 29 \<noteq> 0" using rw_view_bits[of w] by (simp add: rw_view_def)
  then obtain v where v: "unat w = Suc v" by (cases "unat w") auto
  then have "1 \<le> w" by (simp add: word_le_nat_alt)
  then have u: "unat (w - 1) = v" using v by (simp add: unat_sub)
  have m: "v mod 2 ^ 29 = unat w mod 2 ^ 29 - 1" using ne v mod_Suc[of v "2 ^ 29"] by (auto split: if_splits)
  have "2 ^ 31 \<le> v \<longleftrightarrow> 2 ^ 31 \<le> unat w" using ne v by (cases "unat w = 2 ^ 31") auto
  then show ?thesis using m unfolding rw_view_bits u by simp
qed
text \<open>The changes a lock word may go through: a reader or a writer enters or leaves.\<close>

definition rw_enters :: "bool \<Rightarrow> bool \<times> nat \<Rightarrow> bool \<times> nat \<Rightarrow> bool" where
  "rw_enters wr v v' \<longleftrightarrow> \<not> fst v \<and> (if wr then snd v = 0 \<and> v' = (True, 0) else v' = (False, Suc (snd v)))"

definition rw_legal :: "bool \<times> nat \<Rightarrow> bool \<times> nat \<Rightarrow> bool" where
  "rw_legal v v' \<longleftrightarrow> v' = v \<or> (\<exists>wr. rw_enters wr v v' \<or> rw_enters wr v' v)"

definition rw_exclusive :: "bool \<times> nat \<Rightarrow> bool" where
  "rw_exclusive v \<longleftrightarrow> (fst v \<longrightarrow> snd v = 0)"

lemma rw_legal_exclusive: "rw_legal v v' \<Longrightarrow> rw_exclusive v \<Longrightarrow> rw_exclusive v'"
  by (cases v; cases v') (auto simp: rw_legal_def rw_exclusive_def rw_enters_def split: if_splits)

lemma rw_granted_enters:
  assumes "rw_admits wr st flags" and "wr \<or> st AND kMaxReaders \<noteq> kMaxReaders"
  shows "rw_enters wr (rw_view st) (rw_view (rw_granted wr st))"
  using assms rw_view_inc[of st]
  by (auto simp: rw_admits_def rw_granted_def rw_enters_def rw_view_def[of st] rw_view_flags simp del: rw_view_inc split: if_splits)

lemma rw_released_leaves:
  assumes "rw_released st readers writers = Some n" and "rw_exclusive (rw_view st)"
  shows "\<exists>wr. rw_enters wr (rw_view n) (rw_view st)"
proof (cases "st AND kWriteOwner = 0")
  case False
  then have "rw_view n = (False, 0)" using assms
    by (auto simp: rw_released_def Let_def rw_exclusive_def rw_view_def[of st] split: if_splits)
  moreover have "rw_view st = (True, 0)" using False assms(2) by (auto simp: rw_exclusive_def rw_view_def)
  ultimately show ?thesis by (auto simp: rw_enters_def)
next
  case True
  then have r: "st AND kMaxReaders \<noteq> 0" and "rw_view n = rw_view (st - 1)"
    using assms(1) by (auto simp: rw_released_def Let_def split: if_splits)
  then have n: "rw_view n = (False, snd (rw_view st) - 1)" using rw_view_dec[OF r] True by (simp add: rw_view_def[of st])
  have "snd (rw_view st) \<noteq> 0" using r by (simp add: rw_view_def unsigned_eq_0_iff)
  then have "rw_view st = (False, Suc (snd (rw_view st) - 1))" using True by (simp add: rw_view_def)
  then have "rw_enters False (rw_view n) (rw_view st)" using n by (simp add: rw_enters_def)
  then show ?thesis by blast
qed

text \<open>
  Words of \<open>R\<close> are the lock words of read-write locks: user code enters and leaves them by compare-and-swap, and
  nothing else is done with them.
\<close>

fun rw_protocol :: "u64 set \<Rightarrow> uevent \<Rightarrow> umtx \<Rightarrow> bool" where
  "rw_protocol R (Call t p op val a b tm) s \<longleftrightarrow>
     (op \<in> {12, 13, 14} \<longrightarrow> p + 8 \<notin> R \<and> p + 12 \<notin> R) \<and>
     (op \<in> {4, 5, 6, 8, 17, 18, 19, 23} \<longrightarrow> p \<notin> R) \<and> (op = 8 \<longrightarrow> a \<notin> R)"
| "rw_protocol R (User_cas t p e n) s \<longleftrightarrow> (p \<in> R \<longrightarrow> rw_legal (rw_view e) (rw_view n))"
| "rw_protocol R (User_store t p v) s \<longleftrightarrow> p \<notin> R"
| "rw_protocol R _ s \<longleftrightarrow> True"

definition rw_pc :: "u64 set \<Rightarrow> upc \<Rightarrow> bool" where
  "rw_pc R k \<longleftrightarrow> (case k of
       MutexWait_lock p \<Rightarrow> p \<notin> R | MutexWait_cas p w g0 \<Rightarrow> p \<notin> R | MutexWake_lock p \<Rightarrow> p \<notin> R | MutexWake_cas p \<Rightarrow> p \<notin> R
     | Lock_loop op p b \<Rightarrow> p \<notin> R | Lock_claim op p w b \<Rightarrow> p \<notin> R | Lock_contest op p w b \<Rightarrow> p \<notin> R
     | Unlock_lock p \<Rightarrow> p \<notin> R | Unlock_cas p w \<Rightarrow> p \<notin> R
     | Cv_enter p a dl \<Rightarrow> p \<notin> R \<and> a \<notin> R | Cv_load p a dl ticket g0 \<Rightarrow> p \<notin> R \<and> a \<notin> R
     | Cv_cas p a dl ticket g0 w \<Rightarrow> p \<notin> R \<and> a \<notin> R | Cv_loop p dl ticket g0 \<Rightarrow> p \<notin> R
     | Sem_enter p dl \<Rightarrow> p \<notin> R
     | Rw_loop wr p flags slept \<Rightarrow> p + 8 \<notin> R \<and> p + 12 \<notin> R
     | Rw_claim wr p flags st \<Rightarrow> p + 8 \<notin> R \<and> p + 12 \<notin> R \<and> rw_admits wr st flags \<and> (wr \<or> st AND kMaxReaders \<noteq> kMaxReaders)
     | Rw_publish wr p flags st \<Rightarrow> p + 8 \<notin> R \<and> p + 12 \<notin> R
     | _ \<Rightarrow> True)"

lemma run_rw_pc: "rw_pc R (u_pc s t) \<Longrightarrow> rw_pc R (u_pc (umtx_run t tm s) t)"
  by (cases "u_pc s t")
    (auto simp: umtx_run_def umtx_steps locking_def Let_def rw_pc_def split: option.split)

lemma entry_rw_pc: "rw_protocol R (Call t p op val a b tm) s \<Longrightarrow> rw_pc R (umtx_entry s p op val a b tm)"
  by (auto simp: umtx_entry_def rw_pc_def)

text \<open>What the step of a thread does to a lock word.\<close>

lemma run_rw_word:
  assumes "rw_pc R (u_pc s t)" and "p \<in> R" and "rw_exclusive (rw_view (u_mem s p))"
  shows "rw_legal (rw_view (u_mem s p)) (rw_view (u_mem (umtx_run t tm s) p))"
proof (cases "\<exists>wr q flags st. u_pc s t = Rw_claim wr q flags st")
  case True
  then obtain wr q flags st where k: "u_pc s t = Rw_claim wr q flags st" by blast
  then have "rw_enters wr (rw_view st) (rw_view (rw_granted wr st))"
    using assms(1) by (auto simp: rw_pc_def intro: rw_granted_enters)
  then show ?thesis using k by (auto simp: umtx_run_def rw_claim_def rw_legal_def)
next
  case nc: False
  show ?thesis
  proof (cases "\<exists>q st. u_pc s t = RwUnlock_cas q st")
    case True
    then obtain q st where k: "u_pc s t = RwUnlock_cas q st" by blast
    show ?thesis
    proof (cases "q = p \<and> u_mem s p = st")
      case True
      then show ?thesis using k assms(3) rw_released_leaves[of st "u_mem s (p + 8)" "u_mem s (p + 12)"]
        by (auto simp: umtx_run_def rw_unlock_cas_def rw_legal_def split: option.split)
    next
      case False
      then show ?thesis using k by (auto simp: umtx_run_def rw_unlock_cas_def rw_legal_def split: option.split)
    qed
  next
    case False
    have "rw_view (u_mem (umtx_run t tm s) p) = rw_view (u_mem s p)"
      using assms(1,2) nc False
      by (cases "u_pc s t") (auto simp: umtx_run_def umtx_steps locking_def Let_def rw_pc_def blocked_at_def rw_want_def split: option.split)
    then show ?thesis by (simp add: rw_legal_def)
  qed
qed

definition rw_inv :: "u64 set \<Rightarrow> umtx \<Rightarrow> bool" where
  "rw_inv R s \<longleftrightarrow> (\<forall>t. rw_pc R (u_pc s t)) \<and> (\<forall>p\<in>R. rw_exclusive (rw_view (u_mem s p)))"

lemma step_rw_word:
  assumes "rw_inv R s" and "rw_protocol R e s" and "p \<in> R"
  shows "rw_legal (rw_view (u_mem s p)) (rw_view (u_mem (umtx_step e s) p))"
proof (cases e)
  case (Run t tm)
  then show ?thesis using assms run_rw_word[of R s t p tm] by (simp add: rw_inv_def)
qed (use assms in \<open>auto simp: rw_legal_def sys_umtx_op_def split: upc.split\<close>)

lemma step_rw_inv:
  assumes inv: "rw_inv R s" and ok: "rw_protocol R e s"
  shows "rw_inv R (umtx_step e s)"
proof -
  have "rw_exclusive (rw_view (u_mem (umtx_step e s) p))" if "p \<in> R" for p
    using rw_legal_exclusive step_rw_word[OF inv ok that] inv that by (auto simp: rw_inv_def)
  moreover have "rw_pc R (u_pc (umtx_step e s) t)" for t
  proof (cases e)
    case (Call u p op val a b tm)
    then show ?thesis using inv ok entry_rw_pc[of R u p op val a b tm s] by (auto simp: rw_inv_def sys_umtx_op_def split: upc.split)
  next
    case (Run u tm)
    then show ?thesis using inv run_rw_pc[of R s u tm] run_pc_other[of t u tm s] by (cases "t = u") (auto simp: rw_inv_def)
  qed (use inv in \<open>auto simp: rw_inv_def\<close>)
  ultimately show ?thesis by (simp add: rw_inv_def)
qed

definition rw_acquiring :: "bool \<Rightarrow> u64 \<Rightarrow> upc \<Rightarrow> bool" where
  "rw_acquiring wr p k \<longleftrightarrow> (case k of Rw_loop w q flags slept \<Rightarrow> w = wr \<and> q = p | Rw_claim w q flags st \<Rightarrow> w = wr \<and> q = p
     | Rw_publish w q flags st \<Rightarrow> w = wr \<and> q = p | _ \<Rightarrow> False)"

definition rw_releasing :: "u64 \<Rightarrow> upc \<Rightarrow> bool" where
  "rw_releasing p k \<longleftrightarrow> (case k of RwUnlock_lock q \<Rightarrow> q = p | RwUnlock_cas q st \<Rightarrow> q = p | _ \<Rightarrow> False)"

lemma run_rw_acquired:
  assumes "rw_pc R (u_pc s t)" and "rw_acquiring wr p (u_pc s t)" and "u_pc (umtx_run t tm s) t = Returned 0"
  shows "rw_enters wr (rw_view (u_mem s p)) (rw_view (u_mem (umtx_run t tm s) p))"
  using assms rw_granted_enters[of wr "u_mem s p"]
  by (cases "u_pc s t")
    (auto simp: rw_acquiring_def umtx_run_def umtx_steps locking_def Let_def rw_pc_def split: if_splits)

lemma run_rw_released:
  assumes "rw_exclusive (rw_view (u_mem s p))" and "rw_releasing p (u_pc s t)" and "u_pc (umtx_run t tm s) t = Returned 0"
  shows "\<exists>wr. rw_enters wr (rw_view (u_mem (umtx_run t tm s) p)) (rw_view (u_mem s p))"
  using assms rw_released_leaves[of "u_mem s p" "u_mem s (p + 8)" "u_mem s (p + 12)"]
  by (cases "u_pc s t")
    (auto simp: rw_releasing_def umtx_run_def umtx_steps locking_def Let_def split: if_splits option.splits)

lemma init_rw_inv: "\<forall>p\<in>R. rw_exclusive (rw_view (mem p)) \<Longrightarrow> rw_inv R (umtx_init mem)"
  by (simp add: rw_inv_def umtx_init_def rw_pc_def)

text \<open>
  C15: Read-write locks exclude. In every interleaving in which user code enters and leaves the locks by
  compare-and-swap: a lock word never shows a writer together with readers; every step takes it through one of the legal
  changes; a \<open>RW_RDLOCK\<close> or \<open>RW_WRLOCK\<close> that returns 0 entered in its last step, the reader with no writer inside and
  the writer with nobody inside; and a \<open>RW_UNLOCK\<close> that returns 0 took one reader or the writer out.
\<close>

theorem umtx_rw_exclusion:
  assumes "\<forall>q\<in>R. rw_exclusive (rw_view (mem q))" and "follows (rw_protocol R) es (umtx_init mem)" and "p \<in> R"
  shows "let s = umtx_exec es (umtx_init mem) in
    rw_exclusive (rw_view (u_mem s p)) \<and>
    (\<forall>e. rw_protocol R e s \<longrightarrow> rw_legal (rw_view (u_mem s p)) (rw_view (u_mem (umtx_step e s) p))) \<and>
    (\<forall>t tm wr. rw_acquiring wr p (u_pc s t) \<and> u_pc (umtx_run t tm s) t = Returned 0 \<longrightarrow>
       rw_enters wr (rw_view (u_mem s p)) (rw_view (u_mem (umtx_run t tm s) p))) \<and>
    (\<forall>t tm. rw_releasing p (u_pc s t) \<and> u_pc (umtx_run t tm s) t = Returned 0 \<longrightarrow>
       (\<exists>wr. rw_enters wr (rw_view (u_mem (umtx_run t tm s) p)) (rw_view (u_mem s p))))"
proof -
  let ?s = "umtx_exec es (umtx_init mem)"
  have inv: "rw_inv R ?s"
    using follows_inv[of "rw_inv R" "rw_protocol R"] step_rw_inv init_rw_inv[OF assms(1)] assms(2) by blast
  then have ex: "rw_exclusive (rw_view (u_mem ?s p))" and pc: "\<And>t. rw_pc R (u_pc ?s t)" using assms(3) by (auto simp: rw_inv_def)
  show ?thesis
    unfolding Let_def using ex step_rw_word[OF inv _ assms(3)] run_rw_acquired[OF pc] run_rw_released[OF ex] by blast
qed

lemma umtx_rw_exclusion_witness:
  "rw_enters True (rw_view (u_mem (umtx_exec [Call 1 0x2000 13 0 0 0 ex_tm, Run 1 ex_tm] (umtx_init (\<lambda>_. 0))) 0x2000))
     (rw_view (u_mem (umtx_run 1 ex_tm (umtx_exec [Call 1 0x2000 13 0 0 0 ex_tm, Run 1 ex_tm] (umtx_init (\<lambda>_. 0)))) 0x2000))"
proof -
  let ?es = "[Call 1 0x2000 13 0 0 0 ex_tm, Run 1 ex_tm]"
  have "\<forall>q\<in>{0x2000}. rw_exclusive (rw_view ((\<lambda>_. 0) q))" by (simp add: rw_exclusive_def rw_view_def)
  moreover have "follows (rw_protocol {0x2000}) ?es (umtx_init (\<lambda>_. 0))" by (simp add: umtx_eval)
  moreover have "rw_acquiring True 0x2000 (u_pc (umtx_exec ?es (umtx_init (\<lambda>_. 0))) 1)"
    by (simp add: umtx_eval rw_acquiring_def rw_admits_def rw_consts)
  moreover have "u_pc (umtx_run 1 ex_tm (umtx_exec ?es (umtx_init (\<lambda>_. 0)))) 1 = Returned 0"
    by (simp add: umtx_eval rw_admits_def rw_consts)
  ultimately show ?thesis
    using umtx_rw_exclusion[of "{0x2000}" "\<lambda>_. 0" ?es "0x2000"] unfolding Let_def by blast
qed

end
