(* ===== verification/Umtx_Wait.thy ===== *)
theory Umtx_Wait
  imports Umtx_Steps
begin

text \<open>
  Waiting for a word and waking (\<open>UMTX_OP_WAIT\<close>, \<open>UMTX_OP_WAKE\<close> and their variants): the linked
  queues of the channels hold exactly the threads that wait, in the order of arrival.
\<close>

section \<open>Waiting for a word and waking\<close>

lemma queue_rep_cong:
  "\<lbrakk>queue_rep (c, ns) xs; ch_head d = ch_head c; ch_tail d = ch_tail c; \<And>x. x \<in> set xs \<Longrightarrow> ms x = ns x\<rbrakk> \<Longrightarrow> queue_rep (d, ms) xs"
  using seg_cong[of xs ms ns] by (simp add: queue_rep_def)

lemma rep_ends:
  assumes "queue_rep (c, ns) xs"
  shows "ch_tail c = Some x \<Longrightarrow> x \<in> set xs" "x \<in> set xs \<Longrightarrow> sw_prev (ns x) = Some y \<Longrightarrow> y \<in> set xs"
    "x \<in> set xs \<Longrightarrow> sw_next (ns x) = Some y \<Longrightarrow> y \<in> set xs"
proof -
  have s: "seg ns None (ch_head c) xs (ch_tail c) None" using assms by (simp add: queue_rep_def)
  show "ch_tail c = Some x \<Longrightarrow> x \<in> set xs" using seg_ends[OF s] by auto
  assume "x \<in> set xs"
  then obtain as bs where xs: "xs = as @ x # bs" by (meson split_list)
  have a: "seg ns None (ch_head c) as (sw_prev (ns x)) (Some x)" and b: "seg ns (Some x) (sw_next (ns x)) bs (ch_tail c) None"
    using s xs by (auto simp: seg_append)
  show "sw_prev (ns x) = Some y \<Longrightarrow> y \<in> set xs" using seg_ends[OF a] xs by auto
  show "sw_next (ns x) = Some y \<Longrightarrow> y \<in> set xs" using seg_ends[OF b] xs by auto
qed

lemma QueueSimple_nodes: "\<lbrakk>queue_rep (c, ns) xs; x \<notin> set xs; x \<noteq> w\<rbrakk> \<Longrightarrow> snd (QueueSimple w (c, ns)) x = ns x"
  using rep_ends(1)[of c ns xs x] by (auto simp: QueueSimple_def Let_def split: option.split)

lemma RemoveSimple_nodes: "\<lbrakk>queue_rep (c, ns) xs; w \<in> set xs; x \<notin> set xs\<rbrakk> \<Longrightarrow> snd (RemoveSimple w (c, ns)) x = ns x"
  using rep_ends(2,3)[of c ns xs w x] by (auto simp: RemoveSimple_def Let_def split: option.split)

lemma wake_nodes: "\<lbrakk>queue_rep st xs; x \<notin> set xs\<rbrakk> \<Longrightarrow> snd (snd (wake_loop n k st)) x = snd st x"
proof (induction n arbitrary: k st xs)
  case (Suc n)
  show ?case
  proof (cases xs)
    case (Cons y ys)
    obtain c ns where st: "st = (c, ns)" by (cases st)
    obtain c' ns' where r: "RemoveSimple y st = (c', ns')" by force
    have "queue_rep (c', upd_node y (sw_selected_update (\<lambda>_. True)) ns') ys"
      using RemoveSimple_rep[of st "[]" y ys] Suc.prems(1) Cons r by (simp add: queue_rep_select)
    then show ?thesis
      using Suc.IH[of _ ys "Suc k"] Suc.prems Cons r RemoveSimple_nodes[of c ns xs y x] st
      by (auto simp: queue_rep_def split: option.split)
  qed (use Suc.prems in \<open>auto simp: queue_rep_def\<close>)
qed simp

definition waits :: "u64 \<Rightarrow> upc \<Rightarrow> bool" where
  "waits p k \<longleftrightarrow> (case k of Wait_loop op q val dl \<Rightarrow> q = p | _ \<Rightarrow> False)"

text \<open>\<open>queues s q\<close>: the list at every address holds the threads that wait there and have not been selected.\<close>

definition queues :: "umtx \<Rightarrow> (u64 \<Rightarrow> u32 list) \<Rightarrow> bool" where
  "queues s q \<longleftrightarrow> (\<forall>p. queue_rep (u_chan s p, u_node s) (q p)) \<and>
     (\<forall>p t. t \<in> set (q p) \<longleftrightarrow> waits p (u_pc s t) \<and> \<not> sw_selected (u_node s t)) \<and>
     (\<forall>t. sw_queued (u_node s t) \<longrightarrow> (\<exists>p. t \<in> set (q p)))"

lemma queuesD:
  assumes "queues s q"
  shows "queue_rep (u_chan s p, u_node s) (q p)" "t \<in> set (q p) \<longleftrightarrow> waits p (u_pc s t) \<and> \<not> sw_selected (u_node s t)"
    "sw_queued (u_node s t) \<Longrightarrow> \<exists>p. t \<in> set (q p)"
  using assms by (auto simp: queues_def)

lemma queues_apart: "queues s q \<Longrightarrow> t \<in> set (q p) \<Longrightarrow> t \<in> set (q r) \<Longrightarrow> p = r"
  by (auto simp: queues_def waits_def split: upc.splits)

text \<open>An operation on the queue at \<open>p\<close>, seen from every address.\<close>

lemma queues_on:
  assumes q: "queues s q" and new: "queue_rep (f (u_chan s p, u_node s)) xs"
    and nodes: "\<And>x. x \<notin> set (q p) \<Longrightarrow> x \<noteq> t \<Longrightarrow> snd (f (u_chan s p, u_node s)) x = u_node s x"
    and apart: "\<And>r. r \<noteq> p \<Longrightarrow> t \<notin> set (q r)"
    and mem: "\<And>x. x \<in> set xs \<longleftrightarrow> waits p (pc' x) \<and> \<not> sw_selected (snd (f (u_chan s p, u_node s)) x)"
    and pcs: "\<And>x r. r \<noteq> p \<Longrightarrow> waits r (pc' x) \<longleftrightarrow> waits r (u_pc s x)"
    and sel: "\<And>x r. r \<noteq> p \<Longrightarrow> waits r (u_pc s x) \<Longrightarrow> x \<noteq> t"
    and qd: "\<And>x. sw_queued (snd (f (u_chan s p, u_node s)) x) \<Longrightarrow> x \<in> set xs \<or> x \<notin> set (q p) \<and> x \<noteq> t"
  shows "queues ((on_queue p f s)\<lparr>u_pc := pc'\<rparr>) (q(p := xs))"
proof -
  let ?st = "f (u_chan s p, u_node s)"
  have other: "queue_rep (u_chan s r, snd ?st) (q r)" if "r \<noteq> p" for r
    using queuesD(1)[OF q, of r] queues_apart[OF q, of _ r p] apart[OF that] nodes that
    by (auto intro: queue_rep_cong)
  have keep: "sw_selected (snd ?st x) = sw_selected (u_node s x)" if "r \<noteq> p" "waits r (u_pc s x)" for x r
  proof -
    have "x \<notin> set (q p)" using that queuesD(2)[OF q, of x p] by (auto simp: waits_def split: upc.splits)
    then show ?thesis using nodes[of x] sel[OF that] by simp
  qed
  have "x \<in> set (q r) \<longleftrightarrow> waits r (pc' x) \<and> \<not> sw_selected (snd ?st x)" if "r \<noteq> p" for x r
    using queuesD(2)[OF q, of x r] pcs[OF that] keep[OF that] by auto
  moreover have "\<exists>r. x \<in> set ((q(p := xs)) r)" if "sw_queued (snd ?st x)" for x
  proof (cases "x \<in> set xs")
    case True
    then show ?thesis by (auto intro: exI[of _ p])
  next
    case False
    then have x: "x \<notin> set (q p)" "x \<noteq> t" using qd[OF that] by auto
    then have "sw_queued (u_node s x)" using nodes that by simp
    then obtain r where "x \<in> set (q r)" using queuesD(3)[OF q] by blast
    then show ?thesis using x(1) by (auto intro!: exI[of _ r])
  qed
  ultimately show ?thesis using other new mem by (auto simp: queues_def)
qed

lemma queues_cong:
  assumes "queues s q" and "\<And>p. ch_head (u_chan s' p) = ch_head (u_chan s p) \<and> ch_tail (u_chan s' p) = ch_tail (u_chan s p)"
    and "u_node s' = u_node s" and "\<And>p t. waits p (u_pc s' t) \<longleftrightarrow> waits p (u_pc s t)"
  shows "queues s' q"
  using assms by (auto simp: queues_def queue_rep_def)

definition queue_pc :: "upc \<Rightarrow> bool" where
  "queue_pc k \<longleftrightarrow> (case k of Wait_queue op p val dl \<Rightarrow> True | Wait_loop op p val dl \<Rightarrow> True | Wake_lock p val \<Rightarrow> True
     | Nwake_lock a v i \<Rightarrow> True | _ \<Rightarrow> False)"

lemma run_no_queue:
  assumes "\<not> queue_pc (u_pc s t)"
  shows "ch_head (u_chan (umtx_run t tm s) p) = ch_head (u_chan s p) \<and> ch_tail (u_chan (umtx_run t tm s) p) = ch_tail (u_chan s p) \<and>
    u_node (umtx_run t tm s) = u_node s \<and> \<not> waits r (u_pc (umtx_run t tm s) t)"
  using assms
  by (cases "u_pc s t")
    (auto simp: umtx_run_def umtx_steps locking_def Let_def note_signal_def waits_def queue_pc_def split: option.split)

lemma queues_elsewhere:
  assumes q: "queues s q" and k: "\<not> queue_pc (u_pc s t)"
  shows "queues (umtx_run t tm s) q"
proof (rule queues_cong[OF q])
  fix p u
  have "\<not> waits p (u_pc s t)" using k by (auto simp: waits_def queue_pc_def split: upc.splits)
  then show "waits p (u_pc (umtx_run t tm s) u) \<longleftrightarrow> waits p (u_pc s u)"
    using run_no_queue[OF k, of tm p p] run_pc_other[of u t tm s] by (cases "u = t") auto
qed (use run_no_queue[OF k] in auto)

lemma queues_enter:
  assumes q: "queues s q" and pc: "u_pc s t = Wait_queue op p val dl" and free: "u_lock s (UmtxBucket p) \<in> {None, Some t}"
  shows "queues (umtx_run t tm s) (q(p := q p @ [t]))"
proof -
  let ?s = "s\<lparr>u_node := (u_node s)(t := SimpleWaiter_new)\<rparr>"
  have out: "t \<notin> set (q r)" for r using queuesD(2)[OF q, of t r] pc by (simp add: waits_def)
  have rep: "queue_rep (u_chan s r, u_node ?s) (q r)" for r
    by (rule queue_rep_cong[OF queuesD(1)[OF q, of r]]) (use out[of r] in auto)
  have q1: "queues ?s q"
    unfolding queues_def using rep queuesD(2,3)[OF q] out pc by (auto simp: waits_def SimpleWaiter_new_def)
  let ?st = "QueueSimple t (u_chan ?s p, u_node ?s)"
  have enq: "queue_rep ?st (q p @ [t]) \<and> selected ?st = selected (u_chan ?s p, u_node ?s)"
    using chan.enq[of "(u_chan ?s p, u_node ?s)" "q p" t] rep[of p] out[of p] by (simp add: unlinked_def SimpleWaiter_new_def)
  then have new: "queue_rep ?st (q p @ [t])" by simp
  have sel: "sw_selected (snd ?st x) = sw_selected (u_node ?s x)" for x
    using enq by (auto simp: selected_def set_eq_iff)
  have "queues ((on_queue p (QueueSimple t) ?s)\<lparr>u_pc := (u_pc s)(t := Wait_loop op p val dl)\<rparr>) (q(p := q p @ [t]))"
  proof (rule queues_on[OF q1, where f = "QueueSimple t" and t = t])
    show "queue_rep ?st (q p @ [t])" by (rule new)
    show "\<And>x. x \<notin> set (q p) \<Longrightarrow> x \<noteq> t \<Longrightarrow> snd ?st x = u_node ?s x"
      using QueueSimple_nodes[OF rep[of p]] by simp
    show "\<And>x. x \<in> set (q p @ [t]) \<longleftrightarrow> waits p (((u_pc s)(t := Wait_loop op p val dl)) x) \<and> \<not> sw_selected (snd ?st x)"
      using queuesD(2)[OF q, of _ p] out[of p] sel by (auto simp: waits_def SimpleWaiter_new_def)
    show "\<And>x. sw_queued (snd ?st x) \<Longrightarrow> x \<in> set (q p @ [t]) \<or> x \<notin> set (q p) \<and> x \<noteq> t" by auto
  qed (use out pc in \<open>auto simp: waits_def\<close>)
  then show ?thesis
    by (rule queues_cong) (use pc free in \<open>auto simp: umtx_run_def wait_queue_step_def locking_def\<close>)
qed

lemma queues_wake:
  assumes q: "queues s q" and awake: "\<And>r. \<not> waits r (u_pc s t)"
  shows "queues (on_queue p (\<lambda>st. snd (WakeSimple v st)) s) (q(p := drop (wake_budget v) (q p)))"
    and "x \<in> set (take (wake_budget v) (q p)) \<Longrightarrow> sw_selected (u_node (on_queue p (\<lambda>st. snd (WakeSimple v st)) s) x)"
proof -
  let ?f = "\<lambda>st. snd (WakeSimple v st)" and ?n = "wake_budget v"
  have rep: "queue_rep (u_chan s p, u_node s) (q p)" by (rule queuesD(1)[OF q])
  obtain st' where st': "?f (u_chan s p, u_node s) = st'" "queue_rep st' (drop ?n (q p))"
      "selected st' = selected (u_chan s p, u_node s) \<union> set (take ?n (q p))"
      "\<And>x. sw_queued (snd st' x) \<longleftrightarrow> x \<notin> set (take ?n (q p)) \<and> sw_queued (u_node s x)"
    using wake_loop_rep[OF rep, of ?n 0] by (auto simp: WakeSimple_def)
  have sel: "sw_selected (snd st' x) \<longleftrightarrow> sw_selected (u_node s x) \<or> x \<in> set (take ?n (q p))" for x
    using st'(3) by (auto simp: selected_def set_eq_iff)
  have d: "set (take ?n (q p)) \<inter> set (drop ?n (q p)) = {}"
    using rep by (simp add: queue_rep_def set_take_disj_set_drop_if_distinct)
  have parts: "set (q p) = set (take ?n (q p)) \<union> set (drop ?n (q p))" by (metis append_take_drop_id set_append)
  have "queues ((on_queue p ?f s)\<lparr>u_pc := u_pc s\<rparr>) (q(p := drop ?n (q p)))"
  proof (rule queues_on[OF q, where t = t])
    show "queue_rep (?f (u_chan s p, u_node s)) (drop ?n (q p))" using st' by simp
    show "\<And>x. x \<notin> set (q p) \<Longrightarrow> x \<noteq> t \<Longrightarrow> snd (?f (u_chan s p, u_node s)) x = u_node s x"
      using wake_nodes[OF rep] by (simp add: WakeSimple_def)
    show "\<And>x. x \<in> set (drop ?n (q p)) \<longleftrightarrow> waits p (u_pc s x) \<and> \<not> sw_selected (snd (?f (u_chan s p, u_node s)) x)"
      using queuesD(2)[OF q, of _ p] sel st'(1) d parts by auto
    show "\<And>r. r \<noteq> p \<Longrightarrow> t \<notin> set (q r)" using queuesD(2)[OF q, of t] awake by auto
    show "\<And>x. sw_queued (snd (?f (u_chan s p, u_node s)) x) \<Longrightarrow> x \<in> set (drop ?n (q p)) \<or> x \<notin> set (q p) \<and> x \<noteq> t"
    proof -
      fix x assume "sw_queued (snd (?f (u_chan s p, u_node s)) x)"
      then have x: "x \<notin> set (take ?n (q p))" "sw_queued (u_node s x)" using st' by auto
      then have "x \<noteq> t" using queuesD(3)[OF q, of x] queuesD(2)[OF q, of t] awake by auto
      then show "x \<in> set (drop ?n (q p)) \<or> x \<notin> set (q p) \<and> x \<noteq> t" using x(1) parts by auto
    qed
  qed (use awake in auto)
  then show "queues (on_queue p ?f s) (q(p := drop ?n (q p)))" by (rule queues_cong) auto
  show "x \<in> set (take ?n (q p)) \<Longrightarrow> sw_selected (u_node (on_queue p ?f s) x)" using sel st'(1) by simp
qed

lemma queues_leave:
  assumes q: "queues s q" and pc: "u_pc s t = Wait_loop op p val dl"
  shows "queues ((on_queue p (RemoveSimple t) s)\<lparr>u_pc := (u_pc s)(t := Returned r)\<rparr>) (q(p := remove1 t (q p)))"
proof (cases "t \<in> set (q p)")
  case True
  let ?st = "RemoveSimple t (u_chan s p, u_node s)"
  have rep: "queue_rep (u_chan s p, u_node s) (q p)" by (rule queuesD(1)[OF q])
  then have d: "distinct (q p)" by (simp add: queue_rep_def)
  obtain as bs where qp: "q p = as @ t # bs" using True by (meson split_list)
  then have rm: "remove1 t (q p) = as @ bs" using d by (simp add: remove1_append)
  have left: "queue_rep ?st (as @ bs) \<and> selected ?st = selected (u_chan s p, u_node s)"
    using chan.leave[of "(u_chan s p, u_node s)" as t bs] rep qp by simp
  then have sel: "sw_selected (snd ?st x) = sw_selected (u_node s x)" for x
    by (auto simp: selected_def set_eq_iff)
  show ?thesis
  proof (rule queues_on[OF q, where t = t])
    show "queue_rep ?st (remove1 t (q p))" using left rm by simp
    show "\<And>x. x \<notin> set (q p) \<Longrightarrow> x \<noteq> t \<Longrightarrow> snd ?st x = u_node s x" using RemoveSimple_nodes[OF rep True] by simp
    show "\<And>r. r \<noteq> p \<Longrightarrow> t \<notin> set (q r)" using queues_apart[OF q True] by auto
    show "\<And>x. x \<in> set (remove1 t (q p)) \<longleftrightarrow> waits p (((u_pc s)(t := Returned r)) x) \<and> \<not> sw_selected (snd ?st x)"
      using queuesD(2)[OF q, of _ p] d sel by (auto simp: waits_def)
    show "\<And>x. sw_queued (snd ?st x) \<Longrightarrow> x \<in> set (remove1 t (q p)) \<or> x \<notin> set (q p) \<and> x \<noteq> t"
      using RemoveSimple_frame(3)[of t "(u_chan s p, u_node s)"] d by auto
  qed (use pc in \<open>auto simp: waits_def\<close>)
next
  case False
  have sel: "sw_selected (u_node s t)" using False queuesD(2)[OF q, of t p] pc by (simp add: waits_def)
  then have "\<not> sw_queued (u_node s t)" using queuesD(2)[OF q, of t] queuesD(3)[OF q, of t] by auto
  then have same: "RemoveSimple t (u_chan s p, u_node s) = (u_chan s p, u_node s)" by (simp add: RemoveSimple_def)
  have "queues (s\<lparr>u_pc := (u_pc s)(t := Returned r)\<rparr>) q"
    using q sel pc by (auto simp: queues_def waits_def)
  then show ?thesis using False same by (simp add: on_queue_def remove1_idem)
qed

lemma run_wake:
  assumes q: "queues s q" and pc: "u_pc s t = Wake_lock p val" and free: "u_lock s (UmtxBucket p) \<in> {None, Some t}"
  shows "queues (umtx_run t tm s) (q(p := drop (wake_budget val) (q p)))"
    and "x \<in> set (take (wake_budget val) (q p)) \<Longrightarrow> sw_selected (u_node (umtx_run t tm s) x)"
proof -
  have awake: "\<not> waits r (u_pc s t)" for r using pc by (simp add: waits_def)
  show "queues (umtx_run t tm s) (q(p := drop (wake_budget val) (q p)))"
    by (rule queues_cong[OF queues_wake(1)[OF q awake]])
      (use pc free in \<open>auto simp: umtx_run_def wake_step_def locking_def waits_def\<close>)
  show "x \<in> set (take (wake_budget val) (q p)) \<Longrightarrow> sw_selected (u_node (umtx_run t tm s) x)"
    using queues_wake(2)[OF q awake, of x val p] pc free by (auto simp: umtx_run_def wake_step_def locking_def)
qed

lemma run_queues:
  assumes q: "queues s q"
  shows "\<exists>q'. queues (umtx_run t tm s) q'"
proof (cases "u_pc s t")
  case (Wait_queue op p val dl)
  then show ?thesis
    using queues_enter[OF q Wait_queue, of tm] q
    by (cases "u_lock s (UmtxBucket p) \<in> {None, Some t}") (auto simp: umtx_run_def wait_queue_step_def locking_def)
next
  case (Wait_loop op p val dl)
  have stay: "queues (umtx_run t tm s) q" if "u_pc (umtx_run t tm s) t = Wait_loop op p val dl" "u_node (umtx_run t tm s) = u_node s"
      "u_chan (umtx_run t tm s) = u_chan s"
    by (rule queues_cong[OF q]) (use that run_pc_other[of _ t tm s] Wait_loop in \<open>auto simp: fun_eq_iff, metis+\<close>)
  have leave: "queues (umtx_run t tm s) (q(p := remove1 t (q p)))"
    if "u_pc (umtx_run t tm s) t = Returned r" "u_node (umtx_run t tm s) = u_node (on_queue p (RemoveSimple t) s)"
      "u_chan (umtx_run t tm s) = u_chan (on_queue p (RemoveSimple t) s)" for r
  proof (rule queues_cong[OF queues_leave[OF q Wait_loop, of r]])
    show "\<And>p' u. waits p' (u_pc (umtx_run t tm s) u) =
        waits p' (u_pc ((on_queue p (RemoveSimple t) s)\<lparr>u_pc := (u_pc s)(t := Returned r)\<rparr>) u)"
      using that(1) run_pc_other[of _ t tm s] by auto
  qed (use that in auto)
  show ?thesis
    using stay leave Wait_loop by (auto simp: umtx_run_def wait_loop_step_def locking_def split: if_splits)
next
  case (Wake_lock p val)
  then show ?thesis using run_wake(1)[OF q Wake_lock, of tm] q
    by (cases "u_lock s (UmtxBucket p) \<in> {None, Some t}") (auto simp: umtx_run_def wake_step_def locking_def)
next
  case (Nwake_lock a v i)
  let ?p = "mem64 s (a + 8 * i)"
  have awake: "\<not> waits r (u_pc s t)" for r using Nwake_lock by (simp add: waits_def)
  have "queues (umtx_run t tm s) (q(?p := drop (wake_budget 0x7fffffff) (q ?p)))"
    if "i < v" "u_lock s (UmtxBucket ?p) \<in> {None, Some t}"
    by (rule queues_cong[OF queues_wake(1)[OF q awake]])
      (use Nwake_lock that in \<open>auto simp: umtx_run_def nwake_step_def locking_def waits_def Let_def\<close>)
  moreover have "queues (umtx_run t tm s) q" if "\<not> (i < v \<and> u_lock s (UmtxBucket ?p) \<in> {None, Some t})"
    by (rule queues_cong[OF q])
      (use Nwake_lock that in \<open>auto simp: umtx_run_def nwake_step_def locking_def waits_def Let_def\<close>)
  ultimately show ?thesis by blast
qed (use queues_elsewhere[OF q, of t tm] in \<open>auto simp: queue_pc_def\<close>)

lemma step_queues:
  assumes q: "queues s q"
  shows "\<exists>q'. queues (umtx_step e s) q'"
proof (cases e)
  case (Call t p op val a b tm)
  have "\<not> waits r (umtx_entry s p op val a b tm)" for r by (simp add: umtx_entry_def waits_def)
  then have "queues (umtx_step e s) q"
    using q Call by (cases "u_pc s t") (auto simp: sys_umtx_op_def queues_def waits_def)
  then show ?thesis by blast
next
  case (Run t tm)
  then show ?thesis using run_queues[OF q] by simp
next
  case (User_cas t p x n)
  have "queues (umtx_step e s) q" by (rule queues_cong[OF q]) (use User_cas in auto)
  then show ?thesis by blast
next
  case (User_store t p v)
  have "queues (umtx_step e s) q" by (rule queues_cong[OF q]) (use User_store in auto)
  then show ?thesis by blast
next
  case Stop_session
  have "queues (umtx_step e s) q" by (rule queues_cong[OF q]) (use Stop_session in auto)
  then show ?thesis by blast
qed

lemma exec_queues: "queues s q \<Longrightarrow> \<exists>q'. queues (umtx_exec es s) q'"
proof (induction es arbitrary: s q)
  case (Cons e es)
  then show ?case using step_queues[OF Cons.prems, of e] by auto
qed auto

lemma init_queues: "queues (umtx_init mem) (\<lambda>_. [])"
  by (simp add: queues_def umtx_init_def queue_rep_def WaitChan_new_def SimpleWaiter_new_def waits_def)

lemma wait_loop_result:
  assumes "u_pc s t = Wait_loop op p val dl" and "u_pc (umtx_run t tm s) t = Returned r"
  shows "r = 0 \<and> (u_stop s \<or> word_changed s op p val \<or> sw_selected (u_node s t)) \<or>
    r = neg_err eTIMEDOUT \<and> expired dl tm \<and> \<not> sw_selected (u_node s t)"
  using assms by (auto simp: umtx_run_def wait_loop_step_def locking_def word_changed_def mem64_def split: if_splits)

text \<open>
  C16: Waits and wakes on a word, in every interleaving whatsoever. At every moment the waiters at each address that have not
  been woken form a queue. A thread that starts to wait goes to its end. A wake takes exactly the first waiters off the front, at least one
  and as many as its count narrowed to 32 bits says, and every waiter it takes returns 0 from its next step that finds the bucket unlocked. A wait returns 0
  only when the session stops, the word no longer has the expected value, or a wake selected it, and times out only past its deadline
  and without having been selected, so a wake is never lost on a waiter that times out.
\<close>

theorem umtx_wait_wake:
  "let s = umtx_exec es (umtx_init mem) in \<exists>q. queues s q \<and>
     (\<forall>t tm op p val dl. u_pc s t = Wait_queue op p val dl \<and> u_lock s (UmtxBucket p) \<in> {None, Some t} \<longrightarrow>
        queues (umtx_run t tm s) (q(p := q p @ [t]))) \<and>
     (\<forall>t tm p val. u_pc s t = Wake_lock p val \<and> u_lock s (UmtxBucket p) \<in> {None, Some t} \<longrightarrow>
        queues (umtx_run t tm s) (q(p := drop (wake_budget val) (q p))) \<and>
        (\<forall>u\<in>set (take (wake_budget val) (q p)). \<forall>tm'. u_pc (umtx_run u tm' (umtx_run t tm s)) u = Returned 0)) \<and>
     (\<forall>t tm op p val dl r. u_pc s t = Wait_loop op p val dl \<and> u_pc (umtx_run t tm s) t = Returned r \<longrightarrow>
        r = 0 \<and> (u_stop s \<or> word_changed s op p val \<or> sw_selected (u_node s t)) \<or>
        r = neg_err eTIMEDOUT \<and> expired dl tm \<and> \<not> sw_selected (u_node s t))"
proof -
  let ?s = "umtx_exec es (umtx_init mem)"
  obtain q where q: "queues ?s q" using exec_queues[OF init_queues] by blast
  have woken: "u_pc (umtx_run u tm' (umtx_run t tm ?s)) u = Returned 0"
    if w: "u_pc ?s t = Wake_lock p val" "u_lock ?s (UmtxBucket p) \<in> {None, Some t}" "u \<in> set (take (wake_budget val) (q p))" for t tm p val u tm'
  proof -
    have sel: "sw_selected (u_node (umtx_run t tm ?s) u)" by (rule run_wake(2)[OF q w])
    have "waits p (u_pc ?s u)" using queuesD(2)[OF q, of u p] w(3) by (meson in_set_takeD)
    then obtain op v dl where pc: "u_pc ?s u = Wait_loop op p v dl" by (auto simp: waits_def split: upc.splits)
    then have "u \<noteq> t" using w(1) by auto
    then have "u_pc (umtx_run t tm ?s) u = Wait_loop op p v dl" using pc run_pc_other by simp
    moreover have "u_lock (umtx_run t tm ?s) (UmtxBucket p) = None"
      using w(1,2) by (auto simp: umtx_run_def wake_step_def locking_def)
    ultimately show ?thesis using sel by (auto simp: umtx_run_def[of u] wait_loop_step_def locking_def)
  qed
  show ?thesis
    unfolding Let_def
  proof (intro exI[of _ q] conjI allI impI ballI)
    show "queues ?s q" by (rule q)
  qed (elim conjE, (rule queues_enter[OF q] | rule run_wake(1)[OF q] | rule woken | rule wait_loop_result); assumption)+
qed

lemma umtx_wait_wake_witness:
  "\<exists>q. queues (umtx_exec [Call 1 0x2000 11 0 0 0 ex_tm, Run 1 ex_tm, Run 1 ex_tm] (umtx_init (\<lambda>_. 0))) q \<and> q 0x2000 = [1]"
proof -
  let ?s = "umtx_exec [Call 1 0x2000 11 0 0 0 ex_tm] (umtx_init (\<lambda>_. 0))"
  have pc: "u_pc ?s 1 = Wait_queue 11 0x2000 0 None \<and> u_lock ?s (UmtxBucket 0x2000) \<in> {None, Some 1}" by (simp add: umtx_eval)
  obtain q where q: "queues ?s q" and enter: "\<forall>t tm op p val dl. u_pc ?s t = Wait_queue op p val dl \<and>
      u_lock ?s (UmtxBucket p) \<in> {None, Some t} \<longrightarrow> queues (umtx_run t tm ?s) (q(p := q p @ [t]))"
    using umtx_wait_wake[of "[Call 1 0x2000 11 0 0 0 ex_tm]" "\<lambda>_. 0"] unfolding Let_def by (elim exE conjE) (rule that)
  have new: "queues (umtx_run 1 ex_tm ?s) (q(0x2000 := q 0x2000 @ [1]))" using enter pc by blast
  have "q 0x2000 = []"
  proof -
    have "x \<notin> set (q 0x2000)" for x using queuesD(2)[OF q, of x "0x2000"] by (simp add: umtx_eval waits_def)
    then show ?thesis by (cases "q 0x2000") auto
  qed
  then show ?thesis
    using queues_cong[OF new, of "umtx_exec [Call 1 0x2000 11 0 0 0 ex_tm, Run 1 ex_tm, Run 1 ex_tm] (umtx_init (\<lambda>_. 0))"]
    by (auto simp: umtx_eval word_changed_def waits_def SimpleWaiter_new_def QueueSimple_def Let_def intro!: exI[of _ "q(0x2000 := [1])"])
qed

end
