(* ===== verification/Pipe.thy ===== *)
theory Pipe
  imports Session Object_Table
begin

text \<open>
  The pipe device of \<open>delta/kern/ps4/dev/pipe_dev.cc\<close>: two device objects that share a bounded
  queue of bytes. An operation runs under the mutex of the pipe except while it waits. As in
  \<open>Session\<close>, a wait consumes a schedule with one observation per iteration: whether the session is
  stopping, and what the other threads do to the pipe until the next look. A call whose
  schedule is used up is still blocked, the value \<open>None\<close>.

  The blocking calls return the result and the bytes stored to the caller's buffer.
\<close>

section \<open>State and operations\<close>

text \<open>The shared \<open>PipeState\<close> with the \<open>nonblocking_\<close> flag of the reading (\<open>True\<close>) and of the writing device.\<close>

record pipe =
  pp_bytes :: "u8 list"
  pp_reader :: bool
  pp_writer :: bool
  pp_nonblocking :: "bool \<Rightarrow> bool"

definition PipeState_new :: pipe where
  "PipeState_new = \<lparr>pp_bytes = [], pp_reader = True, pp_writer = True, pp_nonblocking = (\<lambda>_. False)\<rparr>"

definition kCapacity :: nat where "kCapacity = 16384"
definition kAtomicWrite :: nat where "kAtomicWrite = 512"
definition kRead :: u16 where "kRead = 1"
definition kWrite :: u16 where "kWrite = 4"
definition kHangup :: u16 where "kHangup = 0x10"

definition Pipe_close :: "bool \<Rightarrow> pipe \<Rightarrow> pipe" where
  "Pipe_close reader s = (if reader then s\<lparr>pp_reader := False\<rparr> else s\<lparr>pp_writer := False\<rparr>)"

fun read_wait :: "pipe obs list \<Rightarrow> pipe \<Rightarrow> (int option \<times> pipe) option" where
  "read_wait bs s =
     (if pp_bytes s \<noteq> [] then Some (None, s)
      else if \<not> pp_writer s then Some (Some 0, s)
      else if pp_nonblocking s True then Some (Some (neg_err eAGAIN), s)
      else case bs of [] \<Rightarrow> None
        | b # bs \<Rightarrow> if ob_stop b then Some (Some (neg_err eINTR), s) else read_wait bs (ob_env b s))"

definition read_take :: "nat \<Rightarrow> pipe \<Rightarrow> u8 list \<times> pipe" where
  "read_take len s = (let count = min len (length (pp_bytes s))
     in (take count (pp_bytes s), s\<lparr>pp_bytes := drop count (pp_bytes s)\<rparr>))"

definition Pipe_Read :: "bool \<Rightarrow> bool \<Rightarrow> nat \<Rightarrow> pipe obs list \<Rightarrow> pipe \<Rightarrow> (int \<times> u8 list \<times> pipe) option" where
  "Pipe_Read reader mapped len bs s =
     (if \<not> reader then Some (neg_err eBADF, [], s)
      else if len = 0 then Some (0, [], s)
      else if \<not> mapped then Some (neg_err eFAULT, [], s)
      else case read_wait bs s of None \<Rightarrow> None
        | Some (Some r, s) \<Rightarrow> Some (r, [], s)
        | Some (None, s) \<Rightarrow> (case read_take len s of (data, s) \<Rightarrow> Some (int (length data), data, s)))"

definition write_needed :: "nat \<Rightarrow> nat" where
  "write_needed len = (if len \<le> kAtomicWrite then len else 1)"

fun write_wait :: "nat \<Rightarrow> pipe obs list \<Rightarrow> pipe \<Rightarrow> (int option \<times> pipe) option" where
  "write_wait needed bs s =
     (if \<not> kCapacity - length (pp_bytes s) < needed then Some (None, s)
      else if \<not> pp_reader s then Some (Some (neg_err ePIPE), s)
      else if pp_nonblocking s False then Some (Some (neg_err eAGAIN), s)
      else case bs of [] \<Rightarrow> None
        | b # bs \<Rightarrow> if ob_stop b then Some (Some (neg_err eINTR), s) else write_wait needed bs (ob_env b s))"

definition write_put :: "u8 list \<Rightarrow> pipe \<Rightarrow> nat \<times> pipe" where
  "write_put data s = (let count = min (length data) (kCapacity - length (pp_bytes s))
     in (count, s\<lparr>pp_bytes := pp_bytes s @ take count data\<rparr>))"

definition Pipe_Write :: "bool \<Rightarrow> bool \<Rightarrow> u8 list \<Rightarrow> pipe obs list \<Rightarrow> pipe \<Rightarrow> (int \<times> pipe) option" where
  "Pipe_Write reader mapped data bs s =
     (if reader then Some (neg_err eBADF, s)
      else if data = [] then Some (0, s)
      else if \<not> mapped then Some (neg_err eFAULT, s)
      else case write_wait (write_needed (length data)) bs s of None \<Rightarrow> None
        | Some (Some r, s) \<Rightarrow> Some (r, s)
        | Some (None, s) \<Rightarrow> if \<not> pp_reader s then Some (neg_err ePIPE, s)
            else (case write_put data s of (n, s) \<Rightarrow> Some (int n, s)))"

definition Pipe_Poll :: "bool \<Rightarrow> u16 \<Rightarrow> pipe \<Rightarrow> u16" where
  "Pipe_Poll reader events s =
     (if reader then (if events AND kRead \<noteq> 0 \<and> pp_bytes s \<noteq> [] then kRead else 0) OR (if \<not> pp_writer s then kHangup else 0)
      else (if events AND kWrite \<noteq> 0 \<and> length (pp_bytes s) < kCapacity then kWrite else 0) OR
        (if \<not> pp_reader s then kHangup else 0))"

definition Pipe_GetFlags :: "bool \<Rightarrow> pipe \<Rightarrow> u32" where
  "Pipe_GetFlags reader s = (if reader then 0 else 1) OR (if pp_nonblocking s reader then 4 else 0)"

definition Pipe_SetFlags :: "bool \<Rightarrow> u32 \<Rightarrow> pipe \<Rightarrow> pipe" where
  "Pipe_SetFlags reader flags s = s\<lparr>pp_nonblocking := (pp_nonblocking s)(reader := flags AND 4 \<noteq> 0)\<rparr>"

text \<open>The fields of \<open>SceKernelStat\<close> that \<open>FillStat\<close> sets; the rest is zeroed.\<close>

record kstat =
  st_mode :: u16
  st_size :: int
  st_nlink :: u16
  st_blksize :: u32
  st_blocks :: int

definition FillStat :: "u16 \<Rightarrow> int \<Rightarrow> kstat" where
  "FillStat mode size' = \<lparr>st_mode = mode, st_size = size', st_nlink = 1, st_blksize = 0x4000, st_blocks = (size' + 0x3FFF) div 0x4000\<rparr>"

definition Pipe_Fstat :: "bool \<Rightarrow> pipe \<Rightarrow> int \<times> kstat option" where
  "Pipe_Fstat mapped s = (if \<not> mapped then (neg_err eFAULT, None) else (0, Some (FillStat 0x1000 (int (length (pp_bytes s))))))"

text \<open>\<open>CreatePipe\<close>: two device objects on the same state, in the object table of the process.\<close>

definition CreatePipe :: "(u32 \<Rightarrow> bool) \<Rightarrow> nat \<Rightarrow> nat \<Rightarrow> 'q \<Rightarrow> ('q \<times> bool) objs \<Rightarrow> (u32 \<times> u32 \<times> ('q \<times> bool) objs) option" where
  "CreatePipe ra o1 o2 state s = do {
     (b, h, s) \<leftarrow> Object_new ra o1 kDevice (state, True) s;
     reader \<leftarrow> Obj_handle o1 s;
     (b, h, s) \<leftarrow> Object_new ra o2 kDevice (state, False) s;
     writer \<leftarrow> Obj_handle o2 s;
     Some (reader, writer, s) }"

section \<open>The byte stream\<close>

text \<open>What the threads do to a pipe between two looks of a waiting one, and the bytes that enter and leave.\<close>

datatype pipe_move = Take nat | Put "u8 list" | Shut bool | Set_flags bool u32

fun pipe_do :: "pipe_move \<Rightarrow> pipe \<Rightarrow> u8 list \<times> u8 list \<times> pipe" where
  "pipe_do (Take n) s = (case read_take n s of (data, s) \<Rightarrow> ([], data, s))"
| "pipe_do (Put data) s = (if \<not> pp_reader s then ([], [], s)
     else case write_put data s of (n, s) \<Rightarrow> (take n data, [], s))"
| "pipe_do (Shut reader) s = ([], [], Pipe_close reader s)"
| "pipe_do (Set_flags reader flags) s = ([], [], Pipe_SetFlags reader flags s)"

fun pipe_run :: "pipe_move list \<Rightarrow> pipe \<Rightarrow> u8 list \<times> u8 list \<times> pipe" where
  "pipe_run [] s = ([], [], s)"
| "pipe_run (m # ms) s = (case pipe_do m s of (i, o', s) \<Rightarrow> case pipe_run ms s of (i', o'', s) \<Rightarrow> (i @ i', o' @ o'', s))"

definition pipe_after :: "pipe_move list \<Rightarrow> pipe \<Rightarrow> pipe" where
  "pipe_after ms s = snd (snd (pipe_run ms s))"

lemma pipe_after_simps [simp]: "pipe_after [] s = s" "pipe_after (m # ms) s = pipe_after ms (snd (snd (pipe_do m s)))"
  by (simp_all add: pipe_after_def split: prod.splits)

lemma pipe_after_append: "pipe_after (ms @ ns) s = pipe_after ns (pipe_after ms s)"
  by (induction ms arbitrary: s) simp_all

lemma pipe_do_stream: "pipe_do m s = (i, out, s') \<Longrightarrow> pp_bytes s @ i = out @ pp_bytes s'"
  by (cases m) (auto simp: read_take_def write_put_def Pipe_close_def Pipe_SetFlags_def Let_def split: if_splits)

lemma pipe_do_bound: "length (pp_bytes s) \<le> kCapacity \<Longrightarrow> length (pp_bytes (snd (snd (pipe_do m s)))) \<le> kCapacity"
  by (cases m) (auto simp: read_take_def write_put_def Pipe_close_def Pipe_SetFlags_def Let_def)

lemma pipe_run_stream: "pipe_run ms s = (i, out, s') \<Longrightarrow> pp_bytes s @ i = out @ pp_bytes s'"
proof (induction ms arbitrary: s i out)
  case (Cons m ms)
  then show ?case using pipe_do_stream[of m s] by (auto split: prod.splits) (metis append_assoc)
qed simp

lemma pipe_after_bound: "length (pp_bytes s) \<le> kCapacity \<Longrightarrow> length (pp_bytes (pipe_after ms s)) \<le> kCapacity"
  by (induction ms arbitrary: s) (simp_all add: pipe_do_bound)

text \<open>
  C18: A pipe is a bounded first-in first-out stream. Whatever the ends do, in whatever order, the bytes accepted so far are the
  bytes delivered so far followed by the buffered ones, none lost, repeated or reordered, and at most 16384 are buffered.
\<close>

theorem pipe_fifo:
  assumes "pipe_run ms PipeState_new = (accepted, delivered, s)"
  shows "accepted = delivered @ pp_bytes s \<and> length (pp_bytes s) \<le> 16384"
proof -
  have "length (pp_bytes (pipe_after ms PipeState_new)) \<le> kCapacity"
    by (rule pipe_after_bound) (simp add: PipeState_new_def)
  then show ?thesis
    using pipe_run_stream[OF assms] assms by (simp add: pipe_after_def PipeState_new_def kCapacity_def)
qed

lemma pipe_fifo_witness:
  "\<exists>s. pipe_run [Put [1, 2, 3], Take 2, Put [4], Take 1] PipeState_new = ([1, 2, 3, 4], [1, 2, 3], s) \<and> [1, 2, 3, 4] = [1, 2, 3] @ pp_bytes s"
proof -
  obtain s where "pipe_run [Put [1, 2, 3], Take 2, Put [4], Take 1] PipeState_new = ([1, 2, 3, 4], [1, 2, 3], s)"
    by (simp add: read_take_def write_put_def PipeState_new_def kCapacity_def)
  then show ?thesis using pipe_fifo by blast
qed

section \<open>Blocking calls\<close>

text \<open>A schedule in which the other threads only use the pipe.\<close>

definition pipe_sched :: "pipe obs list \<Rightarrow> bool" where
  "pipe_sched bs \<longleftrightarrow> (\<forall>b\<in>set bs. \<forall>s. \<exists>ms. ob_env b s = pipe_after ms s)"

declare read_wait.simps [simp del] and write_wait.simps [simp del]

lemma read_wait_spec:
  "\<lbrakk>read_wait bs s = Some (r, s'); pipe_sched bs\<rbrakk> \<Longrightarrow> \<exists>ms. s' = pipe_after ms s \<and>
     (case r of None \<Rightarrow> pp_bytes s' \<noteq> []
      | Some x \<Rightarrow> pp_bytes s' = [] \<and> (x = 0 \<and> \<not> pp_writer s' \<or> x = neg_err eAGAIN \<and> pp_writer s' \<and> pp_nonblocking s' True \<or>
          x = neg_err eINTR \<and> (\<exists>b\<in>set bs. ob_stop b)))"
proof (induction bs arbitrary: s)
  case Nil
  then show ?case by (auto simp: read_wait.simps[of "[]"] split: if_splits intro: exI[of _ "[]"])
next
  case (Cons b bs)
  show ?case
  proof (cases "pp_bytes s \<noteq> [] \<or> \<not> pp_writer s \<or> pp_nonblocking s True \<or> ob_stop b")
    case True
    then show ?thesis using Cons.prems by (auto simp: read_wait.simps[of "b # bs"] split: if_splits intro!: exI[of _ "[]"])
  next
    case False
    then have "read_wait bs (ob_env b s) = Some (r, s')" using Cons.prems by (simp add: read_wait.simps[of "b # bs"])
    moreover obtain ns where "ob_env b s = pipe_after ns s"
      using Cons.prems(2) unfolding pipe_sched_def by (meson list.set_intros(1))
    ultimately obtain ms where "s' = pipe_after (ns @ ms) s" "case r of None \<Rightarrow> pp_bytes s' \<noteq> []
      | Some x \<Rightarrow> pp_bytes s' = [] \<and> (x = 0 \<and> \<not> pp_writer s' \<or> x = neg_err eAGAIN \<and> pp_writer s' \<and> pp_nonblocking s' True \<or>
          x = neg_err eINTR \<and> (\<exists>b\<in>set bs. ob_stop b))"
      using Cons.IH[of "ob_env b s"] Cons.prems(2) by (auto simp: pipe_sched_def pipe_after_append)
    then show ?thesis by (intro exI[of _ "ns @ ms"]) (auto split: option.splits)
  qed
qed

lemma write_wait_spec:
  "\<lbrakk>write_wait n bs s = Some (r, s'); pipe_sched bs\<rbrakk> \<Longrightarrow> \<exists>ms. s' = pipe_after ms s \<and>
     (case r of None \<Rightarrow> n \<le> kCapacity - length (pp_bytes s')
      | Some x \<Rightarrow> x = neg_err ePIPE \<and> \<not> pp_reader s' \<or> kCapacity - length (pp_bytes s') < n \<and> pp_reader s' \<and>
          (x = neg_err eAGAIN \<and> pp_nonblocking s' False \<or> x = neg_err eINTR \<and> (\<exists>b\<in>set bs. ob_stop b)))"
proof (induction bs arbitrary: s)
  case Nil
  then show ?case by (auto simp: write_wait.simps[of n "[]"] split: if_splits intro: exI[of _ "[]"])
next
  case (Cons b bs)
  show ?case
  proof (cases "\<not> kCapacity - length (pp_bytes s) < n \<or> \<not> pp_reader s \<or> pp_nonblocking s False \<or> ob_stop b")
    case True
    then show ?thesis using Cons.prems by (auto simp: write_wait.simps[of n "b # bs"] split: if_splits intro!: exI[of _ "[]"])
  next
    case False
    then have "write_wait n bs (ob_env b s) = Some (r, s')" using Cons.prems by (simp add: write_wait.simps[of n "b # bs"])
    moreover obtain ns where "ob_env b s = pipe_after ns s"
      using Cons.prems(2) unfolding pipe_sched_def by (meson list.set_intros(1))
    ultimately obtain ms where "s' = pipe_after (ns @ ms) s" "case r of None \<Rightarrow> n \<le> kCapacity - length (pp_bytes s')
      | Some x \<Rightarrow> x = neg_err ePIPE \<and> \<not> pp_reader s' \<or> kCapacity - length (pp_bytes s') < n \<and> pp_reader s' \<and>
          (x = neg_err eAGAIN \<and> pp_nonblocking s' False \<or> x = neg_err eINTR \<and> (\<exists>b\<in>set bs. ob_stop b))"
      using Cons.IH[of "ob_env b s"] Cons.prems(2) by (auto simp: pipe_sched_def pipe_after_append)
    then show ?thesis by (intro exI[of _ "ns @ ms"]) (auto split: option.splits)
  qed
qed

lemma pipe_waits_return:
  "\<exists>b\<in>set bs. ob_stop b \<Longrightarrow> \<exists>r. read_wait bs s = Some r" "\<exists>b\<in>set bs. ob_stop b \<Longrightarrow> \<exists>r. write_wait n bs s = Some r"
proof -
  show "\<exists>b\<in>set bs. ob_stop b \<Longrightarrow> \<exists>r. read_wait bs s = Some r"
  proof (induction bs arbitrary: s)
    case (Cons b bs)
    then show ?case by (auto simp: read_wait.simps[of "b # bs"])
  qed simp
  show "\<exists>b\<in>set bs. ob_stop b \<Longrightarrow> \<exists>r. write_wait n bs s = Some r"
  proof (induction bs arbitrary: s)
    case (Cons b bs)
    then show ?case by (auto simp: write_wait.simps[of n "b # bs"])
  qed simp
qed

text \<open>
  A read of a pipe, interleaved with any use of it by other threads. A read that returns data returns the oldest
  bytes, as many as fit or are there; it returns 0 only when the writer is gone and nothing is left, \<open>EAGAIN\<close> only when
  non-blocking on an empty open pipe, \<open>EINTR\<close> only when the session stopped. When the session stops, it returns.
\<close>

theorem pipe_read_correct:
  assumes "pipe_sched bs" and "0 < n"
  shows "(\<forall>r out s'. Pipe_Read True True n bs s = Some (r, out, s') \<longrightarrow> (\<exists>ms s1. s1 = pipe_after ms s \<and>
      (pp_bytes s1 \<noteq> [] \<and> out = take n (pp_bytes s1) \<and> r = int (length out) \<and> 0 < r \<and> s' = s1\<lparr>pp_bytes := drop n (pp_bytes s1)\<rparr> \<or>
       s' = s1 \<and> out = [] \<and> pp_bytes s1 = [] \<and> (r = 0 \<and> \<not> pp_writer s1 \<or> r = - 35 \<and> pp_writer s1 \<and> pp_nonblocking s1 True \<or>
         r = - 4 \<and> (\<exists>b\<in>set bs. ob_stop b))))) \<and>
    ((\<exists>b\<in>set bs. ob_stop b) \<longrightarrow> Pipe_Read True True n bs s \<noteq> None)"
proof (intro conjI allI impI)
  fix r out s'
  assume res: "Pipe_Read True True n bs s = Some (r, out, s')"
  then obtain w s1 where w: "read_wait bs s = Some (w, s1)"
    using assms(2) by (auto simp: Pipe_Read_def split: option.splits)
  obtain ms where "s1 = pipe_after ms s" and "case w of None \<Rightarrow> pp_bytes s1 \<noteq> []
      | Some x \<Rightarrow> pp_bytes s1 = [] \<and> (x = 0 \<and> \<not> pp_writer s1 \<or> x = neg_err eAGAIN \<and> pp_writer s1 \<and> pp_nonblocking s1 True \<or>
          x = neg_err eINTR \<and> (\<exists>b\<in>set bs. ob_stop b))"
    using read_wait_spec[OF w assms(1)] by blast
  then show "\<exists>ms s1. s1 = pipe_after ms s \<and>
      (pp_bytes s1 \<noteq> [] \<and> out = take n (pp_bytes s1) \<and> r = int (length out) \<and> 0 < r \<and> s' = s1\<lparr>pp_bytes := drop n (pp_bytes s1)\<rparr> \<or>
       s' = s1 \<and> out = [] \<and> pp_bytes s1 = [] \<and> (r = 0 \<and> \<not> pp_writer s1 \<or> r = - 35 \<and> pp_writer s1 \<and> pp_nonblocking s1 True \<or>
         r = - 4 \<and> (\<exists>b\<in>set bs. ob_stop b)))"
    using res w assms(2)
    by (intro exI[of _ ms] exI[of _ s1])
      (auto simp: Pipe_Read_def read_take_def Let_def min_def split: option.splits if_splits)
qed (use pipe_waits_return(1)[of bs s] assms in \<open>auto simp: Pipe_Read_def split: option.splits prod.splits\<close>)

text \<open>
  A write to a pipe, interleaved with any use of it by other threads. It appends a non-empty prefix of its data, all of it when it is
  at most 512 bytes, while the reader is open; otherwise it changes nothing and reports \<open>EPIPE\<close> for a closed reader, or
  \<open>EAGAIN\<close> or \<open>EINTR\<close> for a lack of room. When the session stops, it returns.
\<close>

theorem pipe_write_correct:
  assumes "pipe_sched bs" and "data \<noteq> []" and "length (pp_bytes s) \<le> 16384"
  shows "(\<forall>r s'. Pipe_Write False True data bs s = Some (r, s') \<longrightarrow> (\<exists>ms s1 k. s1 = pipe_after ms s \<and>
      (pp_reader s1 \<and> 0 < k \<and> k \<le> length data \<and> (length data \<le> 512 \<longrightarrow> k = length data) \<and> r = int k \<and>
         s' = s1\<lparr>pp_bytes := pp_bytes s1 @ take k data\<rparr> \<and> length (pp_bytes s') \<le> 16384 \<or>
       s' = s1 \<and> (r = - 32 \<and> \<not> pp_reader s1 \<or> pp_reader s1 \<and> 16384 - length (pp_bytes s1) < min 512 (length data) \<and>
         (r = - 35 \<and> pp_nonblocking s1 False \<or> r = - 4 \<and> (\<exists>b\<in>set bs. ob_stop b)))))) \<and>
    ((\<exists>b\<in>set bs. ob_stop b) \<longrightarrow> Pipe_Write False True data bs s \<noteq> None)"
proof (intro conjI allI impI)
  fix r s'
  assume res: "Pipe_Write False True data bs s = Some (r, s')"
  let ?n = "write_needed (length data)"
  have n: "0 < ?n" "?n \<le> min 512 (length data)" "length data \<le> 512 \<Longrightarrow> ?n = length data"
    using assms(2) by (auto simp: write_needed_def kAtomicWrite_def Suc_le_eq)
  obtain w s1 where w: "write_wait ?n bs s = Some (w, s1)"
    using res assms(2) by (auto simp: Pipe_Write_def split: option.splits)
  obtain ms where s1: "s1 = pipe_after ms s" and out: "case w of None \<Rightarrow> ?n \<le> kCapacity - length (pp_bytes s1)
      | Some x \<Rightarrow> x = neg_err ePIPE \<and> \<not> pp_reader s1 \<or> kCapacity - length (pp_bytes s1) < ?n \<and> pp_reader s1 \<and>
          (x = neg_err eAGAIN \<and> pp_nonblocking s1 False \<or> x = neg_err eINTR \<and> (\<exists>b\<in>set bs. ob_stop b))"
    using write_wait_spec[OF w assms(1)] by blast
  have bound: "length (pp_bytes s1) \<le> kCapacity" using pipe_after_bound[of s ms] assms(3) s1 by (simp add: kCapacity_def)
  let ?k = "min (length data) (kCapacity - length (pp_bytes s1))"
  show "\<exists>ms s1 k. s1 = pipe_after ms s \<and>
      (pp_reader s1 \<and> 0 < k \<and> k \<le> length data \<and> (length data \<le> 512 \<longrightarrow> k = length data) \<and> r = int k \<and>
         s' = s1\<lparr>pp_bytes := pp_bytes s1 @ take k data\<rparr> \<and> length (pp_bytes s') \<le> 16384 \<or>
       s' = s1 \<and> (r = - 32 \<and> \<not> pp_reader s1 \<or> pp_reader s1 \<and> 16384 - length (pp_bytes s1) < min 512 (length data) \<and>
         (r = - 35 \<and> pp_nonblocking s1 False \<or> r = - 4 \<and> (\<exists>b\<in>set bs. ob_stop b))))"
  proof (intro exI[of _ ms] exI[of _ s1] exI[of _ ?k] conjI s1)
    show "pp_reader s1 \<and> 0 < ?k \<and> ?k \<le> length data \<and> (length data \<le> 512 \<longrightarrow> ?k = length data) \<and> r = int ?k \<and>
         s' = s1\<lparr>pp_bytes := pp_bytes s1 @ take ?k data\<rparr> \<and> length (pp_bytes s') \<le> 16384 \<or>
       s' = s1 \<and> (r = - 32 \<and> \<not> pp_reader s1 \<or> pp_reader s1 \<and> 16384 - length (pp_bytes s1) < min 512 (length data) \<and>
         (r = - 35 \<and> pp_nonblocking s1 False \<or> r = - 4 \<and> (\<exists>b\<in>set bs. ob_stop b)))"
    proof (cases w)
      case None
      then show ?thesis using res w out n bound assms(2)
        by (auto simp: Pipe_Write_def write_put_def Let_def kCapacity_def split: if_splits)
    next
      case (Some x)
      then show ?thesis using res w out n(2) assms(2) by (auto simp: Pipe_Write_def kCapacity_def)
    qed
  qed
qed (use pipe_waits_return(2)[of bs "write_needed (length data)" s] assms in \<open>auto simp: Pipe_Write_def split: option.splits prod.splits\<close>)

text \<open>Another thread writes two bytes while the reader waits.\<close>

definition ex_pipe_sched :: "pipe obs list" where
  "ex_pipe_sched = [\<lparr>ob_stop = False, ob_now = 0, ob_env = pipe_after [Put [7, 8]]\<rparr>]"

lemma ex_pipe_sched_ok: "pipe_sched ex_pipe_sched"
  by (auto simp: pipe_sched_def ex_pipe_sched_def simp del: pipe_after_simps)

lemma pipe_read_correct_witness:
  "\<exists>ms s1. s1 = pipe_after ms PipeState_new \<and> [7] = take 1 (pp_bytes s1)"
proof -
  have "Pipe_Read True True 1 ex_pipe_sched PipeState_new = Some (1, [7], PipeState_new\<lparr>pp_bytes := [8]\<rparr>)"
    by (simp add: Pipe_Read_def ex_pipe_sched_def read_wait.simps read_take_def write_put_def PipeState_new_def kCapacity_def)
  then show ?thesis
    using pipe_read_correct[OF ex_pipe_sched_ok, of 1 PipeState_new] by fastforce
qed

lemma pipe_write_correct_witness:
  "\<exists>s'. Pipe_Write False True [5] [] PipeState_new = Some (1, s') \<and> length (pp_bytes s') \<le> 16384"
proof -
  have "Pipe_Write False True [5] [] PipeState_new = Some (1, PipeState_new\<lparr>pp_bytes := [5]\<rparr>)"
    by (simp add: Pipe_Write_def write_wait.simps write_put_def PipeState_new_def kCapacity_def write_needed_def kAtomicWrite_def)
  moreover have "pipe_sched []" by (simp add: pipe_sched_def)
  ultimately show ?thesis using pipe_write_correct[of "[]" "[5]" PipeState_new] by (fastforce simp: PipeState_new_def)
qed

end
