(* ===== verification/Run_Map.thy ===== *)
theory Run_Map
  imports Host_Memory
begin

text \<open>
  The run maps of \<open>delta/gpu/write_tracker.cc\<close>: sorted, disjoint address ranges with insertion, removal
  and the gaps of a range, and the byte counts they return. A \<open>base::Map\<close> is the list of its elements
  in the order of their keys, as in the registry of host mappings.
\<close>

section \<open>Operations\<close>

text \<open>The elements before \<open>upper_bound(b)\<close> and from it on, and the step back the code makes under a condition.\<close>

definition upper_bound :: "u64 \<Rightarrow> ranges \<Rightarrow> ranges \<times> ranges" where
  "upper_bound b rs = (takeWhile (\<lambda>x. fst x \<le> b) rs, dropWhile (\<lambda>x. fst x \<le> b) rs)"

definition back_if :: "(u64 \<times> u64 \<Rightarrow> bool) \<Rightarrow> ranges \<times> ranges \<Rightarrow> ranges \<times> ranges" where
  "back_if P = (\<lambda>(pre, suf). if pre \<noteq> [] \<and> P (last pre) then (butlast pre, last pre # suf) else (pre, suf))"

fun insert_loop :: "u64 \<Rightarrow> u64 \<Rightarrow> u64 \<Rightarrow> ranges \<Rightarrow> u64 \<times> ranges" where
  "insert_loop f e added [] = (added, [(f, e)])"
| "insert_loop f e added ((a, b) # r) =
     (if a \<le> e then
        let lo = max f a; hi = min e b
        in insert_loop (min f a) (max e b) (if hi > lo then added - (hi - lo) else added) r
      else (added, (f, e) # (a, b) # r))"

definition InsertRun :: "u64 \<Rightarrow> u64 \<Rightarrow> ranges \<Rightarrow> u64 \<times> ranges" where
  "InsertRun f e rs =
     (case back_if (\<lambda>(a, b). b \<ge> f) (upper_bound f rs) of (pre, suf) \<Rightarrow>
      case insert_loop f e (e - f) suf of (added, rs') \<Rightarrow> (added, pre @ rs'))"

fun erase_loop :: "u64 \<Rightarrow> u64 \<Rightarrow> u64 \<Rightarrow> ranges \<Rightarrow> u64 \<times> ranges" where
  "erase_loop f e removed [] = (removed, [])"
| "erase_loop f e removed ((a, b) # r) =
     (if \<not> a < e then (removed, (a, b) # r)
      else if b \<le> f then (case erase_loop f e removed r of (n, r') \<Rightarrow> (n, (a, b) # r'))
      else
        let removed = removed + (min b e - max a f);
            left = (if a < f then [(a, f)] else [])
        in if b > e then (removed, left @ (e, b) # r)
           else case erase_loop f e removed r of (n, r') \<Rightarrow> (n, left @ r'))"

definition EraseRun :: "u64 \<Rightarrow> u64 \<Rightarrow> ranges \<Rightarrow> u64 \<times> ranges" where
  "EraseRun f e rs =
     (case back_if (\<lambda>_. True) (upper_bound f rs) of (pre, suf) \<Rightarrow>
      case erase_loop f e 0 suf of (removed, rs') \<Rightarrow> (removed, pre @ rs'))"

fun gaps_loop :: "u64 \<Rightarrow> u64 \<Rightarrow> ranges \<Rightarrow> ranges" where
  "gaps_loop cursor e [] = (if cursor < e then [(cursor, e)] else [])"
| "gaps_loop cursor e ((a, b) # r) =
     (if a < e \<and> cursor < e then (if a > cursor then [(cursor, a)] else []) @ gaps_loop (max cursor b) e r
      else if cursor < e then [(cursor, e)] else [])"

definition Gaps :: "ranges \<Rightarrow> u64 \<Rightarrow> u64 \<Rightarrow> ranges" where
  "Gaps rs f e = (case back_if (\<lambda>(a, b). b > f) (upper_bound f rs) of (pre, suf) \<Rightarrow> gaps_loop f e suf)"

section \<open>What they cover\<close>

definition run_bytes :: "ranges \<Rightarrow> u64" where
  "run_bytes rs = (\<Sum>(a, b)\<leftarrow>rs. b - a)"

lemma run_bytes_simps [simp]: "run_bytes [] = 0" "run_bytes ((a, b) # r) = b - a + run_bytes r"
    "run_bytes (xs @ ys) = run_bytes xs + run_bytes ys"
  by (simp_all add: run_bytes_def)

lemma run_bytes_card: "chain lo rs \<Longrightarrow> run_bytes rs = of_nat (card {a. in_ranges rs a})"
proof -
  have "fold (\<lambda>(f, e) n. n + (e - f)) rs n = n + run_bytes rs" for n
    by (induction rs arbitrary: n) (auto simp: split_beta)
  then show "chain lo rs \<Longrightarrow> run_bytes rs = of_nat (card {a. in_ranges rs a})"
    using owned_bytes [of lo rs 0] by simp
qed

lemma chain_append: "chain lo (pre @ suf) \<longleftrightarrow>
    chain lo pre \<and> chain (if pre = [] then lo else snd (last pre)) suf"
  by (induction pre arbitrary: lo) auto

text \<open>Splitting at an upper bound: what lies before it, and that nothing from it on starts earlier.\<close>

lemma upper_bound_append: "upper_bound b rs = (pre, suf) \<Longrightarrow> rs = pre @ suf"
  by (auto simp: upper_bound_def)

lemma back_if_append: "back_if P (pre, suf) = (pre', suf') \<Longrightarrow> pre @ suf = pre' @ suf'"
  by (auto simp: back_if_def split: if_splits)

lemma chain_starts: "chain lo rs \<Longrightarrow> (a, b) \<in> set rs \<Longrightarrow> lo \<le> a \<and> a < b"
proof (induction rs arbitrary: lo)
  case (Cons x rs)
  obtain c d where "x = (c, d)" by fastforce
  with Cons show ?case by fastforce
qed simp

lemma in_ranges_set: "in_ranges rs x \<longleftrightarrow> (\<exists>(a, b) \<in> set rs. a \<le> x \<and> x < b)"
  by (induction rs) auto

lemma chain_last: "chain lo pre \<Longrightarrow> (a, b) \<in> set pre \<Longrightarrow> b \<le> snd (last pre)"
proof (induction pre arbitrary: lo a b)
  case (Cons x pre)
  obtain c d where x: "x = (c, d)" by fastforce
  show ?case
  proof (cases "pre = []")
    case False
    then have "snd (hd pre) \<le> snd (last pre)" "d \<le> fst (hd pre)" "fst (hd pre) < snd (hd pre)"
      using Cons.prems(1) Cons.IH [of d "fst (hd pre)" "snd (hd pre)"] x by (cases pre; auto)+
    then show ?thesis using Cons False x by auto
  qed (use Cons.prems x in auto)
qed simp

lemma back_if_spec:
  assumes "chain lo rs" "back_if P (upper_bound f rs) = (pre, suf)" "\<And>a b. (a, b) \<in> set rs \<Longrightarrow> \<not> P (a, b) \<Longrightarrow> b \<le> f"
  shows "rs = pre @ suf" and "chain lo pre" and "chain (if pre = [] then lo else snd (last pre)) suf"
    and "(a, b) \<in> set pre \<Longrightarrow> b \<le> f"
proof -
  obtain p s where ps: "upper_bound f rs = (p, s)" by fastforce
  show rs: "rs = pre @ suf" using upper_bound_append [OF ps] back_if_append assms(2) unfolding ps by blast
  with assms(1) show c: "chain lo pre" "chain (if pre = [] then lo else snd (last pre)) suf"
    by (auto simp: chain_append)
  assume mem: "(a, b) \<in> set pre"
  have p: "fst x \<le> f" if "x \<in> set p" for x
    using that ps set_takeWhileD by (fastforce simp: upper_bound_def)
  show "b \<le> f"
  proof (cases "p \<noteq> [] \<and> P (last p)")
    case True
    then have split: "pre = butlast p" "suf = last p # s" using assms(2) unfolding ps by (auto simp: back_if_def)
    have "b \<le> snd (last pre)" by (rule chain_last [OF c(1) mem])
    also have "snd (last pre) \<le> fst (last p)" using c(2) mem split by (cases "last p") (auto split: if_splits)
    also have "\<dots> \<le> f" using True p by simp
    finally show ?thesis .
  next
    case False
    then have pre: "pre = p" using assms(2) unfolding ps by (auto simp: back_if_def)
    then have "b \<le> snd (last p)" using chain_last [OF c(1) mem] by simp
    also have "\<dots> \<le> f"
    proof (rule assms(3) [of "fst (last p)"])
      show "(fst (last p), snd (last p)) \<in> set rs" using mem pre rs by (cases "p = []") auto
      show "\<not> P (fst (last p), snd (last p))" using False mem pre by auto
    qed
    finally show ?thesis .
  qed
qed


lemma back_if_head: "back_if P (upper_bound f rs) = (pre, x # suf) \<Longrightarrow> P x \<or> f < fst x"
proof -
  assume h: "back_if P (upper_bound f rs) = (pre, x # suf)"
  have "dropWhile (\<lambda>x. fst x \<le> f) rs = y # ys \<Longrightarrow> f < fst y" for y ys
    using hd_dropWhile [of "\<lambda>x. fst x \<le> f" rs] by auto
  then show ?thesis using h by (auto simp: back_if_def upper_bound_def split: if_splits)
qed

section \<open>Insertion\<close>

lemma insert_loop_own: "\<forall>(a, b) \<in> set rs. f \<le> b \<Longrightarrow> chain lo rs \<Longrightarrow> f < e \<Longrightarrow> snd (insert_loop f e n rs) = own_loop f e rs"
proof (induction rs arbitrary: f e n lo)
  case (Cons x rs)
  obtain a b where x: "x = (a, b)" by fastforce
  with Cons.prems have c: "f \<le> b" "a < b" "chain b rs" "\<forall>(a, b) \<in> set rs. f \<le> b" by auto
  have "\<forall>(u, v) \<in> set rs. min f a \<le> v" using c(4) by (auto simp: min_def)
  with Cons.IH [OF _ c(3), of "min f a" "max e b"] Cons.prems(3) c(1,2) x show ?case
    by (auto simp: Let_def not_less max_def min_def)
qed simp

lemma insert_loop_bytes: "\<forall>(a, b) \<in> set rs. f \<le> b \<Longrightarrow> chain lo rs \<Longrightarrow> f < e \<Longrightarrow>
    fst (insert_loop f e n rs) = n - (e - f) + run_bytes (snd (insert_loop f e n rs)) - run_bytes rs"
proof (induction rs arbitrary: f e n lo)
  case (Cons x rs)
  obtain a b where x: "x = (a, b)" by fastforce
  with Cons.prems have c: "f \<le> b" "a < b" "chain b rs" "\<forall>(a, b) \<in> set rs. f \<le> b" by auto
  have "\<forall>(u, v) \<in> set rs. min f a \<le> v" using c(4) by (auto simp: min_def)
  from Cons.IH [OF this c(3), of "max e b"] Cons.prems(3) c(1,2) x show ?case
    by (auto simp: Let_def not_less max_def min_def)
qed simp

lemma InsertRun_correct:
  assumes "chain lo rs" "lo \<le> f" "f < e"
  shows "chain lo (snd (InsertRun f e rs))"
    and "in_ranges (snd (InsertRun f e rs)) x \<longleftrightarrow> f \<le> x \<and> x < e \<or> in_ranges rs x"
    and "run_bytes (snd (InsertRun f e rs)) = run_bytes rs + fst (InsertRun f e rs)"
proof -
  let ?P = "\<lambda>(a, b). b \<ge> f"
  obtain pre suf where ps: "back_if ?P (upper_bound f rs) = (pre, suf)" by fastforce
  note split = back_if_spec [OF assms(1) ps]
  have rs: "rs = pre @ suf" "chain lo pre" "chain (if pre = [] then lo else snd (last pre)) suf"
      and pre: "\<And>a b. (a, b) \<in> set pre \<Longrightarrow> b \<le> f"
    using split by auto
  let ?lo = "if pre = [] then lo else snd (last pre)"
  have lo: "?lo \<le> f" using assms(2) pre [of "fst (last pre)" "snd (last pre)"] by auto
  have suf: "\<forall>(a, b) \<in> set suf. f \<le> b"
  proof (cases suf)
    case (Cons y r)
    obtain c d where y: "y = (c, d)" by fastforce
    have "c < d" "chain d r" using rs(3) Cons y by auto
    moreover have "f \<le> d" using back_if_head [OF ps [unfolded Cons y]] \<open>c < d\<close> by auto
    ultimately show ?thesis using Cons y chain_starts [of d r] by fastforce
  qed simp
  have ins: "snd (InsertRun f e rs) = pre @ own_loop f e suf"
    using insert_loop_own [OF suf rs(3) assms(3), of "e - f"] by (simp add: InsertRun_def ps split_beta)
  show "chain lo (snd (InsertRun f e rs))"
    unfolding ins chain_append using rs(2) own_loop_chain [OF rs(3) lo assms(3)] by blast
  show "in_ranges (snd (InsertRun f e rs)) x \<longleftrightarrow> f \<le> x \<and> x < e \<or> in_ranges rs x"
    using own_loop_ranges [OF rs(3) assms(3), of x] by (simp add: ins) (simp add: rs(1), blast)
  show "run_bytes (snd (InsertRun f e rs)) = run_bytes rs + fst (InsertRun f e rs)"
  proof -
    have "run_bytes rs = run_bytes pre + run_bytes suf" by (simp add: rs(1))
    then show ?thesis using insert_loop_bytes [OF suf rs(3) assms(3), of "e - f"]
      by (simp add: InsertRun_def ps split_beta)
  qed
qed

section \<open>Removal\<close>

lemma disown_loop_late: "chain lo rs \<Longrightarrow> e \<le> lo \<Longrightarrow> disown_loop f e rs = rs"
  by (cases rs) auto

lemma erase_loop_disown: "chain lo rs \<Longrightarrow> f < e \<Longrightarrow> snd (erase_loop f e n rs) = disown_loop f e rs"
  by (induction f e n rs arbitrary: lo rule: erase_loop.induct)
     (auto simp: Let_def split_beta disown_loop_late)

lemma erase_loop_bytes: "chain lo rs \<Longrightarrow> f < e \<Longrightarrow>
    fst (erase_loop f e n rs) + run_bytes (snd (erase_loop f e n rs)) = n + run_bytes rs"
  by (induction f e n rs arbitrary: lo rule: erase_loop.induct)
     (auto simp: Let_def split_beta min_def max_def not_less algebra_simps)

lemma EraseRun_correct:
  assumes "chain lo rs" "f < e"
  shows "chain lo (snd (EraseRun f e rs))"
    and "in_ranges (snd (EraseRun f e rs)) x \<longleftrightarrow> in_ranges rs x \<and> \<not> (f \<le> x \<and> x < e)"
    and "run_bytes (snd (EraseRun f e rs)) = run_bytes rs - fst (EraseRun f e rs)"
proof -
  obtain pre suf where ps: "back_if (\<lambda>_. True) (upper_bound f rs) = (pre, suf)" by fastforce
  have split: "rs = pre @ suf" "chain lo pre" "chain (if pre = [] then lo else snd (last pre)) suf"
      "\<And>a b. (a, b) \<in> set pre \<Longrightarrow> b \<le> f"
    using back_if_spec [OF assms(1) ps] by auto
  have suf: "snd (erase_loop f e 0 suf) = disown_loop f e suf" by (rule erase_loop_disown [OF split(3) assms(2)])
  have "\<not> (f \<le> x \<and> in_ranges pre x)" using split(4) by (fastforce simp: in_ranges_set)
  moreover have er: "snd (EraseRun f e rs) = pre @ disown_loop f e suf"
    using suf by (simp add: EraseRun_def ps split_beta)
  moreover note dis = disown_loop_correct [OF split(3) assms(2)]
  ultimately show "in_ranges (snd (EraseRun f e rs)) x \<longleftrightarrow> in_ranges rs x \<and> \<not> (f \<le> x \<and> x < e)"
    unfolding er in_ranges_append by (metis split(1) in_ranges_append)
  show "chain lo (snd (EraseRun f e rs))"
    unfolding er chain_append using split(2) dis by blast
  show "run_bytes (snd (EraseRun f e rs)) = run_bytes rs - fst (EraseRun f e rs)"
  proof -
    have "run_bytes rs = run_bytes pre + run_bytes suf" by (simp add: split(1))
    then show ?thesis using erase_loop_bytes [OF split(3) assms(2), of 0]
      by (simp add: EraseRun_def ps split_beta algebra_simps)
  qed
qed

section \<open>Gaps\<close>

lemma gaps_loop_correct: "chain lo rs \<Longrightarrow> \<forall>(a, b) \<in> set rs. c < b \<Longrightarrow>
    chain c (gaps_loop c e rs) \<and> (\<forall>x. in_ranges (gaps_loop c e rs) x \<longleftrightarrow> c \<le> x \<and> x < e \<and> \<not> in_ranges rs x)"
proof (induction c e rs arbitrary: lo rule: gaps_loop.induct)
  case (2 c e a b r)
  have r: "chain b r" "a < b" "c < b" using "2.prems" by auto
  have later: "in_ranges r x \<Longrightarrow> b \<le> x" for x by (rule chain_above [OF r(1)])
  have next_end: "\<forall>(u, v) \<in> set r. max c b < v" using chain_starts [OF r(1)] r(3) by fastforce
  show ?case
  proof (cases "a < e \<and> c < e")
    case True
    have m: "max c b = b" using r(3) by simp
    from "2.IH" [OF True r(1)] next_end
    have IH: "chain b (gaps_loop b e r)" "\<And>x. in_ranges (gaps_loop b e r) x \<longleftrightarrow> b \<le> x \<and> x < e \<and> \<not> in_ranges r x"
      unfolding m by auto
    have l: "gaps_loop c e ((a, b) # r) = (if a > c then [(c, a)] else []) @ gaps_loop b e r" using True m by simp
    have "chain c (gaps_loop c e ((a, b) # r))" unfolding l
      using IH(1) r by (cases "a > c") (auto elim: chain_mono)
    moreover have "in_ranges (gaps_loop c e ((a, b) # r)) x \<longleftrightarrow> c \<le> x \<and> x < e \<and> \<not> in_ranges ((a, b) # r) x" for x
      unfolding l in_ranges_append IH(2) using True r later [of x] by auto
    ultimately show ?thesis by blast
  next
    case False
    then have l: "gaps_loop c e ((a, b) # r) = (if c < e then [(c, e)] else [])" by simp
    have "\<not> in_ranges ((a, b) # r) x" if "c < e" "x < e" for x
      using False that later [of x] r(2) by auto
    then show ?thesis unfolding l by auto
  qed
qed auto

lemma Gaps_correct:
  assumes "chain lo rs"
  shows "chain f (Gaps rs f e)"
    and "in_ranges (Gaps rs f e) x \<longleftrightarrow> f \<le> x \<and> x < e \<and> \<not> in_ranges rs x"
proof -
  let ?P = "\<lambda>(a, b). b > f"
  obtain pre suf where ps: "back_if ?P (upper_bound f rs) = (pre, suf)" by fastforce
  have np: "\<And>a b. (a, b) \<in> set rs \<Longrightarrow> \<not> ?P (a, b) \<Longrightarrow> b \<le> f" by auto
  have split: "rs = pre @ suf" "chain (if pre = [] then lo else snd (last pre)) suf" "\<And>a b. (a, b) \<in> set pre \<Longrightarrow> b \<le> f"
    using back_if_spec [OF assms ps np] by auto
  have suf: "\<forall>(a, b) \<in> set suf. f < b"
  proof (cases suf)
    case (Cons y r)
    obtain c d where y: "y = (c, d)" by fastforce
    have "c < d" "chain d r" using split(2) Cons y by auto
    moreover have "f < d" using back_if_head [OF ps [unfolded Cons y]] \<open>c < d\<close> by auto
    ultimately show ?thesis using Cons y chain_starts [of d r] by fastforce
  qed simp
  have "\<not> (f \<le> x \<and> in_ranges pre x)" using split(3) by (fastforce simp: in_ranges_set)
  moreover have g: "Gaps rs f e = gaps_loop f e suf" by (simp add: Gaps_def ps)
  moreover note gaps = gaps_loop_correct [OF split(2) suf, of e]
  ultimately show "in_ranges (Gaps rs f e) x \<longleftrightarrow> f \<le> x \<and> x < e \<and> \<not> in_ranges rs x"
    by (metis split(1) in_ranges_append)
  show "chain f (Gaps rs f e)" unfolding g using gaps by blast
qed

end
