(* ===== verification/Page_Table.thy ===== *)
theory Page_Table
  imports Prelude
begin

text \<open>
  The table of guest page records of \<open>delta/gpu/guest_page_table.{h,cc}\<close>: two levels over the 47-bit user
  address space, with one record for each 4 KiB page and one counter of GPU-dirty ranges for each
  64 KiB block. \<open>room i\<close> is whether \<open>mmap\<close> gives memory for chunk \<open>i\<close>. Two threads that create the same chunk
  agree on one of them, so creating is one step.
\<close>

section \<open>Records\<close>

record Page =
  pg_readable :: u32
  pg_armed :: u8
  pg_ever_armed :: u8
  pg_reports :: u16
  pg_report_frame :: u32
  pg_previous_report :: u32
  pg_volatile_until :: u32

definition Page_new :: Page where
  "Page_new = \<lparr>pg_readable = 0, pg_armed = 0, pg_ever_armed = 0, pg_reports = 0, pg_report_frame = 0,
     pg_previous_report = 0, pg_volatile_until = 0\<rparr>"

record Chunk =
  ck_pages :: "u64 \<Rightarrow> Page"
  ck_cs_dirty :: "u64 \<Rightarrow> u16"

definition Chunk_new :: Chunk where
  "Chunk_new = \<lparr>ck_pages = (\<lambda>_. Page_new), ck_cs_dirty = (\<lambda>_. 0)\<rparr>"

type_synonym page_table = "u64 \<Rightarrow> Chunk option"

definition kPageShift :: nat where "kPageShift = 12"
definition kBlockShift :: nat where "kBlockShift = 16"
definition kChunkShift :: nat where "kChunkShift = 30"
definition kChunks :: u64 where "kChunks = push_bit (47 - kChunkShift) 1"
definition kPagesPerChunk :: u64 where "kPagesPerChunk = push_bit (kChunkShift - kPageShift) 1"
definition kBlocksPerChunk :: u64 where "kBlocksPerChunk = push_bit (kChunkShift - kBlockShift) 1"

definition page_table_init :: page_table where
  "page_table_init = (\<lambda>_. None)"

section \<open>Operations\<close>

definition Table_clear :: "page_table \<Rightarrow> page_table" where
  "Table_clear t = (\<lambda>_. None)"

definition FindChunk :: "u64 \<Rightarrow> page_table \<Rightarrow> Chunk option" where
  "FindChunk addr t = (let index = drop_bit kChunkShift addr in if index < kChunks then t index else None)"

definition ChunkAt :: "(u64 \<Rightarrow> bool) \<Rightarrow> u64 \<Rightarrow> page_table \<Rightarrow> Chunk option \<times> page_table" where
  "ChunkAt room addr t =
     (let index = drop_bit kChunkShift addr
      in if index \<ge> kChunks then (None, t)
         else case t index of Some c \<Rightarrow> (Some c, t)
              | None \<Rightarrow> if room index then (Some Chunk_new, t(index \<mapsto> Chunk_new)) else (None, t))"

definition page_slot :: "u64 \<Rightarrow> u64" where
  "page_slot addr = drop_bit kPageShift addr AND (kPagesPerChunk - 1)"

definition Find_page :: "u64 \<Rightarrow> page_table \<Rightarrow> Page option" where
  "Find_page addr t = map_option (\<lambda>c. ck_pages c (page_slot addr)) (FindChunk addr t)"

definition At_page :: "(u64 \<Rightarrow> bool) \<Rightarrow> u64 \<Rightarrow> page_table \<Rightarrow> Page option \<times> page_table" where
  "At_page room addr t = (case ChunkAt room addr t of (c, t) \<Rightarrow> (map_option (\<lambda>c. ck_pages c (page_slot addr)) c, t))"

text \<open>A store to a field of the record of an address, through the pointer that \<open>At\<close> or \<open>Find\<close> gave.\<close>

definition upd_page :: "u64 \<Rightarrow> (Page \<Rightarrow> Page) \<Rightarrow> page_table \<Rightarrow> page_table" where
  "upd_page addr f t = (case FindChunk addr t of None \<Rightarrow> t
     | Some c \<Rightarrow> t(drop_bit kChunkShift addr \<mapsto>
         c\<lparr>ck_pages := (ck_pages c)(page_slot addr := f (ck_pages c (page_slot addr)))\<rparr>))"

fun dirty_loop :: "(u64 \<Rightarrow> bool) \<Rightarrow> u16 \<Rightarrow> u64 list \<Rightarrow> page_table \<Rightarrow> page_table" where
  "dirty_loop room delta [] t = t"
| "dirty_loop room delta (block # bs) t =
     (case ChunkAt room (push_bit kBlockShift block) t of
        (None, t) \<Rightarrow> t
      | (Some c, t) \<Rightarrow>
          let slot = block AND (kBlocksPerChunk - 1)
          in dirty_loop room delta bs
               (t(drop_bit kChunkShift (push_bit kBlockShift block) \<mapsto>
                  c\<lparr>ck_cs_dirty := (ck_cs_dirty c)(slot := ck_cs_dirty c slot + delta)\<rparr>)))"

text \<open>The values of a loop variable that runs from \<open>a\<close> to \<open>b\<close>, both included.\<close>

definition up_to :: "u64 \<Rightarrow> u64 \<Rightarrow> u64 list" where
  "up_to a b = map of_nat [unat a..<Suc (unat b)]"

definition AddCsDirty :: "(u64 \<Rightarrow> bool) \<Rightarrow> u64 \<Rightarrow> u64 \<Rightarrow> int \<Rightarrow> page_table \<Rightarrow> page_table" where
  "AddCsDirty room f e delta t =
     (let e = min e (push_bit kChunkShift kChunks)
      in if f \<ge> e then t
         else dirty_loop room (word_of_int delta) (up_to (drop_bit kBlockShift f) (drop_bit kBlockShift (e - 1))) t)"

lemma or_low: "(w OR 2 ^ k - 1 :: u64) = (w AND NOT (2 ^ k - 1)) + (2 ^ k - 1)"
proof -
  have "(w AND NOT (2 ^ k - 1)) + (2 ^ k - 1) = (w AND NOT (2 ^ k - 1)) OR (2 ^ k - 1 :: u64)"
    by (rule disjunctive_add) (simp add: bit_simps)
  also have "\<dots> = w OR (2 ^ k - 1)"
    by (rule bit_eqI) (auto simp: bit_simps)
  finally show ?thesis by simp
qed

lemma later_block:
  assumes "unat (block :: u64) < 2 ^ 48"
  shows "unat ((block OR 0x3FFF) + 1) = unat block div 2 ^ 14 * 2 ^ 14 + 2 ^ 14"
    and "unat block < unat ((block OR 0x3FFF) + 1)" and "unat block < unat (block + 1)"
proof -
  have "block OR 0x3FFF = (block AND NOT 0x3FFF) + 0x3FFF" using or_low [of block 14] by simp
  then have "(block OR 0x3FFF) + 1 = (block AND NOT 0x3FFF) + 0x4000" by simp
  moreover have "unat (block AND NOT 0x3FFF) = unat block div 2 ^ 14 * 2 ^ 14"
    using unat_page_down [of block 14] by simp
  moreover have "unat block div 2 ^ 14 * 2 ^ 14 < 2 ^ 48"
    using assms by (meson div_times_less_eq_dividend order_le_less_trans)
  ultimately show u: "unat ((block OR 0x3FFF) + 1) = unat block div 2 ^ 14 * 2 ^ 14 + 2 ^ 14"
    by (simp add: unat_word_ariths)
  show "unat block < unat ((block OR 0x3FFF) + 1)"
    unfolding u using div_mult_mod_eq [of "unat block" "2 ^ 14"] mod_less_divisor [of "2 ^ 14" "unat block"]
    by simp
  show "unat block < unat (block + 1)" using assms by (simp add: unat_word_ariths)
qed

text \<open>
  A chunk that was never created is skipped as a whole. The bound on \<open>l\<close> always holds, because
  block numbers have 48 bits.
\<close>

function clear_loop :: "page_table \<Rightarrow> u64 \<Rightarrow> u64 \<Rightarrow> bool" where
  "clear_loop t block l =
     (if block \<le> l \<and> l < 2 ^ 48 then
        case FindChunk (push_bit kBlockShift block) t of
          None \<Rightarrow> clear_loop t ((block OR (kBlocksPerChunk - 1)) + 1) l
        | Some c \<Rightarrow> if ck_cs_dirty c (block AND (kBlocksPerChunk - 1)) \<noteq> 0 then False else clear_loop t (block + 1) l
      else True)"
  by pat_completeness auto

termination
proof (relation "measure (\<lambda>(t, block, l). Suc (unat l) - unat block)", goal_cases)
  case (2 t block l)
  then have "unat block < 2 ^ 48" by (simp add: word_le_nat_alt word_less_nat_alt)
  then have "unat block < unat ((block OR (kBlocksPerChunk - 1)) + 1)"
    using later_block(2) [of block] by (simp add: kBlocksPerChunk_def kChunkShift_def kBlockShift_def)
  moreover have "unat block \<le> unat l" using 2 by (simp add: word_le_nat_alt)
  ultimately show ?case unfolding in_measure split_conv by arith
next
  case (3 t block l c)
  then have "unat block < 2 ^ 48" by (simp add: word_le_nat_alt word_less_nat_alt)
  then have "unat block < unat (block + 1)" by (rule later_block(3))
  moreover have "unat block \<le> unat l" using 3 by (simp add: word_le_nat_alt)
  ultimately show ?case unfolding in_measure split_conv by arith
qed simp

declare clear_loop.simps [simp del]

definition CsClear :: "u64 \<Rightarrow> u64 \<Rightarrow> page_table \<Rightarrow> bool" where
  "CsClear f e t =
     (if f \<ge> e then True
      else if drop_bit kChunkShift (e - 1) \<ge> kChunks then False
      else clear_loop t (drop_bit kBlockShift f) (drop_bit kBlockShift (e - 1)))"

section \<open>Page records\<close>

text \<open>
  What a record says, whether or not its chunk exists: a page nobody wrote has the default record.
\<close>

definition page_at :: "page_table \<Rightarrow> u64 \<Rightarrow> Page" where
  "page_at t a = (case Find_page a t of None \<Rightarrow> Page_new | Some p \<Rightarrow> p)"

definition same_page :: "u64 \<Rightarrow> u64 \<Rightarrow> bool" where
  "same_page a b \<longleftrightarrow> drop_bit 12 a = drop_bit 12 b"

lemmas shift_consts = kPageShift_def kBlockShift_def kChunkShift_def kChunks_def kPagesPerChunk_def kBlocksPerChunk_def

lemma bits_split: "drop_bit (m + n) a = drop_bit (m + n) (b :: u64) \<and> take_bit n (drop_bit m a) = take_bit n (drop_bit m b)
    \<longleftrightarrow> drop_bit m a = drop_bit m b"
proof
  assume h: "drop_bit (m + n) a = drop_bit (m + n) b \<and> take_bit n (drop_bit m a) = take_bit n (drop_bit m b)"
  show "drop_bit m a = drop_bit m b"
  proof (rule bit_eqI)
    fix i
    show "bit (drop_bit m a) i = bit (drop_bit m b) i"
    proof (cases "i < n")
      case True
      with h have "bit (take_bit n (drop_bit m a)) i = bit (take_bit n (drop_bit m b)) i" by simp
      with True show ?thesis by (simp add: bit_simps)
    next
      case False
      with h have "bit (drop_bit (m + n) a) (i - n) = bit (drop_bit (m + n) b) (i - n)" by simp
      with False show ?thesis by (simp add: bit_simps)
    qed
  qed
next
  assume h: "drop_bit m a = drop_bit m b"
  then have "drop_bit n (drop_bit m a) = drop_bit n (drop_bit m b)" by (rule arg_cong)
  then have "drop_bit (m + n) a = drop_bit (m + n) b" unfolding drop_bit_drop_bit add.commute [of n] .
  then show "drop_bit (m + n) a = drop_bit (m + n) b \<and> take_bit n (drop_bit m a) = take_bit n (drop_bit m b)"
    using h by simp
qed

lemma page_slot_eq: "page_slot a = take_bit 18 (drop_bit 12 a)"
  by (simp add: page_slot_def shift_consts take_bit_eq_mask mask_eq_exp_minus_1)

lemma same_slot: "drop_bit 30 a = drop_bit 30 b \<and> page_slot a = page_slot b \<longleftrightarrow> same_page a b"
  using bits_split [of 12 18 a b] by (simp add: page_slot_eq same_page_def)

lemma same_page_refl [simp]: "same_page a a"
  by (simp add: same_page_def)

lemma same_page_sym: "same_page a b \<Longrightarrow> same_page b a"
  by (simp add: same_page_def)

lemma page_at_At [simp]: "page_at (snd (At_page room a t)) b = page_at t b"
  by (auto simp: page_at_def At_page_def ChunkAt_def Find_page_def FindChunk_def Let_def Chunk_new_def
      split: option.splits if_splits)

lemma Find_At: "fst (At_page room a t) = Some p \<Longrightarrow> Find_page a (snd (At_page room a t)) = Some p"
  by (auto simp: At_page_def ChunkAt_def Find_page_def FindChunk_def Let_def not_le split: option.splits if_splits)

lemma Find_At_kept: "Find_page b t = Some p \<Longrightarrow> Find_page b (snd (At_page room a t)) = Some p"
  by (auto simp: At_page_def ChunkAt_def Find_page_def FindChunk_def Let_def split: option.splits if_splits)

lemma At_known: "Find_page a t = Some p \<Longrightarrow> At_page room a t = (Some p, t)"
  by (auto simp: At_page_def ChunkAt_def Find_page_def FindChunk_def Let_def split: option.splits if_splits)

lemma At_page_at: "fst (At_page room a t) = Some p \<Longrightarrow> page_at t a = p"
  using Find_At [of room a t p] page_at_At [of room a t a] by (simp add: page_at_def)

lemma Find_page_at: "Find_page a t = Some p \<Longrightarrow> page_at t a = p"
  by (simp add: page_at_def)

lemma page_at_upd: "page_at (upd_page a f t) b =
    (if same_page a b \<and> Find_page a t \<noteq> None then f (page_at t b) else page_at t b)"
proof (cases "FindChunk a t")
  case None
  then show ?thesis by (simp add: upd_page_def Find_page_def)
next
  case (Some c)
  then have c: "drop_bit 30 a < kChunks" "t (drop_bit 30 a) = Some c"
    by (auto simp: FindChunk_def Let_def kChunkShift_def split: if_splits)
  show ?thesis
  proof (cases "drop_bit 30 b = drop_bit 30 a")
    case True
    then have "same_page a b \<longleftrightarrow> page_slot b = page_slot a" using same_slot [of a b] by auto
    with Some c True show ?thesis
      by (simp add: page_at_def upd_page_def Find_page_def FindChunk_def kChunkShift_def)
  next
    case False
    then have "\<not> same_page a b" using same_slot [of a b] by auto
    with Some c False show ?thesis
      by (simp add: page_at_def upd_page_def Find_page_def FindChunk_def kChunkShift_def Let_def)
  qed
qed

lemma Find_upd_kept: "Find_page b t \<noteq> None \<Longrightarrow> Find_page b (upd_page a f t) \<noteq> None"
  by (auto simp: upd_page_def Find_page_def FindChunk_def Let_def split: option.splits if_splits)


section \<open>Dirty blocks\<close>

text \<open>The counter of a block, 0 in a chunk that does not exist, and the blocks a range touches.\<close>

definition cs_count :: "page_table \<Rightarrow> u64 \<Rightarrow> u16" where
  "cs_count t b = (case t (drop_bit 14 b) of None \<Rightarrow> 0 | Some c \<Rightarrow> ck_cs_dirty c (b AND 0x3FFF))"

definition touches_block :: "u64 \<Rightarrow> u64 \<Rightarrow> u64 \<Rightarrow> bool" where
  "touches_block f e b \<longleftrightarrow> f < e \<and> drop_bit 16 f \<le> b \<and> b \<le> drop_bit 16 (e - 1)"

lemma block_slot: "b AND 0x3FFF = take_bit 14 (b :: u64)"
  by (simp add: take_bit_eq_mask mask_eq_exp_minus_1)

lemma same_block: "drop_bit 14 a = drop_bit 14 b \<and> a AND 0x3FFF = b AND 0x3FFF \<longleftrightarrow> a = (b :: u64)"
  using bits_split [of 0 14 a b] by (simp add: block_slot)

lemma unat_drop: "unat (drop_bit n (a :: u64)) = unat a div 2 ^ n"
  unfolding unat_drop_bit_eq by (simp only: drop_bit_eq_div)

lemma unat_of_small: "i \<le> unat (b :: u64) \<Longrightarrow> unat (of_nat i :: u64) = i"
  using unat_bound [of b] by (simp add: unat_of_nat)

lemma block_chunk: "b < 2 ^ 48 \<Longrightarrow> drop_bit 30 (push_bit 16 b) = drop_bit 14 (b :: u64)"
proof (rule bit_eqI)
  fix i
  assume b: "b < 2 ^ 48"
  have "unat (drop_bit 48 b) = 0" using b unfolding unat_drop by (simp add: word_less_nat_alt)
  then have z: "drop_bit 48 b = 0" by (simp add: unat_eq_0)
  have "bit b j \<Longrightarrow> j < 48" for j
  proof (rule ccontr)
    assume j: "bit b j" "\<not> j < 48"
    then have "bit (drop_bit 48 b) (j - 48)" by (simp add: bit_simps)
    then show False by (simp add: z)
  qed
  then show "bit (drop_bit 30 (push_bit 16 b)) i = bit (drop_bit 14 b) i"
    by (force simp: bit_simps)
qed

lemma chunk_index: "b < 2 ^ 31 \<Longrightarrow> drop_bit 14 (b :: u64) < kChunks"
proof -
  assume "b < 2 ^ 31"
  then have "unat b < 2 ^ 31" by (simp add: word_less_nat_alt)
  then have "unat (drop_bit 14 b) < 2 ^ 17" unfolding unat_drop by simp
  then show ?thesis by (simp add: shift_consts word_less_nat_alt)
qed

lemma dirty_one:
  assumes "b < 2 ^ 31" "\<And>i. i < kChunks \<Longrightarrow> room i"
  shows "dirty_loop room d (b # bs) t = dirty_loop room d bs
    (t(drop_bit 14 b \<mapsto> (let c = (case t (drop_bit 14 b) of None \<Rightarrow> Chunk_new | Some c \<Rightarrow> c)
       in c\<lparr>ck_cs_dirty := (ck_cs_dirty c)(b AND 0x3FFF := ck_cs_dirty c (b AND 0x3FFF) + d)\<rparr>)))"
proof -
  have "b < 2 ^ 48" using assms(1) by (rule order_less_trans) simp
  then have b: "drop_bit 30 (push_bit 16 b) = drop_bit 14 b" by (rule block_chunk)
  have "drop_bit 14 b < kChunks" by (rule chunk_index [OF assms(1)])
  then show ?thesis
    using assms(2) b by (simp add: ChunkAt_def kBlockShift_def kChunkShift_def kBlocksPerChunk_def not_le [symmetric] Let_def
        split: option.splits)
qed

lemma cs_count_upd: "cs_count (t(drop_bit 14 b \<mapsto> (let c = (case t (drop_bit 14 b) of None \<Rightarrow> Chunk_new | Some c \<Rightarrow> c)
       in c\<lparr>ck_cs_dirty := (ck_cs_dirty c)(b AND 0x3FFF := ck_cs_dirty c (b AND 0x3FFF) + d)\<rparr>))) x
    = cs_count t x + (if x = b then d else 0)"
  using same_block [of x b] by (auto simp: cs_count_def Let_def Chunk_new_def split: option.splits)

lemma dirty_loop_count:
  assumes "\<forall>b \<in> set bs. b < 2 ^ 31" "\<And>i. i < kChunks \<Longrightarrow> room i" "distinct bs"
  shows "cs_count (dirty_loop room d bs t) x = cs_count t x + (if x \<in> set bs then d else 0)"
  using assms(1,3)
proof (induction bs arbitrary: t)
  case (Cons b bs)
  from Cons.prems(1) have "b < 2 ^ 31" by simp
  from dirty_one [where room = room, OF this assms(2)] show ?case
    using Cons by (auto simp: cs_count_upd simp del: dirty_loop.simps)
qed simp

lemma up_to_set: "x \<in> set (up_to a b) \<longleftrightarrow> a \<le> x \<and> x \<le> b"
proof
  assume "x \<in> set (up_to a b)"
  then obtain i where i: "x = of_nat i" "unat a \<le> i" "i \<le> unat b" by (auto simp: up_to_def less_Suc_eq_le)
  then have "unat x = i" by (simp only: unat_of_small)
  with i show "a \<le> x \<and> x \<le> b" by (simp only: word_le_nat_alt)
next
  assume "a \<le> x \<and> x \<le> b"
  then have "unat x \<in> {unat a..<Suc (unat b)}" by (simp add: word_le_nat_alt less_Suc_eq_le)
  then have "of_nat (unat x) \<in> (of_nat :: nat \<Rightarrow> u64) ` {unat a..<Suc (unat b)}" by (rule imageI)
  moreover have "of_nat (unat x) = x" by simp
  ultimately show "x \<in> set (up_to a b)" by (simp only: up_to_def set_map set_upt)
qed

lemma up_to_distinct: "distinct (up_to a b)"
  unfolding up_to_def distinct_map
proof (intro conjI distinct_upt inj_onI)
  fix i j assume "i \<in> set [unat a..<Suc (unat b)]" "j \<in> set [unat a..<Suc (unat b)]" "(of_nat i :: u64) = of_nat j"
  then show "i = j" unfolding set_upt atLeastLessThan_iff less_Suc_eq_le by (metis unat_of_small)
qed

lemma drop_bit_mono: "a \<le> (b :: u64) \<Longrightarrow> drop_bit n a \<le> drop_bit n b"
  unfolding word_le_nat_alt unat_drop by (rule div_le_mono)

lemma user_block: "e \<le> 2 ^ 47 \<Longrightarrow> e \<noteq> 0 \<Longrightarrow> drop_bit 16 (e - 1 :: u64) < 2 ^ 31"
proof -
  assume e: "e \<le> 2 ^ 47" "e \<noteq> 0"
  then have "unat (e - 1) < 2 ^ 47" by (simp add: word_le_nat_alt unat_minus_one unat_gt_0 less_le_trans) 
  then have "unat (drop_bit 16 (e - 1)) < 2 ^ 31" unfolding unat_drop by simp
  then show ?thesis by (simp add: word_less_nat_alt)
qed

lemma AddCsDirty_count:
  assumes "\<And>i. i < kChunks \<Longrightarrow> room i"
  shows "cs_count (AddCsDirty room f e d t) x =
    cs_count t x + (if touches_block f (min e (2 ^ 47)) x then word_of_int d else 0)"
proof -
  have k: "push_bit kChunkShift kChunks = (2 ^ 47 :: u64)" by (simp add: shift_consts)
  define u where "u = min e (2 ^ 47 :: u64)"
  show ?thesis
  proof (cases "f < u")
    case True
    then have "u \<noteq> 0" by (metis word_not_simps(1))
    then have "drop_bit 16 (u - 1) < 2 ^ 31" by (intro user_block) (simp_all add: u_def)
    then have "\<forall>b \<in> set (up_to (drop_bit 16 f) (drop_bit 16 (u - 1))). b < 2 ^ 31"
      by (meson order_le_less_trans up_to_set)
    note count = dirty_loop_count [where room = room, OF this assms up_to_distinct]
    show ?thesis unfolding AddCsDirty_def k Let_def u_def [symmetric]
      using True by (auto simp: count up_to_set touches_block_def kBlockShift_def not_le dest: leD)
  next
    case False
    then show ?thesis unfolding AddCsDirty_def k Let_def u_def [symmetric] by (auto simp: touches_block_def not_less)
  qed
qed

lemma later_blocks:
  assumes "block \<le> b" "(b :: u64) < 2 ^ 31" "FindChunk (push_bit 16 block) t = None"
  shows "b < (block OR 0x3FFF) + 1 \<Longrightarrow> cs_count t b = 0"
proof -
  have lt: "block < 2 ^ 31" using assms(1,2) by (rule order_le_less_trans)
  then have "block < 2 ^ 48" by (rule order_less_trans) simp
  then have n: "t (drop_bit 14 block) = None"
    using assms(3) chunk_index [OF lt] by (simp add: FindChunk_def kChunkShift_def block_chunk)
  assume "b < (block OR 0x3FFF) + 1"
  then have "unat b < unat block div 2 ^ 14 * 2 ^ 14 + 2 ^ 14"
    using later_block(1) [of block] \<open>block < 2 ^ 48\<close> by (simp add: word_less_nat_alt)
  moreover have "unat block div 2 ^ 14 \<le> unat b div 2 ^ 14" using assms(1) by (simp add: word_le_nat_alt div_le_mono)
  ultimately have "unat b div 2 ^ 14 = unat block div 2 ^ 14"
    by (intro order_antisym) (simp_all add: less_Suc_eq_le [symmetric] div_less_iff_less_mult)
  then have "drop_bit 14 b = drop_bit 14 block" unfolding word_unat_eq_iff unat_drop .
  with n show "cs_count t b = 0" by (simp add: cs_count_def)
qed

lemma clear_loop_counts: "l < 2 ^ 31 \<Longrightarrow> clear_loop t block l \<longleftrightarrow> (\<forall>b. block \<le> b \<and> b \<le> l \<longrightarrow> cs_count t b = 0)"
proof (induction t block l rule: clear_loop.induct)
  case (1 t block l)
  have l: "l < 2 ^ 48" using "1.prems" by (rule order_less_trans) simp
  show ?case
  proof (cases "block \<le> l")
    case True
    have lt: "block < 2 ^ 31" using True "1.prems" by (rule order_le_less_trans)
    then have "block < 2 ^ 48" by (rule order_less_trans) simp
    then have c: "FindChunk (push_bit 16 block) t = t (drop_bit 14 block)"
      using chunk_index [OF lt] by (simp add: FindChunk_def kChunkShift_def block_chunk)
    have nx: "unat block < 2 ^ 48" using \<open>block < 2 ^ 48\<close> by (simp add: word_less_nat_alt)
    show ?thesis
    proof (cases "FindChunk (push_bit 16 block) t")
      case None
      have "clear_loop t block l \<longleftrightarrow> clear_loop t ((block OR 0x3FFF) + 1) l"
        using True l None by (subst clear_loop.simps) (simp add: shift_consts)
      also have "\<dots> \<longleftrightarrow> (\<forall>b. (block OR 0x3FFF) + 1 \<le> b \<and> b \<le> l \<longrightarrow> cs_count t b = 0)"
        using "1.IH"(1) True l None "1.prems" by (simp add: shift_consts)
      also have "\<dots> \<longleftrightarrow> (\<forall>b. block \<le> b \<and> b \<le> l \<longrightarrow> cs_count t b = 0)"
      proof -
        have z: "block \<le> b \<Longrightarrow> b \<le> l \<Longrightarrow> b < (block OR 0x3FFF) + 1 \<Longrightarrow> cs_count t b = 0" for b
          using later_blocks [of block b t] None "1.prems" by (meson order_le_less_trans)
        have le: "(block OR 0x3FFF) + 1 \<le> b \<Longrightarrow> block \<le> b" for b
          using later_block(2) [OF nx] unfolding word_le_nat_alt by (meson less_imp_le order_trans)
        show ?thesis using z le by (meson linorder_not_le)
      qed
      finally show ?thesis .
    next
      case (Some k)
      have cnt: "cs_count t block = ck_cs_dirty k (block AND 0x3FFF)" using Some c by (simp add: cs_count_def)
      have step: "block \<le> b \<longleftrightarrow> b = block \<or> block + 1 \<le> b" for b
        using later_block(3) [OF nx] by (auto simp: word_le_nat_alt unat_word_ariths word_unat_eq_iff)
      have "clear_loop t block l \<longleftrightarrow> cs_count t block = 0 \<and> clear_loop t (block + 1) l"
        using True l Some cnt by (subst clear_loop.simps) (simp add: shift_consts)
      also have "\<dots> \<longleftrightarrow> (\<forall>b. block \<le> b \<and> b \<le> l \<longrightarrow> cs_count t b = 0)"
        using "1.IH"(2) True l Some cnt "1.prems" step by (auto simp: shift_consts)
      finally show ?thesis .
    qed
  next
    case False
    then show ?thesis by (subst clear_loop.simps) auto
  qed
qed


text \<open>
  The dirty ranges as a history of \<open>AddCsDirty\<close> calls, and how many of them are live on a block.
\<close>

definition cs_history :: "(u64 \<Rightarrow> bool) \<Rightarrow> (u64 \<times> u64 \<times> int) list \<Rightarrow> page_table" where
  "cs_history room calls = fold (\<lambda>(f, e, d). AddCsDirty room f e d) calls page_table_init"

definition live_on :: "(u64 \<times> u64 \<times> int) list \<Rightarrow> u64 \<Rightarrow> int" where
  "live_on calls b = (\<Sum>(f, e, d)\<leftarrow>calls. if touches_block f (min e (2 ^ 47)) b then d else 0)"

lemma fold_cs_count:
  assumes "\<And>i. i < kChunks \<Longrightarrow> room i"
  shows "cs_count (fold (\<lambda>(f, e, d). AddCsDirty room f e d) calls t) b = cs_count t b + word_of_int (live_on calls b)"
proof (induction calls arbitrary: t)
  case (Cons c calls)
  obtain f e d where c: "c = (f, e, d)" by (cases c) auto
  show ?case unfolding c
    by (simp add: Cons.IH AddCsDirty_count [where room = room, OF assms] live_on_def)
qed (simp add: live_on_def)

lemma user_end: "e \<noteq> 0 \<Longrightarrow> drop_bit 30 (e - 1 :: u64) < kChunks \<longleftrightarrow> e \<le> 2 ^ 47"
proof -
  assume e: "e \<noteq> 0"
  have "drop_bit 30 (e - 1) < kChunks \<longleftrightarrow> unat (e - 1) div 2 ^ 30 < 2 ^ 17"
    unfolding word_less_nat_alt unat_drop by (simp add: shift_consts)
  also have "\<dots> \<longleftrightarrow> unat (e - 1) < 2 ^ 47" by (simp add: div_less_iff_less_mult)
  also have "\<dots> \<longleftrightarrow> unat e \<le> 2 ^ 47"
  proof -
    have "unat (e - 1) = unat e - 1" "0 < unat e" using e by (simp_all add: unat_minus_one unat_gt_0)
    then show ?thesis by linarith
  qed
  also have "\<dots> \<longleftrightarrow> e \<le> 2 ^ 47" by (simp add: word_le_nat_alt)
  finally show ?thesis .
qed



definition ex_dirty :: "(u64 \<times> u64 \<times> int) list" where
  "ex_dirty = [(0x10000, 0x30000, 1), (0x20000, 0x28000, 1), (0x10000, 0x30000, - 1)]"


end
