(* ===== verification/Write_Tracker.thy ===== *)
theory Write_Tracker
  imports Run_Map Page_Table "HOL-Library.Monad_Syntax"
begin

text \<open>
  The write tracker of \<open>delta/gpu/write_tracker.{h,cc}\<close>: which guest pages were written since a cache
  copied them. One thread owns the tracker; guest threads fault on protected pages, let the host kernel
  write, or map memory, and run into the tracker at any moment. The owner's operations are functions
  that let the other threads act before each of their own atomic accesses (\<open>interfere\<close>); what the
  others do is a schedule in the state. Each of the others is at a program counter and moves by one
  atomic access at a time.

  Host protection is one bit for each page, and what a page holds is one value. The counters of the
  queue are natural numbers. An operation is \<open>None\<close> when the owner still waits for a writer to fill its slot
  at the end of the schedule, or when the queue holds more pages than it has slots. In scan mode the
  kernel finds the written pages and its answers are arguments.
\<close>

section \<open>State\<close>

definition kPage :: u64 where "kPage = 4096"
definition kRegisterAlign :: u64 where "kRegisterAlign = 4096"
definition kScanGap :: u64 where "kScanGap = 1024 * 1024"
definition kCoalesceGap :: u64 where "kCoalesceGap = 64 * 1024"
definition kHotReports :: u16 where "kHotReports = 3"
definition kVolatileFrames :: u32 where "kVolatileFrames = 600"
definition kOpen :: u8 where "kOpen = 0"
definition kProtected :: u8 where "kProtected = 1"
definition kQueued :: u8 where "kQueued = 2"
definition kQueueSize :: nat where "kQueueSize = 2 ^ 20"

definition PageDown :: "u64 \<Rightarrow> u64" where
  "PageDown v = v AND NOT (kPage - 1)"

definition PageUp :: "u64 \<Rightarrow> u64" where
  "PageUp v = (v + kPage - 1) AND NOT (kPage - 1)"

text \<open>
  Where another thread is: in \<open>OnWriteFault\<close> (after its exchange, after \<open>mprotect\<close>, in \<open>Enqueue\<close> with its
  slot), in \<open>OnHostWrite\<close> (with the page, the end and the run it collects), in \<open>OpenedByOwner\<close>, or
  between mapping memory and \<open>NoteRemap\<close>.
\<close>

datatype wpc =
    Resting
  | Fault_protect u64
  | Fault_claim u64
  | Fault_fill nat u64
  | Host_page u64 u64 u64
  | Host_claim u64 u64 u64
  | Host_fill nat u64 u64 u64
  | Host_flush u64 u64 u64
  | Owner_page u64 u64
  | Owner_claim u64 u64
  | Owner_fill nat u64 u64
  | Remap_note u64 u64

datatype wt_act =
    Store nat u64 nat
  | Move nat
  | Host_write nat u64 u64
  | Open_by_owner nat u64 u64
  | Remap nat u64 u64 nat
  | Note_write u64 u64

datatype wt_mode = Tracker_off | Scan_mode | Fault_mode

record tracker =
  wt_mode :: wt_mode
  wt_table :: page_table
  wt_writable :: "u64 \<Rightarrow> bool"
  wt_content :: "u64 \<Rightarrow> nat"
  wt_slots :: "nat \<Rightarrow> u64"
  wt_head :: nat
  wt_tail :: nat
  wt_resolve :: "(u64 \<Rightarrow> u64 \<Rightarrow> bool) option"
  wt_owns :: "(u64 \<Rightarrow> u64 \<Rightarrow> bool) option"
  wt_armed :: ranges
  wt_registered :: ranges
  wt_armed_bytes :: u64
  wt_noted :: ranges
  wt_remapped :: ranges
  wt_reported :: "u64 list"
  wt_frame :: u32
  wt_collects :: u64
  wt_written_pages :: u64
  wt_faults_at_scan :: int
  wt_threads :: "nat \<Rightarrow> wpc"
  wt_others :: "wt_act list list"

text \<open>The rest of the host during an operation, and the policy of the platform.\<close>

record wt_env =
  we_room :: "u64 \<Rightarrow> bool"
  we_queue :: bool
  we_scan_option :: bool
  we_uffd :: bool
  we_mprotect :: "u64 \<Rightarrow> u64 \<Rightarrow> bool"
  we_register :: "u64 \<Rightarrow> u64 \<Rightarrow> bool"
  we_writeprotect :: "u64 \<Rightarrow> u64 \<Rightarrow> bool"
  we_scan :: "u64 \<Rightarrow> u64 \<Rightarrow> (ranges \<times> u64) option list"
  we_faults :: int
  we_arm_filter :: "u64 \<Rightarrow> u64 \<Rightarrow> bool"
  we_before :: ranges

definition enabled :: "tracker \<Rightarrow> bool" where
  "enabled s \<longleftrightarrow> wt_mode s \<noteq> Tracker_off"

section \<open>Single accesses\<close>

definition armed_of :: "u64 \<Rightarrow> tracker \<Rightarrow> u8 option" where
  "armed_of p s = map_option pg_armed (Find_page p (wt_table s))"

definition set_armed :: "u64 \<Rightarrow> u8 \<Rightarrow> tracker \<Rightarrow> tracker" where
  "set_armed p v s = s\<lparr>wt_table := upd_page p (\<lambda>r. r\<lparr>pg_armed := v\<rparr>) (wt_table s)\<rparr>"

text \<open>\<open>compare_exchange_strong\<close> on the state of a page that has a record.\<close>

definition exchange :: "u64 \<Rightarrow> u8 \<Rightarrow> u8 \<Rightarrow> tracker \<Rightarrow> bool \<times> tracker" where
  "exchange p old new s = (if armed_of p s = Some old then (True, set_armed p new s) else (False, s))"

definition mprotect :: "u64 \<Rightarrow> u64 \<Rightarrow> bool \<Rightarrow> tracker \<Rightarrow> tracker" where
  "mprotect f e w s = s\<lparr>wt_writable := (\<lambda>p. if f \<le> p \<and> p < e then w else wt_writable s p)\<rparr>"

definition claim_slot :: "tracker \<Rightarrow> (nat \<times> tracker) option" where
  "claim_slot s = (if wt_head s - wt_tail s < kQueueSize then Some (wt_head s, s\<lparr>wt_head := Suc (wt_head s)\<rparr>) else None)"

definition fill_slot :: "nat \<Rightarrow> u64 \<Rightarrow> tracker \<Rightarrow> tracker" where
  "fill_slot i p s = s\<lparr>wt_slots := (wt_slots s)(i mod kQueueSize := p)\<rparr>"

definition at_pc :: "nat \<Rightarrow> wpc \<Rightarrow> tracker \<Rightarrow> tracker" where
  "at_pc t pc s = s\<lparr>wt_threads := (wt_threads s)(t := pc)\<rparr>"

definition At_record :: "wt_env \<Rightarrow> u64 \<Rightarrow> tracker \<Rightarrow> Page option \<times> tracker" where
  "At_record h p s = (case At_page (we_room h) p (wt_table s) of (r, t) \<Rightarrow> (r, s\<lparr>wt_table := t\<rparr>))"

definition NoteWrite :: "u64 \<Rightarrow> u64 \<Rightarrow> tracker \<Rightarrow> tracker" where
  "NoteWrite base n s =
     (if \<not> enabled s \<or> n = 0 then s else s\<lparr>wt_noted := wt_noted s @ [(PageDown base, PageUp (base + n))]\<rparr>)"

definition NoteRemap :: "u64 \<Rightarrow> u64 \<Rightarrow> tracker \<Rightarrow> tracker" where
  "NoteRemap base n s =
     (if \<not> enabled s \<or> n = 0 then s else s\<lparr>wt_remapped := wt_remapped s @ [(PageDown base, PageUp (base + n))]\<rparr>)"

section \<open>The other threads\<close>

text \<open>
  \<open>OnWriteFault\<close> up to its exchange. A fault that is not the tracker's, or that another thread is
  opening right now, leaves the thread where it was: it faults again or is killed.
\<close>

definition OnWriteFault :: "nat \<Rightarrow> u64 \<Rightarrow> tracker \<Rightarrow> tracker" where
  "OnWriteFault t a s =
     (let page = a AND NOT (kPage - 1)
      in if (case wt_resolve s of None \<Rightarrow> False | Some r \<Rightarrow> r page (page + kPage)) then s
         else case Find_page page (wt_table s) of None \<Rightarrow> s
           | Some r \<Rightarrow> if pg_ever_armed r = 0 then s
               else case exchange page kProtected kQueued s of (ok, s) \<Rightarrow> if ok then at_pc t (Fault_protect page) s else s)"

text \<open>One access of a thread that is inside the tracker.\<close>

fun thread_step :: "nat \<Rightarrow> wpc \<Rightarrow> tracker \<Rightarrow> tracker option" where
  "thread_step t Resting s = Some s"
| "thread_step t (Fault_protect p) s = Some (at_pc t (Fault_claim p) (mprotect p (p + kPage) True s))"
| "thread_step t (Fault_claim p) s = do { (i, s) \<leftarrow> claim_slot s; Some (at_pc t (Fault_fill i p) s) }"
| "thread_step t (Fault_fill i p) s = Some (at_pc t Resting (fill_slot i p s))"
| "thread_step t (Host_page p e run) s =
     (if p < e then
        case exchange p kProtected kQueued s of (ok, s) \<Rightarrow>
          Some (at_pc t (if ok then Host_claim p e (if run = 0 then p else run) else Host_flush p e run) s)
      else Some (at_pc t Resting (if run \<noteq> 0 then mprotect run e True s else s)))"
| "thread_step t (Host_claim p e run) s = do { (i, s) \<leftarrow> claim_slot s; Some (at_pc t (Host_fill i p e run) s) }"
| "thread_step t (Host_fill i p e run) s = Some (at_pc t (Host_page (p + kPage) e run) (fill_slot i p s))"
| "thread_step t (Host_flush p e run) s =
     Some (at_pc t (Host_page (p + kPage) e 0) (if run \<noteq> 0 then mprotect run p True s else s))"
| "thread_step t (Owner_page p e) s =
     (if p < e then
        case exchange p kProtected kQueued s of (ok, s) \<Rightarrow>
          Some (at_pc t (if ok then Owner_claim p e else Owner_page (p + kPage) e) s)
      else Some (at_pc t Resting s))"
| "thread_step t (Owner_claim p e) s = do { (i, s) \<leftarrow> claim_slot s; Some (at_pc t (Owner_fill i p e) s) }"
| "thread_step t (Owner_fill i p e) s = Some (at_pc t (Owner_page (p + kPage) e) (fill_slot i p s))"
| "thread_step t (Remap_note b n) s = Some (at_pc t Resting (NoteRemap b n s))"

text \<open>
  \<open>Store\<close> is a write of the guest; \<open>Host_write\<close> is \<open>OnHostWrite\<close>; \<open>Open_by_owner\<close> is another owner of
  memory that opens a range and says so; \<open>Remap\<close> maps new, writable memory.
\<close>

definition aligned_end :: "u64 \<Rightarrow> u64 \<Rightarrow> u64" where
  "aligned_end a n = (a + n + kPage - 1) AND NOT (kPage - 1)"

fun wt_act_step :: "wt_act \<Rightarrow> tracker \<Rightarrow> tracker option" where
  "wt_act_step (Store t a v) s =
     (if wt_threads s t \<noteq> Resting then Some s
      else if wt_writable s (PageDown a) then Some (s\<lparr>wt_content := (wt_content s)(PageDown a := v)\<rparr>)
      else Some (OnWriteFault t a s))"
| "wt_act_step (Move t) s = thread_step t (wt_threads s t) s"
| "wt_act_step (Host_write t a n) s =
     (if wt_threads s t \<noteq> Resting then Some s
      else Some (at_pc t (Host_page (a AND NOT (kPage - 1)) (aligned_end a n) 0) s))"
| "wt_act_step (Open_by_owner t f e) s =
     (if wt_threads s t \<noteq> Resting then Some s else Some (at_pc t (Owner_page f e) (mprotect f e True s)))"
| "wt_act_step (Remap t b n v) s =
     (if wt_threads s t \<noteq> Resting \<or> n = 0 then Some s
      else let s = mprotect (PageDown b) (PageUp (b + n)) True s
           in Some (at_pc t (Remap_note b n)
             (s\<lparr>wt_content := (\<lambda>p. if PageDown b \<le> p \<and> p < PageUp (b + n) then v else wt_content s p)\<rparr>)))"
| "wt_act_step (Note_write b n) s = Some (NoteWrite b n s)"

fun wt_acts :: "wt_act list \<Rightarrow> tracker \<Rightarrow> tracker option" where
  "wt_acts [] s = Some s"
| "wt_acts (a # as) s = do { s \<leftarrow> wt_act_step a s; wt_acts as s }"

definition interfere :: "tracker \<Rightarrow> tracker option" where
  "interfere s = (case wt_others s of [] \<Rightarrow> Some s | as # r \<Rightarrow> wt_acts as (s\<lparr>wt_others := r\<rparr>))"

section \<open>Protecting and opening pages\<close>

text \<open>The pages a loop \<open>for (page = first; page < end; page += kPage)\<close> visits.\<close>

definition page_list :: "u64 \<Rightarrow> u64 \<Rightarrow> u64 list" where
  "page_list f e = map (\<lambda>i. f + of_nat i * kPage) [0..<(if f < e then (unat (e - f) + 4095) div 4096 else 0)]"

text \<open>\<open>ArmFault\<close> refuses a page that is written too often or whose last write was not collected.\<close>

fun may_arm :: "u64 list \<Rightarrow> tracker \<Rightarrow> (bool \<times> tracker) option" where
  "may_arm [] s = Some (True, s)"
| "may_arm (p # ps) s = do {
     s \<leftarrow> interfere s;
     case Find_page p (wt_table s) of
       None \<Rightarrow> may_arm ps s
     | Some r \<Rightarrow> if pg_volatile_until r > wt_frame s \<or> pg_armed r = kQueued then Some (False, s) else may_arm ps s }"

fun reopen :: "u64 list \<Rightarrow> tracker \<Rightarrow> tracker option" where
  "reopen [] s = Some s"
| "reopen (p # ps) s = do { s \<leftarrow> interfere s; reopen ps (set_armed p kOpen s) }"

text \<open>The lambda \<open>protect\<close> of \<open>ArmFault\<close>; \<open>run\<close> is reset by the caller.\<close>

definition protect_run :: "wt_env \<Rightarrow> u64 \<Rightarrow> u64 \<Rightarrow> tracker \<Rightarrow> (bool \<times> tracker) option" where
  "protect_run h run stop s =
     (if run = 0 then Some (True, s)
      else do {
        s \<leftarrow> interfere s;
        if we_mprotect h run (stop - run) then Some (True, mprotect run stop False s)
        else do { s \<leftarrow> reopen (page_list run stop) s; Some (False, s) } })"

fun arm_pages :: "wt_env \<Rightarrow> u64 list \<Rightarrow> u64 \<Rightarrow> u64 \<Rightarrow> tracker \<Rightarrow> (bool \<times> tracker) option" where
  "arm_pages h [] e run s = protect_run h run e s"
| "arm_pages h (p # ps) e run s = do {
     s \<leftarrow> interfere s;
     case At_record h p s of
       (None, s) \<Rightarrow> Some (False, s)
     | (Some r, s) \<Rightarrow>
         if pg_armed r \<noteq> kOpen then do {
           (ok, s) \<leftarrow> protect_run h run p s;
           if \<not> ok then Some (False, s) else arm_pages h ps e 0 s }
         else do {
           s \<leftarrow> interfere s;
           let s = s\<lparr>wt_table := upd_page p (\<lambda>r. r\<lparr>pg_ever_armed := 1\<rparr>) (wt_table s)\<rparr>;
           s \<leftarrow> interfere s;
           arm_pages h ps e (if run = 0 then p else run) (set_armed p kProtected s) } }"

definition add_armed :: "u64 \<Rightarrow> u64 \<Rightarrow> tracker \<Rightarrow> tracker" where
  "add_armed f e s = (case InsertRun f e (wt_armed s) of (n, rs) \<Rightarrow>
     s\<lparr>wt_armed := rs, wt_armed_bytes := wt_armed_bytes s + n\<rparr>)"

definition drop_armed :: "u64 \<Rightarrow> u64 \<Rightarrow> tracker \<Rightarrow> tracker" where
  "drop_armed f e s = (case EraseRun f e (wt_armed s) of (n, rs) \<Rightarrow>
     s\<lparr>wt_armed := rs, wt_armed_bytes := wt_armed_bytes s - n\<rparr>)"

definition drop_registered :: "u64 \<Rightarrow> u64 \<Rightarrow> tracker \<Rightarrow> tracker" where
  "drop_registered f e s = s\<lparr>wt_registered := snd (EraseRun f e (wt_registered s))\<rparr>"

definition ArmFault :: "wt_env \<Rightarrow> u64 \<Rightarrow> u64 \<Rightarrow> tracker \<Rightarrow> (bool \<times> tracker) option" where
  "ArmFault h f e s = do {
     s \<leftarrow> interfere s;
     if (case wt_owns s of None \<Rightarrow> False | Some owns \<Rightarrow> owns f e) then Some (False, s)
     else if of_nat (kQueueSize div 2) \<le> (wt_armed_bytes s + (e - f)) div kPage then Some (False, s)
     else do {
       (ok, s) \<leftarrow> may_arm (page_list f e) s;
       if \<not> ok then Some (False, s)
       else do {
         (ok, s) \<leftarrow> arm_pages h (page_list f e) e 0 s;
         if \<not> ok then Some (False, s) else Some (True, add_armed f e s) } } }"

text \<open>One exchange for each page of the list, in the state the others leave before it.\<close>

fun exchange_pages :: "wt_env \<Rightarrow> u8 \<Rightarrow> u64 list \<Rightarrow> tracker \<Rightarrow> tracker option" where
  "exchange_pages h old [] s = Some s"
| "exchange_pages h old (p # ps) s = do {
     s \<leftarrow> interfere s;
     case At_record h p s of
       (None, s) \<Rightarrow> exchange_pages h old ps s
     | (Some _, s) \<Rightarrow> exchange_pages h old ps (snd (exchange p old kOpen s)) }"

definition DisarmFault :: "wt_env \<Rightarrow> u64 \<Rightarrow> u64 \<Rightarrow> tracker \<Rightarrow> tracker option" where
  "DisarmFault h f e s = do {
     s \<leftarrow> exchange_pages h kProtected (page_list f e) s;
     s \<leftarrow> interfere s;
     Some (drop_armed f e (mprotect f e True s)) }"

section \<open>Collecting written pages\<close>

text \<open>
  The owner takes a slot; a slot not filled yet is looked at again, which ends when the schedule
  does.
\<close>

function take_slot :: "nat \<Rightarrow> tracker \<Rightarrow> (u64 \<times> tracker) option" where
  "take_slot i s = (case interfere s of None \<Rightarrow> None | Some s' \<Rightarrow>
     if wt_slots s' (i mod kQueueSize) \<noteq> 0
     then Some (wt_slots s' (i mod kQueueSize), s'\<lparr>wt_slots := (wt_slots s')(i mod kQueueSize := 0)\<rparr>)
     else if length (wt_others s') < length (wt_others s) then take_slot i s' else None)"
  by pat_completeness auto
termination by (relation "measure (\<lambda>(i, s). length (wt_others s))") auto

declare take_slot.simps [simp del]

fun take_slots :: "nat list \<Rightarrow> tracker \<Rightarrow> (u64 list \<times> tracker) option" where
  "take_slots [] s = Some ([], s)"
| "take_slots (i # is) s = do {
     (p, s) \<leftarrow> take_slot i s;
     (ps, s) \<leftarrow> take_slots is s;
     Some (p # ps, s) }"

text \<open>The written pages, sorted, as ranges: a page that touches the range before it joins it.\<close>

fun merge_pages :: "u64 \<Rightarrow> u64 \<Rightarrow> u64 list \<Rightarrow> ranges" where
  "merge_pages f e [] = [(f, e)]"
| "merge_pages f e (p # ps) =
     (if p \<le> e then merge_pages f (max e (p + kPage)) ps else (f, e) # merge_pages p (p + kPage) ps)"

definition page_runs :: "u64 list \<Rightarrow> ranges" where
  "page_runs ps = (case ps of [] \<Rightarrow> [] | p # ps \<Rightarrow> merge_pages p (p + kPage) ps)"

fun open_runs :: "wt_env \<Rightarrow> ranges \<Rightarrow> tracker \<Rightarrow> tracker option" where
  "open_runs h [] s = Some s"
| "open_runs h ((f, e) # r) s = do {
     s \<leftarrow> exchange_pages h kQueued (page_list f e) s;
     open_runs h r (drop_armed f e s) }"

definition TakeFaulted :: "wt_env \<Rightarrow> tracker \<Rightarrow> (ranges \<times> tracker) option" where
  "TakeFaulted h s = do {
     s \<leftarrow> interfere s;
     let head = wt_head s;
     if head = wt_tail s then Some ([], s)
     else do {
       (ps, s) \<leftarrow> take_slots [wt_tail s..<head] s;
       let runs = page_runs (sort ps);
       s \<leftarrow> open_runs h runs (s\<lparr>wt_tail := head\<rparr>);
       Some (runs, s) } }"

text \<open>\<open>MarkArmed\<close> stores without looking, and creates the records it needs.\<close>

fun mark_pages :: "wt_env \<Rightarrow> u8 \<Rightarrow> u64 list \<Rightarrow> tracker \<Rightarrow> tracker option" where
  "mark_pages h v [] s = Some s"
| "mark_pages h v (p # ps) s = do {
     s \<leftarrow> interfere s;
     case At_record h p s of
       (None, s) \<Rightarrow> mark_pages h v ps s
     | (Some _, s) \<Rightarrow> mark_pages h v ps (set_armed p v s) }"

definition MarkArmed :: "wt_env \<Rightarrow> u64 \<Rightarrow> u64 \<Rightarrow> bool \<Rightarrow> tracker \<Rightarrow> tracker option" where
  "MarkArmed h f e armed = mark_pages h (if armed then 1 else 0) (page_list f e)"

fun erase_marks :: "wt_env \<Rightarrow> u64 \<Rightarrow> u64 \<Rightarrow> ranges \<Rightarrow> tracker \<Rightarrow> tracker option" where
  "erase_marks h f e [] s = Some s"
| "erase_marks h f e ((a, b) # r) s =
     (if a < e then do {
        s \<leftarrow> (if b > f then MarkArmed h (max f a) (min e b) False s else Some s);
        erase_marks h f e r s }
      else Some s)"

definition EraseArmed :: "wt_env \<Rightarrow> u64 \<Rightarrow> u64 \<Rightarrow> tracker \<Rightarrow> tracker option" where
  "EraseArmed h f e s = do {
     s \<leftarrow> erase_marks h f e (snd (back_if (\<lambda>_. True) (upper_bound f (wt_armed s)))) s;
     Some (drop_armed f e s) }"

fun all_armed :: "u64 list \<Rightarrow> tracker \<Rightarrow> (bool \<times> tracker) option" where
  "all_armed [] s = Some (True, s)"
| "all_armed (p # ps) s = do {
     s \<leftarrow> interfere s;
     if armed_of p s \<noteq> Some 1 then Some (False, s) else all_armed ps s }"

definition AllArmed :: "u64 \<Rightarrow> u64 \<Rightarrow> tracker \<Rightarrow> (bool \<times> tracker) option" where
  "AllArmed f e = all_armed (page_list f e)"

section \<open>Scan mode\<close>

text \<open>Each gap is registered with coarser bounds first and exactly if that fails.\<close>

fun register_gaps :: "wt_env \<Rightarrow> ranges \<Rightarrow> tracker \<Rightarrow> bool \<times> tracker" where
  "register_gaps h [] s = (True, s)"
| "register_gaps h ((lo, hi) # r) s =
     (let a = lo AND NOT (kRegisterAlign - 1); b = (hi + kRegisterAlign - 1) AND NOT (kRegisterAlign - 1)
      in if we_register h a (b - a) then register_gaps h r (s\<lparr>wt_registered := snd (InsertRun a b (wt_registered s))\<rparr>)
         else if we_register h lo (hi - lo) then register_gaps h r (s\<lparr>wt_registered := snd (InsertRun lo hi (wt_registered s))\<rparr>)
         else (False, s))"

definition Register :: "wt_env \<Rightarrow> u64 \<Rightarrow> u64 \<Rightarrow> tracker \<Rightarrow> bool \<times> tracker" where
  "Register h f e s = register_gaps h (Gaps (wt_registered s) f e) s"

fun protect_gaps :: "wt_env \<Rightarrow> ranges \<Rightarrow> tracker \<Rightarrow> (bool \<times> tracker) option" where
  "protect_gaps h [] s = Some (True, s)"
| "protect_gaps h ((lo, hi) # r) s =
     (if \<not> we_writeprotect h lo (hi - lo) then Some (False, s)
      else do { s \<leftarrow> MarkArmed h lo hi True (add_armed lo hi s); protect_gaps h r s })"

definition volatile_page :: "u64 \<Rightarrow> tracker \<Rightarrow> bool" where
  "volatile_page p s = (case Find_page p (wt_table s) of None \<Rightarrow> False | Some r \<Rightarrow> pg_volatile_until r > wt_frame s)"

definition ArmRange :: "wt_env \<Rightarrow> u64 \<Rightarrow> u64 \<Rightarrow> tracker \<Rightarrow> (bool \<times> tracker) option" where
  "ArmRange h f e s =
     (if wt_mode s = Fault_mode then ArmFault h f e s
      else if list_ex (\<lambda>p. volatile_page p s) (page_list f e) then Some (False, s)
      else case Register h f e s of (ok, s) \<Rightarrow>
        if \<not> ok then Some (False, s) else protect_gaps h (Gaps (wt_armed s) f e) s)"

text \<open>A small gap to a neighbouring armed run is closed.\<close>

definition widen :: "u64 \<Rightarrow> u64 \<Rightarrow> ranges \<Rightarrow> u64 \<times> u64" where
  "widen f e rs =
     (let pre = takeWhile (\<lambda>x. fst x < f) rs; suf = dropWhile (\<lambda>x. fst x < f) rs
      in (if pre \<noteq> [] \<and> snd (last pre) < f \<and> f - snd (last pre) \<le> kCoalesceGap then snd (last pre) else f,
          if suf \<noteq> [] \<and> fst (hd suf) > e \<and> fst (hd suf) - e \<le> kCoalesceGap then fst (hd suf) else e))"

definition Arm :: "wt_env \<Rightarrow> u64 \<Rightarrow> u64 \<Rightarrow> tracker \<Rightarrow> (bool \<times> tracker) option" where
  "Arm h base n s =
     (let f = PageDown base; e = PageUp (base + n)
      in if \<not> enabled s \<or> n = 0 \<or> \<not> we_arm_filter h f e then Some (False, s)
         else do {
           (ok, s) \<leftarrow> AllArmed f e s;
           if ok then Some (True, s)
           else if wt_mode s = Fault_mode then ArmRange h f e s
           else do {
             let (wf, we) = widen f e (wt_armed s);
             (ok, s) \<leftarrow> (if wf \<noteq> f \<or> we \<noteq> e then ArmRange h wf we s else Some (False, s));
             if ok then Some (True, s) else ArmRange h f e s } })"

definition Disarm :: "wt_env \<Rightarrow> u64 \<Rightarrow> u64 \<Rightarrow> tracker \<Rightarrow> tracker option" where
  "Disarm h f e s =
     (if wt_mode s = Fault_mode then DisarmFault h f e s else EraseArmed h f e (drop_registered f e s))"

text \<open>
  The answers of \<open>PAGEMAP_SCAN\<close> for a span, one for each call: the written regions, at most 256, and
  where the walk ended.
\<close>

fun Scan :: "u64 \<Rightarrow> (ranges \<times> u64) option list \<Rightarrow> ranges \<Rightarrow> (bool \<times> ranges) option" where
  "Scan e [] out = None"
| "Scan e (None # r) out = Some (False, out)"
| "Scan e (Some (rs, walk_end) # r) out =
     (if walk_end \<ge> e \<or> length rs < 256 then Some (True, out @ rs) else Scan e r (out @ rs))"

text \<open>Runs close together are one span.\<close>

fun scan_spans :: "u64 \<Rightarrow> u64 \<Rightarrow> ranges \<Rightarrow> ranges" where
  "scan_spans f e [] = [(f, e)]"
| "scan_spans f e ((a, b) # r) = (if a - e < kScanGap then scan_spans f b r else (f, e) # scan_spans a b r)"

fun scan_all :: "wt_env \<Rightarrow> ranges \<Rightarrow> ranges \<Rightarrow> ranges option" where
  "scan_all h [] out = Some out"
| "scan_all h ((f, e) # r) out = do {
     (ok, out) \<leftarrow> Scan e (we_scan h f e) out;
     scan_all h r (if ok then out else out @ [(f, e)]) }"

section \<open>The owner's operations\<close>

fun drain_remapped :: "wt_env \<Rightarrow> ranges \<Rightarrow> tracker \<Rightarrow> tracker option" where
  "drain_remapped h [] s = Some s"
| "drain_remapped h ((f, e) # r) s = do {
     s \<leftarrow> EraseArmed h f e (drop_registered f e s);
     drain_remapped h r s }"

definition Drain :: "wt_env \<Rightarrow> tracker \<Rightarrow> (ranges \<times> tracker) option" where
  "Drain h s = do {
     s \<leftarrow> interfere s;
     let noted = wt_noted s;
     let remapped = wt_remapped s;
     s \<leftarrow> drain_remapped h remapped (s\<lparr>wt_noted := [], wt_remapped := []\<rparr>);
     Some (noted @ remapped, s) }"

definition report_page :: "u32 \<Rightarrow> Page \<Rightarrow> Page" where
  "report_page frame p =
     (let p = (if pg_report_frame p \<noteq> frame
          then p\<lparr>pg_previous_report := pg_report_frame p, pg_report_frame := frame, pg_reports := 0\<rparr> else p)
      in p\<lparr>pg_reports := pg_reports p + 1\<rparr>)"

fun count_reports :: "wt_env \<Rightarrow> u64 list \<Rightarrow> tracker \<Rightarrow> tracker" where
  "count_reports h [] s = s"
| "count_reports h (p # ps) s =
     (let s = s\<lparr>wt_written_pages := wt_written_pages s + 1\<rparr>
      in case At_record h p s of
           (None, s) \<Rightarrow> count_reports h ps s
         | (Some r, s) \<Rightarrow>
             let s = (if pg_report_frame r \<noteq> wt_frame s then s\<lparr>wt_reported := wt_reported s @ [p]\<rparr> else s)
             in count_reports h ps (s\<lparr>wt_table := upd_page p (report_page (wt_frame s)) (wt_table s)\<rparr>))"

definition Collect :: "wt_env \<Rightarrow> tracker \<Rightarrow> (ranges \<times> tracker) option" where
  "Collect h s =
     (if \<not> enabled s then Some ([], s)
      else do {
        let s = fold (\<lambda>(b, n). NoteWrite b n) (we_before h) s;
        let s = s\<lparr>wt_collects := wt_collects s + 1\<rparr>;
        (drained, s) \<leftarrow> Drain h s;
        (written, s) \<leftarrow> (if wt_mode s = Fault_mode then TakeFaulted h s
          else if we_faults h \<noteq> wt_faults_at_scan s \<and> wt_armed s \<noteq> []
          then do { out \<leftarrow> scan_all h (scan_spans (fst (hd (wt_armed s))) (snd (hd (wt_armed s))) (tl (wt_armed s))) [];
                    Some (out, s) }
          else Some ([], s));
        let s = (if wt_mode s = Fault_mode then s else s\<lparr>wt_faults_at_scan := we_faults h\<rparr>);
        s \<leftarrow> interfere s;
        Some (drained @ written, count_reports h (concat (map (\<lambda>(f, e). page_list (PageDown f) e) written)) s) })"

definition Release :: "wt_env \<Rightarrow> u64 \<Rightarrow> u64 \<Rightarrow> tracker \<Rightarrow> tracker option" where
  "Release h base n s =
     (if \<not> enabled s \<or> n = 0 then Some s
      else let f = PageDown base; e = PageUp (base + n)
           in do {
             s \<leftarrow> (if wt_mode s = Fault_mode then DisarmFault h f e s else Disarm h f e s);
             s \<leftarrow> interfere s;
             Some (NoteWrite base n s) })"

definition hot_page :: "tracker \<Rightarrow> u64 \<Rightarrow> bool" where
  "hot_page s p = (case Find_page p (wt_table s) of None \<Rightarrow> False
     | Some r \<Rightarrow> pg_reports r \<ge> kHotReports \<or> pg_previous_report r + 1 = wt_frame s)"

fun hot_runs :: "u64 \<Rightarrow> u64 \<Rightarrow> u64 list \<Rightarrow> ranges" where
  "hot_runs f e [] = [(f, e)]"
| "hot_runs f e (p # ps) = (if p = e then hot_runs f (e + kPage) ps else (f, e) # hot_runs p (p + kPage) ps)"

definition demote_runs :: "u64 list \<Rightarrow> ranges" where
  "demote_runs ps = (case ps of [] \<Rightarrow> [] | p # ps \<Rightarrow> hot_runs p (p + kPage) ps)"

definition make_volatile :: "wt_env \<Rightarrow> u64 \<Rightarrow> tracker \<Rightarrow> tracker" where
  "make_volatile h p s = (case At_record h p s of (None, s) \<Rightarrow> s
     | (Some _, s) \<Rightarrow> s\<lparr>wt_table := upd_page p (\<lambda>r. r\<lparr>pg_volatile_until := wt_frame s + kVolatileFrames\<rparr>) (wt_table s)\<rparr>)"

fun demote :: "wt_env \<Rightarrow> ranges \<Rightarrow> tracker \<Rightarrow> tracker option" where
  "demote h [] s = Some s"
| "demote h ((f, e) # r) s = do {
     s \<leftarrow> Disarm h f e (fold (make_volatile h) (page_list f e) s);
     s \<leftarrow> interfere s;
     demote h r (NoteWrite f (e - f) s) }"

definition EndFrame :: "wt_env \<Rightarrow> tracker \<Rightarrow> tracker option" where
  "EndFrame h s =
     (if \<not> enabled s then Some s
      else let hot = filter (hot_page s) (wt_reported s)
           in demote h (demote_runs (sort hot)) (s\<lparr>wt_reported := [], wt_frame := wt_frame s + 1\<rparr>))"

definition SetOwner :: "(u64 \<Rightarrow> u64 \<Rightarrow> bool) option \<Rightarrow> (u64 \<Rightarrow> u64 \<Rightarrow> bool) option \<Rightarrow> tracker \<Rightarrow> tracker" where
  "SetOwner resolve owns s = s\<lparr>wt_owns := owns, wt_resolve := resolve\<rparr>"

definition EnableFault :: "wt_env \<Rightarrow> tracker \<Rightarrow> bool \<times> tracker" where
  "EnableFault h s = (if \<not> we_queue h then (False, s) else (True, s\<lparr>wt_slots := (\<lambda>_. 0), wt_mode := Fault_mode\<rparr>))"

definition EnableScan :: "wt_env \<Rightarrow> tracker \<Rightarrow> bool \<times> tracker" where
  "EnableScan h s = (if \<not> we_uffd h then (False, s) else (True, s\<lparr>wt_mode := Scan_mode\<rparr>))"

definition Enable :: "wt_env \<Rightarrow> tracker \<Rightarrow> bool \<times> tracker" where
  "Enable h s =
     (if enabled s then (True, s)
      else if we_scan_option h then EnableScan h s
      else case EnableFault h s of (ok, s) \<Rightarrow> if ok then (True, s) else EnableScan h s)"

text \<open>The table of page records, the protection of the pages and the other threads are not the tracker's to reset.\<close>

definition Tracker_Reset :: "tracker \<Rightarrow> tracker" where
  "Tracker_Reset s = (SetOwner None None s)\<lparr>wt_mode := Tracker_off, wt_slots := (\<lambda>_. 0), wt_head := 0, wt_tail := 0,
     wt_armed := [], wt_registered := [], wt_armed_bytes := 0, wt_noted := [], wt_remapped := [], wt_reported := [],
     wt_frame := 1, wt_collects := 0, wt_written_pages := 0, wt_faults_at_scan := - 1\<rparr>"

definition tracker_init :: tracker where
  "tracker_init = \<lparr>wt_mode = Tracker_off, wt_table = page_table_init, wt_writable = (\<lambda>_. True), wt_content = (\<lambda>_. 0),
     wt_slots = (\<lambda>_. 0), wt_head = 0, wt_tail = 0, wt_resolve = None, wt_owns = None, wt_armed = [], wt_registered = [],
     wt_armed_bytes = 0, wt_noted = [], wt_remapped = [], wt_reported = [], wt_frame = 1, wt_collects = 0,
     wt_written_pages = 0, wt_faults_at_scan = - 1, wt_threads = (\<lambda>_. Resting), wt_others = []\<rparr>"

section \<open>Runs\<close>

text \<open>
  One call of the owner with what the others do during it, or actions of the others between two calls.
  The result is whether \<open>Arm\<close> succeeded and what \<open>Collect\<close> reported.
\<close>

datatype wt_call = Call_arm u64 u64 | Call_collect | Call_release u64 u64 | Call_end_frame

fun wt_exec :: "wt_env \<Rightarrow> wt_call \<Rightarrow> wt_act list list \<Rightarrow> tracker \<Rightarrow> (bool \<times> ranges \<times> tracker) option" where
  "wt_exec h (Call_arm b n) sched s = do { (ok, s) \<leftarrow> Arm h b n (s\<lparr>wt_others := sched\<rparr>); Some (ok, [], s) }"
| "wt_exec h Call_collect sched s = do { (out, s) \<leftarrow> Collect h (s\<lparr>wt_others := sched\<rparr>); Some (True, out, s) }"
| "wt_exec h (Call_release b n) sched s = do { s \<leftarrow> Release h b n (s\<lparr>wt_others := sched\<rparr>); Some (True, [], s) }"
| "wt_exec h Call_end_frame sched s = do { s \<leftarrow> EndFrame h (s\<lparr>wt_others := sched\<rparr>); Some (True, [], s) }"

end
