(* ===== verification/Tracker_Safe.thy ===== *)
theory Tracker_Safe
  imports Write_Tracker
begin

text \<open>
  Writes to armed pages are not lost. The invariant of the queue of written pages and of the threads
  that fill it, and what keeps the content of an armed page known: it is protected, or a report of it is
  on its way.
\<close>

section \<open>Pages and their states\<close>

definition aligned :: "u64 \<Rightarrow> bool" where
  "aligned p \<longleftrightarrow> p AND 0xFFF = 0"

abbreviation state_of :: "tracker \<Rightarrow> u64 \<Rightarrow> u8" where
  "state_of s p \<equiv> pg_armed (page_at (wt_table s) p)"

lemma aligned_unat: "aligned p \<longleftrightarrow> unat p mod 4096 = 0"
proof -
  have "p AND 0xFFF = take_bit 12 p" by (simp add: take_bit_eq_mask mask_eq_exp_minus_1)
  moreover have "unat (take_bit 12 p) = unat p mod 4096" by (simp add: take_bit_eq_mod unat_mod_distrib)
  ultimately show ?thesis by (metis aligned_def unat_eq_0)
qed

lemma same_page_div: "same_page p q \<longleftrightarrow> unat p div 4096 = unat q div 4096"
  unfolding same_page_def word_unat_eq_iff unat_drop by simp

lemma same_aligned: "aligned p \<Longrightarrow> aligned q \<Longrightarrow> same_page p q \<longleftrightarrow> p = q"
proof
  assume a: "aligned p" "aligned q" and "same_page p q"
  then have "unat p div 4096 = unat q div 4096" by (simp add: same_page_div)
  moreover have "unat p mod 4096 = 0" "unat q mod 4096 = 0" using a by (simp_all add: aligned_unat)
  ultimately have "unat p = unat q" by (metis div_mult_mod_eq)
  then show "p = q" by (simp add: word_unat_eq_iff)
qed simp

lemma aligned_gap: "aligned p \<Longrightarrow> aligned q \<Longrightarrow> q < p \<Longrightarrow> q + 4096 \<le> p \<and> unat (q + 4096) = unat q + 4096"
proof -
  assume a: "aligned p" "aligned q" "q < p"
  obtain k l where "unat p = 4096 * k" "unat q = 4096 * l"
    using a(1,2) unfolding aligned_unat mod_eq_0_iff_dvd by (meson dvdE)
  moreover from this a(3) have "l < k" by (simp add: word_less_nat_alt)
  ultimately have "unat q + 4096 \<le> unat p" by linarith
  moreover from this have "unat (q + 4096) = unat q + 4096" using unat_bound [of p] by (simp add: unat_word_ariths)
  ultimately show ?thesis by (simp add: word_le_nat_alt)
qed

lemma aligned_next: "aligned q \<Longrightarrow> aligned (q + 4096)"
proof -
  assume "aligned q"
  then have "(unat q + 4096) mod 2 ^ 64 mod 4096 = 0" unfolding aligned_unat by (simp add: mod_mod_cancel)
  then show ?thesis by (simp add: aligned_unat unat_word_ariths)
qed

lemma aligned_down: "aligned (a AND NOT 0xFFF)"
  by (simp add: aligned_def and.assoc)

lemma aligned_minus [simp]: "aligned (a AND - 4096)"
  using aligned_down [of a] by simp

lemma aligned_pages [simp]: "aligned (PageDown a)" "aligned (PageUp a)"
  by (simp_all add: PageDown_def PageUp_def kPage_def)

lemma aligned_in_page: "aligned p \<Longrightarrow> aligned q \<Longrightarrow> q \<le> p \<Longrightarrow> p < q + 4096 \<Longrightarrow> p = q"
  using aligned_gap [of p q] by (cases "p = q") (auto simp: order_le_less dest: leD)

lemma armed_of_state: "v \<noteq> 0 \<Longrightarrow> armed_of p s = Some v \<longleftrightarrow> state_of s p = v"
  by (auto simp: armed_of_def page_at_def Page_new_def split: option.splits)

lemma state_set: "aligned p \<Longrightarrow> aligned q \<Longrightarrow> state_of s q \<noteq> 0 \<Longrightarrow>
    state_of (set_armed q v s) p = (if p = q then v else state_of s p)"
  by (auto simp: set_armed_def page_at_upd same_aligned page_at_def [of _ q] Page_new_def split: option.splits)

lemma state_set_other: "aligned p \<Longrightarrow> aligned q \<Longrightarrow> p \<noteq> q \<Longrightarrow> state_of (set_armed q v s) p = state_of s p"
  by (auto simp: set_armed_def page_at_upd same_aligned)

lemma exchange_state: "old \<noteq> 0 \<Longrightarrow>
    exchange q old new s = (if state_of s q = old then (True, set_armed q new s) else (False, s))"
  by (simp add: exchange_def armed_of_state)

lemma set_armed_fields [simp]:
  "wt_mode (set_armed q v s) = wt_mode s" "wt_writable (set_armed q v s) = wt_writable s"
  "wt_content (set_armed q v s) = wt_content s" "wt_slots (set_armed q v s) = wt_slots s"
  "wt_head (set_armed q v s) = wt_head s" "wt_tail (set_armed q v s) = wt_tail s"
  "wt_noted (set_armed q v s) = wt_noted s" "wt_remapped (set_armed q v s) = wt_remapped s"
  "wt_threads (set_armed q v s) = wt_threads s" "wt_others (set_armed q v s) = wt_others s" "wt_reported (set_armed q v s) = wt_reported s"
  by (simp_all add: set_armed_def)

section \<open>The invariant\<close>

text \<open>The page a thread will put into the queue, and the slot it already has for it.\<close>

fun claim_of :: "wpc \<Rightarrow> u64 option" where
  "claim_of (Fault_protect p) = Some p"
| "claim_of (Fault_claim p) = Some p"
| "claim_of (Host_claim p e run) = Some p"
| "claim_of (Owner_claim p e) = Some p"
| "claim_of _ = None"

fun fill_of :: "wpc \<Rightarrow> (nat \<times> u64) option" where
  "fill_of (Fault_fill i p) = Some (i, p)"
| "fill_of (Host_fill i p e run) = Some (i, p)"
| "fill_of (Owner_fill i p e) = Some (i, p)"
| "fill_of _ = None"

text \<open>Whether a thread is about to make a page writable that it took before.\<close>

fun will_open :: "wpc \<Rightarrow> u64 \<Rightarrow> bool" where
  "will_open (Fault_protect q) p \<longleftrightarrow> p = q"
| "will_open (Host_page q e run) p \<longleftrightarrow> run \<noteq> 0 \<and> run \<le> p \<and> p < q"
| "will_open (Host_claim q e run) p \<longleftrightarrow> run \<le> p \<and> p \<le> q"
| "will_open (Host_fill i q e run) p \<longleftrightarrow> run \<le> p \<and> p \<le> q"
| "will_open (Host_flush q e run) p \<longleftrightarrow> run \<noteq> 0 \<and> run \<le> p \<and> p < q"
| "will_open _ p \<longleftrightarrow> False"

text \<open>Whether a thread will still announce a page it opened or mapped.\<close>

fun announcing :: "wpc \<Rightarrow> u64 \<Rightarrow> bool" where
  "announcing (Owner_page q e) p \<longleftrightarrow> q \<le> p \<and> p < e"
| "announcing (Owner_claim q e) p \<longleftrightarrow> q < p \<and> p < e"
| "announcing (Owner_fill i q e) p \<longleftrightarrow> q < p \<and> p < e"
| "announcing _ p \<longleftrightarrow> False"

fun mapping_at :: "wpc \<Rightarrow> u64 \<Rightarrow> bool" where
  "mapping_at (Remap_note b n) p \<longleftrightarrow> n \<noteq> 0 \<and> PageDown b \<le> p \<and> p < PageUp (b + n)"
| "mapping_at _ p \<longleftrightarrow> False"

text \<open>Pages that can be in the queue: the table of records ends with user space.\<close>

definition valid :: "u64 \<Rightarrow> bool" where
  "valid p \<longleftrightarrow> aligned p \<and> p \<noteq> 0 \<and> p < 2 ^ 47"

lemma valid_aligned: "valid p \<Longrightarrow> aligned p"
  by (simp add: valid_def)

lemma state_user: "aligned p \<Longrightarrow> state_of s p \<noteq> 0 \<Longrightarrow> p \<noteq> 0 \<Longrightarrow> valid p"
proof -
  assume "aligned p" "state_of s p \<noteq> 0" "p \<noteq> 0"
  moreover from this have "drop_bit 30 p < kChunks"
    by (auto simp: page_at_def Find_page_def FindChunk_def Let_def kChunkShift_def Page_new_def split: if_splits option.splits)
  then have "unat p div 2 ^ 30 < 2 ^ 17" unfolding word_less_nat_alt unat_drop by (simp add: shift_consts)
  then have "p < 2 ^ 47" by (simp add: word_less_nat_alt div_less_iff_less_mult)
  ultimately show ?thesis by (simp add: valid_def)
qed

fun pc_ok :: "wpc \<Rightarrow> bool" where
  "pc_ok Resting \<longleftrightarrow> True"
| "pc_ok (Fault_protect p) \<longleftrightarrow> valid p"
| "pc_ok (Fault_claim p) \<longleftrightarrow> valid p"
| "pc_ok (Fault_fill i p) \<longleftrightarrow> valid p"
| "pc_ok (Host_page p e run) \<longleftrightarrow> aligned p \<and> aligned e"
| "pc_ok (Host_claim p e run) \<longleftrightarrow> valid p \<and> aligned e \<and> p < e \<and> run \<noteq> 0"
| "pc_ok (Host_fill i p e run) \<longleftrightarrow> valid p \<and> aligned e \<and> p < e \<and> run \<noteq> 0"
| "pc_ok (Host_flush p e run) \<longleftrightarrow> aligned p \<and> aligned e \<and> p < e"
| "pc_ok (Owner_page p e) \<longleftrightarrow> aligned p"
| "pc_ok (Owner_claim p e) \<longleftrightarrow> valid p"
| "pc_ok (Owner_fill i p e) \<longleftrightarrow> valid p"
| "pc_ok (Remap_note b n) \<longleftrightarrow> True"

fun act_ok :: "wt_act \<Rightarrow> bool" where
  "act_ok (Open_by_owner t f e) \<longleftrightarrow> aligned f"
| "act_ok _ \<longleftrightarrow> True"

definition queue_ok :: "tracker \<Rightarrow> bool" where
  "queue_ok s \<longleftrightarrow> wt_tail s \<le> wt_head s \<and> wt_head s \<le> wt_tail s + kQueueSize
    \<and> (\<forall>i. wt_head s \<le> i \<and> i < wt_tail s + kQueueSize \<longrightarrow> wt_slots s (i mod kQueueSize) = 0)
    \<and> (\<forall>t i p. fill_of (wt_threads s t) = Some (i, p) \<longrightarrow> wt_tail s \<le> i \<and> i < wt_head s \<and> wt_slots s (i mod kQueueSize) = 0)
    \<and> (\<forall>i. wt_slots s i \<noteq> 0 \<longrightarrow> valid (wt_slots s i))
    \<and> (\<forall>t u i p q. fill_of (wt_threads s t) = Some (i, p) \<and> fill_of (wt_threads s u) = Some (i, q) \<longrightarrow> t = u)"

definition tracker_ok :: "tracker \<Rightarrow> bool" where
  "tracker_ok s \<longleftrightarrow> queue_ok s \<and> (\<forall>t. pc_ok (wt_threads s t)) \<and> state_of s 0 \<noteq> kProtected \<and> wt_mode s = Fault_mode
    \<and> (\<forall>as \<in> set (wt_others s). \<forall>a \<in> set as. act_ok a)
    \<and> (\<forall>(a, b) \<in> set (wt_remapped s). aligned a \<and> aligned b) \<and> (\<forall>q \<in> set (wt_reported s). aligned q)"

text \<open>A written page that is in the queue, or that a thread is about to put there.\<close>

definition in_slot :: "nat \<Rightarrow> u64 \<Rightarrow> tracker \<Rightarrow> bool" where
  "in_slot i p s \<longleftrightarrow> wt_tail s \<le> i \<and> i < wt_head s \<and> wt_slots s (i mod kQueueSize) = p"

definition slotted :: "tracker \<Rightarrow> u64 \<Rightarrow> bool" where
  "slotted s p \<longleftrightarrow> (\<exists>i. wt_tail s \<le> i \<and> i < wt_head s \<and> wt_slots s (i mod kQueueSize) = p)"

definition held :: "tracker \<Rightarrow> u64 \<Rightarrow> bool" where
  "held s p \<longleftrightarrow> (\<exists>t. claim_of (wt_threads s t) = Some p \<or> (\<exists>i. fill_of (wt_threads s t) = Some (i, p)))"

definition reportable :: "tracker \<Rightarrow> u64 \<Rightarrow> bool" where
  "reportable s p \<longleftrightarrow> state_of s p = kQueued \<and> (slotted s p \<or> held s p)
    \<or> in_ranges (wt_noted s) p \<or> in_ranges (wt_remapped s) p
    \<or> (\<exists>t. mapping_at (wt_threads s t) p)
    \<or> state_of s p = kProtected \<and> (\<exists>t. announcing (wt_threads s t) p)"

definition guarded :: "tracker \<Rightarrow> u64 \<Rightarrow> nat \<Rightarrow> bool" where
  "guarded s p c \<longleftrightarrow> state_of s p = kProtected \<and> \<not> wt_writable s p \<and> wt_content s p = c
    \<and> (\<forall>t. \<not> will_open (wt_threads s t) p)"

definition safe :: "u64 \<Rightarrow> nat \<Rightarrow> tracker \<Rightarrow> bool" where
  "safe p c s \<longleftrightarrow> aligned p \<and> p \<noteq> 0 \<and> (guarded s p c \<or> reportable s p)"

lemma slot_unique: "tail \<le> i \<Longrightarrow> i < tail + kQueueSize \<Longrightarrow> tail \<le> j \<Longrightarrow> j < tail + kQueueSize \<Longrightarrow>
    i mod kQueueSize = j mod kQueueSize \<Longrightarrow> i = j"
proof (rule ccontr)
  assume h: "tail \<le> i" "i < tail + kQueueSize" "tail \<le> j" "j < tail + kQueueSize"
    "i mod kQueueSize = j mod kQueueSize" "i \<noteq> j"
  then have "kQueueSize dvd (max i j - min i j)" by (metis mod_eq_dvd_iff_nat max_def min_def nat_le_linear)
  moreover have "max i j - min i j < kQueueSize" "0 < max i j - min i j" using h by (auto simp: max_def min_def)
  ultimately show False by (meson nat_dvd_not_less)
qed


section \<open>Steps of the other threads\<close>

lemma ex_at_pc: "\<exists>u. P (wt_threads s u) \<Longrightarrow> (P (wt_threads s t) \<Longrightarrow> P pc) \<Longrightarrow> \<exists>u. P (wt_threads (at_pc t pc s) u)"
proof -
  assume "\<exists>u. P (wt_threads s u)" and t: "P (wt_threads s t) \<Longrightarrow> P pc"
  then obtain u where "P (wt_threads s u)" by blast
  with t have "P (wt_threads (at_pc t pc s) u)" by (auto simp: at_pc_def)
  then show ?thesis by (rule exI)
qed

lemma at_pc_fields [simp]:
  "wt_mode (at_pc t pc s) = wt_mode s" "wt_table (at_pc t pc s) = wt_table s" "wt_writable (at_pc t pc s) = wt_writable s"
  "wt_content (at_pc t pc s) = wt_content s" "wt_slots (at_pc t pc s) = wt_slots s"
  "wt_head (at_pc t pc s) = wt_head s" "wt_tail (at_pc t pc s) = wt_tail s"
  "wt_noted (at_pc t pc s) = wt_noted s" "wt_remapped (at_pc t pc s) = wt_remapped s"
  "wt_others (at_pc t pc s) = wt_others s" "wt_reported (at_pc t pc s) = wt_reported s" "wt_threads (at_pc t pc s) u = (if u = t then pc else wt_threads s u)"
  by (simp_all add: at_pc_def)

lemma mprotect_fields [simp]:
  "wt_mode (mprotect f e w s) = wt_mode s" "wt_table (mprotect f e w s) = wt_table s"
  "wt_writable (mprotect f e w s) p = (if f \<le> p \<and> p < e then w else wt_writable s p)"
  "wt_content (mprotect f e w s) = wt_content s" "wt_slots (mprotect f e w s) = wt_slots s"
  "wt_head (mprotect f e w s) = wt_head s" "wt_tail (mprotect f e w s) = wt_tail s"
  "wt_noted (mprotect f e w s) = wt_noted s" "wt_remapped (mprotect f e w s) = wt_remapped s"
  "wt_others (mprotect f e w s) = wt_others s" "wt_reported (mprotect f e w s) = wt_reported s" "wt_threads (mprotect f e w s) = wt_threads s"
  by (simp_all add: mprotect_def)

lemma fill_slot_fields [simp]:
  "wt_mode (fill_slot i q s) = wt_mode s" "wt_table (fill_slot i q s) = wt_table s" "wt_writable (fill_slot i q s) = wt_writable s"
  "wt_content (fill_slot i q s) = wt_content s" "wt_slots (fill_slot i q s) = (wt_slots s)(i mod kQueueSize := q)"
  "wt_head (fill_slot i q s) = wt_head s" "wt_tail (fill_slot i q s) = wt_tail s"
  "wt_noted (fill_slot i q s) = wt_noted s" "wt_remapped (fill_slot i q s) = wt_remapped s"
  "wt_others (fill_slot i q s) = wt_others s" "wt_reported (fill_slot i q s) = wt_reported s" "wt_threads (fill_slot i q s) = wt_threads s"
  by (simp_all add: fill_slot_def)

lemma claim_slotD: "claim_slot s = Some (i, s') \<Longrightarrow>
    i = wt_head s \<and> s' = s\<lparr>wt_head := Suc i\<rparr> \<and> wt_head s - wt_tail s < kQueueSize"
  by (auto simp: claim_slot_def split: if_splits)

lemma queue_cong: "wt_head s' = wt_head s \<Longrightarrow> wt_tail s' = wt_tail s \<Longrightarrow> wt_slots s' = wt_slots s \<Longrightarrow>
    wt_threads s' = wt_threads s \<Longrightarrow> queue_ok s' = queue_ok s"
  by (simp add: queue_ok_def)

lemma queue_at_pc: "queue_ok s \<Longrightarrow> fill_of pc = None \<Longrightarrow> queue_ok (at_pc t pc s)"
  by (auto simp: queue_ok_def)

lemma queue_claim:
  assumes "queue_ok s" "claim_slot s = Some (i, s')" "fill_of pc = Some (i, p)"
  shows "queue_ok (at_pc t pc s')"
proof -
  from claim_slotD [OF assms(2)] have i: "i = wt_head s" "s' = s\<lparr>wt_head := Suc i\<rparr>" "i - wt_tail s < kQueueSize" by auto
  have h: "wt_tail s \<le> i" "i < wt_tail s + kQueueSize" "wt_slots s (i mod kQueueSize) = 0"
    using assms(1) i unfolding queue_ok_def by auto
  have "fill_of (wt_threads s u) = Some (j, q) \<Longrightarrow> j < i" for u j q
    using assms(1) i(1) unfolding queue_ok_def by blast
  then show ?thesis using assms(1,3) h i(1) unfolding queue_ok_def i(2)
    by (auto split: if_splits) (force dest: Suc_leD | metis less_irrefl less_Suc_eq)+
qed

lemma queue_fill:
  assumes "queue_ok s" "fill_of (wt_threads s t) = Some (i, q)" "fill_of pc = None" "valid q"
  shows "queue_ok (at_pc t pc (fill_slot i q s))"
proof -
  have i: "wt_tail s \<le> i" "i < wt_head s" "i < wt_tail s + kQueueSize"
    using assms(1,2) unfolding queue_ok_def by (blast, blast, meson order_less_le_trans)
  have apart: "j mod kQueueSize \<noteq> i mod kQueueSize" if "wt_tail s \<le> j" "j < wt_tail s + kQueueSize" "j \<noteq> i" for j
    using slot_unique [OF that(1,2) i(1,3)] that(3) by blast
  have other: "j \<noteq> i" if "fill_of (wt_threads s u) = Some (j, p)" "u \<noteq> t" for u j p
    using assms(1,2) that unfolding queue_ok_def by blast
  show ?thesis unfolding queue_ok_def
  proof (intro conjI allI impI, goal_cases)
    case (3 j)
    then have "j \<noteq> i" "wt_tail s \<le> j" "j < wt_tail s + kQueueSize" using i by auto
    then show ?case using apart 3 assms(1) unfolding queue_ok_def by simp
  next
    case (6 u j p)
    then have u: "u \<noteq> t" "fill_of (wt_threads s u) = Some (j, p)" using assms(3) by (auto split: if_splits)
    then have "wt_tail s \<le> j" "j < wt_tail s + kQueueSize" "wt_slots s (j mod kQueueSize) = 0"
      using assms(1) unfolding queue_ok_def by (blast, meson order_less_le_trans, blast)
    then show ?case using apart other [OF u(2,1)] by simp
  qed (use assms in \<open>auto simp: queue_ok_def split: if_splits\<close>)
qed

lemma slotted_claim: "slotted s p \<Longrightarrow> claim_slot s = Some (i, s') \<Longrightarrow> slotted s' p"
  using claim_slotD [of s i s'] by (auto simp: slotted_def intro: less_SucI)

lemma slotted_fill:
  assumes "queue_ok s" "fill_of (wt_threads s t) = Some (i, q)" "p \<noteq> 0" "slotted s p \<or> p = q"
  shows "slotted (fill_slot i q s) p"
proof -
  have i: "wt_tail s \<le> i" "i < wt_head s" "wt_slots s (i mod kQueueSize) = 0"
    using assms(1,2) unfolding queue_ok_def by blast+
  from assms(4) show ?thesis
  proof
    assume "slotted s p"
    then obtain j where j: "wt_tail s \<le> j" "j < wt_head s" "wt_slots s (j mod kQueueSize) = p" by (auto simp: slotted_def)
    then have "j mod kQueueSize \<noteq> i mod kQueueSize" using i(3) assms(3) by metis
    with j show ?thesis by (auto simp: slotted_def intro!: exI [of _ j])
  next
    assume "p = q"
    with i show ?thesis by (auto simp: slotted_def intro!: exI [of _ i])
  qed
qed


text \<open>
  How a step of thread \<open>t\<close> from \<open>old\<close> to \<open>pc\<close> keeps a page safe: what the step does to the page itself, and
  that the duties of the thread for the page are handed on.
\<close>

definition duty :: "wpc \<Rightarrow> u64 \<Rightarrow> bool" where
  "duty pc p \<longleftrightarrow> claim_of pc = Some p \<or> (\<exists>i. fill_of pc = Some (i, p))"

lemma held_duty: "held s p \<longleftrightarrow> (\<exists>t. duty (wt_threads s t) p)"
  by (simp add: held_def duty_def)

lemma safe_step:
  assumes "safe p c s" "wt_threads s' = wt_threads s"
    and "guarded s p c \<Longrightarrow> state_of s' p = kProtected \<and> \<not> wt_writable s' p \<and> wt_content s' p = c \<and> \<not> will_open pc p
      \<or> reportable (at_pc t pc s') p"
    and "state_of s p = kQueued \<Longrightarrow> state_of s' p = kQueued"
    and "state_of s p = kProtected \<Longrightarrow> state_of s' p \<noteq> kProtected \<Longrightarrow> reportable (at_pc t pc s') p"
    and "slotted s p \<Longrightarrow> slotted s' p" "duty (wt_threads s t) p \<Longrightarrow> duty pc p \<or> slotted s' p"
    and "in_ranges (wt_noted s) p \<Longrightarrow> in_ranges (wt_noted s') p"
    and "in_ranges (wt_remapped s) p \<Longrightarrow> in_ranges (wt_remapped s') p"
    and "mapping_at (wt_threads s t) p \<Longrightarrow> mapping_at pc p \<or> in_ranges (wt_remapped s') p"
    and "state_of s p = kProtected \<Longrightarrow> state_of s' p = kProtected \<Longrightarrow> announcing (wt_threads s t) p \<Longrightarrow> announcing pc p"
  shows "safe p c (at_pc t pc s')"
proof -
  let ?s = "at_pc t pc s'"
  have thr: "(\<exists>u. P (wt_threads s u)) \<Longrightarrow> (P (wt_threads s t) \<Longrightarrow> P pc) \<Longrightarrow> \<exists>u. P (wt_threads ?s u)" for P
    using ex_at_pc [of P s' t pc] unfolding assms(2) by blast
  have slot: "slotted ?s p \<longleftrightarrow> slotted s' p" by (simp add: slotted_def)
  have "reportable ?s p \<or> guarded ?s p c"
  proof (cases "guarded s p c")
    case True
    have "\<not> will_open (wt_threads s u) p" for u using True by (simp add: guarded_def)
    then show ?thesis using assms(3) [OF True] by (auto simp: guarded_def assms(2))
  next
    case False
    then have "reportable s p" using assms(1) by (simp add: safe_def)
    then consider "state_of s p = kQueued" "slotted s p \<or> held s p" | "in_ranges (wt_noted s) p" | "in_ranges (wt_remapped s) p"
      | "\<exists>t. mapping_at (wt_threads s t) p" | "state_of s p = kProtected" "\<exists>t. announcing (wt_threads s t) p"
      unfolding reportable_def by blast
    then have "reportable ?s p"
    proof cases
      case 1
      have "slotted ?s p \<or> held ?s p"
        using 1(2) assms(6,7) thr [of "\<lambda>pc. duty pc p"] unfolding slot held_duty by blast
      then show ?thesis using assms(4) [OF 1(1)] by (simp add: reportable_def)
    next
      case 4
      then show ?thesis using thr [of "\<lambda>pc. mapping_at pc p"] assms(10) by (auto simp: reportable_def simp del: at_pc_fields(12))
    next
      case 5
      then show ?thesis using thr [of "\<lambda>pc. announcing pc p"] assms(5,11)
        by (cases "state_of s' p = kProtected") (auto simp: reportable_def simp del: at_pc_fields(12))
    qed (use assms(8,9) in \<open>simp_all add: reportable_def\<close>)
    then show ?thesis ..
  qed
  then show ?thesis using assms(1) by (auto simp: safe_def)
qed

lemma kinds_apart [simp]: "kProtected \<noteq> kQueued" "kQueued \<noteq> kProtected" "kOpen \<noteq> kProtected" "kOpen \<noteq> kQueued"
    "kProtected \<noteq> 0" "kQueued \<noteq> 0" "kProtected \<noteq> kOpen" "kQueued \<noteq> kOpen"
  by (simp_all add: kProtected_def kQueued_def kOpen_def)

lemma kPage_eq: "kPage = 4096"
  by (simp add: kPage_def)

text \<open>The exchange of a thread that takes page \<open>q\<close>: the page is queued, or was not protected.\<close>

lemma safe_take:
  assumes "safe p c s" "aligned q" "state_of s q = kProtected" "duty pc q"
    "\<not> duty (wt_threads s t) p" "\<not> mapping_at (wt_threads s t) p"
    "p \<noteq> q \<Longrightarrow> will_open pc p \<Longrightarrow> will_open (wt_threads s t) p"
    "p \<noteq> q \<Longrightarrow> announcing (wt_threads s t) p \<Longrightarrow> announcing pc p"
  shows "safe p c (at_pc t pc (set_armed q kQueued s))"
proof -
  have p: "aligned p" using assms(1) by (simp add: safe_def)
  have st: "state_of (set_armed q kQueued s) p = (if p = q then kQueued else state_of s p)"
    by (rule state_set) (simp_all add: p assms)
  show ?thesis
  proof (cases "p = q")
    case True
    have "held (at_pc t pc (set_armed q kQueued s)) q" using assms(4) by (auto simp: held_duty)
    then have "reportable (at_pc t pc (set_armed q kQueued s)) p" using True st by (simp add: reportable_def)
    then show ?thesis using assms(1) by (simp add: safe_def)
  next
    case False
    show ?thesis
      by (rule safe_step [OF assms(1)]) (use False assms st in \<open>auto simp: guarded_def slotted_def\<close>)
  qed
qed


text \<open>The parts of the invariant a step leaves alone.\<close>

lemma tracker_okI:
  assumes "tracker_ok s" "queue_ok s'" "pc_ok pc" "wt_threads s' = (wt_threads s)(t := pc)"
    "state_of s' 0 \<noteq> kProtected" "wt_mode s' = wt_mode s" "wt_others s' = wt_others s"
    "wt_remapped s' = wt_remapped s" "wt_reported s' = wt_reported s"
  shows "tracker_ok s'"
  using assms by (auto simp: tracker_ok_def enabled_def)

lemma NoteRemap_fields [simp]:
  "wt_mode (NoteRemap b n s) = wt_mode s" "wt_table (NoteRemap b n s) = wt_table s" "wt_writable (NoteRemap b n s) = wt_writable s"
  "wt_content (NoteRemap b n s) = wt_content s" "wt_slots (NoteRemap b n s) = wt_slots s"
  "wt_head (NoteRemap b n s) = wt_head s" "wt_tail (NoteRemap b n s) = wt_tail s"
  "wt_noted (NoteRemap b n s) = wt_noted s" "wt_others (NoteRemap b n s) = wt_others s" "wt_reported (NoteRemap b n s) = wt_reported s" "wt_threads (NoteRemap b n s) = wt_threads s"
  by (simp_all add: NoteRemap_def)

lemma NoteWrite_fields [simp]:
  "wt_mode (NoteWrite b n s) = wt_mode s" "wt_table (NoteWrite b n s) = wt_table s" "wt_writable (NoteWrite b n s) = wt_writable s"
  "wt_content (NoteWrite b n s) = wt_content s" "wt_slots (NoteWrite b n s) = wt_slots s"
  "wt_head (NoteWrite b n s) = wt_head s" "wt_tail (NoteWrite b n s) = wt_tail s"
  "wt_remapped (NoteWrite b n s) = wt_remapped s" "wt_others (NoteWrite b n s) = wt_others s" "wt_reported (NoteWrite b n s) = wt_reported s" "wt_threads (NoteWrite b n s) = wt_threads s"
  by (simp_all add: NoteWrite_def)

lemma aligned_0: "aligned 0"
  by (simp add: aligned_def)

lemma state_zero: "aligned q \<Longrightarrow> state_of s q = kProtected \<Longrightarrow> state_of s 0 \<noteq> kProtected \<Longrightarrow>
    q \<noteq> 0 \<and> state_of (set_armed q v s) 0 = state_of s 0"
  by (cases "q = 0") (auto simp: state_set_other aligned_0)

lemma take_ok:
  assumes "tracker_ok s" "aligned q" "state_of s q = kProtected" "pc_ok pc" "fill_of pc = None"
  shows "tracker_ok (at_pc t pc (set_armed q kQueued s))"
proof (rule tracker_okI [OF assms(1), of _ pc t])
  show "queue_ok (at_pc t pc (set_armed q kQueued s))"
    using assms(1) queue_cong [of "set_armed q kQueued s" s] by (intro queue_at_pc) (simp_all add: tracker_ok_def assms(5))
  show "state_of (at_pc t pc (set_armed q kQueued s)) 0 \<noteq> kProtected"
    using state_zero [OF assms(2,3)] assms(1) by (simp add: tracker_ok_def)
qed (simp_all add: assms(4) fun_eq_iff)

lemma move_ok: "tracker_ok s \<Longrightarrow> pc_ok pc \<Longrightarrow> fill_of pc = None \<Longrightarrow> tracker_ok (at_pc t pc s)"
  by (rule tracker_okI [of s _ pc t]) (auto simp: tracker_ok_def fun_eq_iff intro: queue_at_pc)

lemma mprotect_ok: "tracker_ok s \<Longrightarrow> tracker_ok (mprotect f e w s)"
  by (simp add: tracker_ok_def enabled_def queue_ok_def)

lemma NoteRemap_ok: "tracker_ok s \<Longrightarrow> tracker_ok (NoteRemap b n s)"
  by (simp add: tracker_ok_def enabled_def queue_ok_def) (simp add: NoteRemap_def)

lemma NoteWrite_ok: "tracker_ok s \<Longrightarrow> tracker_ok (NoteWrite b n s)"
  by (simp add: tracker_ok_def enabled_def queue_ok_def)

lemma claim_ok:
  assumes "tracker_ok s" "claim_slot s = Some (i, s')" "fill_of pc = Some (i, p)" "pc_ok pc"
  shows "tracker_ok (at_pc t pc s')"
  using claim_slotD [OF assms(2)] queue_claim [OF _ assms(2,3)] assms(1,4)
  by (intro tracker_okI [OF assms(1), of _ pc t]) (auto simp: tracker_ok_def fun_eq_iff)

lemma fill_valid: "pc_ok (wt_threads s t) \<Longrightarrow> fill_of (wt_threads s t) = Some (i, q) \<Longrightarrow> valid q"
  by (cases "wt_threads s t") auto

lemma fill_ok:
  assumes "tracker_ok s" "fill_of (wt_threads s t) = Some (i, q)" "fill_of pc = None" "pc_ok pc"
  shows "tracker_ok (at_pc t pc (fill_slot i q s))"
  using queue_fill [OF _ assms(2,3)] assms(1,4) fill_valid [OF _ assms(2)]
  by (intro tracker_okI [OF assms(1), of _ pc t]) (auto simp: tracker_ok_def fun_eq_iff)

lemma thread_step_ok:
  assumes "tracker_ok s" "thread_step t (wt_threads s t) s = Some s'"
  shows "tracker_ok s'"
proof -
  have pc: "pc_ok (wt_threads s t)" and z: "state_of s 0 \<noteq> kProtected" using assms(1) by (auto simp: tracker_ok_def)
  show ?thesis
  proof (cases "wt_threads s t")
    case Resting
    then show ?thesis using assms by simp
  next
    case (Fault_protect q)
    then show ?thesis using assms pc by (auto intro!: move_ok mprotect_ok)
  next
    case (Fault_claim q)
    then show ?thesis using assms pc by (auto simp: bind_eq_Some_conv intro!: claim_ok)
  next
    case (Fault_fill i q)
    then show ?thesis using assms pc by (auto intro!: fill_ok)
  next
    case (Host_page q e run)
    show ?thesis
    proof (cases "q < e \<and> state_of s q = kProtected")
      case True
      then have "q \<noteq> 0" using z by auto
      then have "q \<noteq> 0" "valid q" using state_user [of q s] True Host_page pc by simp_all
      with True show ?thesis using Host_page assms pc by (auto simp: exchange_state intro!: take_ok)
    next
      case False
      then show ?thesis using Host_page assms pc
        by (auto simp: exchange_state split: if_splits intro!: move_ok mprotect_ok)
    qed
  next
    case (Host_claim q e run)
    then show ?thesis using assms pc by (auto simp: bind_eq_Some_conv intro!: claim_ok)
  next
    case (Host_fill i q e run)
    then show ?thesis using assms pc by (auto simp: kPage_eq valid_aligned intro!: fill_ok aligned_next)
  next
    case (Host_flush q e run)
    then show ?thesis using assms pc by (auto simp: kPage_eq intro!: move_ok mprotect_ok aligned_next)
  next
    case (Owner_page q e)
    show ?thesis
    proof (cases "q < e \<and> state_of s q = kProtected")
      case True
      then have "q \<noteq> 0" using z by auto
      then have "q \<noteq> 0" "valid q" using state_user [of q s] True Owner_page pc by simp_all
      with True show ?thesis using Owner_page assms pc by (auto simp: exchange_state intro!: take_ok)
    next
      case False
      then show ?thesis using Owner_page assms pc
        by (auto simp: exchange_state kPage_eq split: if_splits intro!: move_ok aligned_next)
    qed
  next
    case (Owner_claim q e)
    then show ?thesis using assms pc by (auto simp: bind_eq_Some_conv intro!: claim_ok)
  next
    case (Owner_fill i q e)
    then show ?thesis using assms pc by (auto simp: kPage_eq valid_aligned intro!: fill_ok aligned_next)
  next
    case (Remap_note b n)
    then show ?thesis using assms pc by (auto intro!: move_ok NoteRemap_ok)
  qed
qed


lemma thread_step_safe:
  assumes "tracker_ok s" "thread_step t (wt_threads s t) s = Some s'" "safe p c s"
  shows "safe p c s'"
proof -
  have pc: "pc_ok (wt_threads s t)" and queue: "queue_ok s" using assms(1) by (auto simp: tracker_ok_def)
  have p: "aligned p" "p \<noteq> 0" using assms(3) by (auto simp: safe_def)
  have shut: "\<not> will_open (wt_threads s t) p" if "guarded s p c" using that by (simp add: guarded_def)
  have past: "q < p \<Longrightarrow> aligned q \<Longrightarrow> q + 4096 \<le> p" for q using aligned_gap [OF p(1)] by blast
  have within: "aligned q \<Longrightarrow> q \<le> p \<Longrightarrow> p < q + 4096 \<Longrightarrow> p = q" for q by (rule aligned_in_page [OF p(1)])
  show ?thesis
  proof (cases "wt_threads s t")
    case Resting
    then show ?thesis using assms by simp
  next
    case (Fault_protect q)
    then have s': "s' = at_pc t (Fault_claim q) (mprotect q (q + 4096) True s)" using assms(2) by (simp add: kPage_eq)
    have q: "aligned q" using pc Fault_protect by (simp add: valid_aligned)
    show ?thesis unfolding s'
      by (rule safe_step [OF assms(3)])
         (use Fault_protect shut within [OF q] in \<open>auto simp: guarded_def slotted_def duty_def\<close>)
  next
    case (Fault_claim q)
    with assms(2) obtain i s1 where s1: "claim_slot s = Some (i, s1)" "s' = at_pc t (Fault_fill i q) s1"
      by (auto simp: bind_eq_Some_conv)
    show ?thesis unfolding s1(2)
      by (rule safe_step [OF assms(3)])
         (use claim_slotD [OF s1(1)] slotted_claim [OF _ s1(1)] Fault_claim in \<open>auto simp: guarded_def duty_def\<close>)
  next
    case (Host_claim q e run)
    with assms(2) obtain i s1 where s1: "claim_slot s = Some (i, s1)" "s' = at_pc t (Host_fill i q e run) s1"
      by (auto simp: bind_eq_Some_conv)
    show ?thesis unfolding s1(2)
      by (rule safe_step [OF assms(3)])
         (use claim_slotD [OF s1(1)] slotted_claim [OF _ s1(1)] Host_claim shut in \<open>auto simp: guarded_def duty_def\<close>)
  next
    case (Owner_claim q e)
    with assms(2) obtain i s1 where s1: "claim_slot s = Some (i, s1)" "s' = at_pc t (Owner_fill i q e) s1"
      by (auto simp: bind_eq_Some_conv)
    show ?thesis unfolding s1(2)
      by (rule safe_step [OF assms(3)])
         (use claim_slotD [OF s1(1)] slotted_claim [OF _ s1(1)] Owner_claim in \<open>auto simp: guarded_def duty_def\<close>)
  next
    case (Fault_fill i q)
    have sl: "slotted s p \<or> p = q \<Longrightarrow> slotted (fill_slot i q s) p"
      by (rule slotted_fill [OF queue, of t]) (use Fault_fill p in auto)
    have s': "s' = at_pc t Resting (fill_slot i q s)" using Fault_fill assms(2) by simp
    show ?thesis unfolding s'
      by (rule safe_step [OF assms(3)]) (use sl Fault_fill in \<open>auto simp: guarded_def duty_def\<close>)
  next
    case (Host_fill i q e run)
    have sl: "slotted s p \<or> p = q \<Longrightarrow> slotted (fill_slot i q s) p"
      by (rule slotted_fill [OF queue, of t]) (use Host_fill p in auto)
    have s': "s' = at_pc t (Host_page (q + 4096) e run) (fill_slot i q s)" using Host_fill assms(2) by (simp add: kPage_eq)
    have q: "aligned q" using pc Host_fill by (simp add: valid_aligned)
    show ?thesis unfolding s'
      by (rule safe_step [OF assms(3)])
         (use sl shut past [OF _ q] Host_fill in \<open>auto simp: guarded_def duty_def not_le dest: leD\<close>)
  next
    case (Owner_fill i q e)
    have sl: "slotted s p \<or> p = q \<Longrightarrow> slotted (fill_slot i q s) p"
      by (rule slotted_fill [OF queue, of t]) (use Owner_fill p in auto)
    have s': "s' = at_pc t (Owner_page (q + 4096) e) (fill_slot i q s)" using Owner_fill assms(2) by (simp add: kPage_eq)
    have q: "aligned q" using pc Owner_fill by (simp add: valid_aligned)
    show ?thesis unfolding s'
      by (rule safe_step [OF assms(3)]) (use sl past [OF _ q] Owner_fill in \<open>auto simp: guarded_def duty_def\<close>)
  next
    case (Host_flush q e run)
    then have s': "s' = at_pc t (Host_page (q + 4096) e 0) (if run \<noteq> 0 then mprotect run q True s else s)"
      using assms(2) by (simp add: kPage_eq)
    show ?thesis unfolding s'
      by (rule safe_step [OF assms(3)])
         (use Host_flush shut in \<open>auto simp: guarded_def slotted_def duty_def split: if_splits\<close>)
  next
    case (Remap_note b n)
    then have s': "s' = at_pc t Resting (NoteRemap b n s)" using assms(2) by simp
    have en: "enabled s" using assms(1) by (simp add: tracker_ok_def enabled_def)
    show ?thesis unfolding s'
      by (rule safe_step [OF assms(3)])
         (use Remap_note en in \<open>auto simp: guarded_def slotted_def duty_def NoteRemap_def\<close>)
  next
    case (Host_page q e run)
    have q: "aligned q" using pc Host_page by simp
    consider "q < e" "state_of s q = kProtected" | "q < e" "state_of s q \<noteq> kProtected" | "\<not> q < e" by blast
    then show ?thesis
    proof cases
      case 1
      then have s': "s' = at_pc t (Host_claim q e (if run = 0 then q else run)) (set_armed q kQueued s)"
        using Host_page assms(2) by (simp add: exchange_state)
      show ?thesis unfolding s'
        by (rule safe_take [OF assms(3) q 1(2)]) (use Host_page in \<open>auto simp: duty_def split: if_splits\<close>)
    next
      case 2
      then have s': "s' = at_pc t (Host_flush q e run) s" using Host_page assms(2) by (simp add: exchange_state)
      show ?thesis unfolding s'
        by (rule safe_step [OF assms(3)]) (use Host_page shut in \<open>auto simp: guarded_def duty_def\<close>)
    next
      case 3
      then have s': "s' = at_pc t Resting (if run \<noteq> 0 then mprotect run e True s else s)" using Host_page assms(2) by simp
      show ?thesis unfolding s'
        by (rule safe_step [OF assms(3)])
           (use Host_page 3 shut in \<open>auto simp: guarded_def slotted_def duty_def split: if_splits\<close>)
    qed
  next
    case (Owner_page q e)
    have q: "aligned q" using pc Owner_page by simp
    consider "q < e" "state_of s q = kProtected" | "q < e" "state_of s q \<noteq> kProtected" | "\<not> q < e" by blast
    then show ?thesis
    proof cases
      case 1
      then have s': "s' = at_pc t (Owner_claim q e) (set_armed q kQueued s)"
        using Owner_page assms(2) by (simp add: exchange_state)
      show ?thesis unfolding s'
        by (rule safe_take [OF assms(3) q 1(2)]) (use Owner_page in \<open>auto simp: duty_def\<close>)
    next
      case 2
      then have s': "s' = at_pc t (Owner_page (q + 4096) e) s" using Owner_page assms(2) by (simp add: exchange_state kPage_eq)
      show ?thesis unfolding s'
        by (rule safe_step [OF assms(3)])
           (use Owner_page 2 past [OF _ q] in \<open>auto simp: guarded_def duty_def order_le_less\<close>)
    next
      case 3
      then have s': "s' = at_pc t Resting s" using Owner_page assms(2) by simp
      show ?thesis unfolding s'
        by (rule safe_step [OF assms(3)]) (use Owner_page 3 in \<open>auto simp: guarded_def duty_def\<close>)
    qed
  qed
qed


lemma at_pc_same: "wt_threads s t = pc \<Longrightarrow> at_pc t pc s = s"
  by (auto simp: at_pc_def)

lemma page_mask: "PageDown a = a AND NOT 0xFFF" "a AND NOT (kPage - 1) = a AND NOT 0xFFF"
  by (simp_all add: PageDown_def kPage_def)

lemma OnWriteFault_cases:
  assumes "wt_threads s t = Resting"
  obtains "OnWriteFault t a s = s"
  | "state_of s (a AND NOT 0xFFF) = kProtected"
    "OnWriteFault t a s = at_pc t (Fault_protect (a AND NOT 0xFFF)) (set_armed (a AND NOT 0xFFF) kQueued s)"
  by (cases "OnWriteFault t a s = s")
     (auto simp: OnWriteFault_def Let_def page_mask exchange_state split: option.splits if_splits)

lemma act_ok_step:
  assumes "tracker_ok s" "act_ok a" "wt_act_step a s = Some s'"
  shows "tracker_ok s'"
proof (cases a)
  case (Store t x v)
  let ?s = "s\<lparr>wt_content := (wt_content s)(PageDown x := v)\<rparr>"
  show ?thesis
  proof (cases "wt_threads s t = Resting")
    case True
    have "tracker_ok ?s" using assms(1) by (simp add: tracker_ok_def enabled_def queue_ok_def)
    moreover have "tracker_ok (OnWriteFault t x s)"
    proof (rule OnWriteFault_cases [OF True, of x])
      assume st: "state_of s (x AND NOT 0xFFF) = kProtected"
        and e: "OnWriteFault t x s = at_pc t (Fault_protect (x AND NOT 0xFFF)) (set_armed (x AND NOT 0xFFF) kQueued s)"
      have "x AND NOT 0xFFF \<noteq> 0" using st assms(1) by (auto simp: tracker_ok_def)
      then have "valid (x AND NOT 0xFFF)" using st by (intro state_user [OF aligned_down, of s]) auto
      then show ?thesis unfolding e using st aligned_down [of x] by (intro take_ok [OF assms(1)]) simp_all
    qed (use assms(1) in simp)
    ultimately show ?thesis using assms(3) True Store by (auto split: if_splits)
  qed (use assms Store in simp)
next
  case (Move t)
  then show ?thesis using assms by (auto intro: thread_step_ok)
next
  case (Host_write t x n)
  then show ?thesis using assms
    by (auto simp: page_mask aligned_end_def aligned_down split: if_splits intro!: move_ok)
next
  case (Open_by_owner t f e)
  then show ?thesis using assms by (auto split: if_splits intro!: move_ok mprotect_ok)
next
  case (Remap t b n v)
  have "tracker_ok (mprotect f e True s\<lparr>wt_content := c\<rparr>)" for f e c
    using assms(1) by (simp add: tracker_ok_def enabled_def queue_ok_def)
  then show ?thesis using assms Remap by (auto simp: Let_def split: if_splits intro!: move_ok)
next
  case (Note_write b n)
  then show ?thesis using assms(3) NoteWrite_ok [OF assms(1), of b n] by simp
qed

lemma reportable_noted: "in_ranges (wt_noted s) p \<Longrightarrow> reportable s p"
  by (simp add: reportable_def)

lemma act_safe:
  assumes "tracker_ok s" "act_ok a" "wt_act_step a s = Some s'" "safe p c s"
  shows "safe p c s'"
proof (cases a)
  case (Store t x v)
  let ?s = "s\<lparr>wt_content := (wt_content s)(PageDown x := v)\<rparr>"
  show ?thesis
  proof (cases "wt_threads s t = Resting")
    case True
    have "safe p c ?s" if "wt_writable s (PageDown x)"
      using assms(4) that by (auto simp: safe_def guarded_def reportable_def slotted_def held_def)
    moreover have "safe p c (OnWriteFault t x s)"
    proof (rule OnWriteFault_cases [OF True, of x])
      assume st: "state_of s (x AND NOT 0xFFF) = kProtected"
        and e: "OnWriteFault t x s = at_pc t (Fault_protect (x AND NOT 0xFFF)) (set_armed (x AND NOT 0xFFF) kQueued s)"
      show ?thesis unfolding e
        by (rule safe_take [OF assms(4) aligned_down st]) (use True in \<open>auto simp: duty_def\<close>)
    qed (use assms(4) in simp)
    ultimately show ?thesis using assms(3) True Store by (auto split: if_splits)
  qed (use assms Store in simp)
next
  case (Move t)
  then show ?thesis using assms by (auto intro: thread_step_safe)
next
  case (Host_write t x n)
  show ?thesis
  proof (cases "wt_threads s t = Resting")
    case True
    then have s': "s' = at_pc t (Host_page (x AND NOT (kPage - 1)) (aligned_end x n) 0) s"
      using Host_write assms(3) by simp
    show ?thesis unfolding s'
      by (rule safe_step [OF assms(4)]) (use True in \<open>auto simp: guarded_def duty_def\<close>)
  qed (use assms Host_write in simp)
next
  case (Open_by_owner t f e)
  show ?thesis
  proof (cases "wt_threads s t = Resting")
    case True
    then have s': "s' = at_pc t (Owner_page f e) (mprotect f e True s)" using Open_by_owner assms(3) by simp
    have "reportable s' p" if "f \<le> p \<and> p < e" "state_of s p = kProtected"
      using that unfolding s' reportable_def by (auto intro!: exI [of _ t])
    then show ?thesis unfolding s'
      by (intro safe_step [OF assms(4)]) (use True in \<open>auto simp: guarded_def slotted_def duty_def s'\<close>)
  qed (use assms Open_by_owner in simp)
next
  case (Remap t b n v)
  show ?thesis
  proof (cases "wt_threads s t = Resting \<and> n \<noteq> 0")
    case True
    let ?m = "mprotect (PageDown b) (PageUp (b + n)) True s"
    let ?s = "?m\<lparr>wt_content := (\<lambda>p. if PageDown b \<le> p \<and> p < PageUp (b + n) then v else wt_content ?m p)\<rparr>"
    have s': "s' = at_pc t (Remap_note b n) ?s" using True Remap assms(3) by (simp add: Let_def)
    have "reportable (at_pc t (Remap_note b n) ?s) p" if "PageDown b \<le> p \<and> p < PageUp (b + n)"
      using that True unfolding reportable_def by (auto intro!: exI [of _ t])
    then show ?thesis unfolding s'
      by (intro safe_step [OF assms(4)]) (use True in \<open>auto simp: guarded_def slotted_def duty_def\<close>)
  qed (use assms Remap in auto)
next
  case (Note_write b n)
  have "in_ranges (wt_noted s) p \<Longrightarrow> in_ranges (wt_noted (NoteWrite b n s)) p" by (simp add: NoteWrite_def)
  then show ?thesis using assms(3,4) Note_write
    by (auto simp: safe_def guarded_def reportable_def slotted_def held_def)
qed

lemma acts_safe: "tracker_ok s \<Longrightarrow> \<forall>a \<in> set as. act_ok a \<Longrightarrow> wt_acts as s = Some s' \<Longrightarrow>
    tracker_ok s' \<and> (safe p c s \<longrightarrow> safe p c s')"
proof (induction as arbitrary: s)
  case (Cons a as)
  then obtain s1 where s1: "wt_act_step a s = Some s1" "wt_acts as s1 = Some s'" by (auto simp: bind_eq_Some_conv)
  have "tracker_ok s1" using act_ok_step [OF Cons.prems(1) _ s1(1)] Cons.prems(2) by simp
  with Cons.IH [OF this _ s1(2)] act_safe [OF Cons.prems(1) _ s1(1)] Cons.prems(2) show ?case by auto
qed simp


section \<open>Steps of the owner\<close>

text \<open>A page that was announced, by itself or by a new mapping, and so will be reported whatever happens to it.\<close>

definition firm :: "tracker \<Rightarrow> u64 \<Rightarrow> bool" where
  "firm s p \<longleftrightarrow> in_ranges (wt_noted s) p \<or> in_ranges (wt_remapped s) p \<or> (\<exists>t. mapping_at (wt_threads s t) p)"

lemma firm_safe: "firm s p \<Longrightarrow> aligned p \<Longrightarrow> p \<noteq> 0 \<Longrightarrow> safe p c s"
  by (auto simp: firm_def safe_def reportable_def)

lemma firm_at_pc: "firm s p \<Longrightarrow> wt_noted s' = wt_noted s \<Longrightarrow> wt_remapped s' = wt_remapped s \<Longrightarrow> wt_threads s' = wt_threads s
    \<Longrightarrow> \<not> mapping_at (wt_threads s t) p \<Longrightarrow> firm (at_pc t pc s') p"
proof -
  assume s: "firm s p" "wt_noted s' = wt_noted s" "wt_remapped s' = wt_remapped s" "wt_threads s' = wt_threads s"
    "\<not> mapping_at (wt_threads s t) p"
  have "\<exists>u. mapping_at (wt_threads (at_pc t pc s') u) p" if "mapping_at (wt_threads s u) p" for u
    using that s(4,5) by (intro exI [of _ u]) auto
  with s(1) show ?thesis unfolding firm_def at_pc_fields(8,9) s(2,3) by blast
qed

lemma firm_thread: "tracker_ok s \<Longrightarrow> thread_step t (wt_threads s t) s = Some s' \<Longrightarrow> firm s p \<Longrightarrow> firm s' p"
proof -
  assume a: "tracker_ok s" "thread_step t (wt_threads s t) s = Some s'" "firm s p"
  then have en: "enabled s" by (simp add: tracker_ok_def enabled_def)
  show ?thesis
  proof (cases "wt_threads s t")
    case (Remap_note b n)
    then have s': "s' = at_pc t Resting (NoteRemap b n s)" using a(2) by simp
    show ?thesis
    proof (cases "mapping_at (Remap_note b n) p")
      case True
      then show ?thesis using en by (simp add: s' firm_def NoteRemap_def)
    next
      case False
      then have "firm (NoteRemap b n s) p" using a(3) by (auto simp: firm_def NoteRemap_def)
      then show ?thesis unfolding s' by (rule firm_at_pc) (use False Remap_note in auto)
    qed
  qed (use a in \<open>auto simp: bind_eq_Some_conv exchange_def split: if_splits dest!: claim_slotD intro!: firm_at_pc\<close>)
qed

lemma firm_act: "tracker_ok s \<Longrightarrow> wt_act_step a s = Some s' \<Longrightarrow> firm s p \<Longrightarrow> firm s' p"
proof (cases a)
  case (Note_write b n)
  then show "wt_act_step a s = Some s' \<Longrightarrow> firm s p \<Longrightarrow> firm s' p" by (auto simp: firm_def NoteWrite_def)
qed (auto simp: Let_def OnWriteFault_def exchange_def split: if_splits option.splits intro: firm_thread intro!: firm_at_pc,
     auto simp: firm_def)

text \<open>The queue up to \<open>a\<close> was taken by the owner, which has not moved the tail yet.\<close>

definition drained :: "nat \<Rightarrow> tracker \<Rightarrow> bool" where
  "drained a s \<longleftrightarrow> a \<le> wt_head s \<and> (\<forall>j. wt_tail s \<le> j \<and> j < a \<longrightarrow> wt_slots s (j mod kQueueSize) = 0
     \<and> (\<forall>t q. fill_of (wt_threads s t) \<noteq> Some (j, q)))"

lemma drained_at_pc: "drained a s \<Longrightarrow> wt_head s' = wt_head s \<Longrightarrow> wt_tail s' = wt_tail s \<Longrightarrow> wt_slots s' = wt_slots s \<Longrightarrow>
    wt_threads s' = wt_threads s \<Longrightarrow> fill_of pc = None \<Longrightarrow> drained a (at_pc t pc s')"
  by (auto simp: drained_def)

lemma drained_claim: "drained a s \<Longrightarrow> claim_slot s = Some (i, s') \<Longrightarrow> fill_of pc = Some (i, p) \<Longrightarrow> drained a (at_pc t pc s')"
proof -
  assume d: "drained a s" and c: "claim_slot s = Some (i, s')" and pc: "fill_of pc = Some (i, p)"
  have "i = wt_head s" "s' = s\<lparr>wt_head := Suc i\<rparr>" using claim_slotD [OF c] by auto
  then show "drained a (at_pc t pc s')" using d pc by (simp add: drained_def)
qed

lemma drained_fill:
  assumes "queue_ok s" "fill_of (wt_threads s t) = Some (i, q)" "fill_of pc = None" "drained a s"
  shows "drained a (at_pc t pc (fill_slot i q s))"
proof -
  have i: "wt_tail s \<le> i" "i < wt_head s" "wt_head s \<le> wt_tail s + kQueueSize"
    using assms(1,2) unfolding queue_ok_def by blast+
  have d: "a \<le> wt_head s" "\<And>j. wt_tail s \<le> j \<Longrightarrow> j < a \<Longrightarrow> wt_slots s (j mod kQueueSize) = 0"
      "\<And>j u p. wt_tail s \<le> j \<Longrightarrow> j < a \<Longrightarrow> fill_of (wt_threads s u) \<noteq> Some (j, p)"
    using assms(4) unfolding drained_def by blast+
  have "j mod kQueueSize \<noteq> i mod kQueueSize" if "wt_tail s \<le> j" "j < a" for j
  proof
    assume m: "j mod kQueueSize = i mod kQueueSize"
    have "j < wt_tail s + kQueueSize" "i < wt_tail s + kQueueSize" using that(2) d(1) i(2,3) by linarith+
    then have "j = i" using slot_unique [OF that(1) _ i(1) _ m] by blast
    then show False using assms(2) d(3) [OF that] by blast
  qed
  then show ?thesis unfolding drained_def using assms(3) d by simp
qed

lemma drained_thread: "tracker_ok s \<Longrightarrow> thread_step t (wt_threads s t) s = Some s' \<Longrightarrow> drained a s \<Longrightarrow> drained a s'"
proof -
  assume a: "tracker_ok s" "thread_step t (wt_threads s t) s = Some s'" "drained a s"
  then have q: "queue_ok s" by (simp add: tracker_ok_def)
  note at_pc = drained_at_pc [OF a(3)]
  show ?thesis
  proof (cases "wt_threads s t")
    case (Fault_claim p)
    then show ?thesis using a by (auto simp: bind_eq_Some_conv intro!: drained_claim [OF a(3)])
  next
    case (Host_claim p e run)
    then show ?thesis using a by (auto simp: bind_eq_Some_conv intro!: drained_claim [OF a(3)])
  next
    case (Owner_claim p e)
    then show ?thesis using a by (auto simp: bind_eq_Some_conv intro!: drained_claim [OF a(3)])
  next
    case (Fault_fill i p)
    then show ?thesis using a by (auto intro!: drained_fill [OF q _ _ a(3)])
  next
    case (Host_fill i p e run)
    then show ?thesis using a by (auto intro!: drained_fill [OF q _ _ a(3)])
  next
    case (Owner_fill i p e)
    then show ?thesis using a by (auto intro!: drained_fill [OF q _ _ a(3)])
  qed (use a in \<open>auto simp: exchange_def split: if_splits intro!: at_pc\<close>)
qed

lemma drained_act:
  assumes "tracker_ok s" "wt_act_step a s = Some s'" "drained m s"
  shows "drained m s'"
proof (cases a)
  case (Move t)
  then show ?thesis using assms by (auto intro: drained_thread)
next
  case (Store t x v)
  then show ?thesis using assms(2,3)
    by (auto simp: OnWriteFault_def Let_def exchange_def split: if_splits option.splits
        intro!: drained_at_pc [OF assms(3)]) (simp add: drained_def)
next
  case (Note_write b k)
  then show ?thesis using assms(2,3) by (auto simp: drained_def)
qed (use assms(2,3) in \<open>auto simp: Let_def split: if_splits intro!: drained_at_pc [OF assms(3)]\<close>)

text \<open>A filled slot stays filled until the owner takes it.\<close>

lemma in_slot_fill:
  assumes "queue_ok s" "fill_of (wt_threads s t) = Some (i, q)" "p \<noteq> 0" "in_slot j p s"
  shows "in_slot j p (fill_slot i q s)"
proof -
  have "wt_slots s (i mod kQueueSize) = 0" using assms(1,2) unfolding queue_ok_def by blast
  then have "j mod kQueueSize \<noteq> i mod kQueueSize" using assms(3,4) by (metis in_slot_def)
  then show ?thesis using assms(4) by (simp add: in_slot_def)
qed

lemma in_slot_pc [simp]: "in_slot j p (at_pc t pc s) = in_slot j p s"
  by (simp add: in_slot_def)

lemma in_slot_claim: "claim_slot s = Some (i, s') \<Longrightarrow> in_slot j p s \<Longrightarrow> in_slot j p s'"
  using claim_slotD [of s i s'] by (auto simp: in_slot_def)

lemma in_slot_thread:
  assumes "tracker_ok s" "thread_step t (wt_threads s t) s = Some s'" "in_slot j p s" "p \<noteq> 0"
  shows "in_slot j p s'"
proof -
  have q: "queue_ok s" using assms(1) by (simp add: tracker_ok_def)
  show ?thesis
  proof (cases "wt_threads s t")
    case (Fault_fill i p)
    then show ?thesis using assms in_slot_fill [OF q, of t i p] by auto
  next
    case (Host_fill i p e run)
    then show ?thesis using assms in_slot_fill [OF q, of t i p] by auto
  next
    case (Owner_fill i p e)
    then show ?thesis using assms in_slot_fill [OF q, of t i p] by auto
  qed (use assms in \<open>auto simp: bind_eq_Some_conv exchange_def split: if_splits intro: in_slot_claim\<close>,
       auto simp: in_slot_def)
qed

lemma in_slot_act:
  assumes "tracker_ok s" "wt_act_step a s = Some s'" "in_slot j p s" "p \<noteq> 0"
  shows "in_slot j p s'"
proof (cases a)
  case (Move t)
  then show ?thesis using assms by (auto intro: in_slot_thread)
qed (use assms in \<open>auto simp: Let_def OnWriteFault_def exchange_def in_slot_def split: if_splits option.splits\<close>)

text \<open>
  Between two states of the owner the invariant is kept, announced pages stay announced, and, under
  the condition that the page is not one the owner touches, the page stays safe.
\<close>

definition leads :: "bool \<Rightarrow> u64 \<Rightarrow> nat \<Rightarrow> tracker \<Rightarrow> tracker \<Rightarrow> bool" where
  "leads b p c s s' \<longleftrightarrow> (tracker_ok s \<longrightarrow> tracker_ok s' \<and> wt_mode s' = wt_mode s \<and> wt_tail s' = wt_tail s
     \<and> wt_head s \<le> wt_head s' \<and> (\<forall>a. drained a s \<longrightarrow> drained a s')
     \<and> (\<forall>i. p \<noteq> 0 \<longrightarrow> in_slot i p s \<longrightarrow> in_slot i p s') \<and> (firm s p \<longrightarrow> firm s' p) \<and> (b \<longrightarrow> safe p c s \<longrightarrow> safe p c s'))"

lemma leads_refl [simp]: "leads b p c s s"
  by (simp add: leads_def)

lemma leads_trans: "leads b p c s t \<Longrightarrow> leads b p c t u \<Longrightarrow> leads b p c s u"
  by (auto simp: leads_def)

lemma leads_any: "leads True p c s s' \<Longrightarrow> leads b p c s s'"
  by (simp add: leads_def)

lemma act_mode: "wt_act_step a s = Some s' \<Longrightarrow> wt_mode s' = wt_mode s \<and> wt_tail s' = wt_tail s \<and> wt_head s \<le> wt_head s'"
proof (cases a)
  case (Move t)
  then show "wt_act_step a s = Some s' \<Longrightarrow> wt_mode s' = wt_mode s \<and> wt_tail s' = wt_tail s \<and> wt_head s \<le> wt_head s'"
    by (cases "wt_threads s t")
       (auto simp: bind_eq_Some_conv exchange_def split: if_splits dest!: claim_slotD)
qed (auto simp: Let_def OnWriteFault_def exchange_def split: if_splits option.splits)

lemma acts_lead: "\<forall>a \<in> set as. act_ok a \<Longrightarrow> wt_acts as s = Some s' \<Longrightarrow> leads True p c s s'"
proof (induction as arbitrary: s)
  case (Cons a as)
  then obtain s1 where s1: "wt_act_step a s = Some s1" "wt_acts as s1 = Some s'" by (auto simp: bind_eq_Some_conv)
  have "act_ok a" using Cons.prems by simp
  then have "leads True p c s s1"
    using act_ok_step [OF _ _ s1(1)] act_safe [OF _ _ s1(1)] firm_act [OF _ s1(1)] act_mode [OF s1(1)]
      drained_act [OF _ s1(1)] in_slot_act [OF _ s1(1)]
    by (auto simp: leads_def)
  moreover have "leads True p c s1 s'" using Cons s1(2) by simp
  ultimately show ?case by (rule leads_trans)
qed simp

lemma interfere_leads: "interfere s = Some s' \<Longrightarrow> leads b p c s s'"
proof (rule leads_any)
  assume i: "interfere s = Some s'"
  show "leads True p c s s'"
  proof (cases "wt_others s")
    case Nil
    with i show ?thesis by (simp add: interfere_def)
  next
    case (Cons as r)
    show ?thesis
    proof (cases "tracker_ok s")
      case True
      then have ok: "\<forall>a \<in> set as. act_ok a" using Cons by (simp add: tracker_ok_def)
      have "leads True p c s (s\<lparr>wt_others := r\<rparr>)"
        using Cons by (auto simp: leads_def tracker_ok_def enabled_def queue_ok_def firm_def safe_def guarded_def
            reportable_def slotted_def held_def drained_def in_slot_def)
      moreover have "leads True p c (s\<lparr>wt_others := r\<rparr>) s'"
        by (rule acts_lead [OF ok]) (use i Cons in \<open>simp add: interfere_def\<close>)
      ultimately show ?thesis by (rule leads_trans)
    qed (simp add: leads_def)
  qed
qed

lemma leads_frame:
  assumes "\<And>q. state_of s' q = state_of s q" "wt_threads s' = wt_threads s" "wt_mode s' = wt_mode s"
    "wt_writable s' = wt_writable s" "wt_content s' = wt_content s" "wt_slots s' = wt_slots s"
    "wt_head s' = wt_head s" "wt_tail s' = wt_tail s" "wt_noted s' = wt_noted s" "wt_remapped s' = wt_remapped s"
    "wt_others s' = wt_others s" "wt_reported s' = wt_reported s"
  shows "leads b p c s s'"
  using assms by (simp add: leads_def tracker_ok_def enabled_def queue_ok_def firm_def safe_def guarded_def
      reportable_def slotted_def held_def drained_def in_slot_def)

lemma At_record_leads: "At_record h q s = (r, s') \<Longrightarrow> leads b p c s s'"
  by (rule leads_frame) (auto simp: At_record_def split_beta)

lemma At_record_state: "At_record h q s = (Some r, s') \<Longrightarrow> pg_armed r = state_of s' q"
proof -
  assume "At_record h q s = (Some r, s')"
  then have "fst (At_page (we_room h) q (wt_table s)) = Some r" "wt_table s' = snd (At_page (we_room h) q (wt_table s))"
    by (auto simp: At_record_def split_beta)
  then show ?thesis using At_page_at [of "we_room h" q "wt_table s" r] by simp
qed

text \<open>A page whose state the owner stores: other pages are as before, announced ones stay announced.\<close>

lemma state_elsewhere: "\<not> same_page q p \<Longrightarrow> state_of (set_armed q v s) p = state_of s p"
  by (simp add: set_armed_def page_at_upd)

lemma set_armed_leads:
  assumes "v = kProtected \<Longrightarrow> \<not> same_page q 0" "b \<Longrightarrow> \<not> same_page q p \<or> firm s p"
  shows "leads b p c s (set_armed q v s)"
proof -
  have z: "state_of (set_armed q v s) 0 \<noteq> kProtected" if "state_of s 0 \<noteq> kProtected"
    using that assms(1) by (auto simp: set_armed_def page_at_upd)
  have f: "firm (set_armed q v s) p = firm s p" "drained a (set_armed q v s) = drained a s"
      "in_slot a p (set_armed q v s) = in_slot a p s" for a
    by (simp_all add: firm_def drained_def in_slot_def)
  have "safe p c (set_armed q v s)" if b and sf: "safe p c s"
  proof (cases "firm s p")
    case True
    then show ?thesis using sf f by (intro firm_safe) (simp_all add: safe_def)
  next
    case False
    then have "state_of (set_armed q v s) p = state_of s p" using assms(2) \<open>b\<close> by (intro state_elsewhere) blast
    then show ?thesis using sf by (simp add: safe_def guarded_def reportable_def slotted_def held_def)
  qed
  then show ?thesis using z f by (auto simp: leads_def tracker_ok_def enabled_def queue_ok_def)
qed

lemma mprotect_leads: "(b \<Longrightarrow> \<not> (f \<le> p \<and> p < e) \<or> firm s p) \<Longrightarrow> leads b p c s (mprotect f e w s)"
  using firm_safe [of "mprotect f e w s" p c]
  by (auto simp: leads_def tracker_ok_def enabled_def queue_ok_def safe_def guarded_def reportable_def slotted_def
      held_def firm_def drained_def in_slot_def)

lemma runs_leads [simp]: "leads b p c s (add_armed f e s)" "leads b p c s (drop_armed f e s)"
    "leads b p c s (drop_registered f e s)"
  by (rule leads_frame; simp add: add_armed_def drop_armed_def drop_registered_def split_beta)+

section \<open>Loops over pages\<close>

lemma in_page_list: "x \<in> set (page_list f e) \<Longrightarrow> f \<le> x \<and> x < e"
proof -
  assume "x \<in> set (page_list f e)"
  then obtain i where i: "f < e" "i < (unat (e - f) + 4095) div 4096" "x = f + of_nat i * kPage"
    by (auto simp: page_list_def split: if_splits)
  from i(1) have d: "unat (e - f) = unat e - unat f" "unat f < unat e"
    by (simp_all add: unat_diff_le order_less_imp_le word_less_nat_alt [symmetric])
  have "i * 4096 < unat (e - f)" using i(2)
    by (simp add: less_eq_div_iff_mult_less_eq Suc_le_eq [symmetric])
  then have b: "unat f + i * 4096 < unat e" using d by linarith
  then have "unat x = unat f + i * 4096"
    using unat_bound [of e] by (simp add: i(3) kPage_eq unat_word_ariths unat_of_nat)
  with b show ?thesis by (simp add: word_le_nat_alt word_less_nat_alt)
qed

lemma same_page_range:
  assumes "aligned f" "aligned e" "aligned p" "same_page x p" "f \<le> x" "x < e"
  shows "f \<le> p \<and> p < e"
proof -
  obtain k where k: "unat p = 4096 * k" using assms(3) unfolding aligned_unat mod_eq_0_iff_dvd by (meson dvdE)
  have "unat x div 4096 = k" using assms(4) k by (simp add: same_page_div)
  then have x: "unat p \<le> unat x" "unat x < unat p + 4096" using k div_mult_mod_eq [of "unat x" 4096]
      mod_less_divisor [of 4096 "unat x"] by linarith+
  have "\<not> p < f"
  proof
    assume "p < f"
    then show False using aligned_gap [OF assms(1,3)] x(2) assms(5) by (simp add: word_le_nat_alt)
  qed
  with x(1) assms(6) show ?thesis by (simp add: word_le_nat_alt word_less_nat_alt)
qed

lemma page_list_apart: "aligned f \<Longrightarrow> aligned e \<Longrightarrow> aligned p \<Longrightarrow> \<not> (f \<le> p \<and> p < e) \<Longrightarrow>
    \<forall>q \<in> set (page_list a b). f \<le> a \<and> b \<le> e \<longrightarrow> \<not> same_page q p"
  using same_page_range in_page_list by (meson order_less_le_trans order_trans)

lemma exchange_pages_leads: "exchange_pages h old ps s = Some s' \<Longrightarrow> (b \<Longrightarrow> \<forall>q \<in> set ps. \<not> same_page q p) \<Longrightarrow> leads b p c s s'"
proof (induction ps arbitrary: s)
  case (Cons q ps)
  then obtain s1 where s1: "interfere s = Some s1" by (auto simp: bind_eq_Some_conv)
  obtain r s2 where s2: "At_record h q s1 = (r, s2)" by fastforce
  let ?s = "case r of None \<Rightarrow> s2 | Some _ \<Rightarrow> snd (exchange q old kOpen s2)"
  have e: "exchange_pages h old ps ?s = Some s'" using Cons.prems(1) s1 s2 by (simp split: option.splits)
  have "leads b p c s s2"
    by (rule leads_trans [OF interfere_leads [OF s1] At_record_leads [OF s2]])
  moreover have "leads b p c s2 ?s"
    using Cons.prems(2) by (auto simp: exchange_def split: option.splits intro!: set_armed_leads)
  moreover have "leads b p c ?s s'" using Cons.IH [OF e] Cons.prems(2) by simp
  ultimately show ?case by (meson leads_trans)
qed simp

lemma mark_pages_leads: "mark_pages h 0 ps s = Some s' \<Longrightarrow> (b \<Longrightarrow> \<forall>q \<in> set ps. \<not> same_page q p) \<Longrightarrow> leads b p c s s'"
proof (induction ps arbitrary: s)
  case (Cons q ps)
  then obtain s1 where s1: "interfere s = Some s1" by (auto simp: bind_eq_Some_conv)
  obtain r s2 where s2: "At_record h q s1 = (r, s2)" by fastforce
  let ?s = "case r of None \<Rightarrow> s2 | Some _ \<Rightarrow> set_armed q 0 s2"
  have e: "mark_pages h 0 ps ?s = Some s'" using Cons.prems(1) s1 s2 by (simp split: option.splits)
  have "leads b p c s s2"
    by (rule leads_trans [OF interfere_leads [OF s1] At_record_leads [OF s2]])
  moreover have "leads b p c s2 ?s"
    using Cons.prems(2) by (auto split: option.splits intro!: set_armed_leads)
  moreover have "leads b p c ?s s'" using Cons.IH [OF e] Cons.prems(2) by simp
  ultimately show ?case by (meson leads_trans)
qed simp


lemma erase_marks_leads: "erase_marks h f e rs s = Some s' \<Longrightarrow>
    (b \<Longrightarrow> aligned f \<and> aligned e \<and> aligned p \<and> \<not> (f \<le> p \<and> p < e)) \<Longrightarrow> leads b p c s s'"
proof (induction rs arbitrary: s)
  case (Cons x rs)
  obtain x1 x2 where x: "x = (x1, x2)" by fastforce
  show ?case
  proof (cases "x1 < e \<and> x2 > f")
    case True
    then obtain s1 where s1: "MarkArmed h (max f x1) (min e x2) False s = Some s1" "erase_marks h f e rs s1 = Some s'"
      using Cons.prems(1) x by (auto simp: bind_eq_Some_conv)
    have "leads b p c s s1"
    proof (rule mark_pages_leads)
      show "mark_pages h 0 (page_list (max f x1) (min e x2)) s = Some s1" using s1(1) by (simp add: MarkArmed_def)
      assume b
      then show "\<forall>q \<in> set (page_list (max f x1) (min e x2)). \<not> same_page q p"
        using Cons.prems(2) page_list_apart [of f e p "max f x1" "min e x2"] by simp
    qed
    then show ?thesis using Cons.IH [OF s1(2) Cons.prems(2)] by (meson leads_trans)
  next
    case False
    then show ?thesis using Cons x by (auto split: if_splits)
  qed
qed simp

lemma EraseArmed_leads: "EraseArmed h f e s = Some s' \<Longrightarrow>
    (b \<Longrightarrow> aligned f \<and> aligned e \<and> aligned p \<and> \<not> (f \<le> p \<and> p < e)) \<Longrightarrow> leads b p c s s'"
proof -
  assume e: "EraseArmed h f e s = Some s'" and b: "b \<Longrightarrow> aligned f \<and> aligned e \<and> aligned p \<and> \<not> (f \<le> p \<and> p < e)"
  from e obtain s1 where s1: "erase_marks h f e (snd (back_if (\<lambda>_. True) (upper_bound f (wt_armed s)))) s = Some s1"
      "s' = drop_armed f e s1"
    by (auto simp: EraseArmed_def bind_eq_Some_conv)
  show ?thesis unfolding s1(2) by (rule leads_trans [OF erase_marks_leads [OF s1(1) b] runs_leads(2)])
qed

lemma DisarmFault_leads: "DisarmFault h f e s = Some s' \<Longrightarrow>
    (b \<Longrightarrow> aligned f \<and> aligned e \<and> aligned p \<and> \<not> (f \<le> p \<and> p < e)) \<Longrightarrow> leads b p c s s'"
proof -
  assume d: "DisarmFault h f e s = Some s'" and b: "b \<Longrightarrow> aligned f \<and> aligned e \<and> aligned p \<and> \<not> (f \<le> p \<and> p < e)"
  from d obtain s1 s2 where s1: "exchange_pages h kProtected (page_list f e) s = Some s1"
      "interfere s1 = Some s2" "s' = drop_armed f e (mprotect f e True s2)"
    by (auto simp: DisarmFault_def bind_eq_Some_conv)
  have "leads b p c s s1"
    by (rule exchange_pages_leads [OF s1(1)]) (use b page_list_apart [of f e p f e] in simp)
  moreover have "leads b p c s1 s2" by (rule interfere_leads [OF s1(2)])
  moreover have "leads b p c s2 (mprotect f e True s2)" by (rule mprotect_leads) (use b in simp)
  ultimately show ?thesis unfolding s1(3) by (meson leads_trans runs_leads(2))
qed

lemma may_arm_leads: "may_arm ps s = Some (ok, s') \<Longrightarrow> leads b p c s s'"
proof (induction ps arbitrary: s)
  case (Cons q ps)
  then obtain s1 where s1: "interfere s = Some s1" by (auto simp: bind_eq_Some_conv)
  have "s' = s1 \<or> may_arm ps s1 = Some (ok, s')" using Cons.prems s1 by (auto split: option.splits if_splits)
  then have "leads b p c s1 s'" using Cons.IH by auto
  then show ?case using interfere_leads [OF s1] by (meson leads_trans)
qed simp

lemma all_armed_leads: "all_armed ps s = Some (ok, s') \<Longrightarrow> leads b p c s s'"
proof (induction ps arbitrary: s)
  case (Cons q ps)
  then obtain s1 where s1: "interfere s = Some s1" by (auto simp: bind_eq_Some_conv)
  have "s' = s1 \<or> all_armed ps s1 = Some (ok, s')" using Cons.prems s1 by (simp split: if_splits)
  then have "leads b p c s1 s'" using Cons.IH by auto
  then show ?case using interfere_leads [OF s1] by (meson leads_trans)
qed simp

lemma firm_leads: "leads b p c s s' \<Longrightarrow> tracker_ok s \<Longrightarrow> firm s p \<Longrightarrow> firm s' p"
  by (simp add: leads_def)

lemma leads_ok: "leads b p c s s' \<Longrightarrow> tracker_ok s \<Longrightarrow> tracker_ok s'"
  by (simp add: leads_def)

lemma reopen_leads: "reopen ps s = Some s' \<Longrightarrow> tracker_ok s \<Longrightarrow> (b \<Longrightarrow> (\<forall>q \<in> set ps. \<not> same_page q p) \<or> firm s p) \<Longrightarrow> leads b p c s s'"
proof (induction ps arbitrary: s)
  case (Cons q ps)
  then obtain s1 where s1: "interfere s = Some s1" "reopen ps (set_armed q kOpen s1) = Some s'"
    by (auto simp: bind_eq_Some_conv)
  have l: "leads b p c s s1" by (rule interfere_leads [OF s1(1)])
  moreover have m: "leads b p c s1 (set_armed q kOpen s1)"
    by (rule set_armed_leads) (use Cons.prems(2,3) firm_leads [OF l] in \<open>auto simp: kOpen_def kProtected_def\<close>)
  moreover have "leads b p c (set_armed q kOpen s1) s'"
    by (rule Cons.IH [OF s1(2)])
       (use Cons.prems(2,3) leads_ok [OF l] leads_ok [OF m] firm_leads [OF l] firm_leads [OF m] in auto)
  ultimately show ?case by (meson leads_trans)
qed simp

text \<open>The run that is protected consists of pages the owner found open, which matters for a page only if it was announced.\<close>

lemma protect_run_leads:
  assumes "protect_run h run stop s = Some (ok, s')" "tracker_ok s" "aligned run" "aligned stop" "aligned p"
    "b \<Longrightarrow> run \<noteq> 0 \<and> run \<le> p \<and> p < stop \<Longrightarrow> firm s p"
  shows "leads b p c s s'"
proof (cases "run = 0")
  case True
  then show ?thesis using assms(1) by (simp add: protect_run_def)
next
  case False
  then obtain s1 where s1: "interfere s = Some s1" using assms(1) by (auto simp: protect_run_def bind_eq_Some_conv)
  have l: "leads b p c s s1" by (rule interfere_leads [OF s1])
  have "leads b p c s1 s'"
  proof (cases "we_mprotect h run (stop - run)")
    case True
    then have "s' = mprotect run stop False s1" using assms(1) False s1 by (simp add: protect_run_def)
    then show ?thesis
      using mprotect_leads [of b run p stop s1] assms(6) False firm_leads [OF l assms(2)] by blast
  next
    case nf: False
    then have "reopen (page_list run stop) s1 = Some s'" using assms(1) False s1 by (auto simp: protect_run_def bind_eq_Some_conv)
    then show ?thesis
      by (rule reopen_leads)
         (use leads_ok [OF l assms(2)] assms(6) False firm_leads [OF l assms(2)]
            page_list_apart [OF assms(3,4,5), of run stop] in auto)
  qed
  with l show ?thesis by (rule leads_trans)
qed

lemma page_list_step:
  assumes "aligned f" "aligned e" "f < e"
  shows "page_list f e = f # page_list (f + 4096) e"
proof -
  have g: "unat (f + 4096) = unat f + 4096" "f + 4096 \<le> e" using aligned_gap [OF assms(2,1,3)] by auto
  then have le: "unat f + 4096 \<le> unat e" by (simp add: word_le_nat_alt)
  have d: "unat (e - f) = unat e - unat f" "unat (e - (f + 4096)) = unat e - unat f - 4096"
    using assms(3) g by (simp_all add: unat_diff_le order_less_imp_le)
  let ?n = "(unat (e - (f + 4096)) + 4095) div 4096"
  have n: "(unat (e - f) + 4095) div 4096 = Suc ?n" using le unfolding d by (simp add: le_div_geq)
  have z: "(if f + 4096 < e then ?n else 0) = ?n"
  proof (cases "f + 4096 < e")
    case False
    then have "e = f + 4096" using g(2) by simp
    then show ?thesis by simp
  qed simp
  have "[0..<Suc ?n] = 0 # map Suc [0..<?n]" by (simp add: upt_conv_Cons map_Suc_upt del: upt_Suc)
  then have "map (\<lambda>i. f + of_nat i * kPage) [0..<Suc ?n] = f # map (\<lambda>i. f + of_nat (Suc i) * kPage) [0..<?n]"
    by (simp add: comp_def del: upt_Suc)
  also have "\<dots> = f # page_list (f + 4096) e"
  proof -
    have "f + of_nat (Suc i) * kPage = f + 4096 + of_nat i * kPage" for i by (simp add: kPage_eq)
    then show ?thesis unfolding page_list_def z by (simp only:)
  qed
  finally show ?thesis using assms(3) n by (simp add: page_list_def)
qed

lemma page_list_end: "\<not> f < e \<Longrightarrow> page_list f e = []"
  by (simp add: page_list_def)

lemma upd_ever_leads: "leads b p c s (s\<lparr>wt_table := upd_page q (\<lambda>r. r\<lparr>pg_ever_armed := 1\<rparr>) (wt_table s)\<rparr>)"
  by (rule leads_frame) (simp_all add: page_at_upd)


lemma open_firm: "safe p c s \<Longrightarrow> state_of s p = kOpen \<Longrightarrow> firm s p"
  by (auto simp: safe_def guarded_def reportable_def firm_def)

lemma leads_safe: "leads b p c s s' \<Longrightarrow> b \<Longrightarrow> tracker_ok s \<Longrightarrow> safe p c s \<Longrightarrow> safe p c s'"
  by (simp add: leads_def)

lemma arm_pages_leads:
  assumes "arm_pages h (page_list cur e) e run s = Some (ok, s')" "tracker_ok s" "aligned cur" "aligned e" "aligned run"
    "aligned p" "cur \<noteq> 0" "cur \<le> e" "b \<Longrightarrow> safe p c s" "b \<Longrightarrow> run \<noteq> 0 \<and> run \<le> p \<and> p < cur \<Longrightarrow> firm s p"
  shows "leads b p c s s'"
  using assms
proof (induction "page_list cur e" arbitrary: cur run s)
  case Nil
  have "\<not> cur < e"
  proof
    assume "cur < e"
    from page_list_step [OF Nil.prems(3,4) this] Nil.hyps show False by simp
  qed
  then have "cur = e" using Nil.prems(8) by simp
  then have "protect_run h run e s = Some (ok, s')" using Nil.prems(1) Nil.hyps by simp
  then show ?case by (rule protect_run_leads) (use Nil.prems \<open>cur = e\<close> in auto)
next
  case (Cons q ps)
  have lt: "cur < e" using Cons.hyps(2) page_list_end [of cur e] by (cases "cur < e") auto
  note step = page_list_step [OF Cons.prems(3,4) lt]
  then have q: "q = cur" "ps = page_list (cur + 4096) e" using Cons.hyps(2) by auto
  have nx: "cur + 4096 \<le> e" "aligned (cur + 4096)" "cur + 4096 \<noteq> 0"
    using aligned_gap [OF Cons.prems(4,3) lt] aligned_next [OF Cons.prems(3)] by auto
  have run: "arm_pages h (cur # page_list (cur + 4096) e) e run s = Some (ok, s')" using Cons.prems(1) unfolding step .
  then obtain s1 where s1: "interfere s = Some s1" by (auto simp: bind_eq_Some_conv)
  obtain r s2 where s2: "At_record h cur s1 = (r, s2)" by fastforce
  have l2: "leads b p c s s2" by (rule leads_trans [OF interfere_leads [OF s1] At_record_leads [OF s2]])
  note ok2 = leads_ok [OF l2 Cons.prems(2)]
  have firm2: "firm s2 p" if b "run \<noteq> 0 \<and> run \<le> p \<and> p < cur"
    by (rule firm_leads [OF l2 Cons.prems(2)]) (use Cons.prems(10) that in simp)
  have safe2: "safe p c s2" if b by (rule leads_safe [OF l2 that Cons.prems(2) Cons.prems(9) [OF that]])
  consider "r = None" | r' where "r = Some r'" "pg_armed r' \<noteq> kOpen" | r' where "r = Some r'" "pg_armed r' = kOpen" by (cases r) auto
  then have "leads b p c s2 s'"
  proof cases
    case 1
    then show ?thesis using run s1 s2 by simp
  next
    case 2
    then obtain okp s3 where s3: "protect_run h run cur s2 = Some (okp, s3)"
        "if okp then arm_pages h (page_list (cur + 4096) e) e 0 s3 = Some (ok, s') else s' = s3"
      using run s1 s2 by (auto simp: bind_eq_Some_conv split: if_splits)
    have l3: "leads b p c s2 s3"
      by (rule protect_run_leads [OF s3(1) ok2 Cons.prems(5,3,6)]) (use firm2 in auto)
    show ?thesis
    proof (cases okp)
      case True
      have "leads b p c s3 s'"
        by (rule Cons.hyps(1) [OF q(2), of 0])
           (use s3(2) True leads_ok [OF l3 ok2] nx Cons.prems(4,6) leads_safe [OF l3 _ ok2 safe2] in \<open>simp_all add: aligned_0\<close>)
      with l3 show ?thesis by (rule leads_trans)
    qed (use s3(2) l3 in simp)
  next
    case 3
    then obtain s3 where s3: "interfere s2 = Some s3" using run s1 s2 by (auto simp: bind_eq_Some_conv split: if_splits)
    let ?s3 = "s3\<lparr>wt_table := upd_page cur (\<lambda>r. r\<lparr>pg_ever_armed := 1\<rparr>) (wt_table s3)\<rparr>"
    obtain s4 where s4: "interfere ?s3 = Some s4"
        "arm_pages h (page_list (cur + 4096) e) e (if run = 0 then cur else run) (set_armed cur kProtected s4) = Some (ok, s')"
      using run s1 s2 s3 3 by (auto simp: bind_eq_Some_conv Let_def split: if_splits)
    have l4: "leads b p c s2 s4"
      by (rule leads_trans [OF interfere_leads [OF s3] leads_trans [OF upd_ever_leads interfere_leads [OF s4(1)]]])
    note ok4 = leads_ok [OF l4 ok2]
    have open2: "state_of s2 cur = kOpen" using At_record_state [of h cur s1 r' s2] s2 3 by simp
    have firm_cur: "firm s4 p" if b "p = cur"
      using firm_leads [OF l4 ok2 open_firm [OF safe2 [OF that(1)]]] open2 that(2) by simp
    have firm4: "firm s4 p" if b "run \<noteq> 0 \<and> run \<le> p \<and> p < cur" by (rule firm_leads [OF l4 ok2 firm2 [OF that]])
    have z: "\<not> same_page cur 0" using Cons.prems(3,7) by (simp add: same_aligned aligned_0)
    have l5: "leads b p c s4 (set_armed cur kProtected s4)"
      by (rule set_armed_leads) (use z firm_cur Cons.prems(3,6) same_aligned in auto)
    note ok5 = leads_ok [OF l5 ok4]
    have "leads b p c (set_armed cur kProtected s4) s'"
    proof (rule Cons.hyps(1) [OF q(2) s4(2) ok5])
      show "safe p c (set_armed cur kProtected s4)" if b
        using leads_safe [OF l5 that ok4] leads_safe [OF l4 that ok2 safe2 [OF that]] by blast
      show "firm (set_armed cur kProtected s4) p" if b "(if run = 0 then cur else run) \<noteq> 0 \<and> (if run = 0 then cur else run) \<le> p \<and> p < cur + 4096"
      proof -
        have "firm s4 p"
        proof (cases "p = cur")
          case False
          then have "p < cur" using that(2) aligned_in_page [OF Cons.prems(6,3)] by (cases "cur \<le> p") (auto simp: not_le)
          then show ?thesis using firm4 [OF that(1)] that(2) by (auto split: if_splits dest: leD)
        qed (use firm_cur that(1) in simp)
        then show ?thesis by (rule firm_leads [OF l5 ok4])
      qed
    qed (use nx Cons.prems in auto)
    with l4 l5 show ?thesis by (meson leads_trans)
  qed
  with l2 show ?case by (rule leads_trans)
qed

lemma ArmFault_leads:
  assumes "ArmFault h f e s = Some (ok, s')" "tracker_ok s" "aligned f" "aligned e" "f \<noteq> 0" "f \<le> e" "aligned p" "b \<Longrightarrow> safe p c s"
  shows "leads b p c s s'"
proof -
  obtain s1 where s1: "interfere s = Some s1" using assms(1) by (auto simp: ArmFault_def bind_eq_Some_conv)
  have l1: "leads b p c s s1" by (rule interfere_leads [OF s1])
  consider "s' = s1" | "may_arm (page_list f e) s1 = Some (False, s')"
    | s2 ok3 s3 where "may_arm (page_list f e) s1 = Some (True, s2)" "arm_pages h (page_list f e) e 0 s2 = Some (ok3, s3)"
        "s' = s3 \<or> s' = add_armed f e s3"
    using assms(1) s1 by (auto simp: ArmFault_def bind_eq_Some_conv split: if_splits)
  then have "leads b p c s1 s'"
  proof cases
    case 3
    have l2: "leads b p c s s2" by (rule leads_trans [OF l1 may_arm_leads [OF 3(1)]])
    have "leads b p c s2 s3"
      by (rule arm_pages_leads [OF 3(2) leads_ok [OF l2 assms(2)]])
         (use assms leads_safe [OF l2 _ assms(2)] in \<open>auto simp: aligned_0\<close>)
    then show ?thesis using may_arm_leads [OF 3(1)] 3(3) by (metis leads_trans runs_leads(1))
  qed (auto intro: may_arm_leads)
  with l1 show ?thesis by (rule leads_trans)
qed

text \<open>Requests that do not wrap and do not reach down to the null page.\<close>

definition request_ok :: "u64 \<Rightarrow> u64 \<Rightarrow> bool" where
  "request_ok a n \<longleftrightarrow> 4096 \<le> a \<and> PageDown a \<le> PageUp (a + n)"

lemma request_down: "request_ok a n \<Longrightarrow> PageDown a \<noteq> 0"
proof -
  assume "request_ok a n"
  then have "(4096 :: u64) AND NOT 0xFFF \<le> a AND NOT 0xFFF"
    using page_down_mono [of 4096 a 12] by (simp add: request_ok_def)
  then show ?thesis by (auto simp: page_mask)
qed

lemma Arm_leads:
  assumes "Arm h a n s = Some (ok, s')" "tracker_ok s" "request_ok a n" "aligned p" "b \<Longrightarrow> safe p c s"
  shows "leads b p c s s'"
proof (cases "\<not> enabled s \<or> n = 0 \<or> \<not> we_arm_filter h (PageDown a) (PageUp (a + n))")
  case True
  then show ?thesis using assms(1) by (auto simp: Arm_def Let_def)
next
  case False
  then obtain ok1 s1 where s1: "AllArmed (PageDown a) (PageUp (a + n)) s = Some (ok1, s1)"
    using assms(1) by (auto simp: Arm_def Let_def bind_eq_Some_conv)
  have l1: "leads b p c s s1" using all_armed_leads s1 by (simp add: AllArmed_def)
  have m: "wt_mode s1 = Fault_mode" using leads_ok [OF l1 assms(2)] by (simp add: tracker_ok_def)
  show ?thesis
  proof (cases ok1)
    case True
    then show ?thesis using assms(1) False s1 l1 by (auto simp: Arm_def Let_def)
  next
    case nok: False
    then have "ArmFault h (PageDown a) (PageUp (a + n)) s1 = Some (ok, s')"
      using assms(1) False s1 m by (auto simp: Arm_def ArmRange_def Let_def)
    then have "leads b p c s1 s'"
      by (rule ArmFault_leads)
         (use assms(3,4,5) leads_ok [OF l1 assms(2)] leads_safe [OF l1 _ assms(2)] request_down in \<open>auto simp: request_ok_def\<close>)
    with l1 show ?thesis by (rule leads_trans)
  qed
qed


section \<open>Collecting\<close>

definition empty_slot :: "nat \<Rightarrow> tracker \<Rightarrow> tracker" where
  "empty_slot i s = s\<lparr>wt_slots := (wt_slots s)(i mod kQueueSize := 0)\<rparr>"

lemma take_slot_run: "take_slot i s = Some (q, s') \<Longrightarrow>
    \<exists>s1. leads b p c s s1 \<and> q = wt_slots s1 (i mod kQueueSize) \<and> q \<noteq> 0 \<and> s' = empty_slot i s1"
proof (induction i s rule: take_slot.induct)
  case (1 i s)
  from "1.prems" obtain s1 where s1: "interfere s = Some s1" by (subst (asm) take_slot.simps) (auto split: option.splits)
  note l = interfere_leads [OF s1, of b p c]
  show ?case
  proof (cases "wt_slots s1 (i mod kQueueSize) \<noteq> 0")
    case True
    then have "q = wt_slots s1 (i mod kQueueSize)" "s' = empty_slot i s1"
      using "1.prems" s1 by (subst (asm) take_slot.simps, simp add: empty_slot_def)+
    then show ?thesis using l True by blast
  next
    case False
    then have c: "length (wt_others s1) < length (wt_others s)" "take_slot i s1 = Some (q, s')"
      using "1.prems" s1 by (subst (asm) take_slot.simps, simp split: if_splits)+
    from "1.IH" [OF s1 _ c(1) c(2)] False obtain s2 where
      s2: "leads b p c s1 s2" "q = wt_slots s2 (i mod kQueueSize)" "q \<noteq> 0" "s' = empty_slot i s2" by blast
    from leads_trans [OF l s2(1)] s2(2-4) show ?thesis by blast
  qed
qed

lemma empty_slot_fields [simp]:
  "wt_mode (empty_slot i s) = wt_mode s" "wt_table (empty_slot i s) = wt_table s" "wt_writable (empty_slot i s) = wt_writable s"
  "wt_content (empty_slot i s) = wt_content s" "wt_slots (empty_slot i s) = (wt_slots s)(i mod kQueueSize := 0)"
  "wt_head (empty_slot i s) = wt_head s" "wt_tail (empty_slot i s) = wt_tail s"
  "wt_noted (empty_slot i s) = wt_noted s" "wt_remapped (empty_slot i s) = wt_remapped s"
  "wt_others (empty_slot i s) = wt_others s" "wt_reported (empty_slot i s) = wt_reported s" "wt_threads (empty_slot i s) = wt_threads s"
  by (simp_all add: empty_slot_def)

lemma empty_slot_ok: "tracker_ok s \<Longrightarrow> tracker_ok (empty_slot i s)"
  by (simp add: tracker_ok_def queue_ok_def)

lemma empty_slot_safe: "safe p c s \<Longrightarrow> p \<noteq> wt_slots s (i mod kQueueSize) \<Longrightarrow> safe p c (empty_slot i s)"
proof -
  assume s: "safe p c s" "p \<noteq> wt_slots s (i mod kQueueSize)"
  then have "p \<noteq> 0" by (simp add: safe_def)
  have "slotted (empty_slot i s) p" if "slotted s p"
  proof -
    from that obtain j where j: "wt_tail s \<le> j" "j < wt_head s" "wt_slots s (j mod kQueueSize) = p" by (auto simp: slotted_def)
    then have "j mod kQueueSize \<noteq> i mod kQueueSize" using s(2) by metis
    with j show ?thesis by (auto simp: slotted_def intro!: exI [of _ j])
  qed
  with s(1) show ?thesis by (auto simp: safe_def guarded_def reportable_def held_def)
qed

lemma empty_slot_drained:
  assumes "tracker_ok s" "drained i s" "i < wt_head s" "wt_tail s \<le> i" "wt_slots s (i mod kQueueSize) \<noteq> 0"
  shows "drained (Suc i) (empty_slot i s)"
proof -
  have "fill_of (wt_threads s t) \<noteq> Some (i, q)" for t q
    using assms(1,5) unfolding tracker_ok_def queue_ok_def by blast
  then show ?thesis using assms(2-4) by (auto simp: drained_def less_Suc_eq)
qed

lemma take_slots_run:
  assumes "take_slots [a..<m] s = Some (ps, s')" "tracker_ok s" "drained a s" "wt_tail s \<le> a" "m \<le> wt_head s"
  shows "tracker_ok s' \<and> wt_tail s' = wt_tail s \<and> m \<le> wt_head s' \<and> drained (max a m) s' \<and> (firm s p \<longrightarrow> firm s' p)
    \<and> (safe p c s \<longrightarrow> safe p c s' \<or> p \<in> set ps) \<and> (\<forall>q \<in> set ps. valid q)
    \<and> (\<forall>i. a \<le> i \<and> i < m \<and> p \<noteq> 0 \<and> in_slot i p s \<longrightarrow> p \<in> set ps)"
  using assms
proof (induction "m - a" arbitrary: a s ps)
  case 0
  then show ?case by (auto simp: max_def)
next
  case (Suc n)
  then have "a < m" by simp
  then have u: "[a..<m] = a # [Suc a..<m]" by (rule upt_conv_Cons)
  from Suc.prems(1) obtain q s1 ps' where s1: "take_slot a s = Some (q, s1)" "take_slots [Suc a..<m] s1 = Some (ps', s')" "ps = q # ps'"
    unfolding u by (auto simp: bind_eq_Some_conv)
  from take_slot_run [OF s1(1), of True p c] obtain s0 where s0: "leads True p c s s0" "q = wt_slots s0 (a mod kQueueSize)"
      "q \<noteq> 0" "s1 = empty_slot a s0" by blast
  have l: "tracker_ok s0" "wt_tail s0 = wt_tail s" "wt_head s \<le> wt_head s0" "drained a s0" "firm s p \<longrightarrow> firm s0 p"
      "safe p c s \<longrightarrow> safe p c s0"
    using s0(1) Suc.prems(2,3) by (auto simp: leads_def)
  have d: "drained (Suc a) s1" unfolding s0(4)
    by (rule empty_slot_drained) (use l s0 Suc.prems \<open>a < m\<close> in auto)
  have IH: "tracker_ok s' \<and> wt_tail s' = wt_tail s1 \<and> m \<le> wt_head s' \<and> drained (max (Suc a) m) s' \<and> (firm s1 p \<longrightarrow> firm s' p)
    \<and> (safe p c s1 \<longrightarrow> safe p c s' \<or> p \<in> set ps') \<and> (\<forall>q \<in> set ps'. valid q)
    \<and> (\<forall>i. Suc a \<le> i \<and> i < m \<and> p \<noteq> 0 \<and> in_slot i p s1 \<longrightarrow> p \<in> set ps')"
    by (rule Suc.hyps(1) [OF _ s1(2) _ d]) (use Suc.hyps(2) l s0(4) Suc.prems(4,5) empty_slot_ok in auto)
  moreover have "firm s0 p \<Longrightarrow> firm s1 p" by (simp add: s0(4) firm_def)
  moreover have "safe p c s0 \<Longrightarrow> safe p c s1 \<or> p = q" using empty_slot_safe [of p c s0 a] s0(2,4) by blast
  moreover have "p \<in> set ps \<or> in_slot i p s1 \<and> Suc a \<le> i" if "a \<le> i" "i < m" "p \<noteq> 0" "in_slot i p s" for i
  proof (cases "p = q")
    case False
    have "in_slot i p s0" using s0(1) Suc.prems(2) that(3,4) by (simp add: leads_def)
    moreover from this have "i mod kQueueSize \<noteq> a mod kQueueSize" using False s0(2) by (metis in_slot_def)
    ultimately have "in_slot i p s1" "i \<noteq> a" using s0(4) by (auto simp: in_slot_def)
    then show ?thesis using that(1) by simp
  qed (simp add: s1(3))
  moreover have "valid q" using l(1) s0(2,3) unfolding tracker_ok_def queue_ok_def by blast
  moreover have "max (Suc a) m = max a m" using \<open>a < m\<close> by simp
  ultimately show ?case using l(2,5,6) s0(4) s1(3) Suc_leD by (auto; blast)
qed

lemma move_tail:
  assumes "tracker_ok s" "drained m s" "wt_tail s \<le> m"
  shows "tracker_ok (s\<lparr>wt_tail := m\<rparr>)" and "safe p c s \<Longrightarrow> safe p c (s\<lparr>wt_tail := m\<rparr>)"
proof -
  have q: "queue_ok s" using assms(1) by (simp add: tracker_ok_def)
  have d: "m \<le> wt_head s" "\<And>j. wt_tail s \<le> j \<Longrightarrow> j < m \<Longrightarrow> wt_slots s (j mod kQueueSize) = 0"
      "\<And>j t q. wt_tail s \<le> j \<Longrightarrow> j < m \<Longrightarrow> fill_of (wt_threads s t) \<noteq> Some (j, q)"
    using assms(2) unfolding drained_def by blast+
  have "wt_slots s (i mod kQueueSize) = 0" if "wt_head s \<le> i" "i < m + kQueueSize" for i
  proof (cases "i < wt_tail s + kQueueSize")
    case True
    then show ?thesis using q that(1) unfolding queue_ok_def by blast
  next
    case False
    then have "(i - kQueueSize) mod kQueueSize = i mod kQueueSize" by (simp add: mod_if)
    moreover have "wt_slots s ((i - kQueueSize) mod kQueueSize) = 0" using False that(2) by (intro d(2)) linarith+
    ultimately show ?thesis by simp
  qed
  moreover have "m \<le> i" if "fill_of (wt_threads s t) = Some (i, q)" for t i q
  proof -
    have "wt_tail s \<le> i" using that \<open>queue_ok s\<close> unfolding queue_ok_def by blast
    then show ?thesis using d(3) that by (meson not_le)
  qed
  moreover have "wt_head s \<le> m + kQueueSize" using q assms(3) unfolding queue_ok_def by linarith
  ultimately have "queue_ok (s\<lparr>wt_tail := m\<rparr>)" using q d(1) unfolding queue_ok_def by simp
  then show "tracker_ok (s\<lparr>wt_tail := m\<rparr>)" using assms(1) by (simp add: tracker_ok_def)
  have "slotted (s\<lparr>wt_tail := m\<rparr>) p" if sl: "slotted s p" "p \<noteq> 0"
  proof -
    from sl(1) obtain j where j: "wt_tail s \<le> j" "j < wt_head s" "wt_slots s (j mod kQueueSize) = p" by (auto simp: slotted_def)
    then have "m \<le> j" using d(2) [of j] sl(2) by (meson not_le)
    with j show ?thesis by (auto simp: slotted_def)
  qed
  then show "safe p c s \<Longrightarrow> safe p c (s\<lparr>wt_tail := m\<rparr>)"
    by (auto simp: safe_def guarded_def reportable_def held_def)
qed


lemma valid_next: "valid q \<Longrightarrow> unat (q + 4096) = unat q + 4096"
  by (simp add: valid_def word_less_nat_alt unat_word_ariths)

lemma merge_pages_ranges: "sorted ps \<Longrightarrow> \<forall>q \<in> set ps. valid q \<and> f \<le> q \<Longrightarrow> f < e \<Longrightarrow> aligned f \<Longrightarrow> aligned e \<Longrightarrow>
    (in_ranges (merge_pages f e ps) x \<longleftrightarrow> f \<le> x \<and> x < e \<or> (\<exists>q \<in> set ps. q \<le> x \<and> x < q + 4096))
    \<and> (\<forall>(a, b) \<in> set (merge_pages f e ps). aligned a \<and> aligned b \<and> a < b)"
proof (induction ps arbitrary: f e)
  case (Cons q ps)
  then have q: "valid q" "f \<le> q" "aligned q" and ps: "sorted ps" "\<forall>r \<in> set ps. valid r \<and> f \<le> r \<and> q \<le> r"
    by (auto simp: valid_def)
  have lt: "q < q + 4096" using valid_next [OF q(1)] by (simp add: word_less_nat_alt)
  show ?case
  proof (cases "q \<le> e")
    case True
    have "f < max e (q + 4096)" using Cons.prems(3) by (simp add: less_max_iff_disj)
    moreover have "aligned (max e (q + 4096))" using Cons.prems(5) aligned_next [OF q(3)] by (simp add: max_def)
    moreover have "f \<le> x \<and> x < max e (q + 4096) \<longleftrightarrow> f \<le> x \<and> x < e \<or> q \<le> x \<and> x < q + 4096"
    proof
      assume h: "f \<le> x \<and> x < max e (q + 4096)"
      show "f \<le> x \<and> x < e \<or> q \<le> x \<and> x < q + 4096"
      proof (cases "x < e")
        case False
        then have "q \<le> x" using True by (meson not_less order_trans)
        then show ?thesis using h False by (simp add: less_max_iff_disj)
      qed (use h in simp)
    next
      assume "f \<le> x \<and> x < e \<or> q \<le> x \<and> x < q + 4096"
      then show "f \<le> x \<and> x < max e (q + 4096)" using q(2) by (auto simp: less_max_iff_disj intro: order_trans)
    qed
    ultimately show ?thesis using Cons.IH [OF ps(1), of f "max e (q + 4096)"] ps(2) Cons.prems(4) True
      by (auto simp: kPage_eq)
  next
    case False
    then show ?thesis using Cons.IH [OF ps(1), of q "q + 4096"] ps(2) lt q(3) aligned_next [OF q(3)] Cons.prems(3-5)
      by (auto simp: kPage_eq)
  qed
qed auto

lemma page_runs_ranges:
  assumes "\<forall>q \<in> set ps. valid q"
  shows "in_ranges (page_runs (sort ps)) x \<longleftrightarrow> (\<exists>q \<in> set ps. q \<le> x \<and> x < q + 4096)"
    and "\<forall>(a, b) \<in> set (page_runs (sort ps)). aligned a \<and> aligned b \<and> a < b"
proof -
  have "(in_ranges (page_runs (sort ps)) x \<longleftrightarrow> (\<exists>q \<in> set ps. q \<le> x \<and> x < q + 4096))
    \<and> (\<forall>(a, b) \<in> set (page_runs (sort ps)). aligned a \<and> aligned b \<and> a < b)"
  proof (cases "sort ps")
    case Nil
    then have "ps = []" by (metis length_0_conv length_sort)
    then show ?thesis by (simp add: page_runs_def)
  next
    case (Cons q qs)
    have set: "set ps = insert q (set qs)" using Cons by (metis list.simps(15) set_sort)
    have "sorted (q # qs)" using Cons by (metis sorted_sort)
    then have s: "sorted qs" "\<forall>r \<in> set qs. q \<le> r" by auto
    have v: "valid q" using assms set by simp
    then have "aligned q" "q < q + 4096" using valid_next [of q] by (simp_all add: valid_def word_less_nat_alt)
    then show ?thesis
      using merge_pages_ranges [OF s(1), of q "q + 4096" x] s(2) assms set aligned_next [of q] Cons
      by (simp add: page_runs_def kPage_eq)
  qed
  then show "in_ranges (page_runs (sort ps)) x \<longleftrightarrow> (\<exists>q \<in> set ps. q \<le> x \<and> x < q + 4096)"
    "\<forall>(a, b) \<in> set (page_runs (sort ps)). aligned a \<and> aligned b \<and> a < b" by blast+
qed

lemma open_runs_leads: "open_runs h rs s = Some s' \<Longrightarrow> \<forall>(f, e) \<in> set rs. aligned f \<and> aligned e \<and> f < e \<Longrightarrow>
    (b \<Longrightarrow> aligned p \<and> \<not> in_ranges rs p) \<Longrightarrow> leads b p c s s'"
proof (induction rs arbitrary: s)
  case (Cons x rs)
  obtain f e where x: "x = (f, e)" by fastforce
  from Cons.prems(1) obtain s1 where s1: "exchange_pages h kQueued (page_list f e) s = Some s1"
      "open_runs h rs (drop_armed f e s1) = Some s'"
    unfolding x by (auto simp: bind_eq_Some_conv)
  have al: "aligned f" "aligned e" using Cons.prems(2) x by auto
  have l: "leads b p c s s1"
    by (rule exchange_pages_leads [OF s1(1)]) (use Cons.prems(3) x page_list_apart [OF al, of p f e] in auto)
  have "leads b p c (drop_armed f e s1) s'"
    by (rule Cons.IH [OF s1(2)]) (use Cons.prems x in auto)
  with l show ?case by (meson leads_trans runs_leads(2))
qed simp

text \<open>What an operation of the owner that reports pages does to one page.\<close>

definition reports :: "u64 \<Rightarrow> nat \<Rightarrow> tracker \<Rightarrow> ranges \<Rightarrow> tracker \<Rightarrow> bool" where
  "reports p c s out s' \<longleftrightarrow> (tracker_ok s \<longrightarrow> tracker_ok s' \<and> (safe p c s \<longrightarrow> safe p c s' \<or> in_ranges out p))"

lemma reports_leads: "leads True p c s s' \<Longrightarrow> reports p c s' out s'' \<Longrightarrow> reports p c s out s''"
  by (auto simp: reports_def leads_def)

lemma leads_reports: "leads True p c s s' \<Longrightarrow> reports p c s [] s'"
  by (simp add: reports_def leads_def)

lemma reports_trans: "reports p c s out s' \<Longrightarrow> reports p c s' out' s'' \<Longrightarrow> reports p c s (out @ out') s''"
  by (auto simp: reports_def)

lemma TakeFaulted_reports:
  assumes "TakeFaulted h s = Some (out, s')" "aligned p"
  shows "reports p c s out s'"
proof -
  obtain s1 where s1: "interfere s = Some s1" using assms(1) by (auto simp: TakeFaulted_def bind_eq_Some_conv)
  note l1 = interfere_leads [OF s1, of True p c]
  show ?thesis
  proof (cases "wt_head s1 = wt_tail s1")
    case True
    then have "s' = s1" "out = []" using assms(1) s1 by (auto simp: TakeFaulted_def)
    then show ?thesis using leads_reports [OF l1] by simp
  next
    case False
    then obtain ps s2 where s2: "take_slots [wt_tail s1..<wt_head s1] s1 = Some (ps, s2)"
        "open_runs h (page_runs (sort ps)) (s2\<lparr>wt_tail := wt_head s1\<rparr>) = Some s'" "out = page_runs (sort ps)"
      using assms(1) s1 by (auto simp: TakeFaulted_def bind_eq_Some_conv Let_def)
    have "reports p c s1 out s'" unfolding reports_def
    proof (intro impI)
      assume ok: "tracker_ok s1"
      then have q: "wt_tail s1 \<le> wt_head s1" by (simp add: tracker_ok_def queue_ok_def)
      then have "drained (wt_tail s1) s1" by (auto simp: drained_def)
      from take_slots_run [OF s2(1) ok this] q
      have t: "tracker_ok s2" "wt_tail s2 = wt_tail s1" "drained (wt_head s1) s2" "\<forall>q \<in> set ps. valid q"
        "safe p c s1 \<Longrightarrow> safe p c s2 \<or> p \<in> set ps" by (auto simp: max_def)
      let ?s = "s2\<lparr>wt_tail := wt_head s1\<rparr>"
      have m: "tracker_ok ?s" "safe p c s2 \<Longrightarrow> safe p c ?s"
        using move_tail [OF t(1,3)] t(2) q by auto
      note runs = page_runs_ranges [OF t(4)]
      have l: "leads (\<not> in_ranges out p) p c ?s s'"
        by (rule open_runs_leads [OF s2(2)]) (use runs(2) assms(2) s2(3) in auto)
      have "in_ranges out p" if "p \<in> set ps"
        unfolding s2(3) runs(1) using that t(4) valid_next [of p] by (intro bexI [of _ p]) (auto simp: word_less_nat_alt)
      then show "tracker_ok s' \<and> (safe p c s1 \<longrightarrow> safe p c s' \<or> in_ranges out p)"
        using l m t(5) by (auto simp: leads_def)
    qed
    then show ?thesis by (rule reports_leads [OF l1])
  qed
qed


lemma TakeFaulted_takes:
  assumes "TakeFaulted h s = Some (out, s')" "tracker_ok s" "valid p" "in_slot i p s"
  shows "in_ranges out p"
proof -
  have p: "p \<noteq> 0" using assms(3) by (simp add: valid_def)
  obtain s1 where s1: "interfere s = Some s1" using assms(1) by (auto simp: TakeFaulted_def bind_eq_Some_conv)
  have l1: "tracker_ok s1" "in_slot i p s1"
    using interfere_leads [OF s1, of True p 0] assms(2,4) p by (auto simp: leads_def)
  then have q: "wt_tail s1 \<le> i" "i < wt_head s1" by (auto simp: in_slot_def)
  then obtain ps s2 where s2: "take_slots [wt_tail s1..<wt_head s1] s1 = Some (ps, s2)" "out = page_runs (sort ps)"
    using assms(1) s1 by (auto simp: TakeFaulted_def bind_eq_Some_conv Let_def)
  have "drained (wt_tail s1) s1" using q by (auto simp: drained_def)
  from take_slots_run [OF s2(1) l1(1) this, of p 0] q l1(2) p
  have t: "\<forall>q \<in> set ps. valid q" "p \<in> set ps" by auto
  show ?thesis unfolding s2(2) page_runs_ranges(1) [OF t(1)]
    using t(2) valid_next [OF assms(3)] by (intro bexI [of _ p]) (auto simp: word_less_nat_alt)
qed

section \<open>The owner's operations\<close>

lemma aligned_page_list: "aligned f \<Longrightarrow> x \<in> set (page_list f e) \<Longrightarrow> aligned x"
proof -
  assume f: "aligned f" and x: "x \<in> set (page_list f e)"
  from x obtain i where i: "x = f + of_nat i * kPage" by (auto simp: page_list_def)
  have "unat x = (unat f + i * 4096) mod 2 ^ 64"
    unfolding i by (simp add: kPage_eq unat_word_ariths unat_of_nat mod_simps)
  then have "unat x mod 4096 = (unat f + i * 4096) mod 4096" by (simp add: mod_mod_cancel)
  then show "aligned x" using f by (simp add: aligned_unat)
qed

lemma NoteWrite_leads: "leads b p c s (NoteWrite a n s)"
  by (auto simp: leads_def tracker_ok_def queue_ok_def drained_def in_slot_def firm_def safe_def guarded_def reportable_def
      slotted_def held_def NoteWrite_def)

lemma NoteWrite_firm: "enabled s \<Longrightarrow> n \<noteq> 0 \<Longrightarrow> PageDown a \<le> p \<Longrightarrow> p < PageUp (a + n) \<Longrightarrow> firm (NoteWrite a n s) p"
  by (simp add: firm_def NoteWrite_def)

lemma notes_lead: "leads b p c s (fold (\<lambda>(a, n). NoteWrite a n) ns s)"
proof (induction ns arbitrary: s)
  case (Cons x ns)
  obtain a n where "x = (a, n)" by fastforce
  then show ?case using leads_trans [OF NoteWrite_leads Cons.IH] by simp
qed simp

lemma act_noted: "wt_act_step a s = Some s' \<Longrightarrow> in_ranges (wt_noted s) p \<or> in_ranges (wt_remapped s) p \<Longrightarrow>
    in_ranges (wt_noted s') p \<or> in_ranges (wt_remapped s') p"
proof (cases a)
  case (Move t)
  then show "wt_act_step a s = Some s' \<Longrightarrow> in_ranges (wt_noted s) p \<or> in_ranges (wt_remapped s) p \<Longrightarrow>
      in_ranges (wt_noted s') p \<or> in_ranges (wt_remapped s') p"
    by (cases "wt_threads s t")
       (auto simp: bind_eq_Some_conv exchange_def NoteRemap_def split: if_splits dest!: claim_slotD)
qed (auto simp: Let_def OnWriteFault_def exchange_def NoteWrite_def split: if_splits option.splits)

lemma acts_noted: "wt_acts as s = Some s' \<Longrightarrow> in_ranges (wt_noted s) p \<or> in_ranges (wt_remapped s) p \<Longrightarrow>
    in_ranges (wt_noted s') p \<or> in_ranges (wt_remapped s') p"
proof (induction as arbitrary: s)
  case (Cons a as)
  then obtain s1 where "wt_act_step a s = Some s1" "wt_acts as s1 = Some s'" by (auto simp: bind_eq_Some_conv)
  then show ?case using Cons.IH act_noted Cons.prems(2) by blast
qed simp

lemma interfere_noted: "interfere s = Some s' \<Longrightarrow> in_ranges (wt_noted s) p \<or> in_ranges (wt_remapped s) p \<Longrightarrow>
    in_ranges (wt_noted s') p \<or> in_ranges (wt_remapped s') p"
  using acts_noted [of _ "s\<lparr>wt_others := tl (wt_others s)\<rparr>" s' p] by (auto simp: interfere_def split: list.splits)

lemma drain_remapped_leads: "drain_remapped h rs s = Some s' \<Longrightarrow> \<forall>(f, e) \<in> set rs. aligned f \<and> aligned e \<Longrightarrow>
    (b \<Longrightarrow> aligned p \<and> \<not> in_ranges rs p) \<Longrightarrow> leads b p c s s'"
proof (induction rs arbitrary: s)
  case (Cons x rs)
  obtain f e where x: "x = (f, e)" by fastforce
  from Cons.prems(1) obtain s1 where s1: "EraseArmed h f e (drop_registered f e s) = Some s1" "drain_remapped h rs s1 = Some s'"
    unfolding x by (auto simp: bind_eq_Some_conv)
  have "leads b p c (drop_registered f e s) s1"
    by (rule EraseArmed_leads [OF s1(1)]) (use Cons.prems x in auto)
  moreover have "leads b p c s1 s'" by (rule Cons.IH [OF s1(2)]) (use Cons.prems x in auto)
  ultimately show ?case by (meson leads_trans runs_leads(3))
qed simp

lemma Drain_reports:
  assumes "Drain h s = Some (out, s')" "aligned p"
  shows "reports p c s out s'" and "tracker_ok s \<Longrightarrow> firm s p \<Longrightarrow> \<forall>t. \<not> mapping_at (wt_threads s t) p \<Longrightarrow> in_ranges out p"
    and "tracker_ok s \<Longrightarrow> p \<noteq> 0 \<Longrightarrow> in_slot i p s \<Longrightarrow> in_slot i p s'"
proof -
  obtain s1 where s1: "interfere s = Some s1"
      "drain_remapped h (wt_remapped s1) (s1\<lparr>wt_noted := [], wt_remapped := []\<rparr>) = Some s'"
      "out = wt_noted s1 @ wt_remapped s1"
    using assms(1) by (auto simp: Drain_def bind_eq_Some_conv Let_def)
  let ?s = "s1\<lparr>wt_noted := [], wt_remapped := []\<rparr>"
  have l: "leads True p c s s1" by (rule interfere_leads [OF s1(1)])
  have k: "leads (\<not> in_ranges out p) p c ?s s'" if "tracker_ok s1"
    by (rule drain_remapped_leads [OF s1(2)]) (use that assms(2) s1(3) in \<open>auto simp: tracker_ok_def\<close>)
  have m: "tracker_ok s1 \<Longrightarrow> tracker_ok ?s" "safe p c s1 \<Longrightarrow> safe p c ?s \<or> in_ranges out p" "in_slot i p s1 \<Longrightarrow> in_slot i p ?s"
    using s1(3) by (auto simp: tracker_ok_def queue_ok_def safe_def guarded_def reportable_def slotted_def held_def in_slot_def)
  show "reports p c s out s'"
    using l k m by (auto simp: reports_def leads_def)
  show "in_slot i p s'" if "tracker_ok s" "p \<noteq> 0" "in_slot i p s"
  proof -
    have "tracker_ok s1" "in_slot i p s1" using l that by (auto simp: leads_def)
    then show ?thesis using k m that(2) by (auto simp: leads_def)
  qed
  show "in_ranges out p" if ok: "tracker_ok s" "firm s p" "\<forall>t. \<not> mapping_at (wt_threads s t) p"
  proof -
    have "in_ranges (wt_noted s) p \<or> in_ranges (wt_remapped s) p" using ok by (simp add: firm_def)
    then show ?thesis using interfere_noted [OF s1(1), of p] s1(3) by auto
  qed
qed


lemma report_armed [simp]: "pg_armed (report_page fr r) = pg_armed r"
  by (simp add: report_page_def Let_def)

lemma count_one_leads:
  assumes "aligned q"
  shows "leads b p c s (s\<lparr>wt_reported := wt_reported s @ [q]\<rparr>)"
  using assms by (auto simp: leads_def tracker_ok_def queue_ok_def drained_def in_slot_def firm_def safe_def guarded_def
      reportable_def slotted_def held_def)

lemma count_reports_leads: "\<forall>q \<in> set ps. aligned q \<Longrightarrow> leads b p c s (count_reports h ps s)"
proof (induction ps arbitrary: s)
  case (Cons q ps)
  let ?s = "s\<lparr>wt_written_pages := wt_written_pages s + 1\<rparr>"
  obtain r s1 where s1: "At_record h q ?s = (r, s1)" by fastforce
  have "leads b p c s ?s" by (rule leads_frame) simp_all
  then have l1: "leads b p c s s1" using At_record_leads [OF s1] by (rule leads_trans)
  show ?case
  proof (cases r)
    case None
    then have "count_reports h (q # ps) s = count_reports h ps s1" using s1 by (simp add: Let_def)
    then show ?thesis using Cons.IH [of s1] Cons.prems l1 by (metis leads_trans list.set_intros(2))
  next
    case (Some rec)
    let ?s2 = "if pg_report_frame rec \<noteq> wt_frame s1 then s1\<lparr>wt_reported := wt_reported s1 @ [q]\<rparr> else s1"
    let ?s3 = "?s2\<lparr>wt_table := upd_page q (report_page (wt_frame ?s2)) (wt_table ?s2)\<rparr>"
    have e: "count_reports h (q # ps) s = count_reports h ps ?s3" using s1 Some by (simp add: Let_def)
    have "leads b p c s1 ?s2" using Cons.prems count_one_leads by simp
    moreover have "leads b p c ?s2 ?s3" by (rule leads_frame) (simp_all add: page_at_upd)
    moreover have "leads b p c ?s3 (count_reports h ps ?s3)" using Cons.IH Cons.prems by simp
    ultimately show ?thesis unfolding e using l1 by (meson leads_trans)
  qed
qed simp



lemma notes_threads [simp]: "wt_threads (fold (\<lambda>(a, n). NoteWrite a n) ns s) = wt_threads s"
  by (induction ns arbitrary: s) auto

lemma Collect_reports:
  assumes "Collect h s = Some (out, s')" "aligned p" "tracker_ok s"
  shows "reports p c s out s'" and "p \<noteq> 0 \<Longrightarrow> reportable s p \<Longrightarrow> \<forall>t. wt_threads s t = Resting \<Longrightarrow> in_ranges out p"
proof -
  let ?s = "fold (\<lambda>(a, n). NoteWrite a n) (we_before h) s"
  let ?s0 = "?s\<lparr>wt_collects := wt_collects ?s + 1\<rparr>"
  have en: "enabled s" using assms(3) by (simp add: tracker_ok_def enabled_def)
  have l0: "leads True p c s ?s0"
    by (rule leads_trans [OF notes_lead]) (rule leads_frame, simp_all)
  have ok0: "tracker_ok ?s0" by (rule leads_ok [OF l0 assms(3)])
  obtain drained s1 where s1: "Drain h ?s0 = Some (drained, s1)" using assms(1) en
    by (auto simp: Collect_def bind_eq_Some_conv Let_def)
  note dr = Drain_reports [OF s1 assms(2)]
  have ok1: "tracker_ok s1" using dr(1) ok0 by (simp add: reports_def)
  then have m1: "wt_mode s1 = Fault_mode" by (simp add: tracker_ok_def)
  obtain written s2 where s2: "TakeFaulted h s1 = Some (written, s2)"
    using assms(1) en s1 m1 by (auto simp: Collect_def bind_eq_Some_conv Let_def)
  note tf = TakeFaulted_reports [OF s2 assms(2), of c]
  have ok2: "tracker_ok s2" using tf ok1 by (simp add: reports_def)
  then have m2: "wt_mode s2 = Fault_mode" by (simp add: tracker_ok_def)
  let ?ps = "concat (map (\<lambda>(f, e). page_list (PageDown f) e) written)"
  obtain s3 where s3: "interfere s2 = Some s3" "out = drained @ written" "s' = count_reports h ?ps s3"
    using assms(1) en s1 m1 s2 m2 by (auto simp: Collect_def bind_eq_Some_conv Let_def)
  have "\<forall>q \<in> set ?ps. aligned q" using aligned_page_list [OF aligned_pages(1)] by auto
  then have "leads True p c s2 s'" unfolding s3(3)
    by (intro leads_trans [OF interfere_leads [OF s3(1)] count_reports_leads])
  then have "reports p c s1 (written @ []) s'" using reports_trans [OF tf] leads_reports by blast
  then have "reports p c ?s0 out s'" unfolding s3(2) using reports_trans [OF dr(1)] by simp
  with l0 show "reports p c s out s'" by (rule reports_leads)
  assume p: "p \<noteq> 0" "reportable s p" "\<forall>t. wt_threads s t = Resting"
  then have "firm s p \<or> state_of s p = kQueued \<and> slotted s p" by (auto simp: reportable_def firm_def held_def)
  then show "in_ranges out p"
  proof
    assume "firm s p"
    then have "firm ?s0 p" by (rule firm_leads [OF l0 assms(3)])
    then show ?thesis using dr(2) [OF ok0] p(3) s3(2) by simp
  next
    assume q: "state_of s p = kQueued \<and> slotted s p"
    then obtain i where "in_slot i p s" by (auto simp: slotted_def in_slot_def)
    then have "in_slot i p ?s0" using l0 assms(3) p(1) by (simp add: leads_def)
    then have "in_slot i p s1" by (rule dr(3) [OF ok0 p(1)])
    moreover have "valid p" using q p(1) assms(2) by (intro state_user [of p s]) simp_all
    ultimately show ?thesis using TakeFaulted_takes [OF s2 ok1] s3(2) by simp
  qed
qed

lemma page_bounds:
  assumes "aligned f" "aligned e"
  shows "PageDown f = f \<and> PageUp (f + (e - f)) = e"
proof -
  have down: "unat (x AND NOT 0xFFF) = unat x div 4096 * 4096" for x :: u64 using unat_page_down [of x 12] by simp
  obtain k where k: "unat e = 4096 * k" using assms(2) unfolding aligned_unat mod_eq_0_iff_dvd by (meson dvdE)
  then have "unat e + 4095 < 2 ^ 64" using unat_bound [of e] by simp
  then have "unat (e + 0xFFF) = unat e + 4095" by (simp add: unat_word_ariths)
  then have "unat ((e + 0xFFF) AND NOT 0xFFF) = unat e" unfolding down using k by simp
  then have "(e + 0xFFF) AND NOT 0xFFF = e" by (simp add: word_unat_eq_iff)
  moreover have "unat (f AND NOT 0xFFF) = unat f"
    unfolding down using assms(1) div_mult_mod_eq [of "unat f" 4096] by (simp add: aligned_unat)
  then have "f AND NOT 0xFFF = f" by (simp add: word_unat_eq_iff)
  ultimately show ?thesis by (simp add: page_mask PageUp_def kPage_def add.commute)
qed

lemma Release_leads:
  assumes "Release h a n s = Some s'" "aligned p"
  shows "leads True p c s s'"
proof (cases "\<not> enabled s \<or> n = 0 \<or> \<not> tracker_ok s")
  case True
  then show ?thesis using assms(1) by (auto simp: Release_def leads_def)
next
  case False
  then have ok: "tracker_ok s" and m: "wt_mode s = Fault_mode" by (auto simp: tracker_ok_def)
  from assms(1) False m obtain s1 s2 where s1: "DisarmFault h (PageDown a) (PageUp (a + n)) s = Some s1"
      "interfere s1 = Some s2" "s' = NoteWrite a n s2"
    by (auto simp: Release_def Let_def bind_eq_Some_conv)
  let ?b = "\<not> (PageDown a \<le> p \<and> p < PageUp (a + n))"
  have "leads ?b p c s s1" by (rule DisarmFault_leads [OF s1(1)]) (use assms(2) in auto)
  then have l: "leads ?b p c s s'" unfolding s1(3) using interfere_leads [OF s1(2)] NoteWrite_leads by (meson leads_trans)
  have "tracker_ok s2" using leads_ok [OF interfere_leads [OF s1(2)]] leads_ok [OF DisarmFault_leads [OF s1(1), of False p c]] ok
    by blast
  then have "enabled s2" by (simp add: tracker_ok_def enabled_def)
  then have "firm s' p" if "\<not> ?b" using NoteWrite_firm [of s2 n a p] that False s1(3) by simp
  then show ?thesis using l firm_safe [of s' p c] unfolding leads_def by (auto simp: safe_def)
qed

lemma make_volatile_leads: "leads b p c s (make_volatile h q s)"
proof -
  obtain r s1 where s1: "At_record h q s = (r, s1)" by fastforce
  have u: "leads b p c s1 (s1\<lparr>wt_table := upd_page q (\<lambda>r. r\<lparr>pg_volatile_until := v\<rparr>) (wt_table s1)\<rparr>)" for v
    by (rule leads_frame) (simp_all add: page_at_upd)
  show ?thesis
  proof (cases r)
    case None
    then show ?thesis using At_record_leads [OF s1] s1 by (simp add: make_volatile_def)
  next
    case (Some x)
    then show ?thesis using leads_trans [OF At_record_leads [OF s1] u] s1 by (simp add: make_volatile_def)
  qed
qed

lemma make_volatiles_lead: "leads b p c s (fold (make_volatile h) qs s)"
  by (induction qs arbitrary: s) (auto intro: leads_trans make_volatile_leads)

lemma demote_leads: "demote h rs s = Some s' \<Longrightarrow> \<forall>(f, e) \<in> set rs. aligned f \<and> aligned e \<Longrightarrow> aligned p \<Longrightarrow> leads True p c s s'"
proof (induction rs arbitrary: s)
  case (Cons x rs)
  obtain f e where x: "x = (f, e)" by fastforce
  have al: "aligned f" "aligned e" using Cons.prems(2) x by auto
  let ?v = "fold (make_volatile h) (page_list f e) s"
  from Cons.prems(1) obtain s1 s2 where s1: "Disarm h f e ?v = Some s1" "interfere s1 = Some s2"
      "demote h rs (NoteWrite f (e - f) s2) = Some s'"
    unfolding x by (auto simp: bind_eq_Some_conv)
  let ?s = "NoteWrite f (e - f) s2"
  let ?b = "\<not> (f \<le> p \<and> p < e)"
  show ?case
  proof (cases "tracker_ok s")
    case True
    have lv: "leads b' p c s ?v" for b' by (rule make_volatiles_lead)
    have okv: "tracker_ok ?v" by (rule leads_ok [OF lv True])
    then have d: "DisarmFault h f e ?v = Some s1" using s1(1) by (simp add: Disarm_def tracker_ok_def)
    have l1: "leads b' p c ?v s1" if "b' \<Longrightarrow> ?b" for b' by (rule DisarmFault_leads [OF d]) (use al Cons.prems(3) that in auto)
    have ok2: "tracker_ok s2" using leads_ok [OF interfere_leads [OF s1(2)]] leads_ok [OF l1 [of False] okv] by blast
    then have "enabled s2" by (simp add: tracker_ok_def enabled_def)
    then have "firm ?s p" if "\<not> ?b" using NoteWrite_firm [of s2 "e - f" f p] that page_bounds [OF al] by auto
    moreover have "leads ?b p c s ?s"
      using lv l1 [of ?b] interfere_leads [OF s1(2)] NoteWrite_leads by (meson leads_trans)
    ultimately have "leads True p c s ?s" using firm_safe [of ?s p c] unfolding leads_def by (auto simp: safe_def)
    moreover have "leads True p c ?s s'" by (rule Cons.IH [OF s1(3)]) (use Cons.prems(2,3) in auto)
    ultimately show ?thesis by (rule leads_trans)
  qed (simp add: leads_def)
qed simp

lemma hot_runs_aligned: "\<forall>q \<in> set qs. aligned q \<Longrightarrow> aligned f \<Longrightarrow> aligned e \<Longrightarrow> \<forall>(a, b) \<in> set (hot_runs f e qs). aligned a \<and> aligned b"
  by (induction f e qs rule: hot_runs.induct) (auto simp: kPage_eq aligned_next)

lemma EndFrame_leads:
  assumes "EndFrame h s = Some s'" "aligned p"
  shows "leads True p c s s'"
proof (cases "enabled s \<and> tracker_ok s")
  case True
  let ?s = "s\<lparr>wt_reported := [], wt_frame := wt_frame s + 1\<rparr>"
  let ?qs = "sort (filter (hot_page s) (wt_reported s))"
  have d: "demote h (demote_runs ?qs) ?s = Some s'" using assms(1) True by (simp add: EndFrame_def Let_def)
  have "\<forall>q \<in> set ?qs. aligned q" using True by (auto simp: tracker_ok_def)
  then have "\<forall>(f, e) \<in> set (demote_runs ?qs). aligned f \<and> aligned e"
  proof (cases ?qs)
    case (Cons q qs)
    then have "aligned q" "\<forall>x \<in> set qs. aligned x" using \<open>\<forall>q \<in> set ?qs. aligned q\<close> by simp_all
    then show ?thesis using hot_runs_aligned [of qs q "q + 4096"] aligned_next [of q] Cons
      by (simp add: demote_runs_def kPage_eq)
  qed (simp add: demote_runs_def)
  then have "leads True p c ?s s'" using demote_leads [OF d _ assms(2)] by blast
  moreover have "leads True p c s ?s"
    by (auto simp: leads_def tracker_ok_def queue_ok_def drained_def in_slot_def firm_def safe_def guarded_def
      reportable_def slotted_def held_def)
  ultimately show ?thesis by (meson leads_trans)
next
  case False
  then show ?thesis using assms(1) by (auto simp: EndFrame_def leads_def)
qed

section \<open>Runs of the tracker\<close>

text \<open>A call of the owner with the host's answers and what the others do during it, or actions between calls.\<close>

datatype wt_event = Owner_call wt_env wt_call "wt_act list list" | Others "wt_act list"

fun call_ok :: "wt_call \<Rightarrow> bool" where
  "call_ok (Call_arm a n) \<longleftrightarrow> request_ok a n"
| "call_ok _ \<longleftrightarrow> True"

fun event_ok :: "wt_event \<Rightarrow> bool" where
  "event_ok (Owner_call h call sched) \<longleftrightarrow> call_ok call \<and> (\<forall>as \<in> set sched. \<forall>a \<in> set as. act_ok a)"
| "event_ok (Others as) \<longleftrightarrow> (\<forall>a \<in> set as. act_ok a)"

fun wt_event_step :: "wt_event \<Rightarrow> tracker \<Rightarrow> (ranges \<times> tracker) option" where
  "wt_event_step (Owner_call h call sched) s = do { (_, out, s) \<leftarrow> wt_exec h call sched s; Some (out, s) }"
| "wt_event_step (Others as) s = do { s \<leftarrow> wt_acts as s; Some ([], s) }"

fun wt_run :: "wt_event list \<Rightarrow> tracker \<Rightarrow> (ranges \<times> tracker) option" where
  "wt_run [] s = Some ([], s)"
| "wt_run (e # es) s = do {
     (out, s) \<leftarrow> wt_event_step e s;
     (out', s) \<leftarrow> wt_run es s;
     Some (out @ out', s) }"

lemma schedule_leads: "\<forall>as \<in> set sched. \<forall>a \<in> set as. act_ok a \<Longrightarrow> leads b p c s (s\<lparr>wt_others := sched\<rparr>)"
  by (auto simp: leads_def tracker_ok_def queue_ok_def drained_def in_slot_def firm_def safe_def guarded_def
      reportable_def slotted_def held_def)

lemma exec_reports:
  assumes "wt_exec h call sched s = Some (ok, out, s')" "call_ok call" "aligned p" "tracker_ok s"
    "\<forall>as \<in> set sched. \<forall>a \<in> set as. act_ok a"
  shows "reports p c s out s'"
proof -
  let ?s = "s\<lparr>wt_others := sched\<rparr>"
  have l: "leads True p c s ?s" by (rule schedule_leads [OF assms(5)])
  have ok: "tracker_ok ?s" by (rule leads_ok [OF l assms(4)])
  have "reports p c ?s out s'"
  proof (cases call)
    case (Call_arm a n)
    then have "Arm h a n ?s = Some (ok, s')" "out = []" "request_ok a n" using assms(1,2) by (auto simp: bind_eq_Some_conv)
    then have "leads (safe p c ?s) p c ?s s'" "out = []" using Arm_leads ok assms(3) by blast+
    then show ?thesis by (simp add: reports_def leads_def)
  next
    case Call_collect
    then have "Collect h ?s = Some (out, s')" using assms(1) by (auto simp: bind_eq_Some_conv)
    then show ?thesis using assms(3) ok by (rule Collect_reports(1))
  next
    case (Call_release a n)
    then have "Release h a n ?s = Some s'" "out = []" using assms(1) by (auto simp: bind_eq_Some_conv)
    then show ?thesis using Release_leads [OF _ assms(3)] leads_reports by blast
  next
    case Call_end_frame
    then have "EndFrame h ?s = Some s'" "out = []" using assms(1) by (auto simp: bind_eq_Some_conv)
    then show ?thesis using EndFrame_leads [OF _ assms(3)] leads_reports by blast
  qed
  with l show ?thesis by (rule reports_leads)
qed

lemma event_reports:
  assumes "wt_event_step e s = Some (out, s')" "event_ok e" "aligned p" "tracker_ok s"
  shows "reports p c s out s'"
proof (cases e)
  case (Owner_call h call sched)
  then obtain ok where "wt_exec h call sched s = Some (ok, out, s')"
    using assms(1) by (auto simp: bind_eq_Some_conv)
  then show ?thesis using exec_reports assms(2-4) Owner_call by simp
next
  case (Others as)
  then have "wt_acts as s = Some s'" "out = []" "\<forall>a \<in> set as. act_ok a"
    using assms(1,2) by (auto simp: bind_eq_Some_conv)
  then show ?thesis using acts_lead leads_reports by blast
qed

lemma run_reports: "wt_run evs s = Some (out, s') \<Longrightarrow> \<forall>e \<in> set evs. event_ok e \<Longrightarrow> aligned p \<Longrightarrow> tracker_ok s \<Longrightarrow>
    reports p c s out s'"
proof (induction evs arbitrary: s out)
  case (Cons e evs)
  from Cons.prems(1) obtain o1 s1 o2 where s1: "wt_event_step e s = Some (o1, s1)" "wt_run evs s1 = Some (o2, s')" "out = o1 @ o2"
    by (auto simp: bind_eq_Some_conv)
  have r: "reports p c s o1 s1" by (rule event_reports [OF s1(1)]) (use Cons.prems in auto)
  then have "tracker_ok s1" using Cons.prems(4) by (simp add: reports_def)
  then have "reports p c s1 o2 s'" using Cons s1(2) by auto
  with r show ?case unfolding s1(3) by (rule reports_trans)
qed (simp add: reports_def)

text \<open>A protected page that no thread is opening stays so, or the report of it is in a collection.\<close>

lemma unreported_guarded:
  assumes "tracker_ok s" "guarded s p c" "aligned p" "p \<noteq> 0"
    and "wt_run evs s = Some (out, s1)" "\<forall>e \<in> set evs. event_ok e" "\<forall>t. wt_threads s1 t = Resting"
    and "Collect h s1 = Some (out', s2)" "\<not> in_ranges (out @ out') p"
  shows "guarded s1 p c"
proof -
  have ok: "tracker_ok s1" and "safe p c s1"
    using run_reports [OF assms(5,6,3,1), of c] assms(1-4,9) by (auto simp: reports_def safe_def)
  moreover have "\<not> reportable s1 p" using Collect_reports(2) [OF assms(8,3) ok assms(4) _ assms(7)] assms(9) by auto
  ultimately show ?thesis by (simp add: safe_def)
qed

end
