(* ===== verification/Tracker_Arm.thy ===== *)
theory Tracker_Arm
  imports Tracker_Safe
begin

text \<open>
  What a successful \<open>Arm\<close> leaves behind when nothing interferes: every page of the range is protected and
  holds what it held. Together with the safety of later runs: what the caller copies after arming stays
  current until it is reported.
\<close>

text \<open>Between the other threads' accesses a protected page is not writable, and a page has one of three states.\<close>

definition page_sealed :: "tracker \<Rightarrow> u64 \<Rightarrow> bool" where
  "page_sealed s q \<longleftrightarrow> state_of s q = kProtected \<and> \<not> wt_writable s q \<or> state_of s q = kOpen \<or> state_of s q = kQueued"

definition alone :: "tracker \<Rightarrow> bool" where
  "alone s \<longleftrightarrow> wt_others s = [] \<and> (\<forall>t. wt_threads s t = Resting)"

lemma interfere_alone: "wt_others s = [] \<Longrightarrow> interfere s = Some s"
  by (simp add: interfere_def)

lemma all_armed_alone: "wt_others s = [] \<Longrightarrow> all_armed ps s = Some (ok, s') \<Longrightarrow>
    s' = s \<and> (ok \<longleftrightarrow> (\<forall>p \<in> set ps. state_of s p = kProtected))"
proof (induction ps)
  case (Cons p ps)
  then show ?case using armed_of_state [of kProtected p s]
    by (auto simp: interfere_alone kProtected_def split: if_splits)
qed simp

lemma may_arm_alone: "wt_others s = [] \<Longrightarrow> may_arm ps s = Some (ok, s') \<Longrightarrow>
    s' = s \<and> (ok \<longrightarrow> (\<forall>p \<in> set ps. state_of s p \<noteq> kQueued))"
  by (induction ps) (auto simp: interfere_alone page_at_def Page_new_def kQueued_def split: if_splits option.splits)

lemma protect_run_alone:
  assumes "protect_run h run stop s = Some (True, s')" "wt_others s = []"
  shows "s' = (if run = 0 then s else mprotect run stop False s)"
proof -
  have "False" if "do { s \<leftarrow> reopen (page_list run stop) s; Some (False, s) } = Some (True, s')" for s
    using that by (auto simp: bind_eq_Some_conv)
  then show ?thesis using assms by (auto simp: protect_run_def interfere_alone split: if_splits)
qed

lemma At_record_alone: "At_record h q s = (Some r, s') \<Longrightarrow> (\<forall>p. state_of s' p = state_of s p) \<and> Find_page q (wt_table s') \<noteq> None
    \<and> wt_others s' = wt_others s \<and> wt_writable s' = wt_writable s \<and> wt_content s' = wt_content s \<and> wt_threads s' = wt_threads s"
  using Find_At [of "we_room h" q "wt_table s" r] by (auto simp: At_record_def split_beta)

lemma state_store: "Find_page q (wt_table s) \<noteq> None \<Longrightarrow> aligned q \<Longrightarrow> aligned p \<Longrightarrow>
    state_of (set_armed q v s) p = (if p = q then v else state_of s p)"
  by (auto simp: set_armed_def page_at_upd same_aligned)

lemma sealed_cong: "state_of s q = state_of s' q \<Longrightarrow> wt_writable s = wt_writable s' \<Longrightarrow> page_sealed s q = page_sealed s' q"
  by (simp add: page_sealed_def)

lemma close_run:
  assumes "if run \<noteq> 0 \<and> run \<le> q \<and> q < cur then state_of s q = kProtected else page_sealed s q"
  shows "page_sealed (if run = 0 then s else mprotect run cur False s) q"
  using assms by (cases "run \<noteq> 0 \<and> run \<le> q \<and> q < cur") (auto simp: page_sealed_def)

text \<open>While the loop runs, the pages of the current run are marked and not yet protected.\<close>

lemma arm_pages_alone:
  assumes "arm_pages h (page_list cur e) e run s = Some (True, s')" "wt_others s = []" "aligned cur" "aligned e"
    "cur \<noteq> 0" "cur \<le> e" "run \<le> cur" "aligned x"
    "if run \<noteq> 0 \<and> run \<le> x \<and> x < cur then state_of s x = kProtected else page_sealed s x"
    "cur \<le> x \<and> x < e \<Longrightarrow> state_of s x \<noteq> kQueued"
  shows "page_sealed s' x \<and> wt_content s' = wt_content s \<and> wt_threads s' = wt_threads s
    \<and> (state_of s x = kProtected \<or> cur \<le> x \<and> x < e \<longrightarrow> state_of s' x = kProtected)"
  using assms
proof (induction "page_list cur e" arbitrary: cur run s)
  case Nil
  have "\<not> cur < e"
  proof
    assume "cur < e"
    from page_list_step [OF Nil.prems(3,4) this] Nil.hyps show False by simp
  qed
  then have "cur = e" using Nil.prems(6) by simp
  then have "protect_run h run e s = Some (True, s')" using Nil.prems(1) Nil.hyps by simp
  then have "s' = (if run = 0 then s else mprotect run e False s)" using Nil.prems(2) by (rule protect_run_alone)
  moreover have "page_sealed s' x"
    unfolding calculation using close_run [OF Nil.prems(9)] \<open>cur = e\<close> by (cases "run = 0") simp_all
  ultimately show ?case using \<open>cur = e\<close> by auto
next
  case (Cons q ps)
  have lt: "cur < e" using Cons.hyps(2) page_list_end [of cur e] by (cases "cur < e") auto
  note step = page_list_step [OF Cons.prems(3,4) lt]
  then have q: "q = cur" "ps = page_list (cur + 4096) e" using Cons.hyps(2) by auto
  have nx: "cur + 4096 \<le> e" "aligned (cur + 4096)" "cur + 4096 \<noteq> 0" "cur < cur + 4096"
    using aligned_gap [OF Cons.prems(4,3) lt] aligned_next [OF Cons.prems(3)] by (auto simp: word_less_nat_alt)
  have split: "x < cur + 4096 \<longleftrightarrow> x < cur \<or> x = cur"
    using aligned_in_page [OF Cons.prems(8,3)] nx(4) by (cases "cur \<le> x") (auto simp: not_le intro: order_less_trans)
  have rest: "cur \<le> x \<and> x < e \<longleftrightarrow> x = cur \<or> cur + 4096 \<le> x \<and> x < e"
    using split lt nx(4) by (auto simp: not_less [symmetric] intro: order_less_imp_le order_less_le_trans)
  have run: "arm_pages h (cur # page_list (cur + 4096) e) e run s = Some (True, s')" using Cons.prems(1) unfolding step .
  obtain r s2 where s2: "At_record h cur s = (Some r, s2)" using run Cons.prems(2)
    by (auto simp: interfere_alone split: option.splits prod.splits)
  note a2 = At_record_alone [OF s2]
  have o2: "wt_others s2 = []" using a2 Cons.prems(2) by simp
  have st: "pg_armed r = state_of s cur" using At_record_state [OF s2] a2 by simp
  show ?case
  proof (cases "pg_armed r = kOpen")
    case False
    then obtain s3 where s3: "protect_run h run cur s2 = Some (True, s3)" "arm_pages h (page_list (cur + 4096) e) e 0 s3 = Some (True, s')"
      using run s2 Cons.prems(2) by (auto simp: interfere_alone bind_eq_Some_conv split: if_splits)
    have e3: "s3 = (if run = 0 then s2 else mprotect run cur False s2)" by (rule protect_run_alone [OF s3(1) o2])
    have p3: "state_of s3 y = state_of s y" "wt_content s3 = wt_content s" "wt_threads s3 = wt_threads s" "wt_others s3 = []" for y
      using a2 o2 by (auto simp: e3)
    have cur: "state_of s x = kProtected" if "x = cur"
      using False st Cons.prems(9,10) lt that by (auto simp: page_sealed_def)
    have "if run \<noteq> 0 \<and> run \<le> x \<and> x < cur then state_of s2 x = kProtected else page_sealed s2 x"
      using Cons.prems(9) a2 sealed_cong [of s2 x s] by presburger
    then have seal: "page_sealed s3 x" unfolding e3 by (rule close_run)
    have "page_sealed s' x \<and> wt_content s' = wt_content s3 \<and> wt_threads s' = wt_threads s3
      \<and> (state_of s3 x = kProtected \<or> cur + 4096 \<le> x \<and> x < e \<longrightarrow> state_of s' x = kProtected)"
      by (rule Cons.hyps(1) [OF q(2) s3(2)]) (use nx Cons.prems(4,8,10) rest p3 seal in auto)
    then show ?thesis using p3 cur rest by auto
  next
    case True
    let ?s2 = "s2\<lparr>wt_table := upd_page cur (\<lambda>r. r\<lparr>pg_ever_armed := 1\<rparr>) (wt_table s2)\<rparr>"
    let ?s3 = "set_armed cur kProtected ?s2"
    let ?run = "if run = 0 then cur else run"
    have s3: "arm_pages h (page_list (cur + 4096) e) e ?run ?s3 = Some (True, s')"
      using run s2 True Cons.prems(2) o2 by (simp add: interfere_alone bind_eq_Some_conv Let_def)
    have f2: "Find_page cur (wt_table ?s2) \<noteq> None" using a2 Find_upd_kept by simp
    have p3: "state_of ?s3 x = (if x = cur then kProtected else state_of s x)"
      unfolding state_store [OF f2 Cons.prems(3,8)] using a2 by (simp add: page_at_upd)
    have k3: "wt_content ?s3 = wt_content s" "wt_threads ?s3 = wt_threads s" "wt_others ?s3 = []" "wt_writable ?s3 = wt_writable s"
      using a2 o2 by auto
    have "page_sealed s' x \<and> wt_content s' = wt_content ?s3 \<and> wt_threads s' = wt_threads ?s3
      \<and> (state_of ?s3 x = kProtected \<or> cur + 4096 \<le> x \<and> x < e \<longrightarrow> state_of s' x = kProtected)"
    proof (rule Cons.hyps(1) [OF q(2) s3])
      show "if ?run \<noteq> 0 \<and> ?run \<le> x \<and> x < cur + 4096 then state_of ?s3 x = kProtected else page_sealed ?s3 x"
        using Cons.prems(5,7,9) split p3 k3(4) by (auto simp: page_sealed_def not_le split: if_splits)
      show "state_of ?s3 x \<noteq> kQueued" if "cur + 4096 \<le> x \<and> x < e"
        using Cons.prems(10) rest p3 that by (auto simp: kProtected_def kQueued_def)
    qed (use nx Cons.prems(4,7,8) k3 in \<open>auto intro: order_trans order_less_imp_le\<close>)
    moreover have "state_of ?s3 x = kProtected \<or> cur + 4096 \<le> x \<and> x < e"
      if "state_of s x = kProtected \<or> cur \<le> x \<and> x < e"
      using p3 rest that by auto
    ultimately show ?thesis using k3(1,2) by (metis (lifting))
  qed
qed

lemma page_list_mem: "aligned f \<Longrightarrow> aligned e \<Longrightarrow> aligned q \<Longrightarrow> f \<le> q \<Longrightarrow> q < e \<Longrightarrow> q \<in> set (page_list f e)"
proof (induction "page_list f e" arbitrary: f)
  case Nil
  have "f < e" using Nil.prems(4,5) by (rule order_le_less_trans)
  then show ?case using Nil.hyps page_list_step [OF Nil.prems(1,2)] by simp
next
  case (Cons x ps)
  have "f < e" using Cons.prems(4,5) by (rule order_le_less_trans)
  note step = page_list_step [OF Cons.prems(1,2) this]
  show ?case
  proof (cases "q = f")
    case False
    then have "f + 4096 \<le> q" using aligned_gap [OF Cons.prems(3,1)] Cons.prems(4) by simp
    then have "q \<in> set (page_list (f + 4096) e)"
      using Cons.hyps Cons.prems step aligned_next by simp
    then show ?thesis unfolding step by simp
  qed (simp add: step)
qed

lemma ArmFault_alone:
  assumes "ArmFault h f e s = Some (True, s')" "wt_others s = []" "aligned f" "aligned e" "f \<noteq> 0" "f \<le> e"
    "aligned p" "page_sealed s p" "f \<le> p" "p < e"
  shows "page_sealed s' p \<and> wt_content s' = wt_content s \<and> wt_threads s' = wt_threads s \<and> state_of s' p = kProtected"
proof -
  obtain s2 s3 where s3: "may_arm (page_list f e) s = Some (True, s2)" "arm_pages h (page_list f e) e 0 s2 = Some (True, s3)"
      "s' = add_armed f e s3"
    using assms(1,2) by (auto simp: ArmFault_def interfere_alone bind_eq_Some_conv split: if_splits)
  from may_arm_alone [OF assms(2) s3(1)] have m: "s2 = s" "\<forall>q \<in> set (page_list f e). state_of s q \<noteq> kQueued" by auto
  then have "state_of s p \<noteq> kQueued" using page_list_mem [OF assms(3,4,7,9,10)] by simp
  then have "page_sealed s3 p \<and> wt_content s3 = wt_content s \<and> wt_threads s3 = wt_threads s
      \<and> (state_of s p = kProtected \<or> f \<le> p \<and> p < e \<longrightarrow> state_of s3 p = kProtected)"
    using assms(8) by (intro arm_pages_alone [OF s3(2) [unfolded m(1)] assms(2-6) _ assms(7)]) auto
  then show ?thesis using assms(9,10) unfolding s3(3) by (auto simp: add_armed_def page_sealed_def split_beta)
qed

lemma Arm_guards:
  assumes "Arm h a n s = Some (True, s')" "tracker_ok s" "alone s" "request_ok a n"
    "aligned p" "page_sealed s p" "PageDown a \<le> p" "p < PageUp (a + n)"
  shows "guarded s' p (wt_content s p)"
proof -
  let ?f = "PageDown a" and ?e = "PageUp (a + n)"
  have o: "wt_others s = []" and t: "\<forall>t. wt_threads s t = Resting" using assms(3) by (auto simp: alone_def)
  have mode: "wt_mode s = Fault_mode" using assms(2) by (simp add: tracker_ok_def)
  obtain ok s1 where s1: "all_armed (page_list ?f ?e) s = Some (ok, s1)" "if ok then s' = s1 else ArmFault h ?f ?e s1 = Some (True, s')"
    using assms(1) mode all_armed_alone [OF o]
    by (fastforce simp: Arm_def ArmRange_def AllArmed_def Let_def bind_eq_Some_conv split: if_splits)
  from all_armed_alone [OF o s1(1)] have a1: "s1 = s" "ok \<longrightarrow> state_of s p = kProtected"
    using page_list_mem [OF _ _ assms(5,7,8)] by auto
  have "page_sealed s' p \<and> wt_content s' = wt_content s \<and> wt_threads s' = wt_threads s \<and> state_of s' p = kProtected"
  proof (cases ok)
    case True
    then show ?thesis using s1(2) a1 assms(6) by simp
  next
    case False
    then have "ArmFault h ?f ?e s = Some (True, s')" using s1(2) a1(1) by simp
    then show ?thesis using o request_down [OF assms(4)] assms(4-8) by (intro ArmFault_alone) (auto simp: request_ok_def)
  qed
  then show ?thesis using t by (auto simp: guarded_def page_sealed_def kProtected_def kOpen_def kQueued_def)
qed


lemma tracker_ok_init: "we_queue h \<Longrightarrow> \<not> we_scan_option h \<Longrightarrow> tracker_ok (snd (Enable h tracker_init))"
  by (auto simp: Enable_def enabled_def EnableFault_def tracker_init_def tracker_ok_def queue_ok_def page_table_init_def
      page_at_def Find_page_def FindChunk_def Page_new_def kProtected_def Let_def)

lemma page_sealed_init: "we_queue h \<Longrightarrow> \<not> we_scan_option h \<Longrightarrow> page_sealed (snd (Enable h tracker_init)) p"
  by (auto simp: Enable_def enabled_def EnableFault_def tracker_init_def page_sealed_def page_table_init_def
      page_at_def Find_page_def FindChunk_def Page_new_def kOpen_def Let_def)


section \<open>Runs that are evaluated\<close>

text \<open>A host that grants everything, with the tracker on, two pages armed, and one of them written.\<close>

definition quiet_env :: wt_env where
  "quiet_env = \<lparr>we_room = (\<lambda>_. True), we_queue = True, we_scan_option = False, we_uffd = True,
     we_mprotect = (\<lambda>_ _. True), we_register = (\<lambda>_ _. True), we_writeprotect = (\<lambda>_ _. True), we_scan = (\<lambda>_ _. []),
     we_faults = 0, we_arm_filter = (\<lambda>_ _. True), we_before = []\<rparr>"

definition tracker_on :: tracker where "tracker_on = snd (Enable quiet_env tracker_init)"

lemmas state_eval = quiet_env_def tracker_on_def Enable_def enabled_def EnableFault_def tracker_init_def page_table_init_def
  interfere_def armed_of_def set_armed_def exchange_def mprotect_def claim_slot_def fill_slot_def at_pc_def At_record_def
  At_page_def ChunkAt_def FindChunk_def Find_page_def upd_page_def page_slot_def shift_consts Page_new_def Chunk_new_def
  kPage_def kOpen_def kProtected_def kQueued_def PageDown_def PageUp_def aligned_end_def Let_def bind_eq_Some_conv
  kQueueSize_def upper_bound_def back_if_def

lemmas arm_eval = Arm_def AllArmed_def ArmRange_def ArmFault_def protect_run_def add_armed_def InsertRun_def

lemmas collect_eval = OnWriteFault_def Collect_def Drain_def TakeFaulted_def take_slot.simps page_runs_def drop_armed_def
  EraseRun_def EraseArmed_def MarkArmed_def drop_registered_def NoteRemap_def report_page_def

lemma two_pages: "page_list 0x10000 0x12000 = [0x10000, 0x11000]" "page_list 0x10000 0x11000 = [0x10000]"
    "page_list 0x11000 0x12000 = [0x11000]"
  by (simp_all add: page_list_def kPage_def upt_rec)

definition armed_two :: tracker where
  "armed_two = tracker_on\<lparr>wt_table := page_table_init(0 \<mapsto> Chunk_new\<lparr>ck_pages := (\<lambda>_. Page_new)
      (16 := Page_new\<lparr>pg_armed := 1, pg_ever_armed := 1\<rparr>, 17 := Page_new\<lparr>pg_armed := 1, pg_ever_armed := 1\<rparr>)\<rparr>),
    wt_writable := (\<lambda>p. \<not> (0x10000 \<le> p \<and> p < 0x12000)), wt_armed := [(0x10000, 0x12000)], wt_armed_bytes := 0x2000\<rparr>"

lemma arm_two: "Arm quiet_env 0x10000 0x2000 tracker_on = Some (True, armed_two)"
  by (simp add: state_eval arm_eval two_pages armed_two_def)

text \<open>A thread faults on the second page while the owner collects, and the owner waits for its slot.\<close>

definition one_store :: "wt_event list" where
  "one_store = [Owner_call quiet_env Call_collect [[Store 1 0x11008 7, Move 1, Move 1], [], [], [Move 1]],
     Others [Store 1 0x11008 7]]"

lemma one_store_run: "\<exists>s. wt_run one_store armed_two = Some ([(0x11000, 0x12000)], s) \<and> (\<forall>t. wt_threads s t = Resting)
    \<and> wt_content s 0x10000 = 0 \<and> wt_content s 0x11000 = 7 \<and> (\<exists>s'. Collect quiet_env s = Some ([], s'))"
  by (simp add: one_store_def state_eval collect_eval armed_two_def two_pages)


text \<open>
  \<open>OnHostWrite\<close> puts a page into the queue before its \<open>mprotect\<close>. When the owner collects and arms the page
  in between, the \<open>mprotect\<close> opens a page that is marked protected, and later stores are never reported.
\<close>

definition late_mprotect :: "wt_event list" where
  "late_mprotect = [Others [Host_write 1 0x10000 0x1000, Move 1, Move 1, Move 1], Owner_call quiet_env Call_collect [],
     Owner_call quiet_env (Call_arm 0x10000 0x1000) [], Others [Move 1, Store 2 0x10000 5]]"

lemma late_mprotect_unreported: "\<exists>s. wt_run late_mprotect armed_two = Some ([(0x10000, 0x11000)], s)
    \<and> (\<forall>t. wt_threads s t = Resting) \<and> armed_of 0x10000 s = Some kProtected \<and> wt_writable s 0x10000 \<and> wt_content s 0x10000 = 5
    \<and> (\<exists>s'. Collect quiet_env s = Some ([], s'))"
  by (simp add: late_mprotect_def state_eval collect_eval arm_eval armed_two_def two_pages)

text \<open>
  A range that is armed between a \<open>NoteRemap\<close> and the collection that drains it is marked open while it is
  still protected: a thread that writes there faults again and again and nobody opens the page.
\<close>

definition armed_remap :: "wt_event list" where
  "armed_remap = [Others [Remap 1 0x10000 0x1000 3, Move 1], Owner_call quiet_env (Call_arm 0x10000 0x1000) [],
     Owner_call quiet_env Call_collect [], Others [Store 1 0x10000 5, Store 1 0x10000 5]]"

lemma armed_remap_stuck: "\<exists>s. wt_run armed_remap tracker_on = Some ([(0x10000, 0x11000)], s) \<and> armed_of 0x10000 s = Some kOpen
    \<and> \<not> wt_writable s 0x10000 \<and> wt_content s 0x10000 = 3 \<and> wt_act_step (Store 1 0x10000 5) s = Some s"
  by (simp add: armed_remap_def state_eval collect_eval arm_eval two_pages) (auto simp: word_le_nat_alt)

text \<open>
  \<open>ArmFault\<close> gives up on a page without a record and leaves the pages before it marked and not
  protected; the next \<open>Arm\<close> believes the marks, and stores are not reported.
\<close>

lemma pages_of_boundary: "page_list 0x3FFFF000 0x40001000 = [0x3FFFF000, 0x40000000]" "page_list 0x3FFFF000 0x40000000 = [0x3FFFF000]"
  by (simp_all add: page_list_def kPage_def upt_rec)

lemma arm_gives_up_marked:
  "do { (ok, s) \<leftarrow> Arm (quiet_env\<lparr>we_room := (\<lambda>i. i = 0)\<rparr>) 0x3FFFF000 0x2000 tracker_on;
     (ok', s') \<leftarrow> Arm quiet_env 0x3FFFF000 0x1000 s;
     Some (ok, ok', wt_writable s' 0x3FFFF000) } = Some (False, True, True)"
  by (simp add: state_eval arm_eval pages_of_boundary word_le_nat_alt)

end
